(* ===== verification/Rust_Base.thy ===== *)
theory Rust_Base
  imports Main "HOL-Library.Word" "HOL-Library.Monad_Syntax" "HOL-Library.Signed_Division" "HOL-Library.Code_Target_Nat"
begin

text \<open>
  What the component theories share: Rust's machine integers as bounded natural numbers and
  integers, their checked, saturating, truncating and wrapping operations, and the generic list
  and option lemmas the component proofs use.

  An unsigned integer of width \<open>w\<close> is a \<open>nat\<close> below \<open>2 ^ w\<close>; a signed one an \<open>int\<close> between
  \<open>- 2 ^ (w - 1)\<close> and \<open>2 ^ (w - 1)\<close>. An operation that can leave the range is written with one of the
  functions below, so every overflow is a branch of the model: \<open>None\<close> for a checked operation (and
  for the plain operators of the futures workspace, which is built with \<open>overflow-checks\<close>, where an
  overflow aborts the instruction), the reduced value for a cast or a wrapping operation, the bound
  for a saturating one. Bit-level code works on \<open>'a word\<close> directly.
\<close>

type_synonym u8 = nat
type_synonym u16 = nat
type_synonym u32 = nat
type_synonym u64 = nat
type_synonym u128 = nat
type_synonym usize = nat
type_synonym i64 = int
type_synonym i128 = int
type_synonym byte = "8 word"
type_synonym pubkey = "byte list"

abbreviation U16_MAX :: nat where "U16_MAX \<equiv> 65535"
abbreviation U32_MAX :: nat where "U32_MAX \<equiv> 4294967295"
abbreviation U64_MAX :: nat where "U64_MAX \<equiv> 18446744073709551615"

named_theorems checked_simps \<open>when a checked operation returns, and what\<close>

definition in_int :: "nat \<Rightarrow> int \<Rightarrow> bool" where
  "in_int w x \<longleftrightarrow> - (2 ^ (w - 1)) \<le> x \<and> x < 2 ^ (w - 1)"

definition checked :: "nat \<Rightarrow> nat \<Rightarrow> nat option" where
  "checked w x = (if x < 2 ^ w then Some x else None)"

definition checked_add :: "nat \<Rightarrow> nat \<Rightarrow> nat \<Rightarrow> nat option" where
  "checked_add w a b = checked w (a + b)"

definition checked_mul :: "nat \<Rightarrow> nat \<Rightarrow> nat \<Rightarrow> nat option" where
  "checked_mul w a b = checked w (a * b)"

definition checked_sub :: "nat \<Rightarrow> nat \<Rightarrow> nat option" where
  "checked_sub a b = (if b \<le> a then Some (a - b) else None)"

definition checked_int :: "nat \<Rightarrow> int \<Rightarrow> int option" where
  "checked_int w x = (if in_int w x then Some x else None)"

definition cast :: "nat \<Rightarrow> nat \<Rightarrow> nat" where
  "cast w x = x mod 2 ^ w"

definition saturate :: "nat \<Rightarrow> nat \<Rightarrow> nat" where
  "saturate w x = min x (2 ^ w - 1)"

definition wrapping_add :: "nat \<Rightarrow> nat \<Rightarrow> nat \<Rightarrow> nat" where
  "wrapping_add w a b = (a + b) mod 2 ^ w"

definition wrapping_sub :: "nat \<Rightarrow> nat \<Rightarrow> nat \<Rightarrow> nat" where
  "wrapping_sub w a b = (a + 2 ^ w - b) mod 2 ^ w"

definition as_signed :: "nat \<Rightarrow> nat \<Rightarrow> int" where
  "as_signed w x = (let v = x mod 2 ^ w in if v < 2 ^ (w - 1) then int v else int v - 2 ^ w)"

definition unsigned_of :: "nat \<Rightarrow> int \<Rightarrow> nat" where
  "unsigned_of w x = nat (x mod 2 ^ w)"

definition cast_int :: "nat \<Rightarrow> int \<Rightarrow> int" where
  "cast_int w x = (x + 2 ^ (w - 1)) mod 2 ^ w - 2 ^ (w - 1)"

text \<open>Little-endian bytes: \<open>from_le_bytes\<close> and \<open>to_le_bytes\<close> of an \<open>n\<close>-byte unsigned integer.\<close>

fun from_le :: "byte list \<Rightarrow> nat" where
  "from_le [] = 0"
| "from_le (b # bs) = unat b + 256 * from_le bs"

fun to_le :: "nat \<Rightarrow> nat \<Rightarrow> byte list" where
  "to_le 0 x = []"
| "to_le (Suc n) x = word_of_nat (x mod 256) # to_le n (x div 256)"

lemma checked_Some [checked_simps]: "checked w x = Some y \<longleftrightarrow> y = x \<and> x < 2 ^ w"
  by (auto simp: checked_def)

lemma checked_None [checked_simps]: "checked w x = None \<longleftrightarrow> 2 ^ w \<le> x"
  by (auto simp: checked_def)

lemma checked_add_Some [checked_simps]:
  "checked_add w a b = Some c \<longleftrightarrow> c = a + b \<and> a + b < 2 ^ w"
  by (simp add: checked_add_def checked_Some)

lemma checked_mul_Some [checked_simps]:
  "checked_mul w a b = Some c \<longleftrightarrow> c = a * b \<and> a * b < 2 ^ w"
  by (simp add: checked_mul_def checked_Some)

lemma checked_sub_Some [checked_simps]:
  "checked_sub a b = Some c \<longleftrightarrow> c = a - b \<and> b \<le> a"
  by (auto simp: checked_sub_def)

lemma checked_int_Some [checked_simps]:
  "checked_int w x = Some y \<longleftrightarrow> y = x \<and> in_int w x"
  by (auto simp: checked_int_def)

lemma cast_id: "x < 2 ^ w \<Longrightarrow> cast w x = x"
  by (simp add: cast_def)

lemma cast_less: "cast w x < 2 ^ w"
  by (simp add: cast_def)

lemma saturate_id: "x < 2 ^ w \<Longrightarrow> saturate w x = x"
  by (simp add: saturate_def)

lemma saturate_less: "saturate w x < 2 ^ w"
proof -
  have "(2::nat) ^ w - 1 < 2 ^ w" by simp
  then show ?thesis unfolding saturate_def by linarith
qed

lemma wrapping_sub_id:
  assumes "b \<le> a" "a < 2 ^ w"
  shows "wrapping_sub w a b = a - b"
proof -
  have "a + 2 ^ w - b = (a - b) + 2 ^ w" using assms by simp
  moreover have "a - b < 2 ^ w" using assms by linarith
  ultimately show ?thesis by (simp only: wrapping_sub_def mod_add_self2 mod_less)
qed

lemma as_signed_small: "x < 2 ^ (w - 1) \<Longrightarrow> 0 < w \<Longrightarrow> as_signed w x = int x"
  by (cases w) (auto simp: as_signed_def Let_def)

lemma option_bind_eq_Some [checked_simps]:
  "Option.bind x f = Some y \<longleftrightarrow> (\<exists>z. x = Some z \<and> f z = Some y)"
  by (cases x) auto

lemma div_le_of_mult_le: "(a::nat) \<le> b * c \<Longrightarrow> 0 < c \<Longrightarrow> a div c \<le> b"
  by (metis div_le_mono div_mult_self_is_m)

lemma cast_int_id:
  assumes "in_int w x" "0 < w"
  shows "cast_int w x = x"
proof -
  obtain v where v: "w = Suc v" using assms(2) by (cases w) auto
  have "0 \<le> x + 2 ^ v" "x + 2 ^ v < 2 ^ Suc v" using assms(1) by (auto simp: in_int_def v)
  then show ?thesis by (simp only: cast_int_def v diff_Suc_1 mod_pos_pos_trivial)
qed

lemma length_to_le [simp]: "length (to_le n x) = n"
  by (induction n arbitrary: x) auto

lemma from_le_less: "from_le bs < 256 ^ length bs"
proof (induction bs)
  case (Cons b bs)
  have "unat b < 256" using unsigned_less [of b] by simp
  then show ?case using Cons by simp
qed simp

lemma from_le_to_le: "x < 256 ^ n \<Longrightarrow> from_le (to_le n x) = x"
proof (induction n arbitrary: x)
  case (Suc n)
  then have "x div 256 < 256 ^ n" by (simp add: less_mult_imp_div_less mult.commute)
  with Suc.IH have "from_le (to_le n (x div 256)) = x div 256" by blast
  moreover have "unat (word_of_nat (x mod 256) :: byte) = x mod 256"
    by (simp add: unat_of_nat)
  ultimately show ?case by simp
qed simp

lemma to_le_from_le: "to_le (length bs) (from_le bs) = bs"
proof (induction bs)
  case (Cons b bs)
  have "unat b < 256" using unsigned_less [of b] by simp
  then show ?case using Cons by simp
qed simp

lemma from_le_inj: "length bs = length cs \<Longrightarrow> from_le bs = from_le cs \<longleftrightarrow> bs = cs"
  by (metis to_le_from_le)

declare to_le.simps [simp del]

end
