(* ===== verification/Payoff.thy ===== *)
theory Payoff
  imports Rust_Base
begin

text \<open>
  Claim payoffs and settlement in exact integers: \<open>crates/futures-math/src/payoff.rs\<close>, with the
  \<open>Side\<close> of \<open>lib.rs\<close>. The plain operators of this workspace abort on overflow, so a function that
  uses one returns \<open>None\<close> there.
\<close>

datatype side = Long | Short

fun from_u8 :: "u8 \<Rightarrow> side option" where
  "from_u8 v = (if v = 0 then Some Long else if v = 1 then Some Short else None)"

fun opposite :: "side \<Rightarrow> side" where
  "opposite Long = Short"
| "opposite Short = Long"

fun side_u8 :: "side \<Rightarrow> u8" where
  "side_u8 Long = 0"
| "side_u8 Short = 1"

definition set_value :: "u16 \<Rightarrow> u16 \<Rightarrow> u64 \<Rightarrow> u64 option" where
  "set_value lo hi k = do { width \<leftarrow> checked_sub hi lo; checked_mul 64 width k }"

definition settle_fine :: "u64 \<Rightarrow> u64 \<Rightarrow> u64 \<Rightarrow> u64" where
  "settle_fine value step_value k = cast 64 (value * k div max step_value 1)"

definition long_per_lot :: "u16 \<Rightarrow> u16 \<Rightarrow> u64 \<Rightarrow> u64 \<Rightarrow> u64 option" where
  "long_per_lot lo hi s k = do {
     base \<leftarrow> checked_mul 64 lo k;
     v \<leftarrow> set_value lo hi k;
     Some (min (s - base) v) }"

definition short_per_lot :: "u16 \<Rightarrow> u16 \<Rightarrow> u64 \<Rightarrow> u64 \<Rightarrow> u64 option" where
  "short_per_lot lo hi s k = do {
     v \<leftarrow> set_value lo hi k;
     l \<leftarrow> long_per_lot lo hi s k;
     checked_sub v l }"

definition contribution :: "side \<Rightarrow> u16 \<Rightarrow> u16 \<Rightarrow> u64 \<Rightarrow> u64 \<Rightarrow> u64 option" where
  "contribution sd lo hi price k =
     (case sd of
        Long \<Rightarrow> Some price
      | Short \<Rightarrow> do { v \<leftarrow> set_value lo hi k; Some (v - price) })"

text \<open>The payoff of a claim as a function of the settlement, without machine bounds.\<close>

definition long_spec :: "nat \<Rightarrow> nat \<Rightarrow> nat \<Rightarrow> nat \<Rightarrow> nat" where
  "long_spec lo hi s k = min (s - lo * k) ((hi - lo) * k)"

lemma set_value_Some [checked_simps]:
  "set_value lo hi k = Some v \<longleftrightarrow> lo \<le> hi \<and> v = (hi - lo) * k \<and> (hi - lo) * k < 2 ^ 64"
  by (auto simp: set_value_def checked_simps)

lemma set_value_total:
  assumes "lo \<le> hi" "hi * k < 2 ^ 64"
  shows "set_value lo hi k = Some ((hi - lo) * k)"
proof -
  have "(hi - lo) * k \<le> hi * k" by (simp add: mult_le_mono1)
  with assms(2) have "(hi - lo) * k < 2 ^ 64" by linarith
  with assms(1) show ?thesis by (simp add: set_value_Some)
qed

lemma long_per_lot_total:
  assumes "lo \<le> hi" "hi * k < 2 ^ 64"
  shows "long_per_lot lo hi s k = Some (long_spec lo hi s k)"
proof -
  have "lo * k \<le> hi * k" using assms(1) by (rule mult_le_mono1)
  with assms(2) have "lo * k < 2 ^ 64" by linarith
  then have "checked_mul 64 lo k = Some (lo * k)" by (simp add: checked_simps)
  with assms show ?thesis by (simp add: long_per_lot_def long_spec_def set_value_total)
qed

lemma long_spec_le: "long_spec lo hi s k \<le> (hi - lo) * k"
  by (simp add: long_spec_def)

lemma long_spec_split:
  assumes "lo \<le> m" "m \<le> hi"
  shows "long_spec lo hi s k = long_spec lo m s k + long_spec m hi s k"
proof -
  have "lo * k \<le> m * k" "m * k \<le> hi * k"
    using assms by (simp_all add: mult_le_mono1)
  then show ?thesis
    unfolding long_spec_def diff_mult_distrib by linarith
qed

text \<open>
  C14. A complete set pays exactly its backing: on every shape of the grid whose full backing fits
  64 bits, the long and the short claim's payouts per lot are defined at every settlement, the long
  one is the clamped rise over the interval, and the two add up to \<open>(hi - lo) * k\<close>, to the atom.
\<close>

theorem sets_pay_exactly_their_backing:
  assumes "lo \<le> hi" and "hi * k < 2 ^ 64"
  shows "\<exists>l sh. long_per_lot lo hi s k = Some l \<and> short_per_lot lo hi s k = Some sh
           \<and> l = min (s - lo * k) ((hi - lo) * k) \<and> l + sh = (hi - lo) * k"
  using assms long_spec_le [of lo hi s k]
  by (simp add: short_per_lot_def set_value_total long_per_lot_total checked_sub_def long_spec_def)

theorem sets_pay_exactly_their_backing_witness:
  "(98::nat) \<le> 120 \<and> (120::nat) * 10000 < 2 ^ 64
   \<and> long_per_lot 98 120 1000000 10000 = Some 20000
   \<and> short_per_lot 98 120 1000000 10000 = Some 200000"
  using sets_pay_exactly_their_backing [of 98 120 10000 1000000]
  by (auto simp: checked_simps)

text \<open>
  Adjacent pieces add up and overlapping ranges exchange: the long payout on \<open>[a, d)\<close> is the sum
  of the payouts on \<open>[a, b)\<close>, \<open>[b, c)\<close> and \<open>[c, d)\<close>, and a long on \<open>[a, c)\<close> with one on \<open>[b, d)\<close> pays
  what \<open>[a, d)\<close> with \<open>[b, c)\<close> pays. This is why claims of different ranges can trade against each other.
\<close>

theorem adjacent_pieces_add_up:
  assumes "a \<le> b" "b \<le> c" "c \<le> d" "d * k < 2 ^ 64"
  shows "\<exists>ab bc cd. long_per_lot a b s k = Some ab \<and> long_per_lot b c s k = Some bc
           \<and> long_per_lot c d s k = Some cd
           \<and> long_per_lot a d s k = Some (ab + bc + cd)
           \<and> long_per_lot a c s k = Some (ab + bc) \<and> long_per_lot b d s k = Some (bc + cd)"
proof -
  have "b * k \<le> d * k" "c * k \<le> d * k"
    using assms by (auto intro: mult_le_mono1)
  with assms have "b * k < 2 ^ 64" "c * k < 2 ^ 64" by linarith+
  then show ?thesis
    using assms long_spec_split [of a b d s k] long_spec_split [of b c d s k]
      long_spec_split [of a b c s k]
    by (simp add: long_per_lot_total)
qed

theorem adjacent_pieces_add_up_witness:
  "(98::nat) \<le> 102 \<and> (102::nat) \<le> 110 \<and> (110::nat) \<le> 120 \<and> (120::nat) * 10000 < 2 ^ 64
   \<and> (\<exists>ab bc cd. long_per_lot 98 102 1050000 10000 = Some ab
       \<and> long_per_lot 98 120 1050000 10000 = Some (ab + bc + cd))"
  using adjacent_pieces_add_up [of 98 102 110 120 10000 1050000] by auto

end
