(* ===== verification/Zero_Graph.thy ===== *)
theory Zero_Graph
  imports Rust_Base
begin

text \<open>
  The zero-reduced-cost residual graph of the package verifier and the three questions it is asked
  (\<open>crates/futures-math/src/verify.rs\<close>): compressed adjacency, strongly connected components (iterative
  Tarjan), the rank cuts between consecutive nodes, and the work-limited breadth-first search.

  This theory has the algorithms in their plain form, with total indexing and unbounded offsets, and what
  they compute; \<open>Zero_Checks\<close> has them as the code runs them, with every index and counter checked, and shows
  that they return the plain result or abort. The two \<open>u16\<close> counters of the components are checked here
  already, since the depth-first search ends on them. A \<open>Vec\<close> used as a stack is a list with its top first.
\<close>

datatype verify_error =
  Potentials
| Capacity usize
| Unbalanced usize
| Price usize
| Quantity
| Fifo usize
| Work

type_synonym edge = "u16 \<times> u16 \<times> u128"

record zero_graph =
  zg_start :: "u32 list"
  zg_to :: "u16 list"
  zg_rank :: "u128 list"

definition plain_count_edges :: "edge list \<Rightarrow> usize \<Rightarrow> u32 list" where
  "plain_count_edges edges nodes =
     fold (\<lambda>(u, _) start. start[u + 1 := start ! (u + 1) + 1]) edges (replicate (nodes + 1) 0)"

definition plain_prefix_sums :: "usize \<Rightarrow> u32 list \<Rightarrow> u32 list" where
  "plain_prefix_sums nodes start = fold (\<lambda>i start. start[i + 1 := start ! (i + 1) + start ! i]) [0..<nodes] start"

definition plain_place_edge :: "edge \<Rightarrow> u32 list \<times> u16 list \<times> u128 list \<Rightarrow> u32 list \<times> u16 list \<times> u128 list" where
  "plain_place_edge e st = (case (e, st) of ((u, v, r), (fill, to, rank)) \<Rightarrow>
     let at = fill ! u in (fill[u := at + 1], to[at := v], rank[at := r]))"

definition plain_graph_of_edges :: "edge list \<Rightarrow> usize \<Rightarrow> zero_graph" where
  "plain_graph_of_edges edges nodes =
     (let start = plain_prefix_sums nodes (plain_count_edges edges nodes);
          (_, to, rank) = fold plain_place_edge edges (start, replicate (length edges) 0, replicate (length edges) 0)
      in \<lparr>zg_start = start, zg_to = to, zg_rank = rank\<rparr>)"

subsection \<open>Strongly connected plain_components\<close>

definition NONE :: u16 where
  "NONE = 65535"

record tarjan =
  t_index :: "u16 list"
  t_low :: "u16 list"
  t_comp :: "u16 list"
  t_on :: "bool list"
  t_stack :: "u16 list"
  t_calls :: "(u16 \<times> u32) list"
  t_next :: u16
  t_comps :: u16

fun plain_pop_component :: "usize \<Rightarrow> u16 \<Rightarrow> u16 list \<Rightarrow> bool list \<Rightarrow> u16 list \<Rightarrow> u16 list \<times> bool list \<times> u16 list" where
  "plain_pop_component v c [] on cmp = ([], on, cmp)"
| "plain_pop_component v c (w # stack) on cmp =
     (if w = v then (stack, on[w := False], cmp[w := c])
      else plain_pop_component v c stack (on[w := False]) (cmp[w := c]))"

text \<open>Visiting \<open>w\<close>: the five assignments of a root and of an undiscovered target.\<close>

definition plain_visit :: "zero_graph \<Rightarrow> u16 \<Rightarrow> tarjan \<Rightarrow> tarjan option" where
  "plain_visit g w st = do {
     next \<leftarrow> checked_add 16 (t_next st) 1;
     Some (st\<lparr>t_index := (t_index st)[w := t_next st], t_low := (t_low st)[w := t_next st], t_next := next,
       t_stack := w # t_stack st, t_on := (t_on st)[w := True],
       t_calls := (w, zg_start g ! w) # t_calls st\<rparr>) }"

definition plain_tarjan_step :: "zero_graph \<Rightarrow> u16 \<Rightarrow> u32 \<Rightarrow> (u16 \<times> u32) list \<Rightarrow> tarjan \<Rightarrow> tarjan option" where
  "plain_tarjan_step g v at rest st =
     (if at < zg_start g ! (v + 1)
      then let w = zg_to g ! at; st = st\<lparr>t_calls := (v, at + 1) # rest\<rparr> in
        if t_index st ! w = NONE then plain_visit g w st
        else if t_on st ! w then Some (st\<lparr>t_low := (t_low st)[v := min (t_low st ! v) (t_index st ! w)]\<rparr>)
        else Some st
      else
        let low = (case rest of [] \<Rightarrow> t_low st | (p, _) # _ \<Rightarrow> (t_low st)[p := min (t_low st ! p) (t_low st ! v)]);
            st = st\<lparr>t_calls := rest, t_low := low\<rparr> in
        if low ! v = t_index st ! v
        then let (stack, on, cmp) = plain_pop_component v (t_comps st) (t_stack st) (t_on st) (t_comp st) in do {
          comps \<leftarrow> checked_add 16 (t_comps st) 1;
          Some (st\<lparr>t_stack := stack, t_on := on, t_comp := cmp, t_comps := comps\<rparr>) }
        else Some st)"

definition calls_work :: "zero_graph \<Rightarrow> tarjan \<Rightarrow> nat" where
  "calls_work g st = sum_list (map (\<lambda>(v, at). zg_start g ! (v + 1) - at + 1) (t_calls st))"

lemma tarjan_step_decreases:
  assumes "t_calls st = (v, at) # rest" "plain_tarjan_step g v at rest st = Some st'"
  shows "65536 - t_next st' < 65536 - t_next st
    \<or> 65536 - t_next st' = 65536 - t_next st \<and> calls_work g st' < calls_work g st"
  using assms
  by (auto simp: plain_tarjan_step_def plain_visit_def Let_def calls_work_def checked_simps split: if_splits prod.splits)

function plain_tarjan_loop :: "zero_graph \<Rightarrow> tarjan \<Rightarrow> tarjan option" where
  "plain_tarjan_loop g st =
     (case t_calls st of
        [] \<Rightarrow> Some st
      | (v, at) # rest \<Rightarrow>
          (case plain_tarjan_step g v at rest st of None \<Rightarrow> None | Some st' \<Rightarrow> plain_tarjan_loop g st'))"
  by pat_completeness auto
termination
  by (relation "measures [\<lambda>(g, st). 65536 - t_next st, \<lambda>(g, st). calls_work g st]")
     (auto dest: tarjan_step_decreases)

declare plain_tarjan_loop.simps [simp del]

fun plain_tarjan_roots :: "zero_graph \<Rightarrow> usize list \<Rightarrow> tarjan \<Rightarrow> tarjan option" where
  "plain_tarjan_roots g [] st = Some st"
| "plain_tarjan_roots g (root # roots) st =
     (if t_index st ! root \<noteq> NONE then plain_tarjan_roots g roots st
      else do { st \<leftarrow> plain_visit g root st; st \<leftarrow> plain_tarjan_loop g st; plain_tarjan_roots g roots st })"

definition plain_components :: "zero_graph \<Rightarrow> u16 list option" where
  "plain_components g =
     (let n = length (zg_start g) - 1;
          st = \<lparr>t_index = replicate n NONE, t_low = replicate n 0, t_comp = replicate n NONE,
                t_on = replicate n False, t_stack = [], t_calls = [], t_next = 0, t_comps = 0\<rparr>
      in map_option t_comp (plain_tarjan_roots g [0..<n] st))"

subsection \<open>Rank cuts\<close>

record cuts =
  c_down :: "u128 list"
  c_up :: "u128 list"

definition plain_raise_range :: "u128 \<Rightarrow> usize \<Rightarrow> usize \<Rightarrow> u128 list \<Rightarrow> u128 list" where
  "plain_raise_range r lo hi xs = fold (\<lambda>c xs. xs[c := max (xs ! c) r]) [lo..<hi] xs"

definition plain_cut_edge :: "zero_graph \<Rightarrow> usize \<Rightarrow> usize \<Rightarrow> cuts \<Rightarrow> cuts" where
  "plain_cut_edge g u k cs =
     (let v = zg_to g ! k; r = zg_rank g ! k in
      if v < u then cs\<lparr>c_down := plain_raise_range r v u (c_down cs)\<rparr>
      else cs\<lparr>c_up := plain_raise_range r u v (c_up cs)\<rparr>)"

definition plain_cuts_new :: "zero_graph \<Rightarrow> cuts" where
  "plain_cuts_new g =
     (let n = length (zg_start g) - 1; cs = n - 1 in
      fold (\<lambda>u. fold (plain_cut_edge g u) [zg_start g ! u..<zg_start g ! (u + 1)]) [0..<n]
        \<lparr>c_down = replicate cs 0, c_up = replicate cs 0\<rparr>)"

definition plain_passable :: "cuts \<Rightarrow> usize \<Rightarrow> usize \<Rightarrow> u128 \<Rightarrow> bool" where
  "plain_passable cs from to rank =
     (if to < from then list_all (\<lambda>c. rank < c_down cs ! c) [to..<from]
      else list_all (\<lambda>c. rank < c_up cs ! c) [from..<to])"

subsection \<open>Search\<close>

record search =
  s_seen :: "u32 list"
  s_stamp :: u32
  s_work :: u64
  s_limit :: u64

definition search_new :: "usize \<Rightarrow> u64 \<Rightarrow> search" where
  "search_new nodes limit = \<lparr>s_seen = replicate nodes 0, s_stamp = 0, s_work = 0, s_limit = limit\<rparr>"

definition plain_scan_edge :: "zero_graph \<Rightarrow> u128 option \<Rightarrow> u32 \<Rightarrow> usize \<Rightarrow> u32 list \<times> u16 list \<Rightarrow> u32 list \<times> u16 list" where
  "plain_scan_edge g newer_than stamp k st =
     (case st of (seen, queue) \<Rightarrow>
        if (case newer_than of None \<Rightarrow> False | Some r \<Rightarrow> zg_rank g ! k \<le> r) then (seen, queue)
        else let m = zg_to g ! k in
          if seen ! m \<noteq> stamp then (seen[m := stamp], queue @ [m]) else (seen, queue))"

text \<open>The loop over the queue; \<open>None\<close> is the error \<open>Work\<close>.\<close>

function plain_search_loop :: "zero_graph \<Rightarrow> usize \<Rightarrow> u128 option \<Rightarrow> u32 list \<Rightarrow> u16 list \<Rightarrow> usize \<Rightarrow> search \<Rightarrow> (search \<times> bool) option" where
  "plain_search_loop g to newer_than seen queue hd_at sr =
     (if hd_at < length queue
      then let n = queue ! hd_at in
        if n = to then Some (sr\<lparr>s_seen := seen\<rparr>, True)
        else let s = zg_start g ! n; e = zg_start g ! (n + 1);
                 work = s_work sr + (e - s) + 1 in
          if work > s_limit sr then None
          else let (seen, queue) = fold (plain_scan_edge g newer_than (s_stamp sr)) [s..<e] (seen, queue)
               in plain_search_loop g to newer_than seen queue (hd_at + 1) (sr\<lparr>s_work := work\<rparr>)
      else Some (sr\<lparr>s_seen := seen\<rparr>, False))"
  by pat_completeness auto
termination
  by (relation "measure (\<lambda>(g, to, newer, seen, queue, hd_at, sr). Suc (s_limit sr) - s_work sr)") auto

declare plain_search_loop.simps [simp del]

definition plain_reaches :: "search \<Rightarrow> zero_graph \<Rightarrow> usize \<Rightarrow> usize \<Rightarrow> u128 option \<Rightarrow> (search \<times> bool) option" where
  "plain_reaches sr g from to newer_than =
     (let sr = sr\<lparr>s_stamp := s_stamp sr + 1\<rparr>
      in plain_search_loop g to newer_than ((s_seen sr)[from := s_stamp sr]) [from] 0 sr)"

subsection \<open>The compressed adjacency holds exactly the edges\<close>

definition out_edges :: "edge list \<Rightarrow> nat \<Rightarrow> (nat \<times> nat) list" where
  "out_edges es u = map snd (filter (\<lambda>e. fst e = u) es)"

definition base_of :: "edge list \<Rightarrow> nat \<Rightarrow> nat" where
  "base_of es u = (\<Sum>v<u. length (out_edges es v))"

definition in_range :: "nat \<Rightarrow> edge list \<Rightarrow> bool" where
  "in_range n es \<longleftrightarrow> (\<forall>(u, v, r)\<in>set es. u < n \<and> v < n)"

lemma out_edges_Nil [simp]: "out_edges [] u = []"
  by (simp add: out_edges_def)

lemma out_edges_snoc: "out_edges (es @ [(u, v, r)]) w = out_edges es w @ (if w = u then [(v, r)] else [])"
  by (simp add: out_edges_def)

lemma base_of_0 [simp]: "base_of es 0 = 0"
  by (simp add: base_of_def)

lemma base_of_Suc [simp]: "base_of es (Suc u) = base_of es u + length (out_edges es u)"
  by (simp add: base_of_def)

lemma base_of_mono: "u \<le> v \<Longrightarrow> base_of es u \<le> base_of es v"
  unfolding base_of_def by (rule sum_mono2) auto

lemma base_of_total: "in_range n es \<Longrightarrow> base_of es n = length es"
proof (induction es)
  case Nil
  then show ?case by (simp add: base_of_def)
next
  case (Cons e es)
  obtain u v r where e: "e = (u, v, r)" by (cases e)
  have u: "u < n" using Cons.prems by (simp add: in_range_def e)
  have "length (out_edges (e # es) w) = length (out_edges es w) + (if w = u then 1 else 0)" for w
    by (simp add: out_edges_def e)
  then have "base_of (e # es) n = base_of es n + (\<Sum>w<n. if w = u then 1 else 0)"
    by (simp add: base_of_def sum.distrib)
  also have "(\<Sum>w<n. if w = u then 1 else 0) = (1::nat)" using u by simp
  finally show ?case using Cons by (simp add: in_range_def)
qed

lemma count_edges_spec:
  assumes "in_range n es"
  shows "length (plain_count_edges es n) = n + 1"
    "plain_count_edges es n ! 0 = 0" "u < n \<Longrightarrow> plain_count_edges es n ! Suc u = length (out_edges es u)"
proof -
  have "length (plain_count_edges es n) = n + 1 \<and> plain_count_edges es n ! 0 = 0
      \<and> (\<forall>u<n. plain_count_edges es n ! Suc u = length (out_edges es u))"
    using assms
  proof (induction es rule: rev_induct)
    case (snoc e es)
    obtain u v r where e: "e = (u, v, r)" by (cases e)
    from snoc have IH: "length (plain_count_edges es n) = n + 1" "plain_count_edges es n ! 0 = 0"
      "\<forall>u<n. plain_count_edges es n ! Suc u = length (out_edges es u)" and u: "u < n"
      by (auto simp: in_range_def e)
    have "plain_count_edges (es @ [e]) n = (plain_count_edges es n)[Suc u := plain_count_edges es n ! Suc u + 1]"
      by (simp add: plain_count_edges_def e)
    with IH u show ?case by (auto simp: e out_edges_snoc nth_list_update)
  qed (simp add: plain_count_edges_def)
  then show "length (plain_count_edges es n) = n + 1" "plain_count_edges es n ! 0 = 0"
    "u < n \<Longrightarrow> plain_count_edges es n ! Suc u = length (out_edges es u)" by auto
qed

lemma prefix_sums_spec:
  assumes "length st = n + 1" "st ! 0 = 0" "\<forall>u<n. st ! Suc u = length (out_edges es u)" "m \<le> n"
  shows "length (plain_prefix_sums m st) = n + 1 \<and> (\<forall>u\<le>m. plain_prefix_sums m st ! u = base_of es u)
    \<and> (\<forall>u. m < u \<longrightarrow> u \<le> n \<longrightarrow> plain_prefix_sums m st ! u = st ! u)"
  using assms(4)
proof (induction m)
  case 0
  then show ?case using assms by (simp add: plain_prefix_sums_def)
next
  case (Suc m)
  define p where "p = plain_prefix_sums m st"
  have IH: "length p = n + 1" "\<forall>u\<le>m. p ! u = base_of es u" "\<forall>u. m < u \<longrightarrow> u \<le> n \<longrightarrow> p ! u = st ! u"
    using Suc by (auto simp: p_def)
  have "plain_prefix_sums (Suc m) st = p[Suc m := p ! Suc m + p ! m]" by (simp add: plain_prefix_sums_def p_def)
  with IH Suc.prems assms(3) show ?case by (auto simp: nth_list_update le_Suc_eq)
qed

lemma start_spec:
  assumes "in_range n es"
  shows "length (plain_prefix_sums n (plain_count_edges es n)) = n + 1"
    "u \<le> n \<Longrightarrow> plain_prefix_sums n (plain_count_edges es n) ! u = base_of es u"
  using prefix_sums_spec [of "plain_count_edges es n" n es n] count_edges_spec [OF assms] by auto

lemma base_step_le: "u < n \<Longrightarrow> k < length (out_edges es u) \<Longrightarrow> base_of es u + k < base_of es n"
  using base_of_mono [of "Suc u" n es] by simp

lemma base_disjoint:
  assumes "u \<noteq> w" "j < length (out_edges es u)" "k < length (out_edges es w)"
  shows "base_of es u + j \<noteq> base_of es w + k"
proof (cases "u < w")
  case True
  then show ?thesis using base_of_mono [of "Suc u" w es] assms by simp
next
  case False
  then show ?thesis using base_of_mono [of "Suc w" u es] assms by simp
qed

lemma place_edges_spec:
  assumes "in_range n es" "es = pre @ post"
  defines "start \<equiv> plain_prefix_sums n (plain_count_edges es n)"
  shows "case fold plain_place_edge pre (start, replicate (length es) 0, replicate (length es) 0) of (fill, to, rank) \<Rightarrow>
      length fill = n + 1 \<and> length to = length es \<and> length rank = length es
      \<and> (\<forall>u<n. fill ! u = base_of es u + length (out_edges pre u))
      \<and> (\<forall>u<n. \<forall>k<length (out_edges pre u). (to ! (base_of es u + k), rank ! (base_of es u + k)) = out_edges pre u ! k)"
  using assms(2)
proof (induction pre arbitrary: post rule: rev_induct)
  case Nil
  then show ?case using start_spec [OF assms(1)] by (simp add: start_def)
next
  case (snoc e pre)
  obtain u v r where e: "e = (u, v, r)" by (cases e)
  obtain fill to rank where f: "fold plain_place_edge pre (start, replicate (length es) 0, replicate (length es) 0) = (fill, to, rank)"
    by (cases "fold plain_place_edge pre (start, replicate (length es) 0, replicate (length es) 0)") auto
  have IH: "length fill = n + 1" "length to = length es" "length rank = length es"
    "\<And>u. u < n \<Longrightarrow> fill ! u = base_of es u + length (out_edges pre u)"
    "\<And>u k. u < n \<Longrightarrow> k < length (out_edges pre u) \<Longrightarrow>
        (to ! (base_of es u + k), rank ! (base_of es u + k)) = out_edges pre u ! k"
    using snoc.IH [OF snoc.prems [unfolded append_assoc append_Cons append_Nil], unfolded f prod.case] by blast+
  have u: "u < n" using assms(1) snoc.prems by (auto simp: in_range_def e)
  have le: "length (out_edges (pre @ [e]) w) \<le> length (out_edges es w)" for w
    unfolding snoc.prems by (simp add: out_edges_def)
  have at: "fill ! u = base_of es u + length (out_edges pre u)" "fill ! u < length es"
    using IH(4) [OF u] le [of u] base_step_le [OF u, of "length (out_edges pre u)" es] base_of_total [OF assms(1)]
    by (auto simp: e out_edges_snoc)
  have main: "(to[fill ! u := v] ! (base_of es w + k), rank[fill ! u := r] ! (base_of es w + k)) = out_edges (pre @ [e]) w ! k"
    if w: "w < n" "k < length (out_edges (pre @ [e]) w)" for w k
  proof (cases "w = u \<and> k = length (out_edges pre u)")
    case True
    then show ?thesis using at IH(2,3) by (simp add: e out_edges_snoc nth_append)
  next
    case False
    with w(2) have k: "k < length (out_edges pre w)" by (auto simp: e out_edges_snoc split: if_splits)
    have "base_of es w + k \<noteq> fill ! u"
    proof (cases "w = u")
      case True
      with False k show ?thesis by (simp add: at(1))
    next
      case False
      show ?thesis unfolding at(1)
        by (rule base_disjoint [OF False]) (use le [of w] le [of u] w(2) in \<open>auto simp: e out_edges_snoc\<close>)
    qed
    with IH(5) [OF w(1) k] k show ?thesis by (simp add: e out_edges_snoc nth_append)
  qed
  have step: "fold plain_place_edge (pre @ [e]) (start, replicate (length es) 0, replicate (length es) 0) =
      (fill[u := fill ! u + 1], to[fill ! u := v], rank[fill ! u := r])"
    by (simp only: fold_append comp_apply fold_simps f) (simp add: plain_place_edge_def e Let_def)
  have "fill[u := fill ! u + 1] ! w = base_of es w + length (out_edges (pre @ [e]) w)" if "w < n" for w
    using IH(1) IH(4) that u by (auto simp: e out_edges_snoc nth_list_update)
  with main IH(1-3) show ?case unfolding step prod.case by simp
qed

text \<open>
  The interface the three algorithms use: the positions \<open>start[u] .. start[u + 1]\<close> hold the out-edges
  of \<open>u\<close>, in order, and every end is a node below \<open>n\<close>.
\<close>

locale csr_graph =
  fixes g :: zero_graph and n :: nat and es :: "edge list"
  assumes start_length: "length (zg_start g) = n + 1"
    and start_mono: "u < n \<Longrightarrow> zg_start g ! u \<le> zg_start g ! (u + 1)"
    and adjacency: "u < n \<Longrightarrow>
      map (\<lambda>k. (zg_to g ! k, zg_rank g ! k)) [zg_start g ! u..<zg_start g ! (u + 1)] = out_edges es u"
    and ends_below: "(u, v, r) \<in> set es \<Longrightarrow> u < n \<and> v < n"
begin

lemma edge_iff:
  "(u, v, r) \<in> set es \<longleftrightarrow> u < n \<and> (\<exists>k. zg_start g ! u \<le> k \<and> k < zg_start g ! (u + 1) \<and> zg_to g ! k = v \<and> zg_rank g ! k = r)"
proof (cases "u < n")
  case True
  have "(u, v, r) \<in> set es \<longleftrightarrow> (v, r) \<in> set (out_edges es u)" by (force simp: out_edges_def)
  also have "\<dots> \<longleftrightarrow> (\<exists>k. zg_start g ! u \<le> k \<and> k < zg_start g ! (u + 1) \<and> zg_to g ! k = v \<and> zg_rank g ! k = r)"
    using adjacency [OF True, symmetric] by auto
  finally show ?thesis using True by simp
next
  case False
  then show ?thesis using ends_below by blast
qed

lemma position_edge:
  "u < n \<Longrightarrow> zg_start g ! u \<le> k \<Longrightarrow> k < zg_start g ! (u + 1) \<Longrightarrow> (u, zg_to g ! k, zg_rank g ! k) \<in> set es"
  using edge_iff by blast

lemma position_target: "u < n \<Longrightarrow> zg_start g ! u \<le> k \<Longrightarrow> k < zg_start g ! (u + 1) \<Longrightarrow> zg_to g ! k < n"
  using position_edge ends_below by blast

end

lemma graph_of_edges_csr:
  assumes "in_range n es"
  shows "csr_graph (plain_graph_of_edges es n) n es"
proof -
  define start where "start = plain_prefix_sums n (plain_count_edges es n)"
  obtain fill to rank where f: "fold plain_place_edge es (start, replicate (length es) 0, replicate (length es) 0) = (fill, to, rank)"
    by (cases "fold plain_place_edge es (start, replicate (length es) 0, replicate (length es) 0)") auto
  have g: "plain_graph_of_edges es n = \<lparr>zg_start = start, zg_to = to, zg_rank = rank\<rparr>"
    by (simp add: plain_graph_of_edges_def start_def [symmetric] f)
  have pos: "(to ! (base_of es u + k), rank ! (base_of es u + k)) = out_edges es u ! k"
    if "u < n" "k < length (out_edges es u)" for u k
    using place_edges_spec [OF assms, of es "[]"] that by (simp add: start_def [symmetric] f)
  have st: "start ! u = base_of es u" if "u \<le> n" for u
    using start_spec(2) [OF assms that] by (simp add: start_def)
  show ?thesis
  proof
    show "length (zg_start (plain_graph_of_edges es n)) = n + 1"
      using start_spec(1) [OF assms] by (simp add: g start_def)
    fix u
    assume u: "u < n"
    then show "zg_start (plain_graph_of_edges es n) ! u \<le> zg_start (plain_graph_of_edges es n) ! (u + 1)"
      by (simp add: g st)
    show "map (\<lambda>k. (zg_to (plain_graph_of_edges es n) ! k, zg_rank (plain_graph_of_edges es n) ! k))
        [zg_start (plain_graph_of_edges es n) ! u..<zg_start (plain_graph_of_edges es n) ! (u + 1)] = out_edges es u"
      using u pos by (intro nth_equalityI) (auto simp: g st)
  qed (use assms in \<open>auto simp: in_range_def\<close>)
qed

subsection \<open>The search decides reachability over the newer edges\<close>

definition newer_edge :: "nat option \<Rightarrow> nat \<Rightarrow> bool" where
  "newer_edge newer q \<longleftrightarrow> (case newer of None \<Rightarrow> True | Some r \<Rightarrow> r < q)"

definition step_rel :: "edge list \<Rightarrow> nat option \<Rightarrow> (nat \<times> nat) set" where
  "step_rel es newer = {(u, v). \<exists>q. (u, v, q) \<in> set es \<and> newer_edge newer q}"

definition search_ok :: "nat \<Rightarrow> search \<Rightarrow> bool" where
  "search_ok n sr \<longleftrightarrow> length (s_seen sr) = n \<and> (\<forall>x\<in>set (s_seen sr). x \<le> s_stamp sr)"

lemma scan_edges:
  assumes "fold (plain_scan_edge g newer stamp) ks (seen, queue) = (seen', queue')"
    "\<forall>k\<in>set ks. zg_to g ! k < length seen" "\<forall>m<length seen. seen ! m = stamp \<longleftrightarrow> m \<in> set queue"
  shows "length seen' = length seen \<and> (\<forall>m<length seen. seen' ! m = stamp \<longleftrightarrow> m \<in> set queue')
    \<and> set queue' = set queue \<union> {zg_to g ! k |k. k \<in> set ks \<and> newer_edge newer (zg_rank g ! k)}
    \<and> (\<exists>ext. queue' = queue @ ext) \<and> set seen' \<subseteq> insert stamp (set seen)"
  using assms
proof (induction ks arbitrary: seen queue)
  case (Cons k ks)
  obtain seen1 queue1 where one: "plain_scan_edge g newer stamp k (seen, queue) = (seen1, queue1)"
    by (cases "plain_scan_edge g newer stamp k (seen, queue)")
  have S: "length seen1 = length seen \<and> (\<forall>m<length seen. seen1 ! m = stamp \<longleftrightarrow> m \<in> set queue1)
      \<and> set queue1 = set queue \<union> (if newer_edge newer (zg_rank g ! k) then {zg_to g ! k} else {})
      \<and> (\<exists>ext. queue1 = queue @ ext) \<and> set seen1 \<subseteq> insert stamp (set seen)"
    using one Cons.prems(2,3) set_update_subset_insert [of seen "zg_to g ! k" stamp]
    by (auto simp: plain_scan_edge_def newer_edge_def Let_def nth_list_update split: if_splits option.splits)
  have "fold (plain_scan_edge g newer stamp) ks (seen1, queue1) = (seen', queue')"
    using Cons.prems(1) one by simp
  from Cons.IH [OF this] S Cons.prems(2) show ?case by auto
qed auto

context csr_graph
begin

lemma search_loop_correct:
  assumes "plain_search_loop g to newer seen queue at sr = Some (sr', b)" "to < n"
    "length seen = n" "set queue \<subseteq> {..<n}" "at \<le> length queue"
    "\<forall>m<n. seen ! m = s_stamp sr \<longleftrightarrow> m \<in> set queue"
    "\<forall>m\<in>set queue. (src, m) \<in> (step_rel es newer)\<^sup>*" "src \<in> set queue"
    "\<forall>m\<in>set (take at queue). m \<noteq> to \<and> (\<forall>w. (m, w) \<in> step_rel es newer \<longrightarrow> w \<in> set queue)"
    "\<forall>x\<in>set seen. x \<le> s_stamp sr"
  shows "(b \<longleftrightarrow> (src, to) \<in> (step_rel es newer)\<^sup>*) \<and> search_ok n sr'"
  using assms
proof (induction "Suc (s_limit sr) - s_work sr" arbitrary: seen queue at sr rule: less_induct)
  case less
  show ?case
  proof (cases "at < length queue")
    case False
    with less.prems(1) have r: "sr' = sr\<lparr>s_seen := seen\<rparr>" "\<not> b" by (auto simp: plain_search_loop.simps [of g])
    have closed: "\<forall>m\<in>set queue. m \<noteq> to \<and> (\<forall>w. (m, w) \<in> step_rel es newer \<longrightarrow> w \<in> set queue)"
      using less.prems(9) False by simp
    have "m \<in> set queue" if "(src, m) \<in> (step_rel es newer)\<^sup>*" for m
      using that by (induction rule: rtrancl_induct) (use less.prems(8) closed in auto)
    with closed have "(src, to) \<notin> (step_rel es newer)\<^sup>*" by blast
    with r less.prems(3,10) show ?thesis by (simp add: search_ok_def)
  next
    case True
    define m where "m = queue ! at"
    have m: "m \<in> set queue" using True by (simp add: m_def)
    with less.prems(4) have m: "m \<in> set queue" "m < n" by auto
    show ?thesis
    proof (cases "m = to")
      case eq: True
      with less.prems(1) True have "sr' = sr\<lparr>s_seen := seen\<rparr>" "b" by (auto simp: plain_search_loop.simps [of g] m_def)
      with eq m less.prems(3,7,10) show ?thesis by (auto simp: search_ok_def)
    next
      case neq: False
      define s e work where "s = zg_start g ! m" and "e = zg_start g ! (m + 1)" and "work = s_work sr + (e - s) + 1"
      obtain seen' queue' where f: "fold (plain_scan_edge g newer (s_stamp sr)) [s..<e] (seen, queue) = (seen', queue')"
        by (cases "fold (plain_scan_edge g newer (s_stamp sr)) [s..<e] (seen, queue)")
      have lim: "work \<le> s_limit sr"
        and rec: "plain_search_loop g to newer seen' queue' (at + 1) (sr\<lparr>s_work := work\<rparr>) = Some (sr', b)"
        using less.prems(1) True neq f
        by (auto simp: plain_search_loop.simps [of g to newer seen] Let_def m_def s_def e_def work_def split: if_splits)
      have tgt: "\<forall>k\<in>set [s..<e]. zg_to g ! k < length seen"
        using position_target [OF m(2)] less.prems(3) by (simp add: s_def e_def)
      note S = scan_edges [OF f tgt, unfolded less.prems(3), OF less.prems(6)]
      then obtain ext where ext: "queue' = queue @ ext" by blast
      have succ: "{zg_to g ! k |k. k \<in> set [s..<e] \<and> newer_edge newer (zg_rank g ! k)} = {w. (m, w) \<in> step_rel es newer}"
        using m(2) by (auto simp: step_rel_def edge_iff s_def e_def)
      have q': "set queue' = set queue \<union> {w. (m, w) \<in> step_rel es newer}" using S succ by simp
      show ?thesis
      proof (rule less.hyps [OF _ rec less.prems(2)])
        show "Suc (s_limit (sr\<lparr>s_work := work\<rparr>)) - s_work (sr\<lparr>s_work := work\<rparr>) < Suc (s_limit sr) - s_work sr"
          using lim by (simp add: work_def)
        show "length seen' = n" using S by simp
        show "set queue' \<subseteq> {..<n}" using q' less.prems(4) ends_below by (auto simp: step_rel_def)
        show "at + 1 \<le> length queue'" using True ext by simp
        show "\<forall>m<n. seen' ! m = s_stamp (sr\<lparr>s_work := work\<rparr>) \<longleftrightarrow> m \<in> set queue'" using S by simp
        show "\<forall>m\<in>set queue'. (src, m) \<in> (step_rel es newer)\<^sup>*"
          using q' less.prems(7) m(1) by (auto intro: rtrancl_into_rtrancl)
        show "src \<in> set queue'" using q' less.prems(8) by simp
        have "take (at + 1) queue' = take at queue @ [m]"
          using True by (simp add: ext take_Suc_conv_app_nth m_def)
        then show "\<forall>m\<in>set (take (at + 1) queue'). m \<noteq> to \<and> (\<forall>w. (m, w) \<in> step_rel es newer \<longrightarrow> w \<in> set queue')"
          using less.prems(9) neq q' by auto
        show "\<forall>x\<in>set seen'. x \<le> s_stamp (sr\<lparr>s_work := work\<rparr>)" using S less.prems(10) by auto
      qed
    qed
  qed
qed

lemma reaches_correct:
  assumes "plain_reaches sr g src to newer = Some (sr', b)" "search_ok n sr" "src < n" "to < n"
  shows "(b \<longleftrightarrow> (src, to) \<in> (step_rel es newer)\<^sup>*) \<and> search_ok n sr'"
proof (rule search_loop_correct [OF assms(1) [unfolded plain_reaches_def Let_def] assms(4)])
  let ?sr = "sr\<lparr>s_stamp := s_stamp sr + 1\<rparr>"
  have len: "length (s_seen sr) = n" and le: "\<forall>x\<in>set (s_seen sr). x \<le> s_stamp sr"
    using assms(2) by (auto simp: search_ok_def)
  have fresh: "s_seen sr ! m \<noteq> Suc (s_stamp sr)" if "m < n" for m
    using le len that by (metis Suc_n_not_le_n nth_mem)
  show "\<forall>m<n. ((s_seen ?sr)[src := s_stamp ?sr]) ! m = s_stamp ?sr \<longleftrightarrow> m \<in> set [src]"
    using fresh len assms(3) by (auto simp: nth_list_update split: if_splits)
  show "\<forall>x\<in>set ((s_seen ?sr)[src := s_stamp ?sr]). x \<le> s_stamp ?sr"
    using le set_update_subset_insert [of "s_seen sr" src "Suc (s_stamp sr)"] by fastforce
qed (use assms in \<open>auto simp: search_ok_def\<close>)

end

subsection \<open>A path through newer edges passes every cut\<close>

lemma raise_range_facts:
  "length (plain_raise_range r lo hi xs) = length xs"
  "c < length xs \<Longrightarrow> xs ! c \<le> plain_raise_range r lo hi xs ! c"
  "c < length xs \<Longrightarrow> lo \<le> c \<Longrightarrow> c < hi \<Longrightarrow> r \<le> plain_raise_range r lo hi xs ! c"
proof -
  have "length (plain_raise_range r lo hi xs) = length xs \<and> (c < length xs \<longrightarrow> xs ! c \<le> plain_raise_range r lo hi xs ! c)
      \<and> (c < length xs \<longrightarrow> lo \<le> c \<longrightarrow> c < hi \<longrightarrow> r \<le> plain_raise_range r lo hi xs ! c)"
  proof (induction hi)
    case (Suc hi)
    show ?case
    proof (cases "lo \<le> hi")
      case True
      then have "plain_raise_range r lo (Suc hi) xs =
          (plain_raise_range r lo hi xs)[hi := max (plain_raise_range r lo hi xs ! hi) r]"
        by (simp add: plain_raise_range_def)
      with Suc show ?thesis by (cases "c = hi") (auto simp: less_Suc_eq)
    qed (simp add: plain_raise_range_def)
  qed (simp add: plain_raise_range_def)
  then show "length (plain_raise_range r lo hi xs) = length xs"
    "c < length xs \<Longrightarrow> xs ! c \<le> plain_raise_range r lo hi xs ! c"
    "c < length xs \<Longrightarrow> lo \<le> c \<Longrightarrow> c < hi \<Longrightarrow> r \<le> plain_raise_range r lo hi xs ! c" by auto
qed

text \<open>Cuts only ever rise, and each edge raises the cuts it crosses.\<close>

definition cuts_le :: "cuts \<Rightarrow> cuts \<Rightarrow> bool" where
  "cuts_le a b \<longleftrightarrow> length (c_down b) = length (c_down a) \<and> length (c_up b) = length (c_up a)
     \<and> (\<forall>c<length (c_down a). c_down a ! c \<le> c_down b ! c) \<and> (\<forall>c<length (c_up a). c_up a ! c \<le> c_up b ! c)"

definition crossed :: "nat \<Rightarrow> nat \<Rightarrow> nat \<Rightarrow> cuts \<Rightarrow> bool" where
  "crossed u v r cs \<longleftrightarrow> (\<forall>c<length (c_down cs). v \<le> c \<longrightarrow> c < u \<longrightarrow> r \<le> c_down cs ! c)
     \<and> (\<forall>c<length (c_up cs). u \<le> c \<longrightarrow> c < v \<longrightarrow> r \<le> c_up cs ! c)"

lemma cuts_le_refl [simp]: "cuts_le a a"
  by (simp add: cuts_le_def)

lemma cuts_le_trans: "cuts_le a b \<Longrightarrow> cuts_le b c \<Longrightarrow> cuts_le a c"
  by (fastforce simp: cuts_le_def)

lemma crossed_mono: "crossed u v r a \<Longrightarrow> cuts_le a b \<Longrightarrow> crossed u v r b"
  by (fastforce simp: cuts_le_def crossed_def)

lemma cut_edge_facts: "cuts_le cs (plain_cut_edge g u k cs)" "crossed u (zg_to g ! k) (zg_rank g ! k) (plain_cut_edge g u k cs)"
  by (auto simp: plain_cut_edge_def cuts_le_def crossed_def Let_def raise_range_facts)

lemma fold_rises:
  assumes "\<And>x cs. cuts_le cs (f x cs)"
  shows "cuts_le cs (fold f xs cs)"
  using assms by (induction xs arbitrary: cs) (auto intro: cuts_le_trans)

lemma fold_crosses:
  assumes "\<And>x cs. cuts_le cs (f x cs)" "x \<in> set xs" "\<And>cs. crossed u v r (f x cs)"
  shows "crossed u v r (fold f xs cs)"
  using assms(2)
proof (induction xs arbitrary: cs)
  case (Cons y ys)
  show ?case
  proof (cases "x = y")
    case True
    then show ?thesis
      using crossed_mono [OF assms(3) fold_rises, of f] assms(1) by simp
  next
    case False
    with Cons show ?thesis by simp
  qed
qed simp

context csr_graph
begin

lemma cuts_new_crossed:
  assumes "(u, v, r) \<in> set es"
  shows "crossed u v r (plain_cuts_new g)"
proof -
  obtain k where k: "u < n" "zg_start g ! u \<le> k" "k < zg_start g ! (u + 1)" "zg_to g ! k = v" "zg_rank g ! k = r"
    using assms edge_iff by blast
  have "crossed u v r (fold (plain_cut_edge g u) [zg_start g ! u..<zg_start g ! (u + 1)] cs)" for cs
    by (rule fold_crosses [of "plain_cut_edge g u" k]) (use k cut_edge_facts in auto)
  then show ?thesis
    unfolding plain_cuts_new_def Let_def start_length
    by (intro fold_crosses [of "\<lambda>u. fold (plain_cut_edge g u) [zg_start g ! u..<zg_start g ! (u + 1)]" u] fold_rises
          cut_edge_facts) (use k in auto)
qed

lemma cuts_new_length: "length (c_down (plain_cuts_new g)) = n - 1" "length (c_up (plain_cuts_new g)) = n - 1"
proof -
  let ?f = "\<lambda>u. fold (plain_cut_edge g u) [zg_start g ! u..<zg_start g ! (u + 1)]"
  have "cuts_le \<lparr>c_down = replicate (n - 1) 0, c_up = replicate (n - 1) 0\<rparr> (plain_cuts_new g)"
    unfolding plain_cuts_new_def Let_def start_length add_diff_cancel_right'
    by (rule fold_rises [of ?f]) (rule fold_rises, rule cut_edge_facts)
  then show "length (c_down (plain_cuts_new g)) = n - 1" "length (c_up (plain_cuts_new g)) = n - 1"
    by (simp_all add: cuts_le_def)
qed

lemma path_crosses_down:
  assumes "(x, y) \<in> (step_rel es newer)\<^sup>*" "y \<le> c" "c < x"
  shows "\<exists>u v q. (u, v, q) \<in> set es \<and> newer_edge newer q \<and> v \<le> c \<and> c < u"
  using assms
proof (induction rule: converse_rtrancl_induct)
  case (step a b)
  then show ?case by (cases "c < b") (fastforce simp: step_rel_def)+
qed simp

lemma path_crosses_up:
  assumes "(x, y) \<in> (step_rel es newer)\<^sup>*" "x \<le> c" "c < y"
  shows "\<exists>u v q. (u, v, q) \<in> set es \<and> newer_edge newer q \<and> u \<le> c \<and> c < v"
  using assms
proof (induction rule: converse_rtrancl_induct)
  case (step a b)
  then show ?case by (cases "c < b") (fastforce simp: step_rel_def)+
qed simp

lemma reachable_passable:
  assumes "(x, y) \<in> (step_rel es (Some r))\<^sup>*" "x < n" "y < n"
  shows "plain_passable (plain_cuts_new g) x y r"
proof (cases "y < x")
  case True
  have "r < c_down (plain_cuts_new g) ! c" if c: "y \<le> c" "c < x" for c
  proof -
    obtain u v q where e: "(u, v, q) \<in> set es" "newer_edge (Some r) q" "v \<le> c" "c < u"
      using path_crosses_down [OF assms(1) c] by blast
    have "q \<le> c_down (plain_cuts_new g) ! c"
      using cuts_new_crossed [OF e(1)] e(3,4) c assms(2) by (auto simp: crossed_def cuts_new_length)
    with e(2) show ?thesis by (simp add: newer_edge_def)
  qed
  with True show ?thesis by (simp add: plain_passable_def list_all_iff)
next
  case False
  have "r < c_up (plain_cuts_new g) ! c" if c: "x \<le> c" "c < y" for c
  proof -
    obtain u v q where e: "(u, v, q) \<in> set es" "newer_edge (Some r) q" "u \<le> c" "c < v"
      using path_crosses_up [OF assms(1) c] by blast
    have "q \<le> c_up (plain_cuts_new g) ! c"
      using cuts_new_crossed [OF e(1)] e(3,4) c assms(3) by (auto simp: crossed_def cuts_new_length)
    with e(2) show ?thesis by (simp add: newer_edge_def)
  qed
  with False show ?thesis by (simp add: plain_passable_def list_all_iff)
qed

end

subsection \<open>Component numbers never rise along an edge\<close>

text \<open>
  The invariant of the depth-first search. A position of \<open>u\<close> is explored when it lies before the one
  the open call of \<open>u\<close> is at (all of them, once the call returned); the owner of a stacked node is the
  latest open call at or below it on the stack. The pairs in \<open>pend\<close> are explored positions not yet
  accounted for.
\<close>

definition explored :: "zero_graph \<Rightarrow> tarjan \<Rightarrow> nat \<Rightarrow> nat \<Rightarrow> bool" where
  "explored g st u k \<longleftrightarrow> u \<in> set (t_stack st) \<and> zg_start g ! u \<le> k
     \<and> k < (case map_of (t_calls st) u of Some at \<Rightarrow> at | None \<Rightarrow> zg_start g ! (u + 1))"

definition owner :: "tarjan \<Rightarrow> nat \<Rightarrow> nat \<Rightarrow> bool" where
  "owner st u v \<longleftrightarrow> v \<in> fst ` set (t_calls st) \<and> t_index st ! v \<le> t_index st ! u
     \<and> (\<forall>x\<in>fst ` set (t_calls st). t_index st ! x \<le> t_index st ! u \<longrightarrow> t_index st ! x \<le> t_index st ! v)"

definition stack_inv :: "nat \<Rightarrow> tarjan \<Rightarrow> bool" where
  "stack_inv n st \<longleftrightarrow>
     length (t_index st) = n \<and> length (t_low st) = n \<and> length (t_comp st) = n \<and> length (t_on st) = n
     \<and> t_next st \<le> NONE \<and> set (t_stack st) \<subseteq> {..<n}
     \<and> sorted_wrt (\<lambda>a b. t_index st ! b < t_index st ! a) (t_stack st)
     \<and> (\<forall>v<n. t_on st ! v \<longleftrightarrow> v \<in> set (t_stack st))
     \<and> (\<forall>v<n. t_index st ! v \<noteq> NONE \<longleftrightarrow> v \<in> set (t_stack st) \<or> t_comp st ! v \<noteq> NONE)
     \<and> (\<forall>v\<in>set (t_stack st). t_comp st ! v = NONE \<and> t_index st ! v < t_next st)"

definition calls_inv :: "zero_graph \<Rightarrow> tarjan \<Rightarrow> bool" where
  "calls_inv g st \<longleftrightarrow>
     fst ` set (t_calls st) \<subseteq> set (t_stack st)
     \<and> sorted_wrt (\<lambda>a b. t_index st ! fst b < t_index st ! fst a) (t_calls st)
     \<and> (\<forall>(v, at)\<in>set (t_calls st). zg_start g ! v \<le> at \<and> at \<le> zg_start g ! (v + 1))
     \<and> (t_calls st = [] \<longleftrightarrow> t_stack st = [])
     \<and> (t_calls st \<noteq> [] \<longrightarrow> fst (last (t_calls st)) = last (t_stack st))
     \<and> (\<forall>v\<in>fst ` set (t_calls st). t_low st ! v \<le> t_index st ! v
           \<and> t_index st ! last (t_stack st) \<le> t_low st ! v)"

definition comp_inv :: "zero_graph \<Rightarrow> nat \<Rightarrow> tarjan \<Rightarrow> bool" where
  "comp_inv g n st \<longleftrightarrow> t_comps st \<le> NONE \<and> (\<forall>v<n. t_comp st ! v \<noteq> NONE \<longrightarrow> t_comp st ! v < t_comps st
     \<and> (\<forall>k. zg_start g ! v \<le> k \<longrightarrow> k < zg_start g ! (v + 1) \<longrightarrow>
           t_comp st ! (zg_to g ! k) \<noteq> NONE \<and> t_comp st ! (zg_to g ! k) \<le> t_comp st ! v))"

definition low_inv :: "zero_graph \<Rightarrow> (nat \<times> nat) set \<Rightarrow> tarjan \<Rightarrow> bool" where
  "low_inv g pend st \<longleftrightarrow> (\<forall>u k. explored g st u k \<longrightarrow> (u, k) \<notin> pend \<longrightarrow>
     t_index st ! (zg_to g ! k) \<noteq> NONE
     \<and> (\<forall>v. owner st u v \<longrightarrow> zg_to g ! k \<in> set (t_stack st) \<longrightarrow> t_low st ! v \<le> t_index st ! (zg_to g ! k)))"

definition tarjan_inv :: "zero_graph \<Rightarrow> nat \<Rightarrow> (nat \<times> nat) set \<Rightarrow> tarjan \<Rightarrow> bool" where
  "tarjan_inv g n pend st \<longleftrightarrow> stack_inv n st \<and> calls_inv g st \<and> comp_inv g n st \<and> low_inv g pend st"

text \<open>The two counters count visited and assigned nodes, so with fewer than \<open>2 ^ 16\<close> nodes none overflows.\<close>

definition counters :: "nat \<Rightarrow> tarjan \<Rightarrow> bool" where
  "counters n st \<longleftrightarrow> t_next st = card {x. x < n \<and> t_index st ! x \<noteq> NONE}
     \<and> t_comps st \<le> card {x. x < n \<and> t_comp st ! x \<noteq> NONE}"

lemma sorted_wrt_last:
  "sorted_wrt (\<lambda>a b. f b < f a) xs \<Longrightarrow> x \<in> set xs \<Longrightarrow> f (last xs) \<le> (f x :: nat)"
  by (induction xs) (auto intro: less_imp_le)

lemma sorted_wrt_distinct: "sorted_wrt (\<lambda>a b. f b < (f a :: nat)) xs \<Longrightarrow> distinct (map f xs)"
  by (induction xs) fastforce+

lemma visit_facts:
  assumes "plain_visit g w st = Some st'"
  shows "t_index st' = (t_index st)[w := t_next st]" "t_low st' = (t_low st)[w := t_next st]"
    "t_next st' = t_next st + 1" "t_next st < NONE" "t_stack st' = w # t_stack st" "t_on st' = (t_on st)[w := True]"
    "t_calls st' = (w, zg_start g ! w) # t_calls st" "t_comp st' = t_comp st" "t_comps st' = t_comps st"
  using assms by (auto simp: plain_visit_def checked_simps NONE_def)

context csr_graph
begin

lemma visit_inv:
  assumes "plain_visit g w st = Some st'" "stack_inv n st" "calls_inv g st" "comp_inv g n st" "low_inv g pend st"
    "w < n" "t_index st ! w = NONE" "pend = {} \<or> (\<exists>v at. pend = {(v, at)} \<and> zg_to g ! at = w)"
  shows "tarjan_inv g n {} st'"
proof -
  note V = visit_facts [OF assms(1)]
  note S = assms(2) [unfolded stack_inv_def]
  note C = assms(3) [unfolded calls_inv_def]
  have w: "w \<notin> set (t_stack st)" "t_comp st ! w = NONE" using S assms(6,7) by auto
  have idx: "t_index st' ! v = t_index st ! v" if "v \<noteq> w" for v using that by (simp add: V)
  have idxw: "t_index st' ! w = t_next st" using S assms(6) by (simp add: V)
  have on_stack: "v \<noteq> w" if "v \<in> set (t_stack st)" for v using that w by auto
  have below: "t_index st ! v < t_next st" if "v \<in> set (t_stack st)" for v using that S by auto
  have "stack_inv n st'"
    unfolding stack_inv_def
  proof (intro conjI)
    show "sorted_wrt (\<lambda>a b. t_index st' ! b < t_index st' ! a) (t_stack st')"
    proof -
      have "sorted_wrt (\<lambda>a b. t_index st' ! b < t_index st' ! a) (t_stack st)"
        using S on_stack idx by (auto elim!: sorted_wrt_mono_rel [rotated])
      then show ?thesis using below on_stack idx idxw by (auto simp: V(5))
    qed
    show "\<forall>v<n. t_on st' ! v \<longleftrightarrow> v \<in> set (t_stack st')" using S assms(6) by (auto simp: V nth_list_update)
    show "\<forall>v<n. t_index st' ! v \<noteq> NONE \<longleftrightarrow> v \<in> set (t_stack st') \<or> t_comp st' ! v \<noteq> NONE"
      using S V(4) assms(6) by (auto simp: V(1,5,8) nth_list_update)
    show "\<forall>v\<in>set (t_stack st'). t_comp st' ! v = NONE \<and> t_index st' ! v < t_next st'"
      using S w below on_stack idx idxw by (auto simp: V(3,5,8) less_SucI)
  qed (use S V(4) assms(6) in \<open>auto simp: V(1-3,5,6,8)\<close>)
  moreover have "calls_inv g st'"
    unfolding calls_inv_def
  proof (intro conjI)
    have sub: "fst ` set (t_calls st) \<subseteq> set (t_stack st)" using C by blast
    then have call_idx: "t_index st' ! fst c = t_index st ! fst c" if "c \<in> set (t_calls st)" for c
      using that on_stack idx by blast
    show "sorted_wrt (\<lambda>a b. t_index st' ! fst b < t_index st' ! fst a) (t_calls st')"
    proof -
      have "sorted_wrt (\<lambda>a b. t_index st' ! fst b < t_index st' ! fst a) (t_calls st)"
        using C call_idx by (auto elim!: sorted_wrt_mono_rel [rotated])
      then show ?thesis using sub below on_stack idx idxw by (fastforce simp: V(7))
    qed
    show "\<forall>v\<in>fst ` set (t_calls st'). t_low st' ! v \<le> t_index st' ! v \<and> t_index st' ! last (t_stack st') \<le> t_low st' ! v"
    proof
      fix v
      assume "v \<in> fst ` set (t_calls st')"
      then consider "v = w" | "v \<in> fst ` set (t_calls st)" by (auto simp: V(7))
      then show "t_low st' ! v \<le> t_index st' ! v \<and> t_index st' ! last (t_stack st') \<le> t_low st' ! v"
      proof cases
        case 1
        moreover have "t_index st' ! last (t_stack st') \<le> t_next st"
          using idxw below idx on_stack by (cases "t_stack st = []") (auto simp: V(5) less_imp_le)
        ultimately show ?thesis using idxw S assms(6) by (simp add: V(2))
      next
        case 2
        then have "v \<in> set (t_stack st)" "t_stack st \<noteq> []" using sub by auto
        then have "v \<noteq> w" "last (t_stack st') = last (t_stack st)" "last (t_stack st) \<noteq> w"
          using on_stack by (auto simp: V(5))
        moreover have "t_low st ! v \<le> t_index st ! v" "t_index st ! last (t_stack st) \<le> t_low st ! v"
          using 2 C by blast+
        ultimately show ?thesis by (simp add: V(2) idx)
      qed
    qed
  qed (use C start_mono [OF assms(6)] in \<open>auto simp: V\<close>)
  moreover have "comp_inv g n st'" using assms(4) by (simp add: comp_inv_def V)
  moreover have "low_inv g {} st'"
    unfolding low_inv_def
  proof (intro allI impI)
    fix u k
    assume ex: "explored g st' u k"
    then have u: "u \<noteq> w" by (auto simp: explored_def V(7))
    with ex have old: "explored g st u k" "u \<in> set (t_stack st)" by (auto simp: explored_def V(5,7))
    have sub: "fst ` set (t_calls st) \<subseteq> set (t_stack st)" using C by blast
    have own: "owner st u v" "v \<noteq> w" if "owner st' u v" for v
    proof -
      have "v \<noteq> w" using that below [OF old(2)] idx [OF u] idxw by (auto simp: owner_def)
      moreover have "x \<noteq> w" if "x \<in> fst ` set (t_calls st)" for x using that sub on_stack by blast
      ultimately show "owner st u v" "v \<noteq> w" using that idx [OF u] idx by (auto simp: owner_def V(7))
    qed
    show "t_index st' ! (zg_to g ! k) \<noteq> NONE \<and> (\<forall>v. owner st' u v \<longrightarrow> zg_to g ! k \<in> set (t_stack st')
        \<longrightarrow> t_low st' ! v \<le> t_index st' ! (zg_to g ! k))"
    proof (cases "zg_to g ! k = w")
      case True
      have "t_low st' ! v \<le> t_next st" if "owner st' u v" for v
      proof -
        have v: "v \<in> fst ` set (t_calls st)" using own [OF that] by (simp add: owner_def)
        then have "t_low st ! v \<le> t_index st ! v" "v \<in> set (t_stack st)" using C by auto
        with below [OF this(2)] own(2) [OF that] show ?thesis by (simp add: V(2))
      qed
      with True idxw V(4) show ?thesis by simp
    next
      case False
      then have "(u, k) \<notin> pend" using assms(8) by auto
      with assms(5) old(1) have "t_index st ! (zg_to g ! k) \<noteq> NONE"
        "\<forall>v. owner st u v \<longrightarrow> zg_to g ! k \<in> set (t_stack st) \<longrightarrow> t_low st ! v \<le> t_index st ! (zg_to g ! k)"
        by (auto simp: low_inv_def)
      moreover have "t_low st' ! v = t_low st ! v" if "owner st' u v" for v
        using own(2) [OF that] by (simp add: V(2))
      ultimately show ?thesis using False own(1) idx by (simp add: V(5))
    qed
  qed
  ultimately show ?thesis by (simp add: tarjan_inv_def)
qed

lemma calls_head:
  assumes "calls_inv g st" "t_calls st = (v, at) # rest"
  shows "v \<in> set (t_stack st)" "v \<notin> fst ` set rest"
    "\<And>x. x \<in> fst ` set rest \<Longrightarrow> t_index st ! x < t_index st ! v"
  using assms by (auto simp: calls_inv_def)

text \<open>Moving the open call past one position: the position becomes explored and is pending.\<close>

lemma advance_inv:
  assumes "tarjan_inv g n {} st" "t_calls st = (v, at) # rest" "at < zg_start g ! (v + 1)"
  defines "st1 \<equiv> st\<lparr>t_calls := (v, at + 1) # rest\<rparr>"
  shows "stack_inv n st1" "calls_inv g st1" "comp_inv g n st1" "low_inv g {(v, at)} st1"
    "\<And>u x. owner st1 u x \<longleftrightarrow> owner st u x"
proof -
  have I: "stack_inv n st" "calls_inv g st" "comp_inv g n st" "low_inv g {} st"
    using assms(1) by (auto simp: tarjan_inv_def)
  show "stack_inv n st1" using I(1) by (simp add: stack_inv_def st1_def)
  show "calls_inv g st1"
    using I(2) assms(2,3) by (cases "rest = []") (auto simp: calls_inv_def st1_def)
  show "comp_inv g n st1" using I(3) by (simp add: comp_inv_def st1_def)
  show own: "owner st1 u x \<longleftrightarrow> owner st u x" for u x by (auto simp: owner_def st1_def assms(2))
  show "low_inv g {(v, at)} st1"
    unfolding low_inv_def
  proof (intro allI impI)
    fix u k
    assume "explored g st1 u k" "(u, k) \<notin> {(v, at)}"
    then have "explored g st u k" by (auto simp: explored_def st1_def assms(2) split: if_splits)
    with I(4) own show "t_index st1 ! (zg_to g ! k) \<noteq> NONE \<and> (\<forall>x. owner st1 u x \<longrightarrow>
        zg_to g ! k \<in> set (t_stack st1) \<longrightarrow> t_low st1 ! x \<le> t_index st1 ! (zg_to g ! k))"
      unfolding low_inv_def by (simp add: st1_def)
  qed
qed

lemma edge_inv:
  assumes "tarjan_inv g n {} st" "t_calls st = (v, at) # rest" "at < zg_start g ! (v + 1)"
    "plain_tarjan_step g v at rest st = Some st'"
  shows "tarjan_inv g n {} st'"
proof -
  define st1 where "st1 = st\<lparr>t_calls := (v, at + 1) # rest\<rparr>"
  note A = advance_inv [OF assms(1-3), folded st1_def]
  have I: "stack_inv n st" "calls_inv g st" using assms(1) by (auto simp: tarjan_inv_def)
  define w where "w = zg_to g ! at"
  have v: "v \<in> set (t_stack st)" using calls_head(1) [OF I(2) assms(2)] .
  then have "v < n" using I(1) by (auto simp: stack_inv_def)
  moreover have "zg_start g ! v \<le> at" using I(2) assms(2) by (auto simp: calls_inv_def)
  ultimately have w: "w < n" using position_target assms(3) by (auto simp: w_def)
  have owner_v: "owner st1 v x \<longleftrightarrow> x = v" for x
    using calls_head(3) [OF I(2) assms(2)] by (fastforce simp: owner_def st1_def)
  consider "t_index st1 ! w = NONE" | "t_index st1 ! w \<noteq> NONE" "t_on st1 ! w" | "t_index st1 ! w \<noteq> NONE" "\<not> t_on st1 ! w"
    by blast
  then show ?thesis
  proof cases
    case 1
    then have "plain_visit g w st1 = Some st'"
      using assms(3,4) by (simp add: plain_tarjan_step_def Let_def w_def st1_def)
    from visit_inv [OF this A(1-4) w 1] show ?thesis by (auto simp: w_def)
  next
    case 2
    define low where "low = (t_low st1)[v := min (t_low st1 ! v) (t_index st1 ! w)]"
    have st': "st' = st1\<lparr>t_low := low\<rparr>"
      using assms(3,4) 2 by (simp add: plain_tarjan_step_def Let_def w_def st1_def low_def)
    have len: "v < length (t_low st1)" using A(1) \<open>v < n\<close> by (simp add: stack_inv_def)
    have low: "low ! v = min (t_low st1 ! v) (t_index st1 ! w)" "low ! x \<le> t_low st1 ! x" "x \<noteq> v \<Longrightarrow> low ! x = t_low st1 ! x" for x
      using len by (auto simp: low_def nth_list_update)
    have "w \<in> set (t_stack st1)" using 2 A(1) w by (simp add: stack_inv_def)
    then have last: "t_index st1 ! last (t_stack st1) \<le> t_index st1 ! w"
      using A(1) by (intro sorted_wrt_last) (auto simp: stack_inv_def)
    have "stack_inv n st'" using A(1) by (simp add: stack_inv_def st' low_def)
    moreover have "calls_inv g st'"
    proof -
      have "low ! x \<le> t_index st1 ! x \<and> t_index st1 ! last (t_stack st1) \<le> low ! x" if "x \<in> fst ` set (t_calls st1)" for x
        using A(2) that last low(1) low(3) [of x] unfolding calls_inv_def by (cases "x = v") auto
      then show ?thesis using A(2) by (simp add: calls_inv_def st')
    qed
    moreover have "comp_inv g n st'" using A(3) by (simp add: comp_inv_def st')
    moreover have "low_inv g {} st'"
      unfolding low_inv_def
    proof (intro allI impI)
      fix u k
      assume ex: "explored g st' u k"
      then have ex1: "explored g st1 u k" by (simp add: explored_def st')
      have own: "owner st' u x \<longleftrightarrow> owner st1 u x" for x by (simp add: owner_def st')
      show "t_index st' ! (zg_to g ! k) \<noteq> NONE \<and> (\<forall>x. owner st' u x \<longrightarrow> zg_to g ! k \<in> set (t_stack st')
          \<longrightarrow> t_low st' ! x \<le> t_index st' ! (zg_to g ! k))"
      proof (cases "(u, k) = (v, at)")
        case True
        then show ?thesis using 2 own owner_v low(1) by (auto simp: st' w_def)
      next
        case False
        then have "t_index st1 ! (zg_to g ! k) \<noteq> NONE \<and> (\<forall>x. owner st1 u x \<longrightarrow>
            zg_to g ! k \<in> set (t_stack st1) \<longrightarrow> t_low st1 ! x \<le> t_index st1 ! (zg_to g ! k))"
          using A(4) ex1 unfolding low_inv_def by blast
        then show ?thesis unfolding own using low(2) by (auto simp: st' intro: order_trans)
      qed
    qed
    ultimately show ?thesis by (simp add: tarjan_inv_def)
  next
    case 3
    then have st': "st' = st1" using assms(3,4) by (auto simp: plain_tarjan_step_def Let_def w_def st1_def)
    have "w \<notin> set (t_stack st1)" using 3 A(1) w by (simp add: stack_inv_def)
    then have "low_inv g {} st1" using A(4) 3 unfolding low_inv_def w_def by blast
    with A(1-3) st' show ?thesis by (simp add: tarjan_inv_def)
  qed
qed

lemma update_nth: "j < length xs \<Longrightarrow> xs[i := x] ! j = (if i = j then x else xs ! j)"
  by auto

lemma pop_component_facts:
  assumes "v \<notin> set seg"
  shows "plain_pop_component v c (seg @ v # below) on cmp = (stk, on', cmp') \<Longrightarrow>
    stk = below \<and> length on' = length on \<and> length cmp' = length cmp
    \<and> (\<forall>x<length on. on' ! x \<longleftrightarrow> on ! x \<and> x \<notin> set (seg @ [v]))
    \<and> (\<forall>x<length cmp. cmp' ! x = (if x \<in> set (seg @ [v]) then c else cmp ! x))"
  using assms
proof (induction seg arbitrary: on cmp)
  case Nil
  then show ?case by (auto simp: update_nth split: if_splits)
next
  case (Cons w seg)
  then have "plain_pop_component v c (seg @ v # below) (on[w := False]) (cmp[w := c]) = (stk, on', cmp')" by auto
  from Cons.IH [OF this] Cons.prems(2) show ?case by (auto simp: update_nth split: if_splits)
qed

text \<open>Returning from a call, with the parent's low link updated: everything but the plain_components.\<close>

lemma return_inv:
  assumes "tarjan_inv g n {} st" "t_calls st = (v, at) # (p, q) # rest" "\<not> at < zg_start g ! (v + 1)"
  defines "low \<equiv> (t_low st)[p := min (t_low st ! p) (t_low st ! v)]"
  defines "st1 \<equiv> st\<lparr>t_calls := (p, q) # rest, t_low := low\<rparr>"
  shows "tarjan_inv g n {} st1" "low ! v = t_low st ! v"
proof -
  have I: "stack_inv n st" "calls_inv g st" "comp_inv g n st" "low_inv g {} st"
    using assms(1) by (auto simp: tarjan_inv_def)
  note H = calls_head [OF I(2) assms(2)]
  have pv: "p \<noteq> v" "t_index st ! p < t_index st ! v" using H by auto
  have p: "p \<in> set (t_stack st)" using I(2) assms(2) by (auto simp: calls_inv_def)
  then have "p < n" using I(1) by (auto simp: stack_inv_def)
  then have lp: "low ! p = min (t_low st ! p) (t_low st ! v)" "\<And>x. x \<noteq> p \<Longrightarrow> low ! x = t_low st ! x" "\<And>x. low ! x \<le> t_low st ! x"
    using I(1) by (auto simp: low_def stack_inv_def nth_list_update)
  show "low ! v = t_low st ! v" using lp(2) pv by auto
  have at: "at = zg_start g ! (v + 1)" using I(2) assms(2,3) by (auto simp: calls_inv_def)
  have fv: "map_of rest v = None" using H(2) by (auto simp: map_of_eq_None_iff)
  have ex: "explored g st1 u k \<longleftrightarrow> explored g st u k" for u k
    using fv pv(1) at by (auto simp: explored_def st1_def assms(2))
  have "low_inv g {} st1"
    unfolding low_inv_def
  proof (intro allI impI)
    fix u k
    assume "explored g st1 u k"
    then have old: "t_index st ! (zg_to g ! k) \<noteq> NONE" "\<And>x. owner st u x \<Longrightarrow> zg_to g ! k \<in> set (t_stack st)
        \<Longrightarrow> t_low st ! x \<le> t_index st ! (zg_to g ! k)"
      using I(4) unfolding ex low_inv_def by auto
    have "low ! x \<le> t_index st ! (zg_to g ! k)" if own: "owner st1 u x" and tgt: "zg_to g ! k \<in> set (t_stack st)" for x
    proof (cases "t_index st ! v \<le> t_index st ! u")
      case True
      have "owner st u v" using True H(3) by (auto simp: owner_def assms(2) less_imp_le)
      then have "t_low st ! v \<le> t_index st ! (zg_to g ! k)" using old(2) tgt by blast
      moreover have "x = p"
      proof -
        have "t_index st ! p \<le> t_index st ! x" "x \<in> fst ` set ((p, q) # rest)"
          using own True pv(2) by (auto simp: owner_def st1_def)
        moreover have "t_index st ! y < t_index st ! p" if "y \<in> fst ` set rest" for y
          using that I(2) assms(2) by (auto simp: calls_inv_def)
        ultimately show ?thesis by fastforce
      qed
      ultimately show ?thesis using lp(1) by simp
    next
      case False
      then have "owner st u x" using own by (auto simp: owner_def st1_def assms(2))
      with old(2) tgt lp(3) show ?thesis by (meson order_trans)
    qed
    with old(1) show "t_index st1 ! (zg_to g ! k) \<noteq> NONE \<and> (\<forall>x. owner st1 u x \<longrightarrow>
        zg_to g ! k \<in> set (t_stack st1) \<longrightarrow> t_low st1 ! x \<le> t_index st1 ! (zg_to g ! k))"
      by (simp add: st1_def)
  qed
  moreover have "calls_inv g st1"
  proof -
    have "low ! x \<le> t_index st ! x \<and> t_index st ! last (t_stack st) \<le> low ! x" if "x \<in> fst ` set (t_calls st)" for x
    proof -
      have b: "t_low st ! y \<le> t_index st ! y \<and> t_index st ! last (t_stack st) \<le> t_low st ! y"
        if "y \<in> fst ` set (t_calls st)" for y
        using I(2) that unfolding calls_inv_def by blast
      have "v \<in> fst ` set (t_calls st)" "p \<in> fst ` set (t_calls st)" by (auto simp: assms(2))
      from b [OF that] b [OF this(1)] b [OF this(2)] show ?thesis
        using lp(1) lp(2) [of x] by (cases "x = p") (auto simp: min_le_iff_disj)
    qed
    then show ?thesis using I(2) by (auto simp: calls_inv_def st1_def assms(2))
  qed
  ultimately show "tarjan_inv g n {} st1"
    using I(1,3) by (simp add: tarjan_inv_def stack_inv_def comp_inv_def st1_def low_def)
qed

text \<open>A call whose low link is its own index closes a component: everything stacked from it up.\<close>

lemma close_inv:
  assumes "tarjan_inv g n {} st" "t_calls st = (v, at) # rest" "\<not> at < zg_start g ! (v + 1)"
    "t_low st ! v = t_index st ! v" "rest \<noteq> [] \<Longrightarrow> tarjan_inv g n {} st1" "t_comps st < NONE"
    "st1 = st\<lparr>t_calls := rest, t_low := low\<rparr>" "length low = n"
    "plain_pop_component v (t_comps st) (t_stack st) (t_on st) (t_comp st) = (stk, on', cmp')"
  shows "tarjan_inv g n {} (st1\<lparr>t_stack := stk, t_on := on', t_comp := cmp', t_comps := t_comps st + 1\<rparr>)"
proof -
  have I: "stack_inv n st" "calls_inv g st" "comp_inv g n st" "low_inv g {} st"
    using assms(1) by (auto simp: tarjan_inv_def)
  note H = calls_head [OF I(2) assms(2)]
  have sorted: "sorted_wrt (\<lambda>a b. t_index st ! b < t_index st ! a) (t_stack st)" using I(1) by (simp add: stack_inv_def)
  obtain seg below where stk: "t_stack st = seg @ v # below" using H(1) by (meson split_list)
  have seg: "\<And>x. x \<in> set seg \<Longrightarrow> t_index st ! v < t_index st ! x" "\<And>x. x \<in> set below \<Longrightarrow> t_index st ! x < t_index st ! v"
    using sorted by (auto simp: stk sorted_wrt_append)
  then have vseg: "v \<notin> set seg" "v \<notin> set below" by auto
  have len: "length (t_on st) = n" "length (t_comp st) = n" "set (t_stack st) \<subseteq> {..<n}" using I(1) by (auto simp: stack_inv_def)
  have P: "stk = below" "length on' = n" "length cmp' = n"
    "\<And>x. x < n \<Longrightarrow> on' ! x \<longleftrightarrow> t_on st ! x \<and> x \<notin> set (seg @ [v])"
    "\<And>x. x < n \<Longrightarrow> cmp' ! x = (if x \<in> set (seg @ [v]) then t_comps st else t_comp st ! x)"
    using pop_component_facts [OF vseg(1), of "t_comps st" below "t_on st" "t_comp st" stk on' cmp'] assms(9) len
    by (auto simp: stk)
  have disj: "x \<in> set below \<Longrightarrow> x \<notin> set (seg @ [v])" for x using seg vseg by fastforce
  define st2 where "st2 = st1\<lparr>t_stack := stk, t_on := on', t_comp := cmp', t_comps := t_comps st + 1\<rparr>"
  have same: "t_index st2 = t_index st" "t_calls st2 = rest" "t_stack st2 = below" "t_low st2 = low" "t_comp st2 = cmp'"
    "t_on st2 = on'" "t_comps st2 = t_comps st + 1" "t_next st2 = t_next st"
    by (simp_all add: st2_def assms(7) P(1))
  have "stack_inv n st2"
    unfolding stack_inv_def same
  proof (intro conjI)
    show "\<forall>x<n. on' ! x \<longleftrightarrow> x \<in> set below" using P(4) I(1) disj by (auto simp: stack_inv_def stk)
    show "\<forall>x<n. t_index st ! x \<noteq> NONE \<longleftrightarrow> x \<in> set below \<or> cmp' ! x \<noteq> NONE"
      using P(5) I(1) assms(6) disj by (auto simp: stack_inv_def stk)
    show "\<forall>x\<in>set below. cmp' ! x = NONE \<and> t_index st ! x < t_next st"
      using P(5) I(1) disj len(3) by (auto simp: stack_inv_def stk)
    show "sorted_wrt (\<lambda>a b. t_index st ! b < t_index st ! a) below" using sorted by (simp add: stk sorted_wrt_append)
  qed (use I(1) P assms(8) in \<open>auto simp: stack_inv_def stk\<close>)
  moreover have "comp_inv g n st2"
    unfolding comp_inv_def same
  proof (intro conjI allI impI)
    show "t_comps st + 1 \<le> NONE" using assms(6) by simp
    fix x
    assume x: "x < n" "cmp' ! x \<noteq> NONE"
    show "cmp' ! x < t_comps st + 1" using P(5) [OF x(1)] x I(3) by (auto simp: comp_inv_def less_SucI)
    fix k
    assume k: "zg_start g ! x \<le> k" "k < zg_start g ! (x + 1)"
    let ?w = "zg_to g ! k"
    have w: "?w < n" by (rule position_target [OF x(1) k])
    show "cmp' ! ?w \<noteq> NONE" and "cmp' ! ?w \<le> cmp' ! x"
    proof -
      have "cmp' ! ?w \<noteq> NONE \<and> cmp' ! ?w \<le> cmp' ! x"
      proof (cases "x \<in> set (seg @ [v])")
        case True
        have "at = zg_start g ! (v + 1)" using I(2) assms(2,3) by (auto simp: calls_inv_def)
        moreover have "x \<notin> fst ` set rest" using True H(2,3) seg(1) by fastforce
        then have "map_of rest x = None" by (auto simp: map_of_eq_None_iff)
        ultimately have "explored g st x k" using k True by (auto simp: explored_def assms(2) stk)
        moreover have "owner st x v"
          using True H(3) seg(1) by (fastforce simp: owner_def assms(2) less_imp_le)
        ultimately have vis: "t_index st ! ?w \<noteq> NONE" "?w \<in> set (t_stack st) \<Longrightarrow> t_index st ! v \<le> t_index st ! ?w"
          using I(4) unfolding low_inv_def assms(4) [symmetric] by blast+
        show ?thesis
        proof (cases "?w \<in> set (t_stack st)")
          case on: True
          then have "?w \<in> set (seg @ [v])" using vis(2) seg(2) by (fastforce simp: stk)
          then show ?thesis using True P(5) w x(1) assms(6) by simp
        next
          case False
          then have "t_comp st ! ?w \<noteq> NONE" using vis(1) I(1) w by (auto simp: stack_inv_def)
          moreover from this have "t_comp st ! ?w < t_comps st" using I(3) w by (simp add: comp_inv_def)
          moreover have "?w \<notin> set (seg @ [v])" using False by (auto simp: stk)
          ultimately show ?thesis using True P(5) w x(1) by simp
        qed
      next
        case False
        then have cx: "cmp' ! x = t_comp st ! x" using P(5) x(1) by simp
        with x k I(3) have "t_comp st ! ?w \<noteq> NONE" "t_comp st ! ?w \<le> t_comp st ! x" by (auto simp: comp_inv_def)
        moreover from this(1) have "?w \<notin> set (seg @ [v])" using I(1) by (auto simp: stack_inv_def stk)
        ultimately show ?thesis using cx P(5) w by simp
      qed
      then show "cmp' ! ?w \<noteq> NONE" and "cmp' ! ?w \<le> cmp' ! x" by auto
    qed
  qed
  moreover have "calls_inv g st2 \<and> low_inv g {} st2"
  proof (cases "rest = []")
    case True
    then have "last (t_stack st) = v" using I(2) by (simp add: calls_inv_def assms(2))
    then have "below = []" using vseg(2) by (cases "below = []") (auto simp: stk dest: last_in_set)
    with True show ?thesis by (simp add: calls_inv_def low_inv_def explored_def same)
  next
    case False
    with assms(5) have I1: "calls_inv g st1" "low_inv g {} st1" by (auto simp: tarjan_inv_def)
    have st1: "t_calls st1 = rest" "t_stack st1 = seg @ v # below" "t_index st1 = t_index st" "t_low st1 = low"
      by (simp_all add: assms(7) stk)
    have sub: "fst ` set rest \<subseteq> set below"
    proof
      fix x
      assume x: "x \<in> fst ` set rest"
      then have "x \<in> set (seg @ v # below)" using I1(1) by (auto simp: calls_inv_def st1)
      with H(3) [OF x] seg(1) show "x \<in> set below" by fastforce
    qed
    then have "below \<noteq> []" using False by auto
    then have "calls_inv g st2" using I1(1) False sub by (simp add: calls_inv_def st1 same)
    moreover have "low_inv g {} st2"
    proof -
      have "explored g st2 u k \<Longrightarrow> explored g st1 u k" "owner st2 u x \<longleftrightarrow> owner st1 u x" for u k x
        by (auto simp: explored_def owner_def same st1)
      moreover have "set below \<subseteq> set (t_stack st1)" by (auto simp: st1)
      ultimately show ?thesis
        using I1(2) unfolding low_inv_def same st1(3,4) by (meson subsetD)
    qed
    ultimately show ?thesis ..
  qed
  ultimately show ?thesis by (simp add: tarjan_inv_def st2_def)
qed

lemma return_step_inv:
  assumes "tarjan_inv g n {} st" "t_calls st = (v, at) # rest" "\<not> at < zg_start g ! (v + 1)"
    "plain_tarjan_step g v at rest st = Some st'"
  shows "tarjan_inv g n {} st'"
proof -
  have I: "stack_inv n st" "calls_inv g st" using assms(1) by (auto simp: tarjan_inv_def)
  define low where "low = (case rest of [] \<Rightarrow> t_low st | (p, _) # _ \<Rightarrow> (t_low st)[p := min (t_low st ! p) (t_low st ! v)])"
  define st1 where "st1 = st\<lparr>t_calls := rest, t_low := low\<rparr>"
  have len: "length low = n" using I(1) by (auto simp: low_def stack_inv_def split: list.splits)
  have R: "low ! v = t_low st ! v \<and> (rest \<noteq> [] \<longrightarrow> tarjan_inv g n {} st1)"
  proof (cases rest)
    case (Cons c rest')
    obtain p q where c: "c = (p, q)" by (cases c)
    show ?thesis
      using return_inv [OF assms(1) assms(2) [unfolded Cons c] assms(3)] by (simp add: low_def st1_def Cons c)
  qed (simp add: low_def)
  show ?thesis
  proof (cases "t_low st ! v = t_index st ! v")
    case True
    obtain stk on' cmp' where pop: "plain_pop_component v (t_comps st) (t_stack st) (t_on st) (t_comp st) = (stk, on', cmp')"
      by (cases "plain_pop_component v (t_comps st) (t_stack st) (t_on st) (t_comp st)") auto
    have "do { comps \<leftarrow> checked_add 16 (t_comps st) 1;
        Some (st1\<lparr>t_stack := stk, t_on := on', t_comp := cmp', t_comps := comps\<rparr>) } = Some st'"
      using assms(3,4) True R pop by (simp add: plain_tarjan_step_def Let_def low_def [symmetric] st1_def)
    then have st': "t_comps st < NONE" "st' = st1\<lparr>t_stack := stk, t_on := on', t_comp := cmp', t_comps := t_comps st + 1\<rparr>"
      by (auto simp: checked_simps NONE_def)
    show ?thesis unfolding st'(2)
      by (rule close_inv [OF assms(1-3) True _ st'(1) st1_def len pop]) (use R in blast)
  next
    case False
    have "rest \<noteq> []"
    proof
      assume "rest = []"
      then have "last (t_stack st) = v" using I(2) assms(2) by (simp add: calls_inv_def)
      with I(2) assms(2) False show False by (auto simp: calls_inv_def)
    qed
    moreover have "st' = st1"
      using assms(3,4) False R by (simp add: plain_tarjan_step_def Let_def low_def [symmetric] st1_def)
    ultimately show ?thesis using R by blast
  qed
qed

lemma step_inv:
  assumes "tarjan_inv g n {} st" "t_calls st = (v, at) # rest" "plain_tarjan_step g v at rest st = Some st'"
  shows "tarjan_inv g n {} st'"
  using edge_inv [OF assms(1,2) _ assms(3)] return_step_inv [OF assms(1,2) _ assms(3)] by blast

lemma loop_inv:
  "plain_tarjan_loop h st = Some st' \<Longrightarrow> h = g \<Longrightarrow> tarjan_inv g n {} st \<Longrightarrow> tarjan_inv g n {} st' \<and> t_calls st' = []"
proof (induction h st rule: plain_tarjan_loop.induct)
  case (1 h st)
  show ?case
  proof (cases "t_calls st")
    case Nil
    with 1(2) have "st' = st" by (subst (asm) plain_tarjan_loop.simps) simp
    with Nil 1(4) show ?thesis by simp
  next
    case (Cons c rest)
    obtain v at where c: "c = (v, at)" by (cases c)
    with Cons have calls: "t_calls st = (v, at) # rest" by simp
    with 1(2) obtain st1 where st1: "plain_tarjan_step h v at rest st = Some st1" "plain_tarjan_loop h st1 = Some st'"
      by (auto simp: plain_tarjan_loop.simps [of h st] split: option.splits)
    with step_inv [OF 1(4) calls] 1(3) have "tarjan_inv g n {} st1" by blast
    with 1(1) [OF Cons c [symmetric] st1(1) st1(2) 1(3)] show ?thesis by blast
  qed
qed

lemma update_keeps: "xs ! j \<noteq> c \<Longrightarrow> x \<noteq> c \<Longrightarrow> xs[i := x] ! j \<noteq> c"
  by (metis list_update_beyond not_le_imp_less nth_list_update_eq nth_list_update_neq)

lemma step_visited:
  "plain_tarjan_step g v at rest st = Some st' \<Longrightarrow> t_index st ! x \<noteq> NONE \<Longrightarrow> t_index st' ! x \<noteq> NONE"
  by (auto simp: plain_tarjan_step_def Let_def plain_visit_def checked_simps NONE_def update_keeps
      split: if_splits prod.splits)

lemma loop_visited:
  "plain_tarjan_loop h st = Some st' \<Longrightarrow> h = g \<Longrightarrow> t_index st ! x \<noteq> NONE \<Longrightarrow> t_index st' ! x \<noteq> NONE"
proof (induction h st rule: plain_tarjan_loop.induct)
  case (1 h st)
  show ?case
  proof (cases "t_calls st")
    case Nil
    with 1(2) have "st' = st" by (subst (asm) plain_tarjan_loop.simps) simp
    with 1(4) show ?thesis by simp
  next
    case (Cons c rest)
    obtain v at where c: "c = (v, at)" by (cases c)
    with Cons have calls: "t_calls st = (v, at) # rest" by simp
    with 1(2) obtain st1 where st1: "plain_tarjan_step h v at rest st = Some st1" "plain_tarjan_loop h st1 = Some st'"
      by (auto simp: plain_tarjan_loop.simps [of h st] split: option.splits)
    with step_visited 1(3,4) have "t_index st1 ! x \<noteq> NONE" by blast
    with 1(1) [OF Cons c [symmetric] st1(1) st1(2) 1(3)] show ?thesis by blast
  qed
qed

lemma roots_inv:
  assumes "plain_tarjan_roots g roots st = Some st'" "set roots \<subseteq> {..<n}" "tarjan_inv g n {} st" "t_calls st = []"
  shows "tarjan_inv g n {} st' \<and> t_calls st' = [] \<and> (\<forall>r\<in>set roots. t_index st' ! r \<noteq> NONE)
    \<and> (\<forall>x. t_index st ! x \<noteq> NONE \<longrightarrow> t_index st' ! x \<noteq> NONE)"
  using assms
proof (induction roots arbitrary: st)
  case (Cons r roots)
  show ?case
  proof (cases "t_index st ! r = NONE")
    case True
    with Cons.prems(1) obtain st1 st2 where st: "plain_visit g r st = Some st1" "plain_tarjan_loop g st1 = Some st2"
      "plain_tarjan_roots g roots st2 = Some st'"
      by (auto simp: checked_simps)
    have I: "stack_inv n st" "calls_inv g st" "comp_inv g n st" "low_inv g {} st"
      using Cons.prems(3) by (auto simp: tarjan_inv_def)
    have "r < n" using Cons.prems(2) by simp
    from visit_inv [OF st(1) I this True] have "tarjan_inv g n {} st1" by simp
    with loop_inv [OF st(2)] have I2: "tarjan_inv g n {} st2" "t_calls st2 = []" by auto
    note V = visit_facts [OF st(1)]
    have "t_index st1 ! r \<noteq> NONE" using I(1) \<open>r < n\<close> V(4) by (simp add: V(1) stack_inv_def)
    moreover have "t_index st1 ! x \<noteq> NONE" if "t_index st ! x \<noteq> NONE" for x
      using that V(4) by (simp add: V(1) update_keeps)
    ultimately have "t_index st2 ! r \<noteq> NONE" "\<And>x. t_index st ! x \<noteq> NONE \<Longrightarrow> t_index st2 ! x \<noteq> NONE"
      using loop_visited [OF st(2)] by auto
    with Cons.IH [OF st(3) _ I2] Cons.prems(2) show ?thesis by auto
  next
    case False
    with Cons.prems(1) have "plain_tarjan_roots g roots st = Some st'" by simp
    with Cons.IH [OF this _ Cons.prems(3,4)] Cons.prems(2) False show ?thesis by auto
  qed
qed simp

lemma components_mono:
  assumes "plain_components g = Some cmp"
  shows "(u, v, r) \<in> set es \<Longrightarrow> cmp ! v \<le> cmp ! u"
proof -
  define st where "st = \<lparr>t_index = replicate n NONE, t_low = replicate n 0, t_comp = replicate n NONE,
      t_on = replicate n False, t_stack = [], t_calls = [], t_next = 0, t_comps = 0\<rparr>"
  obtain st' where st': "plain_tarjan_roots g [0..<n] st = Some st'" "cmp = t_comp st'"
    using assms by (auto simp: plain_components_def start_length st_def)
  have init: "tarjan_inv g n {} st"
    by (simp add: tarjan_inv_def stack_inv_def calls_inv_def comp_inv_def low_inv_def explored_def st_def)
  have "t_calls st = []" "set [0..<n] \<subseteq> {..<n}" by (auto simp: st_def)
  from roots_inv [OF st'(1) this(2) init this(1)] have R: "tarjan_inv g n {} st'" "t_calls st' = []" "\<And>x. x < n \<Longrightarrow> t_index st' ! x \<noteq> NONE"
    by auto
  then have "t_stack st' = []" by (simp add: tarjan_inv_def calls_inv_def)
  with R have all: "t_comp st' ! x \<noteq> NONE" if "x < n" for x
    using that by (simp add: tarjan_inv_def stack_inv_def)
  show "cmp ! v \<le> cmp ! u" if e: "(u, v, r) \<in> set es"
  proof -
    obtain k where k: "u < n" "zg_start g ! u \<le> k" "k < zg_start g ! (u + 1)" "zg_to g ! k = v"
      using e edge_iff by blast
    with R(1) all [OF k(1)] show ?thesis by (auto simp: tarjan_inv_def comp_inv_def st'(2))
  qed
qed

lemma components_path:
  assumes "plain_components g = Some cmp" "(u, v) \<in> (step_rel es newer)\<^sup>*"
  shows "cmp ! v \<le> cmp ! u"
  using assms(2)
  by (induction rule: rtrancl_induct) (auto simp: step_rel_def dest: components_mono [OF assms(1)] intro: order_trans)

lemma card_insert_below: "w < n \<Longrightarrow> \<not> P w \<Longrightarrow> card {x. x < n \<and> (x = w \<or> P x)} = Suc (card {x. x < n \<and> P x})"
proof -
  assume "w < n" "\<not> P w"
  then have "{x. x < n \<and> (x = w \<or> P x)} = insert w {x. x < n \<and> P x}" "w \<notin> {x. x < n \<and> P x}" by auto
  then show ?thesis by simp
qed

lemma card_missing: "w < n \<Longrightarrow> \<not> P w \<Longrightarrow> card {x. x < n \<and> P x} < n"
  using psubset_card_mono [of "{..<n}" "{x. x < n \<and> P x}"] by (simp add: psubset_eq) blast

lemma visit_total:
  assumes "counters n st" "length (t_index st) = n" "w < n" "t_index st ! w = NONE" "n \<le> NONE"
  shows "\<exists>st'. plain_visit g w st = Some st' \<and> counters n st'"
proof -
  have lt: "t_next st < NONE"
    using card_missing [of w "\<lambda>x. t_index st ! x \<noteq> NONE"] assms by (auto simp: counters_def)
  then obtain st' where st': "plain_visit g w st = Some st'"
    by (auto simp: plain_visit_def checked_add_def checked_def NONE_def)
  note V = visit_facts [OF this]
  have "{x. x < n \<and> t_index st' ! x \<noteq> NONE} = {x. x < n \<and> (x = w \<or> t_index st ! x \<noteq> NONE)}"
    using lt assms(2,3) by (auto simp: V(1) update_nth split: if_splits)
  then have "counters n st'"
    using assms(1,3,4) card_insert_below [of w "\<lambda>x. t_index st ! x \<noteq> NONE"] by (simp add: counters_def V)
  with st' show ?thesis by blast
qed

lemma pop_component_grows:
  "plain_pop_component v c stk on cmp = (stk', on', cmp') \<Longrightarrow> c \<noteq> NONE \<Longrightarrow> length cmp = n \<Longrightarrow>
   {x. x < n \<and> cmp ! x \<noteq> NONE} \<subseteq> {x. x < n \<and> cmp' ! x \<noteq> NONE} \<and> (v \<in> set stk \<longrightarrow> v < n \<longrightarrow> cmp' ! v \<noteq> NONE)"
proof (induction v c stk on cmp rule: plain_pop_component.induct)
  case (2 v c w stack on cmp)
  show ?case
  proof (cases "w = v")
    case True
    with 2 show ?thesis by (auto simp: update_nth split: if_splits)
  next
    case False
    with 2 have "{x. x < n \<and> cmp[w := c] ! x \<noteq> NONE} \<subseteq> {x. x < n \<and> cmp' ! x \<noteq> NONE}"
      "v \<in> set stack \<longrightarrow> v < n \<longrightarrow> cmp' ! v \<noteq> NONE" by auto
    moreover have "{x. x < n \<and> cmp ! x \<noteq> NONE} \<subseteq> {x. x < n \<and> cmp[w := c] ! x \<noteq> NONE}"
      using 2(3) by (auto simp: update_keeps)
    ultimately show ?thesis using False by auto
  qed
qed auto

lemma step_total:
  assumes "tarjan_inv g n {} st" "counters n st" "t_calls st = (v, at) # rest" "n \<le> NONE"
  shows "\<exists>st'. plain_tarjan_step g v at rest st = Some st' \<and> counters n st'"
proof -
  have I: "stack_inv n st" "calls_inv g st" using assms(1) by (auto simp: tarjan_inv_def)
  have v: "v \<in> set (t_stack st)" using calls_head(1) [OF I(2) assms(3)] .
  then have vn: "v < n" "t_comp st ! v = NONE" using I(1) by (auto simp: stack_inv_def)
  have len: "length (t_index st) = n" "length (t_comp st) = n" using I(1) by (auto simp: stack_inv_def)
  show ?thesis
  proof (cases "at < zg_start g ! (v + 1)")
    case True
    have "zg_start g ! v \<le> at" using I(2) assms(3) by (auto simp: calls_inv_def)
    then have w: "zg_to g ! at < n" using position_target vn(1) True by auto
    show ?thesis
    proof (cases "t_index st ! (zg_to g ! at) = NONE")
      case none: True
      have "counters n (st\<lparr>t_calls := (v, at + 1) # rest\<rparr>)" using assms(2) by (simp add: counters_def)
      from visit_total [OF this _ w _ assms(4)] none len True show ?thesis
        by (simp add: plain_tarjan_step_def Let_def)
    next
      case False
      with True assms(2) show ?thesis by (auto simp: plain_tarjan_step_def Let_def counters_def)
    qed
  next
    case False
    define low where "low = (case rest of [] \<Rightarrow> t_low st | (p, _) # _ \<Rightarrow> (t_low st)[p := min (t_low st ! p) (t_low st ! v)])"
    obtain stk on' cmp' where pop: "plain_pop_component v (t_comps st) (t_stack st) (t_on st) (t_comp st) = (stk, on', cmp')"
      by (cases "plain_pop_component v (t_comps st) (t_stack st) (t_on st) (t_comp st)") auto
    have lt: "t_comps st < NONE"
      using card_missing [of v "\<lambda>x. t_comp st ! x \<noteq> NONE"] assms(2,4) vn by (auto simp: counters_def)
    have grow: "{x. x < n \<and> (x = v \<or> t_comp st ! x \<noteq> NONE)} \<subseteq> {x. x < n \<and> cmp' ! x \<noteq> NONE}"
      using pop_component_grows [OF pop _ len(2)] lt v vn by auto
    have "Suc (card {x. x < n \<and> t_comp st ! x \<noteq> NONE}) \<le> card {x. x < n \<and> cmp' ! x \<noteq> NONE}"
      using card_mono [OF _ grow] card_insert_below [of v "\<lambda>x. t_comp st ! x \<noteq> NONE"] vn by simp
    with False assms(2) lt pop show ?thesis
      by (auto simp: plain_tarjan_step_def Let_def low_def [symmetric] counters_def checked_add_def checked_def NONE_def)
  qed
qed

lemma loop_total:
  "h = g \<Longrightarrow> tarjan_inv g n {} st \<Longrightarrow> counters n st \<Longrightarrow> n \<le> NONE \<Longrightarrow> \<exists>st'. plain_tarjan_loop h st = Some st' \<and> counters n st'"
proof (induction h st rule: plain_tarjan_loop.induct)
  case (1 h st)
  show ?case
  proof (cases "t_calls st")
    case Nil
    with 1(4) show ?thesis by (subst plain_tarjan_loop.simps) simp
  next
    case (Cons c rest)
    obtain v at where c: "c = (v, at)" by (cases c)
    with Cons have calls: "t_calls st = (v, at) # rest" by simp
    obtain st1 where st1: "plain_tarjan_step h v at rest st = Some st1" "counters n st1"
      using step_total [OF 1(3,4) calls 1(5)] 1(2) by auto
    have "tarjan_inv g n {} st1" using step_inv [OF 1(3) calls] st1(1) 1(2) by blast
    from 1(1) [OF Cons c [symmetric] st1(1) 1(2) this st1(2) 1(5)] calls st1(1) show ?thesis
      by (subst plain_tarjan_loop.simps) simp
  qed
qed

lemma roots_total:
  assumes "set roots \<subseteq> {..<n}" "tarjan_inv g n {} st" "t_calls st = []" "counters n st" "n \<le> NONE"
  shows "\<exists>st'. plain_tarjan_roots g roots st = Some st'"
  using assms(1-4)
proof (induction roots arbitrary: st)
  case (Cons r roots)
  show ?case
  proof (cases "t_index st ! r = NONE")
    case True
    have I: "stack_inv n st" "calls_inv g st" "comp_inv g n st" "low_inv g {} st"
      using Cons.prems(2) by (auto simp: tarjan_inv_def)
    have r: "r < n" using Cons.prems(1) by simp
    obtain st1 where st1: "plain_visit g r st = Some st1" "counters n st1"
      using visit_total [OF Cons.prems(4) _ r True assms(5)] I(1) by (auto simp: stack_inv_def)
    have i1: "tarjan_inv g n {} st1" using visit_inv [OF st1(1) I r True] by simp
    obtain st2 where st2: "plain_tarjan_loop g st1 = Some st2" "counters n st2"
      using loop_total [OF refl i1 st1(2) assms(5)] by blast
    with loop_inv [OF st2(1) refl i1] Cons.IH [of st2] Cons.prems(1) True st1(1) show ?thesis by auto
  next
    case False
    with Cons show ?thesis by simp
  qed
qed simp

lemma components_total:
  assumes "n \<le> NONE"
  shows "\<exists>cmp. plain_components g = Some cmp"
proof -
  define st where "st = \<lparr>t_index = replicate n NONE, t_low = replicate n 0, t_comp = replicate n NONE,
      t_on = replicate n False, t_stack = [], t_calls = [], t_next = 0, t_comps = 0\<rparr>"
  have "tarjan_inv g n {} st" "t_calls st = []"
    by (simp_all add: tarjan_inv_def stack_inv_def calls_inv_def comp_inv_def low_inv_def explored_def st_def)
  moreover have "counters n st" by (simp add: counters_def st_def)
  ultimately obtain st' where "plain_tarjan_roots g [0..<n] st = Some st'"
    using roots_total [of "[0..<n]" st] assms by (auto simp: atLeast0LessThan)
  then show ?thesis by (simp add: plain_components_def start_length st_def)
qed

end

text \<open>
  The graph the verifier builds meets the interface: for any edge list, cut down to the edges between
  nodes (the verifier's own edges all are).
\<close>

interpretation built: csr_graph "plain_graph_of_edges (filter (\<lambda>(u, v, r). u < n \<and> v < n) es) n" n
  "filter (\<lambda>(u, v, r). u < n \<and> v < n) es" for es n
  by (rule graph_of_edges_csr) (auto simp: in_range_def)

end
