(* ===== verification/Package_Rules.thy ===== *)
theory Package_Rules
  imports Payoff Zero_Graph "HOL-Library.List_Lexorder"
begin

unbundle bit_operations_syntax

text \<open>
  Packages: the arcs, the taker and the canonical nodes of \<open>crates/futures-math/src/lib.rs\<close>, and the rules of the
  check in their plain form, with total indexing, \<open>plain_verify\<close>. What it accepts is feasible, of least cost,
  maximal for the taker, first in time and unique. \<open>Package\<close> has the check as the code runs it, with every index
  and every counter checked.
\<close>

subsection \<open>Arcs and nodes\<close>

datatype arc_id = Order u16 | Maker u8 u16 side u8

record arc =
  a_id :: arc_id
  a_side :: side
  a_lo :: u16
  a_hi :: u16
  a_price :: u64
  a_cap :: u64
  a_rank :: u128

definition rank :: "u64 \<Rightarrow> u32 \<Rightarrow> u128" where
  "rank seq sub = push_bit 32 seq OR sub"

definition MAX_TIERS :: u8 where
  "MAX_TIERS = 8"

definition maker_sub :: "u16 \<Rightarrow> side \<Rightarrow> u8 \<Rightarrow> u32" where
  "maker_sub step sd tier = (step * 2 + side_u8 sd) * MAX_TIERS + tier"

definition tail :: "arc \<Rightarrow> u16" where
  "tail a = (case a_side a of Long \<Rightarrow> a_lo a | Short \<Rightarrow> a_hi a)"

definition head :: "arc \<Rightarrow> u16" where
  "head a = (case a_side a of Long \<Rightarrow> a_hi a | Short \<Rightarrow> a_lo a)"

definition cost :: "arc \<Rightarrow> i64 option" where
  "cost a = (case a_side a of
      Long \<Rightarrow> checked_int 64 (- as_signed 64 (a_price a))
    | Short \<Rightarrow> Some (as_signed 64 (a_price a)))"

record taker =
  tk_side :: side
  tk_lo :: u16
  tk_hi :: u16
  tk_limit :: u64
  tk_qty :: u64

definition taker_arc :: "taker \<Rightarrow> arc" where
  "taker_arc t = \<lparr>a_id = Order U16_MAX, a_side = tk_side t, a_lo = tk_lo t, a_hi = tk_hi t,
     a_price = tk_limit t, a_cap = tk_qty t, a_rank = 2 ^ 128 - 1\<rparr>"

record nodes =
  n_positions :: "u16 list"
  n_index :: "u16 list"

definition mark :: "u16 \<Rightarrow> u16 list \<Rightarrow> u16 list" where
  "mark p index = (if p < length index then index[p := 0] else index)"

definition number_slot :: "usize \<Rightarrow> u16 list \<times> u16 list \<Rightarrow> u16 list \<times> u16 list" where
  "number_slot p st = (case st of (positions, index) \<Rightarrow>
     if index ! p = 0 then (positions @ [p], index[p := cast 16 (length positions)]) else (positions, index))"

definition nodes_new :: "arc list \<Rightarrow> taker option \<Rightarrow> u16 \<Rightarrow> nodes" where
  "nodes_new arcs taker grid =
     (let index = replicate (grid + 1) U16_MAX;
          index = fold (\<lambda>a index. mark (a_hi a) (mark (a_lo a) index)) arcs index;
          index = (case taker of None \<Rightarrow> index | Some t \<Rightarrow> mark (tk_hi t) (mark (tk_lo t) index));
          (positions, index) = fold number_slot [0..<grid + 1] ([], index)
      in \<lparr>n_positions = positions, n_index = index\<rparr>)"

text \<open>The node of a position, in its plain form.\<close>

definition plain_node_of :: "nodes \<Rightarrow> u16 \<Rightarrow> usize" where
  "plain_node_of nodes p = n_index nodes ! p"

subsection \<open>The rules of the check\<close>

definition plain_balance :: "(u16 \<times> u16) list \<Rightarrow> u64 list \<Rightarrow> usize \<Rightarrow> i128 list" where
  "plain_balance ends all_fills nodes =
     fold (\<lambda>((t, h), m) net. let net = net[t := net ! t - int m] in net[h := net ! h + int m])
       (zip ends all_fills) (replicate nodes 0)"

definition plain_reduced :: "arc list \<Rightarrow> (u16 \<times> u16) list \<Rightarrow> i64 list \<Rightarrow> usize \<Rightarrow> i128 option" where
  "plain_reduced all_arcs ends potentials i = do {
     c \<leftarrow> cost (all_arcs ! i);
     Some (c + potentials ! fst (ends ! i) - potentials ! snd (ends ! i)) }"

fun plain_price_check :: "arc list \<Rightarrow> u64 list \<Rightarrow> (u16 \<times> u16) list \<Rightarrow> i64 list \<Rightarrow> usize \<Rightarrow> usize list \<Rightarrow> usize list \<Rightarrow>
    (verify_error + usize list) option" where
  "plain_price_check all_arcs all_fills ends potentials n [] zero = Some (Inr zero)"
| "plain_price_check all_arcs all_fills ends potentials n (i # is) zero = do {
     r \<leftarrow> plain_reduced all_arcs ends potentials i;
     if (all_fills ! i < a_cap (all_arcs ! i) \<and> r < 0) \<or> (0 < all_fills ! i \<and> 0 < r)
     then Some (Inl (Price i))
     else plain_price_check all_arcs all_fills ends potentials n is (if r = 0 \<and> i < n then zero @ [i] else zero) }"

definition plain_zero_edges :: "arc list \<Rightarrow> u64 list \<Rightarrow> usize list \<Rightarrow> (u16 \<times> u16) list \<Rightarrow> edge list" where
  "plain_zero_edges arcs fills zero ends =
     concat (map (\<lambda>i. let (t, h) = ends ! i in
        (if fills ! i < a_cap (arcs ! i) then [(t, h, a_rank (arcs ! i))] else []) @
        (if 0 < fills ! i then [(h, t, a_rank (arcs ! i))] else [])) zero)"

definition plain_zero_graph_new :: "arc list \<Rightarrow> u64 list \<Rightarrow> usize list \<Rightarrow> (u16 \<times> u16) list \<Rightarrow> usize \<Rightarrow> zero_graph" where
  "plain_zero_graph_new arcs fills zero ends nodes = plain_graph_of_edges (plain_zero_edges arcs fills zero ends) nodes"

fun plain_fifo_check :: "arc list \<Rightarrow> u64 list \<Rightarrow> (u16 \<times> u16) list \<Rightarrow> zero_graph \<Rightarrow> u16 list \<Rightarrow> cuts \<Rightarrow> usize list \<Rightarrow> search \<Rightarrow>
    verify_error + u64" where
  "plain_fifo_check arcs fills ends g scc cs [] sr = Inr (s_work sr)"
| "plain_fifo_check arcs fills ends g scc cs (i # is) sr =
     (if fills ! i < a_cap (arcs ! i)
      then let src = snd (ends ! i); dst = fst (ends ! i) in
        if scc ! src \<noteq> scc ! dst \<or> \<not> plain_passable cs src dst (a_rank (arcs ! i))
        then plain_fifo_check arcs fills ends g scc cs is sr
        else (case plain_reaches sr g src dst (Some (a_rank (arcs ! i))) of
            None \<Rightarrow> Inl Work
          | Some (sr, True) \<Rightarrow> Inl (Fifo i)
          | Some (sr, False) \<Rightarrow> plain_fifo_check arcs fills ends g scc cs is sr)
      else plain_fifo_check arcs fills ends g scc cs is sr)"

definition bad_shape :: "u16 \<Rightarrow> arc \<Rightarrow> u64 \<Rightarrow> bool" where
  "bad_shape grid a m \<longleftrightarrow> a_hi a \<le> a_lo a \<or> grid < a_hi a \<or> a_cap a < m"

text \<open>The quantity rule: the search from the taker's head to its tail, if its lots are not all filled.\<close>

definition plain_quantity_check :: "arc list \<Rightarrow> arc option \<Rightarrow> u64 \<Rightarrow> (u16 \<times> u16) list \<Rightarrow> i64 list \<Rightarrow> nodes \<Rightarrow> zero_graph \<Rightarrow> search \<Rightarrow>
    (verify_error + search) option" where
  "plain_quantity_check all_arcs t_arc taker_fill ends potentials ns g sr =
     (case t_arc of
        None \<Rightarrow> Some (Inr sr)
      | Some t \<Rightarrow>
          if taker_fill < a_cap t then do {
            r \<leftarrow> plain_reduced all_arcs ends potentials (length all_arcs - 1);
            Some (if r = 0
              then (case plain_reaches sr g (plain_node_of ns (head t)) (plain_node_of ns (tail t)) None of
                  None \<Rightarrow> Inl Work
                | Some (sr, True) \<Rightarrow> Inl Quantity
                | Some (sr, False) \<Rightarrow> Inr sr)
              else Inr sr) }
          else Some (Inr sr))"

definition plain_verify :: "arc list \<Rightarrow> taker option \<Rightarrow> u64 list \<Rightarrow> u64 \<Rightarrow> i64 list \<Rightarrow> u16 \<Rightarrow> u64 \<Rightarrow>
    (verify_error + u64) option" where
  "plain_verify arcs taker fills taker_fill potentials grid work_limit =
     (if length fills \<noteq> length arcs then Some (Inl Potentials)
      else case find (\<lambda>i. bad_shape grid (arcs ! i) (fills ! i)) [0..<length arcs] of
        Some i \<Rightarrow> Some (Inl (Capacity i))
      | None \<Rightarrow>
        let t_arc = map_option taker_arc taker in
        if (case t_arc of Some t \<Rightarrow> bad_shape grid t taker_fill | None \<Rightarrow> taker_fill \<noteq> 0)
        then Some (Inl (Capacity (length arcs)))
        else let ns = nodes_new arcs taker grid; n = length (n_positions ns) in
        if length potentials \<noteq> n then Some (Inl Potentials)
        else let all_arcs = arcs @ (case t_arc of None \<Rightarrow> [] | Some t \<Rightarrow> [t]);
                 all_fills = fills @ [taker_fill];
                 ends = map (\<lambda>a. (cast 16 (plain_node_of ns (tail a)), cast 16 (plain_node_of ns (head a)))) all_arcs;
                 net = plain_balance ends all_fills n in
        case find (\<lambda>v. net ! v \<noteq> 0) [0..<n] of
          Some v \<Rightarrow> Some (Inl (Unbalanced v))
        | None \<Rightarrow> do {
            checked \<leftarrow> plain_price_check all_arcs all_fills ends potentials (length arcs) [0..<length ends] [];
            (case checked of
               Inl e \<Rightarrow> Some (Inl e)
             | Inr zero \<Rightarrow>
                 let g = plain_zero_graph_new arcs fills zero ends n; sr = search_new n work_limit in do {
                 q \<leftarrow> plain_quantity_check all_arcs t_arc taker_fill ends potentials ns g sr;
                 (case q of
                    Inl e \<Rightarrow> Some (Inl e)
                  | Inr sr \<Rightarrow> do {
                      scc \<leftarrow> plain_components g;
                      Some (plain_fifo_check arcs fills ends g scc (plain_cuts_new g) zero sr) }) }) })"

subsection \<open>Circulations and potentials\<close>

text \<open>
  Arcs \<open>0 ..< N\<close> with tails \<open>t\<close> and heads \<open>h\<close>. A flow \<open>d\<close> with nothing left over at any position pairs to
  zero with every potential, so with every cut.
\<close>

definition surplus :: "nat \<Rightarrow> (nat \<Rightarrow> nat) \<Rightarrow> (nat \<Rightarrow> nat) \<Rightarrow> (nat \<Rightarrow> int) \<Rightarrow> nat \<Rightarrow> int" where
  "surplus N t h d p = (\<Sum>i<N. (if h i = p then d i else 0) - (if t i = p then d i else 0))"

lemma circulation_potential:
  assumes "\<forall>p. surplus N t h d p = 0"
  shows "(\<Sum>i<N. d i * (pot (h i) - pot (t i))) = 0"
proof -
  define P where "P = h ` {..<N} \<union> t ` {..<N}"
  have fin: "finite P" by (simp add: P_def)
  have "(\<Sum>i<N. d i * (pot (h i) - pot (t i))) = (\<Sum>i<N. \<Sum>p\<in>P. pot p * ((if h i = p then d i else 0) - (if t i = p then d i else 0)))"
  proof (rule sum.cong [OF refl])
    fix i
    assume "i \<in> {..<N}"
    then have mem: "h i \<in> P" "t i \<in> P" by (auto simp: P_def)
    have "(\<Sum>p\<in>P. pot p * ((if h i = p then d i else 0) - (if t i = p then d i else 0))) =
        (\<Sum>p\<in>P. if h i = p then pot p * d i else 0) - (\<Sum>p\<in>P. if t i = p then pot p * d i else 0)"
      by (subst sum_subtractf [symmetric], rule sum.cong) (auto simp: right_diff_distrib)
    also have "\<dots> = pot (h i) * d i - pot (t i) * d i" using mem fin by (simp add: sum.delta')
    finally show "d i * (pot (h i) - pot (t i)) =
        (\<Sum>p\<in>P. pot p * ((if h i = p then d i else 0) - (if t i = p then d i else 0)))"
      by (simp add: algebra_simps)
  qed
  also have "\<dots> = (\<Sum>p\<in>P. pot p * surplus N t h d p)"
    by (subst sum.swap) (simp add: surplus_def sum_distrib_left)
  finally show ?thesis using assms by simp
qed

lemma cut_argument:
  assumes "\<forall>p. surplus N t h d p = 0" "i < N" "0 < d i" "h i \<in> S" "t i \<notin> S"
    and "\<And>j. j < N \<Longrightarrow> j \<noteq> i \<Longrightarrow> 0 < d j \<Longrightarrow> t j \<in> S \<Longrightarrow> h j \<in> S"
    and "\<And>j. j < N \<Longrightarrow> j \<noteq> i \<Longrightarrow> d j < 0 \<Longrightarrow> h j \<in> S \<Longrightarrow> t j \<in> S"
  shows False
proof -
  let ?w = "\<lambda>j. d j * ((if h j \<in> S then 1 else 0) - (if t j \<in> S then 1 else 0))"
  have zero: "(\<Sum>j<N. ?w j) = 0"
    using circulation_potential [OF assms(1), of "\<lambda>p. if p \<in> S then 1 else 0"] by simp
  have nonneg: "0 \<le> ?w j" if "j \<in> {..<N}" for j
  proof (cases "j = i")
    case True
    with assms(3-5) show ?thesis by simp
  next
    case False
    have j: "j < N" using that by simp
    show ?thesis
      using assms(6) [OF j False] assms(7) [OF j False]
      by (cases "0 < d j"; cases "d j < 0"; cases "h j \<in> S"; cases "t j \<in> S") simp_all
  qed
  have "0 < ?w i" using assms(3-5) by simp
  moreover have "?w i \<le> (\<Sum>j<N. ?w j)" using assms(2) nonneg by (intro member_le_sum) auto
  ultimately show False using zero by simp
qed

lemma slackness_optimal:
  fixes x y cap :: "nat \<Rightarrow> nat" and c pot :: "nat \<Rightarrow> int"
  assumes "\<forall>p. surplus N t h (\<lambda>i. int (x i)) p = 0" "\<forall>p. surplus N t h (\<lambda>i. int (y i)) p = 0"
    "\<forall>i<N. y i \<le> cap i"
    "\<forall>i<N. (x i < cap i \<longrightarrow> 0 \<le> c i + pot (t i) - pot (h i)) \<and> (0 < x i \<longrightarrow> c i + pot (t i) - pot (h i) \<le> 0)"
  shows "(\<Sum>i<N. c i * int (x i)) \<le> (\<Sum>i<N. c i * int (y i))"
    and "(\<Sum>i<N. c i * int (x i)) = (\<Sum>i<N. c i * int (y i)) \<Longrightarrow> i < N \<Longrightarrow> x i \<noteq> y i \<Longrightarrow> c i + pot (t i) - pot (h i) = 0"
proof -
  let ?r = "\<lambda>i. c i + pot (t i) - pot (h i)"
  have "(\<Sum>i<N. z i * (pot (h i) - pot (t i))) = 0" if "\<forall>p. surplus N t h z p = 0" for z
    using circulation_potential [OF that] .
  from this [OF assms(1)] this [OF assms(2)]
  have c: "(\<Sum>i<N. c i * int (y i)) - (\<Sum>i<N. c i * int (x i)) = (\<Sum>i<N. ?r i * (int (y i) - int (x i)))"
    by (simp add: algebra_simps sum.distrib sum_subtractf)
  have nonneg: "0 \<le> ?r i * (int (y i) - int (x i))" if "i \<in> {..<N}" for i
  proof -
    have b: "y i \<le> cap i" "x i < cap i \<longrightarrow> 0 \<le> ?r i" "0 < x i \<longrightarrow> ?r i \<le> 0" using assms(3,4) that by auto
    consider "y i = x i" | "x i < y i" | "y i < x i" by linarith
    then show ?thesis
    proof cases
      case 2
      with b have "0 \<le> ?r i" by linarith
      with 2 show ?thesis by (intro mult_nonneg_nonneg) auto
    next
      case 3
      with b have "?r i \<le> 0" by linarith
      with 3 show ?thesis by (intro mult_nonpos_nonpos) auto
    qed simp
  qed
  then have "0 \<le> (\<Sum>i<N. ?r i * (int (y i) - int (x i)))" by (rule sum_nonneg)
  with c show "(\<Sum>i<N. c i * int (x i)) \<le> (\<Sum>i<N. c i * int (y i))" by simp
  show "?r i = 0" if "(\<Sum>i<N. c i * int (x i)) = (\<Sum>i<N. c i * int (y i))" "i < N" "x i \<noteq> y i"
  proof -
    have "(\<Sum>i<N. ?r i * (int (y i) - int (x i))) = 0" using c that(1) by simp
    then have "?r i * (int (y i) - int (x i)) = 0"
      using sum_nonneg_eq_0_iff [of "{..<N}" "\<lambda>i. ?r i * (int (y i) - int (x i))"] nonneg that(2) by auto
    then show ?thesis using that(3) by auto
  qed
qed

subsection \<open>The canonical nodes\<close>

definition endpoints :: "arc list \<Rightarrow> nat set" where
  "endpoints arcs = a_lo ` set arcs \<union> a_hi ` set arcs"

definition book :: "arc list \<Rightarrow> taker option \<Rightarrow> arc list" where
  "book arcs taker = arcs @ (case taker of None \<Rightarrow> [] | Some t \<Rightarrow> [taker_arc t])"

definition marks :: "nat \<Rightarrow> nat set \<Rightarrow> nat list" where
  "marks grid E = map (\<lambda>p. if p \<in> E then 0 else U16_MAX) [0..<grid + 1]"

lemma mark_marks: "mark p (marks grid E) = marks grid (insert p E)"
proof (rule nth_equalityI)
  show "length (mark p (marks grid E)) = length (marks grid (insert p E))" by (simp add: mark_def marks_def)
  fix i
  assume "i < length (mark p (marks grid E))"
  then have "i < grid + 1" by (simp add: mark_def marks_def del: upt_Suc split: if_splits)
  then show "mark p (marks grid E) ! i = marks grid (insert p E) ! i"
    by (auto simp: mark_def marks_def nth_list_update simp del: upt_Suc)
qed

lemma mark_arcs: "fold (\<lambda>a index. mark (a_hi a) (mark (a_lo a) index)) arcs (marks grid E) = marks grid (E \<union> endpoints arcs)"
proof (induction arcs arbitrary: E)
  case (Cons a arcs)
  have "insert (a_hi a) (insert (a_lo a) E) \<union> endpoints arcs = E \<union> endpoints (a # arcs)"
    by (auto simp: endpoints_def)
  with Cons show ?case by (simp add: mark_marks)
qed (simp add: endpoints_def)

lemma endpoints_book: "endpoints (book arcs taker) =
    endpoints arcs \<union> (case taker of None \<Rightarrow> {} | Some t \<Rightarrow> {tk_lo t, tk_hi t})"
  by (auto simp: endpoints_def book_def taker_arc_def split: option.splits)

definition below_count :: "nat set \<Rightarrow> nat \<Rightarrow> nat" where
  "below_count E p = length (filter (\<lambda>q. q \<in> E) [0..<p])"

lemma number_slots:
  assumes "m \<le> grid + 1" "grid < U16_MAX"
  shows "fold number_slot [0..<m] ([], marks grid E) =
    (filter (\<lambda>q. q \<in> E) [0..<m],
     map (\<lambda>p. if p < m \<and> p \<in> E then below_count E p else if p \<in> E then 0 else U16_MAX) [0..<grid + 1])"
  using assms(1)
proof (induction m)
  case 0
  then show ?case by (simp add: marks_def)
next
  case (Suc m)
  let ?ix = "map (\<lambda>p. if p < m \<and> p \<in> E then below_count E p else if p \<in> E then 0 else U16_MAX) [0..<grid + 1]"
  have m: "m < grid + 1" using Suc.prems by simp
  have "below_count E m \<le> m" unfolding below_count_def using length_filter_le [of _ "[0..<m]"] by simp
  then have c: "cast 16 (below_count E m) = below_count E m" using m assms(2) by (intro cast_id) simp
  have at: "?ix ! m = (if m \<in> E then 0 else U16_MAX)" using m by (simp del: upt_Suc)
  have "fold number_slot [0..<Suc m] ([], marks grid E) = number_slot m (filter (\<lambda>q. q \<in> E) [0..<m], ?ix)"
    using Suc by simp
  also have "\<dots> = (if m \<in> E then (filter (\<lambda>q. q \<in> E) [0..<m] @ [m], ?ix[m := below_count E m])
      else (filter (\<lambda>q. q \<in> E) [0..<m], ?ix))"
    unfolding number_slot_def using at c by (simp add: below_count_def del: upt_Suc)
  also have "\<dots> = (filter (\<lambda>q. q \<in> E) [0..<Suc m],
     map (\<lambda>p. if p < Suc m \<and> p \<in> E then below_count E p else if p \<in> E then 0 else U16_MAX) [0..<grid + 1])"
  proof (cases "m \<in> E")
    case True
    then have "?ix[m := below_count E m] = map (\<lambda>p. if p < Suc m \<and> p \<in> E then below_count E p else if p \<in> E then 0 else U16_MAX) [0..<grid + 1]"
      using m by (intro nth_equalityI) (auto simp: nth_list_update less_Suc_eq simp del: upt_Suc)
    with True show ?thesis by simp
  next
    case False
    then have "?ix = map (\<lambda>p. if p < Suc m \<and> p \<in> E then below_count E p else if p \<in> E then 0 else U16_MAX) [0..<grid + 1]"
      by (intro map_cong) (auto simp: less_Suc_eq)
    with False show ?thesis by (simp del: map_eq_conv)
  qed
  finally show ?case .
qed

lemma below_count_mono: "p \<in> E \<Longrightarrow> p < q \<Longrightarrow> below_count E p < below_count E q"
proof -
  assume "p \<in> E" "p < q"
  then have "[0..<q] = [0..<p] @ p # [Suc p..<q]" by (metis less_imp_add_positive upt_add_eq_append upt_conv_Cons zero_le)
  with \<open>p \<in> E\<close> show ?thesis by (simp add: below_count_def)
qed

lemma nodes_new_eq:
  fixes arcs taker grid
  assumes "grid < U16_MAX"
  defines "E \<equiv> endpoints (book arcs taker)"
  shows "n_positions (nodes_new arcs taker grid) = filter (\<lambda>q. q \<in> E) [0..<grid + 1]"
    "p \<le> grid \<Longrightarrow> p \<in> E \<Longrightarrow> plain_node_of (nodes_new arcs taker grid) p = below_count E p"
proof -
  have "replicate (grid + 1) U16_MAX = marks grid {}" by (simp add: marks_def map_replicate_const del: upt_Suc)
  then have "(let index = fold (\<lambda>a index. mark (a_hi a) (mark (a_lo a) index)) arcs (replicate (grid + 1) U16_MAX)
      in case taker of None \<Rightarrow> index | Some t \<Rightarrow> mark (tk_hi t) (mark (tk_lo t) index)) = marks grid E"
    unfolding E_def endpoints_book by (auto simp: mark_arcs mark_marks Let_def split: option.splits intro: arg_cong [of _ _ "marks grid"])
  then have N: "nodes_new arcs taker grid = (let (positions, index) = fold number_slot [0..<grid + 1] ([], marks grid E)
      in \<lparr>n_positions = positions, n_index = index\<rparr>)"
    by (simp only: nodes_new_def Let_def)
  show "n_positions (nodes_new arcs taker grid) = filter (\<lambda>q. q \<in> E) [0..<grid + 1]"
    unfolding N number_slots [OF order_refl assms(1)] by simp
  show "plain_node_of (nodes_new arcs taker grid) p = below_count E p" if "p \<le> grid" "p \<in> E"
    unfolding N number_slots [OF order_refl assms(1)] using that by (simp add: plain_node_of_def del: upt_Suc)
qed

lemma node_facts:
  fixes arcs taker grid
  assumes "grid < U16_MAX" "endpoints (book arcs taker) \<subseteq> {..grid}"
  defines "E \<equiv> endpoints (book arcs taker)" and "ns \<equiv> nodes_new arcs taker grid"
  shows "p \<in> E \<Longrightarrow> plain_node_of ns p < length (n_positions ns)"
    "p \<in> E \<Longrightarrow> q \<in> E \<Longrightarrow> plain_node_of ns p = plain_node_of ns q \<longleftrightarrow> p = q"
    "p \<in> E \<Longrightarrow> cast 16 (plain_node_of ns p) = plain_node_of ns p"
    "length (n_positions ns) \<le> NONE"
proof -
  have node: "plain_node_of ns p = below_count E p" if "p \<in> E" for p
    unfolding ns_def using nodes_new_eq(2) [OF assms(1), of p arcs taker] that assms(2) by (auto simp: E_def)
  have pos: "length (n_positions ns) = below_count E (grid + 1)"
    unfolding ns_def nodes_new_eq(1) [OF assms(1)] E_def below_count_def ..
  have lt: "plain_node_of ns p < length (n_positions ns)" if "p \<in> E" for p
    unfolding node [OF that] pos using that assms(2) by (intro below_count_mono) (auto simp: E_def)
  then show "plain_node_of ns p < length (n_positions ns)" if "p \<in> E" using that .
  have "below_count E (grid + 1) \<le> grid + 1"
    unfolding below_count_def using length_filter_le [of "\<lambda>q. q \<in> E" "[0..<grid + 1]"] by (simp del: upt_Suc)
  then show len: "length (n_positions ns) \<le> NONE" using pos assms(1) by (simp add: NONE_def)
  show "cast 16 (plain_node_of ns p) = plain_node_of ns p" if "p \<in> E"
    using lt [OF that] len by (intro cast_id) (simp add: NONE_def)
  show "plain_node_of ns p = plain_node_of ns q \<longleftrightarrow> p = q" if "p \<in> E" "q \<in> E"
    using that node below_count_mono [of p E q] below_count_mono [of q E p] by (cases p q rule: linorder_cases) auto
qed

subsection \<open>Balance and prices of an accepted package\<close>

text \<open>The signed cost of an arc per lot: shorts receive, longs pay.\<close>

definition arc_cost :: "arc \<Rightarrow> int" where
  "arc_cost a = (case a_side a of Long \<Rightarrow> - int (a_price a) | Short \<Rightarrow> int (a_price a))"

lemma cost_arc_cost: "a_price a < 2 ^ 63 \<Longrightarrow> cost a = Some (arc_cost a)"
  by (auto simp: cost_def arc_cost_def as_signed_small checked_int_def in_int_def split: side.split)

lemma zip_snoc: "length xs < length ys \<Longrightarrow> zip (xs @ [x]) ys = zip xs ys @ [(x, ys ! length xs)]"
  by (induction xs ys rule: list_induct2') auto

lemma balance_nth:
  assumes "length ends \<le> length fs" "\<forall>(t, h)\<in>set ends. t < n \<and> h < n" "v < n"
  shows "plain_balance ends fs n ! v = surplus (length ends) (\<lambda>i. fst (ends ! i)) (\<lambda>i. snd (ends ! i)) (\<lambda>i. int (fs ! i)) v"
    and "length (plain_balance ends fs n) = n"
proof -
  have "length (plain_balance ends fs n) = n \<and> plain_balance ends fs n ! v =
      surplus (length ends) (\<lambda>i. fst (ends ! i)) (\<lambda>i. snd (ends ! i)) (\<lambda>i. int (fs ! i)) v"
    using assms
  proof (induction ends arbitrary: fs rule: rev_induct)
    case Nil
    then show ?case by (simp add: plain_balance_def surplus_def)
  next
    case (snoc e ends)
    obtain t h where e: "e = (t, h)" by (cases e)
    have th: "t < n" "h < n" using snoc.prems(2) by (auto simp: e)
    define m where "m = fs ! length ends"
    have lt: "length ends < length fs" using snoc.prems(1) by simp
    have z: "zip (ends @ [e]) fs = zip ends fs @ [(e, m)]" using zip_snoc [OF lt] by (simp add: m_def)
    define b where "b = plain_balance ends fs n"
    have IH: "length b = n" "b ! v = surplus (length ends) (\<lambda>i. fst (ends ! i)) (\<lambda>i. snd (ends ! i)) (\<lambda>i. int (fs ! i)) v"
      using snoc by (auto simp: b_def)
    have "plain_balance (ends @ [e]) fs n = (b[t := b ! t - int m])[h := b[t := b ! t - int m] ! h + int m]"
      unfolding plain_balance_def z b_def by (simp add: e Let_def)
    moreover have "surplus (length (ends @ [e])) (\<lambda>i. fst ((ends @ [e]) ! i)) (\<lambda>i. snd ((ends @ [e]) ! i)) (\<lambda>i. int (fs ! i)) v =
        surplus (length ends) (\<lambda>i. fst (ends ! i)) (\<lambda>i. snd (ends ! i)) (\<lambda>i. int (fs ! i)) v
        + ((if h = v then int m else 0) - (if t = v then int m else 0))"
    proof -
      have "(\<Sum>i<length ends. (if snd ((ends @ [e]) ! i) = v then int (fs ! i) else 0) - (if fst ((ends @ [e]) ! i) = v then int (fs ! i) else 0))
          = (\<Sum>i<length ends. (if snd (ends ! i) = v then int (fs ! i) else 0) - (if fst (ends ! i) = v then int (fs ! i) else 0))"
        by (rule sum.cong) (auto simp: nth_append)
      then show ?thesis by (simp add: surplus_def e m_def)
    qed
    ultimately show ?case
      using IH th snoc.prems(3) by (auto simp: nth_list_update)
  qed
  then show "plain_balance ends fs n ! v = surplus (length ends) (\<lambda>i. fst (ends ! i)) (\<lambda>i. snd (ends ! i)) (\<lambda>i. int (fs ! i)) v"
    "length (plain_balance ends fs n) = n" by auto
qed

lemma price_check_Inr:
  assumes "plain_price_check all fs ends pots n is zero0 = Some (Inr zero)"
  shows "(\<forall>i\<in>set is. \<exists>r. plain_reduced all ends pots i = Some r
      \<and> (fs ! i < a_cap (all ! i) \<longrightarrow> 0 \<le> r) \<and> (0 < fs ! i \<longrightarrow> r \<le> 0))
    \<and> set zero = set zero0 \<union> {i \<in> set is. i < n \<and> plain_reduced all ends pots i = Some 0}"
  using assms
proof (induction "is" arbitrary: zero0)
  case (Cons i "is")
  then obtain r where r: "plain_reduced all ends pots i = Some r"
    "\<not> ((fs ! i < a_cap (all ! i) \<and> r < 0) \<or> (0 < fs ! i \<and> 0 < r))"
    "plain_price_check all fs ends pots n is (if r = 0 \<and> i < n then zero0 @ [i] else zero0) = Some (Inr zero)"
    by (auto simp: checked_simps split: if_splits)
  from Cons.IH [OF r(3)] r(1,2) show ?case by (auto split: if_splits)
qed simp

lemma fifo_check_Inr:
  assumes "csr_graph g n es" "plain_components g = Some scc" "search_ok n sr"
    "\<forall>i\<in>set zero. fst (ends ! i) < n \<and> snd (ends ! i) < n"
    "\<forall>i\<in>set zero. fills ! i < a_cap (arcs ! i) \<longrightarrow> (fst (ends ! i), snd (ends ! i), a_rank (arcs ! i)) \<in> set es"
    "plain_fifo_check arcs fills ends g scc (plain_cuts_new g) zero sr = Inr w"
  shows "\<forall>i\<in>set zero. fills ! i < a_cap (arcs ! i) \<longrightarrow>
    (snd (ends ! i), fst (ends ! i)) \<notin> (step_rel es (Some (a_rank (arcs ! i))))\<^sup>*"
  using assms(3-6)
proof (induction zero arbitrary: sr)
  case (Cons i zero)
  let ?src = "snd (ends ! i)" and ?dst = "fst (ends ! i)" and ?q = "a_rank (arcs ! i)"
  have b: "?src < n" "?dst < n" using Cons.prems(2) by auto
  have "(?src, ?dst) \<notin> (step_rel es (Some ?q))\<^sup>* \<and> (\<exists>sr'. search_ok n sr' \<and>
      plain_fifo_check arcs fills ends g scc (plain_cuts_new g) zero sr' = Inr w)" if lt: "fills ! i < a_cap (arcs ! i)"
  proof (cases "scc ! ?src \<noteq> scc ! ?dst \<or> \<not> plain_passable (plain_cuts_new g) ?src ?dst ?q")
    case True
    have "(?src, ?dst) \<notin> (step_rel es (Some ?q))\<^sup>*"
    proof
      assume path: "(?src, ?dst) \<in> (step_rel es (Some ?q))\<^sup>*"
      have "scc ! ?dst \<le> scc ! ?src" by (rule csr_graph.components_path [OF assms(1,2) path])
      moreover have "scc ! ?src \<le> scc ! ?dst"
        using Cons.prems(3) lt by (intro csr_graph.components_mono [OF assms(1,2)]) auto
      moreover have "plain_passable (plain_cuts_new g) ?src ?dst ?q"
        by (rule csr_graph.reachable_passable [OF assms(1) path b])
      ultimately show False using True by simp
    qed
    with True lt Cons.prems(1,4) show ?thesis by (auto simp: Let_def)
  next
    case False
    with lt Cons.prems(4) obtain sr' where r: "plain_reaches sr g ?src ?dst (Some ?q) = Some (sr', False)"
      "plain_fifo_check arcs fills ends g scc (plain_cuts_new g) zero sr' = Inr w"
      by (auto simp: Let_def split: option.splits prod.splits bool.splits)
    from csr_graph.reaches_correct [OF assms(1) r(1) Cons.prems(1) b] r(2) show ?thesis by auto
  qed
  moreover have "plain_fifo_check arcs fills ends g scc (plain_cuts_new g) zero sr = Inr w" if "\<not> fills ! i < a_cap (arcs ! i)"
    using that Cons.prems(4) by simp
  ultimately show ?case
    using Cons.IH Cons.prems(1-3) by (cases "fills ! i < a_cap (arcs ! i)") auto
qed simp

subsection \<open>What an accepted package satisfies\<close>

definition balanced :: "arc list \<Rightarrow> nat list \<Rightarrow> bool" where
  "balanced all x \<longleftrightarrow> (\<forall>p. surplus (length all) (\<lambda>i. tail (all ! i)) (\<lambda>i. head (all ! i)) (\<lambda>i. int (x ! i)) p = 0)"

definition package :: "u64 list \<Rightarrow> taker option \<Rightarrow> u64 \<Rightarrow> u64 list" where
  "package fills taker taker_fill = fills @ (case taker of None \<Rightarrow> [] | Some _ \<Rightarrow> [taker_fill])"

definition feasible :: "arc list \<Rightarrow> nat list \<Rightarrow> bool" where
  "feasible all x \<longleftrightarrow> length x = length all \<and> (\<forall>i<length all. x ! i \<le> a_cap (all ! i)) \<and> balanced all x"

definition package_cost :: "arc list \<Rightarrow> nat list \<Rightarrow> int" where
  "package_cost all x = (\<Sum>i<length all. arc_cost (all ! i) * int (x ! i))"

definition residual :: "arc list \<Rightarrow> nat \<Rightarrow> nat list \<Rightarrow> (nat \<Rightarrow> nat) \<Rightarrow> (nat \<Rightarrow> int) \<Rightarrow> nat option \<Rightarrow> (nat \<times> nat) set" where
  "residual all m x nd r newer = {(u, v). \<exists>i<m. r i = 0 \<and> newer_edge newer (a_rank (all ! i)) \<and>
     ((x ! i < a_cap (all ! i) \<and> u = nd (tail (all ! i)) \<and> v = nd (head (all ! i)))
      \<or> (0 < x ! i \<and> u = nd (head (all ! i)) \<and> v = nd (tail (all ! i))))}"

lemma ends_in_endpoints: "a \<in> set all \<Longrightarrow> tail a \<in> endpoints all \<and> head a \<in> endpoints all"
  by (auto simp: tail_def head_def endpoints_def split: side.splits)

lemma zero_edges_iff:
  "(u, v, q) \<in> set (plain_zero_edges arcs fills zero ends) \<longleftrightarrow> (\<exists>i\<in>set zero. q = a_rank (arcs ! i) \<and>
     ((fills ! i < a_cap (arcs ! i) \<and> (u, v) = ends ! i) \<or> (0 < fills ! i \<and> (v, u) = ends ! i)))"
  by (auto simp: plain_zero_edges_def split: prod.splits)

lemma surplus_nodes:
  assumes "inj_on nd E" "\<And>i. i < N \<Longrightarrow> t i \<in> E \<and> h i \<in> E" "p \<in> E"
  shows "surplus N (\<lambda>i. nd (t i)) (\<lambda>i. nd (h i)) d (nd p) = surplus N t h d p"
  unfolding surplus_def using assms
  by (intro sum.cong) (auto dest: inj_onD)

lemma surplus_outside: "(\<And>i. i < N \<Longrightarrow> t i \<noteq> p \<and> h i \<noteq> p) \<Longrightarrow> surplus N t h d p = 0"
  by (simp add: surplus_def)

lemma plain_verify_steps:
  fixes arcs taker grid
  assumes "plain_verify arcs taker fills tf pots grid lim = Some (Inr w)"
  defines "ns \<equiv> nodes_new arcs taker grid" and "all \<equiv> book arcs taker"
  defines "n \<equiv> length (n_positions ns)"
    and "ends \<equiv> map (\<lambda>a. (cast 16 (plain_node_of ns (tail a)), cast 16 (plain_node_of ns (head a)))) all"
  obtains zero sr scc where "length fills = length arcs"
    "find (\<lambda>i. bad_shape grid (arcs ! i) (fills ! i)) [0..<length arcs] = None"
    "case taker of None \<Rightarrow> tf = 0 | Some t \<Rightarrow> \<not> bad_shape grid (taker_arc t) tf"
    "length pots = n" "find (\<lambda>v. plain_balance ends (fills @ [tf]) n ! v \<noteq> 0) [0..<n] = None"
    "plain_price_check all (fills @ [tf]) ends pots (length arcs) [0..<length ends] [] = Some (Inr zero)"
    "plain_quantity_check all (map_option taker_arc taker) tf ends pots ns (plain_zero_graph_new arcs fills zero ends n)
       (search_new n lim) = Some (Inr sr)"
    "plain_components (plain_zero_graph_new arcs fills zero ends n) = Some scc"
    "plain_fifo_check arcs fills ends (plain_zero_graph_new arcs fills zero ends n) scc (plain_cuts_new (plain_zero_graph_new arcs fills zero ends n)) zero sr = Inr w"
proof -
  have all: "all = arcs @ (case map_option taker_arc taker of None \<Rightarrow> [] | Some t \<Rightarrow> [t])"
    by (simp add: all_def book_def split: option.splits)
  have s1: "length fills = length arcs" using assms(1) by (auto simp: plain_verify_def split: if_splits)
  have s2: "find (\<lambda>i. bad_shape grid (arcs ! i) (fills ! i)) [0..<length arcs] = None"
    using assms(1) s1 by (auto simp: plain_verify_def split: option.splits)
  have s3: "case taker of None \<Rightarrow> tf = 0 | Some t \<Rightarrow> \<not> bad_shape grid (taker_arc t) tf"
    using assms(1) s1 s2 by (auto simp: plain_verify_def Let_def split: option.splits if_splits)
  then have t3: "\<not> (case map_option taker_arc taker of Some t \<Rightarrow> bad_shape grid t tf | None \<Rightarrow> tf \<noteq> 0)"
    by (auto split: option.splits)
  note acc = assms(1) [unfolded plain_verify_def s2 option.case Let_def if_not_P [OF t3], folded ns_def,
      folded n_def all, folded ends_def]
  have s4: "length pots = n" using acc s1 by (auto split: if_splits)
  have s5: "find (\<lambda>v. plain_balance ends (fills @ [tf]) n ! v \<noteq> 0) [0..<n] = None"
    using acc s1 s4 by (auto split: option.splits)
  from acc s1 s4 obtain chk where chk: "plain_price_check all (fills @ [tf]) ends pots (length arcs) [0..<length ends] [] = Some chk"
    "(case chk of
               Inl e \<Rightarrow> Some (Inl e)
             | Inr zero \<Rightarrow> do {
                 q \<leftarrow> plain_quantity_check all (map_option taker_arc taker) tf ends pots ns (plain_zero_graph_new arcs fills zero ends n) (search_new n lim);
                 (case q of
                    Inl e \<Rightarrow> Some (Inl e)
                  | Inr sr \<Rightarrow> do {
                      scc \<leftarrow> plain_components (plain_zero_graph_new arcs fills zero ends n);
                      Some (plain_fifo_check arcs fills ends (plain_zero_graph_new arcs fills zero ends n) scc
                        (plain_cuts_new (plain_zero_graph_new arcs fills zero ends n)) zero sr) }) }) = Some (Inr w)"
    unfolding s5 by (auto simp: option_bind_eq_Some)
  then obtain zero where z: "chk = Inr zero" by (cases chk) auto
  with chk(2) obtain q where q: "plain_quantity_check all (map_option taker_arc taker) tf ends pots ns (plain_zero_graph_new arcs fills zero ends n) (search_new n lim) = Some q"
    "(case q of Inl e \<Rightarrow> Some (Inl e) | Inr sr \<Rightarrow> do {
                      scc \<leftarrow> plain_components (plain_zero_graph_new arcs fills zero ends n);
                      Some (plain_fifo_check arcs fills ends (plain_zero_graph_new arcs fills zero ends n) scc
                        (plain_cuts_new (plain_zero_graph_new arcs fills zero ends n)) zero sr) }) = Some (Inr w)"
    by (auto simp: option_bind_eq_Some)
  then obtain sr where sr: "q = Inr sr" by (cases q) auto
  with q(2) obtain scc where scc: "plain_components (plain_zero_graph_new arcs fills zero ends n) = Some scc"
    "plain_fifo_check arcs fills ends (plain_zero_graph_new arcs fills zero ends n) scc
       (plain_cuts_new (plain_zero_graph_new arcs fills zero ends n)) zero sr = Inr w"
    by (auto simp: option_bind_eq_Some)
  show ?thesis using that s1 s2 s3 s4 s5 chk(1) z q(1) sr scc by blast
qed

text \<open>The numbering of the endpoints, and that an accepted package is feasible, whatever its prices.\<close>

lemma plain_verify_nodes:
  assumes acc: "plain_verify arcs taker fills tf pots grid lim = Some (Inr w)" and grid: "grid < U16_MAX"
  defines "all \<equiv> book arcs taker" and "x \<equiv> package fills taker tf" and "m \<equiv> length arcs"
    and "ns \<equiv> nodes_new arcs taker grid"
  defines "n \<equiv> length (n_positions ns)" and "nd \<equiv> plain_node_of ns"
    and "ends \<equiv> map (\<lambda>a. (cast 16 (plain_node_of ns (tail a)), cast 16 (plain_node_of ns (head a)))) all"
  shows "inj_on nd (endpoints all)" "feasible all x" "length x = length all" "length ends = length all"
    "m \<le> length all" "length all \<le> m + 1"
    "\<And>i. i < length all \<Longrightarrow> ends ! i = (nd (tail (all ! i)), nd (head (all ! i)))"
    "\<And>i. i < length all \<Longrightarrow> nd (tail (all ! i)) < n \<and> nd (head (all ! i)) < n"
    "\<And>i. i < length all \<Longrightarrow> x ! i = (fills @ [tf]) ! i \<and> (i < m \<longrightarrow> x ! i = fills ! i \<and> all ! i = arcs ! i)"
proof -
  obtain zero sr scc where V: "length fills = m"
    "find (\<lambda>i. bad_shape grid (arcs ! i) (fills ! i)) [0..<m] = None"
    "case taker of None \<Rightarrow> tf = 0 | Some t \<Rightarrow> \<not> bad_shape grid (taker_arc t) tf"
    "length pots = n" "find (\<lambda>v. plain_balance ends (fills @ [tf]) n ! v \<noteq> 0) [0..<n] = None"
    "plain_price_check all (fills @ [tf]) ends pots m [0..<length ends] [] = Some (Inr zero)"
    "plain_quantity_check all (map_option taker_arc taker) tf ends pots ns (plain_zero_graph_new arcs fills zero ends n)
       (search_new n lim) = Some (Inr sr)"
    "plain_components (plain_zero_graph_new arcs fills zero ends n) = Some scc"
    "plain_fifo_check arcs fills ends (plain_zero_graph_new arcs fills zero ends n) scc (plain_cuts_new (plain_zero_graph_new arcs fills zero ends n)) zero sr = Inr w"
    using plain_verify_steps [OF acc] unfolding m_def ends_def n_def ns_def all_def by blast
  have lens: "length x = length all" "length ends = length all" "m \<le> length all" "length all \<le> m + 1"
    using V(1) by (auto simp: x_def package_def all_def book_def m_def ends_def split: option.splits)
  have xi: "x ! i = (fills @ [tf]) ! i" "i < m \<Longrightarrow> x ! i = fills ! i \<and> all ! i = arcs ! i" if "i < length all" for i
    using that V(1) by (auto simp: x_def package_def all_def book_def m_def nth_append split: option.splits)
  have shape: "\<not> bad_shape grid (all ! i) (x ! i)" if "i < length all" for i
  proof (cases "i < m")
    case True
    then show ?thesis using V(2) xi(2) [OF that] by (auto simp: find_None_iff)
  next
    case False
    with that obtain t where "taker = Some t" by (auto simp: all_def book_def m_def split: option.splits)
    moreover have "i = m" using False that lens(4) by simp
    ultimately show ?thesis using V(1,3) by (simp add: x_def package_def all_def book_def m_def nth_append)
  qed
  have E: "endpoints all \<subseteq> {..grid}"
  proof -
    have "a_lo a \<le> grid \<and> a_hi a \<le> grid" if a: "a \<in> set all" for a
    proof -
      obtain i where "i < length all" "all ! i = a" using a by (auto simp: in_set_conv_nth)
      with shape [of i] show ?thesis unfolding bad_shape_def by auto
    qed
    then show ?thesis by (auto simp: endpoints_def)
  qed
  note N = node_facts [OF grid E [unfolded all_def], folded all_def ns_def, folded n_def, folded nd_def]
  have inj: "inj_on nd (endpoints all)" using N(2) by (auto intro: inj_onI)
  have ep: "tail (all ! i) \<in> endpoints all" "head (all ! i) \<in> endpoints all" if "i < length all" for i
    using ends_in_endpoints [of "all ! i" all] that by auto
  have ends: "ends ! i = (nd (tail (all ! i)), nd (head (all ! i)))" if "i < length all" for i
    using that N(3) [OF ep(1) [OF that]] N(3) [OF ep(2) [OF that]] by (simp add: ends_def nd_def)
  have below: "nd (tail (all ! i)) < n" "nd (head (all ! i)) < n" if "i < length all" for i
    using N(1) ep that by auto
  have bal: "balanced all x"
    unfolding balanced_def
  proof
    fix p
    let ?t = "\<lambda>i. tail (all ! i)" and ?h = "\<lambda>i. head (all ! i)" and ?d = "\<lambda>i. int (x ! i)"
    show "surplus (length all) ?t ?h ?d p = 0"
    proof (cases "p \<in> endpoints all")
      case True
      have "\<forall>(t, h)\<in>set ends. t < n \<and> h < n" using ends below lens(2) by (auto simp: in_set_conv_nth)
      then have "plain_balance ends (fills @ [tf]) n ! nd p =
          surplus (length ends) (\<lambda>i. fst (ends ! i)) (\<lambda>i. snd (ends ! i)) (\<lambda>i. int ((fills @ [tf]) ! i)) (nd p)"
        using lens V(1) N(1) [OF True] by (intro balance_nth(1)) auto
      also have "\<dots> = surplus (length all) (\<lambda>i. nd (?t i)) (\<lambda>i. nd (?h i)) ?d (nd p)"
        unfolding surplus_def lens(2) using ends xi(1) by (intro sum.cong) auto
      also have "\<dots> = surplus (length all) ?t ?h ?d p"
        using ep True by (intro surplus_nodes [OF inj]) auto
      finally show ?thesis using V(5) N(1) [OF True] by (auto simp: find_None_iff)
    next
      case False
      then show ?thesis using ep by (intro surplus_outside) auto
    qed
  qed
  show "inj_on nd (endpoints all)" "feasible all x"
    using inj bal lens(1) shape by (auto simp: feasible_def bad_shape_def not_less)
  show "length x = length all" "length ends = length all" "m \<le> length all" "length all \<le> m + 1" by (fact lens)+
  fix i assume i: "i < length all"
  show "ends ! i = (nd (tail (all ! i)), nd (head (all ! i)))" by (rule ends [OF i])
  show "nd (tail (all ! i)) < n \<and> nd (head (all ! i)) < n" using below [OF i] by blast
  show "x ! i = (fills @ [tf]) ! i \<and> (i < m \<longrightarrow> x ! i = fills ! i \<and> all ! i = arcs ! i)" using xi [OF i] by blast
qed

text \<open>
  What acceptance establishes, over positions: a numbering \<open>nd\<close> of the endpoints, potentials, and the
  reduced costs \<open>r\<close>; the package is feasible, satisfies complementary slackness, and neither the taker
  (short of its lots) nor any resting arc with lots left has a residual path back from its head to its
  tail (through newer arcs only, for a resting arc).
\<close>

lemma plain_verify_accepted:
  assumes acc: "plain_verify arcs taker fills tf pots grid lim = Some (Inr w)" and grid: "grid < U16_MAX"
    and prices: "\<forall>a\<in>set (book arcs taker). a_price a < 2 ^ 63"
  defines "all \<equiv> book arcs taker" and "x \<equiv> package fills taker tf" and "m \<equiv> length arcs"
  obtains nd :: "nat \<Rightarrow> nat" and pot r :: "nat \<Rightarrow> int" where
    "inj_on nd (endpoints all)" "feasible all x"
    "\<And>i. r i = arc_cost (all ! i) + pot (tail (all ! i)) - pot (head (all ! i))"
    "\<And>i. i < length all \<Longrightarrow> (x ! i < a_cap (all ! i) \<longrightarrow> 0 \<le> r i) \<and> (0 < x ! i \<longrightarrow> r i \<le> 0)"
    "m < length all \<Longrightarrow> x ! m < a_cap (all ! m) \<Longrightarrow> r m = 0 \<Longrightarrow>
       (nd (head (all ! m)), nd (tail (all ! m))) \<notin> (residual all m x nd r None)\<^sup>*"
    "\<And>i. i < m \<Longrightarrow> x ! i < a_cap (all ! i) \<Longrightarrow> r i = 0 \<Longrightarrow>
       (nd (head (all ! i)), nd (tail (all ! i))) \<notin> (residual all m x nd r (Some (a_rank (all ! i))))\<^sup>*"
proof -
  define ns n where "ns = nodes_new arcs taker grid" and "n = length (n_positions ns)"
  define ends where "ends = map (\<lambda>a. (cast 16 (plain_node_of ns (tail a)), cast 16 (plain_node_of ns (head a)))) all"
  define nd where "nd = plain_node_of ns"
  obtain zero sr scc where V: "length fills = m"
    "find (\<lambda>i. bad_shape grid (arcs ! i) (fills ! i)) [0..<m] = None"
    "case taker of None \<Rightarrow> tf = 0 | Some t \<Rightarrow> \<not> bad_shape grid (taker_arc t) tf"
    "length pots = n" "find (\<lambda>v. plain_balance ends (fills @ [tf]) n ! v \<noteq> 0) [0..<n] = None"
    "plain_price_check all (fills @ [tf]) ends pots m [0..<length ends] [] = Some (Inr zero)"
    "plain_quantity_check all (map_option taker_arc taker) tf ends pots ns (plain_zero_graph_new arcs fills zero ends n)
       (search_new n lim) = Some (Inr sr)"
    "plain_components (plain_zero_graph_new arcs fills zero ends n) = Some scc"
    "plain_fifo_check arcs fills ends (plain_zero_graph_new arcs fills zero ends n) scc (plain_cuts_new (plain_zero_graph_new arcs fills zero ends n)) zero sr = Inr w"
    using plain_verify_steps [OF acc] unfolding m_def ends_def n_def ns_def all_def by blast
  note N = plain_verify_nodes [OF acc grid, folded all_def x_def m_def ns_def, folded n_def ends_def, folded nd_def]
  note inj = N(1) and feas = N(2) and lens = N(3-6) and ends = N(7)
  have xi: "x ! i = (fills @ [tf]) ! i" "i < m \<Longrightarrow> x ! i = fills ! i \<and> all ! i = arcs ! i" if "i < length all" for i
    using N(9) [OF that] by blast+
  have below: "nd (tail (all ! i)) < n" "nd (head (all ! i)) < n" if "i < length all" for i
    using N(8) [OF that] by blast+
  define pot r where "pot = (\<lambda>p. pots ! nd p)" and "r = (\<lambda>i. arc_cost (all ! i) + pot (tail (all ! i)) - pot (head (all ! i)))"
  have red: "plain_reduced all ends pots i = Some (r i)" if "i < length all" for i
    using cost_arc_cost [of "all ! i"] prices that ends by (simp add: plain_reduced_def r_def pot_def all_def)
  note P = price_check_Inr [OF V(6)]
  have slack: "(x ! i < a_cap (all ! i) \<longrightarrow> 0 \<le> r i) \<and> (0 < x ! i \<longrightarrow> r i \<le> 0)" if "i < length all" for i
    using bspec [OF conjunct1 [OF P], of i] that red [OF that] xi(1) [OF that] lens(2) by auto
  have zero: "set zero = {i. i < m \<and> r i = 0}"
    using P red lens(2,3) by auto
  define es where "es = plain_zero_edges arcs fills zero ends"
  have arcs: "arcs ! i = all ! i" "fills ! i = x ! i" "i < length all" if "i < m" for i
    using that lens(3) xi(2) [of i] by auto
  have es: "(u, v, q) \<in> set es \<longleftrightarrow> (\<exists>i<m. r i = 0 \<and> q = a_rank (all ! i) \<and>
      ((x ! i < a_cap (all ! i) \<and> u = nd (tail (all ! i)) \<and> v = nd (head (all ! i)))
       \<or> (0 < x ! i \<and> u = nd (head (all ! i)) \<and> v = nd (tail (all ! i)))))" for u v q
    unfolding es_def zero_edges_iff zero using arcs ends by fastforce
  have step: "step_rel es newer = residual all m x nd r newer" for newer
    unfolding step_rel_def residual_def es by blast
  have "in_range n es" unfolding in_range_def using es arcs(3) below by fastforce
  then have csr: "csr_graph (plain_zero_graph_new arcs fills zero ends n) n es"
    unfolding plain_zero_graph_new_def es_def by (rule graph_of_edges_csr)
  have so: "search_ok n (search_new n lim)" by (simp add: search_ok_def search_new_def)
  have quantity: "search_ok n sr \<and> (m < length all \<longrightarrow> x ! m < a_cap (all ! m) \<longrightarrow> r m = 0 \<longrightarrow>
      (nd (head (all ! m)), nd (tail (all ! m))) \<notin> (residual all m x nd r None)\<^sup>*)"
  proof (cases taker)
    case None
    then show ?thesis using V(7) so by (simp add: plain_quantity_check_def all_def book_def m_def)
  next
    case (Some t)
    then have t: "length all = m + 1" "all ! m = taker_arc t" "x ! m = tf"
      using V(1) by (auto simp: all_def book_def m_def x_def package_def nth_append)
    show ?thesis
    proof (cases "tf < a_cap (taker_arc t) \<and> r m = 0")
      case True
      then have "plain_reaches (search_new n lim) (plain_zero_graph_new arcs fills zero ends n) (nd (head (taker_arc t))) (nd (tail (taker_arc t))) None
          = Some (sr, False)"
        using V(7) Some t red [of m]
        by (auto simp: plain_quantity_check_def nd_def split: option.splits prod.splits bool.splits)
      from csr_graph.reaches_correct [OF csr this so] below [of m] t show ?thesis by (auto simp: step)
    next
      case False
      then have "sr = search_new n lim"
        using V(7) Some t red [of m] by (auto simp: plain_quantity_check_def split: if_splits)
      with so False t show ?thesis by auto
    qed
  qed
  have fifo: "(nd (head (all ! i)), nd (tail (all ! i))) \<notin> (residual all m x nd r (Some (a_rank (all ! i))))\<^sup>*"
    if "i < m" "x ! i < a_cap (all ! i)" "r i = 0" for i
  proof -
    have "\<forall>i\<in>set zero. fills ! i < a_cap (arcs ! i) \<longrightarrow>
        (snd (ends ! i), fst (ends ! i)) \<notin> (step_rel es (Some (a_rank (arcs ! i))))\<^sup>*"
    proof (rule fifo_check_Inr [OF csr V(8) _ _ _ V(9)])
      show "search_ok n sr" using quantity by blast
      show "\<forall>i\<in>set zero. fst (ends ! i) < n \<and> snd (ends ! i) < n"
        using zero arcs(3) ends below by auto
      show "\<forall>i\<in>set zero. fills ! i < a_cap (arcs ! i) \<longrightarrow> (fst (ends ! i), snd (ends ! i), a_rank (arcs ! i)) \<in> set es"
        using zero arcs ends by (auto simp: es)
    qed
    with zero that arcs [OF that(1)] ends show ?thesis by (auto simp: step)
  qed
  show ?thesis
    by (rule that [of nd r pot]) (use inj feas slack quantity fifo in \<open>auto simp: r_def\<close>)
qed


subsection \<open>The accepted package is the canonical one\<close>

text \<open>
  The certificate of an accepted package, over grid positions: \<open>nd\<close> numbers the endpoints and \<open>pot\<close> prices
  them. The lemmas below draw from it what the three matching rules promise.
\<close>

definition reduced_cost :: "arc list \<Rightarrow> (nat \<Rightarrow> int) \<Rightarrow> nat \<Rightarrow> int" where
  "reduced_cost all pot i = arc_cost (all ! i) + pot (tail (all ! i)) - pot (head (all ! i))"

definition certified :: "arc list \<Rightarrow> nat \<Rightarrow> nat list \<Rightarrow> (nat \<Rightarrow> nat) \<Rightarrow> (nat \<Rightarrow> int) \<Rightarrow> bool" where
  "certified all m x nd pot \<longleftrightarrow> inj_on nd (endpoints all) \<and> feasible all x \<and> length all \<le> m + 1 \<and>
     (\<forall>i<length all. (x ! i < a_cap (all ! i) \<longrightarrow> 0 \<le> reduced_cost all pot i)
        \<and> (0 < x ! i \<longrightarrow> reduced_cost all pot i \<le> 0)) \<and>
     (m < length all \<longrightarrow> x ! m < a_cap (all ! m) \<longrightarrow> reduced_cost all pot m = 0 \<longrightarrow>
        (nd (head (all ! m)), nd (tail (all ! m))) \<notin> (residual all m x nd (reduced_cost all pot) None)\<^sup>*) \<and>
     (\<forall>i<length all. i < m \<longrightarrow> x ! i < a_cap (all ! i) \<longrightarrow> reduced_cost all pot i = 0 \<longrightarrow>
        (nd (head (all ! i)), nd (tail (all ! i))) \<notin>
          (residual all m x nd (reduced_cost all pot) (Some (a_rank (all ! i))))\<^sup>*)"

lemma plain_verify_certified:
  assumes "plain_verify arcs taker fills tf pots grid lim = Some (Inr w)" "grid < U16_MAX"
    "\<forall>a\<in>set (book arcs taker). a_price a < 2 ^ 63"
  obtains nd pot where "certified (book arcs taker) (length arcs) (package fills taker tf) nd pot"
proof (rule plain_verify_accepted [OF assms])
  fix nd pot r
  assume C: "inj_on nd (endpoints (book arcs taker))" "feasible (book arcs taker) (package fills taker tf)"
    "\<And>i. r i = arc_cost (book arcs taker ! i) + pot (tail (book arcs taker ! i)) - pot (head (book arcs taker ! i))"
    "\<And>i. i < length (book arcs taker) \<Longrightarrow> (package fills taker tf ! i < a_cap (book arcs taker ! i) \<longrightarrow> 0 \<le> r i)
        \<and> (0 < package fills taker tf ! i \<longrightarrow> r i \<le> 0)"
    "length arcs < length (book arcs taker) \<Longrightarrow>
       package fills taker tf ! length arcs < a_cap (book arcs taker ! length arcs) \<Longrightarrow> r (length arcs) = 0 \<Longrightarrow>
       (nd (head (book arcs taker ! length arcs)), nd (tail (book arcs taker ! length arcs))) \<notin>
         (residual (book arcs taker) (length arcs) (package fills taker tf) nd r None)\<^sup>*"
    "\<And>i. i < length arcs \<Longrightarrow> package fills taker tf ! i < a_cap (book arcs taker ! i) \<Longrightarrow> r i = 0 \<Longrightarrow>
       (nd (head (book arcs taker ! i)), nd (tail (book arcs taker ! i))) \<notin>
         (residual (book arcs taker) (length arcs) (package fills taker tf) nd r (Some (a_rank (book arcs taker ! i))))\<^sup>*"
  have r: "r = reduced_cost (book arcs taker) pot" by (rule ext) (simp add: C(3) reduced_cost_def)
  have "length (book arcs taker) \<le> length arcs + 1" by (simp add: book_def split: option.splits)
  with C(1,2,4-6) show ?thesis by (intro that [of nd pot]) (simp add: certified_def flip: r)
qed

text \<open>The difference of two feasible packages is a circulation.\<close>

lemma surplus_diff: "surplus N t h (\<lambda>i. d i - e i) p = surplus N t h d p - surplus N t h e p"
  unfolding surplus_def sum_subtractf [symmetric] by (intro sum.cong) auto

lemma certified_cheapest:
  assumes "certified all m x nd pot" "feasible all y"
  shows "package_cost all x \<le> package_cost all y"
    and "package_cost all x = package_cost all y \<Longrightarrow> i < length all \<Longrightarrow> x ! i \<noteq> y ! i \<Longrightarrow> reduced_cost all pot i = 0"
proof -
  let ?h = "\<lambda>i. head (all ! i)" and ?t = "\<lambda>i. tail (all ! i)"
  have "\<forall>p. surplus (length all) ?t ?h (\<lambda>i. int (x ! i)) p = 0" "\<forall>p. surplus (length all) ?t ?h (\<lambda>i. int (y ! i)) p = 0"
    "\<forall>i<length all. y ! i \<le> a_cap (all ! i)"
    "\<forall>i<length all. (x ! i < a_cap (all ! i) \<longrightarrow> 0 \<le> arc_cost (all ! i) + pot (?t i) - pot (?h i))
      \<and> (0 < x ! i \<longrightarrow> arc_cost (all ! i) + pot (?t i) - pot (?h i) \<le> 0)"
    using assms by (auto simp: certified_def feasible_def balanced_def reduced_cost_def)
  note opt = slackness_optimal [OF this]
  show "package_cost all x \<le> package_cost all y" unfolding package_cost_def by (rule opt(1))
  show "reduced_cost all pot i = 0" if "package_cost all x = package_cost all y" "i < length all" "x ! i \<noteq> y ! i"
    using that unfolding package_cost_def reduced_cost_def by (rule opt(2))
qed

text \<open>
  An exchange of equal cost that fills arc \<open>i\<close> more leads back from its head to its tail through the arcs it
  changes.
\<close>

lemma exchange_path:
  assumes C: "certified all m x nd pot" and y: "feasible all y" "package_cost all x = package_cost all y"
    and i: "i < length all" "x ! i < y ! i"
    and others: "\<And>j. j < length all \<Longrightarrow> j \<noteq> i \<Longrightarrow> x ! j \<noteq> y ! j \<Longrightarrow> j < m \<and> newer_edge newer (a_rank (all ! j))"
  shows "(nd (head (all ! i)), nd (tail (all ! i))) \<in> (residual all m x nd (reduced_cost all pot) newer)\<^sup>*"
proof (rule ccontr)
  assume no: "\<not> ?thesis"
  let ?R = "residual all m x nd (reduced_cost all pot) newer"
  define S where "S = {p. (nd (head (all ! i)), nd p) \<in> ?R\<^sup>*}"
  let ?d = "\<lambda>j. int (y ! j) - int (x ! j)"
  have edge: "(nd (tail (all ! j)), nd (head (all ! j))) \<in> ?R" if "j < length all" "j \<noteq> i" "x ! j < y ! j" for j
    using that others [of j] certified_cheapest(2) [OF C y, of j] y(1)
    by (fastforce simp: residual_def feasible_def)
  have rev_edge: "(nd (head (all ! j)), nd (tail (all ! j))) \<in> ?R" if "j < length all" "j \<noteq> i" "y ! j < x ! j" for j
    using that others [of j] certified_cheapest(2) [OF C y, of j]
    by (fastforce simp: residual_def)
  have bal: "\<forall>p. surplus (length all) (\<lambda>j. tail (all ! j)) (\<lambda>j. head (all ! j)) ?d p = 0"
    unfolding surplus_diff using C y(1) by (simp add: certified_def feasible_def balanced_def)
  show False
  proof (rule cut_argument [OF bal i(1), where S = S])
    show "0 < ?d i" using i(2) by simp
    show "head (all ! i) \<in> S" "tail (all ! i) \<notin> S" using no by (auto simp: S_def)
    show "head (all ! j) \<in> S" if "j < length all" "j \<noteq> i" "0 < ?d j" "tail (all ! j) \<in> S" for j
      using edge [of j] that unfolding S_def by (auto intro: rtrancl_into_rtrancl)
    show "tail (all ! j) \<in> S" if "j < length all" "j \<noteq> i" "?d j < 0" "head (all ! j) \<in> S" for j
      using rev_edge [of j] that unfolding S_def by (auto intro: rtrancl_into_rtrancl)
  qed
qed

lemma certified_quantity:
  assumes C: "certified all m x nd pot" and y: "feasible all y" "package_cost all x = package_cost all y"
    and m: "m < length all"
  shows "y ! m \<le> x ! m"
proof (rule ccontr)
  assume "\<not> ?thesis"
  then have less: "x ! m < y ! m" by simp
  have "(nd (head (all ! m)), nd (tail (all ! m))) \<in> (residual all m x nd (reduced_cost all pot) None)\<^sup>*"
    by (rule exchange_path [OF C y m less]) (use C in \<open>simp add: certified_def newer_edge_def\<close>)
  moreover have "x ! m < a_cap (all ! m)" using less y(1) m by (auto simp: feasible_def intro: less_le_trans)
  moreover have "reduced_cost all pot m = 0" using certified_cheapest(2) [OF C y m] less by simp
  ultimately show False using C m by (auto simp: certified_def)
qed

lemma certified_fifo:
  assumes C: "certified all m x nd pot" and y: "feasible all y" "package_cost all x = package_cost all y"
    and same: "m < length all \<Longrightarrow> y ! m = x ! m" and i: "i < length all" "x ! i \<noteq> y ! i"
    and oldest: "\<And>j. j < length all \<Longrightarrow> j \<noteq> i \<Longrightarrow> x ! j \<noteq> y ! j \<Longrightarrow> a_rank (all ! i) < a_rank (all ! j)"
  shows "y ! i < x ! i"
proof (rule ccontr)
  assume "\<not> ?thesis"
  with i have less: "x ! i < y ! i" by simp
  have resting: "j < m" if "j < length all" "x ! j \<noteq> y ! j" for j
  proof -
    have "length all \<le> m + 1" using C by (simp add: certified_def)
    with that same show ?thesis by (cases "j = m") auto
  qed
  have "(nd (head (all ! i)), nd (tail (all ! i))) \<in> (residual all m x nd (reduced_cost all pot) (Some (a_rank (all ! i))))\<^sup>*"
    by (rule exchange_path [OF C y i(1) less]) (use oldest resting in \<open>auto simp: newer_edge_def\<close>)
  moreover have "x ! i < a_cap (all ! i)" using less y(1) i(1) by (auto simp: feasible_def intro: less_le_trans)
  moreover have "reduced_cost all pot i = 0" using certified_cheapest(2) [OF C y i] .
  ultimately show False using C i(1) resting [OF i] by (auto simp: certified_def)
qed

text \<open>Two certified packages over one book with distinct ranks are the same.\<close>

lemma certified_unique:
  assumes x: "certified all m x nd pot" and y: "certified all m y nd' pot'"
    and ranks: "inj_on (\<lambda>i. a_rank (all ! i)) {..<length all}"
  shows "x = y"
proof (rule ccontr)
  assume "x \<noteq> y"
  have fx: "feasible all x" and fy: "feasible all y" using x y by (auto simp: certified_def)
  have cost: "package_cost all x = package_cost all y"
    using certified_cheapest(1) [OF x fy] certified_cheapest(1) [OF y fx] by simp
  have taker: "y ! m = x ! m" if "m < length all"
    using certified_quantity [OF x fy cost that] certified_quantity [OF y fx cost [symmetric] that] by simp
  define D where "D = {j. j < length all \<and> x ! j \<noteq> y ! j}"
  have "D \<noteq> {}" using fx fy \<open>x \<noteq> y\<close> by (auto simp: D_def feasible_def intro: nth_equalityI)
  then have "\<exists>i\<in>D. \<forall>j\<in>D. a_rank (all ! i) \<le> a_rank (all ! j)"
    using ex_is_arg_min_if_finite [of D "\<lambda>i. a_rank (all ! i)"] by (auto simp: D_def is_arg_min_linorder)
  then obtain i where i: "i < length all" "x ! i \<noteq> y ! i"
    and oldest: "\<And>j. j < length all \<Longrightarrow> x ! j \<noteq> y ! j \<Longrightarrow> a_rank (all ! i) \<le> a_rank (all ! j)"
    by (auto simp: D_def)
  have oldest': "a_rank (all ! i) < a_rank (all ! j)" if "j < length all" "j \<noteq> i" "x ! j \<noteq> y ! j" for j
    using oldest [OF that(1,3)] inj_onD [OF ranks, of i j] that i by (auto simp: le_less)
  have "y ! i < x ! i" by (rule certified_fifo [OF x fy cost taker i oldest'])
  moreover have "x ! i < y ! i"
    by (rule certified_fifo [OF y fx cost [symmetric] taker [symmetric] i(1) i(2) [symmetric]]) (use oldest' in auto)
  ultimately show False by simp
qed

text \<open>Lots filled on one side at the grid step between \<open>s\<close> and \<open>s + 1\<close>.\<close>

definition covered :: "side \<Rightarrow> nat \<Rightarrow> arc list \<Rightarrow> nat list \<Rightarrow> int" where
  "covered sd s all x = (\<Sum>i<length all. if a_side (all ! i) = sd \<and> a_lo (all ! i) \<le> s \<and> s < a_hi (all ! i) then int (x ! i) else 0)"

lemma balanced_covered:
  assumes "balanced all x" "\<forall>a\<in>set all. a_lo a < a_hi a"
  shows "covered Long s all x = covered Short s all x"
proof -
  define pot where "pot p = (if p \<le> s then 1 else 0 :: int)" for p
  have "(\<Sum>i<length all. int (x ! i) * (pot (head (all ! i)) - pot (tail (all ! i)))) = 0"
    using assms(1) unfolding balanced_def by (rule circulation_potential)
  moreover have "int (x ! i) * (pot (head (all ! i)) - pot (tail (all ! i))) =
      (if a_side (all ! i) = Short \<and> a_lo (all ! i) \<le> s \<and> s < a_hi (all ! i) then int (x ! i) else 0) -
      (if a_side (all ! i) = Long \<and> a_lo (all ! i) \<le> s \<and> s < a_hi (all ! i) then int (x ! i) else 0)"
    if "i < length all" for i
  proof -
    have "a_lo (all ! i) < a_hi (all ! i)" using assms(2) that by simp
    then show ?thesis by (cases "a_side (all ! i)") (auto simp: pot_def head_def tail_def)
  qed
  ultimately have "covered Short s all x - covered Long s all x = 0"
    unfolding covered_def sum_subtractf [symmetric] by simp
  then show ?thesis by simp
qed

lemma plain_verify_shapes:
  assumes "plain_verify arcs taker fills tf pots grid lim = Some (Inr w)"
  shows "length fills = length arcs" "\<forall>a\<in>set (book arcs taker). a_lo a < a_hi a \<and> a_hi a \<le> grid"
    "taker = None \<Longrightarrow> tf = 0"
proof -
  from plain_verify_steps [OF assms]
  have s: "length fills = length arcs" "find (\<lambda>i. bad_shape grid (arcs ! i) (fills ! i)) [0..<length arcs] = None"
    "case taker of None \<Rightarrow> tf = 0 | Some t \<Rightarrow> \<not> bad_shape grid (taker_arc t) tf" by blast+
  show "length fills = length arcs" "taker = None \<Longrightarrow> tf = 0" using s by auto
  show "\<forall>a\<in>set (book arcs taker). a_lo a < a_hi a \<and> a_hi a \<le> grid"
  proof
    fix a
    assume "a \<in> set (book arcs taker)"
    then consider i where "i < length arcs" "a = arcs ! i" | t where "taker = Some t" "a = taker_arc t"
      by (auto simp: book_def in_set_conv_nth split: option.splits)
    then show "a_lo a < a_hi a \<and> a_hi a \<le> grid"
      by cases (use s in \<open>auto simp: find_None_iff bad_shape_def\<close>)
  qed
qed

lemma feasible_none: "feasible all (replicate (length all) 0)"
proof -
  have "surplus (length all) t h (\<lambda>i. int (replicate (length all) 0 ! i)) p = 0" for t h p
    unfolding surplus_def by (rule sum.neutral) auto
  then show ?thesis by (simp add: feasible_def balanced_def)
qed

lemma package_cost_taker:
  assumes "length fills = length arcs"
  shows "package_cost (book arcs (Some t)) (package fills (Some t) tf) =
    (\<Sum>i<length arcs. arc_cost (arcs ! i) * int (fills ! i)) + arc_cost (taker_arc t) * int tf"
  using assms by (simp add: package_cost_def book_def package_def nth_append)

end
