(* ===== verification/Checked_Loops.thy ===== *)
theory Checked_Loops
  imports Rust_Base
begin

text \<open>
  Indexing and loops of the futures workspace that may abort: vectors read and written by index, and \<open>for\<close> loops
  whose body may abort, with the lemmas that turn such a loop into a plain fold or show that it ends.
\<close>

text \<open>Reading and writing a vector: an index outside it aborts (or, for \<open>get\<close>, reads nothing).\<close>

definition slot :: "'a list \<Rightarrow> nat \<Rightarrow> 'a option" where
  "slot xs i = (if i < length xs then Some (xs ! i) else None)"

definition set_slot :: "'a list \<Rightarrow> nat \<Rightarrow> 'a \<Rightarrow> 'a list option" where
  "set_slot xs i x = (if i < length xs then Some (xs[i := x]) else None)"

lemma slot_Some: "slot xs i = Some x \<longleftrightarrow> i < length xs \<and> x = xs ! i"
  by (auto simp: slot_def)

lemma set_slot_Some [checked_simps]: "set_slot xs i x = Some ys \<longleftrightarrow> i < length xs \<and> ys = xs[i := x]"
  by (auto simp: set_slot_def)

text \<open>A \<open>for\<close> loop whose body may abort. Where it ends, it is the loop over the bodies' results; it ends where an
  invariant keeps every body from aborting.\<close>

fun fold_checked :: "('a \<Rightarrow> 's \<Rightarrow> 's option) \<Rightarrow> 'a list \<Rightarrow> 's \<Rightarrow> 's option" where
  "fold_checked f [] s = Some s"
| "fold_checked f (x # xs) s = do { s \<leftarrow> f x s; fold_checked f xs s }"

lemma fold_checked_fold:
  assumes "fold_checked f xs s = Some t" "\<And>x s t. x \<in> set xs \<Longrightarrow> f x s = Some t \<Longrightarrow> g x s = t"
  shows "fold g xs s = t"
  using assms by (induction xs arbitrary: s) (auto simp: option_bind_eq_Some)

lemma fold_checked_total:
  assumes "P s" "\<And>x s. x \<in> set xs \<Longrightarrow> P s \<Longrightarrow> \<exists>t. f x s = Some t \<and> P t"
  shows "\<exists>t. fold_checked f xs s = Some t \<and> P t"
  using assms
proof (induction xs arbitrary: s)
  case (Cons x xs)
  obtain t where "f x s = Some t" "P t" using Cons.prems by (metis list.set_intros(1))
  with Cons.IH [of t] Cons.prems(2) show ?case by simp
qed simp

lemma fold_checked_append: "fold_checked f (xs @ ys) s = do { t \<leftarrow> fold_checked f xs s; fold_checked f ys t }"
  by (induction xs arbitrary: s) (auto split: Option.bind_split)

lemma fold_checked_prefix:
  assumes "\<And>pre x post. xs = pre @ x # post \<Longrightarrow> f x (fold g pre s) = Some (g x (fold g pre s))"
  shows "fold_checked f xs s = Some (fold g xs s)"
  using assms by (induction xs rule: rev_induct) (simp_all add: fold_checked_append)

lemma fold_checked_push:
  assumes "fold_checked f xs acc = Some r" "\<And>x acc t. x \<in> set xs \<Longrightarrow> f x acc = Some t \<Longrightarrow> t = acc @ g x"
  shows "r = acc @ concat (map g xs)"
  using assms by (induction xs arbitrary: acc) (fastforce simp: option_bind_eq_Some)+

end
