(* ===== verification/Zero_Checks.thy ===== *)
theory Zero_Checks
  imports Zero_Graph Checked_Loops
begin

text \<open>
  The graph of the verifier as \<open>crates/futures-math/src/verify.rs\<close> runs it: \<open>ZeroGraph\<close>, \<open>components\<close>, \<open>Cuts\<close> and
  \<open>Search\<close>, where an index outside a vector, a slice beyond its end and an overflow of a \<open>u16\<close>, \<open>u32\<close> or \<open>u64\<close>
  counter abort (\<open>None\<close>). Where a function returns, it returns the plain result of \<open>Zero_Graph\<close>; and on the graph of
  fewer than \<open>2 ^ 32\<close> edges between fewer than \<open>2 ^ 16\<close> nodes none aborts.
\<close>

subsection \<open>The compressed adjacency\<close>

definition count_edge :: "edge \<Rightarrow> u32 list \<Rightarrow> u32 list option" where
  "count_edge e start = do {
     c \<leftarrow> slot start (fst e + 1);
     c \<leftarrow> checked_add 32 c 1;
     set_slot start (fst e + 1) c }"

definition count_edges :: "edge list \<Rightarrow> usize \<Rightarrow> u32 list option" where
  "count_edges edges nodes = fold_checked count_edge edges (replicate (nodes + 1) 0)"

definition add_previous :: "usize \<Rightarrow> u32 list \<Rightarrow> u32 list option" where
  "add_previous i start = do {
     a \<leftarrow> slot start (i + 1);
     b \<leftarrow> slot start i;
     c \<leftarrow> checked_add 32 a b;
     set_slot start (i + 1) c }"

definition prefix_sums :: "usize \<Rightarrow> u32 list \<Rightarrow> u32 list option" where
  "prefix_sums nodes start = fold_checked add_previous [0..<nodes] start"

definition place_edge :: "edge \<Rightarrow> u32 list \<times> u16 list \<times> u128 list \<Rightarrow> (u32 list \<times> u16 list \<times> u128 list) option" where
  "place_edge e st = (case (e, st) of ((u, v, r), (fill, to, rank)) \<Rightarrow> do {
     at \<leftarrow> slot fill u;
     next \<leftarrow> checked_add 32 at 1;
     fill \<leftarrow> set_slot fill u next;
     to \<leftarrow> set_slot to at v;
     rank \<leftarrow> set_slot rank at r;
     Some (fill, to, rank) })"

definition graph_of_edges :: "edge list \<Rightarrow> usize \<Rightarrow> zero_graph option" where
  "graph_of_edges edges nodes = do {
     start \<leftarrow> count_edges edges nodes;
     start \<leftarrow> prefix_sums nodes start;
     st \<leftarrow> fold_checked place_edge edges (start, replicate (length edges) 0, replicate (length edges) 0);
     Some \<lparr>zg_start = start, zg_to = fst (snd st), zg_rank = snd (snd st)\<rparr> }"

lemma count_edge_plain: "count_edge e start = Some t \<Longrightarrow> start[fst e + 1 := start ! (fst e + 1) + 1] = t"
  by (auto simp: count_edge_def checked_simps slot_Some)

lemma add_previous_plain: "add_previous i start = Some t \<Longrightarrow> start[i + 1 := start ! (i + 1) + start ! i] = t"
  by (auto simp: add_previous_def checked_simps slot_Some)

lemma place_edge_plain: "place_edge e st = Some t \<Longrightarrow> plain_place_edge e st = t"
  by (auto simp: place_edge_def plain_place_edge_def checked_simps slot_Some Let_def split: prod.splits)

lemma graph_of_edges_plain:
  assumes "graph_of_edges edges nodes = Some g"
  shows "plain_graph_of_edges edges nodes = g"
proof -
  obtain s1 start st where s: "fold_checked count_edge edges (replicate (nodes + 1) 0) = Some s1"
    "fold_checked add_previous [0..<nodes] s1 = Some start"
    "fold_checked place_edge edges (start, replicate (length edges) 0, replicate (length edges) 0) = Some st"
    "g = \<lparr>zg_start = start, zg_to = fst (snd st), zg_rank = snd (snd st)\<rparr>"
    using assms by (auto simp: graph_of_edges_def count_edges_def prefix_sums_def option_bind_eq_Some)
  have "plain_count_edges edges nodes = s1"
    unfolding plain_count_edges_def by (rule fold_checked_fold [OF s(1)]) (auto dest: count_edge_plain)
  moreover have "plain_prefix_sums nodes s1 = start"
    unfolding plain_prefix_sums_def by (rule fold_checked_fold [OF s(2)], rule add_previous_plain)
  moreover have "fold plain_place_edge edges (start, replicate (length edges) 0, replicate (length edges) 0) = st"
    by (rule fold_checked_fold [OF s(3)], rule place_edge_plain)
  ultimately show ?thesis by (simp add: plain_graph_of_edges_def s(4) split: prod.splits)
qed

subsection \<open>Strongly connected components\<close>

fun pop_component :: "usize \<Rightarrow> u16 \<Rightarrow> u16 list \<Rightarrow> bool list \<Rightarrow> u16 list \<Rightarrow> (u16 list \<times> bool list \<times> u16 list) option" where
  "pop_component v c [] on cmp = Some ([], on, cmp)"
| "pop_component v c (w # stack) on cmp = do {
     on \<leftarrow> set_slot on w False;
     cmp \<leftarrow> set_slot cmp w c;
     if w = v then Some (stack, on, cmp) else pop_component v c stack on cmp }"

definition visit :: "zero_graph \<Rightarrow> u16 \<Rightarrow> tarjan \<Rightarrow> tarjan option" where
  "visit g w st = do {
     index \<leftarrow> set_slot (t_index st) w (t_next st);
     low \<leftarrow> set_slot (t_low st) w (t_next st);
     next \<leftarrow> checked_add 16 (t_next st) 1;
     on \<leftarrow> set_slot (t_on st) w True;
     start \<leftarrow> slot (zg_start g) w;
     Some (st\<lparr>t_index := index, t_low := low, t_next := next, t_stack := w # t_stack st, t_on := on,
       t_calls := (w, start) # t_calls st\<rparr>) }"

text \<open>One turn of the inner loop while the open call has edges left, and its return.\<close>

definition follow_edge :: "zero_graph \<Rightarrow> u16 \<Rightarrow> u32 \<Rightarrow> (u16 \<times> u32) list \<Rightarrow> tarjan \<Rightarrow> tarjan option" where
  "follow_edge g v at rest st = do {
     w \<leftarrow> slot (zg_to g) at;
     next \<leftarrow> checked_add 32 at 1;
     index \<leftarrow> slot (t_index st) w;
     on \<leftarrow> slot (t_on st) w;
     if index = NONE then visit g w (st\<lparr>t_calls := (v, next) # rest\<rparr>)
     else if on then do {
       low \<leftarrow> slot (t_low st) v;
       low \<leftarrow> set_slot (t_low st) v (min low index);
       Some (st\<lparr>t_calls := (v, next) # rest, t_low := low\<rparr>) }
     else Some (st\<lparr>t_calls := (v, next) # rest\<rparr>) }"

definition parent_low :: "u16 \<Rightarrow> (u16 \<times> u32) list \<Rightarrow> u16 list \<Rightarrow> u16 list option" where
  "parent_low v rest low = (case rest of
      [] \<Rightarrow> Some low
    | (p, _) # _ \<Rightarrow> do { a \<leftarrow> slot low p; b \<leftarrow> slot low v; set_slot low p (min a b) })"

definition return_call :: "u16 \<Rightarrow> (u16 \<times> u32) list \<Rightarrow> tarjan \<Rightarrow> tarjan option" where
  "return_call v rest st = do {
     low \<leftarrow> parent_low v rest (t_low st);
     l \<leftarrow> slot low v;
     i \<leftarrow> slot (t_index st) v;
     if l = i then do {
       popped \<leftarrow> pop_component v (t_comps st) (t_stack st) (t_on st) (t_comp st);
       comps \<leftarrow> checked_add 16 (t_comps st) 1;
       Some (st\<lparr>t_calls := rest, t_low := low, t_stack := fst popped, t_on := fst (snd popped),
         t_comp := snd (snd popped), t_comps := comps\<rparr>) }
     else Some (st\<lparr>t_calls := rest, t_low := low\<rparr>) }"

definition tarjan_step :: "zero_graph \<Rightarrow> u16 \<Rightarrow> u32 \<Rightarrow> (u16 \<times> u32) list \<Rightarrow> tarjan \<Rightarrow> tarjan option" where
  "tarjan_step g v at rest st = do {
     end \<leftarrow> slot (zg_start g) (v + 1);
     if at < end then follow_edge g v at rest st else return_call v rest st }"

lemma pop_component_plain:
  "pop_component v c stack on cmp = Some r \<Longrightarrow> plain_pop_component v c stack on cmp = r"
  by (induction v c stack on cmp rule: pop_component.induct) (auto simp: checked_simps split: if_splits)

lemma visit_plain: "visit g w st = Some st' \<Longrightarrow> plain_visit g w st = Some st'"
  by (auto simp: visit_def plain_visit_def checked_simps slot_Some)

lemma follow_edge_plain:
  "follow_edge g v at rest st = Some st' \<Longrightarrow> at < zg_start g ! (v + 1) \<Longrightarrow> plain_tarjan_step g v at rest st = Some st'"
  by (auto simp: follow_edge_def plain_tarjan_step_def checked_simps slot_Some Let_def dest!: visit_plain split: if_splits)

lemma parent_low_plain: "parent_low v rest low = Some low' \<Longrightarrow>
    low' = (case rest of [] \<Rightarrow> low | (p, _) # _ \<Rightarrow> low[p := min (low ! p) (low ! v)])"
  by (auto simp: parent_low_def checked_simps slot_Some split: list.splits)

lemma return_call_plain:
  assumes "return_call v rest st = Some st'" "\<not> at < zg_start g ! (v + 1)"
  shows "plain_tarjan_step g v at rest st = Some st'"
proof -
  define low where "low = (case rest of [] \<Rightarrow> t_low st | (p, _) # _ \<Rightarrow> (t_low st)[p := min (t_low st ! p) (t_low st ! v)])"
  have "parent_low v rest (t_low st) = Some low"
    using assms(1) parent_low_plain [of v rest "t_low st"] by (auto simp: return_call_def low_def option_bind_eq_Some)
  with assms show ?thesis
    by (auto simp: return_call_def plain_tarjan_step_def Let_def checked_simps slot_Some low_def [symmetric]
        dest!: pop_component_plain split: if_splits)
qed

lemma tarjan_step_plain: "tarjan_step g v at rest st = Some st' \<Longrightarrow> plain_tarjan_step g v at rest st = Some st'"
  by (auto simp: tarjan_step_def checked_simps slot_Some intro: follow_edge_plain return_call_plain split: if_splits)

function tarjan_loop :: "zero_graph \<Rightarrow> tarjan \<Rightarrow> tarjan option" where
  "tarjan_loop g st =
     (case t_calls st of
        [] \<Rightarrow> Some st
      | (v, at) # rest \<Rightarrow>
          (case tarjan_step g v at rest st of None \<Rightarrow> None | Some st' \<Rightarrow> tarjan_loop g st'))"
  by pat_completeness auto
termination
  by (relation "measures [\<lambda>(g, st). 65536 - t_next st, \<lambda>(g, st). calls_work g st]")
     (auto dest!: tarjan_step_plain dest: tarjan_step_decreases)

declare tarjan_loop.simps [simp del]

fun tarjan_roots :: "zero_graph \<Rightarrow> usize list \<Rightarrow> tarjan \<Rightarrow> tarjan option" where
  "tarjan_roots g [] st = Some st"
| "tarjan_roots g (root # roots) st = do {
     i \<leftarrow> slot (t_index st) root;
     if i \<noteq> NONE then tarjan_roots g roots st
     else do { st \<leftarrow> visit g root st; st \<leftarrow> tarjan_loop g st; tarjan_roots g roots st } }"

definition components :: "zero_graph \<Rightarrow> u16 list option" where
  "components g = do {
     n \<leftarrow> checked_sub (length (zg_start g)) 1;
     st \<leftarrow> tarjan_roots g [0..<n] \<lparr>t_index = replicate n NONE, t_low = replicate n 0, t_comp = replicate n NONE,
       t_on = replicate n False, t_stack = [], t_calls = [], t_next = 0, t_comps = 0\<rparr>;
     Some (t_comp st) }"

lemma tarjan_loop_plain: "tarjan_loop g st = Some st' \<Longrightarrow> plain_tarjan_loop g st = Some st'"
proof (induction g st rule: tarjan_loop.induct)
  case (1 g st)
  show ?case
  proof (cases "t_calls st")
    case Nil
    with 1(2) have "st' = st" by (subst (asm) tarjan_loop.simps) simp
    with Nil show ?thesis by (subst plain_tarjan_loop.simps) simp
  next
    case (Cons c rest)
    obtain v at where c: "c = (v, at)" by (cases c)
    obtain st1 where st1: "tarjan_step g v at rest st = Some st1" "tarjan_loop g st1 = Some st'"
      using 1(2) by (auto simp: tarjan_loop.simps [of g st] Cons c split: option.splits)
    from 1(1) [OF Cons c [symmetric] st1] tarjan_step_plain [OF st1(1)] show ?thesis
      by (simp add: plain_tarjan_loop.simps [of g st] Cons c)
  qed
qed

lemma tarjan_roots_plain: "tarjan_roots g roots st = Some st' \<Longrightarrow> plain_tarjan_roots g roots st = Some st'"
  by (induction roots arbitrary: st)
    (auto simp: checked_simps slot_Some dest!: visit_plain tarjan_loop_plain split: if_splits)

lemma components_plain: "components g = Some cmp \<Longrightarrow> plain_components g = Some cmp"
  by (auto simp: components_def plain_components_def checked_simps Let_def dest!: tarjan_roots_plain)

subsection \<open>Rank cuts\<close>

definition raise_range :: "u128 \<Rightarrow> usize \<Rightarrow> usize \<Rightarrow> u128 list \<Rightarrow> u128 list option" where
  "raise_range r lo hi xs = (if hi \<le> length xs then Some (fold (\<lambda>c xs. xs[c := max (xs ! c) r]) [lo..<hi] xs) else None)"

definition cut_edge :: "zero_graph \<Rightarrow> usize \<Rightarrow> usize \<Rightarrow> cuts \<Rightarrow> cuts option" where
  "cut_edge g u k cs = do {
     v \<leftarrow> slot (zg_to g) k;
     r \<leftarrow> slot (zg_rank g) k;
     if v < u then do { down \<leftarrow> raise_range r v u (c_down cs); Some (cs\<lparr>c_down := down\<rparr>) }
     else do { up \<leftarrow> raise_range r u v (c_up cs); Some (cs\<lparr>c_up := up\<rparr>) } }"

definition cut_node :: "zero_graph \<Rightarrow> usize \<Rightarrow> cuts \<Rightarrow> cuts option" where
  "cut_node g u cs = do {
     s \<leftarrow> slot (zg_start g) u;
     e \<leftarrow> slot (zg_start g) (u + 1);
     fold_checked (cut_edge g u) [s..<e] cs }"

definition cuts_new :: "zero_graph \<Rightarrow> cuts option" where
  "cuts_new g = do {
     n \<leftarrow> checked_sub (length (zg_start g)) 1;
     fold_checked (cut_node g) [0..<n] \<lparr>c_down = replicate (n - 1) 0, c_up = replicate (n - 1) 0\<rparr> }"

definition all_newer :: "u128 \<Rightarrow> usize \<Rightarrow> usize \<Rightarrow> u128 list \<Rightarrow> bool option" where
  "all_newer rank lo hi xs = (if hi \<le> length xs then Some (list_all (\<lambda>c. rank < xs ! c) [lo..<hi]) else None)"

definition passable :: "cuts \<Rightarrow> usize \<Rightarrow> usize \<Rightarrow> u128 \<Rightarrow> bool option" where
  "passable cs from to rank =
     (if to < from then all_newer rank to from (c_down cs) else all_newer rank from to (c_up cs))"

lemma cut_edge_plain: "cut_edge g u k cs = Some t \<Longrightarrow> plain_cut_edge g u k cs = t"
  by (auto simp: cut_edge_def plain_cut_edge_def raise_range_def plain_raise_range_def checked_simps slot_Some Let_def
      split: if_splits)

lemma cut_node_plain:
  "cut_node g u cs = Some t \<Longrightarrow> fold (plain_cut_edge g u) [zg_start g ! u..<zg_start g ! (u + 1)] cs = t"
  by (auto simp: cut_node_def checked_simps slot_Some intro: fold_checked_fold cut_edge_plain)

lemma cuts_new_plain:
  assumes "cuts_new g = Some cs"
  shows "plain_cuts_new g = cs"
proof -
  let ?n = "length (zg_start g) - 1"
  have "fold_checked (cut_node g) [0..<?n] \<lparr>c_down = replicate (?n - 1) 0, c_up = replicate (?n - 1) 0\<rparr> = Some cs"
    using assms by (auto simp: cuts_new_def checked_simps)
  then show ?thesis
    unfolding plain_cuts_new_def Let_def by (rule fold_checked_fold) (rule cut_node_plain)
qed

lemma passable_plain: "passable cs from to rank = Some b \<Longrightarrow> plain_passable cs from to rank = b"
  by (auto simp: passable_def plain_passable_def all_newer_def split: if_splits)

subsection \<open>Search\<close>

definition scan_edge :: "zero_graph \<Rightarrow> u128 option \<Rightarrow> u32 \<Rightarrow> usize \<Rightarrow> u32 list \<times> u16 list \<Rightarrow> (u32 list \<times> u16 list) option" where
  "scan_edge g newer_than stamp k st = do {
     older \<leftarrow> (case newer_than of None \<Rightarrow> Some False | Some r \<Rightarrow> do { q \<leftarrow> slot (zg_rank g) k; Some (q \<le> r) });
     if older then Some st
     else do {
       m \<leftarrow> slot (zg_to g) k;
       s \<leftarrow> slot (fst st) m;
       if s \<noteq> stamp then do { seen \<leftarrow> set_slot (fst st) m stamp; Some (seen, snd st @ [m]) } else Some st } }"

function search_loop :: "zero_graph \<Rightarrow> usize \<Rightarrow> u128 option \<Rightarrow> u32 list \<Rightarrow> u16 list \<Rightarrow> usize \<Rightarrow> search \<Rightarrow>
    (verify_error + search \<times> bool) option" where
  "search_loop g to newer_than seen queue hd_at sr =
     (if hd_at < length queue
      then let n = queue ! hd_at in
        if n = to then Some (Inr (sr\<lparr>s_seen := seen\<rparr>, True))
        else do {
          s \<leftarrow> slot (zg_start g) n;
          e \<leftarrow> slot (zg_start g) (n + 1);
          d \<leftarrow> checked_sub e s;
          d \<leftarrow> checked_add 64 d 1;
          work \<leftarrow> checked_add 64 (s_work sr) d;
          if work > s_limit sr then Some (Inl Work)
          else do {
            st \<leftarrow> fold_checked (scan_edge g newer_than (s_stamp sr)) [s..<e] (seen, queue);
            search_loop g to newer_than (fst st) (snd st) (hd_at + 1) (sr\<lparr>s_work := work\<rparr>) } }
      else Some (Inr (sr\<lparr>s_seen := seen\<rparr>, False)))"
  by pat_completeness auto
termination
  by (relation "measure (\<lambda>(g, to, newer, seen, queue, hd_at, sr). Suc (s_limit sr) - s_work sr)")
    (auto simp: checked_simps)

declare search_loop.simps [simp del]

definition reaches :: "search \<Rightarrow> zero_graph \<Rightarrow> usize \<Rightarrow> usize \<Rightarrow> u128 option \<Rightarrow> (verify_error + search \<times> bool) option" where
  "reaches sr g from to newer_than = do {
     stamp \<leftarrow> checked_add 32 (s_stamp sr) 1;
     seen \<leftarrow> set_slot (s_seen sr) from stamp;
     search_loop g to newer_than seen [cast 16 from] 0 (sr\<lparr>s_stamp := stamp\<rparr>) }"

text \<open>The error of the search is the plain search's \<open>None\<close>.\<close>

definition found :: "verify_error + 'a \<Rightarrow> 'a option" where
  "found r = (case r of Inl e \<Rightarrow> None | Inr x \<Rightarrow> Some x)"

lemma found_simps [simp]: "found (Inl e) = None" "found (Inr x) = Some x"
  by (simp_all add: found_def)

lemma scan_edge_plain: "scan_edge g newer stamp k st = Some t \<Longrightarrow> plain_scan_edge g newer stamp k st = t"
  by (auto simp: scan_edge_def plain_scan_edge_def checked_simps slot_Some Let_def split: option.splits if_splits prod.splits)

lemma search_loop_plain:
  "search_loop g to newer seen queue at sr = Some r \<Longrightarrow> plain_search_loop g to newer seen queue at sr = found r
    \<and> (\<forall>e. r = Inl e \<longrightarrow> e = Work)"
proof (induction g to newer seen queue at sr rule: search_loop.induct)
  case (1 g to newer seen queue at sr)
  show ?case
  proof (cases "at < length queue \<and> queue ! at \<noteq> to")
    case False
    with 1(2) show ?thesis
      by (auto simp: search_loop.simps [of g to newer seen] plain_search_loop.simps [of g to newer seen] Let_def)
  next
    case True
    let ?n = "queue ! at" and ?s = "zg_start g ! (queue ! at)" and ?e = "zg_start g ! (queue ! at + 1)"
    let ?w = "s_work sr + (?e - ?s) + 1"
    have ok: "slot (zg_start g) ?n = Some ?s" "slot (zg_start g) (?n + 1) = Some ?e" "checked_sub ?e ?s = Some (?e - ?s)"
      "checked_add 64 (?e - ?s) 1 = Some (?e - ?s + 1)" "checked_add 64 (s_work sr) (?e - ?s + 1) = Some ?w"
      using 1(2) True by (auto simp: search_loop.simps [of g to newer seen] Let_def option_bind_eq_Some slot_Some checked_simps)
    note unf = search_loop.simps [of g to newer seen] plain_search_loop.simps [of g to newer seen]
    show ?thesis
    proof (cases "?w > s_limit sr")
      case over: True
      with 1(2) True ok show ?thesis by (auto simp: unf Let_def)
    next
      case within: False
      obtain st where st: "fold_checked (scan_edge g newer (s_stamp sr)) [?s..<?e] (seen, queue) = Some st"
        "search_loop g to newer (fst st) (snd st) (at + 1) (sr\<lparr>s_work := ?w\<rparr>) = Some r"
        using 1(2) True ok within by (auto simp: unf(1) Let_def option_bind_eq_Some)
      have "fold (plain_scan_edge g newer (s_stamp sr)) [?s..<?e] (seen, queue) = st"
        by (rule fold_checked_fold [OF st(1)], rule scan_edge_plain)
      with 1(1) [OF _ refl _ ok within st(1) st(2)] True within show ?thesis
        by (cases st) (simp add: unf(2) Let_def)
    qed
  qed
qed

lemma reaches_plain:
  assumes "reaches sr g src to newer = Some r" "src < 2 ^ 16"
  shows "plain_reaches sr g src to newer = found r \<and> (\<forall>e. r = Inl e \<longrightarrow> e = Work)"
proof -
  have "cast 16 src = src" using assms(2) by (rule cast_id)
  with assms(1) show ?thesis
    by (auto simp: reaches_def plain_reaches_def checked_simps Let_def dest: search_loop_plain)
qed

subsection \<open>Nothing aborts on the graph of a book\<close>

text \<open>
  A compressed adjacency with room for its counters: the targets and ranks are as many as the edges, every offset
  lies within them, and nodes and edges stay below the widths of the code's counters.
\<close>

definition ready :: "nat \<Rightarrow> search \<Rightarrow> bool" where
  "ready n sr \<longleftrightarrow> length (s_seen sr) = n \<and> s_work sr \<le> s_limit sr \<and> s_limit sr < 2 ^ 63"

locale csr_room = csr_graph +
  assumes to_length: "length (zg_to g) = length es" and rank_length: "length (zg_rank g) = length es"
    and start_room: "u \<le> n \<Longrightarrow> zg_start g ! u \<le> length es"
    and nodes_room: "n \<le> NONE" and edges_room: "length es < 2 ^ 32"
begin

lemma visit_eq:
  assumes "stack_inv n st" "w < n"
  shows "visit g w st = plain_visit g w st"
  using assms by (auto simp: visit_def plain_visit_def stack_inv_def set_slot_def slot_def start_length split: Option.bind_split)

lemma follow_edge_eq:
  assumes "tarjan_inv g n {} st" "t_calls st = (v, at) # rest" "at < zg_start g ! (v + 1)"
  shows "follow_edge g v at rest st = plain_tarjan_step g v at rest st"
proof -
  have I: "stack_inv n st" "calls_inv g st" using assms(1) by (auto simp: tarjan_inv_def)
  have v: "v < n" using calls_head(1) [OF I(2) assms(2)] I(1) by (auto simp: stack_inv_def)
  have "zg_start g ! v \<le> at" using I(2) assms(2) by (auto simp: calls_inv_def)
  then have w: "zg_to g ! at < n" using position_target v assms(3) by auto
  have at: "at < length es" using start_room [of "v + 1"] v assms(3) by simp
  then have "checked_add 32 at 1 = Some (at + 1)" using edges_room by (simp add: checked_add_def checked_def)
  moreover have "visit g (zg_to g ! at) (st\<lparr>t_calls := (v, at + 1) # rest\<rparr>)
      = plain_visit g (zg_to g ! at) (st\<lparr>t_calls := (v, at + 1) # rest\<rparr>)"
    by (rule visit_eq) (use I(1) w in \<open>simp_all add: stack_inv_def\<close>)
  moreover have "length (t_index st) = n" "length (t_low st) = n" "length (t_on st) = n"
    using I(1) by (auto simp: stack_inv_def)
  ultimately show ?thesis
    using assms(3) v w at
    by (simp add: follow_edge_def plain_tarjan_step_def Let_def slot_def set_slot_def to_length)
qed

lemma pop_component_eq:
  "set stack \<subseteq> {..<length on} \<Longrightarrow> set stack \<subseteq> {..<length cmp} \<Longrightarrow>
   pop_component v c stack on cmp = Some (plain_pop_component v c stack on cmp)"
  by (induction v c stack on cmp rule: pop_component.induct) (auto simp: set_slot_def)

lemma return_call_eq:
  assumes "tarjan_inv g n {} st" "t_calls st = (v, at) # rest" "\<not> at < zg_start g ! (v + 1)"
  shows "return_call v rest st = plain_tarjan_step g v at rest st"
proof -
  have I: "stack_inv n st" "calls_inv g st" using assms(1) by (auto simp: tarjan_inv_def)
  have below: "fst ` set (t_calls st) \<subseteq> {..<n}" using I by (auto simp: calls_inv_def stack_inv_def)
  define low where "low = (case rest of [] \<Rightarrow> t_low st | (p, _) # _ \<Rightarrow> (t_low st)[p := min (t_low st ! p) (t_low st ! v)])"
  have low: "parent_low v rest (t_low st) = Some low" "length low = n" "v < n"
    using below assms(2) I(1) by (auto simp: parent_low_def low_def slot_def set_slot_def stack_inv_def split: list.splits)
  have "pop_component v (t_comps st) (t_stack st) (t_on st) (t_comp st)
      = Some (plain_pop_component v (t_comps st) (t_stack st) (t_on st) (t_comp st))"
    by (rule pop_component_eq) (use I(1) in \<open>auto simp: stack_inv_def\<close>)
  with low assms(3) I(1) show ?thesis
    by (auto simp: return_call_def plain_tarjan_step_def Let_def slot_def stack_inv_def low_def [symmetric]
        split: prod.splits Option.bind_split)
qed

lemma tarjan_step_eq:
  assumes "tarjan_inv g n {} st" "t_calls st = (v, at) # rest"
  shows "tarjan_step g v at rest st = plain_tarjan_step g v at rest st"
proof -
  have I: "stack_inv n st" "calls_inv g st" using assms(1) by (auto simp: tarjan_inv_def)
  have "v < n" using calls_head(1) [OF I(2) assms(2)] I(1) by (auto simp: stack_inv_def)
  then show ?thesis
    using follow_edge_eq [OF assms] return_call_eq [OF assms] by (simp add: tarjan_step_def slot_def start_length)
qed

lemma tarjan_loop_eq:
  "h = g \<Longrightarrow> tarjan_inv g n {} st \<Longrightarrow> tarjan_loop h st = plain_tarjan_loop h st"
proof (induction h st rule: plain_tarjan_loop.induct)
  case (1 h st)
  show ?case
  proof (cases "t_calls st")
    case Nil
    then show ?thesis by (simp add: tarjan_loop.simps [of h st] plain_tarjan_loop.simps [of h st])
  next
    case (Cons c rest)
    obtain v at where c: "c = (v, at)" by (cases c)
    with Cons have calls: "t_calls st = (v, at) # rest" by simp
    have "tarjan_loop h st1 = plain_tarjan_loop h st1" if "plain_tarjan_step h v at rest st = Some st1" for st1
      using 1(1) [OF Cons c [symmetric] that 1(2)] step_inv [OF 1(3) calls] that 1(2) by blast
    with tarjan_step_eq [OF 1(3) calls] 1(2) show ?thesis
      by (simp add: tarjan_loop.simps [of g st] plain_tarjan_loop.simps [of g st] calls split: option.split)
  qed
qed

lemma tarjan_roots_eq:
  assumes "set roots \<subseteq> {..<n}" "tarjan_inv g n {} st" "t_calls st = []"
  shows "tarjan_roots g roots st = plain_tarjan_roots g roots st"
  using assms
proof (induction roots arbitrary: st)
  case (Cons r roots)
  have I: "stack_inv n st" "calls_inv g st" "comp_inv g n st" "low_inv g {} st"
    using Cons.prems(2) by (auto simp: tarjan_inv_def)
  have r: "r < n" using Cons.prems(1) by simp
  have "tarjan_loop g st1 = plain_tarjan_loop g st1 \<and> (\<forall>st2. plain_tarjan_loop g st1 = Some st2 \<longrightarrow>
      tarjan_roots g roots st2 = plain_tarjan_roots g roots st2)"
    if "t_index st ! r = NONE" "plain_visit g r st = Some st1" for st1
  proof -
    have i: "tarjan_inv g n {} st1" using visit_inv [OF that(2) I r that(1)] by simp
    show ?thesis using tarjan_loop_eq [OF refl i] loop_inv [OF _ refl i] Cons.IH Cons.prems(1) by auto
  qed
  moreover have "tarjan_roots g roots st = plain_tarjan_roots g roots st" using Cons by simp
  ultimately show ?case
    using visit_eq [OF I(1) r] r I(1) by (auto simp: slot_def stack_inv_def split: Option.bind_split)
qed simp

lemma components_answers: "\<exists>cmp. components g = Some cmp \<and> length cmp = n"
proof -
  define st where "st = \<lparr>t_index = replicate n NONE, t_low = replicate n 0, t_comp = replicate n NONE,
      t_on = replicate n False, t_stack = [], t_calls = [], t_next = 0, t_comps = 0\<rparr>"
  have init: "tarjan_inv g n {} st" "t_calls st = []" "set [0..<n] \<subseteq> {..<n}"
    by (auto simp: tarjan_inv_def stack_inv_def calls_inv_def comp_inv_def low_inv_def explored_def st_def)
  obtain st' where st': "plain_tarjan_roots g [0..<n] st = Some st'"
    using components_total [OF nodes_room] by (auto simp: plain_components_def st_def start_length)
  moreover have "length (t_comp st') = n"
    using roots_inv [OF st' init(3,1,2)] by (simp add: tarjan_inv_def stack_inv_def)
  ultimately show ?thesis
    using tarjan_roots_eq [OF init(3,1,2)] by (simp add: components_def st_def start_length checked_sub_def)
qed

lemma cut_edge_answers:
  assumes "u < n" "zg_start g ! u \<le> k" "k < zg_start g ! (u + 1)" "length (c_down cs) = n - 1" "length (c_up cs) = n - 1"
  shows "\<exists>t. cut_edge g u k cs = Some t \<and> length (c_down t) = n - 1 \<and> length (c_up t) = n - 1"
proof -
  have k: "k < length es" using start_room [of "u + 1"] assms(1,3) by simp
  have v: "zg_to g ! k < n" using position_target assms(1-3) by auto
  have len: "length (fold (\<lambda>c xs. xs[c := max (xs ! c) r]) cs xs) = length xs" for cs xs and r :: nat
    by (induction cs arbitrary: xs) simp_all
  show ?thesis using k v assms(1,4,5)
    by (auto simp: cut_edge_def raise_range_def slot_def to_length rank_length len)
qed

lemma cuts_new_answers: "\<exists>cs. cuts_new g = Some cs \<and> length (c_down cs) = n - 1 \<and> length (c_up cs) = n - 1"
proof -
  let ?P = "\<lambda>cs. length (c_down cs) = n - 1 \<and> length (c_up cs) = n - 1"
  have node: "\<exists>t. cut_node g u cs = Some t \<and> ?P t" if "u < n" "?P cs" for u cs
    using fold_checked_total [of ?P cs "[zg_start g ! u..<zg_start g ! (u + 1)]" "cut_edge g u"]
      cut_edge_answers [OF that(1)] that
    by (simp add: cut_node_def slot_def start_length)
  have "\<exists>t. fold_checked (cut_node g) [0..<n] \<lparr>c_down = replicate (n - 1) 0, c_up = replicate (n - 1) 0\<rparr> = Some t \<and> ?P t"
    by (rule fold_checked_total) (use node in auto)
  then show ?thesis by (simp add: cuts_new_def start_length checked_sub_def)
qed

text \<open>A search that is ready for the nodes and below its limit stays so.\<close>

lemma scan_answers:
  assumes "u < n" "length seen = n" "set queue \<subseteq> {..<n}"
  shows "\<exists>st. fold_checked (scan_edge g newer stamp) [zg_start g ! u..<zg_start g ! (u + 1)] (seen, queue) = Some st
    \<and> length (fst st) = n \<and> set (snd st) \<subseteq> {..<n}"
proof (rule fold_checked_total)
  fix k and st :: "u32 list \<times> u16 list"
  assume "k \<in> set [zg_start g ! u..<zg_start g ! (u + 1)]" and st: "length (fst st) = n \<and> set (snd st) \<subseteq> {..<n}"
  then have k: "zg_start g ! u \<le> k" "k < zg_start g ! (u + 1)" by auto
  have "k < length es" using start_room [of "u + 1"] assms(1) k(2) by simp
  moreover have "zg_to g ! k < n" using position_target assms(1) k by auto
  ultimately show "\<exists>t. scan_edge g newer stamp k st = Some t \<and> length (fst t) = n \<and> set (snd t) \<subseteq> {..<n}"
    using st by (cases st) (auto simp: scan_edge_def slot_def set_slot_def to_length rank_length split: option.split)
qed (use assms in auto)

lemma search_loop_answers:
  assumes "length seen = n" "set queue \<subseteq> {..<n}" "ready n sr"
  shows "\<exists>r. search_loop g to newer seen queue at sr = Some r \<and>
    (\<forall>sr' b. r = Inr (sr', b) \<longrightarrow> ready n sr' \<and> s_stamp sr' = s_stamp sr)"
  using assms
proof (induction "Suc (s_limit sr) - s_work sr" arbitrary: seen queue at sr rule: less_induct)
  case less
  show ?case
  proof (cases "at < length queue \<and> queue ! at \<noteq> to")
    case False
    with less.prems show ?thesis by (auto simp: search_loop.simps [of g] Let_def ready_def)
  next
    case True
    let ?u = "queue ! at"
    let ?s = "zg_start g ! ?u" and ?e = "zg_start g ! (?u + 1)"
    have u: "?u < n" using less.prems(2) True by (auto dest: nth_mem)
    have "?e - ?s < 2 ^ 32" using start_room [of "?u + 1"] edges_room u by simp
    then have ok: "slot (zg_start g) ?u = Some ?s" "slot (zg_start g) (?u + 1) = Some ?e" "checked_sub ?e ?s = Some (?e - ?s)"
      "checked_add 64 (?e - ?s) 1 = Some (?e - ?s + 1)" "checked_add 64 (s_work sr) (?e - ?s + 1) = Some (s_work sr + (?e - ?s) + 1)"
      using u start_mono [OF u] less.prems(3)
      by (auto simp: slot_def start_length checked_sub_def checked_add_def checked_def ready_def)
    obtain st where st: "fold_checked (scan_edge g newer (s_stamp sr)) [?s..<?e] (seen, queue) = Some st"
      "length (fst st) = n" "set (snd st) \<subseteq> {..<n}"
      using scan_answers [OF u less.prems(1,2)] by blast
    let ?sr = "sr\<lparr>s_work := s_work sr + (?e - ?s) + 1\<rparr>"
    show ?thesis
    proof (cases "s_work sr + (?e - ?s) + 1 > s_limit sr")
      case over: True
      with True ok show ?thesis by (simp add: search_loop.simps [of g to newer seen] Let_def)
    next
      case within: False
      have "\<exists>r. search_loop g to newer (fst st) (snd st) (at + 1) ?sr = Some r \<and>
          (\<forall>sr' b. r = Inr (sr', b) \<longrightarrow> ready n sr' \<and> s_stamp sr' = s_stamp ?sr)"
        by (rule less.hyps) (use within st less.prems(3) in \<open>auto simp: ready_def\<close>)
      with True ok within st(1) show ?thesis by (simp add: search_loop.simps [of g to newer seen] Let_def)
    qed
  qed
qed

lemma reaches_answers:
  assumes "ready n sr" "src < n" "s_stamp sr + 1 < 2 ^ 32"
  shows "\<exists>r. reaches sr g src to newer = Some r \<and> (\<forall>sr' b. r = Inr (sr', b) \<longrightarrow> ready n sr' \<and> s_stamp sr' = s_stamp sr + 1)"
proof -
  have "cast 16 src = src" using assms(2) nodes_room by (intro cast_id) (simp add: NONE_def)
  moreover have "\<exists>r. search_loop g to newer ((s_seen sr)[src := s_stamp sr + 1]) [src] 0 (sr\<lparr>s_stamp := s_stamp sr + 1\<rparr>) = Some r \<and>
      (\<forall>sr' b. r = Inr (sr', b) \<longrightarrow> ready n sr' \<and> s_stamp sr' = s_stamp (sr\<lparr>s_stamp := s_stamp sr + 1\<rparr>))"
    by (rule search_loop_answers) (use assms in \<open>auto simp: ready_def\<close>)
  ultimately show ?thesis
    using assms by (simp add: reaches_def checked_add_def checked_def set_slot_def ready_def)
qed

end

text \<open>The code builds such a graph from every list of edges between its nodes.\<close>

lemma count_edges_eq:
  assumes "in_range n es" "length es < 2 ^ 32"
  shows "count_edges es n = Some (plain_count_edges es n)"
  unfolding count_edges_def plain_count_edges_def
proof (rule fold_checked_prefix)
  fix pre post and e :: edge
  assume es: "es = pre @ e # post"
  obtain u v r where e: "e = (u, v, r)" by (cases e)
  have r: "in_range n pre" "u < n" using assms(1) es by (auto simp: in_range_def e)
  have less: "length (out_edges pre u) < length es"
    using le_less_trans [OF length_filter_le [of "\<lambda>d. fst d = u" pre], of "length es"] by (simp add: out_edges_def es)
  define st where "st = plain_count_edges pre n"
  have "count_edge e st = Some (st[u + 1 := st ! (u + 1) + 1])"
    using count_edges_spec [OF r(1)] r(2) assms(2) less
    by (simp add: count_edge_def slot_def set_slot_def checked_add_def checked_def e st_def)
  then show "count_edge e (fold (\<lambda>(u, _) start. start[u + 1 := start ! (u + 1) + 1]) pre (replicate (n + 1) 0)) =
      Some ((\<lambda>(u, _) start. start[u + 1 := start ! (u + 1) + 1]) e
        (fold (\<lambda>(u, _) start. start[u + 1 := start ! (u + 1) + 1]) pre (replicate (n + 1) 0)))"
    by (simp only: st_def plain_count_edges_def e prod.case)
qed

lemma upt_prefix:
  assumes "[0..<n] = pre @ i # post"
  shows "pre = [0..<i]" "i < n"
proof -
  have len: "length pre < n" using arg_cong [OF assms, of length] by simp
  have "i = [0..<n] ! length pre" unfolding assms by simp
  with len have i: "i = length pre" by simp
  with len show "i < n" by simp
  have "pre = take (length pre) [0..<n]" unfolding assms by simp
  with len i show "pre = [0..<i]" by simp
qed

lemma prefix_sums_eq:
  assumes "in_range n es" "length es < 2 ^ 32"
  shows "prefix_sums n (plain_count_edges es n) = Some (plain_prefix_sums n (plain_count_edges es n))"
  unfolding prefix_sums_def plain_prefix_sums_def
proof (rule fold_checked_prefix)
  fix pre post i
  assume "[0..<n] = pre @ i # post"
  note i = upt_prefix [OF this]
  define st where "st = plain_prefix_sums i (plain_count_edges es n)"
  have spec: "length st = n + 1" "st ! i = base_of es i" "st ! Suc i = length (out_edges es i)"
    using prefix_sums_spec [of "plain_count_edges es n" n es i] count_edges_spec [OF assms(1)] i(2) by (auto simp: st_def)
  have "base_of es (Suc i) \<le> length es"
    using base_of_mono [of "Suc i" n es] base_of_total [OF assms(1)] i(2) by simp
  with spec i(2) assms(2) have "add_previous i st = Some (st[i + 1 := st ! (i + 1) + st ! i])"
    by (simp add: add_previous_def slot_def set_slot_def checked_add_def checked_def)
  then show "add_previous i (fold (\<lambda>i start. start[i + 1 := start ! (i + 1) + start ! i]) pre (plain_count_edges es n)) =
      Some ((fold (\<lambda>i start. start[i + 1 := start ! (i + 1) + start ! i]) pre (plain_count_edges es n))
        [i + 1 := fold (\<lambda>i start. start[i + 1 := start ! (i + 1) + start ! i]) pre (plain_count_edges es n) ! (i + 1)
          + fold (\<lambda>i start. start[i + 1 := start ! (i + 1) + start ! i]) pre (plain_count_edges es n) ! i])"
    by (simp add: i(1) st_def plain_prefix_sums_def)
qed

lemma place_edges_eq:
  assumes "in_range n es" "length es < 2 ^ 32"
  defines "init \<equiv> (plain_prefix_sums n (plain_count_edges es n), replicate (length es) 0, replicate (length es) 0)"
  shows "fold_checked place_edge es init = Some (fold plain_place_edge es init)"
proof (rule fold_checked_prefix)
  fix pre post and e :: edge
  assume es: "es = pre @ e # post"
  obtain u v r where e: "e = (u, v, r)" by (cases e)
  obtain fill to rank where f: "fold plain_place_edge pre init = (fill, to, rank)"
    by (cases "fold plain_place_edge pre init") auto
  have u: "u < n" using assms(1) es by (auto simp: in_range_def e)
  note P = place_edges_spec [OF assms(1) es, folded init_def, unfolded f prod.case]
  have "length (out_edges pre u) < length (out_edges es u)" by (simp add: es e out_edges_def)
  with base_step_le [OF u this] P u base_of_total [OF assms(1)]
  have "u < length fill" "fill ! u < length to" "fill ! u < length rank" "fill ! u < length es" by auto
  with assms(2) show "place_edge e (fold plain_place_edge pre init) = Some (plain_place_edge e (fold plain_place_edge pre init))"
    by (simp add: f e place_edge_def plain_place_edge_def slot_def set_slot_def checked_add_def checked_def Let_def)
qed

lemma graph_of_edges_eq:
  assumes "in_range n es" "length es < 2 ^ 32"
  shows "graph_of_edges es n = Some (plain_graph_of_edges es n)"
  using count_edges_eq [OF assms] prefix_sums_eq [OF assms] place_edges_eq [OF assms]
  by (simp add: graph_of_edges_def plain_graph_of_edges_def Let_def split_beta)

lemma plain_graph_room:
  assumes "in_range n es" "n \<le> NONE" "length es < 2 ^ 32"
  shows "csr_room (plain_graph_of_edges es n) n es"
proof -
  let ?start = "plain_prefix_sums n (plain_count_edges es n)"
  obtain fill to rank where f: "fold plain_place_edge es (?start, replicate (length es) 0, replicate (length es) 0) = (fill, to, rank)"
    by (cases "fold plain_place_edge es (?start, replicate (length es) 0, replicate (length es) 0)") auto
  have g: "plain_graph_of_edges es n = \<lparr>zg_start = ?start, zg_to = to, zg_rank = rank\<rparr>"
    by (simp add: plain_graph_of_edges_def f)
  have len: "length to = length es" "length rank = length es"
    using place_edges_spec [OF assms(1), of es "[]"] by (auto simp: f)
  have room: "?start ! u \<le> length es" if "u \<le> n" for u
    using start_spec(2) [OF assms(1) that] base_of_mono [OF that, of es] base_of_total [OF assms(1)] by simp
  show ?thesis
    by (rule csr_room.intro [OF graph_of_edges_csr [OF assms(1)] csr_room_axioms.intro])
      (use assms(2,3) len room in \<open>simp_all add: g\<close>)
qed

interpretation built_room: csr_room
  "plain_graph_of_edges (take U32_MAX (filter (\<lambda>(u, v, r). u < min n NONE \<and> v < min n NONE) es)) (min n NONE)" "min n NONE"
  "take U32_MAX (filter (\<lambda>(u, v, r). u < min n NONE \<and> v < min n NONE) es)" for es n
  by (rule plain_graph_room) (auto simp: in_range_def dest!: in_set_takeD)

end
