(* ===== verification/Package.thy ===== *)
theory Package
  imports Package_Rules Zero_Checks "HOL-Library.List_Lexorder"
begin

text \<open>
  The on-chain check of a package as \<open>crates/futures-math/src/verify.rs\<close> runs it, and the taker's premium of
  \<open>lib.rs\<close>. The outer \<open>None\<close> is an abort: an index outside a vector (the fills, the potentials, the ends of the arcs,
  the nodes), an overflow of \<open>i64\<close>, \<open>i128\<close> or of a counter, or the missing arc of a taker; \<open>Inl\<close> is the error the
  function returns and \<open>Inr\<close> the work of an accepted package. An accepted package passes the plain rules of
  \<open>Package_Rules\<close>, and within the bounds of a market's book the check never aborts.
\<close>

subsection \<open>The check\<close>

definition node_of :: "nodes \<Rightarrow> u16 \<Rightarrow> usize option" where
  "node_of nodes p = slot (n_index nodes) p"

definition shape_step :: "u16 \<Rightarrow> usize \<Rightarrow> arc \<Rightarrow> u64 list \<Rightarrow> bool option" where
  "shape_step grid i a fills =
     (if a_hi a \<le> a_lo a \<or> grid < a_hi a then Some True else do { m \<leftarrow> slot fills i; Some (a_cap a < m) })"

fun shape_check :: "u16 \<Rightarrow> usize \<Rightarrow> arc list \<Rightarrow> u64 list \<Rightarrow> usize option option" where
  "shape_check grid i [] fills = Some None"
| "shape_check grid i (a # arcs) fills = do {
     bad \<leftarrow> shape_step grid i a fills;
     if bad then Some (Some i) else shape_check grid (i + 1) arcs fills }"

definition push_ends :: "nodes \<Rightarrow> arc \<Rightarrow> (u16 \<times> u16) list \<Rightarrow> (u16 \<times> u16) list option" where
  "push_ends ns a ends = do {
     t \<leftarrow> node_of ns (tail a);
     h \<leftarrow> node_of ns (head a);
     Some (ends @ [(cast 16 t, cast 16 h)]) }"

definition all_fills :: "arc list \<Rightarrow> u64 list \<Rightarrow> u64 \<Rightarrow> usize \<Rightarrow> u64 option" where
  "all_fills arcs fills taker_fill i = (if i < length arcs then slot fills i else Some taker_fill)"

definition arc_at :: "arc list \<Rightarrow> arc option \<Rightarrow> usize \<Rightarrow> arc option" where
  "arc_at arcs t_arc i = (case slot arcs i of Some a \<Rightarrow> Some a | None \<Rightarrow> t_arc)"

definition move_lots :: "(usize \<Rightarrow> u64 option) \<Rightarrow> usize \<times> u16 \<times> u16 \<Rightarrow> i128 list \<Rightarrow> i128 list option" where
  "move_lots fill e net = (case e of (i, t, h) \<Rightarrow> do {
     m \<leftarrow> fill i;
     a \<leftarrow> slot net t;
     a \<leftarrow> checked_int 128 (a - int m);
     net \<leftarrow> set_slot net t a;
     b \<leftarrow> slot net h;
     b \<leftarrow> checked_int 128 (b + int m);
     set_slot net h b })"

definition balance :: "(u16 \<times> u16) list \<Rightarrow> (usize \<Rightarrow> u64 option) \<Rightarrow> usize \<Rightarrow> i128 list option" where
  "balance ends fill nodes = fold_checked (move_lots fill) (enumerate 0 ends) (replicate nodes 0)"

definition reduced :: "(usize \<Rightarrow> arc option) \<Rightarrow> (u16 \<times> u16) list \<Rightarrow> i64 list \<Rightarrow> usize \<Rightarrow> i128 option" where
  "reduced arc ends potentials i = do {
     e \<leftarrow> slot ends i;
     a \<leftarrow> arc i;
     c \<leftarrow> cost a;
     p \<leftarrow> slot potentials (fst e);
     r \<leftarrow> checked_int 128 (c + p);
     q \<leftarrow> slot potentials (snd e);
     checked_int 128 (r - q) }"

fun price_check :: "(usize \<Rightarrow> arc option) \<Rightarrow> (usize \<Rightarrow> u64 option) \<Rightarrow> (u16 \<times> u16) list \<Rightarrow> i64 list \<Rightarrow> usize \<Rightarrow>
    usize list \<Rightarrow> usize list \<Rightarrow> (verify_error + usize list) option" where
  "price_check arc fill ends potentials n [] zero = Some (Inr zero)"
| "price_check arc fill ends potentials n (i # is) zero = do {
     a \<leftarrow> arc i;
     m \<leftarrow> fill i;
     r \<leftarrow> reduced arc ends potentials i;
     if (m < a_cap a \<and> r < 0) \<or> (0 < m \<and> 0 < r) then Some (Inl (Price i))
     else price_check arc fill ends potentials n is (if r = 0 \<and> i < n then zero @ [i] else zero) }"

definition push_edges :: "arc list \<Rightarrow> u64 list \<Rightarrow> (u16 \<times> u16) list \<Rightarrow> usize \<Rightarrow> edge list \<Rightarrow> edge list option" where
  "push_edges arcs fills ends i edges = do {
     a \<leftarrow> slot arcs i;
     e \<leftarrow> slot ends i;
     m \<leftarrow> slot fills i;
     Some (edges @ (if m < a_cap a then [(fst e, snd e, a_rank a)] else [])
       @ (if 0 < m then [(snd e, fst e, a_rank a)] else [])) }"

definition zero_graph_new :: "arc list \<Rightarrow> u64 list \<Rightarrow> usize list \<Rightarrow> (u16 \<times> u16) list \<Rightarrow> usize \<Rightarrow> zero_graph option" where
  "zero_graph_new arcs fills zero ends nodes = do {
     edges \<leftarrow> fold_checked (push_edges arcs fills ends) zero [];
     graph_of_edges edges nodes }"

text \<open>The quantity rule: the search from the taker's head to its tail, if its lots are not all filled.\<close>

definition search_taker :: "arc \<Rightarrow> nodes \<Rightarrow> zero_graph \<Rightarrow> search \<Rightarrow> (verify_error + search) option" where
  "search_taker t ns g sr = do {
     from \<leftarrow> node_of ns (head t);
     to \<leftarrow> node_of ns (tail t);
     x \<leftarrow> reaches sr g from to None;
     Some (case x of Inl e \<Rightarrow> Inl e | Inr (sr, hit) \<Rightarrow> if hit then Inl Quantity else Inr sr) }"

definition quantity_check :: "arc list \<Rightarrow> arc option \<Rightarrow> u64 \<Rightarrow> (u16 \<times> u16) list \<Rightarrow> i64 list \<Rightarrow> nodes \<Rightarrow> zero_graph \<Rightarrow> search \<Rightarrow>
    (verify_error + search) option" where
  "quantity_check arcs t_arc taker_fill ends potentials ns g sr =
     (case t_arc of
        None \<Rightarrow> Some (Inr sr)
      | Some t \<Rightarrow>
          if taker_fill < a_cap t then do {
            r \<leftarrow> reduced (arc_at arcs t_arc) ends potentials (length arcs);
            if r = 0 then search_taker t ns g sr else Some (Inr sr) }
          else Some (Inr sr))"

text \<open>The time rule for one arc: \<open>None\<close> inside where it is settled without a search.\<close>

definition exchange :: "arc list \<Rightarrow> u64 list \<Rightarrow> (u16 \<times> u16) list \<Rightarrow> u16 list \<Rightarrow> cuts \<Rightarrow> usize \<Rightarrow> (usize \<times> usize \<times> u128) option option" where
  "exchange arcs fills ends scc cs i = do {
     a \<leftarrow> slot arcs i;
     m \<leftarrow> slot fills i;
     if m < a_cap a then do {
       e \<leftarrow> slot ends i;
       x \<leftarrow> slot scc (snd e);
       y \<leftarrow> slot scc (fst e);
       pass \<leftarrow> (if x \<noteq> y then Some False else passable cs (snd e) (fst e) (a_rank a));
       Some (if pass then Some (snd e, fst e, a_rank a) else None) }
     else Some None }"

fun fifo_check :: "arc list \<Rightarrow> u64 list \<Rightarrow> (u16 \<times> u16) list \<Rightarrow> zero_graph \<Rightarrow> u16 list \<Rightarrow> cuts \<Rightarrow> usize list \<Rightarrow> search \<Rightarrow>
    (verify_error + u64) option" where
  "fifo_check arcs fills ends g scc cs [] sr = Some (Inr (s_work sr))"
| "fifo_check arcs fills ends g scc cs (i # is) sr = do {
     x \<leftarrow> exchange arcs fills ends scc cs i;
     (case x of
        None \<Rightarrow> fifo_check arcs fills ends g scc cs is sr
      | Some (from, to, oldest) \<Rightarrow> do {
          y \<leftarrow> reaches sr g from to (Some oldest);
          (case y of
             Inl e \<Rightarrow> Some (Inl e)
           | Inr (sr, hit) \<Rightarrow> if hit then Some (Inl (Fifo i)) else fifo_check arcs fills ends g scc cs is sr) }) }"

definition check_residual :: "arc list \<Rightarrow> arc option \<Rightarrow> u64 list \<Rightarrow> u64 \<Rightarrow> i64 list \<Rightarrow> nodes \<Rightarrow> (u16 \<times> u16) list \<Rightarrow> usize list \<Rightarrow> u64 \<Rightarrow>
    (verify_error + u64) option" where
  "check_residual arcs t_arc fills taker_fill potentials ns ends zero work_limit = do {
     g \<leftarrow> zero_graph_new arcs fills zero ends (length (n_positions ns));
     q \<leftarrow> quantity_check arcs t_arc taker_fill ends potentials ns g (search_new (length (n_positions ns)) work_limit);
     (case q of
        Inl e \<Rightarrow> Some (Inl e)
      | Inr sr \<Rightarrow> do {
          scc \<leftarrow> components g;
          cs \<leftarrow> cuts_new g;
          fifo_check arcs fills ends g scc cs zero sr }) }"

definition check_prices :: "arc list \<Rightarrow> arc option \<Rightarrow> u64 list \<Rightarrow> u64 \<Rightarrow> i64 list \<Rightarrow> nodes \<Rightarrow> u64 \<Rightarrow> (verify_error + u64) option" where
  "check_prices arcs t_arc fills taker_fill potentials ns work_limit = do {
     ends \<leftarrow> fold_checked (push_ends ns) (arcs @ (case t_arc of None \<Rightarrow> [] | Some t \<Rightarrow> [t])) [];
     net \<leftarrow> balance ends (all_fills arcs fills taker_fill) (length (n_positions ns));
     (case find (\<lambda>v. net ! v \<noteq> 0) [0..<length net] of
        Some v \<Rightarrow> Some (Inl (Unbalanced v))
      | None \<Rightarrow> do {
          priced \<leftarrow> price_check (arc_at arcs t_arc) (all_fills arcs fills taker_fill) ends potentials (length arcs) [0..<length ends] [];
          (case priced of
             Inl e \<Rightarrow> Some (Inl e)
           | Inr zero \<Rightarrow> check_residual arcs t_arc fills taker_fill potentials ns ends zero work_limit) }) }"

definition verify :: "arc list \<Rightarrow> taker option \<Rightarrow> u64 list \<Rightarrow> u64 \<Rightarrow> i64 list \<Rightarrow> u16 \<Rightarrow> u64 \<Rightarrow>
    (verify_error + u64) option" where
  "verify arcs taker fills taker_fill potentials grid work_limit =
     (if length fills \<noteq> length arcs then Some (Inl Potentials)
      else do {
        bad \<leftarrow> shape_check grid 0 arcs fills;
        (case bad of
           Some i \<Rightarrow> Some (Inl (Capacity i))
         | None \<Rightarrow>
             if (case taker of Some t \<Rightarrow> bad_shape grid (taker_arc t) taker_fill | None \<Rightarrow> taker_fill \<noteq> 0)
             then Some (Inl (Capacity (length arcs)))
             else let ns = nodes_new arcs taker grid in
               if length potentials \<noteq> length (n_positions ns) then Some (Inl Potentials)
               else check_prices arcs (map_option taker_arc taker) fills taker_fill potentials ns work_limit) })"

subsection \<open>The taker's premium\<close>

definition add_cost :: "arc \<times> u64 \<Rightarrow> i128 \<Rightarrow> i128 option" where
  "add_cost am net = do {
     c \<leftarrow> cost (fst am);
     x \<leftarrow> checked_int 128 (c * int (snd am));
     checked_int 128 (net + x) }"

definition net_cost :: "(arc \<times> u64) list \<Rightarrow> i128 option" where
  "net_cost ams = fold_checked add_cost ams 0"

definition taker_premium :: "side \<Rightarrow> arc list \<Rightarrow> u64 list \<Rightarrow> i128 option" where
  "taker_premium sd arcs fills = do {
     net \<leftarrow> net_cost (zip arcs fills);
     (case sd of Long \<Rightarrow> Some net | Short \<Rightarrow> checked_int 128 (- net)) }"

subsection \<open>An accepted package passes the plain rules\<close>

lemma shape_check_plain:
  "shape_check grid i arcs fills = Some bad \<Longrightarrow>
   find (\<lambda>j. bad_shape grid (arcs ! (j - i)) (fills ! j)) [i..<i + length arcs] = bad"
proof (induction arcs arbitrary: i)
  case (Cons a arcs)
  have tl: "find (\<lambda>j. bad_shape grid ((a # arcs) ! (j - i)) (fills ! j)) [Suc i..<Suc i + length arcs]
      = find (\<lambda>j. bad_shape grid (arcs ! (j - Suc i)) (fills ! j)) [Suc i..<Suc i + length arcs]"
    by (rule find_cong) (auto simp: nth_Cons')
  have list: "[i..<i + length (a # arcs)] = i # [Suc i..<Suc i + length arcs]" by (simp add: upt_conv_Cons del: upt_Suc)
  have "bad_shape grid a (fills ! i) \<and> bad = Some i
      \<or> \<not> bad_shape grid a (fills ! i) \<and> shape_check grid (Suc i) arcs fills = Some bad"
    using Cons.prems by (auto simp: shape_step_def bad_shape_def option_bind_eq_Some slot_Some split: if_splits)
  with Cons.IH [of "Suc i"] show ?case unfolding list find.simps tl by auto
qed simp

lemma push_ends_plain:
  "fold_checked (push_ends ns) all ends = Some ends' \<Longrightarrow>
   ends' = ends @ map (\<lambda>a. (cast 16 (plain_node_of ns (tail a)), cast 16 (plain_node_of ns (head a)))) all"
  by (drule fold_checked_push [where g = "\<lambda>a. [(cast 16 (plain_node_of ns (tail a)), cast 16 (plain_node_of ns (head a)))]"])
    (auto simp: push_ends_def node_of_def plain_node_of_def option_bind_eq_Some slot_Some)

lemma move_lots_plain:
  "move_lots fill (i, t, h) net = Some net' \<Longrightarrow> \<exists>m. fill i = Some m \<and>
   net' = (let net = net[t := net ! t - int m] in net[h := net ! h + int m])"
  by (auto simp: move_lots_def checked_simps slot_Some Let_def)

lemma zip_enumerate: "length xs \<le> length ys \<Longrightarrow> zip xs ys = map (\<lambda>(i, x). (x, ys ! i)) (enumerate 0 xs)"
  by (rule nth_equalityI) (auto simp: nth_enumerate_eq)

lemma balance_plain:
  assumes "balance ends fill n = Some net" "length ends \<le> length fs"
    "\<And>i m. i < length ends \<Longrightarrow> fill i = Some m \<Longrightarrow> fs ! i = m"
  shows "plain_balance ends fs n = net"
proof -
  have "plain_balance ends fs n = fold (\<lambda>(i, t, h) net. let net = net[t := net ! t - int (fs ! i)] in net[h := net ! h + int (fs ! i)])
      (enumerate 0 ends) (replicate n 0)"
    unfolding plain_balance_def zip_enumerate [OF assms(2)] fold_map
    by (rule arg_cong [where f = "\<lambda>f. fold f _ _"]) (auto simp: fun_eq_iff)
  also have "\<dots> = net"
    by (rule fold_checked_fold [OF assms(1) [unfolded balance_def]])
      (use assms(3) in \<open>auto simp: in_set_enumerate_eq dest!: move_lots_plain\<close>)
  finally show ?thesis .
qed

lemma length_plain_balance: "length (plain_balance ends fs n) = n"
proof -
  have "length (fold (\<lambda>((t, h), m) net. let net = net[t := net ! t - int m] in net[h := net ! h + int m]) es net) = length net"
    for es :: "((nat \<times> nat) \<times> nat) list" and net
    by (induction es arbitrary: net) (auto simp: Let_def)
  then show ?thesis by (simp add: plain_balance_def)
qed

lemma reduced_plain:
  "reduced arc ends pots i = Some r \<Longrightarrow> arc i = Some (all ! i) \<Longrightarrow> plain_reduced all ends pots i = Some r"
  by (auto simp: reduced_def plain_reduced_def checked_simps slot_Some)

lemma price_check_plain:
  assumes "price_check arc fill ends pots n is zero = Some (Inr zero')"
    "\<And>i a. i \<in> set is \<Longrightarrow> arc i = Some a \<Longrightarrow> a = all ! i" "\<And>i m. i \<in> set is \<Longrightarrow> fill i = Some m \<Longrightarrow> m = fs ! i"
  shows "plain_price_check all fs ends pots n is zero = Some (Inr zero')"
  using assms
proof (induction "is" arbitrary: zero)
  case (Cons i "is")
  then obtain a m r where i: "arc i = Some a" "fill i = Some m" "reduced arc ends pots i = Some r"
    "\<not> ((m < a_cap a \<and> r < 0) \<or> (0 < m \<and> 0 < r))"
    "price_check arc fill ends pots n is (if r = 0 \<and> i < n then zero @ [i] else zero) = Some (Inr zero')"
    by (auto simp: option_bind_eq_Some split: if_splits)
  have am: "a = all ! i" "m = fs ! i" using Cons.prems(2,3) i(1,2) by auto
  have "plain_price_check all fs ends pots n is (if r = 0 \<and> i < n then zero @ [i] else zero) = Some (Inr zero')"
    using Cons.IH [OF i(5)] Cons.prems(2,3) by simp
  moreover have "plain_reduced all ends pots i = Some r" using reduced_plain [OF i(3)] i(1) am by simp
  ultimately show ?case using i(4) am by simp
qed simp

lemma push_edges_plain:
  "fold_checked (push_edges arcs fills ends) zero edges = Some edges' \<Longrightarrow> edges' = edges @ plain_zero_edges arcs fills zero ends"
  unfolding plain_zero_edges_def
  by (erule fold_checked_push) (auto simp: push_edges_def option_bind_eq_Some slot_Some split_beta)

lemma zero_graph_new_plain:
  "zero_graph_new arcs fills zero ends n = Some g \<Longrightarrow> plain_zero_graph_new arcs fills zero ends n = g"
  by (auto simp: zero_graph_new_def plain_zero_graph_new_def option_bind_eq_Some
      dest!: push_edges_plain graph_of_edges_plain)

definition small :: "u16 list \<Rightarrow> bool" where
  "small index \<longleftrightarrow> (\<forall>x\<in>set index. x < 2 ^ 16)"

lemma small_mark [intro]: "small index \<Longrightarrow> small (mark p index)"
  using set_update_subset_insert [of index p 0] by (auto simp: small_def mark_def)

lemma small_marks: "small index \<Longrightarrow> small (fold (\<lambda>a index. mark (a_hi a) (mark (a_lo a) index)) arcs index)"
  by (induction arcs arbitrary: index) auto

lemma small_slots: "small (snd st) \<Longrightarrow> small (snd (fold number_slot ps st))"
proof (induction ps arbitrary: st)
  case (Cons p ps)
  obtain positions index where st: "st = (positions, index)" by (cases st)
  have "small (snd (number_slot p st))"
    using Cons.prems set_update_subset_insert [of index p "cast 16 (length positions)"] cast_less [of 16 "length positions"]
    by (auto simp: st small_def number_slot_def)
  from Cons.IH [OF this] show ?case by simp
qed simp

lemma nodes_index_small: "small (n_index (nodes_new arcs taker grid))"
proof -
  have "small (replicate (grid + 1) U16_MAX)" by (simp add: small_def)
  from small_marks [OF this, of arcs] show ?thesis
    unfolding nodes_new_def Let_def split_beta by (auto simp del: upt_Suc split: option.split intro!: small_slots small_mark)
qed

text \<open>A search that found nothing.\<close>

lemma search_taker_ok:
  assumes "search_taker t ns g sr = Some (Inr sr')"
  obtains src dst where "node_of ns (head t) = Some src" "node_of ns (tail t) = Some dst"
    "reaches sr g src dst None = Some (Inr (sr', False))"
proof -
  obtain src dst x where x: "node_of ns (head t) = Some src" "node_of ns (tail t) = Some dst" "reaches sr g src dst None = Some x"
    "(case x of Inl e \<Rightarrow> Inl e | Inr (sr, hit) \<Rightarrow> if hit then Inl Quantity else Inr sr) = Inr sr'"
    using assms by (auto simp: search_taker_def option_bind_eq_Some)
  show ?thesis using x that by (cases x) (auto split: prod.splits if_splits)
qed

lemma fifo_check_search:
  assumes "fifo_check arcs fills ends g scc cs (i # zero) sr = Some (Inr w)"
    "exchange arcs fills ends scc cs i = Some (Some (src, dst, q))"
  obtains sr' where "reaches sr g src dst (Some q) = Some (Inr (sr', False))"
    "fifo_check arcs fills ends g scc cs zero sr' = Some (Inr w)"
proof -
  obtain y where y: "reaches sr g src dst (Some q) = Some y"
    "(case y of Inl e \<Rightarrow> Some (Inl e)
       | Inr (sr, hit) \<Rightarrow> if hit then Some (Inl (Fifo i)) else fifo_check arcs fills ends g scc cs zero sr) = Some (Inr w)"
    using assms by (auto simp: option_bind_eq_Some)
  show ?thesis using y that by (cases y) (auto split: prod.splits if_splits)
qed

lemma quantity_check_plain:
  assumes "quantity_check arcs ta tf ends pots ns g sr = Some (Inr sr')"
    "small (n_index ns)" "all = arcs @ (case ta of None \<Rightarrow> [] | Some t \<Rightarrow> [t])"
  shows "plain_quantity_check all ta tf ends pots ns g sr = Some (Inr sr')"
proof (cases ta)
  case (Some t)
  have at: "arc_at arcs ta (length arcs) = Some (all ! length arcs)" "length all - 1 = length arcs"
    by (simp_all add: arc_at_def slot_def Some assms(3))
  show ?thesis
  proof (cases "tf < a_cap t")
    case True
    obtain r where r: "reduced (arc_at arcs ta) ends pots (length arcs) = Some r"
      "(if r = 0 then search_taker t ns g sr else Some (Inr sr)) = Some (Inr sr')"
      using assms(1) True by (auto simp: quantity_check_def Some option_bind_eq_Some)
    note red = reduced_plain [OF r(1) at(1)]
    show ?thesis
    proof (cases "r = 0")
      case zero: True
      obtain src dst where n: "node_of ns (head t) = Some src" "node_of ns (tail t) = Some dst"
        "reaches sr g src dst None = Some (Inr (sr', False))"
        using r(2) zero search_taker_ok by (metis (full_types))
      have "src < 2 ^ 16" using n(1) assms(2) by (auto simp: node_of_def slot_Some small_def)
      from reaches_plain [OF n(3) this] n(1,2) red zero True at(2) show ?thesis
        by (simp add: plain_quantity_check_def Some plain_node_of_def node_of_def slot_Some)
    qed (use red r(2) True at(2) in \<open>simp add: plain_quantity_check_def Some\<close>)
  qed (use assms(1) in \<open>simp add: quantity_check_def plain_quantity_check_def Some\<close>)
qed (use assms(1) in \<open>simp add: quantity_check_def plain_quantity_check_def\<close>)

lemma exchange_plain:
  assumes "exchange arcs fills ends scc cs i = Some x"
  shows "case x of
      None \<Rightarrow> fills ! i < a_cap (arcs ! i) \<longrightarrow> scc ! snd (ends ! i) \<noteq> scc ! fst (ends ! i) \<or>
        \<not> plain_passable cs (snd (ends ! i)) (fst (ends ! i)) (a_rank (arcs ! i))
    | Some (src, dst, q) \<Rightarrow> fills ! i < a_cap (arcs ! i) \<and> scc ! src = scc ! dst \<and> plain_passable cs src dst q \<and>
        ends ! i = (dst, src) \<and> q = a_rank (arcs ! i) \<and> i < length ends"
  using assms
  by (auto simp: exchange_def option_bind_eq_Some slot_Some dest!: passable_plain split: if_splits)

lemma fifo_check_plain:
  assumes "fifo_check arcs fills ends g scc cs zero sr = Some (Inr w)" "\<forall>e\<in>set ends. snd e < 2 ^ 16"
  shows "plain_fifo_check arcs fills ends g scc cs zero sr = Inr w"
  using assms(1)
proof (induction zero arbitrary: sr)
  case (Cons i zero)
  obtain x where x: "exchange arcs fills ends scc cs i = Some x"
    using Cons.prems by (auto simp: option_bind_eq_Some)
  show ?case
  proof (cases x)
    case None
    with x Cons show ?thesis using exchange_plain [OF x] by (auto simp: Let_def)
  next
    case (Some y)
    obtain src dst q where y: "y = (src, dst, q)" by (cases y)
    obtain sr' where r: "reaches sr g src dst (Some q) = Some (Inr (sr', False))"
      "fifo_check arcs fills ends g scc cs zero sr' = Some (Inr w)"
      by (rule fifo_check_search [OF Cons.prems x [unfolded Some y]])
    note E = exchange_plain [OF x, unfolded Some y option.case prod.case]
    have "src < 2 ^ 16" using E assms(2) by (metis nth_mem snd_conv)
    from reaches_plain [OF r(1) this] have "plain_reaches sr g src dst (Some q) = Some (sr', False)" by simp
    with E Cons.IH [OF r(2)] show ?thesis by (auto simp: Let_def)
  qed
qed simp

lemma check_residual_plain:
  assumes "check_residual arcs ta fills tf pots ns ends zero lim = Some (Inr w)"
    "small (n_index ns)" "all = arcs @ (case ta of None \<Rightarrow> [] | Some t \<Rightarrow> [t])" "\<forall>e\<in>set ends. snd e < 2 ^ 16"
  defines "g \<equiv> plain_zero_graph_new arcs fills zero ends (length (n_positions ns))"
  shows "do {
      q \<leftarrow> plain_quantity_check all ta tf ends pots ns g (search_new (length (n_positions ns)) lim);
      (case q of
         Inl e \<Rightarrow> Some (Inl e)
       | Inr sr \<Rightarrow> do { scc \<leftarrow> plain_components g; Some (plain_fifo_check arcs fills ends g scc (plain_cuts_new g) zero sr) }) }
    = Some (Inr w)"
proof -
  obtain g' q where gq: "zero_graph_new arcs fills zero ends (length (n_positions ns)) = Some g'"
    "quantity_check arcs ta tf ends pots ns g' (search_new (length (n_positions ns)) lim) = Some q"
    "(case q of Inl e \<Rightarrow> Some (Inl e) | Inr sr \<Rightarrow> do {
        scc \<leftarrow> components g'; cs \<leftarrow> cuts_new g'; fifo_check arcs fills ends g' scc cs zero sr }) = Some (Inr w)"
    using assms(1) by (auto simp: check_residual_def option_bind_eq_Some)
  then obtain sr where q: "q = Inr sr" by (cases q) auto
  obtain scc cs where s: "components g' = Some scc" "cuts_new g' = Some cs" "fifo_check arcs fills ends g' scc cs zero sr = Some (Inr w)"
    using gq(3) by (auto simp: q option_bind_eq_Some)
  have g: "g' = g" using zero_graph_new_plain [OF gq(1)] by (simp add: g_def)
  have "plain_cuts_new g = cs" using cuts_new_plain [OF s(2)] g by simp
  with quantity_check_plain [OF gq(2) [unfolded q] assms(2,3)] components_plain [OF s(1)] fifo_check_plain [OF s(3) assms(4)] g
  show ?thesis by simp
qed

lemma check_prices_plain:
  assumes "check_prices arcs ta fills tf pots ns lim = Some (Inr w)"
    "small (n_index ns)" "length fills = length arcs"
  defines "all \<equiv> arcs @ (case ta of None \<Rightarrow> [] | Some t \<Rightarrow> [t])" and "n \<equiv> length (n_positions ns)"
  defines "ends \<equiv> map (\<lambda>a. (cast 16 (plain_node_of ns (tail a)), cast 16 (plain_node_of ns (head a)))) all"
  obtains zero where "find (\<lambda>v. plain_balance ends (fills @ [tf]) n ! v \<noteq> 0) [0..<n] = None"
    "plain_price_check all (fills @ [tf]) ends pots (length arcs) [0..<length ends] [] = Some (Inr zero)"
    "check_residual arcs ta fills tf pots ns ends zero lim = Some (Inr w)"
proof -
  obtain ends' net where e: "fold_checked (push_ends ns) all [] = Some ends'"
    "balance ends' (all_fills arcs fills tf) n = Some net"
    "(case find (\<lambda>v. net ! v \<noteq> 0) [0..<length net] of
        Some v \<Rightarrow> Some (Inl (Unbalanced v))
      | None \<Rightarrow> do {
          priced \<leftarrow> price_check (arc_at arcs ta) (all_fills arcs fills tf) ends' pots (length arcs) [0..<length ends'] [];
          (case priced of
             Inl e \<Rightarrow> Some (Inl e)
           | Inr zero \<Rightarrow> check_residual arcs ta fills tf pots ns ends' zero lim) }) = Some (Inr w)"
    using assms(1) by (auto simp: check_prices_def option_bind_eq_Some all_def n_def)
  have ends: "ends' = ends" using push_ends_plain [OF e(1)] by (simp add: ends_def)
  have len: "length ends \<le> length (fills @ [tf])" by (simp add: ends_def all_def assms(3) split: option.split)
  have fill: "(fills @ [tf]) ! i = m" if "i < length ends" "all_fills arcs fills tf i = Some m" for i m
    using that len by (auto simp: all_fills_def slot_Some nth_append assms(3) less_Suc_eq split: if_splits)
  have net: "plain_balance ends (fills @ [tf]) n = net"
    using e(2) len fill unfolding ends by (rule balance_plain)
  then have "length net = n" using length_plain_balance by metis
  with e(3) have bal: "find (\<lambda>v. net ! v \<noteq> 0) [0..<n] = None" by (cases "find (\<lambda>v. net ! v \<noteq> 0) [0..<n]") auto
  then obtain priced where p: "price_check (arc_at arcs ta) (all_fills arcs fills tf) ends pots (length arcs) [0..<length ends] [] = Some priced"
    "(case priced of Inl e \<Rightarrow> Some (Inl e) | Inr zero \<Rightarrow> check_residual arcs ta fills tf pots ns ends zero lim) = Some (Inr w)"
    using e(3) \<open>length net = n\<close> by (auto simp: ends option_bind_eq_Some)
  then obtain zero where zero: "priced = Inr zero" by (cases priced) auto
  have "plain_price_check all (fills @ [tf]) ends pots (length arcs) [0..<length ends] [] = Some (Inr zero)"
  proof (rule price_check_plain [OF p(1) [unfolded zero]])
    show "a = all ! i" if "i \<in> set [0..<length ends]" "arc_at arcs ta i = Some a" for i a
      using that by (auto simp: arc_at_def slot_def all_def ends_def nth_append split: option.splits if_splits)
  qed (use fill in auto)
  with that bal net p(2) zero show ?thesis by simp
qed

lemma verify_plain:
  assumes "verify arcs taker fills tf pots grid lim = Some (Inr w)"
  shows "plain_verify arcs taker fills tf pots grid lim = Some (Inr w)"
proof -
  define ta where "ta = map_option taker_arc taker"
  define ns where "ns = nodes_new arcs taker grid"
  define all where "all = arcs @ (case ta of None \<Rightarrow> [] | Some t \<Rightarrow> [t])"
  define ends where "ends = map (\<lambda>a. (cast 16 (plain_node_of ns (tail a)), cast 16 (plain_node_of ns (head a)))) all"
  have len: "length fills = length arcs" using assms by (auto simp: verify_def split: if_splits)
  then obtain bad where bad: "shape_check grid 0 arcs fills = Some bad"
    using assms by (auto simp: verify_def option_bind_eq_Some)
  then have none: "bad = None" using assms len by (cases bad) (auto simp: verify_def)
  have shape: "find (\<lambda>i. bad_shape grid (arcs ! i) (fills ! i)) [0..<length arcs] = None"
    using shape_check_plain [OF bad] none by simp
  have tk: "\<not> (case taker of Some t \<Rightarrow> bad_shape grid (taker_arc t) tf | None \<Rightarrow> tf \<noteq> 0)"
    using assms len bad none by (auto simp: verify_def split: if_splits)
  then have tk': "\<not> (case ta of Some t \<Rightarrow> bad_shape grid t tf | None \<Rightarrow> tf \<noteq> 0)"
    by (simp add: ta_def split: option.splits)
  have pots: "length pots = length (n_positions ns)" and "check_prices arcs ta fills tf pots ns lim = Some (Inr w)"
    using assms len bad none tk by (auto simp: verify_def Let_def ns_def ta_def split: if_splits)
  from check_prices_plain [OF this(2) _ len] nodes_index_small [of arcs taker grid]
  obtain zero where z: "find (\<lambda>v. plain_balance ends (fills @ [tf]) (length (n_positions ns)) ! v \<noteq> 0) [0..<length (n_positions ns)] = None"
    "plain_price_check all (fills @ [tf]) ends pots (length arcs) [0..<length ends] [] = Some (Inr zero)"
    "check_residual arcs ta fills tf pots ns ends zero lim = Some (Inr w)"
    unfolding ns_def all_def ends_def by blast
  have "\<forall>e\<in>set ends. snd e < 2 ^ 16" using cast_less [of 16] by (auto simp: ends_def)
  note R = check_residual_plain [OF z(3) nodes_index_small [of arcs taker grid, folded ns_def] all_def this]
  show ?thesis
    unfolding plain_verify_def shape option.case Let_def ta_def [symmetric] ns_def [symmetric] if_not_P [OF tk']
      all_def [symmetric] ends_def [symmetric] z(1,2)
    using len pots R by (simp add: Let_def)
qed

lemmas verify_shapes = plain_verify_shapes [OF verify_plain]
  and verify_nodes = plain_verify_nodes [OF verify_plain]
  and verify_certified = plain_verify_certified [OF verify_plain]

subsection \<open>The check always answers\<close>

lemma shape_check_answers: "i + length arcs \<le> length fills \<Longrightarrow> \<exists>bad. shape_check grid i arcs fills = Some bad"
  by (induction arcs arbitrary: i) (auto simp: shape_step_def slot_def)

lemma length_index: "length (n_index (nodes_new arcs taker grid)) = grid + 1"
proof -
  have mark: "length (mark p index) = length index" for p index by (simp add: mark_def)
  have marks: "length (fold (\<lambda>a index. mark (a_hi a) (mark (a_lo a) index)) arcs index) = length index" for index
    by (induction arcs arbitrary: index) (simp_all add: mark)
  have slots: "length (snd (fold number_slot ps st)) = length (snd st)" for ps st
    by (induction ps arbitrary: st) (auto simp: number_slot_def split: prod.splits)
  show ?thesis
    unfolding nodes_new_def Let_def split_beta by (simp add: slots marks mark del: upt_Suc split: option.split)
qed

lemma push_ends_answers:
  assumes "\<forall>a\<in>set all. tail a \<le> grid \<and> head a \<le> grid" "ns = nodes_new arcs taker grid"
  shows "\<exists>ends. fold_checked (push_ends ns) all acc = Some ends"
  using fold_checked_total [of "\<lambda>_. True" acc all "push_ends ns"] assms
  by (force simp: push_ends_def node_of_def slot_def length_index)

lemma move_lots_answers:
  assumes "fill i = Some m" "m < 2 ^ 64" "t < length net" "h < length net" "\<forall>x\<in>set net. \<bar>x\<bar> + 2 ^ 65 \<le> B" "B < 2 ^ 127"
  shows "\<exists>net'. move_lots fill (i, t, h) net = Some net' \<and> length net' = length net \<and> (\<forall>x\<in>set net'. \<bar>x\<bar> \<le> B)"
proof -
  define net1 where "net1 = net[t := net ! t - int m]"
  have old: "\<bar>net ! v\<bar> + 2 ^ 65 \<le> B" if "v < length net" for v using assms(5) that by simp
  have m: "int m < 2 ^ 64" using assms(2) by (metis of_nat_less_iff of_nat_numeral of_nat_power)
  have one: "\<bar>net1 ! v\<bar> + 2 ^ 64 \<le> B" if "v < length net" for v
    using old [OF that] old [OF assms(3)] m assms(3) by (cases "v = t") (simp_all add: net1_def)
  have two: "\<bar>net1[h := net1 ! h + int m] ! v\<bar> \<le> B" if "v < length net" for v
    using one [OF that] one [OF assms(4)] m assms(4) by (cases "v = h") (simp_all add: net1_def)
  have "in_int 128 (net ! t - int m)" "in_int 128 (net1 ! h + int m)"
    using old [OF assms(3)] one [OF assms(4)] m assms(6) by (auto simp: in_int_def)
  then have "move_lots fill (i, t, h) net = Some (net1[h := net1 ! h + int m])"
    using assms(1,3,4) by (simp add: move_lots_def slot_def set_slot_def checked_int_def net1_def)
  moreover have "\<forall>x\<in>set (net1[h := net1 ! h + int m]). \<bar>x\<bar> \<le> B"
    using two by (auto simp: in_set_conv_nth net1_def)
  ultimately show ?thesis by (simp add: net1_def)
qed

lemma balance_answers:
  assumes "\<forall>(i, t, h)\<in>set es. (\<exists>m. fill i = Some m \<and> m < 2 ^ 64) \<and> t < length net \<and> h < length net"
    "\<forall>x\<in>set net. \<bar>x\<bar> + 2 ^ 65 * int (length es) \<le> B" "B < 2 ^ 127"
  shows "\<exists>net'. fold_checked (move_lots fill) es net = Some net'"
  using assms(1,2)
proof (induction es arbitrary: net)
  case (Cons e es)
  obtain i t h where e: "e = (i, t, h)" by (cases e) auto
  obtain m where m: "fill i = Some m" "m < 2 ^ 64" "t < length net" "h < length net" using Cons.prems(1) by (auto simp: e)
  let ?C = "B - 2 ^ 65 * int (length es)"
  have "\<forall>x\<in>set net. \<bar>x\<bar> + 2 ^ 65 \<le> ?C" using Cons.prems(2) by (simp add: algebra_simps)
  from move_lots_answers [of fill i m t net h ?C, OF m this] assms(3) obtain net' where n: "move_lots fill e net = Some net'"
    "length net' = length net" "\<forall>x\<in>set net'. \<bar>x\<bar> \<le> ?C" by (auto simp: e)
  have "\<exists>net''. fold_checked (move_lots fill) es net' = Some net''"
    by (rule Cons.IH) (use Cons.prems(1) n(2,3) in \<open>auto simp: algebra_simps\<close>)
  with n(1) show ?case by auto
qed simp

lemma reduced_answers:
  assumes "arc i = Some a" "a_price a < 2 ^ 63" "i < length ends" "fst (ends ! i) < length pots" "snd (ends ! i) < length pots"
    "\<forall>p\<in>set pots. in_int 64 p"
  shows "\<exists>r. reduced arc ends pots i = Some r"
proof -
  have c: "in_int 64 (arc_cost a)"
    using assms(2) by (auto simp: arc_cost_def in_int_def split: side.split)
  have p: "in_int 64 (pots ! fst (ends ! i))" "in_int 64 (pots ! snd (ends ! i))" using assms(4-6) by auto
  from c p show ?thesis
    using assms(1-5) cost_arc_cost [of a] by (auto simp: reduced_def slot_def checked_int_def in_int_def)
qed

lemma price_check_answers:
  assumes "\<forall>i\<in>set is. (\<exists>a. arc i = Some a) \<and> (\<exists>m. fill i = Some m) \<and> (\<exists>r. reduced arc ends pots i = Some r)"
  shows "\<exists>r. price_check arc fill ends pots n is zero = Some r \<and>
    (\<forall>zero'. r = Inr zero' \<longrightarrow> set zero' \<subseteq> set zero \<union> {..<n} \<and> length zero' \<le> length zero + length (filter (\<lambda>i. i < n) is))"
  using assms
proof (induction "is" arbitrary: zero)
  case (Cons i "is")
  then obtain a m r where i: "arc i = Some a" "fill i = Some m" "reduced arc ends pots i = Some r" by auto
  from Cons.IH [of "if r = 0 \<and> i < n then zero @ [i] else zero"] Cons.prems i show ?case by (auto split: if_splits)
qed simp

lemma push_edges_answers:
  assumes "set zero \<subseteq> {..<length arcs}" "length fills = length arcs" "length arcs \<le> length ends"
  shows "\<exists>edges. fold_checked (push_edges arcs fills ends) zero acc = Some edges"
  using fold_checked_total [of "\<lambda>_. True" acc zero "push_edges arcs fills ends"] assms
  by (force simp: push_edges_def slot_def)

lemma zero_edges_length: "length (plain_zero_edges arcs fills zero ends) \<le> 2 * length zero"
  by (induction zero) (auto simp: plain_zero_edges_def split: prod.splits)

lemma zero_graph_answers:
  assumes "set zero \<subseteq> {..<length arcs}" "length fills = length arcs" "length arcs \<le> length ends"
    "\<forall>(t, h)\<in>set ends. t < n \<and> h < n" "n \<le> NONE" "length zero < 2 ^ 31"
  obtains g where "zero_graph_new arcs fills zero ends n = Some g" "csr_room g n (plain_zero_edges arcs fills zero ends)"
proof -
  let ?es = "plain_zero_edges arcs fills zero ends"
  obtain edges where e: "fold_checked (push_edges arcs fills ends) zero [] = Some edges"
    using push_edges_answers [OF assms(1-3)] by blast
  then have edges: "edges = ?es" using push_edges_plain by fastforce
  have "in_range n ?es"
    unfolding in_range_def
  proof clarify
    fix u v q
    assume "(u, v, q) \<in> set ?es"
    then obtain i where i: "i \<in> set zero" "ends ! i = (u, v) \<or> ends ! i = (v, u)" by (auto simp: zero_edges_iff)
    have "ends ! i \<in> set ends" using i(1) assms(1,3) by (intro nth_mem) auto
    with i(2) assms(4) show "u < n \<and> v < n" by auto
  qed
  moreover have "length ?es < 2 ^ 32" using zero_edges_length [of arcs fills zero ends] assms(6) by simp
  note room = this calculation
  show ?thesis
    by (rule that [of "plain_graph_of_edges ?es n"])
      (use e edges graph_of_edges_eq [OF room(2,1)] plain_graph_room [OF room(2) assms(5) room(1)] in \<open>simp_all add: zero_graph_new_def\<close>)
qed

lemma quantity_check_answers:
  assumes "csr_room g n es" "ready n sr" "s_stamp sr = 0"
    "\<And>t. ta = Some t \<Longrightarrow> (\<exists>r. reduced (arc_at arcs ta) ends pots (length arcs) = Some r) \<and>
       (\<exists>src<n. node_of ns (head t) = Some src) \<and> (\<exists>dst. node_of ns (tail t) = Some dst)"
  shows "\<exists>q. quantity_check arcs ta tf ends pots ns g sr = Some q \<and>
    (\<forall>sr'. q = Inr sr' \<longrightarrow> ready n sr' \<and> s_stamp sr' \<le> 1)"
proof (cases ta)
  case (Some t)
  obtain r src dst where t: "reduced (arc_at arcs ta) ends pots (length arcs) = Some r" "src < n"
    "node_of ns (head t) = Some src" "node_of ns (tail t) = Some dst" using assms(4) [OF Some] by blast
  obtain x where "reaches sr g src dst None = Some x" "\<forall>sr' b. x = Inr (sr', b) \<longrightarrow> ready n sr' \<and> s_stamp sr' = s_stamp sr + 1"
    using csr_room.reaches_answers [OF assms(1,2) t(2)] assms(3) by fastforce
  with t assms(2,3) Some show ?thesis
    by (cases x) (auto simp: quantity_check_def search_taker_def split: if_splits)
qed (simp add: quantity_check_def assms(2,3))

lemma exchange_answers:
  assumes "i < length arcs" "length fills = length arcs" "length arcs \<le> length ends" "\<forall>(t, h)\<in>set ends. t < n \<and> h < n"
    "length scc = n" "length (c_down cs) = n - 1" "length (c_up cs) = n - 1"
  shows "\<exists>x. exchange arcs fills ends scc cs i = Some x \<and> (\<forall>src dst q. x = Some (src, dst, q) \<longrightarrow> src < n)"
proof -
  have "ends ! i \<in> set ends" using assms(1,3) by (intro nth_mem) simp
  then have "fst (ends ! i) < n" "snd (ends ! i) < n" using assms(4) by auto
  with assms show ?thesis
    by (auto simp: exchange_def slot_def passable_def all_newer_def)
qed

lemma fifo_check_answers:
  assumes "csr_room g n es" "length fills = length arcs" "length arcs \<le> length ends" "\<forall>(t, h)\<in>set ends. t < n \<and> h < n"
    "length scc = n" "length (c_down cs) = n - 1" "length (c_up cs) = n - 1"
    and "ready n sr" "s_stamp sr + length zero < 2 ^ 32" "set zero \<subseteq> {..<length arcs}"
  shows "\<exists>r. fifo_check arcs fills ends g scc cs zero sr = Some r"
  using assms(8-10)
proof (induction zero arbitrary: sr)
  case (Cons i zero)
  obtain x where x: "exchange arcs fills ends scc cs i = Some x" "\<forall>src dst q. x = Some (src, dst, q) \<longrightarrow> src < n"
    using exchange_answers [OF _ assms(2-7), of i] Cons.prems(3) by auto
  show ?case
  proof (cases x)
    case None
    with x(1) Cons show ?thesis by simp
  next
    case (Some y)
    obtain src dst q where y: "y = (src, dst, q)" by (cases y)
    have "src < n" "s_stamp sr + 1 < 2 ^ 32" using x(2) Some y Cons.prems(2) by auto
    from csr_room.reaches_answers [OF assms(1) Cons.prems(1) this, of dst "Some q"]
    obtain z where z: "reaches sr g src dst (Some q) = Some z"
      "\<forall>sr' b. z = Inr (sr', b) \<longrightarrow> ready n sr' \<and> s_stamp sr' = s_stamp sr + 1" by blast
    show ?thesis using x(1) Some y z Cons.IH Cons.prems(2,3) by (cases z) auto
  qed
qed simp

lemma check_residual_answers:
  assumes "length fills = length arcs" "length arcs \<le> length ends" "\<forall>(t, h)\<in>set ends. t < n \<and> h < n"
    "n = length (n_positions ns)" "n \<le> NONE" "set zero \<subseteq> {..<length arcs}" "length zero < 2 ^ 31" "lim < 2 ^ 63"
    and "\<And>t. ta = Some t \<Longrightarrow> (\<exists>r. reduced (arc_at arcs ta) ends pots (length arcs) = Some r) \<and>
       (\<exists>src<n. node_of ns (head t) = Some src) \<and> (\<exists>dst. node_of ns (tail t) = Some dst)"
  shows "\<exists>r. check_residual arcs ta fills tf pots ns ends zero lim = Some r"
proof -
  obtain g where g: "zero_graph_new arcs fills zero ends n = Some g" "csr_room g n (plain_zero_edges arcs fills zero ends)"
    by (rule zero_graph_answers [OF assms(6,1,2,3,5,7)])
  have "ready n (search_new n lim)" "s_stamp (search_new n lim) = 0" using assms(8) by (simp_all add: ready_def search_new_def)
  from quantity_check_answers [OF g(2) this assms(9)] obtain q where q: "quantity_check arcs ta tf ends pots ns g (search_new n lim) = Some q"
    "\<forall>sr. q = Inr sr \<longrightarrow> ready n sr \<and> s_stamp sr \<le> 1" by blast
  obtain scc where scc: "components g = Some scc" "length scc = n" using csr_room.components_answers [OF g(2)] by blast
  obtain cs where cs: "cuts_new g = Some cs" "length (c_down cs) = n - 1" "length (c_up cs) = n - 1"
    using csr_room.cuts_new_answers [OF g(2)] by blast
  have "\<exists>r. fifo_check arcs fills ends g scc cs zero sr = Some r" if "q = Inr sr" for sr
    by (rule fifo_check_answers [OF g(2) assms(1-3) scc(2) cs(2,3)]) (use q(2) that assms(6,7) in auto)
  with g(1) q(1) scc(1) cs(1) assms(4) show ?thesis by (cases q) (simp_all add: check_residual_def)
qed

text \<open>The bounds of a book: prices of 63 bits, lots of 64, fewer than \<open>2 ^ 31\<close> arcs, all within the grid.\<close>

definition book_bounded :: "arc list \<Rightarrow> taker option \<Rightarrow> bool" where
  "book_bounded arcs taker \<longleftrightarrow> length arcs < 2 ^ 31 \<and> (\<forall>a\<in>set (book arcs taker). a_price a < 2 ^ 63 \<and> a_cap a < 2 ^ 64)"

lemma ends_facts:
  assumes "grid < U16_MAX" "\<forall>a\<in>set (book arcs taker). a_lo a \<le> grid \<and> a_hi a \<le> grid"
  defines "ns \<equiv> nodes_new arcs taker grid"
  defines "n \<equiv> length (n_positions ns)"
  obtains ends where "fold_checked (push_ends ns) (book arcs taker) [] = Some ends" "length ends = length (book arcs taker)"
    "\<forall>(t, h)\<in>set ends. t < n \<and> h < n" "n \<le> NONE"
    "\<And>a. a \<in> set (book arcs taker) \<Longrightarrow> (\<exists>h<n. node_of ns (head a) = Some h) \<and> (\<exists>t<n. node_of ns (tail a) = Some t)"
proof -
  have E: "endpoints (book arcs taker) \<subseteq> {..grid}" using assms(2) by (auto simp: endpoints_def)
  note N = node_facts [OF assms(1) E, folded ns_def, folded n_def]
  have pos: "tail a \<le> grid" "head a \<le> grid" if "a \<in> set (book arcs taker)" for a
    using ends_in_endpoints [OF that] E by auto
  obtain ends where e: "fold_checked (push_ends ns) (book arcs taker) [] = Some ends"
    using push_ends_answers [of "book arcs taker" grid ns arcs taker "[]"] pos by (auto simp: ns_def)
  have "ends = map (\<lambda>a. (cast 16 (plain_node_of ns (tail a)), cast 16 (plain_node_of ns (head a)))) (book arcs taker)"
    using push_ends_plain [OF e] by simp
  moreover have "node_of ns p = Some (plain_node_of ns p)" if "p \<le> grid" for p
    using that by (simp add: node_of_def plain_node_of_def slot_def ns_def length_index)
  ultimately show ?thesis
    using that [OF e] N(1,3,4) ends_in_endpoints pos by auto
qed

lemma all_fills_answers:
  assumes "book_bounded arcs taker" "length fills = length arcs" "\<forall>i<length arcs. fills ! i \<le> a_cap (arcs ! i)"
    "\<forall>t. taker = Some t \<longrightarrow> tf \<le> a_cap (taker_arc t)" and i: "i < length (book arcs taker)"
  shows "\<exists>m. all_fills arcs fills tf i = Some m \<and> m < 2 ^ 64"
proof (cases "i < length arcs")
  case True
  moreover have "a_cap (arcs ! i) < 2 ^ 64" using True assms(1) by (simp add: book_bounded_def book_def)
  ultimately show ?thesis using assms(2) le_less_trans [OF assms(3) [rule_format, OF True]] by (simp add: all_fills_def slot_def)
next
  case False
  then obtain t where t: "taker = Some t" using i by (auto simp: book_def split: option.splits)
  then have "a_cap (taker_arc t) < 2 ^ 64" using assms(1) by (simp add: book_bounded_def book_def)
  with le_less_trans [OF assms(4) [rule_format, OF t]] False show ?thesis by (simp add: all_fills_def)
qed

lemma check_prices_answers:
  assumes "book_bounded arcs taker" "grid < U16_MAX" "length fills = length arcs" "\<forall>p\<in>set pots. in_int 64 p" "lim < 2 ^ 63"
    "\<forall>a\<in>set (book arcs taker). a_lo a \<le> grid \<and> a_hi a \<le> grid"
    "\<forall>i<length arcs. fills ! i \<le> a_cap (arcs ! i)" "\<forall>t. taker = Some t \<longrightarrow> tf \<le> a_cap (taker_arc t)"
    "length pots = length (n_positions (nodes_new arcs taker grid))"
  defines "ns \<equiv> nodes_new arcs taker grid" and "ta \<equiv> map_option taker_arc taker"
  shows "\<exists>r. check_prices arcs ta fills tf pots ns lim = Some r"
proof -
  define n where "n = length (n_positions ns)"
  let ?all = "book arcs taker" and ?fill = "all_fills arcs fills tf" and ?arc = "arc_at arcs ta"
  obtain ends where ends: "fold_checked (push_ends ns) ?all [] = Some ends" "length ends = length ?all"
    "\<forall>(t, h)\<in>set ends. t < n \<and> h < n" "n \<le> NONE"
    "\<And>a. a \<in> set ?all \<Longrightarrow> (\<exists>h<n. node_of ns (head a) = Some h) \<and> (\<exists>t<n. node_of ns (tail a) = Some t)"
    using ends_facts [OF assms(2,6)] unfolding ns_def n_def by blast
  have all: "arcs @ (case ta of None \<Rightarrow> [] | Some t \<Rightarrow> [t]) = ?all" by (simp add: book_def ta_def split: option.split)
  have len: "length arcs \<le> length ends" "length ends \<le> length arcs + 1" using ends(2) by (auto simp: book_def split: option.split)
  have arc: "?arc i = Some (?all ! i)" if "i < length ends" for i
    using that ends(2) by (auto simp: arc_at_def slot_def ta_def book_def nth_append split: option.splits)
  have fill: "\<exists>m. ?fill i = Some m \<and> m < 2 ^ 64" if "i < length ends" for i
    using all_fills_answers [OF assms(1,3,7,8)] that ends(2) by simp
  have red: "\<exists>r. reduced ?arc ends pots i = Some r" if i: "i < length ends" for i
  proof (rule reduced_answers [of ?arc i, OF arc [OF i] _ i])
    have "ends ! i \<in> set ends" using i by simp
    then show "fst (ends ! i) < length pots" "snd (ends ! i) < length pots"
      using ends(3) assms(9) by (auto simp: n_def ns_def)
    show "a_price (?all ! i) < 2 ^ 63" using i ends(2) assms(1) by (simp add: book_bounded_def)
  qed (rule assms(4))
  have "\<exists>net. fold_checked (move_lots ?fill) (enumerate 0 ends) (replicate n 0) = Some net"
  proof (rule balance_answers [where B = "2 ^ 65 * int (length ends)"])
    show "\<forall>(i, t, h)\<in>set (enumerate 0 ends). (\<exists>m. ?fill i = Some m \<and> m < 2 ^ 64) \<and>
        t < length (replicate n (0 :: int)) \<and> h < length (replicate n (0 :: int))"
      using fill ends(3) by (force simp: in_set_enumerate_eq dest: nth_mem)
    show "2 ^ 65 * int (length ends) < 2 ^ 127" using len(2) assms(1) by (simp add: book_bounded_def)
  qed simp
  then obtain net where net: "balance ends ?fill n = Some net" by (auto simp: balance_def)
  obtain priced where priced: "price_check ?arc ?fill ends pots (length arcs) [0..<length ends] [] = Some priced"
    "\<forall>zero. priced = Inr zero \<longrightarrow> set zero \<subseteq> {..<length arcs} \<and> length zero \<le> length (filter (\<lambda>i. i < length arcs) [0..<length ends])"
    using price_check_answers [of "[0..<length ends]" ?arc ?fill ends pots "length arcs" "[]"] arc fill red by fastforce
  have "\<exists>r. check_residual arcs ta fills tf pots ns ends zero lim = Some r" if zero: "priced = Inr zero" for zero
  proof (rule check_residual_answers [OF assms(3) len(1) ends(3) n_def ends(4) _ _ assms(5)])
    have "filter (\<lambda>i. i < length arcs) [0..<length ends] = [0..<length arcs]" using len by (auto simp: le_Suc_eq)
    with priced(2) zero assms(1) show "set zero \<subseteq> {..<length arcs}" "length zero < 2 ^ 31" by (auto simp: book_bounded_def)
    show "(\<exists>r. reduced ?arc ends pots (length arcs) = Some r) \<and> (\<exists>src<n. node_of ns (head t) = Some src) \<and> (\<exists>dst. node_of ns (tail t) = Some dst)"
      if "ta = Some t" for t
    proof -
      have "t \<in> set ?all" "length arcs < length ends" using that ends(2) by (auto simp: ta_def book_def)
      with red ends(5) show ?thesis by blast
    qed
  qed
  with ends(1) net priced(1) show ?thesis
    unfolding check_prices_def all n_def [symmetric] by (cases priced) (auto split: option.split)
qed

subsection \<open>What acceptance promises\<close>

text \<open>A book for the witnesses: two bids of five lots at 10 over \<open>[0, 2)\<close>, and a seller of six at 8.\<close>

definition sample_arcs :: "arc list" where
  "sample_arcs =
     [\<lparr>a_id = Order 0, a_side = Long, a_lo = 0, a_hi = 2, a_price = 10, a_cap = 5, a_rank = 1\<rparr>,
      \<lparr>a_id = Order 1, a_side = Long, a_lo = 0, a_hi = 2, a_price = 10, a_cap = 5, a_rank = 2\<rparr>]"

definition sample_taker :: taker where
  "sample_taker = \<lparr>tk_side = Short, tk_lo = 0, tk_hi = 2, tk_limit = 8, tk_qty = 6\<rparr>"

lemma sample_accepted:
  "verify sample_arcs (Some sample_taker) [5, 1] 6 [10, 0] 4 1000 = Some (Inr 0)"
  "verify sample_arcs (Some sample_taker) [5, 1] 6 [15, 5] 4 2000 = Some (Inr 0)"
  by code_simp+

lemma sample_book:
  "(4::nat) < U16_MAX" "\<forall>a\<in>set (book sample_arcs (Some sample_taker)). a_price a < 2 ^ 63"
  "distinct (map a_rank (book sample_arcs (Some sample_taker)))"
  by (simp_all add: book_def sample_arcs_def sample_taker_def taker_arc_def)

lemmas sample_facts = sample_accepted(1) sample_book(1,2)

lemma sample_list: "book sample_arcs (Some sample_taker) = sample_arcs @ [taker_arc sample_taker]"
  "package fills (Some sample_taker) tf = fills @ [tf]"
  by (simp_all add: book_def package_def)

lemma sample_other: "feasible (book sample_arcs (Some sample_taker)) (package [4, 2] (Some sample_taker) 6)"
  "package_cost (book sample_arcs (Some sample_taker)) (package [4, 2] (Some sample_taker) 6) =
   package_cost (book sample_arcs (Some sample_taker)) (package [5, 1] (Some sample_taker) 6)"
proof -
  have "{..<length (sample_arcs @ [taker_arc sample_taker])} = {0, 1, 2}"
    by (auto simp: sample_arcs_def)
  note N = this
  have T: "taker_arc sample_taker = \<lparr>a_id = Order U16_MAX, a_side = Short, a_lo = 0, a_hi = 2, a_price = 8, a_cap = 6, a_rank = 2 ^ 128 - 1\<rparr>"
    by (simp add: taker_arc_def sample_taker_def)
  show "package_cost (book sample_arcs (Some sample_taker)) (package [4, 2] (Some sample_taker) 6) =
     package_cost (book sample_arcs (Some sample_taker)) (package [5, 1] (Some sample_taker) 6)"
    unfolding package_cost_def sample_list N unfolding T sample_arcs_def by (simp add: arc_cost_def)
  have "balanced (book sample_arcs (Some sample_taker)) (package [4, 2] (Some sample_taker) 6)"
    unfolding balanced_def surplus_def sample_list N unfolding T sample_arcs_def by (simp add: head_def tail_def)
  moreover have "\<forall>i<3. ([4, 2, 6] :: nat list) ! i \<le> a_cap ((sample_arcs @ [taker_arc sample_taker]) ! i)"
    by (simp add: sample_arcs_def T numeral_3_eq_3 less_Suc_eq all_conj_distrib imp_conv_disj nth_Cons')
  ultimately show "feasible (book sample_arcs (Some sample_taker)) (package [4, 2] (Some sample_taker) 6)"
    unfolding feasible_def sample_list by (simp add: sample_arcs_def numeral_3_eq_3)
qed

text \<open>
  C8. Price and quantity (rules 1 and 2 of the matching): on a grid below 65,535 steps and with prices below
  \<open>2 ^ 63\<close> (neither is checked here), whatever potentials are submitted, a package the
  on-chain check accepts is feasible for the whole book (each arc within its lots, balanced at every grid
  position), no feasible package costs less with the taker at its limit, and among the feasible packages
  of that cost none fills the taker more.
\<close>

theorem accepted_package_is_cheapest:
  assumes "verify arcs taker fills tf pots grid lim = Some (Inr w)" "grid < U16_MAX"
    "\<forall>a\<in>set (book arcs taker). a_price a < 2 ^ 63"
  shows "feasible (book arcs taker) (package fills taker tf) \<and>
    (\<forall>y. feasible (book arcs taker) y \<longrightarrow>
       package_cost (book arcs taker) (package fills taker tf) \<le> package_cost (book arcs taker) y \<and>
       (package_cost (book arcs taker) (package fills taker tf) = package_cost (book arcs taker) y \<longrightarrow>
          taker \<noteq> None \<longrightarrow> y ! length arcs \<le> tf))"
proof -
  obtain nd pot where C: "certified (book arcs taker) (length arcs) (package fills taker tf) nd pot"
    by (rule verify_certified [OF assms])
  have "y ! length arcs \<le> tf" if y: "feasible (book arcs taker) y" "taker \<noteq> None"
    "package_cost (book arcs taker) (package fills taker tf) = package_cost (book arcs taker) y" for y
    using certified_quantity [OF C y(1,3)] y(2) verify_shapes(1) [OF assms(1)]
    by (auto simp: book_def package_def nth_append)
  with C certified_cheapest(1) [OF C] show ?thesis by (auto simp: certified_def)
qed

theorem accepted_package_is_cheapest_witness:
  "package_cost (book sample_arcs (Some sample_taker)) (package [5, 1] (Some sample_taker) 6) \<le> package_cost (book sample_arcs (Some sample_taker)) (package [4, 2] (Some sample_taker) 6)"
  using accepted_package_is_cheapest [OF sample_facts] sample_other(1) by blast

text \<open>
  C10. Time priority (rule 3), on a grid below 65,535 steps and with prices below \<open>2 ^ 63\<close>: against any other feasible package of the same cost and taker fill, the accepted
  package fills the oldest arc on which they differ more.
\<close>

theorem accepted_package_is_fifo:
  assumes "verify arcs taker fills tf pots grid lim = Some (Inr w)" "grid < U16_MAX"
    "\<forall>a\<in>set (book arcs taker). a_price a < 2 ^ 63"
    and "feasible (book arcs taker) (package ys taker tf)" "length ys = length arcs"
    "package_cost (book arcs taker) (package ys taker tf) = package_cost (book arcs taker) (package fills taker tf)"
    and "i < length arcs" "ys ! i \<noteq> fills ! i"
    "\<forall>j<length arcs. j \<noteq> i \<longrightarrow> ys ! j \<noteq> fills ! j \<longrightarrow> a_rank (arcs ! i) < a_rank (arcs ! j)"
  shows "ys ! i < fills ! i"
proof -
  obtain nd pot where C: "certified (book arcs taker) (length arcs) (package fills taker tf) nd pot"
    by (rule verify_certified [OF assms(1-3)])
  note len = verify_shapes(1) [OF assms(1)]
  have nth: "package zs taker tf ! j = (if j < length arcs then zs ! j else tf)" "j < length arcs \<Longrightarrow> book arcs taker ! j = arcs ! j"
    if "length zs = length arcs" "j < length (book arcs taker)" for zs j
    using that by (auto simp: package_def book_def nth_append split: option.splits)
  have "package ys taker tf ! i < package fills taker tf ! i"
    by (rule certified_fifo [OF C assms(4)]) (use assms(5-9) nth len in \<open>auto simp: book_def nth_append split: if_splits\<close>)
  with assms(5,7) len show ?thesis by (simp add: package_def nth_append)
qed

theorem accepted_package_is_fifo_witness:
  "verify sample_arcs (Some sample_taker) [5, 1] 6 [10, 0] 4 1000 = Some (Inr 0) \<and>
   feasible (book sample_arcs (Some sample_taker)) (package [4, 2] (Some sample_taker) 6) \<and>
   [4, 2] ! 0 < ([5, 1] :: u64 list) ! 0"
proof (intro conjI)
  show "[4, 2] ! 0 < ([5, 1] :: u64 list) ! 0"
    by (rule accepted_package_is_fifo [OF sample_facts sample_other(1) _ sample_other(2)])
      (simp_all add: sample_arcs_def nth_Cons' less_Suc_eq)
qed (fact sample_accepted(1) sample_other(1))+

text \<open>
  C9. Determinism: on a grid below 65,535 steps, in a book of distinct ranks and prices below \<open>2 ^ 63\<close>, the book
  alone fixes the package. Two accepted submissions for the same book and taker, with any potentials and work
  limits, fill every arc and the taker alike.
\<close>

theorem accepted_package_is_unique:
  assumes "verify arcs taker fills tf pots grid lim = Some (Inr w)"
    "verify arcs taker fills' tf' pots' grid lim' = Some (Inr w')" "grid < U16_MAX"
    "\<forall>a\<in>set (book arcs taker). a_price a < 2 ^ 63"
    and "distinct (map a_rank (book arcs taker))"
  shows "fills = fills' \<and> tf = tf'"
proof -
  obtain nd pot nd' pot' where "certified (book arcs taker) (length arcs) (package fills taker tf) nd pot"
    "certified (book arcs taker) (length arcs) (package fills' taker tf') nd' pot'"
    using verify_certified [OF assms(1,3,4)] verify_certified [OF assms(2,3,4)] by metis
  moreover have "inj_on (\<lambda>i. a_rank (book arcs taker ! i)) {..<length (book arcs taker)}"
    using assms(5) by (auto simp: distinct_map inj_on_def distinct_conv_nth dest: nth_mem)
  ultimately have "package fills taker tf = package fills' taker tf'" by (rule certified_unique)
  with verify_shapes(1,3) [OF assms(1)] verify_shapes(1,3) [OF assms(2)] show ?thesis
    by (auto simp: package_def split: option.splits)
qed

theorem accepted_package_is_unique_witness:
  "verify sample_arcs (Some sample_taker) [5, 1] 6 [10, 0] 4 1000 = Some (Inr 0) \<and>
   (\<nexists>pots lim w. verify sample_arcs (Some sample_taker) [4, 2] 6 pots 4 lim = Some (Inr w))"
proof -
  have "[5, 1] = fills" if "verify sample_arcs (Some sample_taker) fills tf pots 4 lim = Some (Inr w)" for fills tf pots lim w
    using accepted_package_is_unique [OF sample_accepted(1) that sample_book] by simp
  with sample_accepted(1) show ?thesis by fastforce
qed

text \<open>
  C11. On a grid below 65,535 steps and with prices below \<open>2 ^ 63\<close>, long and short lots of an accepted package match at every step of the grid, so that every set it
  creates is complete.
\<close>

theorem accepted_package_covers_each_step:
  assumes "verify arcs taker fills tf pots grid lim = Some (Inr w)" "grid < U16_MAX"
    "\<forall>a\<in>set (book arcs taker). a_price a < 2 ^ 63"
  shows "covered Long s (book arcs taker) (package fills taker tf) = covered Short s (book arcs taker) (package fills taker tf)"
proof -
  obtain nd pot where "certified (book arcs taker) (length arcs) (package fills taker tf) nd pot"
    by (rule verify_certified [OF assms])
  then show ?thesis
    using verify_shapes(2) [OF assms(1)] by (intro balanced_covered) (auto simp: certified_def feasible_def)
qed

theorem accepted_package_covers_each_step_witness:
  "covered Long 1 (book sample_arcs (Some sample_taker)) (package [5, 1] (Some sample_taker) 6) = covered Short 1 (book sample_arcs (Some sample_taker)) (package [5, 1] (Some sample_taker) 6)"
  by (rule accepted_package_covers_each_step [OF sample_facts])

subsection \<open>The taker's price\<close>

lemma net_cost_sum:
  assumes "fold_checked add_cost ams net0 = Some net" "\<forall>(a, m)\<in>set ams. a_price a < 2 ^ 63"
  shows "net = net0 + (\<Sum>(a, m)\<leftarrow>ams. arc_cost a * int m)"
  using assms
proof (induction ams arbitrary: net0)
  case (Cons am ams)
  then obtain net1 where n: "add_cost am net0 = Some net1" "fold_checked add_cost ams net1 = Some net"
    by (auto simp: option_bind_eq_Some)
  have "net1 = net0 + arc_cost (fst am) * int (snd am)"
    using n(1) Cons.prems(2) by (auto simp: add_cost_def checked_simps cost_arc_cost split_beta)
  with Cons.IH [OF n(2)] Cons.prems(2) show ?case by (simp add: split_beta)
qed simp

lemma net_cost_answers:
  assumes "\<bar>net0\<bar> + (\<Sum>(a, m)\<leftarrow>ams. int (a_price a) * int m) < 2 ^ 127" "\<forall>(a, m)\<in>set ams. a_price a < 2 ^ 63"
  shows "\<exists>net. fold_checked add_cost ams net0 = Some net \<and> \<bar>net\<bar> < 2 ^ 127"
  using assms
proof (induction ams arbitrary: net0)
  case (Cons am ams)
  obtain a m where am: "am = (a, m)" by (cases am)
  let ?x = "arc_cost a * int m"
  have x: "\<bar>?x\<bar> = int (a_price a) * int m" by (simp add: arc_cost_def abs_mult split: side.split)
  have nonneg: "0 \<le> (\<Sum>(a, m)\<leftarrow>ams. int (a_price a) * int m)" by (rule sum_list_nonneg) auto
  have le: "\<bar>net0\<bar> + \<bar>?x\<bar> + (\<Sum>(a, m)\<leftarrow>ams. int (a_price a) * int m) < 2 ^ 127" using Cons.prems(1) by (simp add: am x)
  then have "in_int 128 ?x" "in_int 128 (net0 + ?x)" using nonneg by (auto simp: in_int_def)
  then have "add_cost am net0 = Some (net0 + ?x)"
    using Cons.prems(2) by (simp add: add_cost_def am cost_arc_cost checked_int_def)
  moreover have "\<exists>net. fold_checked add_cost ams (net0 + ?x) = Some net \<and> \<bar>net\<bar> < 2 ^ 127"
    by (rule Cons.IH) (use le Cons.prems(2) in auto)
  ultimately show ?case by auto
qed simp

lemma sum_list_zip:
  "length fills = length arcs \<Longrightarrow> (\<Sum>(a, m)\<leftarrow>zip arcs fills. f a m) = (\<Sum>i<length arcs. f (arcs ! i) (fills ! i))"
  by (simp add: sum_list_sum_nth atLeast0LessThan)

text \<open>
  C12. The taker trades at its limit or better: for an accepted package over a grid below 65,535 steps and prices below
  \<open>2 ^ 63\<close>, the premium the fills amount to, where it is computed, is at most the limit times the lots for a long taker
  and at least that for a short one; and it is computed, without overflow of \<open>i128\<close>, where price times lots over the
  filled arcs stay below \<open>2 ^ 127\<close> in all.
\<close>

theorem taker_trades_within_its_limit:
  assumes "verify arcs (Some t) fills tf pots grid lim = Some (Inr w)" "grid < U16_MAX"
    "\<forall>a\<in>set (book arcs (Some t)). a_price a < 2 ^ 63"
  shows "(\<forall>premium. taker_premium (tk_side t) arcs fills = Some premium \<longrightarrow>
      (case tk_side t of Long \<Rightarrow> premium \<le> int (tk_limit t) * int tf | Short \<Rightarrow> int (tk_limit t) * int tf \<le> premium)) \<and>
    ((\<Sum>(a, m)\<leftarrow>zip arcs fills. int (a_price a) * int m) < 2 ^ 127 \<longrightarrow>
      (\<exists>premium. taker_premium (tk_side t) arcs fills = Some premium))"
proof (intro conjI allI impI)
  obtain nd pot where C: "certified (book arcs (Some t)) (length arcs) (package fills (Some t) tf) nd pot"
    by (rule verify_certified [OF assms])
  note len = verify_shapes(1) [OF assms(1)]
  have prices: "\<forall>(a, m)\<in>set (zip arcs fills). a_price a < 2 ^ 63"
    using assms(3) by (auto simp: book_def dest: set_zip_leftD)
  have le: "package_cost (book arcs (Some t)) (package fills (Some t) tf) \<le> 0"
    using certified_cheapest(1) [OF C feasible_none] by (simp add: package_cost_def)
  show "case tk_side t of Long \<Rightarrow> premium \<le> int (tk_limit t) * int tf | Short \<Rightarrow> int (tk_limit t) * int tf \<le> premium"
    if h: "taker_premium (tk_side t) arcs fills = Some premium" for premium
  proof -
    obtain net where net: "net_cost (zip arcs fills) = Some net" "premium = (case tk_side t of Long \<Rightarrow> net | Short \<Rightarrow> - net)"
      using h by (cases "tk_side t") (auto simp: taker_premium_def checked_simps)
    from net_cost_sum [OF net(1) [unfolded net_cost_def] prices]
    have "net = (\<Sum>i<length arcs. arc_cost (arcs ! i) * int (fills ! i))" by (simp add: sum_list_zip [OF len])
    with le net(2) package_cost_taker [OF len, of t tf] show ?thesis
      by (cases "tk_side t") (auto simp: arc_cost_def taker_arc_def)
  qed
  assume "(\<Sum>(a, m)\<leftarrow>zip arcs fills. int (a_price a) * int m) < 2 ^ 127"
  with net_cost_answers [of 0 "zip arcs fills"] prices
  obtain net where "net_cost (zip arcs fills) = Some net" "\<bar>net\<bar> < 2 ^ 127" by (auto simp: net_cost_def)
  then show "\<exists>premium. taker_premium (tk_side t) arcs fills = Some premium"
    by (cases "tk_side t") (auto simp: taker_premium_def checked_int_def in_int_def)
qed

theorem taker_trades_within_its_limit_witness:
  "\<exists>premium. taker_premium Short sample_arcs [5, 1] = Some premium \<and> 48 \<le> premium"
proof -
  have "(\<Sum>(a, m)\<leftarrow>zip sample_arcs [5, 1]. int (a_price a) * int m) < 2 ^ 127" by (simp add: sample_arcs_def)
  with taker_trades_within_its_limit [OF sample_facts] show ?thesis by (auto simp: sample_taker_def)
qed

text \<open>
  C13. The check never aborts: over a grid below 65,535 steps, on a book of fewer than \<open>2 ^ 31\<close> arcs with prices below
  \<open>2 ^ 63\<close> and lots below \<open>2 ^ 64\<close>, every submission of fills and \<open>i64\<close> potentials, of whatever lengths, under a work limit
  below \<open>2 ^ 63\<close> is answered, accepted or refused with an error: no index falls outside its vector and no counter or
  sum overflows.
\<close>

theorem verify_always_answers:
  assumes "grid < U16_MAX" "book_bounded arcs taker" "\<forall>p\<in>set pots. in_int 64 p" "lim < 2 ^ 63"
  shows "\<exists>answer. verify arcs taker fills tf pots grid lim = Some answer"
proof (cases "length fills = length arcs")
  case len: True
  then obtain bad where bad: "shape_check grid 0 arcs fills = Some bad" using shape_check_answers [of 0 arcs fills grid] by auto
  let ?refused = "case taker of Some t \<Rightarrow> bad_shape grid (taker_arc t) tf | None \<Rightarrow> tf \<noteq> 0"
  have "\<exists>r. check_prices arcs (map_option taker_arc taker) fills tf pots (nodes_new arcs taker grid) lim = Some r"
    if ok: "bad = None" "\<not> ?refused" "length pots = length (n_positions (nodes_new arcs taker grid))"
  proof (rule check_prices_answers [OF assms(2,1) len assms(3,4) _ _ _ ok(3)])
    have shape: "\<not> bad_shape grid (arcs ! i) (fills ! i)" if "i < length arcs" for i
      using shape_check_plain [OF bad] ok(1) that by (auto simp: find_None_iff)
    show "\<forall>i<length arcs. fills ! i \<le> a_cap (arcs ! i)" using shape by (auto simp: bad_shape_def not_less)
    show "\<forall>t. taker = Some t \<longrightarrow> tf \<le> a_cap (taker_arc t)" using ok(2) by (auto simp: bad_shape_def)
    show "\<forall>a\<in>set (book arcs taker). a_lo a \<le> grid \<and> a_hi a \<le> grid"
      using shape ok(2) by (fastforce simp: book_def bad_shape_def in_set_conv_nth split: option.splits)
  qed
  with len bad show ?thesis by (auto simp: verify_def Let_def split: option.split)
qed (simp add: verify_def)

theorem verify_always_answers_witness:
  "\<exists>answer. verify sample_arcs (Some sample_taker) [4, 2] 6 [10] 4 1000 = Some answer"
  by (rule verify_always_answers)
    (simp_all add: book_bounded_def in_int_def book_def sample_arcs_def sample_taker_def taker_arc_def)

end
