(* ===== verification/Byte_Store.thy ===== *)
theory Byte_Store
  imports Rust_Base "HOL-Library.Multiset"
begin

text \<open>
  Account data as bytes: the little-endian readers and writers of \<open>programs/futures/src/state.rs\<close>. A slice
  out of range aborts the instruction, so every access returns an option. A record's \<open>write\<close> is the list of
  the places it puts bytes at, in the order of the source; its \<open>read\<close> gets them back one by one. The locale
  at the end is what the arena and account records share: how a record's bytes stay its own.
\<close>

type_synonym bytes = "byte list"
type_synonym field = "usize \<times> bytes"

definition sub_bytes :: "bytes \<Rightarrow> usize \<Rightarrow> usize \<Rightarrow> bytes option" where
  "sub_bytes b at n = (if at + n \<le> length b then Some (take n (drop at b)) else None)"

definition u8_at :: "bytes \<Rightarrow> usize \<Rightarrow> u8 option" where
  "u8_at b at = map_option from_le (sub_bytes b at 1)"

definition u16_at :: "bytes \<Rightarrow> usize \<Rightarrow> u16 option" where
  "u16_at b at = map_option from_le (sub_bytes b at 2)"

definition u32_at :: "bytes \<Rightarrow> usize \<Rightarrow> u32 option" where
  "u32_at b at = map_option from_le (sub_bytes b at 4)"

definition u64_at :: "bytes \<Rightarrow> usize \<Rightarrow> u64 option" where
  "u64_at b at = map_option from_le (sub_bytes b at 8)"

definition i64_at :: "bytes \<Rightarrow> usize \<Rightarrow> i64 option" where
  "i64_at b at = map_option (\<lambda>w. as_signed 64 (from_le w)) (sub_bytes b at 8)"

definition u128_at :: "bytes \<Rightarrow> usize \<Rightarrow> u128 option" where
  "u128_at b at = map_option from_le (sub_bytes b at 16)"

definition key_at :: "bytes \<Rightarrow> usize \<Rightarrow> pubkey option" where
  "key_at b at = sub_bytes b at 32"

definition put8 :: "usize \<Rightarrow> u8 \<Rightarrow> field" where
  "put8 at v = (at, to_le 1 v)"

definition put16 :: "usize \<Rightarrow> u16 \<Rightarrow> field" where
  "put16 at v = (at, to_le 2 v)"

definition put32 :: "usize \<Rightarrow> u32 \<Rightarrow> field" where
  "put32 at v = (at, to_le 4 v)"

definition put64 :: "usize \<Rightarrow> u64 \<Rightarrow> field" where
  "put64 at v = (at, to_le 8 v)"

definition puti64 :: "usize \<Rightarrow> i64 \<Rightarrow> field" where
  "puti64 at v = (at, to_le 8 (unsigned_of 64 v))"

definition put128 :: "usize \<Rightarrow> u128 \<Rightarrow> field" where
  "put128 at v = (at, to_le 16 v)"

definition put_key :: "usize \<Rightarrow> pubkey \<Rightarrow> field" where
  "put_key at k = (at, k)"

text \<open>\<open>b[at..at + n].fill(0)\<close> and \<open>b[at..].copy_from_slice\<close> of a constant.\<close>

definition fill_zero :: "usize \<Rightarrow> usize \<Rightarrow> field" where
  "fill_zero at n = (at, replicate n 0)"

definition put_bytes :: "usize \<Rightarrow> bytes \<Rightarrow> field" where
  "put_bytes at bs = (at, bs)"

definition put_field :: "field \<Rightarrow> bytes \<Rightarrow> bytes option" where
  "put_field f b = (case f of (at, bs) \<Rightarrow>
     if at + length bs \<le> length b then Some (take at b @ bs @ drop (at + length bs) b) else None)"

fun puts :: "field list \<Rightarrow> bytes \<Rightarrow> bytes option" where
  "puts [] b = Some b"
| "puts (f # fs) b = do { b \<leftarrow> put_field f b; puts fs b }"

lemmas at_defs = u8_at_def u16_at_def u32_at_def u64_at_def i64_at_def u128_at_def key_at_def

lemmas put_defs = put8_def put16_def put32_def put64_def puti64_def put128_def put_key_def fill_zero_def put_bytes_def

subsection \<open>Places that do not meet\<close>

definition apart :: "usize \<times> usize \<Rightarrow> usize \<times> usize \<Rightarrow> bool" where
  "apart p q \<longleftrightarrow> fst p + snd p \<le> fst q \<or> fst q + snd q \<le> fst p"

abbreviation place :: "field \<Rightarrow> usize \<times> usize" where
  "place f \<equiv> (fst f, length (snd f))"

fun disjoint_fields :: "field list \<Rightarrow> bool" where
  "disjoint_fields [] = True"
| "disjoint_fields (f # fs) = ((\<forall>g\<in>set fs. apart (place f) (place g)) \<and> disjoint_fields fs)"

definition within :: "usize \<Rightarrow> usize \<Rightarrow> field \<Rightarrow> bool" where
  "within at n f \<longleftrightarrow> at \<le> fst f \<and> fst f + length (snd f) \<le> at + n"

text \<open>Fields one after the other do not meet; sorting by offset is how a layout is checked.\<close>

fun ordered :: "field list \<Rightarrow> bool" where
  "ordered (f # g # fs) = (fst f + length (snd f) \<le> fst g \<and> ordered (g # fs))"
| "ordered _ = True"

lemma ordered_head: "ordered (f # fs) \<Longrightarrow> \<forall>g\<in>set fs. fst f + length (snd f) \<le> fst g"
  by (induction fs arbitrary: f) (fastforce)+

lemma ordered_disjoint: "ordered fs \<Longrightarrow> disjoint_fields fs"
proof (induction fs)
  case (Cons f fs)
  then have "ordered fs" by (cases fs) auto
  with Cons.IH ordered_head [OF Cons.prems] show ?case by (auto simp: apart_def)
qed simp

lemma disjoint_fields_remove1:
  "f \<in> set fs \<Longrightarrow> disjoint_fields fs \<longleftrightarrow> disjoint_fields (f # remove1 f fs)"
proof (induction fs)
  case (Cons g fs)
  show ?case
  proof (cases "f = g")
    case False
    with Cons.prems have "f \<in> set fs" by simp
    moreover from this have "set fs = insert f (set (remove1 f fs))"
      by (metis list.simps(15) mset_remove1 insert_DiffM mset.simps(2) set_mset_mset)
    ultimately show ?thesis using Cons.IH False by (auto simp: apart_def)
  qed simp
qed simp

lemma disjoint_fields_perm: "mset fs = mset gs \<Longrightarrow> disjoint_fields fs \<longleftrightarrow> disjoint_fields gs"
proof (induction fs arbitrary: gs)
  case (Cons f fs)
  then have f: "f \<in> set gs" and rest: "mset fs = mset (remove1 f gs)"
    by (metis list.set_intros(1) set_mset_mset) (metis Cons.prems add_mset_remove_trivial mset.simps(2) mset_remove1)
  have "set fs = set (remove1 f gs)" using rest by (metis set_mset_mset)
  with Cons.IH [OF rest] show ?case by (simp add: disjoint_fields_remove1 [OF f])
qed simp

lemma disjoint_fieldsI: "ordered (sort_key fst fs) \<Longrightarrow> disjoint_fields fs"
  using ordered_disjoint disjoint_fields_perm [of "sort_key fst fs" fs] by simp

lemma put_field_length: "put_field f b = Some b' \<Longrightarrow> length b' = length b"
  by (auto simp: put_field_def split: prod.splits if_splits)

lemma puts_length: "puts fs b = Some b' \<Longrightarrow> length b' = length b"
proof (induction fs arbitrary: b)
  case (Cons f fs)
  then obtain c where c: "put_field f b = Some c" "puts fs c = Some b'" by (auto simp: checked_simps)
  from Cons.IH [OF c(2)] put_field_length [OF c(1)] show ?case by simp
qed simp

lemma puts_total:
  assumes "\<forall>f\<in>set fs. fst f + length (snd f) \<le> length b"
  obtains b' where "puts fs b = Some b'"
proof -
  have "\<exists>b'. puts fs b = Some b'"
    using assms
  proof (induction fs arbitrary: b)
    case (Cons f fs)
    then have "fst f + length (snd f) \<le> length b" by simp
    then obtain c where c: "put_field f b = Some c" by (cases f) (auto simp: put_field_def)
    have "\<forall>g\<in>set fs. fst g + length (snd g) \<le> length c"
      using Cons.prems put_field_length [OF c] by simp
    with Cons.IH obtain b' where "puts fs c = Some b'" by blast
    with c show ?case by simp
  qed simp
  with that show thesis by blast
qed

lemma puts_append: "puts (fs @ gs) b = do { b \<leftarrow> puts fs b; puts gs b }"
proof (induction fs arbitrary: b)
  case (Cons f fs)
  then show ?case by (cases "put_field f b") auto
qed simp

lemma put_field_get:
  assumes "put_field (at, bs) b = Some b'"
  shows "sub_bytes b' at (length bs) = Some bs"
  using assms by (auto simp: put_field_def sub_bytes_def split: if_splits)

lemma put_field_frame:
  assumes "put_field f b = Some b'" "apart (place f) (p, n)"
  shows "sub_bytes b' p n = sub_bytes b p n"
proof -
  obtain at bs where f: "f = (at, bs)" by (cases f)
  have b': "at + length bs \<le> length b" "b' = take at b @ bs @ drop (at + length bs) b"
    using assms(1) by (auto simp: f put_field_def split: if_splits)
  have nth: "b' ! i = (if i < at then b ! i else if i < at + length bs then bs ! (i - at) else b ! i)"
    if "i < length b" for i
    using that b' by (auto simp: nth_append)
  have len: "length b' = length b" using b' by simp
  show ?thesis
  proof (cases "p + n \<le> length b")
    case True
    have "take n (drop p b') = take n (drop p b)"
    proof (rule nth_equalityI)
      show "length (take n (drop p b')) = length (take n (drop p b))" using len by simp
      fix i
      assume "i < length (take n (drop p b'))"
      then have i: "i < n" "p + i < length b" using len True by auto
      then show "take n (drop p b') ! i = take n (drop p b) ! i"
        using nth [OF i(2)] assms(2) True len by (auto simp: apart_def f)
    qed
    with len show ?thesis by (simp add: sub_bytes_def)
  qed (simp add: sub_bytes_def len)
qed

lemma puts_frame:
  assumes "puts fs b = Some b'" "\<forall>f\<in>set fs. apart (place f) (p, n)"
  shows "sub_bytes b' p n = sub_bytes b p n"
  using assms
proof (induction fs arbitrary: b)
  case (Cons f fs)
  then obtain c where c: "put_field f b = Some c" "puts fs c = Some b'" by (auto simp: checked_simps)
  from Cons.IH [OF c(2)] put_field_frame [OF c(1)] Cons.prems(2) show ?case by simp
qed simp

text \<open>Of fields that do not meet, each reads back as it was put.\<close>

lemma puts_get:
  assumes "puts fs b = Some b'" "disjoint_fields fs" "(at, bs) \<in> set fs"
  shows "sub_bytes b' at (length bs) = Some bs"
  using assms
proof (induction fs arbitrary: b)
  case (Cons f fs)
  then obtain c where c: "put_field f b = Some c" "puts fs c = Some b'" by (auto simp: checked_simps)
  show ?case
  proof (cases "(at, bs) \<in> set fs")
    case True
    with Cons c show ?thesis by simp
  next
    case False
    with Cons.prems(3) have f: "f = (at, bs)" by simp
    have "sub_bytes b' at (length bs) = sub_bytes c at (length bs)"
      by (rule puts_frame [OF c(2)]) (use Cons.prems(2) f in \<open>auto simp: apart_def\<close>)
    with put_field_get c(1) show ?thesis by (simp add: f)
  qed
qed simp

lemma as_signed_unsigned_of:
  assumes "in_int 64 v"
  shows "as_signed 64 (unsigned_of 64 v) = v"
proof -
  have b: "- (2 ^ 63) \<le> v" "v < 2 ^ 63" using assms by (simp_all add: in_int_def)
  have "v mod 2 ^ 64 = (if 0 \<le> v then v else v + 2 ^ 64)"
  proof (cases "0 \<le> v")
    case False
    have "(v + 2 ^ 64) mod 2 ^ 64 = v + 2 ^ 64" using b False by (intro mod_pos_pos_trivial) auto
    then show ?thesis using False by simp
  qed (use b in auto)
  then show ?thesis using b by (auto simp: as_signed_def unsigned_of_def Let_def nat_less_iff split: if_splits)
qed

text \<open>
  The account holds a field; the records' round trips follow from their fields being held, by rewriting with
  what the readers make of them.
\<close>

definition got :: "bytes \<Rightarrow> field \<Rightarrow> bool" where
  "got b f \<longleftrightarrow> sub_bytes b (fst f) (length (snd f)) = Some (snd f)"

lemma puts_got: "puts fs b = Some b' \<Longrightarrow> disjoint_fields fs \<Longrightarrow> \<forall>f\<in>set fs. got b' f"
  using puts_get by (auto simp: got_def)

lemma from_le_to_le_bits:
  "x < 2 ^ 8 \<Longrightarrow> from_le (to_le (Suc 0) x) = x" "x < 2 ^ 16 \<Longrightarrow> from_le (to_le 2 x) = x"
  "x < 2 ^ 32 \<Longrightarrow> from_le (to_le 4 x) = x" "x < 2 ^ 64 \<Longrightarrow> from_le (to_le 8 x) = x"
  "x < 2 ^ 128 \<Longrightarrow> from_le (to_le 16 x) = x"
  by (rule from_le_to_le, simp)+

lemma signed_to_le: "in_int 64 v \<Longrightarrow> as_signed 64 (from_le (to_le 8 (unsigned_of 64 v))) = v"
proof -
  have "unsigned_of 64 v < 2 ^ 64" by (simp add: unsigned_of_def nat_less_iff)
  then show "in_int 64 v \<Longrightarrow> ?thesis" by (simp only: from_le_to_le_bits as_signed_unsigned_of)
qed

lemma of_bool_byte: "of_bool p < (2 :: nat) ^ 8" "(of_bool p \<noteq> (0 :: nat)) = p"
  by simp_all

lemmas read_back_simps = at_defs put_defs got_def from_le_to_le_bits signed_to_le

lemmas fields_simps = put_defs apart_def within_def

text \<open>Reading depends on the bytes of the place alone.\<close>

lemma sub_bytes_sub:
  assumes "sub_bytes b at n = sub_bytes c at n" "at + n \<le> length b" "m + l \<le> n"
  shows "sub_bytes b (at + m) l = sub_bytes c (at + m) l"
proof -
  have eq: "take n (drop at b) = take n (drop at c)" "at + n \<le> length c"
    using assms(1,2) by (auto simp: sub_bytes_def split: if_splits)
  have "take l (drop (at + m) x) = take l (drop m (take n (drop at x)))" for x :: bytes
    using assms(3) by (simp add: drop_take min_def add.commute)
  with eq(1) have "take l (drop (at + m) b) = take l (drop (at + m) c)" by simp
  with assms(2,3) eq(2) show ?thesis by (simp add: sub_bytes_def)
qed

lemma sub_bytes_in:
  assumes "sub_bytes b at n = Some w" "m + l \<le> n"
  shows "sub_bytes w m l = sub_bytes b (at + m) l"
proof -
  have w: "at + n \<le> length b" "w = take n (drop at b)" using assms(1) by (auto simp: sub_bytes_def split: if_splits)
  have "take l (drop (at + m) b) = take l (drop m w)"
    using assms(2) by (simp add: w drop_take min_def add.commute)
  with w assms(2) show ?thesis by (simp add: sub_bytes_def)
qed

subsection \<open>Records at an offset\<close>

text \<open>
  What the clients of a record rely on: its fields lie within its \<open>len\<close> bytes, a record written reads back,
  and reading looks at no other byte.
\<close>

locale record_codec =
  fixes len :: usize and ok :: "'r \<Rightarrow> bool" and fields :: "'r \<Rightarrow> usize \<Rightarrow> field list"
    and read :: "bytes \<Rightarrow> usize \<Rightarrow> 'r option"
  assumes fields_within: "ok r \<Longrightarrow> f \<in> set (fields r at) \<Longrightarrow> within at len f"
    and read_back: "ok r \<Longrightarrow> puts (fields r at) b = Some b' \<Longrightarrow> read b' at = Some r"
    and read_local: "(\<And>m l. m + l \<le> len \<Longrightarrow> sub_bytes b (at + m) l = sub_bytes c (at + m) l) \<Longrightarrow> read b at = read c at"
begin

lemma write_total:
  assumes "ok r" "at + len \<le> length b"
  obtains b' where "puts (fields r at) b = Some b'" "length b' = length b" "read b' at = Some r"
proof -
  obtain b' where "puts (fields r at) b = Some b'"
    by (rule puts_total [of "fields r at" b]) (use assms fields_within in \<open>fastforce simp: within_def\<close>)+
  with assms(1) puts_length read_back that show thesis by blast
qed

lemma write_frame:
  assumes "ok r" "puts (fields r at) b = Some b'" "apart (at, len) (p, n)"
  shows "sub_bytes b' p n = sub_bytes b p n"
  using assms(2)
  by (rule puts_frame) (use assms(1,3) fields_within in \<open>fastforce simp: within_def apart_def\<close>)

lemma read_same:
  assumes "sub_bytes b at len = sub_bytes c at len" "at + len \<le> length b"
  shows "read b at = read c at"
  using assms by (intro read_local) (rule sub_bytes_sub)

text \<open>An arena: slot \<open>i\<close> at \<open>start + i * stride\<close>.\<close>

lemma write_slot:
  assumes "ok r" "i < cap" "j < cap" "len \<le> stride" "start + cap * stride \<le> length b"
    "puts (fields r (start + i * stride)) b = Some b'"
  shows "read b' (start + j * stride) = (if j = i then Some r else read b (start + j * stride))"
proof (cases "j = i")
  case True
  with assms(1,6) read_back show ?thesis by simp
next
  case False
  have "Suc j * stride \<le> cap * stride" using assms(3) by (intro mult_right_mono) simp_all
  then have fit: "start + j * stride + len \<le> length b" using assms(4,5) by simp
  have "apart (start + i * stride, len) (start + j * stride, len)"
  proof (cases "i < j")
    case True
    then have "Suc i * stride \<le> j * stride" by (intro mult_right_mono) simp_all
    with assms(4) show ?thesis by (simp add: apart_def)
  next
    case ij: False
    with False have "Suc j * stride \<le> i * stride" by (intro mult_right_mono) simp_all
    with assms(4) show ?thesis by (simp add: apart_def)
  qed
  then have "sub_bytes b' (start + j * stride) len = sub_bytes b (start + j * stride) len"
    by (rule write_frame [OF assms(1,6)])
  then have "read b (start + j * stride) = read b' (start + j * stride)"
    using fit by (intro read_same) simp_all
  with False show ?thesis by simp
qed

end

end
