(* ===== verification/Market_Records.thy ===== *)
theory Market_Records
  imports Byte_Store Payoff
begin

text \<open>
  The market account of \<open>programs/futures/src/state.rs\<close>: its header, the records of its four arenas and their
  offsets. Each record has its fields in the order \<open>write\<close> puts them, a \<open>read\<close>, and the widths of its Rust
  fields as \<open>ok\<close>. The interpretations of \<open>record_codec\<close> give every record its round trip and say that
  writing one leaves the others alone.
\<close>

datatype futures_error =
  InvalidInstruction | InvalidAccount | Unauthorized | NotTradable | InvalidShape | InvalidPrice | InsufficientFunds
| TraderCapacity | OrderCapacity | ClaimCapacity | MakerCapacity | BadProposal | ErrUnbalanced | NotBestPrice
| NotMaxFill | FifoViolation | SearchLimit | MinFill | WouldCross | NotComplement | ClaimNotFound | OrderNotFound
| NotSettled | AlreadyFinal | Overflow | Custody | Insolvent | LimitExceeded | NotExpired | ClaimReserved
| VaultCapacity | CreditLimit | NeedsRecovery

type_synonym 'r res = "(futures_error + 'r) option"

definition ascii :: "string \<Rightarrow> bytes" where
  "ascii s = map of_char s"

definition MAGIC :: bytes where "MAGIC = ascii ''AFRANGE1''"

definition VERSION :: u8 where "VERSION = 1"

definition CREDIT_APPROVAL_MAGIC :: bytes where "CREDIT_APPROVAL_MAGIC = ascii ''AFCRISK1''"

abbreviation (input) HEADER_LEN :: usize where "HEADER_LEN \<equiv> 512"
abbreviation (input) CREDIT_APPROVAL_LEN :: usize where "CREDIT_APPROVAL_LEN \<equiv> 16"
abbreviation (input) TRADER_LEN :: usize where "TRADER_LEN \<equiv> 64"
abbreviation (input) ORDER_LEN :: usize where "ORDER_LEN \<equiv> 64"
abbreviation (input) CLAIM_LEN :: usize where "CLAIM_LEN \<equiv> 56"
abbreviation (input) MAKER_HEAD :: usize where "MAKER_HEAD \<equiv> 64"
abbreviation (input) STEP_LEN :: usize where "STEP_LEN \<equiv> 32"

definition maker_len :: "u16 \<Rightarrow> usize" where
  "maker_len grid = MAKER_HEAD + grid * STEP_LEN"

definition market_len :: "u16 \<Rightarrow> u16 \<Rightarrow> u16 \<Rightarrow> u8 \<Rightarrow> u32 \<Rightarrow> usize" where
  "market_len grid traders orders makers claims =
     HEADER_LEN + traders * TRADER_LEN + orders * ORDER_LEN + makers * maker_len grid + claims * CLAIM_LEN"

subsection \<open>The header\<close>

record header =
  h_status :: u8
  h_authority_bump :: u8
  h_value_decimals :: u8
  h_grid :: u16
  h_trader_cap :: u16
  h_order_cap :: u16
  h_maker_cap :: u8
  h_registry_bump :: u8
  h_claim_cap :: u32
  h_claim_hint :: u32
  h_product_id :: pubkey
  h_expiry_ts :: u64
  h_period :: pubkey
  h_oracle_program :: pubkey
  h_quote_mint :: pubkey
  h_vault :: pubkey
  h_creator :: pubkey
  h_k :: u64
  h_step_value :: u64
  h_ref_fine :: u64
  h_settlement_fine :: u64
  h_next_seq :: u64
  h_total_free :: u64
  h_total_reserved :: u64
  h_backing :: u64
  h_custody :: u64
  h_trades :: u64
  h_volume_lots :: u64
  h_volume_premium :: u128
  h_last_entry_fine :: u64
  h_claims_open :: u64
  h_total_paid_out :: u64
  h_settled_ts :: u64
  h_last_trade_ts :: u64
  h_credit_owner :: pubkey
  h_credit_limit :: u64
  h_debt :: u64
  h_credit_until :: u64
  h_funded_in :: u64
  h_funded_out :: u64
  h_tw_ts :: u64
  h_tw_credit :: u128
  h_tw_cash :: u128
  h_shortfall :: u64
  h_recovery_amba :: u64
  h_winners :: u64
  h_credit_flags :: u8
  h_profit_bps :: u16

definition header_ok :: "header \<Rightarrow> bool" where
  "header_ok h \<longleftrightarrow>
     h_status h < 2 ^ 8 \<and> h_authority_bump h < 2 ^ 8 \<and> h_value_decimals h < 2 ^ 8 \<and>
     h_grid h < 2 ^ 16 \<and> h_trader_cap h < 2 ^ 16 \<and> h_order_cap h < 2 ^ 16 \<and>
     h_maker_cap h < 2 ^ 8 \<and> h_registry_bump h < 2 ^ 8 \<and> h_claim_cap h < 2 ^ 32 \<and>
     h_claim_hint h < 2 ^ 32 \<and> length (h_product_id h) = 32 \<and> h_expiry_ts h < 2 ^ 64 \<and>
     length (h_period h) = 32 \<and> length (h_oracle_program h) = 32 \<and>
     length (h_quote_mint h) = 32 \<and> length (h_vault h) = 32 \<and> length (h_creator h) = 32 \<and>
     h_k h < 2 ^ 64 \<and> h_step_value h < 2 ^ 64 \<and> h_ref_fine h < 2 ^ 64 \<and>
     h_settlement_fine h < 2 ^ 64 \<and> h_next_seq h < 2 ^ 64 \<and> h_total_free h < 2 ^ 64 \<and>
     h_total_reserved h < 2 ^ 64 \<and> h_backing h < 2 ^ 64 \<and> h_custody h < 2 ^ 64 \<and>
     h_trades h < 2 ^ 64 \<and> h_volume_lots h < 2 ^ 64 \<and> h_volume_premium h < 2 ^ 128 \<and>
     h_last_entry_fine h < 2 ^ 64 \<and> h_claims_open h < 2 ^ 64 \<and> h_total_paid_out h < 2 ^ 64 \<and>
     h_settled_ts h < 2 ^ 64 \<and> h_last_trade_ts h < 2 ^ 64 \<and> length (h_credit_owner h) = 32 \<and>
     h_credit_limit h < 2 ^ 64 \<and> h_debt h < 2 ^ 64 \<and> h_credit_until h < 2 ^ 64 \<and>
     h_funded_in h < 2 ^ 64 \<and> h_funded_out h < 2 ^ 64 \<and> h_tw_ts h < 2 ^ 64 \<and>
     h_tw_credit h < 2 ^ 128 \<and> h_tw_cash h < 2 ^ 128 \<and> h_shortfall h < 2 ^ 64 \<and>
     h_recovery_amba h < 2 ^ 64 \<and> h_winners h < 2 ^ 64 \<and> h_credit_flags h < 2 ^ 8 \<and>
     h_profit_bps h < 2 ^ 16"

definition header_fields :: "header \<Rightarrow> field list" where
  "header_fields h = [
     put_bytes 0 MAGIC, put8 8 VERSION, put8 9 (h_status h), put8 10 (h_authority_bump h),
     put8 11 (h_value_decimals h), put16 12 (h_grid h), put16 14 (h_trader_cap h), put16 16 (h_order_cap h),
     put8 18 (h_maker_cap h), put8 19 (h_registry_bump h), put32 20 (h_claim_cap h),
     put32 24 (h_claim_hint h), put_key 32 (h_product_id h), put64 64 (h_expiry_ts h),
     put_key 72 (h_period h), put_key 104 (h_oracle_program h), put_key 136 (h_quote_mint h),
     put_key 168 (h_vault h), put_key 200 (h_creator h), put64 232 (h_k h), put64 240 (h_step_value h),
     put64 248 (h_ref_fine h), put64 256 (h_settlement_fine h), put64 264 (h_next_seq h),
     put64 272 (h_total_free h), put64 280 (h_total_reserved h), put64 288 (h_backing h),
     put64 296 (h_custody h), put64 304 (h_trades h), put64 312 (h_volume_lots h),
     put128 320 (h_volume_premium h), put64 336 (h_last_entry_fine h), put64 344 (h_claims_open h),
     put64 352 (h_total_paid_out h), put64 360 (h_settled_ts h), put64 368 (h_last_trade_ts h),
     put8 28 (h_credit_flags h), put8 29 0, put16 30 (h_profit_bps h), put_key 376 (h_credit_owner h),
     put64 408 (h_credit_limit h), put64 416 (h_debt h), put64 424 (h_credit_until h),
     put64 432 (h_funded_in h), put64 440 (h_funded_out h), put64 448 (h_tw_ts h),
     put128 456 (h_tw_credit h), put128 472 (h_tw_cash h), put64 488 (h_shortfall h),
     put64 496 (h_recovery_amba h), put64 504 (h_winners h)]"

definition header_parse :: "bytes \<Rightarrow> header option" where
  "header_parse b = do {
     status \<leftarrow> u8_at b 9; authority_bump \<leftarrow> u8_at b 10;
     value_decimals \<leftarrow> u8_at b 11; grid \<leftarrow> u16_at b 12;
     trader_cap \<leftarrow> u16_at b 14; order_cap \<leftarrow> u16_at b 16;
     maker_cap \<leftarrow> u8_at b 18; registry_bump \<leftarrow> u8_at b 19;
     claim_cap \<leftarrow> u32_at b 20; claim_hint \<leftarrow> u32_at b 24;
     product_id \<leftarrow> key_at b 32; expiry_ts \<leftarrow> u64_at b 64;
     period \<leftarrow> key_at b 72; oracle_program \<leftarrow> key_at b 104;
     quote_mint \<leftarrow> key_at b 136; vault \<leftarrow> key_at b 168;
     creator \<leftarrow> key_at b 200; k \<leftarrow> u64_at b 232; step_value \<leftarrow> u64_at b 240;
     ref_fine \<leftarrow> u64_at b 248; settlement_fine \<leftarrow> u64_at b 256;
     next_seq \<leftarrow> u64_at b 264; total_free \<leftarrow> u64_at b 272;
     total_reserved \<leftarrow> u64_at b 280; backing \<leftarrow> u64_at b 288;
     custody \<leftarrow> u64_at b 296; trades \<leftarrow> u64_at b 304;
     volume_lots \<leftarrow> u64_at b 312; volume_premium \<leftarrow> u128_at b 320;
     last_entry_fine \<leftarrow> u64_at b 336; claims_open \<leftarrow> u64_at b 344;
     total_paid_out \<leftarrow> u64_at b 352; settled_ts \<leftarrow> u64_at b 360;
     last_trade_ts \<leftarrow> u64_at b 368; credit_owner \<leftarrow> key_at b 376;
     credit_limit \<leftarrow> u64_at b 408; debt \<leftarrow> u64_at b 416;
     credit_until \<leftarrow> u64_at b 424; funded_in \<leftarrow> u64_at b 432;
     funded_out \<leftarrow> u64_at b 440; tw_ts \<leftarrow> u64_at b 448;
     tw_credit \<leftarrow> u128_at b 456; tw_cash \<leftarrow> u128_at b 472;
     shortfall \<leftarrow> u64_at b 488; recovery_amba \<leftarrow> u64_at b 496;
     winners \<leftarrow> u64_at b 504; credit_flags \<leftarrow> u8_at b 28;
     profit_bps \<leftarrow> u16_at b 30;
     Some \<lparr>h_status = status, h_authority_bump = authority_bump, h_value_decimals = value_decimals,
       h_grid = grid, h_trader_cap = trader_cap, h_order_cap = order_cap, h_maker_cap = maker_cap,
       h_registry_bump = registry_bump, h_claim_cap = claim_cap, h_claim_hint = claim_hint, h_product_id =
       product_id, h_expiry_ts = expiry_ts, h_period = period, h_oracle_program = oracle_program, h_quote_mint
       = quote_mint, h_vault = vault, h_creator = creator, h_k = k, h_step_value = step_value, h_ref_fine =
       ref_fine, h_settlement_fine = settlement_fine, h_next_seq = next_seq, h_total_free = total_free,
       h_total_reserved = total_reserved, h_backing = backing, h_custody = custody, h_trades = trades,
       h_volume_lots = volume_lots, h_volume_premium = volume_premium, h_last_entry_fine = last_entry_fine,
       h_claims_open = claims_open, h_total_paid_out = total_paid_out, h_settled_ts = settled_ts,
       h_last_trade_ts = last_trade_ts, h_credit_owner = credit_owner, h_credit_limit = credit_limit, h_debt =
       debt, h_credit_until = credit_until, h_funded_in = funded_in, h_funded_out = funded_out, h_tw_ts =
       tw_ts, h_tw_credit = tw_credit, h_tw_cash = tw_cash, h_shortfall = shortfall, h_recovery_amba =
       recovery_amba, h_winners = winners, h_credit_flags = credit_flags, h_profit_bps = profit_bps\<rparr> }"

definition header_write :: "header \<Rightarrow> bytes \<Rightarrow> bytes option" where
  "header_write h b = puts (header_fields h) b"

text \<open>The length of the account without an approval, from the header's capacities.\<close>

definition base_len :: "header \<Rightarrow> usize" where
  "base_len h = market_len (h_grid h) (h_trader_cap h) (h_order_cap h) (h_maker_cap h) (h_claim_cap h)"

definition header_read :: "bytes \<Rightarrow> header res" where
  "header_read b =
     (if length b < HEADER_LEN \<or> sub_bytes b 0 8 \<noteq> Some MAGIC \<or> u8_at b 8 \<noteq> Some VERSION
      then Some (Inl InvalidAccount)
      else do {
        h \<leftarrow> header_parse b;
        Some (if length b \<noteq> base_len h
                \<and> (length b \<noteq> base_len h + CREDIT_APPROVAL_LEN
                   \<or> sub_bytes b (base_len h) 8 \<noteq> Some CREDIT_APPROVAL_MAGIC)
              then Inl InvalidAccount else Inr h) })"

subsection \<open>Where the records are\<close>

definition traders_at :: "header \<Rightarrow> usize" where
  "traders_at h = HEADER_LEN"

definition orders_at :: "header \<Rightarrow> usize" where
  "orders_at h = traders_at h + h_trader_cap h * TRADER_LEN"

definition makers_at :: "header \<Rightarrow> usize" where
  "makers_at h = orders_at h + h_order_cap h * ORDER_LEN"

definition claims_at :: "header \<Rightarrow> usize" where
  "claims_at h = makers_at h + h_maker_cap h * maker_len (h_grid h)"

definition trader_off :: "header \<Rightarrow> u16 \<Rightarrow> usize" where
  "trader_off h i = traders_at h + i * TRADER_LEN"

definition order_off :: "header \<Rightarrow> u16 \<Rightarrow> usize" where
  "order_off h i = orders_at h + i * ORDER_LEN"

definition maker_off :: "header \<Rightarrow> u8 \<Rightarrow> usize" where
  "maker_off h i = makers_at h + i * maker_len (h_grid h)"

definition step_off :: "header \<Rightarrow> u8 \<Rightarrow> u16 \<Rightarrow> usize" where
  "step_off h maker step = maker_off h maker + MAKER_HEAD + step * STEP_LEN"

definition claim_off :: "header \<Rightarrow> u32 \<Rightarrow> usize" where
  "claim_off h i = claims_at h + i * CLAIM_LEN"

text \<open>The credit approval appended to the arenas.\<close>

definition credit_approval :: "bytes \<Rightarrow> header \<Rightarrow> u64 option option" where
  "credit_approval b h =
     (if length b = base_len h + CREDIT_APPROVAL_LEN \<and> sub_bytes b (base_len h) 8 = Some CREDIT_APPROVAL_MAGIC
      then map_option Some (u64_at b (base_len h + 8)) else Some None)"

definition set_credit_approval :: "bytes \<Rightarrow> header \<Rightarrow> u64 \<Rightarrow> bytes option" where
  "set_credit_approval b h exposure = do {
     approved \<leftarrow> credit_approval b h;
     (if approved \<noteq> None then puts [put64 (length b - CREDIT_APPROVAL_LEN + 8) exposure] b else Some b) }"

subsection \<open>The arenas' records\<close>

record trader =
  tr_owner :: pubkey
  tr_free :: u64
  tr_reserved :: u64
  tr_claims :: u32
  tr_orders :: u16
  tr_maker :: u8
  tr_paid_out :: u64

definition trader_ok :: "trader \<Rightarrow> bool" where
  "trader_ok t \<longleftrightarrow>
     length (tr_owner t) = 32 \<and> tr_free t < 2 ^ 64 \<and> tr_reserved t < 2 ^ 64 \<and>
     tr_claims t < 2 ^ 32 \<and> tr_orders t < 2 ^ 16 \<and> tr_maker t < 2 ^ 8 \<and> tr_paid_out t < 2 ^ 64"

definition trader_fields :: "trader \<Rightarrow> usize \<Rightarrow> field list" where
  "trader_fields t at = [
     put_key at (tr_owner t), put64 (at + 32) (tr_free t), put64 (at + 40) (tr_reserved t),
     put32 (at + 48) (tr_claims t), put16 (at + 52) (tr_orders t), put8 (at + 54) (tr_maker t),
     put8 (at + 55) 0, put64 (at + 56) (tr_paid_out t)]"

definition trader_write :: "trader \<Rightarrow> bytes \<Rightarrow> usize \<Rightarrow> bytes option" where
  "trader_write t b at = puts (trader_fields t at) b"

definition trader_read :: "bytes \<Rightarrow> usize \<Rightarrow> trader option" where
  "trader_read b at = do {
     owner \<leftarrow> key_at b at; free \<leftarrow> u64_at b (at + 32);
     reserved \<leftarrow> u64_at b (at + 40); claims \<leftarrow> u32_at b (at + 48);
     orders \<leftarrow> u16_at b (at + 52); maker \<leftarrow> u8_at b (at + 54);
     paid_out \<leftarrow> u64_at b (at + 56);
     Some \<lparr>tr_owner = owner, tr_free = free, tr_reserved = reserved, tr_claims = claims, tr_orders =
       orders, tr_maker = maker, tr_paid_out = paid_out\<rparr> }"

definition idle :: "trader \<Rightarrow> bool" where
  "idle t \<longleftrightarrow> tr_free t = 0 \<and> tr_reserved t = 0 \<and> tr_claims t = 0 \<and> tr_orders t = 0 \<and> tr_maker t = 0"

record order =
  o_seq :: u64
  o_trader :: u16
  o_side :: u8
  o_flags :: u8
  o_lo :: u16
  o_hi :: u16
  o_lots :: u64
  o_price :: u64
  o_escrow_per_lot :: u64
  o_claim :: u32
  o_placed_lots :: u64
  o_placed_ts :: u64

definition order_ok :: "order \<Rightarrow> bool" where
  "order_ok r \<longleftrightarrow>
     o_seq r < 2 ^ 64 \<and> o_trader r < 2 ^ 16 \<and> o_side r < 2 ^ 8 \<and> o_flags r < 2 ^ 8 \<and>
     o_lo r < 2 ^ 16 \<and> o_hi r < 2 ^ 16 \<and> o_lots r < 2 ^ 64 \<and> o_price r < 2 ^ 64 \<and>
     o_escrow_per_lot r < 2 ^ 64 \<and> o_claim r < 2 ^ 32 \<and> o_placed_lots r < 2 ^ 64 \<and>
     o_placed_ts r < 2 ^ 64"

definition order_fields :: "order \<Rightarrow> usize \<Rightarrow> field list" where
  "order_fields r at = [
     put64 at (o_seq r), put16 (at + 8) (o_trader r), put8 (at + 10) (o_side r), put8 (at + 11) (o_flags r),
     put16 (at + 12) (o_lo r), put16 (at + 14) (o_hi r), put64 (at + 16) (o_lots r),
     put64 (at + 24) (o_price r), put64 (at + 32) (o_escrow_per_lot r), put32 (at + 40) (o_claim r),
     put32 (at + 44) 0, put64 (at + 48) (o_placed_lots r), put64 (at + 56) (o_placed_ts r)]"

definition order_write :: "order \<Rightarrow> bytes \<Rightarrow> usize \<Rightarrow> bytes option" where
  "order_write r b at = puts (order_fields r at) b"

definition order_read :: "bytes \<Rightarrow> usize \<Rightarrow> order option" where
  "order_read b at = do {
     seq \<leftarrow> u64_at b at; trader \<leftarrow> u16_at b (at + 8);
     side \<leftarrow> u8_at b (at + 10); flags \<leftarrow> u8_at b (at + 11);
     lo \<leftarrow> u16_at b (at + 12); hi \<leftarrow> u16_at b (at + 14);
     lots \<leftarrow> u64_at b (at + 16); price \<leftarrow> u64_at b (at + 24);
     escrow_per_lot \<leftarrow> u64_at b (at + 32); claim \<leftarrow> u32_at b (at + 40);
     placed_lots \<leftarrow> u64_at b (at + 48); placed_ts \<leftarrow> u64_at b (at + 56);
     Some \<lparr>o_seq = seq, o_trader = trader, o_side = side, o_flags = flags, o_lo = lo, o_hi = hi, o_lots
       = lots, o_price = price, o_escrow_per_lot = escrow_per_lot, o_claim = claim, o_placed_lots =
       placed_lots, o_placed_ts = placed_ts\<rparr> }"

record claim =
  c_lots :: u64
  c_seq :: u64
  c_trader :: u16
  c_side :: u8
  c_lo :: u16
  c_hi :: u16
  c_cost :: u64
  c_reserved :: u64
  c_opened_ts :: u64
  c_held :: bool

definition claim_ok :: "claim \<Rightarrow> bool" where
  "claim_ok c \<longleftrightarrow>
     c_lots c < 2 ^ 64 \<and> c_seq c < 2 ^ 64 \<and> c_trader c < 2 ^ 16 \<and> c_side c < 2 ^ 8 \<and>
     c_lo c < 2 ^ 16 \<and> c_hi c < 2 ^ 16 \<and> c_cost c < 2 ^ 64 \<and> c_reserved c < 2 ^ 64 \<and>
     c_opened_ts c < 2 ^ 64"

definition claim_fields :: "claim \<Rightarrow> usize \<Rightarrow> field list" where
  "claim_fields c at = [
     put64 at (c_lots c), put64 (at + 8) (c_seq c), put16 (at + 16) (c_trader c), put8 (at + 18) (c_side c),
     put8 (at + 19) (of_bool (c_held c)), put16 (at + 20) (c_lo c), put16 (at + 22) (c_hi c),
     put64 (at + 24) (c_cost c), put64 (at + 32) (c_reserved c), put64 (at + 40) (c_opened_ts c),
     put64 (at + 48) 0]"

definition claim_write :: "claim \<Rightarrow> bytes \<Rightarrow> usize \<Rightarrow> bytes option" where
  "claim_write c b at = puts (claim_fields c at) b"

definition claim_read :: "bytes \<Rightarrow> usize \<Rightarrow> claim option" where
  "claim_read b at = do {
     lots \<leftarrow> u64_at b at; seq \<leftarrow> u64_at b (at + 8);
     trader \<leftarrow> u16_at b (at + 16); side \<leftarrow> u8_at b (at + 18);
     lo \<leftarrow> u16_at b (at + 20); hi \<leftarrow> u16_at b (at + 22);
     cost \<leftarrow> u64_at b (at + 24); reserved \<leftarrow> u64_at b (at + 32);
     opened_ts \<leftarrow> u64_at b (at + 40); held \<leftarrow> u8_at b (at + 19);
     Some \<lparr>c_lots = lots, c_seq = seq, c_trader = trader, c_side = side, c_lo = lo, c_hi = hi, c_cost =
       cost, c_reserved = reserved, c_opened_ts = opened_ts, c_held = (held \<noteq> 0)\<rparr> }"

record tiers =
  t_count :: u8
  t_ratio :: u16
  t_spread :: u32

definition tiers_ok :: "tiers \<Rightarrow> bool" where
  "tiers_ok t \<longleftrightarrow> t_count t < 2 ^ 8 \<and> t_ratio t < 2 ^ 16 \<and> t_spread t < 2 ^ 32"

record maker =
  mk_seq :: u64
  mk_trader :: u16
  mk_used :: bool
  mk_lo :: u16
  mk_hi :: u16
  mk_escrow :: u64
  mk_bid_spread :: u32
  mk_ask_spread :: u32
  mk_quoted_ts :: u64
  mk_tiers :: tiers
  mk_bid_total :: u64
  mk_ask_total :: u64

definition maker_ok :: "maker \<Rightarrow> bool" where
  "maker_ok m \<longleftrightarrow>
     mk_seq m < 2 ^ 64 \<and> mk_trader m < 2 ^ 16 \<and> mk_lo m < 2 ^ 16 \<and> mk_hi m < 2 ^ 16 \<and>
     mk_escrow m < 2 ^ 64 \<and> mk_bid_spread m < 2 ^ 32 \<and> mk_ask_spread m < 2 ^ 32 \<and>
     mk_quoted_ts m < 2 ^ 64 \<and> mk_bid_total m < 2 ^ 64 \<and> mk_ask_total m < 2 ^ 64 \<and>
     tiers_ok (mk_tiers m)"

definition maker_fields :: "maker \<Rightarrow> usize \<Rightarrow> field list" where
  "maker_fields m at = [
     put64 at (mk_seq m), put16 (at + 8) (mk_trader m), put8 (at + 10) (of_bool (mk_used m)),
     put8 (at + 11) 0, put16 (at + 12) (mk_lo m), put16 (at + 14) (mk_hi m), put64 (at + 16) (mk_escrow m),
     put32 (at + 24) (mk_bid_spread m), put32 (at + 28) (mk_ask_spread m), put64 (at + 32) (mk_quoted_ts m),
     put8 (at + 40) (t_count (mk_tiers m)), put8 (at + 41) 0, put16 (at + 42) (t_ratio (mk_tiers m)),
     put32 (at + 44) (t_spread (mk_tiers m)), put64 (at + 48) (mk_bid_total m),
     put64 (at + 56) (mk_ask_total m)]"

definition maker_write :: "maker \<Rightarrow> bytes \<Rightarrow> usize \<Rightarrow> bytes option" where
  "maker_write m b at = puts (maker_fields m at) b"

definition maker_read :: "bytes \<Rightarrow> usize \<Rightarrow> maker option" where
  "maker_read b at = do {
     seq \<leftarrow> u64_at b at; trader \<leftarrow> u16_at b (at + 8);
     used \<leftarrow> u8_at b (at + 10); lo \<leftarrow> u16_at b (at + 12);
     hi \<leftarrow> u16_at b (at + 14); escrow \<leftarrow> u64_at b (at + 16);
     bid_spread \<leftarrow> u32_at b (at + 24); ask_spread \<leftarrow> u32_at b (at + 28);
     quoted_ts \<leftarrow> u64_at b (at + 32); count \<leftarrow> u8_at b (at + 40);
     ratio \<leftarrow> u16_at b (at + 42); spread \<leftarrow> u32_at b (at + 44);
     bid_total \<leftarrow> u64_at b (at + 48); ask_total \<leftarrow> u64_at b (at + 56);
     Some \<lparr>mk_seq = seq, mk_trader = trader, mk_used = (used \<noteq> 0), mk_lo = lo, mk_hi = hi,
       mk_escrow = escrow, mk_bid_spread = bid_spread, mk_ask_spread = ask_spread, mk_quoted_ts = quoted_ts,
       mk_tiers = \<lparr>t_count = count, t_ratio = ratio, t_spread = spread\<rparr>, mk_bid_total =
       bid_total, mk_ask_total = ask_total\<rparr> }"

record step =
  st_ask :: u32
  st_bid :: u32
  st_ask_lots :: u64
  st_bid_lots :: u64
  st_inv :: i64

definition step_ok :: "step \<Rightarrow> bool" where
  "step_ok s \<longleftrightarrow>
     st_ask s < 2 ^ 32 \<and> st_bid s < 2 ^ 32 \<and> st_ask_lots s < 2 ^ 64 \<and>
     st_bid_lots s < 2 ^ 64 \<and> in_int 64 (st_inv s)"

definition step_fields :: "step \<Rightarrow> usize \<Rightarrow> field list" where
  "step_fields s at = [
     put32 at (st_ask s), put32 (at + 4) (st_bid s), put64 (at + 8) (st_ask_lots s),
     put64 (at + 16) (st_bid_lots s), puti64 (at + 24) (st_inv s)]"

definition step_write :: "step \<Rightarrow> bytes \<Rightarrow> usize \<Rightarrow> bytes option" where
  "step_write s b at = puts (step_fields s at) b"

definition step_read :: "bytes \<Rightarrow> usize \<Rightarrow> step option" where
  "step_read b at = do {
     w \<leftarrow> sub_bytes b at STEP_LEN;
     ask \<leftarrow> u32_at w 0; bid \<leftarrow> u32_at w 4; ask_lots \<leftarrow> u64_at w 8;
     bid_lots \<leftarrow> u64_at w 16; inv \<leftarrow> i64_at w 24;
     Some \<lparr>st_ask = ask, st_bid = bid, st_ask_lots = ask_lots, st_bid_lots = bid_lots, st_inv =
       inv\<rparr> }"

subsection \<open>Round trips\<close>

lemma trader_disjoint: "trader_ok t \<Longrightarrow> disjoint_fields (trader_fields t at)"
  by (simp add: trader_fields_def trader_ok_def fields_simps)

lemma trader_read_back:
  assumes "trader_ok t" "puts (trader_fields t at) b = Some b'"
  shows "trader_read b' at = Some t"
proof -
  have "\<forall>f\<in>set (trader_fields t at). got b' f" by (rule puts_got [OF assms(2) trader_disjoint [OF assms(1)]])
  with assms(1) show ?thesis
    by (simp add: trader_read_def trader_fields_def read_back_simps trader_ok_def)
qed

lemma order_disjoint: "order_ok r \<Longrightarrow> disjoint_fields (order_fields r at)"
  by (simp add: order_fields_def order_ok_def fields_simps)

lemma order_read_back:
  assumes "order_ok r" "puts (order_fields r at) b = Some b'"
  shows "order_read b' at = Some r"
proof -
  have "\<forall>f\<in>set (order_fields r at). got b' f" by (rule puts_got [OF assms(2) order_disjoint [OF assms(1)]])
  with assms(1) show ?thesis
    by (simp add: order_read_def order_fields_def read_back_simps order_ok_def)
qed

lemma claim_disjoint: "claim_ok c \<Longrightarrow> disjoint_fields (claim_fields c at)"
  by (simp add: claim_fields_def claim_ok_def fields_simps)

lemma claim_read_back:
  assumes "claim_ok c" "puts (claim_fields c at) b = Some b'"
  shows "claim_read b' at = Some c"
proof -
  have "\<forall>f\<in>set (claim_fields c at). got b' f" by (rule puts_got [OF assms(2) claim_disjoint [OF assms(1)]])
  with assms(1) show ?thesis
    by (simp add: claim_read_def claim_fields_def read_back_simps claim_ok_def of_bool_byte)
qed

lemma maker_disjoint: "maker_ok m \<Longrightarrow> disjoint_fields (maker_fields m at)"
  by (simp add: maker_fields_def maker_ok_def fields_simps)

lemma maker_read_back:
  assumes "maker_ok m" "puts (maker_fields m at) b = Some b'"
  shows "maker_read b' at = Some m"
proof -
  have "\<forall>f\<in>set (maker_fields m at). got b' f" by (rule puts_got [OF assms(2) maker_disjoint [OF assms(1)]])
  with assms(1) show ?thesis
    by (simp add: maker_read_def maker_fields_def read_back_simps maker_ok_def tiers_ok_def of_bool_byte)
qed

lemma step_disjoint: "step_ok s \<Longrightarrow> disjoint_fields (step_fields s at)"
  by (simp add: step_fields_def step_ok_def fields_simps)

lemma step_read_back:
  assumes "step_ok s" "puts (step_fields s at) b = Some b'"
  shows "step_read b' at = Some s"
proof -
  have get: "\<forall>f\<in>set (step_fields s at). got b' f" by (rule puts_got [OF assms(2) step_disjoint [OF assms(1)]])
  then have "sub_bytes b' (at + 24) 8 \<noteq> None" by (simp add: got_def step_fields_def put_defs)
  then obtain w where w: "sub_bytes b' at STEP_LEN = Some w" by (auto simp: sub_bytes_def split: if_splits)
  have w0: "sub_bytes w 0 4 = sub_bytes b' at 4" using sub_bytes_in [OF w, of 0] by simp
  show ?thesis
    using assms(1) get by (simp add: step_read_def step_fields_def w w0 sub_bytes_in [OF w] read_back_simps step_ok_def)
qed

interpretation trader_rec: record_codec TRADER_LEN trader_ok trader_fields trader_read
proof
  show "within at TRADER_LEN f" if "trader_ok t" "f \<in> set (trader_fields t at)" for t f at
    using that by (auto simp: trader_fields_def trader_ok_def fields_simps)
  show "trader_read b' at = Some t" if "trader_ok t" "puts (trader_fields t at) b = Some b'" for t at b b'
    using that by (rule trader_read_back)
  fix b c at
  assume eq: "\<And>m l. m + l \<le> TRADER_LEN \<Longrightarrow> sub_bytes b (at + m) l = sub_bytes c (at + m) l"
  have "sub_bytes b at l = sub_bytes c at l" if "l \<le> TRADER_LEN" for l using eq [of 0 l] that by simp
  then show "trader_read b at = trader_read c at" by (simp add: trader_read_def at_defs eq)
qed

interpretation order_rec: record_codec ORDER_LEN order_ok order_fields order_read
proof
  show "within at ORDER_LEN f" if "order_ok r" "f \<in> set (order_fields r at)" for r f at
    using that by (auto simp: order_fields_def order_ok_def fields_simps)
  show "order_read b' at = Some r" if "order_ok r" "puts (order_fields r at) b = Some b'" for r at b b'
    using that by (rule order_read_back)
  fix b c at
  assume eq: "\<And>m l. m + l \<le> ORDER_LEN \<Longrightarrow> sub_bytes b (at + m) l = sub_bytes c (at + m) l"
  have "sub_bytes b at l = sub_bytes c at l" if "l \<le> ORDER_LEN" for l using eq [of 0 l] that by simp
  then show "order_read b at = order_read c at" by (simp add: order_read_def at_defs eq)
qed

interpretation claim_rec: record_codec CLAIM_LEN claim_ok claim_fields claim_read
proof
  show "within at CLAIM_LEN f" if "claim_ok c" "f \<in> set (claim_fields c at)" for c f at
    using that by (auto simp: claim_fields_def claim_ok_def fields_simps)
  show "claim_read b' at = Some c" if "claim_ok c" "puts (claim_fields c at) b = Some b'" for c at b b'
    using that by (rule claim_read_back)
  fix b c at
  assume eq: "\<And>m l. m + l \<le> CLAIM_LEN \<Longrightarrow> sub_bytes b (at + m) l = sub_bytes c (at + m) l"
  have "sub_bytes b at l = sub_bytes c at l" if "l \<le> CLAIM_LEN" for l using eq [of 0 l] that by simp
  then show "claim_read b at = claim_read c at" by (simp add: claim_read_def at_defs eq)
qed

interpretation maker_rec: record_codec MAKER_HEAD maker_ok maker_fields maker_read
proof
  show "within at MAKER_HEAD f" if "maker_ok m" "f \<in> set (maker_fields m at)" for m f at
    using that by (auto simp: maker_fields_def maker_ok_def fields_simps)
  show "maker_read b' at = Some m" if "maker_ok m" "puts (maker_fields m at) b = Some b'" for m at b b'
    using that by (rule maker_read_back)
  fix b c at
  assume eq: "\<And>m l. m + l \<le> MAKER_HEAD \<Longrightarrow> sub_bytes b (at + m) l = sub_bytes c (at + m) l"
  have "sub_bytes b at l = sub_bytes c at l" if "l \<le> MAKER_HEAD" for l using eq [of 0 l] that by simp
  then show "maker_read b at = maker_read c at" by (simp add: maker_read_def at_defs eq)
qed

interpretation step_rec: record_codec STEP_LEN step_ok step_fields step_read
proof
  show "within at STEP_LEN f" if "step_ok s" "f \<in> set (step_fields s at)" for s f at
    using that by (auto simp: step_fields_def step_ok_def fields_simps)
  show "step_read b' at = Some s" if "step_ok s" "puts (step_fields s at) b = Some b'" for s at b b'
    using that by (rule step_read_back)
  fix b c at
  assume eq: "\<And>m l. m + l \<le> STEP_LEN \<Longrightarrow> sub_bytes b (at + m) l = sub_bytes c (at + m) l"
  have "sub_bytes b at STEP_LEN = sub_bytes c at STEP_LEN" using eq [of 0 STEP_LEN] by simp
  then show "step_read b at = step_read c at" by (simp add: step_read_def)
qed

lemmas slot_offs = traders_at_def orders_at_def makers_at_def claims_at_def trader_off_def order_off_def
  maker_off_def step_off_def claim_off_def

lemma length_MAGIC: "length MAGIC = 8"
  by (simp add: MAGIC_def ascii_def)

lemma header_disjoint: "header_ok h \<Longrightarrow> disjoint_fields (header_fields h)"
  by (rule disjoint_fieldsI) (simp add: header_fields_def header_ok_def fields_simps length_MAGIC)

lemma header_within: "header_ok h \<Longrightarrow> \<forall>f\<in>set (header_fields h). within 0 HEADER_LEN f"
  by (simp add: header_fields_def header_ok_def fields_simps length_MAGIC)

lemma header_parse_back:
  assumes "header_ok h" "puts (header_fields h) b = Some b'"
  shows "header_parse b' = Some h" "sub_bytes b' 0 8 = Some MAGIC" "u8_at b' 8 = Some VERSION"
proof -
  have get: "\<forall>f\<in>set (header_fields h). got b' f" by (rule puts_got [OF assms(2) header_disjoint [OF assms(1)]])
  with assms(1) show "header_parse b' = Some h"
    by (simp add: header_parse_def header_fields_def read_back_simps header_ok_def)
  show "sub_bytes b' 0 8 = Some MAGIC" "u8_at b' 8 = Some VERSION"
    using get by (simp_all add: header_fields_def read_back_simps length_MAGIC VERSION_def)
qed

lemma base_len_header: "HEADER_LEN \<le> base_len h"
  by (simp add: base_len_def market_len_def)

lemma header_write_back:
  assumes "header_ok h" "HEADER_LEN \<le> length b"
  obtains b' where "header_write h b = Some b'" "length b' = length b"
    "\<And>p n. HEADER_LEN \<le> p \<Longrightarrow> sub_bytes b' p n = sub_bytes b p n"
    "header_parse b' = Some h" "sub_bytes b' 0 8 = Some MAGIC" "u8_at b' 8 = Some VERSION"
proof -
  obtain b' where w: "puts (header_fields h) b = Some b'"
    by (rule puts_total [of "header_fields h" b])
      (use assms(2) header_within [OF assms(1)] in \<open>fastforce simp: within_def\<close>)+
  have "sub_bytes b' p n = sub_bytes b p n" if "HEADER_LEN \<le> p" for p n
    by (rule puts_frame [OF w]) (use that header_within [OF assms(1)] in \<open>fastforce simp: within_def apart_def\<close>)
  with w puts_length [OF w] header_parse_back [OF assms(1) w] that show thesis
    by (simp add: header_write_def)
qed

subsection \<open>Slots\<close>

text \<open>A slot of the market account, the bytes it takes, and whether the capacities hold it.\<close>

datatype slot = TraderSlot u16 | OrderSlot u16 | MakerSlot u8 | StepSlot u8 u16 | ClaimSlot u32

fun slot_place :: "header \<Rightarrow> slot \<Rightarrow> usize \<times> usize" where
  "slot_place h (TraderSlot i) = (trader_off h i, TRADER_LEN)"
| "slot_place h (OrderSlot i) = (order_off h i, ORDER_LEN)"
| "slot_place h (MakerSlot i) = (maker_off h i, MAKER_HEAD)"
| "slot_place h (StepSlot i x) = (step_off h i x, STEP_LEN)"
| "slot_place h (ClaimSlot i) = (claim_off h i, CLAIM_LEN)"

fun slot_in :: "header \<Rightarrow> slot \<Rightarrow> bool" where
  "slot_in h (TraderSlot i) \<longleftrightarrow> i < h_trader_cap h"
| "slot_in h (OrderSlot i) \<longleftrightarrow> i < h_order_cap h"
| "slot_in h (MakerSlot i) \<longleftrightarrow> i < h_maker_cap h"
| "slot_in h (StepSlot i x) \<longleftrightarrow> i < h_maker_cap h \<and> x < h_grid h"
| "slot_in h (ClaimSlot i) \<longleftrightarrow> i < h_claim_cap h"

text \<open>The arena a slot is in, its index there, and its place within the index's stride.\<close>

fun slot_arena :: "header \<Rightarrow> slot \<Rightarrow> usize \<times> usize \<times> usize" where
  "slot_arena h (TraderSlot _) = (traders_at h, h_trader_cap h, TRADER_LEN)"
| "slot_arena h (OrderSlot _) = (orders_at h, h_order_cap h, ORDER_LEN)"
| "slot_arena h (MakerSlot _) = (makers_at h, h_maker_cap h, maker_len (h_grid h))"
| "slot_arena h (StepSlot _ _) = (makers_at h, h_maker_cap h, maker_len (h_grid h))"
| "slot_arena h (ClaimSlot _) = (claims_at h, h_claim_cap h, CLAIM_LEN)"

fun slot_index :: "slot \<Rightarrow> nat" where
  "slot_index (TraderSlot i) = i"
| "slot_index (OrderSlot i) = i"
| "slot_index (MakerSlot i) = i"
| "slot_index (StepSlot i _) = i"
| "slot_index (ClaimSlot i) = i"

lemma index_stride: "(i::nat) < j \<Longrightarrow> i * n + n \<le> j * n"
proof -
  assume "i < j"
  then have "Suc i * n \<le> j * n" by (intro mult_right_mono) simp_all
  then show ?thesis by simp
qed

lemma step_in_maker: "x < grid \<Longrightarrow> MAKER_HEAD + x * STEP_LEN + STEP_LEN \<le> maker_len grid"
  using index_stride [of x grid STEP_LEN] by (simp add: maker_len_def)

lemma slot_in_arena:
  assumes "slot_in h s" "slot_arena h s = (start, cap, stride)" "slot_place h s = (p, n)"
  shows "slot_index s < cap" "start + slot_index s * stride \<le> p" "p + n \<le> start + slot_index s * stride + stride"
  using assms step_in_maker [of _ "h_grid h"]
  by (cases s; auto simp: slot_offs maker_len_def)+

lemma base_len_claims: "base_len h = claims_at h + h_claim_cap h * CLAIM_LEN"
  by (simp add: base_len_def market_len_def slot_offs)

lemma slot_bounds:
  assumes "slot_in h s" "slot_place h s = (p, n)"
  shows "HEADER_LEN \<le> p" "p + n \<le> base_len h"
proof -
  obtain start cap stride where a: "slot_arena h s = (start, cap, stride)" by (cases "slot_arena h s") auto
  note A = slot_in_arena [OF assms(1) a assms(2)]
  have "start + cap * stride \<le> base_len h" "HEADER_LEN \<le> start"
    using a by (cases s; auto simp: base_len_claims slot_offs)+
  with A index_stride [OF A(1), of stride] show "HEADER_LEN \<le> p" "p + n \<le> base_len h" by auto
qed

lemma slots_apart:
  assumes "slot_in h s" "slot_in h s'" "s \<noteq> s'"
  shows "apart (slot_place h s) (slot_place h s')"
proof -
  obtain start cap stride p n where s: "slot_arena h s = (start, cap, stride)" "slot_place h s = (p, n)"
    by (cases "slot_arena h s"; cases "slot_place h s") auto
  obtain start' cap' stride' p' n' where s': "slot_arena h s' = (start', cap', stride')" "slot_place h s' = (p', n')"
    by (cases "slot_arena h s'"; cases "slot_place h s'") auto
  note A = slot_in_arena [OF assms(1) s] and B = slot_in_arena [OF assms(2) s']
  show ?thesis
  proof (cases "slot_arena h s = slot_arena h s' \<and> slot_index s \<noteq> slot_index s'")
    case True
    then show ?thesis
      using A B s s' index_stride [of "slot_index s" "slot_index s'" stride] index_stride [of "slot_index s'" "slot_index s" stride]
      by (auto simp: apart_def neq_iff)
  next
    case False
    have ends: "start + cap * stride \<ge> p + n" "start' + cap' * stride' \<ge> p' + n'" "start \<le> p" "start' \<le> p'"
      using A B index_stride [OF A(1), of stride] index_stride [OF B(1), of stride'] by auto
    show ?thesis
      using ends s s' False assms(3) index_stride [of _ _ STEP_LEN]
      by (cases s; cases s'; auto simp: apart_def slot_offs neq_iff)
  qed
qed

text \<open>
  A market's write at slot \<open>s\<close> changes that slot alone: it keeps the length, the header and every other slot.
\<close>

definition only_slot :: "header \<Rightarrow> slot \<Rightarrow> bytes \<Rightarrow> bytes \<Rightarrow> bool" where
  "only_slot h s b b' \<longleftrightarrow> length b' = length b \<and> sub_bytes b' 0 HEADER_LEN = sub_bytes b 0 HEADER_LEN
     \<and> (\<forall>s'. slot_in h s' \<and> s' \<noteq> s \<longrightarrow> sub_bytes b' (fst (slot_place h s')) (snd (slot_place h s'))
          = sub_bytes b (fst (slot_place h s')) (snd (slot_place h s')))"

context record_codec
begin

lemma write_only_slot:
  assumes "ok r" "slot_in h s" "slot_place h s = (at, len)" "base_len h \<le> length b"
  shows "\<exists>b'. puts (fields r at) b = Some b' \<and> read b' at = Some r \<and> only_slot h s b b'"
proof -
  note bounds = slot_bounds [OF assms(2,3)]
  obtain b' where b': "puts (fields r at) b = Some b'" "length b' = length b" "read b' at = Some r"
    by (rule write_total [OF assms(1), of at b]) (use bounds(2) assms(4) in auto)
  have "sub_bytes b' 0 HEADER_LEN = sub_bytes b 0 HEADER_LEN"
    by (rule write_frame [OF assms(1) b'(1)]) (use bounds(1) in \<open>simp add: apart_def\<close>)
  moreover have "sub_bytes b' (fst (slot_place h s')) (snd (slot_place h s')) = sub_bytes b (fst (slot_place h s')) (snd (slot_place h s'))"
    if "slot_in h s'" "s' \<noteq> s" for s'
    by (rule write_frame [OF assms(1) b'(1)]) (use slots_apart [OF assms(2) that(1)] that(2) assms(3) in simp)
  ultimately show ?thesis using b' by (auto simp: only_slot_def)
qed

end

subsection \<open>The account's round trips\<close>

text \<open>
  C29. The header reads back: written to an account of its length (with or without the credit approval that
  may follow the arenas), it is what a later read returns, and no byte past it changes.
\<close>

theorem header_round_trip:
  assumes "header_ok h"
    "length b = base_len h \<or> (length b = base_len h + CREDIT_APPROVAL_LEN
       \<and> sub_bytes b (base_len h) 8 = Some CREDIT_APPROVAL_MAGIC)"
  shows "\<exists>b'. header_write h b = Some b' \<and> header_read b' = Some (Inr h) \<and> length b' = length b
     \<and> (\<forall>p n. HEADER_LEN \<le> p \<longrightarrow> sub_bytes b' p n = sub_bytes b p n)"
proof -
  have "HEADER_LEN \<le> length b" using assms(2) base_len_header [of h] by auto
  then obtain b' where b': "header_write h b = Some b'" "length b' = length b"
    "\<And>p n. HEADER_LEN \<le> p \<Longrightarrow> sub_bytes b' p n = sub_bytes b p n"
    "header_parse b' = Some h" "sub_bytes b' 0 8 = Some MAGIC" "u8_at b' 8 = Some VERSION"
    using header_write_back [OF assms(1)] by blast
  have "header_read b' = Some (Inr h)"
    using b'(2-6) assms(2) base_len_header [of h] by (auto simp: header_read_def)
  with b' show ?thesis by blast
qed

text \<open>A small market for the witnesses: two grid steps and one slot of each kind.\<close>

definition sample_header :: header where
  "sample_header = \<lparr>h_status = 0, h_authority_bump = 0, h_value_decimals = 0, h_grid = 2, h_trader_cap
     = 1, h_order_cap = 1, h_maker_cap = 1, h_registry_bump = 0, h_claim_cap = 1, h_claim_hint = 0,
     h_product_id = replicate 32 0, h_expiry_ts = 0, h_period = replicate 32 0, h_oracle_program = replicate
     32 0, h_quote_mint = replicate 32 0, h_vault = replicate 32 0, h_creator = replicate 32 0, h_k = 100,
     h_step_value = 0, h_ref_fine = 0, h_settlement_fine = 0, h_next_seq = 0, h_total_free = 0,
     h_total_reserved = 0, h_backing = 0, h_custody = 0, h_trades = 0, h_volume_lots = 0, h_volume_premium =
     0, h_last_entry_fine = 0, h_claims_open = 0, h_total_paid_out = 0, h_settled_ts = 0, h_last_trade_ts = 0,
     h_credit_owner = replicate 32 0, h_credit_limit = 0, h_debt = 0, h_credit_until = 0, h_funded_in = 0,
     h_funded_out = 0, h_tw_ts = 0, h_tw_credit = 0, h_tw_cash = 0, h_shortfall = 0, h_recovery_amba = 0,
     h_winners = 0, h_credit_flags = 0, h_profit_bps = 0\<rparr>"

lemma sample_header_facts: "header_ok sample_header" "base_len sample_header = 824"
  by (simp_all add: sample_header_def header_ok_def base_len_def market_len_def maker_len_def)

theorem header_round_trip_witness:
  "\<exists>b'. header_write sample_header (replicate 824 0) = Some b' \<and> header_read b' = Some (Inr sample_header)"
  using header_round_trip [of sample_header "replicate 824 0"] by (auto simp: sample_header_facts)

text \<open>
  C30. The arenas: a record written to its slot reads back and changes no other slot and nothing of the header,
  for traders, orders, makers, steps and claims alike.
\<close>

theorem market_records_round_trip:
  assumes "base_len h \<le> length b"
  shows "(trader_ok t \<and> slot_in h (TraderSlot i) \<longrightarrow>
      (\<exists>b'. trader_write t b (trader_off h i) = Some b' \<and> trader_read b' (trader_off h i) = Some t \<and> only_slot h (TraderSlot i) b b'))
    \<and> (order_ok r \<and> slot_in h (OrderSlot i) \<longrightarrow>
      (\<exists>b'. order_write r b (order_off h i) = Some b' \<and> order_read b' (order_off h i) = Some r \<and> only_slot h (OrderSlot i) b b'))
    \<and> (maker_ok m \<and> slot_in h (MakerSlot j) \<longrightarrow>
      (\<exists>b'. maker_write m b (maker_off h j) = Some b' \<and> maker_read b' (maker_off h j) = Some m \<and> only_slot h (MakerSlot j) b b'))
    \<and> (step_ok s \<and> slot_in h (StepSlot j x) \<longrightarrow>
      (\<exists>b'. step_write s b (step_off h j x) = Some b' \<and> step_read b' (step_off h j x) = Some s \<and> only_slot h (StepSlot j x) b b'))
    \<and> (claim_ok c \<and> slot_in h (ClaimSlot i) \<longrightarrow>
      (\<exists>b'. claim_write c b (claim_off h i) = Some b' \<and> claim_read b' (claim_off h i) = Some c \<and> only_slot h (ClaimSlot i) b b'))"
  unfolding trader_write_def order_write_def maker_write_def step_write_def claim_write_def
  by (intro conjI impI)
    (rule trader_rec.write_only_slot order_rec.write_only_slot maker_rec.write_only_slot step_rec.write_only_slot
      claim_rec.write_only_slot, use assms in simp_all)+

definition sample_step :: step where
  "sample_step = \<lparr>st_ask = 60, st_bid = 40, st_ask_lots = 5, st_bid_lots = 7, st_inv = -3\<rparr>"

theorem market_records_round_trip_witness:
  "\<exists>b'. step_write sample_step (replicate 824 0) (step_off sample_header 0 1) = Some b'
     \<and> step_read b' (step_off sample_header 0 1) = Some sample_step"
proof -
  have "base_len sample_header \<le> length (replicate 824 (0 :: byte))" by (simp add: sample_header_facts)
  moreover have "step_ok sample_step" "slot_in sample_header (StepSlot 0 1)"
    by (simp_all add: sample_step_def sample_header_def step_ok_def in_int_def)
  ultimately show ?thesis using market_records_round_trip [of sample_header "replicate 824 0"] by blast
qed

end
