(* ===== verification/Accounts.thy ===== *)
theory Accounts
  imports Market_Records
begin

text \<open>
  The futures program's other accounts, from \<open>programs/futures/src/state.rs\<close>: the market registry, Earn pools
  and their positions, the Earn vault with its reward stream and its positions, and the stake pool with its
  positions. An account's \<open>read\<close> refuses a wrong length or magic; the interpretations of \<open>account_codec\<close> show
  that a written account reads back and that no bytes make \<open>read\<close> abort.
\<close>

definition REGISTRY_MAGIC :: bytes where "REGISTRY_MAGIC = ascii ''AFRNGREG''"
definition POOL_MAGIC :: bytes where "POOL_MAGIC = ascii ''AFRPOOL1''"
definition LP_MAGIC :: bytes where "LP_MAGIC = ascii ''AFRLPOS1''"
definition VAULT_MAGIC :: bytes where "VAULT_MAGIC = ascii ''AFRVALT1''"
definition VAULT_LP_MAGIC :: bytes where "VAULT_LP_MAGIC = ascii ''AFRVLPS1''"
definition REWARDS_MAGIC :: bytes where "REWARDS_MAGIC = ascii ''AFRVRWD1''"
definition STAKE_MAGIC :: bytes where "STAKE_MAGIC = ascii ''AFRSTAK1''"
definition STAKE_POS_MAGIC :: bytes where "STAKE_POS_MAGIC = ascii ''AFRSTKP1''"

lemma magic_lengths:
  "length REGISTRY_MAGIC = 8" "length POOL_MAGIC = 8" "length LP_MAGIC = 8" "length VAULT_MAGIC = 8"
  "length VAULT_LP_MAGIC = 8" "length REWARDS_MAGIC = 8" "length STAKE_MAGIC = 8" "length STAKE_POS_MAGIC = 8"
  by (simp_all add: REGISTRY_MAGIC_def POOL_MAGIC_def LP_MAGIC_def VAULT_MAGIC_def VAULT_LP_MAGIC_def
      REWARDS_MAGIC_def STAKE_MAGIC_def STAKE_POS_MAGIC_def ascii_def)

abbreviation (input) REGISTRY_LEN :: usize where "REGISTRY_LEN \<equiv> 48"
abbreviation (input) POOL_LEN :: usize where "POOL_LEN \<equiv> 128"
abbreviation (input) LP_LEN :: usize where "LP_LEN \<equiv> 128"
abbreviation (input) VAULT_LP_LEN :: usize where "VAULT_LP_LEN \<equiv> 128"
abbreviation (input) VAULT_MARKETS :: usize where "VAULT_MARKETS \<equiv> 13"
abbreviation (input) VAULT_HEAD :: usize where "VAULT_HEAD \<equiv> 192"
abbreviation (input) VAULT_LEN :: usize where "VAULT_LEN \<equiv> 608"
abbreviation (input) REWARDS_LEN :: usize where "REWARDS_LEN \<equiv> 192"
abbreviation (input) VAULT_REWARDS_LEN :: usize where "VAULT_REWARDS_LEN \<equiv> 800"
abbreviation (input) STAKE_HEAD :: usize where "STAKE_HEAD \<equiv> 512"
abbreviation (input) EPOCH_ENDS :: usize where "EPOCH_ENDS \<equiv> 4"
abbreviation (input) STAKE_V1_LEN :: usize where "STAKE_V1_LEN \<equiv> 704"
abbreviation (input) STAKE_V2_LEN :: usize where "STAKE_V2_LEN \<equiv> 784"
abbreviation (input) STAKE_V3_LEN :: usize where "STAKE_V3_LEN \<equiv> 792"
abbreviation (input) STAKE_LEN :: usize where "STAKE_LEN \<equiv> 800"
abbreviation (input) STAKE_POS_V1_LEN :: usize where "STAKE_POS_V1_LEN \<equiv> 192"
abbreviation (input) STAKE_POS_LEN :: usize where "STAKE_POS_LEN \<equiv> 208"

text \<open>
  What the clients of an account rely on: \<open>fits r n\<close> says that an account of \<open>n\<close> bytes can hold all of \<open>r\<close>.
\<close>

locale account_codec =
  fixes fits :: "'r \<Rightarrow> usize \<Rightarrow> bool" and fields :: "'r \<Rightarrow> usize \<Rightarrow> field list" and read :: "bytes \<Rightarrow> 'r res"
  assumes fields_fit: "fits r n \<Longrightarrow> f \<in> set (fields r n) \<Longrightarrow> fst f + length (snd f) \<le> n"
    and read_back: "fits r (length b) \<Longrightarrow> puts (fields r (length b)) b = Some b' \<Longrightarrow> read b' = Some (Inr r)"
    and read_answers: "\<exists>x. read b = Some x"
begin

lemma round_trip:
  assumes "fits r (length b)"
  shows "\<exists>b'. puts (fields r (length b)) b = Some b' \<and> length b' = length b \<and> read b' = Some (Inr r)"
proof -
  obtain b' where "puts (fields r (length b)) b = Some b'"
    by (rule puts_total [of "fields r (length b)" b]) (use assms fields_fit in blast)+
  with assms puts_length read_back show ?thesis by blast
qed

end

subsection \<open>Registry, Earn pools and their positions\<close>

record registry =
  rg_bump :: u8
  rg_market :: pubkey

definition registry_ok :: "registry \<Rightarrow> bool" where
  "registry_ok r \<longleftrightarrow>
     rg_bump r < 2 ^ 8 \<and> length (rg_market r) = 32"

definition registry_fields :: "registry \<Rightarrow> field list" where
  "registry_fields r = [
     put_bytes 0 REGISTRY_MAGIC, put8 8 (rg_bump r), put_key 16 (rg_market r)]"

definition registry_write :: "registry \<Rightarrow> bytes \<Rightarrow> bytes option" where
  "registry_write r b = puts (registry_fields r) b"

definition registry_parse :: "bytes \<Rightarrow> registry option" where
  "registry_parse b = do {
     bump \<leftarrow> u8_at b 8; market \<leftarrow> key_at b 16;
     Some \<lparr>rg_bump = bump, rg_market = market\<rparr> }"

definition registry_read :: "bytes \<Rightarrow> registry res" where
  "registry_read b =
     (if length b \<noteq> REGISTRY_LEN \<or> sub_bytes b 0 8 \<noteq> Some REGISTRY_MAGIC
      then Some (Inl InvalidAccount) else map_option Inr (registry_parse b))"

record pool =
  pl_bump :: u8
  pl_market :: pubkey
  pl_operator :: pubkey
  pl_shares :: u64
  pl_deposited :: u64
  pl_withdrawn :: u64
  pl_created_ts :: u64

definition pool_ok :: "pool \<Rightarrow> bool" where
  "pool_ok p \<longleftrightarrow>
     pl_bump p < 2 ^ 8 \<and> length (pl_market p) = 32 \<and> length (pl_operator p) = 32 \<and>
     pl_shares p < 2 ^ 64 \<and> pl_deposited p < 2 ^ 64 \<and> pl_withdrawn p < 2 ^ 64 \<and>
     pl_created_ts p < 2 ^ 64"

definition pool_fields :: "pool \<Rightarrow> field list" where
  "pool_fields p = [
     put_bytes 0 POOL_MAGIC, put8 8 (pl_bump p), put_key 16 (pl_market p), put_key 48 (pl_operator p),
     put64 80 (pl_shares p), put64 88 (pl_deposited p), put64 96 (pl_withdrawn p), put64 104 (pl_created_ts p)]"

definition pool_write :: "pool \<Rightarrow> bytes \<Rightarrow> bytes option" where
  "pool_write p b = puts (pool_fields p) b"

definition pool_parse :: "bytes \<Rightarrow> pool option" where
  "pool_parse b = do {
     bump \<leftarrow> u8_at b 8; market \<leftarrow> key_at b 16; operator \<leftarrow> key_at b 48;
     shares \<leftarrow> u64_at b 80; deposited \<leftarrow> u64_at b 88; withdrawn \<leftarrow> u64_at b 96;
     created_ts \<leftarrow> u64_at b 104;
     Some \<lparr>pl_bump = bump, pl_market = market, pl_operator = operator, pl_shares = shares, pl_deposited
       = deposited, pl_withdrawn = withdrawn, pl_created_ts = created_ts\<rparr> }"

definition pool_read :: "bytes \<Rightarrow> pool res" where
  "pool_read b =
     (if length b \<noteq> POOL_LEN \<or> sub_bytes b 0 8 \<noteq> Some POOL_MAGIC
      then Some (Inl InvalidAccount) else map_option Inr (pool_parse b))"

record lp_position =
  lp_bump :: u8
  lp_pool :: pubkey
  lp_owner :: pubkey
  lp_shares :: u64
  lp_deposited :: u64
  lp_withdrawn :: u64

definition lp_position_ok :: "lp_position \<Rightarrow> bool" where
  "lp_position_ok p \<longleftrightarrow>
     lp_bump p < 2 ^ 8 \<and> length (lp_pool p) = 32 \<and> length (lp_owner p) = 32 \<and>
     lp_shares p < 2 ^ 64 \<and> lp_deposited p < 2 ^ 64 \<and> lp_withdrawn p < 2 ^ 64"

definition lp_position_fields :: "lp_position \<Rightarrow> field list" where
  "lp_position_fields p = [
     put_bytes 0 LP_MAGIC, put8 8 (lp_bump p), put_key 16 (lp_pool p), put_key 48 (lp_owner p),
     put64 80 (lp_shares p), put64 88 (lp_deposited p), put64 96 (lp_withdrawn p)]"

definition lp_position_write :: "lp_position \<Rightarrow> bytes \<Rightarrow> bytes option" where
  "lp_position_write p b = puts (lp_position_fields p) b"

definition lp_position_parse :: "bytes \<Rightarrow> lp_position option" where
  "lp_position_parse b = do {
     bump \<leftarrow> u8_at b 8; pool \<leftarrow> key_at b 16; owner \<leftarrow> key_at b 48;
     shares \<leftarrow> u64_at b 80; deposited \<leftarrow> u64_at b 88; withdrawn \<leftarrow> u64_at b 96;
     Some \<lparr>lp_bump = bump, lp_pool = pool, lp_owner = owner, lp_shares = shares, lp_deposited =
       deposited, lp_withdrawn = withdrawn\<rparr> }"

definition lp_position_read :: "bytes \<Rightarrow> lp_position res" where
  "lp_position_read b =
     (if length b \<noteq> LP_LEN \<or> sub_bytes b 0 8 \<noteq> Some LP_MAGIC
      then Some (Inl InvalidAccount) else map_option Inr (lp_position_parse b))"

subsection \<open>The reward stream\<close>

record rewards =
  rw_mint :: pubkey
  rw_account :: pubkey
  rw_house :: pubkey
  rw_decimals :: u8
  rw_start_ts :: u64
  rw_end_ts :: u64
  rw_amount :: u64
  rw_last_ts :: u64
  rw_acc :: u128
  rw_house_shares :: u64
  rw_distributed :: u64
  rw_paid :: u64

definition rewards_ok :: "rewards \<Rightarrow> bool" where
  "rewards_ok r \<longleftrightarrow>
     length (rw_mint r) = 32 \<and> length (rw_account r) = 32 \<and> length (rw_house r) = 32 \<and>
     rw_decimals r < 2 ^ 8 \<and> rw_start_ts r < 2 ^ 64 \<and> rw_end_ts r < 2 ^ 64 \<and>
     rw_amount r < 2 ^ 64 \<and> rw_last_ts r < 2 ^ 64 \<and> rw_acc r < 2 ^ 128 \<and>
     rw_house_shares r < 2 ^ 64 \<and> rw_distributed r < 2 ^ 64 \<and> rw_paid r < 2 ^ 64"

text \<open>\<open>b.fill(0)\<close>, then the fields.\<close>

definition rewards_puts :: "rewards \<Rightarrow> field list" where
  "rewards_puts r = [
     put_bytes 0 REWARDS_MAGIC, put8 8 (rw_decimals r), put_key 16 (rw_mint r), put_key 48 (rw_account r),
     put_key 80 (rw_house r), put64 112 (rw_start_ts r), put64 120 (rw_end_ts r), put64 128 (rw_amount r),
     put64 136 (rw_last_ts r), put128 144 (rw_acc r), put64 160 (rw_house_shares r),
     put64 168 (rw_distributed r), put64 176 (rw_paid r)]"

definition rewards_fields :: "rewards \<Rightarrow> usize \<Rightarrow> field list" where
  "rewards_fields r n = fill_zero 0 n # rewards_puts r"

definition rewards_write :: "rewards \<Rightarrow> bytes \<Rightarrow> bytes option" where
  "rewards_write r b = puts (rewards_fields r (length b)) b"

definition rewards_parse :: "bytes \<Rightarrow> rewards option" where
  "rewards_parse b = do {
     decimals \<leftarrow> u8_at b 8; mint \<leftarrow> key_at b 16; account \<leftarrow> key_at b 48;
     house \<leftarrow> key_at b 80; start_ts \<leftarrow> u64_at b 112; end_ts \<leftarrow> u64_at b 120;
     amount \<leftarrow> u64_at b 128; last_ts \<leftarrow> u64_at b 136; acc \<leftarrow> u128_at b 144;
     house_shares \<leftarrow> u64_at b 160; distributed \<leftarrow> u64_at b 168;
     paid \<leftarrow> u64_at b 176;
     Some \<lparr>rw_mint = mint, rw_account = account, rw_house = house, rw_decimals = decimals, rw_start_ts
       = start_ts, rw_end_ts = end_ts, rw_amount = amount, rw_last_ts = last_ts, rw_acc = acc, rw_house_shares
       = house_shares, rw_distributed = distributed, rw_paid = paid\<rparr> }"

definition rewards_read :: "bytes \<Rightarrow> rewards res" where
  "rewards_read b =
     (if length b \<noteq> REWARDS_LEN \<or> sub_bytes b 0 8 \<noteq> Some REWARDS_MAGIC
      then Some (Inl InvalidAccount) else map_option Inr (rewards_parse b))"

subsection \<open>The Earn vault and its positions\<close>

text \<open>Fields of a section that starts at byte \<open>k\<close>.\<close>

definition shift :: "usize \<Rightarrow> field list \<Rightarrow> field list" where
  "shift k fs = map (\<lambda>(at, bs). (k + at, bs)) fs"

record vault =
  va_bump :: u8
  va_operator :: pubkey
  va_quote_mint :: pubkey
  va_cash_account :: pubkey
  va_cash :: u64
  va_shares :: u64
  va_deposited :: u64
  va_withdrawn :: u64
  va_created_ts :: u64
  va_markets :: "pubkey list"
  va_rewards :: "rewards option"

definition vault_ok :: "vault \<Rightarrow> bool" where
  "vault_ok v \<longleftrightarrow>
     va_bump v < 2 ^ 8 \<and> length (va_operator v) = 32 \<and> length (va_quote_mint v) = 32 \<and>
     length (va_cash_account v) = 32 \<and> va_cash v < 2 ^ 64 \<and> va_shares v < 2 ^ 64 \<and>
     va_deposited v < 2 ^ 64 \<and> va_withdrawn v < 2 ^ 64 \<and> va_created_ts v < 2 ^ 64"

definition vault_head :: "vault \<Rightarrow> field list" where
  "vault_head v = [
     put_bytes 0 VAULT_MAGIC, put8 8 (va_bump v), put8 9 (cast 8 (length (va_markets v))),
     put_key 16 (va_operator v), put_key 48 (va_quote_mint v), put_key 80 (va_cash_account v),
     put64 112 (va_cash v), put64 120 (va_shares v), put64 128 (va_deposited v), put64 136 (va_withdrawn v),
     put64 144 (va_created_ts v)]"

definition market_fields :: "pubkey list \<Rightarrow> field list" where
  "market_fields ms = map (\<lambda>(i, m). put_key (VAULT_HEAD + 32 * i) m) (enumerate 0 ms)"

definition vault_fields :: "vault \<Rightarrow> usize \<Rightarrow> field list" where
  "vault_fields v n = vault_head v @ fill_zero VAULT_HEAD (VAULT_LEN - VAULT_HEAD) # market_fields (va_markets v)
     @ (case va_rewards v of
          Some r \<Rightarrow> if VAULT_REWARDS_LEN \<le> n then shift VAULT_LEN (rewards_fields r REWARDS_LEN) else []
        | None \<Rightarrow> [])"

definition vault_write :: "vault \<Rightarrow> bytes \<Rightarrow> bytes option" where
  "vault_write v b = puts (vault_fields v (length b)) b"

definition vault_parse :: "bytes \<Rightarrow> rewards option \<Rightarrow> vault option" where
  "vault_parse b rewards = do {
     bump \<leftarrow> u8_at b 8; operator \<leftarrow> key_at b 16; quote_mint \<leftarrow> key_at b 48;
     cash_account \<leftarrow> key_at b 80; cash \<leftarrow> u64_at b 112; shares \<leftarrow> u64_at b 120;
     deposited \<leftarrow> u64_at b 128; withdrawn \<leftarrow> u64_at b 136;
     created_ts \<leftarrow> u64_at b 144;
     count \<leftarrow> u8_at b 9;
     markets \<leftarrow> those (map (\<lambda>i. key_at b (VAULT_HEAD + 32 * i)) [0..<count]);
     Some \<lparr>va_bump = bump, va_operator = operator, va_quote_mint = quote_mint, va_cash_account =
       cash_account, va_cash = cash, va_shares = shares, va_deposited = deposited, va_withdrawn = withdrawn,
       va_created_ts = created_ts, va_markets = markets, va_rewards = rewards\<rparr> }"

definition vault_read :: "bytes \<Rightarrow> vault res" where
  "vault_read b =
     (if (length b \<noteq> VAULT_LEN \<and> length b \<noteq> VAULT_REWARDS_LEN) \<or> sub_bytes b 0 8 \<noteq> Some VAULT_MAGIC
         \<or> (case u8_at b 9 of None \<Rightarrow> True | Some c \<Rightarrow> VAULT_MARKETS < c)
      then Some (Inl InvalidAccount)
      else if VAULT_LEN < length b
      then do {
        answer \<leftarrow> rewards_read (drop VAULT_LEN b);
        (case answer of
           Inl e \<Rightarrow> Some (Inl e)
         | Inr r \<Rightarrow> map_option Inr (vault_parse b (Some r))) }
      else map_option Inr (vault_parse b None))"

definition REWARD_PAID_MAX :: u64 where
  "REWARD_PAID_MAX = push_bit 56 1 - 1"

record vault_position =
  vp_bump :: u8
  vp_vault :: pubkey
  vp_owner :: pubkey
  vp_shares :: u64
  vp_deposited :: u64
  vp_withdrawn :: u64
  vp_reward_snapshot :: u128
  vp_reward_pending :: u64
  vp_reward_paid :: u64

definition vault_position_ok :: "vault_position \<Rightarrow> bool" where
  "vault_position_ok p \<longleftrightarrow>
     vp_bump p < 2 ^ 8 \<and> length (vp_vault p) = 32 \<and> length (vp_owner p) = 32 \<and>
     vp_shares p < 2 ^ 64 \<and> vp_deposited p < 2 ^ 64 \<and> vp_withdrawn p < 2 ^ 64 \<and>
     vp_reward_snapshot p < 2 ^ 128 \<and> vp_reward_pending p < 2 ^ 64 \<and> vp_reward_paid p < 2 ^ 64"

definition vault_position_fields :: "vault_position \<Rightarrow> field list" where
  "vault_position_fields p = [
     put_bytes 0 VAULT_LP_MAGIC, put64 8 (push_bit 8 (min (vp_reward_paid p) REWARD_PAID_MAX)),
     put8 8 (vp_bump p), put_key 16 (vp_vault p), put_key 48 (vp_owner p), put64 80 (vp_shares p),
     put64 88 (vp_deposited p), put64 96 (vp_withdrawn p), put128 104 (vp_reward_snapshot p),
     put64 120 (vp_reward_pending p)]"

definition vault_position_write :: "vault_position \<Rightarrow> bytes \<Rightarrow> bytes option" where
  "vault_position_write p b = puts (vault_position_fields p) b"

definition vault_position_parse :: "bytes \<Rightarrow> vault_position option" where
  "vault_position_parse b = do {
     bump \<leftarrow> u8_at b 8; vault \<leftarrow> key_at b 16; owner \<leftarrow> key_at b 48;
     shares \<leftarrow> u64_at b 80; deposited \<leftarrow> u64_at b 88; withdrawn \<leftarrow> u64_at b 96;
     reward_snapshot \<leftarrow> u128_at b 104; reward_pending \<leftarrow> u64_at b 120;
     paid \<leftarrow> u64_at b 8;
     Some \<lparr>vp_bump = bump, vp_vault = vault, vp_owner = owner, vp_shares = shares, vp_deposited =
       deposited, vp_withdrawn = withdrawn, vp_reward_snapshot = reward_snapshot, vp_reward_pending =
       reward_pending, vp_reward_paid = drop_bit 8 paid\<rparr> }"

definition vault_position_read :: "bytes \<Rightarrow> vault_position res" where
  "vault_position_read b =
     (if length b \<noteq> VAULT_LP_LEN \<or> sub_bytes b 0 8 \<noteq> Some VAULT_LP_MAGIC
      then Some (Inl InvalidAccount) else map_option Inr (vault_position_parse b))"

subsection \<open>The stake pool and its positions\<close>

record stake_pool =
  sp_bump :: u8
  sp_amba_decimals :: u8
  sp_haircut_bps :: u16
  sp_profit_bps :: u16
  sp_buffer_bps :: u16
  sp_vault :: pubkey
  sp_operator :: pubkey
  sp_amba_mint :: pubkey
  sp_amba_account :: pubkey
  sp_usdc_account :: pubkey
  sp_usdc_mint :: pubkey
  sp_staked :: u64
  sp_shares :: u64
  sp_allocated :: u64
  sp_buffer :: u64
  sp_recovery_owed :: u64
  sp_price :: u64
  sp_price_ts :: u64
  sp_twap :: u64
  sp_twap_window :: u64
  sp_expiry_window :: u64
  sp_usdc_acc :: u128
  sp_usdc_distributed :: u64
  sp_usdc_paid :: u64
  sp_profit_in :: u64
  sp_covered :: u64
  sp_slashed :: u64
  sp_staked_in :: u64
  sp_unstaked :: u64
  sp_created_ts :: u64
  sp_epoch :: u32
  sp_epoch_ends :: "(u128 \<times> u128) list"
  sp_epoch_rates :: "(u64 \<times> u64) list"
  sp_share_index :: u128
  sp_wipe_epoch :: u32
  sp_first_price_ts :: u64
  sp_unbonding :: u64
  sp_credit_markets :: u32
  sp_credit_counted :: bool
  sp_rewards :: "rewards option"

definition stake_pool_ok :: "stake_pool \<Rightarrow> bool" where
  "stake_pool_ok p \<longleftrightarrow>
     sp_bump p < 2 ^ 8 \<and> sp_amba_decimals p < 2 ^ 8 \<and> sp_haircut_bps p < 2 ^ 16 \<and>
     sp_profit_bps p < 2 ^ 16 \<and> sp_buffer_bps p < 2 ^ 16 \<and> length (sp_vault p) = 32 \<and>
     length (sp_operator p) = 32 \<and> length (sp_amba_mint p) = 32 \<and>
     length (sp_amba_account p) = 32 \<and> length (sp_usdc_account p) = 32 \<and>
     length (sp_usdc_mint p) = 32 \<and> sp_staked p < 2 ^ 64 \<and> sp_shares p < 2 ^ 64 \<and>
     sp_allocated p < 2 ^ 64 \<and> sp_buffer p < 2 ^ 64 \<and> sp_recovery_owed p < 2 ^ 64 \<and>
     sp_price p < 2 ^ 64 \<and> sp_price_ts p < 2 ^ 64 \<and> sp_twap p < 2 ^ 64 \<and>
     sp_twap_window p < 2 ^ 64 \<and> sp_expiry_window p < 2 ^ 64 \<and> sp_usdc_acc p < 2 ^ 128 \<and>
     sp_usdc_distributed p < 2 ^ 64 \<and> sp_usdc_paid p < 2 ^ 64 \<and> sp_profit_in p < 2 ^ 64 \<and>
     sp_covered p < 2 ^ 64 \<and> sp_slashed p < 2 ^ 64 \<and> sp_staked_in p < 2 ^ 64 \<and>
     sp_unstaked p < 2 ^ 64 \<and> sp_created_ts p < 2 ^ 64 \<and> sp_epoch p < 2 ^ 32 \<and>
     sp_share_index p < 2 ^ 128 \<and> sp_wipe_epoch p < 2 ^ 32 \<and> sp_first_price_ts p < 2 ^ 64 \<and>
     sp_unbonding p < 2 ^ 64 \<and> sp_credit_markets p < 2 ^ 32 \<and>
     length (sp_epoch_ends p) = EPOCH_ENDS \<and> length (sp_epoch_rates p) = EPOCH_ENDS \<and>
     (\<forall>(x, y)\<in>set (sp_epoch_ends p). x < 2 ^ 128 \<and> y < 2 ^ 128) \<and>
     (\<forall>(x, y)\<in>set (sp_epoch_rates p). x < 2 ^ 64 \<and> y < 2 ^ 64) \<and>
     (case sp_rewards p of None \<Rightarrow> True | Some r \<Rightarrow> rewards_ok r)"

definition counted :: "stake_pool \<Rightarrow> bool" where
  "counted p \<longleftrightarrow> sp_credit_counted p \<or> sp_allocated p = 0"

definition stake_head :: "stake_pool \<Rightarrow> field list" where
  "stake_head p = [
     put_bytes 0 STAKE_MAGIC, put8 8 (sp_bump p), put8 9 (sp_amba_decimals p), put16 10 (sp_haircut_bps p),
     put16 12 (sp_profit_bps p), put16 14 (sp_buffer_bps p), put_key 16 (sp_vault p),
     put_key 48 (sp_operator p), put_key 80 (sp_amba_mint p), put_key 112 (sp_amba_account p),
     put_key 144 (sp_usdc_account p), put_key 176 (sp_usdc_mint p), put64 208 (sp_staked p),
     put64 216 (sp_shares p), put64 224 (sp_allocated p), put64 232 (sp_buffer p),
     put64 240 (sp_recovery_owed p), put64 248 (sp_price p), put64 256 (sp_price_ts p),
     put64 264 (sp_twap p), put64 272 (sp_twap_window p), put64 280 (sp_expiry_window p),
     put128 288 (sp_usdc_acc p), put64 304 (sp_usdc_distributed p), put64 312 (sp_usdc_paid p),
     put64 320 (sp_profit_in p), put64 328 (sp_covered p), put64 336 (sp_slashed p),
     put64 344 (sp_staked_in p), put64 352 (sp_unstaked p), put64 360 (sp_created_ts p)]"

definition stake_epochs :: "stake_pool \<Rightarrow> field list" where
  "stake_epochs p = [put32 368 (sp_epoch p), put32 372 (sp_wipe_epoch p), put64 376 (sp_first_price_ts p)]
     @ concat (map (\<lambda>(i, reward, usdc). [put128 (384 + 32 * i) reward, put128 (400 + 32 * i) usdc])
         (enumerate 0 (sp_epoch_ends p)))"

definition stake_rates :: "stake_pool \<Rightarrow> field list" where
  "stake_rates p = concat (map (\<lambda>(i, staked, shares). [put64 (16 * i) staked, put64 (8 + 16 * i) shares])
       (enumerate 0 (sp_epoch_rates p))) @ [put128 (16 * EPOCH_ENDS) (sp_share_index p)]"

definition stake_pool_fields :: "stake_pool \<Rightarrow> usize \<Rightarrow> field list" where
  "stake_pool_fields p n =
     stake_head p @ fill_zero 368 (STAKE_HEAD - 368) # stake_epochs p
     @ (case sp_rewards p of
          Some r \<Rightarrow> shift STAKE_HEAD (rewards_fields r REWARDS_LEN)
        | None \<Rightarrow> [fill_zero STAKE_HEAD (STAKE_V1_LEN - STAKE_HEAD)])
     @ (if STAKE_V2_LEN \<le> n then shift STAKE_V1_LEN (stake_rates p) else [])
     @ (if STAKE_V3_LEN \<le> n then [put64 STAKE_V2_LEN (sp_unbonding p)] else [])
     @ (if STAKE_LEN \<le> n
        then [put32 STAKE_V3_LEN (sp_credit_markets p), fill_zero (STAKE_V3_LEN + 4) 4,
          put8 (STAKE_V3_LEN + 4) (of_bool (counted p))]
        else [])"

definition stake_pool_write :: "stake_pool \<Rightarrow> bytes \<Rightarrow> bytes option" where
  "stake_pool_write p b = puts (stake_pool_fields p (length b)) b"

definition epoch_ends_at :: "bytes \<Rightarrow> (u128 \<times> u128) list option" where
  "epoch_ends_at b = those (map (\<lambda>i. do {
     reward \<leftarrow> u128_at b (384 + 32 * i); usdc \<leftarrow> u128_at b (400 + 32 * i); Some (reward, usdc) }) [0..<EPOCH_ENDS])"

definition epoch_rates_at :: "bytes \<Rightarrow> (u64 \<times> u64) list option" where
  "epoch_rates_at b = those (map (\<lambda>i. do {
     staked \<leftarrow> u64_at b (STAKE_V1_LEN + 16 * i); shares \<leftarrow> u64_at b (STAKE_V1_LEN + 8 + 16 * i); Some (staked, shares) })
     [0..<EPOCH_ENDS])"

definition stake_pool_parse :: "bytes \<Rightarrow> rewards option \<Rightarrow> stake_pool option" where
  "stake_pool_parse b rewards = do {
     let rates = STAKE_V2_LEN \<le> length b;
     bump \<leftarrow> u8_at b 8; amba_decimals \<leftarrow> u8_at b 9; haircut_bps \<leftarrow> u16_at b 10;
     profit_bps \<leftarrow> u16_at b 12; buffer_bps \<leftarrow> u16_at b 14;
     vault \<leftarrow> key_at b 16; operator \<leftarrow> key_at b 48; amba_mint \<leftarrow> key_at b 80;
     amba_account \<leftarrow> key_at b 112; usdc_account \<leftarrow> key_at b 144;
     usdc_mint \<leftarrow> key_at b 176; staked \<leftarrow> u64_at b 208; shares \<leftarrow> u64_at b 216;
     allocated \<leftarrow> u64_at b 224; buffer \<leftarrow> u64_at b 232;
     recovery_owed \<leftarrow> u64_at b 240; price \<leftarrow> u64_at b 248;
     price_ts \<leftarrow> u64_at b 256; twap \<leftarrow> u64_at b 264;
     twap_window \<leftarrow> u64_at b 272; expiry_window \<leftarrow> u64_at b 280;
     usdc_acc \<leftarrow> u128_at b 288; usdc_distributed \<leftarrow> u64_at b 304;
     usdc_paid \<leftarrow> u64_at b 312; profit_in \<leftarrow> u64_at b 320;
     covered \<leftarrow> u64_at b 328; slashed \<leftarrow> u64_at b 336;
     staked_in \<leftarrow> u64_at b 344; unstaked \<leftarrow> u64_at b 352;
     created_ts \<leftarrow> u64_at b 360; epoch \<leftarrow> u32_at b 368;
     first_price_ts \<leftarrow> u64_at b 376;
     epoch_ends \<leftarrow> epoch_ends_at b;
     epoch_rates \<leftarrow> (if rates then epoch_rates_at b else Some (replicate EPOCH_ENDS (0, 0)));
     share_index \<leftarrow> (if rates then u128_at b (STAKE_V1_LEN + 16 * EPOCH_ENDS) else Some 0);
     wipe_epoch \<leftarrow> (if rates then u32_at b 372 else u32_at b 368);
     unbonding \<leftarrow> (if STAKE_V3_LEN \<le> length b then u64_at b STAKE_V2_LEN else Some 0);
     credit_markets \<leftarrow> (if length b = STAKE_LEN then u32_at b STAKE_V3_LEN else Some 0);
     flag \<leftarrow> (if length b = STAKE_LEN then u8_at b (STAKE_V3_LEN + 4) else Some 0);
     Some \<lparr>sp_bump = bump, sp_amba_decimals = amba_decimals, sp_haircut_bps = haircut_bps,
       sp_profit_bps = profit_bps, sp_buffer_bps = buffer_bps, sp_vault = vault, sp_operator = operator,
       sp_amba_mint = amba_mint, sp_amba_account = amba_account, sp_usdc_account = usdc_account, sp_usdc_mint
       = usdc_mint, sp_staked = staked, sp_shares = shares, sp_allocated = allocated, sp_buffer = buffer,
       sp_recovery_owed = recovery_owed, sp_price = price, sp_price_ts = price_ts, sp_twap = twap,
       sp_twap_window = twap_window, sp_expiry_window = expiry_window, sp_usdc_acc = usdc_acc,
       sp_usdc_distributed = usdc_distributed, sp_usdc_paid = usdc_paid, sp_profit_in = profit_in, sp_covered
       = covered, sp_slashed = slashed, sp_staked_in = staked_in, sp_unstaked = unstaked, sp_created_ts =
       created_ts, sp_epoch = epoch, sp_epoch_ends = epoch_ends, sp_epoch_rates = epoch_rates, sp_share_index
       = share_index, sp_wipe_epoch = wipe_epoch, sp_first_price_ts = first_price_ts, sp_unbonding =
       unbonding, sp_credit_markets = credit_markets, sp_credit_counted = (flag \<noteq> 0), sp_rewards =
       rewards\<rparr> }"

definition stake_pool_read :: "bytes \<Rightarrow> stake_pool res" where
  "stake_pool_read b =
     (if length b \<notin> {STAKE_V1_LEN, STAKE_V2_LEN, STAKE_V3_LEN, STAKE_LEN} \<or> sub_bytes b 0 8 \<noteq> Some STAKE_MAGIC
      then Some (Inl InvalidAccount)
      else do {
        r \<leftarrow> sub_bytes b STAKE_HEAD (STAKE_V1_LEN - STAKE_HEAD);
        (if take 8 r = REWARDS_MAGIC
         then do {
           answer \<leftarrow> rewards_read r;
           (case answer of
              Inl e \<Rightarrow> Some (Inl e)
            | Inr r \<Rightarrow> map_option Inr (stake_pool_parse b (Some r))) }
         else map_option Inr (stake_pool_parse b None)) })"

record stake_position =
  sk_bump :: u8
  sk_pool :: pubkey
  sk_owner :: pubkey
  sk_shares :: u64
  sk_staked_in :: u64
  sk_unstaked :: u64
  sk_reward_snapshot :: u128
  sk_reward_pending :: u64
  sk_reward_paid :: u64
  sk_usdc_snapshot :: u128
  sk_usdc_pending :: u64
  sk_usdc_paid :: u64
  sk_epoch :: u32
  sk_index :: u128
  sk_unbonding :: u64
  sk_unbond_ts :: u64

definition stake_position_ok :: "stake_position \<Rightarrow> bool" where
  "stake_position_ok p \<longleftrightarrow>
     sk_bump p < 2 ^ 8 \<and> length (sk_pool p) = 32 \<and> length (sk_owner p) = 32 \<and>
     sk_shares p < 2 ^ 64 \<and> sk_staked_in p < 2 ^ 64 \<and> sk_unstaked p < 2 ^ 64 \<and>
     sk_reward_snapshot p < 2 ^ 128 \<and> sk_reward_pending p < 2 ^ 64 \<and>
     sk_reward_paid p < 2 ^ 64 \<and> sk_usdc_snapshot p < 2 ^ 128 \<and> sk_usdc_pending p < 2 ^ 64 \<and>
     sk_usdc_paid p < 2 ^ 64 \<and> sk_epoch p < 2 ^ 32 \<and> sk_index p < 2 ^ 128 \<and>
     sk_unbonding p < 2 ^ 64 \<and> sk_unbond_ts p < 2 ^ 64"

definition stake_position_puts :: "stake_position \<Rightarrow> field list" where
  "stake_position_puts p = [
     put_bytes 0 STAKE_POS_MAGIC, put8 8 (sk_bump p), put_key 16 (sk_pool p), put_key 48 (sk_owner p),
     put64 80 (sk_shares p), put64 88 (sk_staked_in p), put64 96 (sk_unstaked p),
     put128 104 (sk_reward_snapshot p), put64 120 (sk_reward_pending p), put64 128 (sk_reward_paid p),
     put128 136 (sk_usdc_snapshot p), put64 152 (sk_usdc_pending p), put64 160 (sk_usdc_paid p),
     put32 168 (sk_epoch p), put128 176 (sk_index p)]"

definition stake_position_fields :: "stake_position \<Rightarrow> usize \<Rightarrow> field list" where
  "stake_position_fields p n = fill_zero 0 n # stake_position_puts p
     @ (if STAKE_POS_LEN \<le> n then [put64 192 (sk_unbonding p), put64 200 (sk_unbond_ts p)] else [])"

definition stake_position_write :: "stake_position \<Rightarrow> bytes \<Rightarrow> bytes option" where
  "stake_position_write p b = puts (stake_position_fields p (length b)) b"

definition stake_position_parse :: "bytes \<Rightarrow> stake_position option" where
  "stake_position_parse b = do {
     let timer = length b = STAKE_POS_LEN;
     bump \<leftarrow> u8_at b 8; pool \<leftarrow> key_at b 16; owner \<leftarrow> key_at b 48;
     shares \<leftarrow> u64_at b 80; staked_in \<leftarrow> u64_at b 88; unstaked \<leftarrow> u64_at b 96;
     reward_snapshot \<leftarrow> u128_at b 104; reward_pending \<leftarrow> u64_at b 120;
     reward_paid \<leftarrow> u64_at b 128; usdc_snapshot \<leftarrow> u128_at b 136;
     usdc_pending \<leftarrow> u64_at b 152; usdc_paid \<leftarrow> u64_at b 160;
     epoch \<leftarrow> u32_at b 168; index \<leftarrow> u128_at b 176;
     unbonding \<leftarrow> (if timer then u64_at b 192 else Some 0);
     unbond_ts \<leftarrow> (if timer then u64_at b 200 else Some 0);
     Some \<lparr>sk_bump = bump, sk_pool = pool, sk_owner = owner, sk_shares = shares, sk_staked_in =
       staked_in, sk_unstaked = unstaked, sk_reward_snapshot = reward_snapshot, sk_reward_pending =
       reward_pending, sk_reward_paid = reward_paid, sk_usdc_snapshot = usdc_snapshot, sk_usdc_pending =
       usdc_pending, sk_usdc_paid = usdc_paid, sk_epoch = epoch, sk_index = index, sk_unbonding = unbonding,
       sk_unbond_ts = unbond_ts\<rparr> }"

definition stake_position_read :: "bytes \<Rightarrow> stake_position res" where
  "stake_position_read b =
     (if length b \<notin> {STAKE_POS_V1_LEN, STAKE_POS_LEN} \<or> sub_bytes b 0 8 \<noteq> Some STAKE_POS_MAGIC
      then Some (Inl InvalidAccount) else map_option Inr (stake_position_parse b))"

subsection \<open>Round trips\<close>

lemma registry_disjoint: "registry_ok r \<Longrightarrow> disjoint_fields (registry_fields r)"
  by (rule disjoint_fieldsI) (simp add: registry_fields_def registry_ok_def fields_simps magic_lengths)

lemma registry_fit: "registry_ok r \<Longrightarrow> \<forall>f\<in>set (registry_fields r). fst f + length (snd f) \<le> REGISTRY_LEN"
  by (simp add: registry_fields_def registry_ok_def fields_simps magic_lengths)

interpretation registry_acc: account_codec "\<lambda>r n. registry_ok r \<and> n = REGISTRY_LEN" "\<lambda>r _. registry_fields r" registry_read
proof
  show "fst f + length (snd f) \<le> n" if "registry_ok r \<and> n = REGISTRY_LEN" "f \<in> set (registry_fields r)" for r n f
    using that registry_fit by blast
  show "\<exists>x. registry_read b = Some x" for b
    by (simp add: registry_read_def registry_parse_def at_defs sub_bytes_def)
  fix r b b'
  assume ok: "registry_ok r \<and> length b = REGISTRY_LEN" and w: "puts (registry_fields r) b = Some b'"
  have "\<forall>f\<in>set (registry_fields r). got b' f" by (rule puts_got [OF w registry_disjoint [OF conjunct1 [OF ok]]])
  with ok puts_length [OF w] show "registry_read b' = Some (Inr r)"
    by (simp add: registry_read_def registry_parse_def registry_fields_def read_back_simps registry_ok_def magic_lengths)
qed

lemma pool_disjoint: "pool_ok p \<Longrightarrow> disjoint_fields (pool_fields p)"
  by (rule disjoint_fieldsI) (simp add: pool_fields_def pool_ok_def fields_simps magic_lengths)

lemma pool_fit: "pool_ok p \<Longrightarrow> \<forall>f\<in>set (pool_fields p). fst f + length (snd f) \<le> POOL_LEN"
  by (simp add: pool_fields_def pool_ok_def fields_simps magic_lengths)

interpretation pool_acc: account_codec "\<lambda>p n. pool_ok p \<and> n = POOL_LEN" "\<lambda>p _. pool_fields p" pool_read
proof
  show "fst f + length (snd f) \<le> n" if "pool_ok p \<and> n = POOL_LEN" "f \<in> set (pool_fields p)" for p n f
    using that pool_fit by blast
  show "\<exists>x. pool_read b = Some x" for b
    by (simp add: pool_read_def pool_parse_def at_defs sub_bytes_def)
  fix p b b'
  assume ok: "pool_ok p \<and> length b = POOL_LEN" and w: "puts (pool_fields p) b = Some b'"
  have "\<forall>f\<in>set (pool_fields p). got b' f" by (rule puts_got [OF w pool_disjoint [OF conjunct1 [OF ok]]])
  with ok puts_length [OF w] show "pool_read b' = Some (Inr p)"
    by (simp add: pool_read_def pool_parse_def pool_fields_def read_back_simps pool_ok_def magic_lengths)
qed

lemma lp_position_disjoint: "lp_position_ok p \<Longrightarrow> disjoint_fields (lp_position_fields p)"
  by (rule disjoint_fieldsI) (simp add: lp_position_fields_def lp_position_ok_def fields_simps magic_lengths)

lemma lp_position_fit: "lp_position_ok p \<Longrightarrow> \<forall>f\<in>set (lp_position_fields p). fst f + length (snd f) \<le> LP_LEN"
  by (simp add: lp_position_fields_def lp_position_ok_def fields_simps magic_lengths)

interpretation lp_position_acc: account_codec "\<lambda>p n. lp_position_ok p \<and> n = LP_LEN" "\<lambda>p _. lp_position_fields p" lp_position_read
proof
  show "fst f + length (snd f) \<le> n" if "lp_position_ok p \<and> n = LP_LEN" "f \<in> set (lp_position_fields p)" for p n f
    using that lp_position_fit by blast
  show "\<exists>x. lp_position_read b = Some x" for b
    by (simp add: lp_position_read_def lp_position_parse_def at_defs sub_bytes_def)
  fix p b b'
  assume ok: "lp_position_ok p \<and> length b = LP_LEN" and w: "puts (lp_position_fields p) b = Some b'"
  have "\<forall>f\<in>set (lp_position_fields p). got b' f" by (rule puts_got [OF w lp_position_disjoint [OF conjunct1 [OF ok]]])
  with ok puts_length [OF w] show "lp_position_read b' = Some (Inr p)"
    by (simp add: lp_position_read_def lp_position_parse_def lp_position_fields_def read_back_simps lp_position_ok_def magic_lengths)
qed

text \<open>
  Accounts written in sections: what a section puts reads back when the later sections stay off its bytes.
\<close>

lemma puts_section:
  assumes "puts (xs @ ys @ zs) b = Some b'" "disjoint_fields ys" "\<forall>y\<in>set ys. within lo n y"
    "\<forall>z\<in>set zs. apart (place z) (lo, n)"
  shows "\<forall>y\<in>set ys. got b' y"
proof
  fix y
  assume y: "y \<in> set ys"
  obtain c d where c: "puts ys c = Some d" "puts zs d = Some b'"
    using assms(1) by (auto simp: puts_append checked_simps)
  have "sub_bytes b' (fst y) (length (snd y)) = sub_bytes d (fst y) (length (snd y))"
    by (rule puts_frame [OF c(2)]) (use assms(3,4) y in \<open>fastforce simp: apart_def within_def\<close>)
  with puts_got [OF c(1) assms(2)] y show "got b' y" by (simp add: got_def)
qed

lemma within_apart: "within lo n f \<Longrightarrow> lo' + n' \<le> lo \<or> lo + n \<le> lo' \<Longrightarrow> apart (place f) (lo', n')"
  by (auto simp: within_def apart_def)

lemma put_over: "put_field (at, x # xs) b = Some c \<Longrightarrow> put_field (at, [y]) c = put_field (at, y # xs) b"
  by (auto simp: put_field_def split: if_splits)

lemma those_map: "(\<And>i. i \<in> set is \<Longrightarrow> f i = Some (g i)) \<Longrightarrow> those (map f is) = Some (map g is)"
  by (induction "is") auto

lemma rewards_disjoint: "rewards_ok r \<Longrightarrow> disjoint_fields (rewards_puts r)"
  by (simp add: rewards_puts_def rewards_ok_def fields_simps magic_lengths)

lemma rewards_fit: "rewards_ok r \<Longrightarrow> \<forall>f\<in>set (rewards_fields r REWARDS_LEN). fst f + length (snd f) \<le> REWARDS_LEN"
  by (simp add: rewards_fields_def rewards_puts_def rewards_ok_def fields_simps magic_lengths)

text \<open>A section that holds the stream's fields reads as the stream.\<close>

lemma rewards_read_section:
  assumes "rewards_ok r" "length w = REWARDS_LEN" and get: "\<forall>f\<in>set (rewards_puts r). got w f"
  shows "rewards_read w = Some (Inr r)" "take 8 w = REWARDS_MAGIC"
proof -
  show "rewards_read w = Some (Inr r)"
    using assms by (simp add: rewards_read_def rewards_parse_def rewards_puts_def read_back_simps rewards_ok_def magic_lengths)
  have "sub_bytes w 0 8 = Some REWARDS_MAGIC" using get by (simp add: rewards_puts_def read_back_simps magic_lengths)
  then show "take 8 w = REWARDS_MAGIC" by (simp add: sub_bytes_def split: if_splits)
qed

interpretation rewards_acc: account_codec "\<lambda>r n. rewards_ok r \<and> n = REWARDS_LEN" rewards_fields rewards_read
proof
  show "fst f + length (snd f) \<le> n" if "rewards_ok r \<and> n = REWARDS_LEN" "f \<in> set (rewards_fields r n)" for r n f
    using that rewards_fit by blast
  show "\<exists>x. rewards_read b = Some x" for b
    by (simp add: rewards_read_def rewards_parse_def at_defs sub_bytes_def)
  fix r b b'
  assume ok: "rewards_ok r \<and> length b = REWARDS_LEN" and w: "puts (rewards_fields r (length b)) b = Some b'"
  obtain c where c: "puts (rewards_puts r) c = Some b'" using w by (auto simp: rewards_fields_def checked_simps)
  show "rewards_read b' = Some (Inr r)"
    using ok puts_got [OF c rewards_disjoint] puts_length [OF w] by (intro rewards_read_section(1)) auto
qed

subsubsection \<open>Vault positions\<close>

lemma puts_over: "puts ((at, x # xs) # (at, [y]) # fs) b = puts ((at, y # xs) # fs) b"
proof (cases "put_field (at, x # xs) b")
  case None
  then have "put_field (at, y # xs) b = None" by (simp add: put_field_def split: if_splits)
  with None show ?thesis by simp
next
  case (Some c)
  then show ?thesis using put_over [OF Some, of y] by simp
qed

text \<open>The position's fields with the paid rewards and the bump as the eight bytes they make.\<close>

definition vault_position_bytes :: "vault_position \<Rightarrow> field list" where
  "vault_position_bytes p = (0, VAULT_LP_MAGIC) # (8, word_of_nat (vp_bump p) # to_le 7 (vp_reward_paid p))
     # drop 3 (vault_position_fields p)"

lemma vault_position_merged:
  assumes "vp_bump p < 2 ^ 8" "vp_reward_paid p \<le> REWARD_PAID_MAX"
  shows "puts (vault_position_fields p) b = puts (vault_position_bytes p) b"
proof -
  have le: "to_le 8 (push_bit 8 (min (vp_reward_paid p) REWARD_PAID_MAX)) = 0 # to_le 7 (vp_reward_paid p)"
    using assms(2) to_le.simps(2) [of 7 "vp_reward_paid p * 256"] by (simp add: push_bit_eq_mult min_def)
  have b1: "to_le 1 (vp_bump p) = [word_of_nat (vp_bump p)]" using assms(1) by (simp add: to_le.simps)
  have "vault_position_fields p = (0, VAULT_LP_MAGIC) # (8, 0 # to_le 7 (vp_reward_paid p))
      # (8, [word_of_nat (vp_bump p)]) # drop 3 (vault_position_fields p)"
    by (simp add: vault_position_fields_def put8_def put64_def put_bytes_def le b1 [simplified])
  then have "puts (vault_position_fields p) b = do { b \<leftarrow> put_field (0, VAULT_LP_MAGIC) b;
      puts ((8, 0 # to_le 7 (vp_reward_paid p)) # (8, [word_of_nat (vp_bump p)]) # drop 3 (vault_position_fields p)) b }"
    by (metis puts.simps(2))
  then show ?thesis unfolding puts_over vault_position_bytes_def
    by (cases "put_field (0, VAULT_LP_MAGIC) b") simp_all
qed

lemma vault_position_parts:
  assumes "vault_position_ok p"
  shows "disjoint_fields (vault_position_bytes p)"
    and "\<forall>f\<in>set (vault_position_fields p). fst f + length (snd f) \<le> VAULT_LP_LEN"
  using assms
  by (simp_all add: vault_position_bytes_def vault_position_fields_def vault_position_ok_def fields_simps magic_lengths)

interpretation vault_position_acc: account_codec
  "\<lambda>p n. vault_position_ok p \<and> vp_reward_paid p \<le> REWARD_PAID_MAX \<and> n = VAULT_LP_LEN"
  "\<lambda>p _. vault_position_fields p" vault_position_read
proof
  show "fst f + length (snd f) \<le> n"
    if "vault_position_ok p \<and> vp_reward_paid p \<le> REWARD_PAID_MAX \<and> n = VAULT_LP_LEN" "f \<in> set (vault_position_fields p)" for p n f
    using that vault_position_parts(2) by blast
  show "\<exists>x. vault_position_read b = Some x" for b
    by (simp add: vault_position_read_def vault_position_parse_def at_defs sub_bytes_def)
  fix p b b'
  assume ok: "vault_position_ok p \<and> vp_reward_paid p \<le> REWARD_PAID_MAX \<and> length b = VAULT_LP_LEN"
    and w: "puts (vault_position_fields p) b = Some b'"
  have p: "vault_position_ok p" "vp_reward_paid p \<le> REWARD_PAID_MAX" "vp_bump p < 2 ^ 8"
    using ok by (auto simp: vault_position_ok_def)
  have m: "puts (vault_position_bytes p) b = Some b'" using w vault_position_merged [OF p(3,2)] by simp
  have get: "\<forall>f\<in>set (vault_position_bytes p). got b' f" by (rule puts_got [OF m vault_position_parts(1) [OF p(1)]])
  then have eight: "sub_bytes b' 8 8 = Some (word_of_nat (vp_bump p) # to_le 7 (vp_reward_paid p))"
    by (simp add: vault_position_bytes_def got_def)
  have u: "unat (word_of_nat (vp_bump p) :: byte) = vp_bump p" using p(3) by (simp add: unat_of_nat)
  have paid: "from_le (to_le 7 (vp_reward_paid p)) = vp_reward_paid p"
    using p(2) by (intro from_le_to_le) (simp add: REWARD_PAID_MAX_def push_bit_eq_mult)
  have "sub_bytes b' (8 + 0) 1 = sub_bytes (word_of_nat (vp_bump p) # to_le 7 (vp_reward_paid p)) 0 1"
    by (rule sub_bytes_in [OF eight, symmetric]) simp
  then have bump: "u8_at b' 8 = Some (vp_bump p)" by (simp add: u8_at_def sub_bytes_def u)
  have u64: "u64_at b' 8 = Some (vp_bump p + 256 * vp_reward_paid p)"
    by (simp add: u64_at_def eight u paid)
  have "drop_bit 8 (vp_bump p + 256 * vp_reward_paid p) = vp_reward_paid p"
    using p(3) by (simp add: drop_bit_eq_div)
  with p(1) ok get puts_length [OF w] bump u64 show "vault_position_read b' = Some (Inr p)"
    by (simp add: vault_position_read_def vault_position_parse_def vault_position_bytes_def vault_position_fields_def
        u128_at_def key_at_def got_def put_defs from_le_to_le_bits vault_position_ok_def magic_lengths
        u64_at_def [of _ 80] u64_at_def [of _ 88] u64_at_def [of _ 96] u64_at_def [of _ 120])
qed

subsubsection \<open>Stake positions\<close>

definition stake_position_fits :: "stake_position \<Rightarrow> usize \<Rightarrow> bool" where
  "stake_position_fits p n \<longleftrightarrow> stake_position_ok p \<and>
     (n = STAKE_POS_LEN \<or> n = STAKE_POS_V1_LEN \<and> sk_unbonding p = 0 \<and> sk_unbond_ts p = 0)"

lemma stake_position_disjoint: "stake_position_ok p \<Longrightarrow> disjoint_fields (tl (stake_position_fields p n))"
  by (simp add: stake_position_fields_def stake_position_puts_def stake_position_ok_def fields_simps magic_lengths)

lemma stake_position_fit:
  "stake_position_fits p n \<Longrightarrow> \<forall>f\<in>set (stake_position_fields p n). fst f + length (snd f) \<le> n"
  by (auto simp: stake_position_fits_def stake_position_fields_def stake_position_puts_def stake_position_ok_def fields_simps magic_lengths)

interpretation stake_position_acc: account_codec stake_position_fits stake_position_fields stake_position_read
proof
  show "fst f + length (snd f) \<le> n" if "stake_position_fits p n" "f \<in> set (stake_position_fields p n)" for p n f
    using that stake_position_fit by blast
  show "\<exists>x. stake_position_read b = Some x" for b
    by (auto simp: stake_position_read_def stake_position_parse_def at_defs sub_bytes_def)
  fix p b b'
  assume ok: "stake_position_fits p (length b)" and w: "puts (stake_position_fields p (length b)) b = Some b'"
  obtain c where c: "puts (tl (stake_position_fields p (length b))) c = Some b'"
    using w by (auto simp: stake_position_fields_def checked_simps)
  have p: "stake_position_ok p" using ok by (simp add: stake_position_fits_def)
  note get = puts_got [OF c stake_position_disjoint [OF p]]
  consider "length b = STAKE_POS_LEN" | "length b = STAKE_POS_V1_LEN" "sk_unbonding p = 0" "sk_unbond_ts p = 0"
    using ok by (auto simp: stake_position_fits_def)
  then show "stake_position_read b' = Some (Inr p)"
    using p get puts_length [OF w]
    by cases (simp_all add: stake_position_read_def stake_position_parse_def stake_position_fields_def
        stake_position_puts_def read_back_simps stake_position_ok_def magic_lengths)
qed

subsubsection \<open>The vault\<close>

definition vault_fits :: "vault \<Rightarrow> usize \<Rightarrow> bool" where
  "vault_fits v n \<longleftrightarrow> vault_ok v \<and> length (va_markets v) \<le> VAULT_MARKETS \<and> (\<forall>m\<in>set (va_markets v). length m = 32)
     \<and> (case va_rewards v of None \<Rightarrow> n = VAULT_LEN | Some r \<Rightarrow> rewards_ok r \<and> n = VAULT_REWARDS_LEN)"

lemma vault_head_disjoint: "vault_ok v \<Longrightarrow> disjoint_fields (vault_head v)"
  by (simp add: vault_head_def vault_ok_def fields_simps magic_lengths)

lemma vault_head_within: "vault_ok v \<Longrightarrow> \<forall>f\<in>set (vault_head v). within 0 VAULT_HEAD f"
  by (simp add: vault_head_def vault_ok_def fields_simps magic_lengths)

lemma market_fields_nth:
  "i < length ms \<Longrightarrow> market_fields ms ! i = (VAULT_HEAD + 32 * i, ms ! i)" "length (market_fields ms) = length ms"
  by (simp_all add: market_fields_def put_key_def nth_enumerate_eq)

lemma market_fields_within:
  assumes "length ms \<le> VAULT_MARKETS" "\<forall>m\<in>set ms. length m = 32"
  shows "\<forall>f\<in>set (market_fields ms). within VAULT_HEAD (VAULT_LEN - VAULT_HEAD) f"
proof
  fix f
  assume "f \<in> set (market_fields ms)"
  then obtain i where "i < length ms" "f = (VAULT_HEAD + 32 * i, ms ! i)"
    by (auto simp: in_set_conv_nth market_fields_nth)
  with assms show "within VAULT_HEAD (VAULT_LEN - VAULT_HEAD) f" by (simp add: within_def)
qed

lemma disjoint_fields_nth:
  "(\<And>i j. i < j \<Longrightarrow> j < length fs \<Longrightarrow> apart (place (fs ! i)) (place (fs ! j))) \<Longrightarrow> disjoint_fields fs"
proof (induction fs)
  case (Cons f fs)
  have "apart (place f) (place g)" if "g \<in> set fs" for g
    using that Cons.prems [of 0 "Suc _"] by (fastforce simp: in_set_conv_nth)
  moreover have "disjoint_fields fs" using Cons.prems [of "Suc _" "Suc _"] by (intro Cons.IH) simp
  ultimately show ?case by simp
qed simp

lemma market_fields_disjoint: "\<forall>m\<in>set ms. length m = 32 \<Longrightarrow> disjoint_fields (market_fields ms)"
  by (rule disjoint_fields_nth) (auto simp: market_fields_nth apart_def)

lemma shift_within: "(\<forall>f\<in>set fs. fst f + length (snd f) \<le> n) \<Longrightarrow> \<forall>f\<in>set (shift k fs). within k n f"
  by (fastforce simp: shift_def within_def)

lemma shift_disjoint: "disjoint_fields (shift k fs) = disjoint_fields fs"
  by (induction fs) (auto simp: shift_def apart_def)

text \<open>A stream in the section at \<open>k\<close> reads back.\<close>

lemma stream_section:
  assumes "rewards_ok r" "puts (xs @ shift k (rewards_fields r REWARDS_LEN) @ zs) b = Some b'"
    "\<forall>z\<in>set zs. apart (place z) (k, REWARDS_LEN)" "sub_bytes b' k REWARDS_LEN = Some w"
  shows "rewards_read w = Some (Inr r)" "take 8 w = REWARDS_MAGIC"
proof -
  have w2: "puts ((xs @ [(k, replicate REWARDS_LEN 0)]) @ shift k (rewards_puts r) @ zs) b = Some b'"
    using assms(2) by (simp add: rewards_fields_def shift_def fill_zero_def)
  have d2: "disjoint_fields (shift k (rewards_puts r))" using rewards_disjoint [OF assms(1)] by (simp add: shift_disjoint)
  have fit: "\<forall>f\<in>set (rewards_puts r). fst f + length (snd f) \<le> REWARDS_LEN"
    using rewards_fit [OF assms(1)] by (simp add: rewards_fields_def)
  have get: "\<forall>f\<in>set (shift k (rewards_puts r)). got b' f"
    by (rule puts_section [OF w2 d2 shift_within [OF fit] assms(3)])
  have len: "length w = REWARDS_LEN" using assms(4) by (auto simp: sub_bytes_def split: if_splits)
  have "\<forall>f\<in>set (rewards_puts r). got w f"
  proof
    fix f
    assume f: "f \<in> set (rewards_puts r)"
    then have "(\<lambda>(at, bs). (k + at, bs)) f \<in> set (shift k (rewards_puts r))" by (simp add: shift_def)
    with get have "got b' (k + fst f, snd f)" by (cases f) auto
    with f fit sub_bytes_in [OF assms(4), of "fst f" "length (snd f)"] show "got w f" by (simp add: got_def)
  qed
  note rewards_read_section [OF assms(1) len this]
  then show "rewards_read w = Some (Inr r)" "take 8 w = REWARDS_MAGIC" by auto
qed

definition vault_stream :: "vault \<Rightarrow> usize \<Rightarrow> field list" where
  "vault_stream v n = (case va_rewards v of
      Some r \<Rightarrow> if VAULT_REWARDS_LEN \<le> n then shift VAULT_LEN (rewards_fields r REWARDS_LEN) else [] | None \<Rightarrow> [])"

lemma vault_fields_parts: "vault_fields v n = vault_head v
    @ (fill_zero VAULT_HEAD (VAULT_LEN - VAULT_HEAD) # market_fields (va_markets v)) @ vault_stream v n"
  by (simp add: vault_fields_def vault_stream_def split: option.split)

lemma vault_stream_within: "vault_fits v n \<Longrightarrow> \<forall>f\<in>set (vault_stream v n). within VAULT_LEN REWARDS_LEN f \<and> n = VAULT_REWARDS_LEN"
  using shift_within [OF rewards_fit] by (auto simp: vault_fits_def vault_stream_def split: option.splits)

lemma vault_parse_back:
  assumes fits: "vault_fits v (length b)" and w: "puts (vault_fields v (length b)) b = Some b'"
  shows "vault_parse b' rs = Some (v\<lparr>va_rewards := rs\<rparr>)" "sub_bytes b' 0 8 = Some VAULT_MAGIC"
    "u8_at b' 9 = Some (length (va_markets v))"
proof -
  have v: "vault_ok v" "length (va_markets v) \<le> VAULT_MARKETS" "\<forall>m\<in>set (va_markets v). length m = 32"
    using fits by (auto simp: vault_fits_def)
  note stream = vault_stream_within [OF fits]
  have "\<forall>z\<in>set ((fill_zero VAULT_HEAD (VAULT_LEN - VAULT_HEAD) # market_fields (va_markets v)) @ vault_stream v (length b)).
      apart (place z) (0, VAULT_HEAD)"
    using market_fields_within [OF v(2,3)] stream
    by (fastforce simp: fill_zero_def within_def apart_def)
  from puts_section [OF _ vault_head_disjoint [OF v(1)] vault_head_within [OF v(1)] this, of "[]" b b', folded vault_fields_parts]
  have head: "\<forall>f\<in>set (vault_head v). got b' f" using w by simp
  have w': "puts ((vault_head v @ [fill_zero VAULT_HEAD (VAULT_LEN - VAULT_HEAD)]) @ market_fields (va_markets v)
      @ vault_stream v (length b)) b = Some b'"
    using w by (simp add: vault_fields_parts)
  have "\<forall>z\<in>set (vault_stream v (length b)). apart (place z) (VAULT_HEAD, VAULT_LEN - VAULT_HEAD)"
    using stream by (fastforce simp: within_def apart_def)
  note tail = puts_section [OF w' market_fields_disjoint [OF v(3)] market_fields_within [OF v(2,3)] this]
  have key: "key_at b' (VAULT_HEAD + 32 * i) = Some (va_markets v ! i)" if "i < length (va_markets v)" for i
  proof -
    have "got b' (VAULT_HEAD + 32 * i, va_markets v ! i)"
      using tail that by (metis market_fields_nth nth_mem)
    with that v(3) show ?thesis by (simp add: key_at_def got_def)
  qed
  show "sub_bytes b' 0 8 = Some VAULT_MAGIC" using head by (simp add: vault_head_def read_back_simps magic_lengths)
  show count: "u8_at b' 9 = Some (length (va_markets v))"
    using v(2) head by (simp add: vault_head_def u8_at_def put_defs got_def from_le_to_le_bits cast_def)
  have "those (map (\<lambda>i. key_at b' (VAULT_HEAD + 32 * i)) [0..<length (va_markets v)]) = Some (map ((!) (va_markets v)) [0..<length (va_markets v)])"
    by (rule those_map) (simp add: key)
  then have "those (map (\<lambda>i. key_at b' (VAULT_HEAD + 32 * i)) [0..<length (va_markets v)]) = Some (va_markets v)"
    by (simp add: map_nth)
  with v(1) count head show "vault_parse b' rs = Some (v\<lparr>va_rewards := rs\<rparr>)"
    by (simp add: vault_parse_def vault_head_def put_defs got_def u8_at_def [of _ 8] key_at_def [of _ 16] key_at_def [of _ 48]
        key_at_def [of _ 80] u64_at_def from_le_to_le_bits vault_ok_def)
qed

lemma vault_parts_within:
  assumes "vault_fits v n"
  shows "\<forall>f\<in>set (vault_fields v n). fst f + length (snd f) \<le> n"
proof -
  have "VAULT_LEN \<le> n" "vault_ok v" "length (va_markets v) \<le> VAULT_MARKETS" "\<forall>m\<in>set (va_markets v). length m = 32"
    using assms by (auto simp: vault_fits_def split: option.splits)
  with vault_head_within [of v] market_fields_within [of "va_markets v"] vault_stream_within [OF assms]
  show ?thesis by (fastforce simp: vault_fields_parts within_def fill_zero_def)
qed

lemma vault_parse_total:
  assumes "VAULT_LEN \<le> length b" "u8_at b 9 = Some c" "c \<le> VAULT_MARKETS"
  shows "\<exists>v. vault_parse b rs = Some v"
proof -
  have "those (map (\<lambda>i. key_at b (VAULT_HEAD + 32 * i)) [0..<c]) = Some (map (\<lambda>i. take 32 (drop (VAULT_HEAD + 32 * i) b)) [0..<c])"
    by (rule those_map) (use assms in \<open>simp add: key_at_def sub_bytes_def\<close>)
  with assms show ?thesis by (simp add: vault_parse_def) (simp add: at_defs sub_bytes_def)
qed

interpretation vault_acc: account_codec vault_fits vault_fields vault_read
proof
  show "fst f + length (snd f) \<le> n" if "vault_fits v n" "f \<in> set (vault_fields v n)" for v n f
    using that vault_parts_within by blast
  show "\<exists>x. vault_read b = Some x" for b
  proof (cases "(length b = VAULT_LEN \<or> length b = VAULT_REWARDS_LEN) \<and> sub_bytes b 0 8 = Some VAULT_MAGIC
      \<and> (\<exists>c. u8_at b 9 = Some c \<and> c \<le> VAULT_MARKETS)")
    case True
    then have "\<exists>v. vault_parse b rs = Some v" for rs using vault_parse_total by auto
    then obtain f where f: "\<And>rs. vault_parse b rs = Some (f rs)" by metis
    obtain a where "rewards_read (drop VAULT_LEN b) = Some a" using rewards_acc.read_answers by blast
    with True f show ?thesis by (cases a) (auto simp: vault_read_def)
  next
    case False
    then show ?thesis by (auto simp: vault_read_def split: option.splits)
  qed
  fix v b b'
  assume fits: "vault_fits v (length b)" and w: "puts (vault_fields v (length b)) b = Some b'"
  note parsed = vault_parse_back [OF fits w] and len = puts_length [OF w]
  have c: "length (va_markets v) \<le> VAULT_MARKETS" using fits by (simp add: vault_fits_def)
  show "vault_read b' = Some (Inr v)"
  proof (cases "va_rewards v")
    case None
    then have "length b = VAULT_LEN" using fits by (simp add: vault_fits_def)
    with parsed(2,3) parsed(1) [of None] len c None show ?thesis by (simp add: vault_read_def)
  next
    case (Some r)
    then have r: "rewards_ok r" "length b = VAULT_REWARDS_LEN" using fits by (auto simp: vault_fits_def)
    have sub: "sub_bytes b' VAULT_LEN REWARDS_LEN = Some (drop VAULT_LEN b')"
      using len r(2) by (simp add: sub_bytes_def)
    have "puts ((vault_head v @ (fill_zero VAULT_HEAD (VAULT_LEN - VAULT_HEAD) # market_fields (va_markets v)))
        @ shift VAULT_LEN (rewards_fields r REWARDS_LEN) @ []) b = Some b'"
      using w Some r(2) by (simp add: vault_fields_def)
    from stream_section(1) [OF r(1) this _ sub]
    have "rewards_read (drop VAULT_LEN b') = Some (Inr r)" by simp
    with parsed(2,3) parsed(1) [of "Some r"] len c Some r(2) show ?thesis by (simp add: vault_read_def)
  qed
qed

subsubsection \<open>The stake pool\<close>

text \<open>
  A pool fits its account when its length holds what it has: a shorter, older account has no unstaking
  shares, no count of its credit markets, and before the rates no rollover but full wipe-outs.
\<close>

definition stake_pool_fits :: "stake_pool \<Rightarrow> usize \<Rightarrow> bool" where
  "stake_pool_fits p n \<longleftrightarrow> stake_pool_ok p \<and>
     (if n = STAKE_LEN then sp_credit_counted p = counted p
      else n \<in> {STAKE_V1_LEN, STAKE_V2_LEN, STAKE_V3_LEN} \<and> \<not> sp_credit_counted p \<and> sp_credit_markets p = 0
        \<and> (n < STAKE_V3_LEN \<longrightarrow> sp_unbonding p = 0)
        \<and> (n = STAKE_V1_LEN \<longrightarrow> sp_epoch_rates p = replicate EPOCH_ENDS (0, 0) \<and> sp_share_index p = 0
             \<and> sp_wipe_epoch p = sp_epoch p))"

lemma list_of_four: "length xs = EPOCH_ENDS \<Longrightarrow> \<exists>a b c d. xs = [a, b, c, d]"
  by (auto simp: eval_nat_numeral length_Suc_conv)

lemma four_pairs: "length xs = EPOCH_ENDS \<Longrightarrow> \<exists>a a' b b' c c' d d'. xs = [(a, a'), (b, b'), (c, c'), (d, d')]"
  using list_of_four [of xs] by fastforce

lemma stake_head_parts:
  assumes "stake_pool_ok p"
  shows "disjoint_fields (stake_head p)" "\<forall>f\<in>set (stake_head p). within 0 368 f"
  using assms by (simp_all add: stake_head_def stake_pool_ok_def fields_simps magic_lengths)

lemma stake_epochs_parts:
  assumes "length (sp_epoch_ends p) = EPOCH_ENDS"
  shows "disjoint_fields (stake_epochs p)" "\<forall>f\<in>set (stake_epochs p). within 368 (STAKE_HEAD - 368) f"
  using list_of_four [OF assms] by (auto simp: stake_epochs_def fields_simps)

lemma stake_rates_parts:
  assumes "length (sp_epoch_rates p) = EPOCH_ENDS"
  shows "disjoint_fields (stake_rates p)" "\<forall>f\<in>set (stake_rates p). fst f + length (snd f) \<le> STAKE_V2_LEN - STAKE_V1_LEN"
  using list_of_four [OF assms] by (auto simp: stake_rates_def fields_simps)

definition stake_stream :: "stake_pool \<Rightarrow> field list" where
  "stake_stream p = (case sp_rewards p of
      Some r \<Rightarrow> shift STAKE_HEAD (rewards_fields r REWARDS_LEN)
    | None \<Rightarrow> [fill_zero STAKE_HEAD (STAKE_V1_LEN - STAKE_HEAD)])"

definition stake_tail :: "stake_pool \<Rightarrow> usize \<Rightarrow> field list" where
  "stake_tail p n = (if STAKE_V3_LEN \<le> n then [put64 STAKE_V2_LEN (sp_unbonding p)] else [])
     @ (if STAKE_LEN \<le> n
        then [put32 STAKE_V3_LEN (sp_credit_markets p), fill_zero (STAKE_V3_LEN + 4) 4,
          put8 (STAKE_V3_LEN + 4) (of_bool (counted p))]
        else [])"

definition stake_rates_section :: "stake_pool \<Rightarrow> usize \<Rightarrow> field list" where
  "stake_rates_section p n = (if STAKE_V2_LEN \<le> n then shift STAKE_V1_LEN (stake_rates p) else [])"

lemma stake_pool_fields_parts:
  "stake_pool_fields p n = stake_head p @ (fill_zero 368 (STAKE_HEAD - 368) # stake_epochs p) @ stake_stream p
     @ stake_rates_section p n @ stake_tail p n"
  by (simp add: stake_pool_fields_def stake_stream_def stake_tail_def stake_rates_section_def)

lemma stake_sections_within:
  assumes "stake_pool_ok p"
  shows "\<forall>f\<in>set (fill_zero 368 (STAKE_HEAD - 368) # stake_epochs p). within 368 (STAKE_HEAD - 368) f"
    "\<forall>f\<in>set (stake_stream p). within STAKE_HEAD (STAKE_V1_LEN - STAKE_HEAD) f"
    "\<forall>f\<in>set (stake_rates_section p n). within STAKE_V1_LEN (STAKE_V2_LEN - STAKE_V1_LEN) f"
    "\<forall>f\<in>set (stake_tail p n). within STAKE_V2_LEN (STAKE_LEN - STAKE_V2_LEN) f"
    "\<forall>f\<in>set (stake_rates_section p n). STAKE_V2_LEN \<le> n"
    "\<forall>f\<in>set (stake_tail p n). fst f + length (snd f) \<le> n"
proof -
  have p: "length (sp_epoch_ends p) = EPOCH_ENDS" "length (sp_epoch_rates p) = EPOCH_ENDS"
    "\<And>r. sp_rewards p = Some r \<Longrightarrow> rewards_ok r"
    using assms by (auto simp: stake_pool_ok_def split: option.splits)
  show "\<forall>f\<in>set (fill_zero 368 (STAKE_HEAD - 368) # stake_epochs p). within 368 (STAKE_HEAD - 368) f"
    using stake_epochs_parts(2) [OF p(1)] by (simp add: fill_zero_def within_def)
  show "\<forall>f\<in>set (stake_stream p). within STAKE_HEAD (STAKE_V1_LEN - STAKE_HEAD) f"
  proof (cases "sp_rewards p")
    case None
    then show ?thesis by (simp add: stake_stream_def fill_zero_def within_def)
  next
    case (Some r)
    then show ?thesis using shift_within [OF rewards_fit [OF p(3)]] by (simp add: stake_stream_def)
  qed
  show "\<forall>f\<in>set (stake_rates_section p n). within STAKE_V1_LEN (STAKE_V2_LEN - STAKE_V1_LEN) f"
    "\<forall>f\<in>set (stake_rates_section p n). STAKE_V2_LEN \<le> n"
    using shift_within [OF stake_rates_parts(2) [OF p(2)]] by (simp_all add: stake_rates_section_def)
  show "\<forall>f\<in>set (stake_tail p n). within STAKE_V2_LEN (STAKE_LEN - STAKE_V2_LEN) f"
    "\<forall>f\<in>set (stake_tail p n). fst f + length (snd f) \<le> n"
    by (auto simp: stake_tail_def fields_simps)
qed

lemma stake_got:
  assumes p: "stake_pool_ok p" and w: "puts (stake_pool_fields p n) b = Some b'"
  shows "\<forall>f\<in>set (stake_head p). got b' f" "\<forall>f\<in>set (stake_epochs p). got b' f"
    "\<forall>f\<in>set (stake_rates_section p n). got b' f"
proof -
  have four: "length (sp_epoch_ends p) = EPOCH_ENDS" "length (sp_epoch_rates p) = EPOCH_ENDS"
    using p by (auto simp: stake_pool_ok_def)
  note S = stake_sections_within [OF p] and w' = w [unfolded stake_pool_fields_parts]
  have off: "\<forall>z\<in>set (stake_tail p n). apart (place z) (lo, m)" if "lo + m \<le> STAKE_V2_LEN" for lo m
    using within_apart [OF bspec [OF S(4)]] that by auto
  have off': "\<forall>z\<in>set (stake_rates_section p n @ stake_tail p n). apart (place z) (lo, m)" if "lo + m \<le> STAKE_V1_LEN" for lo m
    using within_apart [OF bspec [OF S(3)]] off [of lo m] that by auto
  have off'': "\<forall>z\<in>set (stake_stream p @ stake_rates_section p n @ stake_tail p n). apart (place z) (lo, m)" if "lo + m \<le> STAKE_HEAD" for lo m
    using within_apart [OF bspec [OF S(2)]] off' [of lo m] that by auto
  have "\<forall>z\<in>set ((fill_zero 368 (STAKE_HEAD - 368) # stake_epochs p) @ stake_stream p @ stake_rates_section p n @ stake_tail p n).
      apart (place z) (0, 368)"
    using within_apart [OF bspec [OF S(1)], of _ 0 368] off'' [of 0 368] unfolding set_append by auto
  from puts_section [OF _ stake_head_parts [OF p] this, of "[]"] w' show "\<forall>f\<in>set (stake_head p). got b' f" by simp
  from puts_section [OF _ stake_epochs_parts [OF four(1)] off'' [of 368 "STAKE_HEAD - 368"],
      of "stake_head p @ [fill_zero 368 (STAKE_HEAD - 368)]"] w'
  show "\<forall>f\<in>set (stake_epochs p). got b' f" by simp
  have "disjoint_fields (stake_rates_section p n)"
    using stake_rates_parts(1) [OF four(2)] by (simp add: stake_rates_section_def shift_disjoint)
  from puts_section [OF _ this S(3) off [of STAKE_V1_LEN "STAKE_V2_LEN - STAKE_V1_LEN"],
      of "stake_head p @ (fill_zero 368 (STAKE_HEAD - 368) # stake_epochs p) @ stake_stream p"] w'
  show "\<forall>f\<in>set (stake_rates_section p n). got b' f" by simp
qed

lemma stake_tail_got:
  assumes "puts (xs @ stake_tail p n) b = Some b'"
  shows "STAKE_V3_LEN \<le> n \<Longrightarrow> got b' (put64 STAKE_V2_LEN (sp_unbonding p))"
    and "STAKE_LEN \<le> n \<Longrightarrow> got b' (put32 STAKE_V3_LEN (sp_credit_markets p))"
    and "STAKE_LEN \<le> n \<Longrightarrow> got b' (put8 (STAKE_V3_LEN + 4) (of_bool (counted p)))"
proof -
  show "got b' (put64 STAKE_V2_LEN (sp_unbonding p))" if "STAKE_V3_LEN \<le> n"
    using that puts_section [of xs "[put64 STAKE_V2_LEN (sp_unbonding p)]"
        "drop 1 (stake_tail p n)" b b' STAKE_V2_LEN 8] assms
    by (cases "STAKE_LEN \<le> n") (simp_all add: stake_tail_def put_defs apart_def within_def)
  assume n: "STAKE_LEN \<le> n"
  show "got b' (put32 STAKE_V3_LEN (sp_credit_markets p))"
    using n puts_section [of "xs @ [put64 STAKE_V2_LEN (sp_unbonding p)]" "[put32 STAKE_V3_LEN (sp_credit_markets p)]"
        "drop 2 (stake_tail p n)" b b' STAKE_V3_LEN 4] assms
    by (simp add: stake_tail_def put_defs apart_def within_def)
  show "got b' (put8 (STAKE_V3_LEN + 4) (of_bool (counted p)))"
    using n puts_section [of "xs @ butlast (stake_tail p n)" "[put8 (STAKE_V3_LEN + 4) (of_bool (counted p))]"
        "[]" b b' "STAKE_V3_LEN + 4" 1] assms
    by (simp add: stake_tail_def put_defs apart_def within_def)
qed

lemma stake_pool_parse_back:
  assumes fits: "stake_pool_fits p (length b)" and w: "puts (stake_pool_fields p (length b)) b = Some b'"
  shows "stake_pool_parse b' rs = Some (p\<lparr>sp_rewards := rs\<rparr>)" "sub_bytes b' 0 8 = Some STAKE_MAGIC"
proof -
  have p: "stake_pool_ok p" using fits by (simp add: stake_pool_fits_def)
  obtain a0 a1 b0 b1 c0 c1 d0 d1 where ends: "sp_epoch_ends p = [(a0, a1), (b0, b1), (c0, c1), (d0, d1)]"
    using p four_pairs [of "sp_epoch_ends p"] by (auto simp: stake_pool_ok_def)
  obtain k0 k1 l0 l1 m0 m1 n0 n1 where rates: "sp_epoch_rates p = [(k0, k1), (l0, l1), (m0, m1), (n0, n1)]"
    using p four_pairs [of "sp_epoch_rates p"] by (auto simp: stake_pool_ok_def)
  note G = stake_got [OF p w]
  have four: "[0..<EPOCH_ENDS] = [0, 1, 2, 3]" by (simp add: upt_rec)
  have ends': "epoch_ends_at b' = Some (sp_epoch_ends p)"
    using G(2) p by (simp add: stake_pool_ok_def epoch_ends_at_def four u128_at_def stake_epochs_def ends put_defs got_def
        from_le_to_le_bits)
  have rates': "epoch_rates_at b' = Some (sp_epoch_rates p)" "u128_at b' (STAKE_V1_LEN + 16 * EPOCH_ENDS) = Some (sp_share_index p)"
    if "STAKE_V2_LEN \<le> length b"
    using G(3) p that by (simp_all add: stake_pool_ok_def epoch_rates_at_def four u64_at_def u128_at_def stake_rates_section_def
        stake_rates_def shift_def rates put_defs got_def from_le_to_le_bits)
  note tail = stake_tail_got [of "stake_head p @ (fill_zero 368 (STAKE_HEAD - 368) # stake_epochs p) @ stake_stream p
      @ stake_rates_section p (length b)" p "length b" b b', simplified append_assoc,
      folded stake_pool_fields_parts [simplified append_assoc], OF w]
  show "sub_bytes b' 0 8 = Some STAKE_MAGIC" using G(1) by (simp add: stake_head_def read_back_simps magic_lengths)
  have low: "u8_at b' 8 = Some (sp_bump p)" "u8_at b' 9 = Some (sp_amba_decimals p)" "u16_at b' 10 = Some (sp_haircut_bps p)"
    "u16_at b' 12 = Some (sp_profit_bps p)" "u16_at b' 14 = Some (sp_buffer_bps p)" "key_at b' 16 = Some (sp_vault p)"
    "key_at b' 48 = Some (sp_operator p)" "key_at b' 80 = Some (sp_amba_mint p)" "key_at b' 112 = Some (sp_amba_account p)"
    "key_at b' 144 = Some (sp_usdc_account p)" "key_at b' 176 = Some (sp_usdc_mint p)" "u64_at b' 208 = Some (sp_staked p)"
    "u64_at b' 216 = Some (sp_shares p)" "u64_at b' 224 = Some (sp_allocated p)" "u64_at b' 232 = Some (sp_buffer p)"
    "u64_at b' 240 = Some (sp_recovery_owed p)" "u64_at b' 248 = Some (sp_price p)" "u64_at b' 256 = Some (sp_price_ts p)"
    "u64_at b' 264 = Some (sp_twap p)" "u64_at b' 272 = Some (sp_twap_window p)" "u64_at b' 280 = Some (sp_expiry_window p)"
    "u128_at b' 288 = Some (sp_usdc_acc p)" "u64_at b' 304 = Some (sp_usdc_distributed p)" "u64_at b' 312 = Some (sp_usdc_paid p)"
    "u64_at b' 320 = Some (sp_profit_in p)" "u64_at b' 328 = Some (sp_covered p)" "u64_at b' 336 = Some (sp_slashed p)"
    "u64_at b' 344 = Some (sp_staked_in p)" "u64_at b' 352 = Some (sp_unstaked p)" "u64_at b' 360 = Some (sp_created_ts p)"
    using G(1) p by (simp_all add: stake_head_def read_back_simps stake_pool_ok_def)
  have mid: "u32_at b' 368 = Some (sp_epoch p)" "u32_at b' 372 = Some (sp_wipe_epoch p)" "u64_at b' 376 = Some (sp_first_price_ts p)"
    using G(2) p by (simp_all add: stake_epochs_def read_back_simps stake_pool_ok_def)
  have unbonding: "u64_at b' STAKE_V2_LEN = Some (sp_unbonding p)" if "STAKE_V3_LEN \<le> length b"
    using p tail(1) [OF that] by (simp add: read_back_simps stake_pool_ok_def)
  have count: "u32_at b' STAKE_V3_LEN = Some (sp_credit_markets p)" "u8_at b' (STAKE_V3_LEN + 4) = Some (of_bool (counted p))"
    if "length b = STAKE_LEN"
    using p tail(2,3) that by (simp_all add: read_back_simps stake_pool_ok_def)
  note len = puts_length [OF w]
  consider "length b = STAKE_LEN" "sp_credit_counted p = counted p"
    | "length b = STAKE_V3_LEN" "\<not> sp_credit_counted p" "sp_credit_markets p = 0"
    | "length b = STAKE_V2_LEN" "\<not> sp_credit_counted p" "sp_credit_markets p = 0" "sp_unbonding p = 0"
    | "length b = STAKE_V1_LEN" "\<not> sp_credit_counted p" "sp_credit_markets p = 0" "sp_unbonding p = 0"
      "sp_epoch_rates p = replicate EPOCH_ENDS (0, 0)" "sp_share_index p = 0" "sp_wipe_epoch p = sp_epoch p"
    using fits by (auto simp: stake_pool_fits_def split: if_splits)
  then show "stake_pool_parse b' rs = Some (p\<lparr>sp_rewards := rs\<rparr>)"
  proof cases
    case 1
    then show ?thesis using len rates' unbonding count by (simp add: stake_pool_parse_def low mid ends')
  next
    case 2
    then show ?thesis using len rates' unbonding by (simp add: stake_pool_parse_def low mid ends')
  next
    case 3
    then show ?thesis using len rates' by (simp add: stake_pool_parse_def low mid ends')
  next
    case 4
    then show ?thesis using len by (simp add: stake_pool_parse_def low mid ends')
  qed
qed

lemma stake_pool_fit:
  assumes "stake_pool_fits p n"
  shows "\<forall>f\<in>set (stake_pool_fields p n). fst f + length (snd f) \<le> n"
proof -
  have p: "stake_pool_ok p" and n: "STAKE_V1_LEN \<le> n" using assms by (auto simp: stake_pool_fits_def split: if_splits)
  note S = stake_sections_within [OF p]
  have fit: "\<forall>f\<in>F. fst f + length (snd f) \<le> n" if "\<forall>f\<in>F. within lo k f" "lo + k \<le> n" for F lo k
    using that by (fastforce simp: within_def)
  have "\<forall>f\<in>set (stake_rates_section p n). fst f + length (snd f) \<le> n"
    using fit [OF S(3)] S(5) [of n] by fastforce
  moreover note fit [OF stake_head_parts(2) [OF p]] fit [OF S(1)] fit [OF S(2)] S(6) [of n] n
  ultimately show ?thesis unfolding stake_pool_fields_parts set_append ball_Un by simp
qed

lemma stake_pool_parse_total:
  assumes "length b \<in> {STAKE_V1_LEN, STAKE_V2_LEN, STAKE_V3_LEN, STAKE_LEN}"
  shows "\<exists>p. stake_pool_parse b rs = Some p"
proof -
  have four: "[0..<EPOCH_ENDS] = [0, 1, 2, 3]" by (simp add: upt_rec)
  have "STAKE_V1_LEN \<le> length b" using assms by auto
  then have ends: "epoch_ends_at b \<noteq> None" by (simp add: epoch_ends_at_def four u128_at_def sub_bytes_def)
  have rates: "epoch_rates_at b \<noteq> None" if "STAKE_V2_LEN \<le> length b"
    using that by (simp add: epoch_rates_at_def four u64_at_def sub_bytes_def)
  show ?thesis
    using assms ends rates
    by (auto simp: stake_pool_parse_def Let_def) (simp_all add: at_defs sub_bytes_def)
qed

lemma magic_not_zero: "take 8 (replicate REWARDS_LEN 0) \<noteq> REWARDS_MAGIC"
proof
  assume "take 8 (replicate REWARDS_LEN 0) = REWARDS_MAGIC"
  then have "hd REWARDS_MAGIC = hd (replicate 8 0)" by simp
  then have "hd REWARDS_MAGIC = 0" by simp
  moreover have "hd REWARDS_MAGIC = 65" by (simp add: REWARDS_MAGIC_def ascii_def)
  ultimately show False by simp
qed

interpretation stake_pool_acc: account_codec stake_pool_fits stake_pool_fields stake_pool_read
proof
  show "fst f + length (snd f) \<le> n" if "stake_pool_fits p n" "f \<in> set (stake_pool_fields p n)" for p n f
    using that stake_pool_fit by blast
  show "\<exists>x. stake_pool_read b = Some x" for b
  proof (cases "length b \<in> {STAKE_V1_LEN, STAKE_V2_LEN, STAKE_V3_LEN, STAKE_LEN} \<and> sub_bytes b 0 8 = Some STAKE_MAGIC")
    case True
    obtain f where f: "\<And>rs. stake_pool_parse b rs = Some (f rs)" using stake_pool_parse_total True by metis
    obtain w where w: "sub_bytes b STAKE_HEAD (STAKE_V1_LEN - STAKE_HEAD) = Some w"
      using True by (auto simp: sub_bytes_def)
    obtain a where "rewards_read w = Some a" using rewards_acc.read_answers by blast
    with True f w show ?thesis by (cases a) (simp_all add: stake_pool_read_def)
  next
    case False
    then show ?thesis by (auto simp: stake_pool_read_def)
  qed
  fix p b b'
  assume fits: "stake_pool_fits p (length b)" and w: "puts (stake_pool_fields p (length b)) b = Some b'"
  have p: "stake_pool_ok p" and len: "length b \<in> {STAKE_V1_LEN, STAKE_V2_LEN, STAKE_V3_LEN, STAKE_LEN}"
    using fits by (auto simp: stake_pool_fits_def split: if_splits)
  note parsed = stake_pool_parse_back [OF fits w] and len' = puts_length [OF w] and S = stake_sections_within [OF p]
  obtain v where v: "sub_bytes b' STAKE_HEAD (STAKE_V1_LEN - STAKE_HEAD) = Some v"
    using len len' by (auto simp: sub_bytes_def)
  let ?pre = "stake_head p @ (fill_zero 368 (STAKE_HEAD - 368) # stake_epochs p)"
    and ?post = "stake_rates_section p (length b) @ stake_tail p (length b)"
  have w': "puts (?pre @ stake_stream p @ ?post) b = Some b'" using w by (simp add: stake_pool_fields_parts)
  have off: "\<forall>z\<in>set ?post. apart (place z) (STAKE_HEAD, STAKE_V1_LEN - STAKE_HEAD)"
    using within_apart [OF bspec [OF S(3)]] within_apart [OF bspec [OF S(4)]] by auto
  show "stake_pool_read b' = Some (Inr p)"
  proof (cases "sp_rewards p")
    case None
    then have "stake_stream p = [(STAKE_HEAD, replicate REWARDS_LEN 0)]" by (simp add: stake_stream_def fill_zero_def)
    with puts_section [OF w' _ S(2) off] have "got b' (STAKE_HEAD, replicate REWARDS_LEN 0)" by simp
    with v have "v = replicate REWARDS_LEN 0" by (simp add: got_def)
    with magic_not_zero have "take 8 v \<noteq> REWARDS_MAGIC" by metis
    with parsed(2) parsed(1) [of None] v len len' None show ?thesis by (simp add: stake_pool_read_def)
  next
    case (Some r)
    then have r: "rewards_ok r" "stake_stream p = shift STAKE_HEAD (rewards_fields r REWARDS_LEN)"
      using p by (auto simp: stake_pool_ok_def stake_stream_def)
    have "rewards_read v = Some (Inr r)" "take 8 v = REWARDS_MAGIC"
      using stream_section [OF r(1) w' [unfolded r(2)]] off v by auto
    with parsed(2) parsed(1) [of "Some r"] v len len' Some show ?thesis by (simp add: stake_pool_read_def)
  qed
qed

subsection \<open>What every account keeps\<close>

text \<open>
  C31. Every account reads back what was written to it, whichever of its lengths it has, when the length holds
  all of the record: the registry, pools and their positions, vaults with and without a reward stream, vault
  positions up to the paid rewards their seven bytes hold, stake pools of each of their four layouts and stake
  positions of both of theirs.
\<close>

theorem accounts_round_trip:
  "(registry_ok r \<and> length b = REGISTRY_LEN \<longrightarrow> (\<exists>b'. registry_write r b = Some b' \<and> registry_read b' = Some (Inr r)))
   \<and> (pool_ok p \<and> length b = POOL_LEN \<longrightarrow> (\<exists>b'. pool_write p b = Some b' \<and> pool_read b' = Some (Inr p)))
   \<and> (lp_position_ok l \<and> length b = LP_LEN \<longrightarrow> (\<exists>b'. lp_position_write l b = Some b' \<and> lp_position_read b' = Some (Inr l)))
   \<and> (rewards_ok rw \<and> length b = REWARDS_LEN \<longrightarrow> (\<exists>b'. rewards_write rw b = Some b' \<and> rewards_read b' = Some (Inr rw)))
   \<and> (vault_fits v (length b) \<longrightarrow> (\<exists>b'. vault_write v b = Some b' \<and> vault_read b' = Some (Inr v)))
   \<and> (vault_position_ok vp \<and> vp_reward_paid vp \<le> REWARD_PAID_MAX \<and> length b = VAULT_LP_LEN \<longrightarrow>
        (\<exists>b'. vault_position_write vp b = Some b' \<and> vault_position_read b' = Some (Inr vp)))
   \<and> (stake_pool_fits sp (length b) \<longrightarrow> (\<exists>b'. stake_pool_write sp b = Some b' \<and> stake_pool_read b' = Some (Inr sp)))
   \<and> (stake_position_fits sk (length b) \<longrightarrow>
        (\<exists>b'. stake_position_write sk b = Some b' \<and> stake_position_read b' = Some (Inr sk)))"
  unfolding registry_write_def pool_write_def lp_position_write_def rewards_write_def vault_write_def
    vault_position_write_def stake_pool_write_def stake_position_write_def
  using registry_acc.round_trip [of r b] pool_acc.round_trip [of p b] lp_position_acc.round_trip [of l b]
    rewards_acc.round_trip [of rw b] vault_acc.round_trip [of v b] vault_position_acc.round_trip [of vp b]
    stake_pool_acc.round_trip [of sp b] stake_position_acc.round_trip [of sk b]
  by (intro conjI impI) blast+

theorem accounts_round_trip_witness:
  "\<exists>b'. stake_position_write \<lparr>sk_bump = 254, sk_pool = replicate 32 1, sk_owner = replicate 32 2, sk_shares = 1000,
        sk_staked_in = 900, sk_unstaked = 0, sk_reward_snapshot = 7, sk_reward_pending = 5, sk_reward_paid = 3,
        sk_usdc_snapshot = 2, sk_usdc_pending = 1, sk_usdc_paid = 0, sk_epoch = 4, sk_index = 2 ^ 126,
        sk_unbonding = 10, sk_unbond_ts = 1700000000\<rparr> (replicate STAKE_POS_LEN 0) = Some b'"
proof -
  define sk where "sk = \<lparr>sk_bump = 254, sk_pool = replicate 32 1, sk_owner = replicate 32 2, sk_shares = 1000,
        sk_staked_in = 900, sk_unstaked = 0, sk_reward_snapshot = 7, sk_reward_pending = 5, sk_reward_paid = 3,
        sk_usdc_snapshot = 2, sk_usdc_pending = 1, sk_usdc_paid = 0, sk_epoch = 4, sk_index = 2 ^ 126,
        sk_unbonding = 10, sk_unbond_ts = 1700000000\<rparr>"
  have "stake_position_fits sk (length (replicate STAKE_POS_LEN (0 :: byte)))"
    by (simp add: stake_position_fits_def stake_position_ok_def sk_def)
  then have "\<exists>b'. stake_position_write sk (replicate STAKE_POS_LEN 0) = Some b'"
    using accounts_round_trip by blast
  then show ?thesis by (simp add: sk_def)
qed

text \<open>
  No account data aborts the program's readers: whatever the bytes, each of them answers, and every account
  of a length that is not its own is refused as \<open>InvalidAccount\<close>.
\<close>

theorem account_reads_answer:
  "(\<exists>x. registry_read b = Some x) \<and> (\<exists>x. pool_read b = Some x) \<and> (\<exists>x. lp_position_read b = Some x)
   \<and> (\<exists>x. vault_read b = Some x) \<and> (\<exists>x. vault_position_read b = Some x)
   \<and> (\<exists>x. stake_pool_read b = Some x) \<and> (\<exists>x. stake_position_read b = Some x)
   \<and> (length b \<noteq> VAULT_LEN \<and> length b \<noteq> VAULT_REWARDS_LEN \<longrightarrow> vault_read b = Some (Inl InvalidAccount))
   \<and> (length b \<notin> {STAKE_V1_LEN, STAKE_V2_LEN, STAKE_V3_LEN, STAKE_LEN} \<longrightarrow> stake_pool_read b = Some (Inl InvalidAccount))
   \<and> (length b \<noteq> VAULT_LP_LEN \<longrightarrow> vault_position_read b = Some (Inl InvalidAccount))"
proof -
  have "length b \<noteq> VAULT_LEN \<and> length b \<noteq> VAULT_REWARDS_LEN \<longrightarrow> vault_read b = Some (Inl InvalidAccount)"
    by (simp add: vault_read_def)
  moreover have "length b \<notin> {STAKE_V1_LEN, STAKE_V2_LEN, STAKE_V3_LEN, STAKE_LEN} \<longrightarrow> stake_pool_read b = Some (Inl InvalidAccount)"
    by (simp add: stake_pool_read_def)
  moreover have "length b \<noteq> VAULT_LP_LEN \<longrightarrow> vault_position_read b = Some (Inl InvalidAccount)"
    by (simp add: vault_position_read_def)
  ultimately show ?thesis
    using registry_acc.read_answers pool_acc.read_answers lp_position_acc.read_answers vault_acc.read_answers
      vault_position_acc.read_answers stake_pool_acc.read_answers stake_position_acc.read_answers
    by (intro conjI) blast+
qed

theorem account_reads_answer_witness: "stake_pool_read (replicate 703 0) = Some (Inl InvalidAccount)"
  using account_reads_answer [of "replicate 703 0"] by simp

end
