(* ===== verification/Wide_Arith.thy ===== *)
theory Wide_Arith
  imports Rust_Base
begin

text \<open>
  256-bit products and quotients in 128-bit limbs: \<open>mul_wide\<close> and \<open>mul_div\<close> of \<open>programs/futures/src/state.rs\<close>,
  and \<open>mul_div\<close> and \<open>amba_price\<close> of \<open>programs/futures/src/price_source.rs\<close>. The long division runs bit by bit
  with a remainder that may pass 128 bits when doubled; the theorem says that every path of it is the exact
  quotient.
\<close>

unbundle bit_operations_syntax

definition M64 :: u128 where
  "M64 = 2 ^ 64 - 1"

definition mul_wide :: "u128 \<Rightarrow> u128 \<Rightarrow> u128 \<times> u128" where
  "mul_wide a b =
     (let a1 = drop_bit 64 a; a0 = a AND M64; b1 = drop_bit 64 b; b0 = b AND M64;
          p00 = a0 * b0; p01 = a0 * b1; p10 = a1 * b0; p11 = a1 * b1;
          mid = drop_bit 64 p00 + (p01 AND M64) + (p10 AND M64)
      in (p11 + drop_bit 64 p01 + drop_bit 64 p10 + drop_bit 64 mid,
          cast 128 (push_bit 64 mid) OR (p00 AND M64)))"

text \<open>One bit of the long division of \<open>(hi, lo)\<close> by \<open>c\<close>.\<close>

definition div_bit :: "u128 \<Rightarrow> u128 \<Rightarrow> nat \<Rightarrow> u128 \<times> u128 \<Rightarrow> u128 \<times> u128" where
  "div_bit lo c i st = (case st of (rem, q) \<Rightarrow>
     let carry = drop_bit 127 rem;
         rem = cast 128 (push_bit 1 rem) OR (drop_bit i lo AND 1);
         q = cast 128 (push_bit 1 q)
     in if carry = 1 \<or> c \<le> rem then (wrapping_sub 128 rem c, q OR 1) else (rem, q))"

definition div_limb :: "u128 \<Rightarrow> u128 \<Rightarrow> u128 \<times> u128 \<Rightarrow> u128 \<times> u128" where
  "div_limb c limb st = (case st of (rem, q) \<Rightarrow>
     let n = cast 128 (push_bit 64 rem) OR limb
     in (n mod c, cast 128 (push_bit 64 q) OR (n div c)))"

definition mul_div :: "u128 \<Rightarrow> u128 \<Rightarrow> u128 \<Rightarrow> u128 option" where
  "mul_div a b c =
     (if c = 0 then None
      else case checked_mul 128 a b of
        Some v \<Rightarrow> Some (v div c)
      | None \<Rightarrow>
          let (hi, lo) = mul_wide a b in
          if c \<le> hi then None
          else if c \<le> M64 then Some (snd (fold (div_limb c) [drop_bit 64 lo, lo AND M64] (hi, 0)))
          else Some (snd (fold (div_bit lo c) (rev [0..<128]) (hi, 0))))"

definition price_mul_div :: "u128 \<Rightarrow> u128 \<Rightarrow> u128 \<Rightarrow> u128 option" where
  "price_mul_div a b d =
     (if d = 0 then None
      else let (hi, lo) = mul_wide a b in
        if d \<le> hi then None else Some (snd (fold (div_bit lo d) (rev [0..<128]) (hi, 0))))"

definition amba_price :: "u128 \<Rightarrow> u8 \<Rightarrow> i64 \<Rightarrow> int \<Rightarrow> u64 option" where
  "amba_price sqrt_price amba_decimals sol_usd exponent =
     (if sol_usd \<le> 0 then None
      else let sol = nat sol_usd; e = int amba_decimals - 9 + 6 + 6 + exponent in
        if e < -19 \<or> 19 < e then None
        else let pow = 10 ^ nat \<bar>e\<bar>; q64 = push_bit 64 1 in do {
          per_atom \<leftarrow> price_mul_div sqrt_price sqrt_price q64;
          v \<leftarrow> (if 0 \<le> e then do { factor \<leftarrow> checked_mul 128 sol pow; price_mul_div per_atom factor q64 }
               else do { v \<leftarrow> price_mul_div per_atom sol q64; Some (v div pow) });
          v \<leftarrow> checked 64 v;
          (if 0 < v then Some v else None) })"

subsection \<open>The product\<close>

lemma and_M64: "x AND M64 = x mod 2 ^ 64"
proof -
  have "M64 = mask 64" unfolding M64_def mask_eq_exp_minus_1 ..
  show ?thesis unfolding \<open>M64 = mask 64\<close> by (simp only: take_bit_eq_mask [symmetric] take_bit_eq_mod)
qed

lemma or_is_add:
  fixes a b :: nat
  assumes "b < 2 ^ n"
  shows "a * 2 ^ n OR b = a * 2 ^ n + b"
proof -
  have "\<not> bit (a * 2 ^ n) k \<or> \<not> bit b k" for k
  proof (cases "k < n")
    case True
    then show ?thesis by (simp add: bit_push_bit_iff flip: push_bit_eq_mult)
  next
    case False
    have "take_bit n b = b" using assms by (simp add: take_bit_nat_eq_self_iff)
    then have "\<not> bit b k" using False by (metis bit_take_bit_iff)
    then show ?thesis by simp
  qed
  then show ?thesis by (simp add: disjunctive_add)
qed

lemma shl64_or:
  assumes "x < 2 ^ 64" "y < 2 ^ 64"
  shows "cast 128 (push_bit 64 x) OR y = x * 2 ^ 64 + y"
proof -
  have "x * 2 ^ 64 < 2 ^ 64 * 2 ^ 64" using assms(1) by (intro mult_strict_right_mono) simp_all
  then have "cast 128 (push_bit 64 x) = x * 2 ^ 64" by (simp add: cast_def push_bit_eq_mult)
  with or_is_add [OF assms(2)] show ?thesis by simp
qed

lemma carry_sum:
  fixes W :: nat
  assumes "A = P * (W * W) + (X + Y) * W + Z" "X = Xd * W + Xm" "Y = Yd * W + Ym" "Z = Zd * W + Zm"
  shows "A = (P + Xd + Yd) * (W * W) + (Zd + Xm + Ym) * W + Zm"
  unfolding assms by (simp add: algebra_simps)

lemma mul_wide_product:
  assumes "a < 2 ^ 128" "b < 2 ^ 128" "mul_wide a b = (hi, lo)"
  shows "a * b = hi * 2 ^ 128 + lo" "lo < 2 ^ 128" "hi < 2 ^ 128"
proof -
  define W where "W = (2::nat) ^ 64"
  have W: "0 < W" "W * W = 2 ^ 128" by (simp_all add: W_def)
  define a1 a0 b1 b0 where "a1 = a div W" and "a0 = a mod W" and "b1 = b div W" and "b0 = b mod W"
  have small: "a0 < W" "b0 < W" "a1 < W" "b1 < W"
    using assms(1,2) W by (auto simp: a0_def b0_def a1_def b1_def less_mult_imp_div_less)
  define mid where "mid = a0 * b0 div W + a0 * b1 mod W + a1 * b0 mod W"
  have hi: "hi = a1 * b1 + a0 * b1 div W + a1 * b0 div W + mid div W"
    and lo': "lo = cast 128 (push_bit 64 mid) OR (a0 * b0 mod W)"
    using assms(3) by (auto simp: mul_wide_def Let_def and_M64 drop_bit_eq_div W_def a1_def a0_def b1_def b0_def mid_def)
  have "cast 128 (push_bit 64 mid) = (mid mod W) * 2 ^ 64"
    by (simp add: cast_def push_bit_eq_mult W_def mult_mod_left flip: W(2))
  then have lo: "lo = mid mod W * W + a0 * b0 mod W"
    using or_is_add [of "a0 * b0 mod W" 64 "mid mod W"] W(1) by (simp add: lo' W_def)
  have "lo < W * W"
  proof -
    have "mid mod W * W + a0 * b0 mod W < (mid mod W + 1) * W" using W(1) by (simp add: algebra_simps)
    also have "\<dots> \<le> W * W" using W(1) by (intro mult_right_mono) (simp_all add: Suc_le_eq)
    finally show ?thesis by (simp add: lo)
  qed
  then show "lo < 2 ^ 128" using W(2) by simp
  have a: "a = a1 * W + a0" and b: "b = b1 * W + b0" by (simp_all add: a1_def a0_def b1_def b0_def)
  have "a * b = a1 * b1 * (W * W) + (a0 * b1 + a1 * b0) * W + a0 * b0" by (simp add: a b algebra_simps)
  then have "a * b = (a1 * b1 + a0 * b1 div W + a1 * b0 div W) * (W * W) + mid * W + a0 * b0 mod W"
    unfolding mid_def by (rule carry_sum) simp_all
  moreover have "mid * W = (mid div W * W + mid mod W) * W" by simp
  ultimately show p: "a * b = hi * 2 ^ 128 + lo" unfolding hi lo W(2) [symmetric] distrib_right by (simp add: mult.assoc)
  have "a * b < 2 ^ 128 * 2 ^ 128" using assms(1,2) by (intro mult_strict_mono) simp_all
  then have "hi * 2 ^ 128 < 2 ^ 128 * 2 ^ 128" using p by linarith
  then show "hi < 2 ^ 128" by simp
qed

subsection \<open>The long division\<close>

lemma div_bit_step:
  assumes "rem < c" "c < 2 ^ 128" "q < 2 ^ 127" "div_bit lo c i (rem, q) = (rem', q')"
  shows "rem' < c" "q' * c + rem' = 2 * (q * c + rem) + lo div 2 ^ i mod 2" "q' < 2 * q + 2"
proof -
  define bitv where "bitv = lo div 2 ^ i mod 2"
  define R where "R = 2 * rem + bitv"
  have b: "bitv < 2" by (simp add: bitv_def)
  have "drop_bit i lo AND 1 = bitv" by (simp add: bitv_def and_one_eq drop_bit_eq_div)
  moreover have "cast 128 (push_bit 1 rem) = (rem mod 2 ^ 127) * 2 ^ 1"
    using mult_mod_left [of rem "2 ^ 127" 2] by (simp add: cast_def push_bit_eq_mult)
  ultimately have sh: "cast 128 (push_bit 1 rem) OR (drop_bit i lo AND 1) = (rem mod 2 ^ 127) * 2 + bitv"
    using or_is_add [of bitv 1 "rem mod 2 ^ 127"] b by simp
  have q2: "cast 128 (push_bit 1 q) = q * 2 ^ 1" using assms(3) by (simp add: cast_def push_bit_eq_mult)
  have q3: "q * 2 ^ 1 OR 1 = 2 * q + 1" using or_is_add [of 1 1 q] by simp
  have bitstep: "div_bit lo c i (rem, q) = (let X = rem mod 2 ^ 127 * 2 + bitv in
      if rem div 2 ^ 127 = 1 \<or> c \<le> X then (wrapping_sub 128 X c, 2 * q + 1) else (X, q * 2 ^ 1))"
    unfolding div_bit_def prod.case Let_def sh unfolding q2 q3 drop_bit_eq_div ..
  have split: "rem = rem div 2 ^ 127 * 2 ^ 127 + rem mod 2 ^ 127" by simp
  have rem: "rem < 2 ^ 128" using assms(1,2) by simp
  then have "rem div 2 ^ 127 < 2" by (intro less_mult_imp_div_less) simp
  then consider "rem div 2 ^ 127 = 0" | "rem div 2 ^ 127 = 1" by linarith
  then have "rem' < c \<and> q' * c + rem' = 2 * (q * c + rem) + bitv \<and> q' < 2 * q + 2"
  proof cases
    case 1
    then have low: "rem mod 2 ^ 127 = rem" using split by simp
    have "(rem', q') = (if c \<le> R then (wrapping_sub 128 R c, 2 * q + 1) else (R, 2 * q))"
      using assms(4) 1 unfolding bitstep low by (simp add: Let_def R_def mult.commute split: if_splits)
    moreover have "R < 2 ^ 128" using 1 b by (auto simp: R_def div_eq_0_iff)
    ultimately show ?thesis
      using assms(1) b wrapping_sub_id [of c R 128] by (auto simp: R_def algebra_simps split: if_splits)
  next
    case 2
    then have low: "rem mod 2 ^ 127 * 2 + bitv = R - 2 ^ 128" "2 ^ 128 \<le> R" using split by (auto simp: R_def)
    have step: "rem' = wrapping_sub 128 (R - 2 ^ 128) c" "q' = 2 * q + 1"
      using assms(4) 2 unfolding bitstep low(1) by (simp_all add: Let_def)
    have "R - c < c" "c \<le> R" using assms(1,2) b low(2) by (auto simp: R_def)
    moreover have "R - 2 ^ 128 + 2 ^ 128 - c = R - c" using low(2) by simp
    ultimately have "rem' = R - c" using assms(2) unfolding step(1) wrapping_sub_def by (simp only: mod_less)
    with step(2) \<open>R - c < c\<close> \<open>c \<le> R\<close> show ?thesis by (auto simp: R_def algebra_simps)
  qed
  then show "rem' < c" "q' * c + rem' = 2 * (q * c + rem) + lo div 2 ^ i mod 2" "q' < 2 * q + 2"
    by (auto simp: bitv_def)
qed

lemma div_bits:
  assumes "hi < c" "c < 2 ^ 128" "lo < 2 ^ 128" "n \<le> 128"
  shows "case fold (div_bit lo c) (rev [128 - n..<128]) (hi, 0) of (rem, q) \<Rightarrow>
    rem < c \<and> q * c + rem = hi * 2 ^ n + lo div 2 ^ (128 - n) \<and> q < 2 ^ n"
  using assms(4)
proof (induction n)
  case 0
  then show ?case using assms(1,3) by simp
next
  case (Suc n)
  obtain rem q where st: "fold (div_bit lo c) (rev [128 - n..<128]) (hi, 0) = (rem, q)" by force
  have IH: "rem < c" "q * c + rem = hi * 2 ^ n + lo div 2 ^ (128 - n)" "q < 2 ^ n" using Suc st by auto
  define i where "i = 128 - Suc n"
  have i: "128 - n = Suc i" "[i..<128] = i # [Suc i..<128]" using Suc.prems by (auto simp: i_def upt_conv_Cons)
  obtain rem' q' where step: "div_bit lo c i (rem, q) = (rem', q')" by force
  have "(2::nat) ^ n \<le> 2 ^ 127" using Suc.prems by (intro power_increasing) simp_all
  then have "q < 2 ^ 127" using IH(3) by simp
  note S = div_bit_step [OF IH(1) assms(2) this step]
  have "lo div 2 ^ i = 2 * (lo div 2 ^ Suc i) + lo div 2 ^ i mod 2"
    by (simp add: div_mult2_eq mult.commute [of 2])
  then have "q' * c + rem' = hi * 2 ^ Suc n + lo div 2 ^ i" using S(2) IH(2) by (simp add: i(1))
  moreover have "q' < 2 ^ Suc n" using S(3) IH(3) by simp
  ultimately show ?case using S(1) st step i by (simp add: i_def)
qed

lemma div_limb_step:
  assumes "rem < c" "c < 2 ^ 64" "limb < 2 ^ 64" "q < 2 ^ 64" "div_limb c limb (rem, q) = (rem', q')"
  shows "rem' < c" "q' * c + rem' = (q * c + rem) * 2 ^ 64 + limb"
proof -
  have n: "cast 128 (push_bit 64 rem) OR limb = rem * 2 ^ 64 + limb" using assms by (intro shl64_or) simp_all
  have "rem * 2 ^ 64 + limb < (rem + 1) * 2 ^ 64" using assms(3) by simp
  also have "\<dots> \<le> c * 2 ^ 64" using assms(1) by (intro mult_right_mono) simp_all
  finally have "(rem * 2 ^ 64 + limb) div c < 2 ^ 64" by (simp add: less_mult_imp_div_less mult.commute)
  then have "cast 128 (push_bit 64 q) OR ((rem * 2 ^ 64 + limb) div c) = q * 2 ^ 64 + (rem * 2 ^ 64 + limb) div c"
    using assms(4) by (intro shl64_or)
  then have r: "rem' = (rem * 2 ^ 64 + limb) mod c" "q' = q * 2 ^ 64 + (rem * 2 ^ 64 + limb) div c"
    using assms(5) by (auto simp: div_limb_def Let_def n)
  show "rem' < c" using assms(1) by (simp add: r(1))
  have "(rem * 2 ^ 64 + limb) div c * c + (rem * 2 ^ 64 + limb) mod c = rem * 2 ^ 64 + limb" by simp
  then show "q' * c + rem' = (q * c + rem) * 2 ^ 64 + limb" unfolding r by (simp add: algebra_simps)
qed

lemma quotient_of: "(q::nat) * c + r = n \<Longrightarrow> r < c \<Longrightarrow> q = n div c"
  by (metis div_mult_self3 div_less add.commute add_0 gr_implies_not0)

lemma div_bits_exact:
  assumes "hi < c" "c < 2 ^ 128" "lo < 2 ^ 128"
  shows "snd (fold (div_bit lo c) (rev [0..<128]) (hi, 0)) = (hi * 2 ^ 128 + lo) div c"
proof -
  obtain rem q where st: "fold (div_bit lo c) (rev [0..<128]) (hi, 0) = (rem, q)" by force
  have "rem < c" "q * c + rem = hi * 2 ^ 128 + lo" using div_bits [OF assms, of 128] st by auto
  then have "q = (hi * 2 ^ 128 + lo) div c" by (intro quotient_of)
  with st show ?thesis by simp
qed

lemma div_limbs_exact:
  assumes "hi < c" "c < 2 ^ 64" "lo < 2 ^ 128"
  shows "snd (fold (div_limb c) [drop_bit 64 lo, lo AND M64] (hi, 0)) = (hi * 2 ^ 128 + lo) div c"
proof -
  obtain r1 q1 where s1: "div_limb c (drop_bit 64 lo) (hi, 0) = (r1, q1)" by force
  have l1: "drop_bit 64 lo < 2 ^ 64" using assms(3) by (simp add: drop_bit_eq_div less_mult_imp_div_less)
  have z: "(0::nat) < 2 ^ 64" by simp
  note A = div_limb_step [OF assms(1,2) l1 z s1]
  have "q1 * c < 2 ^ 64 * c"
  proof -
    have "hi * 2 ^ 64 + drop_bit 64 lo < (hi + 1) * 2 ^ 64" using l1 by simp
    also have "\<dots> \<le> c * 2 ^ 64" using assms(1) by (intro mult_right_mono) simp_all
    finally have "q1 * c + r1 < c * 2 ^ 64" using A(2) by (simp only: mult_zero_left add_0_left)
    then show ?thesis by (metis add_lessD1 mult.commute)
  qed
  then have "q1 < 2 ^ 64" by simp
  obtain r2 q2 where s2: "div_limb c (lo AND M64) (r1, q1) = (r2, q2)" by force
  note B = div_limb_step [OF A(1) assms(2) _ \<open>q1 < 2 ^ 64\<close> s2]
  have "lo div 2 ^ 64 * 2 ^ 64 + lo mod 2 ^ 64 = lo" by simp
  then have "q2 * c + r2 = hi * 2 ^ 128 + lo"
    using A(2) B(2) by (simp add: and_M64 drop_bit_eq_div algebra_simps)
  moreover have "r2 < c" using B(1) by (simp add: and_M64)
  ultimately have "q2 = (hi * 2 ^ 128 + lo) div c" by (rule quotient_of)
  with s1 s2 show ?thesis by simp
qed

lemma high_half_quotient:
  assumes "n = hi * 2 ^ 128 + lo" "lo < 2 ^ 128" "0 < (c::nat)"
  shows "c \<le> hi \<longleftrightarrow> 2 ^ 128 \<le> n div c"
proof -
  have "2 ^ 128 \<le> n div c \<longleftrightarrow> 2 ^ 128 * c \<le> n" using assms(3) by (simp add: less_eq_div_iff_mult_less_eq)
  also have "\<dots> \<longleftrightarrow> c \<le> hi" using assms(1,2) by (auto simp: not_le [symmetric])
  finally show ?thesis by simp
qed

lemma price_mul_div_quotient:
  assumes "a < 2 ^ 128" "b < 2 ^ 128" "c < 2 ^ 128"
  shows "price_mul_div a b c = (if c = 0 then None else checked 128 (a * b div c))"
proof -
  obtain hi lo where w: "mul_wide a b = (hi, lo)" by force
  note P = mul_wide_product [OF assms(1,2) w]
  show ?thesis
    using high_half_quotient [OF P(1,2), of c] div_bits_exact [of hi c lo, folded P(1)] assms(3) P(2)
    by (auto simp: price_mul_div_def w checked_def not_le)
qed

lemma mul_div_quotient:
  assumes "a < 2 ^ 128" "b < 2 ^ 128" "c < 2 ^ 128"
  shows "mul_div a b c = (if c = 0 then None else checked 128 (a * b div c))"
proof -
  obtain hi lo where w: "mul_wide a b = (hi, lo)" by force
  note P = mul_wide_product [OF assms(1,2) w]
  have small: "a * b div c < 2 ^ 128" if "a * b < 2 ^ 128" using that div_le_dividend [of "a * b" c] by linarith
  show ?thesis
    using high_half_quotient [OF P(1,2), of c] div_bits_exact [of hi c lo, folded P(1)]
      div_limbs_exact [of hi c lo, folded P(1)] assms(3) P(2) small
    by (auto simp: mul_div_def w checked_mul_def checked_def not_le M64_def)
qed

text \<open>
  C32. The 256-bit multiply-and-divide is exact: on 128-bit operands both versions return the quotient of the
  full product rounded down whenever it fits 128 bits, and nothing exactly when the divisor is zero or it does
  not fit.
\<close>

theorem mul_div_is_the_quotient:
  assumes "a < 2 ^ 128" "b < 2 ^ 128" "c < 2 ^ 128"
  shows "mul_div a b c = (if c = 0 then None else checked 128 (a * b div c))
    \<and> price_mul_div a b c = (if c = 0 then None else checked 128 (a * b div c))"
  using mul_div_quotient [OF assms] price_mul_div_quotient [OF assms] by simp

theorem mul_div_is_the_quotient_witness:
  "mul_div (2 ^ 126) (2 ^ 63 + 5) (2 ^ 64 + 1) = Some ((2 ^ 126 * (2 ^ 63 + 5)) div (2 ^ 64 + 1))"
  using mul_div_is_the_quotient [of "2 ^ 126" "2 ^ 63 + 5" "2 ^ 64 + 1"] by (simp add: checked_def)

text \<open>Rounding the square down first loses at most \<open>f / 2\<^sup>64\<close>, and one more, against a single division.\<close>

lemma stepwise_floor:
  fixes s f d :: nat
  shows "s div 2 ^ 64 * f div 2 ^ 64 div d \<le> s * f div (2 ^ 128 * d)"
    and "s * f div (2 ^ 128 * d) \<le> s div 2 ^ 64 * f div 2 ^ 64 div d + f div 2 ^ 64 + 1"
proof -
  let ?p = "s div 2 ^ 64" and ?c = "2 ^ 64 * d"
  have v: "?p * f div 2 ^ 64 div d = ?p * f div ?c" by (simp add: div_mult2_eq)
  have x: "s * f div (2 ^ 128 * d) = s * f div 2 ^ 64 div ?c" by (simp add: div_mult2_eq [symmetric])
  have "?p * 2 ^ 64 * f \<le> s * f" by (intro mult_right_mono) simp_all
  then have lo: "?p * f \<le> s * f div 2 ^ 64" by (simp add: less_eq_div_iff_mult_less_eq mult_ac)
  have "s \<le> (?p + 1) * 2 ^ 64" using mod_less_divisor [of "2 ^ 64" s] div_mult_mod_eq [of s "2 ^ 64"] by simp
  then have "s * f \<le> (?p + 1) * 2 ^ 64 * f" by (rule mult_right_mono) simp
  then have "s * f div 2 ^ 64 \<le> (?p + 1) * 2 ^ 64 * f div 2 ^ 64" by (rule div_le_mono)
  also have "(?p + 1) * 2 ^ 64 * f div 2 ^ 64 = (?p * f + f) * 2 ^ 64 div 2 ^ 64" by (simp add: algebra_simps)
  also have "\<dots> = ?p * f + f" by (rule nonzero_mult_div_cancel_right) simp
  finally have hi: "s * f div 2 ^ 64 \<le> ?p * f + f" .
  show "?p * f div 2 ^ 64 div d \<le> s * f div (2 ^ 128 * d)" unfolding v x using lo by (rule div_le_mono)
  have "s * f div 2 ^ 64 div ?c \<le> (?p * f + f) div ?c" using hi by (rule div_le_mono)
  also have "\<dots> \<le> ?p * f div ?c + f div ?c + 1"
  proof (cases "d = 0")
    case False
    then have c: "0 < ?c" by simp
    have "?p * f mod ?c + f mod ?c < 2 * ?c" using mod_less_divisor [OF c, of "?p * f"] mod_less_divisor [OF c, of f] by linarith
    then have "(?p * f mod ?c + f mod ?c) div ?c < 2" by (rule less_mult_imp_div_less)
    then show ?thesis using div_add1_eq [of "?p * f" f ?c] by simp
  qed simp
  also have "f div ?c \<le> f div 2 ^ 64" by (simp add: div_mult2_eq)
  finally show "s * f div (2 ^ 128 * d) \<le> ?p * f div 2 ^ 64 div d + f div 2 ^ 64 + 1" unfolding v x by simp
qed

text \<open>
  C33. The AMBA price is the conversion rounded down at each step. With \<open>e\<close> the power of ten the decimals and the
  oracle's exponent leave, \<open>sqrt_price\<^sup>2 / 2\<^sup>64\<close> is rounded down, then its product with the SOL price (and \<open>10\<^sup>e\<close>, for a
  positive \<open>e\<close>) over \<open>2\<^sup>64\<close>, then, for a negative \<open>e\<close>, that over \<open>10\<^sup>-\<^sup>e\<close>. The result is positive and fits in 64 bits. It
  is never above the single division of the documentation, \<open>sqrt_price\<^sup>2 * sol_usd * 10\<^sup>e / 2\<^sup>128\<close> rounded down, and
  below it by at most \<open>f / 2\<^sup>64\<close> and one, where \<open>f\<close> is the SOL price (times \<open>10\<^sup>e\<close> for a positive \<open>e\<close>).
\<close>

theorem amba_price_is_the_conversion:
  assumes "amba_price sqrt_price decimals sol_usd expo = Some v" "sqrt_price < 2 ^ 128" "sol_usd < 2 ^ 63"
  shows "0 < v \<and> v < 2 ^ 64 \<and> (let e = int decimals + 3 + expo; per_atom = sqrt_price * sqrt_price div 2 ^ 64;
       f = nat sol_usd * (if 0 \<le> e then 10 ^ nat e else 1); d = (if 0 \<le> e then 1 else 10 ^ nat (- e));
       single = sqrt_price * sqrt_price * f div (2 ^ 128 * d) in
     v = per_atom * f div 2 ^ 64 div d \<and> v \<le> single \<and> single \<le> v + f div 2 ^ 64 + 1)"
proof -
  define e where "e = int decimals - 9 + 6 + 6 + expo"
  have e: "int decimals + 3 + expo = e" by (simp add: e_def)
  have pos: "0 < sol_usd" and range: "- 19 \<le> e" "e \<le> 19"
    using assms(1) by (auto simp: amba_price_def Let_def e_def split: if_splits)
  have sol: "nat sol_usd < 2 ^ 128" using assms(3) by (simp add: nat_less_iff)
  have q64: "push_bit 64 1 = (2::nat) ^ 64" by (simp add: push_bit_eq_mult)
  let ?v = "\<lambda>p. if 0 \<le> e then do { factor \<leftarrow> checked_mul 128 (nat sol_usd) (10 ^ nat \<bar>e\<bar>); price_mul_div p factor (2 ^ 64) }
      else do { v \<leftarrow> price_mul_div p (nat sol_usd) (2 ^ 64); Some (v div 10 ^ nat \<bar>e\<bar>) }"
  have "do { p \<leftarrow> price_mul_div sqrt_price sqrt_price (2 ^ 64); v \<leftarrow> ?v p; v \<leftarrow> checked 64 v; if 0 < v then Some v else None } = Some v"
    using assms(1) pos range unfolding amba_price_def Let_def q64 e_def [symmetric] by simp
  from iffD1 [OF option_bind_eq_Some this] obtain p where
    p: "price_mul_div sqrt_price sqrt_price (2 ^ 64) = Some p"
      "do { v \<leftarrow> ?v p; v \<leftarrow> checked 64 v; if 0 < v then Some v else None } = Some v" by blast
  from iffD1 [OF option_bind_eq_Some p(2)] obtain u where
    u: "?v p = Some u" "do { v \<leftarrow> checked 64 u; if 0 < v then Some v else None } = Some v" by blast
  have uv: "u < 2 ^ 64" "0 < u" "v = u" using u(2) by (auto simp: checked_simps split: if_splits)
  have per: "p = sqrt_price * sqrt_price div 2 ^ 64" "p < 2 ^ 128"
    using p(1) price_mul_div_quotient [OF assms(2,2), of "2 ^ 64"] by (auto simp: checked_def split: if_splits)
  have "v = p * (nat sol_usd * (if 0 \<le> e then 10 ^ nat e else 1)) div 2 ^ 64 div (if 0 \<le> e then 1 else 10 ^ nat (- e))"
  proof (cases "0 \<le> e")
    case True
    then obtain f where f: "f = nat sol_usd * 10 ^ nat e" "f < 2 ^ 128" "price_mul_div p f (2 ^ 64) = Some u"
      using u(1) by (auto simp: checked_simps)
    then have "u = p * f div 2 ^ 64" using price_mul_div_quotient [OF per(2) f(2), of "2 ^ 64"]
      by (auto simp: checked_def split: if_splits)
    with True uv f(1) show ?thesis by simp
  next
    case False
    then obtain w where w: "price_mul_div p (nat sol_usd) (2 ^ 64) = Some w" "u = w div 10 ^ nat (- e)"
      using u(1) by (auto simp: checked_simps)
    then have "w = p * nat sol_usd div 2 ^ 64" using price_mul_div_quotient [OF per(2) sol, of "2 ^ 64"]
      by (auto simp: checked_def split: if_splits)
    with False uv w(2) show ?thesis by simp
  qed
  then show ?thesis
    using uv stepwise_floor [of "sqrt_price * sqrt_price"] unfolding Let_def e per(1) by blast
qed

lemma sample_price: "amba_price (2 ^ 60) 9 15000000000 (- 8) = Some 585937500000"
  by (simp add: amba_price_def Let_def push_bit_eq_mult price_mul_div_quotient checked_def checked_mul_def)

theorem amba_price_is_the_conversion_witness:
  "amba_price (2 ^ 60) 9 15000000000 (- 8) = Some 585937500000 \<and>
   2 ^ 60 * 2 ^ 60 * (15000000000 * 10 ^ 4) div 2 ^ 128 \<le> (585937500000 :: nat) + 15000000000 * 10 ^ 4 div 2 ^ 64 + 1"
  using sample_price amba_price_is_the_conversion [OF sample_price] by (simp add: Let_def)

end
