(* ===== verification/Staking.thy ===== *)
theory Staking
  imports Accounts Wide_Arith
begin

text \<open>
  The Earn vault's reward stream and the stake pool behind its maker, from \<open>programs/futures/src/state.rs\<close>: the
  release and accrual of a stream, its settlement into positions, prices and credit capacity, shares and their
  epochs, and how the stakers' USDC is spread. An operation that returns \<open>None\<close> on overflow, or would abort
  there, is \<open>None\<close>.
\<close>

definition REWARD_SCALE :: u128 where "REWARD_SCALE = 1000000000000"
definition USDC_SCALE :: u128 where "USDC_SCALE = 1000000000000000000"
definition PRICE_SCALE :: u128 where "PRICE_SCALE = 1000000"
definition FUTURES_BPS :: u64 where "FUTURES_BPS = 10000"
definition WEIGHT_SCALE :: u128 where "WEIGHT_SCALE = 1000000000"
definition MAX_PRICE_AGE :: u64 where "MAX_PRICE_AGE = 3600"
definition UNBOND_SECS :: u64 where "UNBOND_SECS = 604800"
definition INDEX_ONE :: u128 where "INDEX_ONE = push_bit 126 1"

subsection \<open>The reward stream\<close>

definition released_at :: "rewards \<Rightarrow> u64 \<Rightarrow> u64" where
  "released_at r t =
     (if t \<le> rw_start_ts r \<or> rw_end_ts r \<le> rw_start_ts r then 0
      else if rw_end_ts r \<le> t then rw_amount r
      else cast 64 (rw_amount r * (t - rw_start_ts r) div (rw_end_ts r - rw_start_ts r)))"

definition accrue :: "rewards \<Rightarrow> u64 \<Rightarrow> u64 \<Rightarrow> rewards option" where
  "accrue r shares now =
     (let from = max (rw_last_ts r) (rw_start_ts r); to = min now (rw_end_ts r) in do {
        r' \<leftarrow> (if from < to
              then do {
                released \<leftarrow> checked_sub (released_at r to) (released_at r from);
                let earning = shares - rw_house_shares r;
                (if 0 < earning \<and> 0 < released
                 then do {
                   scaled \<leftarrow> checked_mul 128 released REWARD_SCALE;
                   acc \<leftarrow> checked_add 128 (rw_acc r) (scaled div earning);
                   distributed \<leftarrow> checked_add 64 (rw_distributed r) released;
                   Some (r\<lparr>rw_acc := acc, rw_distributed := distributed\<rparr>) }
                 else Some r) }
              else Some r);
        Some (r'\<lparr>rw_last_ts := max (rw_last_ts r) now\<rparr>) })"

definition rewards_settle :: "rewards \<Rightarrow> vault_position \<Rightarrow> vault_position option" where
  "rewards_settle r p = do {
     p' \<leftarrow> (if vp_owner p \<noteq> rw_house r
           then do {
             per \<leftarrow> checked_sub (rw_acc r) (vp_reward_snapshot p);
             scaled \<leftarrow> checked_mul 128 (vp_shares p) per;
             earned \<leftarrow> checked 64 (scaled div REWARD_SCALE);
             pending \<leftarrow> checked_add 64 (vp_reward_pending p) earned;
             Some (p\<lparr>vp_reward_pending := pending\<rparr>) }
           else Some p);
     Some (p'\<lparr>vp_reward_snapshot := rw_acc r\<rparr>) }"

definition owed :: "rewards \<Rightarrow> u64" where
  "owed r = rw_distributed r - rw_paid r"

definition left_after :: "rewards \<Rightarrow> u64 \<Rightarrow> u64 option" where
  "left_after r now = checked_sub (rw_amount r) (released_at r (max now (rw_last_ts r)))"

subsection \<open>Prices and capacity\<close>

definition twap_at :: "stake_pool \<Rightarrow> u64 \<Rightarrow> u64" where
  "twap_at p now =
     (if sp_price_ts p = 0 then 0
      else let dt = now - sp_price_ts p in
        if sp_twap_window p = 0 \<or> sp_twap_window p \<le> dt then sp_price p
        else let a = int (sp_twap p); q = int (sp_price p)
             in unsigned_of 64 (a + ((q - a) * int dt) sdiv int (sp_twap_window p)))"

definition post :: "stake_pool \<Rightarrow> u64 \<Rightarrow> u64 \<Rightarrow> stake_pool" where
  "post p price now =
     (let p' = (if sp_price_ts p = 0 then p\<lparr>sp_first_price_ts := now, sp_twap := price\<rparr>
                else p\<lparr>sp_twap := twap_at p now\<rparr>)
      in p'\<lparr>sp_price := price, sp_price_ts := now\<rparr>)"

definition unit_of :: "stake_pool \<Rightarrow> u128 option" where
  "unit_of p = do { pow \<leftarrow> checked 128 (10 ^ sp_amba_decimals p); checked_mul 128 PRICE_SCALE pow }"

definition usdc_of :: "stake_pool \<Rightarrow> u64 \<Rightarrow> u64 \<Rightarrow> u64 option" where
  "usdc_of p amba price = do {
     v \<leftarrow> checked_mul 128 amba price; u \<leftarrow> unit_of p; checked 64 (v div u) }"

definition div_ceil :: "nat \<Rightarrow> nat \<Rightarrow> nat" where
  "div_ceil a b = (if a mod b > 0 then a div b + 1 else a div b)"

definition amba_for :: "stake_pool \<Rightarrow> u64 \<Rightarrow> u64 \<Rightarrow> u64 option" where
  "amba_for p usdc price =
     (if price = 0 then None
      else do { u \<leftarrow> unit_of p; v \<leftarrow> checked_mul 128 usdc u; checked 64 (div_ceil v price) })"

definition amba_for_at_most :: "stake_pool \<Rightarrow> u64 \<Rightarrow> u64 \<Rightarrow> u64 \<Rightarrow> u64 option" where
  "amba_for_at_most p usdc price cap =
     (if price = 0 then Some cap
      else do {
        u \<leftarrow> unit_of p;
        Some (cast 64 (min (case checked_mul 128 usdc u of None \<Rightarrow> 2 ^ 128 - 1 | Some v \<Rightarrow> div_ceil v price) cap)) })"

definition shares_for :: "stake_pool \<Rightarrow> u64 \<Rightarrow> u64 option" where
  "shares_for p received = do {
     v \<leftarrow> checked_mul 128 received (sp_shares p + 1);
     checked 64 (v div (sp_staked p + 1)) }"

definition amba_of :: "stake_pool \<Rightarrow> u64 \<Rightarrow> u64" where
  "amba_of p shares = (if sp_shares p = 0 then 0 else cast 64 (shares * sp_staked p div sp_shares p))"

definition price_fresh :: "stake_pool \<Rightarrow> u64 \<Rightarrow> bool" where
  "price_fresh p now \<longleftrightarrow> sp_price_ts p \<noteq> 0 \<and> now - sp_price_ts p \<le> MAX_PRICE_AGE"

text \<open>The production build, where no operator posts prices.\<close>

definition price_lends :: "stake_pool \<Rightarrow> u64 \<Rightarrow> bool" where
  "price_lends p now \<longleftrightarrow>
     \<not> (sp_first_price_ts p \<noteq> 0 \<and> now - sp_first_price_ts p < MAX_PRICE_AGE) \<and> price_fresh p now"

definition capacity_of :: "stake_pool \<Rightarrow> u64 \<Rightarrow> u64 \<Rightarrow> u64 option" where
  "capacity_of p staked now =
     (if \<not> price_lends p now then Some 0
      else do {
        value \<leftarrow> usdc_of p staked (twap_at p now);
        checked 64 (value * sp_haircut_bps p div FUTURES_BPS) })"

definition capacity :: "stake_pool \<Rightarrow> u64 \<Rightarrow> u64 option" where
  "capacity p now =
     (let unbonding = amba_of p (min (sp_unbonding p) (sp_shares p))
      in capacity_of p (sp_staked p - unbonding) now)"

definition unbond_ends :: "stake_position \<Rightarrow> u64 option" where
  "unbond_ends s = (if 0 < sk_unbonding s then Some (saturate 64 (sk_unbond_ts s + UNBOND_SECS)) else None)"

subsection \<open>Shares and epochs\<close>

definition rolls_over :: "stake_pool \<Rightarrow> u64 \<Rightarrow> bool" where
  "rolls_over p received \<longleftrightarrow>
     (sp_staked p = 0 \<and> 0 < sp_shares p)
     \<or> do { s \<leftarrow> shares_for p received; checked_add 64 (sp_shares p) s } = None"

definition share_index_of :: "stake_pool \<Rightarrow> u128" where
  "share_index_of p = (if sp_share_index p = 0 then INDEX_ONE else sp_share_index p)"

definition convert_shares :: "u64 \<Rightarrow> u64 \<times> u64 \<Rightarrow> u64" where
  "convert_shares shares rate = (case rate of (staked, tot) \<Rightarrow>
     if tot = 0 then 0 else cast 64 (min (shares * staked div tot) shares))"

definition begin_epoch :: "stake_pool \<Rightarrow> u64 \<Rightarrow> stake_pool option" where
  "begin_epoch p now = do {
     rewards \<leftarrow> (case sp_rewards p of None \<Rightarrow> Some None | Some r \<Rightarrow> map_option Some (accrue r (sp_shares p) now));
     let acc = (case rewards of None \<Rightarrow> 0 | Some r \<Rightarrow> rw_acc r);
     let unbonding = convert_shares (sp_unbonding p) (sp_staked p, sp_shares p);
     epoch \<leftarrow> checked_add 32 (sp_epoch p) 1;
     nxt \<leftarrow> (if sp_shares p = 0 then Some (share_index_of p)
            else mul_div (share_index_of p) (min (sp_staked p) (sp_shares p)) (sp_shares p));
     Some (p\<lparr>sp_rewards := rewards,
       sp_epoch_ends := (acc, sp_usdc_acc p) # butlast (sp_epoch_ends p),
       sp_epoch_rates := (sp_staked p, sp_shares p) # butlast (sp_epoch_rates p),
       sp_unbonding := unbonding, sp_epoch := epoch,
       sp_share_index := (if nxt = 0 then INDEX_ONE else nxt),
       sp_wipe_epoch := (if nxt = 0 then epoch else sp_wipe_epoch p),
       sp_shares := sp_staked p\<rparr>) }"

subsection \<open>The stakers' USDC\<close>

definition buffer_target :: "stake_pool \<Rightarrow> u64" where
  "buffer_target p = cast 64 (sp_allocated p * sp_buffer_bps p div FUTURES_BPS)"

definition spread :: "stake_pool \<Rightarrow> u64 \<Rightarrow> stake_pool option" where
  "spread p amount =
     (if amount = 0 then Some p
      else if sp_shares p = 0 then do {
        buffer \<leftarrow> checked_add 64 (sp_buffer p) amount;
        Some (p\<lparr>sp_buffer := buffer\<rparr>) }
      else do {
        scaled \<leftarrow> checked_mul 128 amount USDC_SCALE;
        acc \<leftarrow> checked_add 128 (sp_usdc_acc p) (scaled div sp_shares p);
        distributed \<leftarrow> checked_add 64 (sp_usdc_distributed p) amount;
        Some (p\<lparr>sp_usdc_acc := acc, sp_usdc_distributed := distributed\<rparr>) })"

definition take_profit :: "stake_pool \<Rightarrow> u64 \<Rightarrow> stake_pool option" where
  "take_profit p amount = do {
     let fill = min amount (buffer_target p - sp_buffer p);
     buffer \<leftarrow> checked_add 64 (sp_buffer p) fill;
     spread (p\<lparr>sp_buffer := buffer\<rparr>) (amount - fill) }"

definition release_buffer :: "stake_pool \<Rightarrow> stake_pool option" where
  "release_buffer p =
     (let excess = sp_buffer p - buffer_target p in
      if excess = 0 \<or> sp_shares p = 0 then Some p
      else spread (p\<lparr>sp_buffer := sp_buffer p - excess\<rparr>) excess)"

definition usdc_owed :: "stake_pool \<Rightarrow> u64" where
  "usdc_owed p = sp_usdc_distributed p - sp_usdc_paid p"

subsection \<open>Touching a position\<close>

definition position_settle :: "stake_position \<Rightarrow> u128 \<Rightarrow> u128 \<Rightarrow> stake_position option" where
  "position_settle s reward_acc usdc_acc = do {
     per \<leftarrow> checked_sub reward_acc (sk_reward_snapshot s);
     scaled \<leftarrow> checked_mul 128 (sk_shares s) per;
     earned \<leftarrow> checked 64 (scaled div REWARD_SCALE);
     reward_pending \<leftarrow> checked_add 64 (sk_reward_pending s) earned;
     per \<leftarrow> checked_sub usdc_acc (sk_usdc_snapshot s);
     scaled \<leftarrow> checked_mul 128 (sk_shares s) per;
     earned \<leftarrow> checked 64 (scaled div USDC_SCALE);
     usdc_pending \<leftarrow> checked_add 64 (sk_usdc_pending s) earned;
     Some (s\<lparr>sk_reward_pending := reward_pending, sk_reward_snapshot := reward_acc,
       sk_usdc_pending := usdc_pending, sk_usdc_snapshot := usdc_acc\<rparr>) }"

text \<open>The conversion of shares older than the kept epoch ends, by the running index.\<close>

definition index_convert :: "bool \<Rightarrow> u128 \<Rightarrow> u128 \<Rightarrow> u64 \<Rightarrow> u64 option" where
  "index_convert wiped index from shares =
     (if wiped then Some 0
      else do { v \<leftarrow> mul_div shares index from; Some (cast 64 (min v shares)) })"

text \<open>One round of \<open>touch\<close>'s loop: from the position's epoch to the next, or from an old one to the current.\<close>

definition touch_step :: "stake_pool \<Rightarrow> u128 \<Rightarrow> stake_position \<Rightarrow> stake_position option" where
  "touch_step p reward_acc s = do {
     gap \<leftarrow> checked_sub (sp_epoch p) (sk_epoch s);
     i \<leftarrow> checked_sub gap 1;
     s \<leftarrow> (if i < length (sp_epoch_ends p) \<and> i < length (sp_epoch_rates p)
          then do {
            let (reward, usdc) = sp_epoch_ends p ! i;
            let rate = sp_epoch_rates p ! i;
            s \<leftarrow> position_settle s reward usdc;
            let shares = convert_shares (sk_shares s) rate;
            epoch \<leftarrow> checked_add 32 (sk_epoch s) 1;
            Some (s\<lparr>sk_shares := shares, sk_unbonding := min (convert_shares (sk_unbonding s) rate) shares,
              sk_epoch := epoch\<rparr>) }
          else do {
            let wiped = sk_epoch s < sp_wipe_epoch p;
            let index = share_index_of p;
            let from = (if sk_index s = 0 then INDEX_ONE else sk_index s);
            shares \<leftarrow> index_convert wiped index from (sk_shares s);
            unbonding \<leftarrow> index_convert wiped index from (sk_unbonding s);
            Some (s\<lparr>sk_shares := shares, sk_unbonding := min unbonding shares, sk_epoch := sp_epoch p,
              sk_reward_snapshot := reward_acc, sk_usdc_snapshot := sp_usdc_acc p\<rparr>) });
     Some (s\<lparr>sk_index := sp_share_index p\<rparr>) }"

lemma touch_step_epoch:
  assumes "touch_step p acc s = Some s'" "sk_epoch s \<noteq> sp_epoch p"
  shows "sk_epoch s < sk_epoch s' \<and> sk_epoch s' \<le> sp_epoch p"
  using assms by (auto simp: touch_step_def checked_simps position_settle_def Let_def split: if_splits prod.splits)

function touch_loop :: "stake_pool \<Rightarrow> u128 \<Rightarrow> stake_position \<Rightarrow> stake_position option" where
  "touch_loop p reward_acc s =
     (if sk_epoch s = sp_epoch p then Some s
      else case touch_step p reward_acc s of None \<Rightarrow> None | Some s \<Rightarrow> touch_loop p reward_acc s)"
  by auto
termination
  by (relation "measure (\<lambda>(p, _, s). sp_epoch p - sk_epoch s)") (auto dest!: touch_step_epoch)

declare touch_loop.simps [simp del]

definition touch :: "stake_pool \<Rightarrow> stake_position \<Rightarrow> u64 \<Rightarrow> (stake_pool \<times> stake_position) option" where
  "touch p s now = do {
     rewards \<leftarrow> (case sp_rewards p of None \<Rightarrow> Some None | Some r \<Rightarrow> map_option Some (accrue r (sp_shares p) now));
     let p = p\<lparr>sp_rewards := rewards\<rparr>;
     let reward_acc = (case rewards of None \<Rightarrow> 0 | Some r \<Rightarrow> rw_acc r);
     s \<leftarrow> touch_loop p reward_acc s;
     s \<leftarrow> position_settle s reward_acc (sp_usdc_acc p);
     Some (p, s) }"

subsection \<open>Empty accounts\<close>

definition rewards_default :: rewards where
  "rewards_default = \<lparr>rw_mint = replicate 32 0, rw_account = replicate 32 0, rw_house = replicate 32 0, rw_decimals = 0,
     rw_start_ts = 0, rw_end_ts = 0, rw_amount = 0, rw_last_ts = 0, rw_acc = 0, rw_house_shares = 0,
     rw_distributed = 0, rw_paid = 0\<rparr>"

definition stake_pool_default :: stake_pool where
  "stake_pool_default = \<lparr>sp_bump = 0, sp_amba_decimals = 0, sp_haircut_bps = 0, sp_profit_bps = 0, sp_buffer_bps = 0,
     sp_vault = replicate 32 0, sp_operator = replicate 32 0, sp_amba_mint = replicate 32 0,
     sp_amba_account = replicate 32 0, sp_usdc_account = replicate 32 0, sp_usdc_mint = replicate 32 0,
     sp_staked = 0, sp_shares = 0, sp_allocated = 0, sp_buffer = 0, sp_recovery_owed = 0, sp_price = 0,
     sp_price_ts = 0, sp_twap = 0, sp_twap_window = 0, sp_expiry_window = 0, sp_usdc_acc = 0,
     sp_usdc_distributed = 0, sp_usdc_paid = 0, sp_profit_in = 0, sp_covered = 0, sp_slashed = 0, sp_staked_in = 0,
     sp_unstaked = 0, sp_created_ts = 0, sp_epoch = 0, sp_epoch_ends = replicate EPOCH_ENDS (0, 0),
     sp_epoch_rates = replicate EPOCH_ENDS (0, 0), sp_share_index = 0, sp_wipe_epoch = 0, sp_first_price_ts = 0,
     sp_unbonding = 0, sp_credit_markets = 0, sp_credit_counted = False, sp_rewards = None\<rparr>"

definition stake_position_default :: stake_position where
  "stake_position_default = \<lparr>sk_bump = 0, sk_pool = replicate 32 0, sk_owner = replicate 32 0, sk_shares = 0,
     sk_staked_in = 0, sk_unstaked = 0, sk_reward_snapshot = 0, sk_reward_pending = 0, sk_reward_paid = 0,
     sk_usdc_snapshot = 0, sk_usdc_pending = 0, sk_usdc_paid = 0, sk_epoch = 0, sk_index = 0, sk_unbonding = 0,
     sk_unbond_ts = 0\<rparr>"

subsection \<open>Conversions\<close>

lemma div_ceil_le_iff:
  assumes "0 < b"
  shows "div_ceil a b \<le> n \<longleftrightarrow> a \<le> n * b"
proof -
  define q r where "q = a div b" and "r = a mod b"
  have a: "a = q * b + r" and r: "r < b" using assms by (simp_all add: q_def r_def)
  have dc: "div_ceil a b = (if 0 < r then q + 1 else q)" by (simp add: div_ceil_def q_def r_def)
  show ?thesis
  proof (cases "q < n")
    case True
    then have "(q + 1) * b \<le> n * b" by (intro mult_le_mono1) simp
    moreover have "(q + 1) * b = q * b + b" by (simp only: distrib_right mult_1)
    ultimately have "a \<le> n * b" using a r by linarith
    with True show ?thesis by (simp add: dc)
  next
    case False
    then have "n * b \<le> q * b" by (intro mult_le_mono1) simp
    moreover have "n * b = q * b \<longleftrightarrow> q = n" using assms by auto
    ultimately have "a \<le> n * b \<longleftrightarrow> r = 0 \<and> q = n" using a by linarith
    with False show ?thesis by (auto simp: dc)
  qed
qed

lemma unit_of_pos: "unit_of p = Some u \<Longrightarrow> 0 < u"
  by (auto simp: unit_of_def checked_simps PRICE_SCALE_def)

lemma worth_iff: "0 < (u::nat) \<Longrightarrow> usdc \<le> n * price div u \<longleftrightarrow> usdc * u \<le> n * price"
  by (simp add: less_eq_div_iff_mult_less_eq)

text \<open>
  The AMBA asked for a USDC amount is the least that is worth it: at the same price no smaller number of atoms
  reaches the amount, and the asked atoms do. With a cap the request is the smaller of the two, and a price too low
  to buy the amount asks for every atom.
\<close>

theorem amba_for_is_least:
  assumes "unit_of p = Some u" "0 < price" "price < 2 ^ 64" "cap < 2 ^ 64"
  shows "(\<forall>a. amba_for p usdc price = Some a \<longrightarrow> (\<forall>n. a \<le> n \<longleftrightarrow> usdc \<le> n * price div u)) \<and>
    (\<exists>c. amba_for_at_most p usdc price cap = Some c \<and> (\<forall>n. c \<le> n \<longleftrightarrow> cap \<le> n \<or> usdc \<le> n * price div u))"
proof -
  have u: "0 < u" by (rule unit_of_pos [OF assms(1)])
  have fits: "cap \<le> n \<or> usdc * u \<le> n * price \<longleftrightarrow> cap \<le> n" if "2 ^ 128 \<le> usdc * u" for n
  proof (cases "n < 2 ^ 64")
    case True
    then have "n * price < 2 ^ 64 * 2 ^ 64" using assms(2,3) by (intro mult_strict_mono) auto
    with that show ?thesis by simp
  next
    case False
    with assms(4) show ?thesis by simp
  qed
  define c where "c = min (if usdc * u < 2 ^ 128 then div_ceil (usdc * u) price else 2 ^ 128 - 1) cap"
  have c: "c \<le> n \<longleftrightarrow> cap \<le> n \<or> usdc * u \<le> n * price" for n
  proof (cases "usdc * u < 2 ^ 128")
    case True
    then show ?thesis using div_ceil_le_iff [OF assms(2)] by (auto simp: c_def min_le_iff_disj)
  next
    case False
    moreover from this have "c = cap" using assms(4) by (simp add: c_def)
    ultimately show ?thesis using fits by auto
  qed
  have "c < 2 ^ 64" using assms(4) by (simp add: c_def min_less_iff_disj)
  then have "amba_for_at_most p usdc price cap = Some c" using assms(1,2)
    by (auto simp: amba_for_at_most_def c_def checked_mul_def checked_def cast_id)
  moreover have "\<forall>a. amba_for p usdc price = Some a \<longrightarrow> (\<forall>n. a \<le> n \<longleftrightarrow> usdc * u \<le> n * price)"
    using assms(1,2) div_ceil_le_iff [OF assms(2)] by (auto simp: amba_for_def checked_simps)
  ultimately show ?thesis using c u by (simp add: worth_iff)
qed

definition sample_pool :: stake_pool where
  "sample_pool = stake_pool_default\<lparr>sp_amba_decimals := 6, sp_staked := 1000, sp_shares := 1000, sp_allocated := 400,
     sp_buffer := 10, sp_buffer_bps := 500, sp_price := 30, sp_price_ts := 100, sp_twap := 20, sp_twap_window := 60\<rparr>"

lemma sample_pool_unit: "unit_of sample_pool = Some 1000000000000"
  by (simp add: unit_of_def sample_pool_def PRICE_SCALE_def checked_def checked_mul_def)

theorem amba_for_is_least_witness:
  "\<exists>c. amba_for_at_most sample_pool 7 3000000 50000000 = Some c \<and> (c \<le> 2333334 \<and> \<not> c \<le> 2333333)"
  using amba_for_is_least [OF sample_pool_unit, of 3000000 50000000 7] by auto

subsection \<open>The average price\<close>

lemma sdiv_pos: "0 < w \<Longrightarrow> int x sdiv int w = int (x div w)"
  by (cases "x = 0") (simp_all add: signed_divide_int_def zdiv_int)

lemma sdiv_neg: "0 < w \<Longrightarrow> (- int x) sdiv int w = - int (x div w)"
  by (cases "x = 0") (simp_all add: signed_divide_int_def zdiv_int)

lemma unsigned_of_int: "x < 2 ^ w \<Longrightarrow> unsigned_of w (int x) = x"
  by (simp add: unsigned_of_def nat_mod_distrib nat_power_eq)

lemma part_le: "dt \<le> w \<Longrightarrow> (d::nat) * dt div w \<le> d"
  by (cases "w = 0") (auto intro: div_le_of_mult_le)

text \<open>The average as a number: from the last average by the elapsed part of the window toward the price.\<close>

lemma twap_at_cases:
  assumes "sp_price_ts p \<noteq> 0" "sp_twap p < 2 ^ 64" "sp_price p < 2 ^ 64"
  shows "twap_at p now =
    (let dt = now - sp_price_ts p; w = sp_twap_window p in
     if w \<le> dt then sp_price p
     else if sp_twap p \<le> sp_price p then sp_twap p + (sp_price p - sp_twap p) * dt div w
     else sp_twap p - (sp_twap p - sp_price p) * dt div w)"
proof -
  define dt w a q where "dt = now - sp_price_ts p" and "w = sp_twap_window p" and "a = sp_twap p" and "q = sp_price p"
  note d = dt_def [symmetric] w_def [symmetric] a_def [symmetric] q_def [symmetric]
  note lim = assms(2,3) [unfolded d]
  consider "w \<le> dt" | "dt < w" "a \<le> q" | "dt < w" "q < a" by linarith
  then show ?thesis
  proof cases
    case 1
    then show ?thesis using assms(1) by (simp add: twap_at_def Let_def d)
  next
    case 2
    have "(int q - int a) * int dt = int ((q - a) * dt)" using 2 by (simp add: of_nat_diff)
    then have "int a + ((int q - int a) * int dt) sdiv int w = int (a + (q - a) * dt div w)"
      using 2 by (simp only: sdiv_pos [OF le_less_trans [OF le0 2(1)]] of_nat_add)
    moreover have "a + (q - a) * dt div w < 2 ^ 64" using part_le [of dt w "q - a"] 2 lim by simp
    moreover have "twap_at p now = unsigned_of 64 (int a + ((int q - int a) * int dt) sdiv int w)"
      using assms(1) 2 by (simp add: twap_at_def Let_def d)
    ultimately have "twap_at p now = a + (q - a) * dt div w" by (simp only: unsigned_of_int)
    with 2 show ?thesis by (simp add: Let_def d)
  next
    case 3
    have "(int q - int a) * int dt = - int ((a - q) * dt)" using 3 by (simp add: of_nat_diff algebra_simps)
    moreover have "(a - q) * dt div w \<le> a" using part_le [of dt w "a - q"] 3 by simp
    ultimately have "int a + ((int q - int a) * int dt) sdiv int w = int (a - (a - q) * dt div w)"
      using 3 by (simp only: sdiv_neg [OF le_less_trans [OF le0 3(1)]] of_nat_diff)
    moreover have "a - (a - q) * dt div w < 2 ^ 64" using lim by simp
    moreover have "twap_at p now = unsigned_of 64 (int a + ((int q - int a) * int dt) sdiv int w)"
      using assms(1) 3 by (simp add: twap_at_def Let_def d)
    ultimately have "twap_at p now = a - (a - q) * dt div w" by (simp only: unsigned_of_int)
    with 3 show ?thesis by (simp add: Let_def d)
  qed
qed

lemma twap_between:
  assumes "(a::nat) \<le> q" "x \<le> y" "y < w"
  shows "a + (q - a) * x div w \<le> a + (q - a) * y div w" "a + (q - a) * y div w \<le> q"
  using assms part_le [of y w "q - a"] by (auto intro!: div_le_mono mult_le_mono2)

text \<open>
  The average price always lies between the average at the last post and the price posted then, starts at the
  first, moves only toward the second and reaches it when the window has passed: at every later moment it lies
  between what it was and the posted price.
\<close>

theorem average_moves_toward_the_price:
  assumes "sp_price_ts p \<noteq> 0" "sp_twap p < 2 ^ 64" "sp_price p < 2 ^ 64" "t \<le> later"
  shows "min (sp_twap p) (sp_price p) \<le> twap_at p t \<and> twap_at p t \<le> max (sp_twap p) (sp_price p) \<and>
    min (twap_at p t) (sp_price p) \<le> twap_at p later \<and> twap_at p later \<le> max (twap_at p t) (sp_price p) \<and>
    (0 < sp_twap_window p \<longrightarrow> twap_at p (sp_price_ts p) = sp_twap p) \<and>
    twap_at p (sp_price_ts p + sp_twap_window p) = sp_price p"
proof -
  define x y w a q where "x = t - sp_price_ts p" and "y = later - sp_price_ts p" and "w = sp_twap_window p"
    and "a = sp_twap p" and "q = sp_price p"
  note d = x_def [symmetric] y_def [symmetric] w_def [symmetric] a_def [symmetric] q_def [symmetric]
  have xy: "x \<le> y" using assms(4) by (simp add: x_def y_def)
  note at = twap_at_cases [OF assms(1-3)]
  define X Y X' Y' where "X = (q - a) * x div w" and "Y = (q - a) * y div w" and "X' = (a - q) * x div w"
    and "Y' = (a - q) * y div w"
  note D = X_def [symmetric] Y_def [symmetric] X'_def [symmetric] Y'_def [symmetric]
  have le: "X \<le> Y" "X' \<le> Y'" unfolding X_def Y_def X'_def Y'_def using xy by (auto intro: div_le_mono mult_le_mono2)
  have top: "w \<le> x \<or> X \<le> q - a \<and> X' \<le> a - q" "w \<le> y \<or> Y \<le> q - a \<and> Y' \<le> a - q"
    unfolding X_def Y_def X'_def Y'_def using part_le by (meson nat_le_linear)+
  show ?thesis using xy le top unfolding at Let_def d D
    by (cases "a \<le> q"; cases "w \<le> x"; cases "w \<le> y") (simp_all add: min_def max_def, linarith+)
qed

theorem average_moves_toward_the_price_witness:
  "min 20 30 \<le> twap_at sample_pool 110 \<and> twap_at sample_pool 130 \<le> max (twap_at sample_pool 110) 30"
proof -
  have "sp_price_ts sample_pool = 100" "sp_twap sample_pool = 20" "sp_price sample_pool = 30"
    by (simp_all add: sample_pool_def)
  then show ?thesis using average_moves_toward_the_price [of sample_pool 110 130] by auto
qed

subsection \<open>Profit, buffer and shares\<close>

lemma spread_facts:
  assumes "spread p amount = Some q"
  shows "q = p\<lparr>sp_buffer := sp_buffer q, sp_usdc_acc := sp_usdc_acc q, sp_usdc_distributed := sp_usdc_distributed q\<rparr>"
    "sp_buffer q + sp_usdc_distributed q = sp_buffer p + sp_usdc_distributed p + amount"
    "sp_usdc_acc q = sp_usdc_acc p + (sp_usdc_distributed q - sp_usdc_distributed p) * USDC_SCALE div sp_shares p"
    "sp_usdc_distributed p \<le> sp_usdc_distributed q"
    "sp_buffer q = (if sp_shares p = 0 then sp_buffer p + amount else sp_buffer p)"
  using assms by (auto simp: spread_def checked_simps split: if_splits)

lemma take_profit_facts:
  assumes "take_profit p amount = Some q"
  shows "sp_buffer q + sp_usdc_distributed q = sp_buffer p + sp_usdc_distributed p + amount"
    "(sp_usdc_acc q - sp_usdc_acc p) * sp_shares p \<le> (sp_usdc_distributed q - sp_usdc_distributed p) * USDC_SCALE"
    "sp_shares p \<noteq> 0 \<Longrightarrow> sp_buffer q \<le> max (sp_buffer p) (buffer_target p)"
    "sp_shares p \<noteq> 0 \<Longrightarrow> sp_usdc_distributed q \<noteq> sp_usdc_distributed p \<Longrightarrow> buffer_target p \<le> sp_buffer q"
proof -
  obtain fill b where f: "fill = min amount (buffer_target p - sp_buffer p)" "b = sp_buffer p + fill"
    and s: "spread (p\<lparr>sp_buffer := b\<rparr>) (amount - fill) = Some q"
    using assms by (auto simp: take_profit_def Let_def checked_simps)
  note S = spread_facts [OF s]
  show "sp_buffer q + sp_usdc_distributed q = sp_buffer p + sp_usdc_distributed p + amount" using S(2) f by simp
  show "(sp_usdc_acc q - sp_usdc_acc p) * sp_shares p \<le> (sp_usdc_distributed q - sp_usdc_distributed p) * USDC_SCALE"
    using S(3) by simp
  assume "sp_shares p \<noteq> 0"
  then have b: "sp_buffer q = b" using S(5) by simp
  show "sp_buffer q \<le> max (sp_buffer p) (buffer_target p)" using f b by simp
  assume "sp_usdc_distributed q \<noteq> sp_usdc_distributed p"
  then have "fill < amount" using S(2) b by simp
  then show "buffer_target p \<le> sp_buffer q" using f b by simp
qed

lemma release_buffer_cases:
  assumes "release_buffer p = Some q"
  obtains "q = p" "sp_buffer p \<le> buffer_target p \<or> sp_shares p = 0"
  | "buffer_target p < sp_buffer p" "sp_shares p \<noteq> 0"
    "spread (p\<lparr>sp_buffer := buffer_target p\<rparr>) (sp_buffer p - buffer_target p) = Some q"
  using assms by (auto simp: release_buffer_def Let_def split: if_splits)

text \<open>
  C34. The stakers' USDC is conserved: a market's profit goes, atom for atom, into the buffer and to the shares, and
  releasing the buffer moves its excess to the shares and nothing else. With shares out, profit reaches them only
  once the buffer is at its target, a release leaves the buffer at most at its target, and what the accumulator
  promises all shares together never exceeds what was distributed.
\<close>

theorem stakers_usdc_is_conserved:
  "(take_profit p amount = Some q \<longrightarrow>
      sp_buffer q + sp_usdc_distributed q = sp_buffer p + sp_usdc_distributed p + amount \<and>
      (sp_usdc_acc q - sp_usdc_acc p) * sp_shares p \<le> (sp_usdc_distributed q - sp_usdc_distributed p) * USDC_SCALE \<and>
      (sp_shares p \<noteq> 0 \<longrightarrow> sp_buffer q \<le> max (sp_buffer p) (buffer_target p) \<and>
        (sp_usdc_distributed q \<noteq> sp_usdc_distributed p \<longrightarrow> buffer_target p \<le> sp_buffer q))) \<and>
   (release_buffer p = Some r \<longrightarrow>
      sp_buffer r + sp_usdc_distributed r = sp_buffer p + sp_usdc_distributed p \<and>
      (sp_usdc_acc r - sp_usdc_acc p) * sp_shares p \<le> (sp_usdc_distributed r - sp_usdc_distributed p) * USDC_SCALE \<and>
      (sp_shares p \<noteq> 0 \<longrightarrow> sp_buffer r \<le> buffer_target p \<and> min (sp_buffer p) (buffer_target p) = sp_buffer r))"
proof -
  have "sp_buffer r + sp_usdc_distributed r = sp_buffer p + sp_usdc_distributed p \<and>
      (sp_usdc_acc r - sp_usdc_acc p) * sp_shares p \<le> (sp_usdc_distributed r - sp_usdc_distributed p) * USDC_SCALE \<and>
      (sp_shares p \<noteq> 0 \<longrightarrow> sp_buffer r \<le> buffer_target p \<and> min (sp_buffer p) (buffer_target p) = sp_buffer r)"
    if "release_buffer p = Some r" using that
  proof (cases rule: release_buffer_cases)
    case 2
    with spread_facts [OF 2(3)] show ?thesis by simp
  qed auto
  with take_profit_facts show ?thesis by blast
qed

theorem stakers_usdc_is_conserved_witness:
  "\<exists>q. take_profit sample_pool 100 = Some q \<and> sp_buffer q + sp_usdc_distributed q = 110 \<and> sp_buffer q \<le> 20"
proof -
  obtain q where q: "take_profit sample_pool 100 = Some q"
    by (simp add: take_profit_def spread_def sample_pool_def stake_pool_default_def buffer_target_def FUTURES_BPS_def
      USDC_SCALE_def cast_def Let_def checked_def checked_mul_def checked_add_def)
  have "sp_buffer sample_pool = 10" "sp_usdc_distributed sample_pool = 0" "buffer_target sample_pool = 20"
    "sp_shares sample_pool = 1000"
    by (simp_all add: sample_pool_def stake_pool_default_def buffer_target_def FUTURES_BPS_def cast_def)
  with q stakers_usdc_is_conserved [of sample_pool 100 q sample_pool] show ?thesis by auto
qed

subsection \<open>Touching a position\<close>

lemma position_settle_facts:
  assumes "position_settle s reward_acc usdc_acc = Some t"
  shows "t = s\<lparr>sk_reward_pending := sk_reward_pending s + sk_shares s * (reward_acc - sk_reward_snapshot s) div REWARD_SCALE,
      sk_reward_snapshot := reward_acc,
      sk_usdc_pending := sk_usdc_pending s + sk_shares s * (usdc_acc - sk_usdc_snapshot s) div USDC_SCALE,
      sk_usdc_snapshot := usdc_acc\<rparr>"
    "sk_reward_snapshot s \<le> reward_acc" "sk_usdc_snapshot s \<le> usdc_acc"
    "sk_reward_pending t < 2 ^ 64" "sk_usdc_pending t < 2 ^ 64"
  using assms by (auto simp: position_settle_def checked_simps)

lemma position_settle_again:
  assumes "position_settle s reward_acc usdc_acc = Some t"
  shows "position_settle t reward_acc usdc_acc = Some t"
  using position_settle_facts(4,5) [OF assms] unfolding position_settle_facts(1) [OF assms]
  by (simp add: position_settle_def checked_sub_def checked_mul_def checked_add_def checked_def)

lemma convert_shares_eq: "convert_shares n (a, b) = (if b = 0 then 0 else cast 64 (min (n * a div b) n))"
  by (simp add: convert_shares_def)

lemma convert_shares_le: "convert_shares n rate \<le> n"
  by (auto simp: convert_shares_def cast_def split: prod.splits intro: order_trans [OF mod_less_eq_dividend])

lemma index_convert_le: "index_convert wiped index from n = Some m \<Longrightarrow> m \<le> n"
  by (auto simp: index_convert_def checked_simps cast_def split: if_splits intro: order_trans [OF mod_less_eq_dividend])

lemma touch_step_shares:
  assumes "touch_step p acc s = Some t"
  shows "sk_shares t \<le> sk_shares s" "sk_unbonding t \<le> sk_shares t" "sk_usdc_pending s \<le> sk_usdc_pending t"
    "sk_reward_pending s \<le> sk_reward_pending t" "sk_owner t = sk_owner s"
  using assms
  by (auto simp: touch_step_def checked_simps Let_def position_settle_def intro: convert_shares_le index_convert_le
      split: if_splits prod.splits)

lemma touch_loop_facts:
  assumes "touch_loop p acc s = Some t"
  shows "sk_epoch t = sp_epoch p \<and> sk_shares t \<le> sk_shares s \<and> (sk_unbonding s \<le> sk_shares s \<longrightarrow> sk_unbonding t \<le> sk_shares t)
    \<and> sk_usdc_pending s \<le> sk_usdc_pending t \<and> sk_reward_pending s \<le> sk_reward_pending t \<and> sk_owner t = sk_owner s"
  using assms
proof (induction p acc s rule: touch_loop.induct)
  case (1 p acc s)
  show ?case
  proof (cases "sk_epoch s = sp_epoch p")
    case True
    with "1.prems" show ?thesis by (simp add: touch_loop.simps)
  next
    case False
    with "1.prems" obtain u where u: "touch_step p acc s = Some u" "touch_loop p acc u = Some t"
      by (auto simp: touch_loop.simps [of p acc s] split: option.splits)
    show ?thesis using "1.IH" [OF False u] touch_step_shares [OF u(1)] by auto
  qed
qed

lemma accrue_again:
  assumes "accrue r n now = Some r'"
  shows "accrue r' m now = Some r'"
proof -
  have "rw_last_ts r' = max (rw_last_ts r) now" "rw_start_ts r' = rw_start_ts r" "rw_end_ts r' = rw_end_ts r"
    using assms by (auto simp: accrue_def Let_def checked_simps split: if_splits)
  then show ?thesis by (simp add: accrue_def Let_def)
qed

definition reward_acc :: "stake_pool \<Rightarrow> u128" where
  "reward_acc p = (case sp_rewards p of None \<Rightarrow> 0 | Some r \<Rightarrow> rw_acc r)"

lemma touch_cases:
  assumes "touch p s now = Some (q, t)"
  obtains rewards u where "q = p\<lparr>sp_rewards := rewards\<rparr>" "touch_loop q (reward_acc q) s = Some u"
    "position_settle u (reward_acc q) (sp_usdc_acc q) = Some t"
    "(case sp_rewards p of None \<Rightarrow> Some None | Some r \<Rightarrow> map_option Some (accrue r (sp_shares p) now)) = Some rewards"
proof -
  from assms obtain rewards u where a:
    "(case sp_rewards p of None \<Rightarrow> Some None | Some r \<Rightarrow> map_option Some (accrue r (sp_shares p) now)) = Some rewards"
    and q: "q = p\<lparr>sp_rewards := rewards\<rparr>" and u: "touch_loop q (reward_acc q) s = Some u"
    "position_settle u (reward_acc q) (sp_usdc_acc q) = Some t"
    by (auto simp: touch_def Let_def checked_simps reward_acc_def)
  show ?thesis by (rule that [OF q u a])
qed

text \<open>
  C35. Touching a position brings it fully up to date, whatever epoch it was left in: it then is of the pool's epoch
  with both snapshots at the accumulators, it holds no more shares than before and no more of them unstaking than
  it holds, what was pending still is, nothing of the pool but its stream moves, and touching it again at the same
  time changes nothing.
\<close>

theorem touch_brings_a_position_up_to_date:
  assumes "touch p s now = Some (q, t)" "sk_unbonding s \<le> sk_shares s"
  shows "sk_epoch t = sp_epoch q \<and> sk_usdc_snapshot t = sp_usdc_acc q \<and> sk_reward_snapshot t = reward_acc q \<and>
    sk_shares t \<le> sk_shares s \<and> sk_unbonding t \<le> sk_shares t \<and> sk_usdc_pending s \<le> sk_usdc_pending t \<and>
    sk_reward_pending s \<le> sk_reward_pending t \<and> q = p\<lparr>sp_rewards := sp_rewards q\<rparr> \<and> touch q t now = Some (q, t)"
  using assms(1)
proof (cases rule: touch_cases)
  case (1 rewards u)
  note L = touch_loop_facts [OF 1(2)] and S = position_settle_facts [OF 1(3)]
  have fields: "sk_epoch t = sp_epoch q" "sk_usdc_snapshot t = sp_usdc_acc q" "sk_reward_snapshot t = reward_acc q"
    "sk_shares t = sk_shares u" "sk_unbonding t = sk_unbonding u" "sk_usdc_pending u \<le> sk_usdc_pending t"
    "sk_reward_pending u \<le> sk_reward_pending t"
    using L by (simp_all add: S(1))
  have "(case sp_rewards q of None \<Rightarrow> Some None | Some r \<Rightarrow> map_option Some (accrue r (sp_shares q) now)) = Some (sp_rewards q)"
    using 1(1,4) by (auto simp: accrue_again split: option.splits)
  moreover have "touch_loop q (reward_acc q) t = Some t" by (simp add: touch_loop.simps fields)
  ultimately have "touch q t now = Some (q, t)"
    using position_settle_again [OF 1(3)] by (simp add: touch_def reward_acc_def)
  with fields L 1(1) assms(2) show ?thesis by auto
qed

definition sample_position :: stake_position where
  "sample_position = stake_position_default\<lparr>sk_shares := 100, sk_unbonding := 40\<rparr>"

text \<open>The sample pool a share epoch on, after a shortfall took a quarter of what was staked.\<close>

definition rolled_pool :: stake_pool where
  "rolled_pool = sample_pool\<lparr>sp_epoch := 1, sp_staked := 750, sp_shares := 750,
     sp_epoch_rates := [(750, 1000), (0, 0), (0, 0), (0, 0)]\<rparr>"

theorem touch_brings_a_position_up_to_date_witness:
  "\<exists>q t. touch rolled_pool sample_position 500 = Some (q, t) \<and> sk_epoch t = 1 \<and> sk_shares t = 75 \<and>
     sk_unbonding t \<le> 75 \<and> touch q t 500 = Some (q, t)"
proof -
  define t where "t = sample_position\<lparr>sk_shares := 75, sk_unbonding := 30, sk_epoch := 1\<rparr>"
  have t: "touch rolled_pool sample_position 500 = Some (rolled_pool, t)"
    by (simp add: touch_def touch_loop.simps touch_step_def position_settle_def convert_shares_def rolled_pool_def
      sample_pool_def sample_position_def stake_pool_default_def stake_position_default_def t_def cast_def Let_def
      checked_sub_def checked_mul_def checked_add_def checked_def)
  have "sk_unbonding sample_position \<le> sk_shares sample_position" by (simp add: sample_position_def)
  moreover have "sp_epoch rolled_pool = 1" "sk_shares t = 75" by (simp_all add: rolled_pool_def t_def)
  ultimately show ?thesis using touch_brings_a_position_up_to_date [OF t] t by auto
qed

end
