(* ===== verification/Credit.thy ===== *)
theory Credit
  imports Staking
begin

text \<open>
  The credit a stake pool lends to a market, as the market's header keeps it (\<open>Header\<close> in
  \<open>programs/futures/src/state.rs\<close>): whose it is and whether it is settled, the clock of its time-weighted size,
  the weight that gives the stakers their share of the maker's profit, and the maker's equity after both.
\<close>

definition CREDIT_SETTLED :: u8 where "CREDIT_SETTLED = 1"
definition CREDIT_SHORTFALL :: u8 where "CREDIT_SHORTFALL = 2"
definition CREDIT_COUNTED :: u8 where "CREDIT_COUNTED = 4"
definition STATUS_OPEN :: u8 where "STATUS_OPEN = 0"
definition STATUS_SETTLED :: u8 where "STATUS_SETTLED = 1"
definition STATUS_FAILED :: u8 where "STATUS_FAILED = 2"

definition default_key :: pubkey where "default_key = replicate 32 0"

definition has_credit :: "header \<Rightarrow> bool" where
  "has_credit h \<longleftrightarrow> h_credit_owner h \<noteq> default_key"

definition credit_settled :: "header \<Rightarrow> bool" where
  "credit_settled h \<longleftrightarrow> h_credit_flags h AND CREDIT_SETTLED \<noteq> 0"

definition counts_credit_of :: "header \<Rightarrow> pubkey \<Rightarrow> bool" where
  "counts_credit_of h vault \<longleftrightarrow>
     h_credit_owner h = vault \<and> \<not> credit_settled h \<and> h_credit_flags h AND CREDIT_COUNTED \<noteq> 0"

definition holds_unstaking :: "header \<Rightarrow> u64 \<Rightarrow> u64 \<Rightarrow> bool" where
  "holds_unstaking h expiry_window now =
     (let from = min (h_credit_until h) (h_expiry_ts h - expiry_window) in \<not> credit_settled h \<and> from \<le> now)"

definition funded :: "header \<Rightarrow> i128" where
  "funded h = int (h_funded_in h) - int (h_funded_out h)"

definition credit_clock :: "header \<Rightarrow> u64 \<Rightarrow> header option" where
  "credit_clock h now =
     (let t = min now (h_expiry_ts h) in
      if h_tw_ts h = 0 then Some (h\<lparr>h_tw_ts := t\<rparr>)
      else if h_tw_ts h < t then do {
        let dt = t - h_tw_ts h;
        credit \<leftarrow> checked_mul 128 (h_credit_limit h) dt;
        cash \<leftarrow> checked_mul 128 (nat (max (funded h) 0)) dt;
        tw_credit \<leftarrow> checked_add 128 (h_tw_credit h) credit;
        tw_cash \<leftarrow> checked_add 128 (h_tw_cash h) cash;
        Some (h\<lparr>h_tw_credit := tw_credit, h_tw_cash := tw_cash, h_tw_ts := t\<rparr>) }
      else Some h)"

definition credit_weight :: "header \<Rightarrow> u128" where
  "credit_weight h =
     (let tot = saturate 128 (h_tw_credit h + h_tw_cash h) in
      if tot = 0 then 0 else saturate 128 (h_tw_credit h * WEIGHT_SCALE) div tot)"

definition staker_share_max :: "header \<Rightarrow> u64 \<Rightarrow> u64" where
  "staker_share_max h equity =
     (let profit = int equity - funded h in
      if profit \<le> 0 then 0
      else let part = nat profit * h_profit_bps h div FUTURES_BPS
           in min (saturate 64 part) equity)"

definition staker_share :: "header \<Rightarrow> u64 \<Rightarrow> u64" where
  "staker_share h equity =
     (let profit = int equity - funded h in
      if profit \<le> 0 then 0
      else let part = nat profit * h_profit_bps h div FUTURES_BPS;
               share = saturate 128 (part * credit_weight h) div WEIGHT_SCALE
           in min (saturate 64 share) equity)"

text \<open>\<open>None\<close> where the subtraction of the share would abort, which \<open>staker_share_bounds\<close> excludes.\<close>

definition credit_equity :: "header \<Rightarrow> u64 \<Rightarrow> u64 \<Rightarrow> u64 option" where
  "credit_equity h raw now =
     (if credit_settled h then Some raw
      else let equity = raw - h_debt h in
        case credit_clock h now of
          None \<Rightarrow> Some equity
        | Some clock \<Rightarrow> checked_sub equity (staker_share clock equity))"

subsection \<open>The clock\<close>

lemma credit_clock_eq:
  assumes "credit_clock h now = Some h'" "h_tw_ts h \<noteq> 0" "d = min now (h_expiry_ts h) - h_tw_ts h"
  shows "h' = h\<lparr>h_tw_credit := h_tw_credit h + h_credit_limit h * d,
      h_tw_cash := h_tw_cash h + nat (max (funded h) 0) * d, h_tw_ts := h_tw_ts h + d\<rparr>"
proof (cases "h_tw_ts h < min now (h_expiry_ts h)")
  case True
  then show ?thesis using assms by (auto simp: credit_clock_def Let_def checked_simps)
next
  case False
  then have "h' = h" "d = 0" using assms by (auto simp: credit_clock_def Let_def split: if_splits)
  then show ?thesis by simp
qed

lemma credit_clock_upd [simp]:
  "funded (h\<lparr>h_tw_credit := c, h_tw_cash := d, h_tw_ts := t\<rparr>) = funded h"
  by (simp add: funded_def)

text \<open>
  C36. However often the clock of a market's credit is brought up, it ends with the same totals: stopping at any
  moment in between changes neither the time-weighted credit, the time-weighted funding nor the clock, and each
  total grows by its size times the seconds up to the expiry.
\<close>

theorem credit_clock_is_the_area:
  assumes "credit_clock h now = Some h1" "credit_clock h1 later = Some h2" "h_tw_ts h \<noteq> 0" "now \<le> later"
  shows "h_tw_credit h2 = h_tw_credit h + h_credit_limit h * (min later (h_expiry_ts h) - h_tw_ts h) \<and>
    h_tw_cash h2 = h_tw_cash h + nat (max (funded h) 0) * (min later (h_expiry_ts h) - h_tw_ts h) \<and>
    (\<forall>direct. credit_clock h later = Some direct \<longrightarrow> direct = h2)"
proof -
  define d1 d2 d where "d1 = min now (h_expiry_ts h) - h_tw_ts h"
    and "d2 = min later (h_expiry_ts h) - (h_tw_ts h + d1)" and "d = min later (h_expiry_ts h) - h_tw_ts h"
  have d: "d = d1 + d2" using assms(4) by (simp add: d_def d1_def d2_def)
  note h1 = credit_clock_eq [OF assms(1,3) d1_def]
  have "h2 = h1\<lparr>h_tw_credit := h_tw_credit h1 + h_credit_limit h1 * d2,
      h_tw_cash := h_tw_cash h1 + nat (max (funded h1) 0) * d2, h_tw_ts := h_tw_ts h1 + d2\<rparr>"
    using assms(3) by (intro credit_clock_eq [OF assms(2)]) (simp_all add: h1 d2_def)
  then have h2: "h2 = h\<lparr>h_tw_credit := h_tw_credit h + h_credit_limit h * d,
      h_tw_cash := h_tw_cash h + nat (max (funded h) 0) * d, h_tw_ts := h_tw_ts h + d\<rparr>"
    by (simp add: h1 d distrib_left)
  moreover have "direct = h2" if "credit_clock h later = Some direct" for direct
    using credit_clock_eq [OF that assms(3) d_def] h2 by simp
  ultimately show ?thesis by (simp add: d_def)
qed

definition lent :: header where
  "lent = sample_header\<lparr>h_expiry_ts := 1000, h_credit_limit := 50, h_funded_in := 30, h_tw_ts := 100, h_profit_bps := 5000\<rparr>"

theorem credit_clock_is_the_area_witness:
  "\<exists>h1 h2. credit_clock lent 300 = Some h1 \<and> credit_clock h1 2000 = Some h2 \<and>
     h_tw_credit h2 = 45000 \<and> credit_clock lent 2000 = Some h2"
proof -
  define h1 where "h1 = the (credit_clock lent 300)"
  define h2 where "h2 = the (credit_clock h1 2000)"
  define direct where "direct = the (credit_clock lent 2000)"
  note eval = lent_def sample_header_def credit_clock_def Let_def funded_def checked_mul_def checked_add_def checked_def
  have 1: "credit_clock lent 300 = Some h1" by (simp add: h1_def eval)
  have 2: "credit_clock h1 2000 = Some h2" by (simp add: h2_def h1_def eval)
  have 3: "credit_clock lent 2000 = Some direct" by (simp add: direct_def eval)
  have fields: "h_tw_ts lent = 100" "h_expiry_ts lent = 1000" "h_credit_limit lent = 50" "h_tw_credit lent = 0"
    by (simp_all add: lent_def sample_header_def)
  show ?thesis using credit_clock_is_the_area [OF 1 2] 1 2 3 by (simp add: fields)
qed

subsection \<open>The stakers' share\<close>

lemma credit_weight_le: "credit_weight h \<le> WEIGHT_SCALE"
proof -
  define S :: nat where "S = saturate 128 (h_tw_credit h + h_tw_cash h)"
  have "saturate 128 (h_tw_credit h * WEIGHT_SCALE) \<le> WEIGHT_SCALE * S"
    by (auto simp: S_def saturate_def WEIGHT_SCALE_def min_def)
  then show ?thesis by (auto simp: credit_weight_def Let_def S_def [symmetric] intro!: div_le_of_mult_le)
qed

lemma staker_share_le_max: "staker_share h equity \<le> staker_share_max h equity"
proof -
  define part where "part = nat (int equity - funded h) * h_profit_bps h div FUTURES_BPS"
  have "saturate 128 (part * credit_weight h) \<le> part * WEIGHT_SCALE"
    unfolding saturate_def by (rule min.coboundedI1 [OF mult_le_mono2 [OF credit_weight_le]])
  then have "saturate 128 (part * credit_weight h) div WEIGHT_SCALE \<le> part"
    by (rule div_le_of_mult_le) (simp add: WEIGHT_SCALE_def)
  then have "saturate 64 (saturate 128 (part * credit_weight h) div WEIGHT_SCALE) \<le> saturate 64 part"
    by (auto simp: saturate_def)
  then show ?thesis
    by (simp add: staker_share_def staker_share_max_def Let_def part_def [symmetric] min.coboundedI1)
qed

text \<open>
  C37. The stakers never take more of a market than the maker earned there: whatever the clock counted, their share
  is at most the profit part at full weight, that part is at most the equity itself and, with the profit share at
  most all of it, at most the profit; without profit it is nothing. So the maker's equity never aborts and lies
  between its funding and its raw value less the debt.
\<close>

theorem staker_share_is_bounded:
  assumes "h_profit_bps h \<le> FUTURES_BPS"
  shows "staker_share h equity \<le> staker_share_max h equity \<and> staker_share_max h equity \<le> equity \<and>
    int (staker_share_max h equity) \<le> max 0 (int equity - funded h) \<and>
    (\<exists>e. credit_equity h raw now = Some e \<and> e \<le> raw \<and>
      (\<not> credit_settled h \<longrightarrow> e \<le> raw - h_debt h \<and> min (int (raw - h_debt h)) (funded h) \<le> int e))"
proof -
  have most: "staker_share_max g e \<le> e" for g e by (simp add: staker_share_max_def Let_def)
  have profit: "int (staker_share_max g e) \<le> max 0 (int e - funded g)" if "h_profit_bps g \<le> FUTURES_BPS" for g e
  proof -
    have "nat (int e - funded g) * h_profit_bps g div FUTURES_BPS \<le> nat (int e - funded g)"
      using that by (intro div_le_of_mult_le mult_le_mono2) (simp_all add: FUTURES_BPS_def)
    then show ?thesis by (auto simp: staker_share_max_def Let_def saturate_def min_def)
  qed
  have equity: "\<exists>e. credit_equity h raw now = Some e \<and> e \<le> raw \<and>
      (\<not> credit_settled h \<longrightarrow> e \<le> raw - h_debt h \<and> min (int (raw - h_debt h)) (funded h) \<le> int e)"
  proof (cases "credit_settled h")
    case True
    then show ?thesis by (simp add: credit_equity_def)
  next
    case False
    show ?thesis
    proof (cases "credit_clock h now")
      case None
      with False show ?thesis by (simp add: credit_equity_def)
    next
      case (Some c)
      have c: "funded c = funded h" "h_profit_bps c = h_profit_bps h"
        using Some by (auto simp: credit_clock_def Let_def checked_simps funded_def split: if_splits)
      let ?e = "raw - h_debt h"
      have s: "staker_share c ?e \<le> ?e" "int (staker_share c ?e) \<le> max 0 (int ?e - funded h)"
        using staker_share_le_max [of c ?e] most [of c ?e] profit [of c ?e] assms c by auto
      then show ?thesis using False Some by (auto simp: credit_equity_def checked_sub_def of_nat_diff)
    qed
  qed
  show ?thesis using staker_share_le_max most profit [OF assms] equity by blast
qed

theorem staker_share_is_bounded_witness:
  "staker_share lent 100 \<le> staker_share_max lent 100 \<and> (\<exists>e. credit_equity lent 100 500 = Some e \<and> e \<le> 100)"
proof -
  have "h_profit_bps lent \<le> FUTURES_BPS" by (simp add: lent_def FUTURES_BPS_def)
  from staker_share_is_bounded [OF this, of 100 100 500] show ?thesis by blast
qed

end
