(* ===== verification/Results.thy ===== *)
theory Results
  imports Market_Records Checked_Loops
begin

text \<open>
  How an instruction returns: \<open>None\<close> where it aborts, \<open>Some (Inl e)\<close> where it returns the error \<open>e\<close> and
  \<open>Some (Inr x)\<close> where it succeeds. The combinators below are the early returns of the source, and \<open>res_simps\<close>
  reads off when a chain of them succeeds. The checked additions and subtractions are those of
  \<open>programs/futures/src/processor.rs\<close>.
\<close>

text \<open>An early return of an error, and the \<open>?\<close> operator on an option turned into one.\<close>

definition ensure :: "futures_error \<Rightarrow> bool \<Rightarrow> 'a res \<Rightarrow> 'a res" where
  "ensure e b k = (if b then k else Some (Inl e))"

definition need :: "futures_error \<Rightarrow> 'a option \<Rightarrow> ('a \<Rightarrow> 'b res) \<Rightarrow> 'b res" where
  "need e x k = (case x of None \<Rightarrow> Some (Inl e) | Some y \<Rightarrow> k y)"

definition andthen :: "'a res \<Rightarrow> ('a \<Rightarrow> 'b res) \<Rightarrow> 'b res" where
  "andthen x k = (case x of None \<Rightarrow> None | Some (Inl e) \<Rightarrow> Some (Inl e) | Some (Inr y) \<Rightarrow> k y)"

named_theorems res_simps \<open>when an instruction succeeds\<close>

lemma ensure_ok [res_simps]: "ensure e b k = Some (Inr y) \<longleftrightarrow> b \<and> k = Some (Inr y)"
  by (simp add: ensure_def)

lemma need_ok [res_simps]: "need e x k = Some (Inr y) \<longleftrightarrow> (\<exists>z. x = Some z \<and> k z = Some (Inr y))"
  by (cases x) (simp_all add: need_def)

lemma andthen_ok [res_simps]: "andthen x k = Some (Inr y) \<longleftrightarrow> (\<exists>z. x = Some (Inr z) \<and> k z = Some (Inr y))"
  by (auto simp: andthen_def split: option.splits sum.splits)

definition add_u64 :: "u64 \<Rightarrow> u64 \<Rightarrow> u64 res" where
  "add_u64 a b = need Overflow (checked_add 64 a b) (Some \<circ> Inr)"

definition sub_u64 :: "u64 \<Rightarrow> u64 \<Rightarrow> u64 res" where
  "sub_u64 a b = need InsufficientFunds (checked_sub a b) (Some \<circ> Inr)"

lemma add_u64_ok [res_simps]: "add_u64 a b = Some (Inr c) \<longleftrightarrow> c = a + b \<and> a + b < 2 ^ 64"
  by (auto simp: add_u64_def need_ok checked_simps)

lemma sub_u64_ok [res_simps]: "sub_u64 a b = Some (Inr c) \<longleftrightarrow> c = a - b \<and> b \<le> a"
  by (auto simp: sub_u64_def need_ok checked_simps)

definition mul_u64 :: "u64 \<Rightarrow> u64 \<Rightarrow> u64 res" where
  "mul_u64 a b = need Overflow (checked_mul 64 a b) (Some \<circ> Inr)"

definition sub_or :: "futures_error \<Rightarrow> u64 \<Rightarrow> u64 \<Rightarrow> u64 res" where
  "sub_or e a b = need e (checked_sub a b) (Some \<circ> Inr)"

lemma mul_u64_ok [res_simps]: "mul_u64 a b = Some (Inr c) \<longleftrightarrow> c = a * b \<and> a * b < 2 ^ 64"
  by (auto simp: mul_u64_def need_ok checked_simps)

lemma sub_or_ok [res_simps]: "sub_or e a b = Some (Inr c) \<longleftrightarrow> c = a - b \<and> b \<le> a"
  by (auto simp: sub_or_def need_ok checked_simps)

end
