(* ===== verification/Stake_Ledger.thy ===== *)
theory Stake_Ledger
  imports Credit Results
begin

text \<open>
  What the stake instructions do to a pool and a position once their accounts are loaded, from
  \<open>programs/futures/src/processor.rs\<close>: staking, the unstake timer, unstaking, claiming, configuring the stream,
  and what a market's credit takes from and gives to the pool. The transition relation \<open>pool_step\<close> runs them in
  any order over a pool and all of its positions.
\<close>

subsection \<open>Staking\<close>

definition new_position :: "stake_pool \<Rightarrow> u8 \<Rightarrow> pubkey \<Rightarrow> pubkey \<Rightarrow> stake_position" where
  "new_position p bump pool owner = stake_position_default\<lparr>sk_bump := bump, sk_pool := pool, sk_owner := owner,
     sk_epoch := sp_epoch p, sk_index := sp_share_index p\<rparr>"

definition stake_received :: "stake_pool \<Rightarrow> stake_position \<Rightarrow> u64 \<Rightarrow> u64 \<Rightarrow> (stake_pool \<times> stake_position) res" where
  "stake_received p pos received now =
     need Overflow (if rolls_over p received then begin_epoch p now else Some p) (\<lambda>p.
     need Overflow (touch p pos now) (\<lambda>(p, pos).
     need Overflow (shares_for p received) (\<lambda>shares.
     ensure InsufficientFunds (shares \<noteq> 0) (
     andthen (add_u64 (sp_staked p) received) (\<lambda>staked.
     andthen (add_u64 (sp_shares p) shares) (\<lambda>pool_shares.
     andthen (add_u64 (sp_staked_in p) received) (\<lambda>staked_in.
     andthen (add_u64 (sk_shares pos) shares) (\<lambda>pos_shares.
     andthen (add_u64 (sk_staked_in pos) received) (\<lambda>pos_staked_in.
     Some (Inr (p\<lparr>sp_staked := staked, sp_shares := pool_shares, sp_staked_in := staked_in\<rparr>,
       pos\<lparr>sk_shares := pos_shares, sk_staked_in := pos_staked_in\<rparr>)))))))))))"

definition start_unstaking :: "stake_pool \<Rightarrow> stake_position \<Rightarrow> u64 \<Rightarrow> u64 \<Rightarrow> (stake_pool \<times> stake_position) res" where
  "start_unstaking p pos shares now =
     need Overflow (touch p pos now) (\<lambda>(p, pos).
     let active = sk_shares pos - sk_unbonding pos; added = min shares active in
     ensure InsufficientFunds (added \<noteq> 0) (
     andthen (add_u64 (sk_unbonding pos) added) (\<lambda>pos_unbonding.
     andthen (add_u64 (sp_unbonding p) added) (\<lambda>unbonding.
     Some (Inr (p\<lparr>sp_unbonding := min unbonding (sp_shares p)\<rparr>,
       pos\<lparr>sk_unbonding := pos_unbonding, sk_unbond_ts := now\<rparr>))))))"

definition cancel_unstaking :: "stake_pool \<Rightarrow> stake_position \<Rightarrow> u64 \<Rightarrow> (stake_pool \<times> stake_position) res" where
  "cancel_unstaking p pos now =
     need Overflow (touch p pos now) (\<lambda>(p, pos).
     let shares = sk_unbonding pos in
     ensure InsufficientFunds (shares \<noteq> 0) (
     Some (Inr (p\<lparr>sp_unbonding := sp_unbonding p - shares\<rparr>, pos\<lparr>sk_unbonding := 0, sk_unbond_ts := 0\<rparr>))))"

text \<open>
  The markets an unstake is sent with: each account's key, whether the program owns it, and its bytes. They must be
  exactly the markets that hold the pool's credit, and none may be near its expiry.
\<close>

fun lending_each :: "stake_pool \<Rightarrow> u64 \<Rightarrow> pubkey list \<Rightarrow> (pubkey \<times> bool \<times> bytes) list \<Rightarrow> unit res" where
  "lending_each p now seen [] = Some (Inr ())"
| "lending_each p now seen ((key, owned, data) # markets) =
     ensure InvalidAccount (owned \<and> key \<notin> set seen) (
     andthen (header_read data) (\<lambda>h.
     ensure InvalidAccount (counts_credit_of h (sp_vault p)) (
     ensure NotSettled (\<not> holds_unstaking h (sp_expiry_window p) now) (
     lending_each p now (seen @ [key]) markets))))"

definition lending_markets :: "stake_pool \<Rightarrow> (pubkey \<times> bool \<times> bytes) list \<Rightarrow> u64 \<Rightarrow> unit res" where
  "lending_markets p markets now =
     ensure NotSettled (counted p) (
     ensure InvalidAccount (length markets = sp_credit_markets p) (
     lending_each p now [] markets))"

text \<open>Unstaking: the position, the AMBA paid to its owner and the pool afterwards.\<close>

definition unstake_shares :: "stake_pool \<Rightarrow> stake_position \<Rightarrow> pubkey \<Rightarrow> u64 \<Rightarrow> (pubkey \<times> bool \<times> bytes) list \<Rightarrow> u64 \<Rightarrow>
    (stake_pool \<times> stake_position \<times> u64) res" where
  "unstake_shares p pos sender shares markets now =
     need Overflow (touch p pos now) (\<lambda>(p, pos).
     let shares = (if shares = U64_MAX then sk_unbonding pos else shares) in
     ensure InsufficientFunds (shares \<noteq> 0 \<and> shares \<le> sk_unbonding pos) (
     ensure Unauthorized (sender = sk_owner pos \<or> shares = sk_unbonding pos) (
     ensure NotSettled (case unbond_ends pos of None \<Rightarrow> False | Some ends \<Rightarrow> ends \<le> now) (
     andthen (lending_markets p markets now) (\<lambda>_.
     let amba = amba_of p shares in
     ensure InsufficientFunds (amba \<noteq> 0) (do {
       left \<leftarrow> checked_sub (sp_staked p) amba;
       need Overflow (if 0 < sp_allocated p then capacity_of p left now else Some (sp_allocated p)) (\<lambda>backed.
       ensure CreditLimit (sp_allocated p \<le> backed) (do {
         pool_shares \<leftarrow> checked_sub (sp_shares p) shares;
         andthen (add_u64 (sp_unstaked p) amba) (\<lambda>unstaked. do {
           pos_shares \<leftarrow> checked_sub (sk_shares pos) shares;
           let pos_unbonding = sk_unbonding pos - shares;
           andthen (add_u64 (sk_unstaked pos) amba) (\<lambda>pos_unstaked.
           Some (Inr (p\<lparr>sp_staked := left, sp_shares := pool_shares, sp_unbonding := sp_unbonding p - shares,
               sp_unstaked := unstaked\<rparr>,
             pos\<lparr>sk_shares := pos_shares, sk_unbonding := pos_unbonding,
               sk_unbond_ts := (if pos_unbonding = 0 then 0 else sk_unbond_ts pos), sk_unstaked := pos_unstaked\<rparr>,
             amba))) }) })) }))))))"

subsection \<open>Claims and the stream\<close>

text \<open>What a claim pays: the pool and the position after it, the AMBA and the USDC.\<close>

definition stake_claimed :: "stake_pool \<Rightarrow> stake_position \<Rightarrow> u64 \<Rightarrow> (stake_pool \<times> stake_position \<times> u64 \<times> u64) res" where
  "stake_claimed p pos now =
     need Overflow (touch p pos now) (\<lambda>(p, pos).
     let amba = sk_reward_pending pos in
     andthen (if 0 < amba then
         need InvalidAccount (sp_rewards p) (\<lambda>r.
         andthen (add_u64 (rw_paid r) amba) (\<lambda>paid.
         andthen (add_u64 (sk_reward_paid pos) amba) (\<lambda>reward_paid.
         Some (Inr (p\<lparr>sp_rewards := Some (r\<lparr>rw_paid := paid\<rparr>)\<rparr>,
           pos\<lparr>sk_reward_pending := 0, sk_reward_paid := reward_paid\<rparr>)))))
       else Some (Inr (p, pos))) (\<lambda>(p, pos).
     let usdc = sk_usdc_pending pos in
     andthen (if 0 < usdc then
         andthen (add_u64 (sp_usdc_paid p) usdc) (\<lambda>paid.
         andthen (add_u64 (sk_usdc_paid pos) usdc) (\<lambda>usdc_paid.
         Some (Inr (p\<lparr>sp_usdc_paid := paid\<rparr>, pos\<lparr>sk_usdc_pending := 0, sk_usdc_paid := usdc_paid\<rparr>))))
       else Some (Inr (p, pos))) (\<lambda>(p, pos).
     Some (Inr (p, pos, amba, usdc)))))"

definition stream_set :: "stake_pool \<Rightarrow> pubkey \<Rightarrow> pubkey \<Rightarrow> u8 \<Rightarrow> u64 \<Rightarrow> u64 \<Rightarrow> u64 \<Rightarrow> u64 \<Rightarrow> stake_pool res" where
  "stream_set p mint account decimals start_ts end_ts amount now =
     ensure InvalidInstruction (start_ts < end_ts) (
     andthen (case sp_rewards p of
         Some r \<Rightarrow>
           ensure InvalidAccount (mint = rw_mint r \<and> account = rw_account r) (
           need Overflow (accrue r (sp_shares p) now) (Some \<circ> Inr))
       | None \<Rightarrow>
           ensure InvalidAccount (mint = sp_amba_mint p \<and> account \<noteq> sp_amba_account p) (
           Some (Inr (rewards_default\<lparr>rw_mint := mint, rw_account := account, rw_decimals := decimals,
             rw_last_ts := now\<rparr>)))) (\<lambda>r.
     Some (Inr (p\<lparr>sp_rewards := Some (r\<lparr>rw_start_ts := start_ts, rw_end_ts := end_ts, rw_amount := amount\<rparr>)\<rparr>))))"

text \<open>The operator's withdrawal from the reward account holding \<open>held\<close>: never what stakers are owed or will be.\<close>

definition stream_withdraw :: "stake_pool \<Rightarrow> u64 \<Rightarrow> u64 \<Rightarrow> u64 \<Rightarrow> (stake_pool \<times> u64) res" where
  "stream_withdraw p held amount now =
     need InvalidAccount (sp_rewards p) (\<lambda>r.
     need Overflow (accrue r (sp_shares p) now) (\<lambda>r. do {
       left \<leftarrow> left_after r now;
       let surplus = held - saturate 64 (owed r + left);
       let amount = (if amount = U64_MAX then surplus else amount);
       ensure InsufficientFunds (amount \<noteq> 0 \<and> amount \<le> surplus) (
       Some (Inr (p\<lparr>sp_rewards := Some r\<rparr>, amount))) }))"

subsection \<open>Credit\<close>

text \<open>
  Lending to a market: \<open>holding\<close> is the best case of what the vault holds there (\<open>trader_value\<close>), \<open>None\<close> without a
  trader of its own, and \<open>grown\<close> whether the pool account has room for the count of its markets.
\<close>

definition credit_funded :: "stake_pool \<Rightarrow> header \<Rightarrow> u64 \<Rightarrow> u64 option \<Rightarrow> bool \<Rightarrow> u64 \<Rightarrow> (stake_pool \<times> header) res" where
  "credit_funded p h amount holding grown now =
     ensure InvalidInstruction (amount \<noteq> 0) (
     ensure NotTradable (h_status h = STATUS_OPEN) (
     ensure InvalidAccount (h_quote_mint h = sp_usdc_mint p \<and> \<not> (has_credit h \<and> h_credit_owner h \<noteq> sp_vault p)) (
     need Overflow (capacity p now) (\<lambda>cap.
     andthen (add_u64 (sp_allocated p) amount) (\<lambda>allocated.
     ensure CreditLimit (allocated \<le> cap) (
     let h = (if has_credit h then h
              else h\<lparr>h_credit_owner := sp_vault p, h_funded_in := (case holding of Some v \<Rightarrow> v | None \<Rightarrow> 0),
                h_funded_out := 0, h_tw_credit := 0, h_tw_cash := 0, h_tw_ts := 0\<rparr>);
         counts = grown \<and> h_credit_flags h AND CREDIT_COUNTED = 0 in
     need Overflow (if counts then checked_add 32 (sp_credit_markets p) 1 else Some (sp_credit_markets p)) (\<lambda>markets.
     let p = (if grown then p\<lparr>sp_credit_counted := counted p, sp_credit_markets := markets\<rparr> else p);
         h = (if counts then h\<lparr>h_credit_flags := h_credit_flags h OR CREDIT_COUNTED\<rparr> else h) in
     need Overflow (credit_clock h now) (\<lambda>h.
     andthen (add_u64 (h_credit_limit h) amount) (\<lambda>limit.
     Some (Inr (p\<lparr>sp_allocated := allocated\<rparr>,
       h\<lparr>h_credit_limit := limit, h_credit_until := h_expiry_ts h - sp_expiry_window p,
         h_profit_bps := sp_profit_bps p\<rparr>)))))))))))"

text \<open>Taking credit back, down to \<open>least\<close>: what the vault's position could still cost.\<close>

definition credit_defunded :: "stake_pool \<Rightarrow> header \<Rightarrow> u64 \<Rightarrow> u64 \<Rightarrow> u64 \<Rightarrow> (stake_pool \<times> header) res" where
  "credit_defunded p h least amount now =
     ensure InvalidAccount (has_credit h \<and> h_credit_owner h = sp_vault p \<and> \<not> credit_settled h) (
     ensure NotTradable (h_status h = STATUS_OPEN) (
     let most = h_credit_limit h - least; amount = (if amount = U64_MAX then most else amount) in
     ensure CreditLimit (amount \<noteq> 0 \<and> amount \<le> most) (
     need Overflow (credit_clock h now) (\<lambda>h.
     need Overflow (release_buffer (p\<lparr>sp_allocated := sp_allocated p - amount\<rparr>)) (\<lambda>p.
     Some (Inr (p, h\<lparr>h_credit_limit := h_credit_limit h - amount\<rparr>)))))))"

text \<open>
  The tail rule once a market is final. Without debt the stakers take their share of the vault's free cash; with debt
  their buffer covers it first, then AMBA is set aside at the average price. The result is the pool, the header, the
  vault's free cash and what was shared, covered and set aside. \<open>free\<close> is the vault's free cash there, \<open>None\<close> without
  a trader of its own; \<open>vt\<close> is that trader, which must hold nothing but cash, and \<open>vault_held\<close> and \<open>usdc_held\<close> are what
  the market's vault and the pool's account hold at the end.
\<close>

definition profit_shared :: "stake_pool \<Rightarrow> header \<Rightarrow> u64 option \<Rightarrow> (stake_pool \<times> header \<times> u64 option \<times> u64) res" where
  "profit_shared p h free =
     (let share = staker_share h (case free of Some f \<Rightarrow> f | None \<Rightarrow> 0) in
      case free of
        Some f \<Rightarrow>
          if 0 < share then
            andthen (sub_u64 f share) (\<lambda>f.
            andthen (sub_u64 (h_total_free h) share) (\<lambda>total_free.
            andthen (sub_u64 (h_custody h) share) (\<lambda>custody.
            andthen (add_u64 (sp_profit_in p) share) (\<lambda>profit_in.
            need Overflow (take_profit (p\<lparr>sp_profit_in := profit_in\<rparr>) share) (\<lambda>p.
            Some (Inr (p, h\<lparr>h_total_free := total_free, h_custody := custody\<rparr>, Some f, share)))))))
          else Some (Inr (p, h, Some f, share))
      | None \<Rightarrow> Some (Inr (p, h, None, share)))"

definition shortfall_covered :: "stake_pool \<Rightarrow> header \<Rightarrow> u64 \<Rightarrow> (stake_pool \<times> header \<times> u64 \<times> u64) res" where
  "shortfall_covered p h now =
     (let cover = min (sp_buffer p) (h_debt h) in
      andthen (if 0 < cover then
          andthen (add_u64 (h_custody h) cover) (\<lambda>custody.
          andthen (add_u64 (sp_covered p) cover) (\<lambda>covered.
          Some (Inr (p\<lparr>sp_buffer := sp_buffer p - cover, sp_covered := covered\<rparr>,
            h\<lparr>h_custody := custody, h_debt := h_debt h - cover\<rparr>))))
        else Some (Inr (p, h))) (\<lambda>(p, h).
      ensure Insolvent (h_debt h \<le> h_backing h) (
      if 0 < h_debt h then
        ensure NotSettled (price_fresh p now) (do {
          amba \<leftarrow> amba_for_at_most p (h_debt h) (twap_at p now) (sp_staked p);
          staked \<leftarrow> checked_sub (sp_staked p) amba;
          andthen (add_u64 (sp_recovery_owed p) amba) (\<lambda>recovery_owed.
          andthen (add_u64 (sp_slashed p) amba) (\<lambda>slashed.
          Some (Inr (p\<lparr>sp_staked := staked, sp_recovery_owed := recovery_owed, sp_slashed := slashed\<rparr>,
            h\<lparr>h_shortfall := h_debt h, h_recovery_amba := amba, h_winners := h_backing h,
              h_credit_flags := h_credit_flags h OR CREDIT_SHORTFALL\<rparr>, cover, amba)))) })
      else Some (Inr (p, h, cover, 0)))))"

definition credit_settles :: "stake_pool \<Rightarrow> header \<Rightarrow> trader option \<Rightarrow> u64 \<Rightarrow> u64 \<Rightarrow> u64 \<Rightarrow>
    (stake_pool \<times> header \<times> u64 option \<times> u64 \<times> u64 \<times> u64) res" where
  "credit_settles p h vt now vault_held usdc_held =
     ensure NotSettled (h_status h \<noteq> STATUS_OPEN) (
     ensure InvalidAccount (has_credit h \<and> h_credit_owner h = sp_vault p) (
     ensure AlreadyFinal (\<not> credit_settled h) (
     need Overflow (credit_clock h now) (\<lambda>h.
     ensure NotSettled (case vt of None \<Rightarrow> True | Some t \<Rightarrow> tr_claims t = 0 \<and> tr_orders t = 0 \<and> tr_reserved t = 0 \<and> tr_maker t = 0) (
     let free = map_option tr_free vt in
     andthen (if h_debt h = 0
              then andthen (profit_shared p h free) (\<lambda>(p, h, free, share). Some (Inr (p, h, free, share, 0, 0)))
              else andthen (shortfall_covered p h now) (\<lambda>(p, h, cover, amba). Some (Inr (p, h, free, 0, cover, amba))))
       (\<lambda>(p, h, free, share, cover, amba).
     let p = p\<lparr>sp_allocated := sp_allocated p - h_credit_limit h\<rparr>;
         p = (if h_credit_flags h AND CREDIT_COUNTED \<noteq> 0 then p\<lparr>sp_credit_markets := sp_credit_markets p - 1\<rparr> else p);
         h = h\<lparr>h_credit_limit := 0,
           h_credit_flags := (h_credit_flags h AND (255 - CREDIT_COUNTED)) OR CREDIT_SETTLED\<rparr> in
     need Overflow (release_buffer p) (\<lambda>p.
     ensure Custody (h_custody h \<le> vault_held) (
     andthen (add_u64 (sp_buffer p) (usdc_owed p)) (\<lambda>promised.
     ensure Custody (promised \<le> usdc_held) (
     Some (Inr (p, h, free, share, cover, amba))))))))))))"

text \<open>A winner's payout after a shortfall: the cut, rounded up, and the AMBA, rounded down. \<open>gross\<close>, what the claims and
  the ladder it gives up pay at the settlement, is given; its free cash is credited with the USDC returned.\<close>

definition recovery_parts :: "header \<Rightarrow> u64 \<Rightarrow> u64 \<Rightarrow> u64 \<times> u64" where
  "recovery_parts h recovery_owed gross =
     (let part = div_ceil (gross * h_shortfall h) (h_winners h)
      in (min (min (saturate 64 part) (h_debt h)) gross,
          min (cast 64 (gross * h_recovery_amba h div h_winners h)) recovery_owed))"

definition recovery_paid :: "stake_pool \<Rightarrow> header \<Rightarrow> u64 \<Rightarrow> (stake_pool \<times> header \<times> u64 \<times> u64) res" where
  "recovery_paid p h gross =
     ensure NotSettled (h_status h \<noteq> STATUS_OPEN) (
     ensure InvalidInstruction (h_credit_flags h AND CREDIT_SHORTFALL \<noteq> 0 \<and> h_credit_owner h = sp_vault p \<and> h_winners h \<noteq> 0) (
     (let (cut, amba) = recovery_parts h (sp_recovery_owed p) gross; usdc = gross - cut in
      need Insolvent (checked_sub (h_backing h) gross) (\<lambda>backing.
      andthen (add_u64 (h_total_paid_out h) usdc) (\<lambda>paid_out.
      Some (Inr (p\<lparr>sp_recovery_owed := sp_recovery_owed p - amba\<rparr>,
        h\<lparr>h_backing := backing, h_debt := h_debt h - cut, h_total_paid_out := paid_out\<rparr>, usdc, amba)))))))"

subsection \<open>The pool and all its positions\<close>

record stake_params =
  sm_haircut_bps :: u16
  sm_profit_bps :: u16
  sm_buffer_bps :: u16
  sm_twap_window :: u64
  sm_expiry_window :: u64

definition params_check :: "stake_params \<Rightarrow> unit res" where
  "params_check m = ensure InvalidInstruction
     (sm_haircut_bps m \<le> FUTURES_BPS \<and> sm_profit_bps m \<le> FUTURES_BPS \<and> sm_buffer_bps m \<le> FUTURES_BPS) (Some (Inr ()))"

definition params_apply :: "stake_params \<Rightarrow> stake_pool \<Rightarrow> stake_pool" where
  "params_apply m p = p\<lparr>sp_haircut_bps := sm_haircut_bps m, sp_profit_bps := sm_profit_bps m,
     sp_buffer_bps := sm_buffer_bps m, sp_twap_window := sm_twap_window m, sp_expiry_window := sm_expiry_window m\<rparr>"

definition new_stake_pool :: "u8 \<Rightarrow> u8 \<Rightarrow> pubkey \<Rightarrow> pubkey \<Rightarrow> pubkey \<Rightarrow> pubkey \<Rightarrow> pubkey \<Rightarrow> pubkey \<Rightarrow> u64 \<Rightarrow> stake_params \<Rightarrow> stake_pool" where
  "new_stake_pool bump decimals vault operator mint amba usdc quote_mint now m =
     params_apply m (stake_pool_default\<lparr>sp_bump := bump, sp_amba_decimals := decimals, sp_vault := vault,
       sp_operator := operator, sp_amba_mint := mint, sp_amba_account := amba, sp_usdc_account := usdc,
       sp_usdc_mint := quote_mint, sp_created_ts := now, sp_credit_counted := True\<rparr>)"

text \<open>
  Every change of a pool and its positions, in any order and at any time: the instructions above on any position, a
  new position, the stream, the price, the parameters and the credit. The clock, the received amounts, the prices,
  the markets and what they hold are arbitrary.
\<close>

inductive pool_step :: "stake_pool \<times> stake_position list \<Rightarrow> stake_pool \<times> stake_position list \<Rightarrow> bool" where
  opened: "pool_step (p, ps) (p, ps @ [new_position p bump pool owner])"
| staked: "i < length ps \<Longrightarrow> stake_received p (ps ! i) received now = Some (Inr (q, s)) \<Longrightarrow> pool_step (p, ps) (q, ps[i := s])"
| unstaking: "i < length ps \<Longrightarrow> start_unstaking p (ps ! i) shares now = Some (Inr (q, s)) \<Longrightarrow> pool_step (p, ps) (q, ps[i := s])"
| cancelled: "i < length ps \<Longrightarrow> cancel_unstaking p (ps ! i) now = Some (Inr (q, s)) \<Longrightarrow> pool_step (p, ps) (q, ps[i := s])"
| unstaked: "i < length ps \<Longrightarrow> unstake_shares p (ps ! i) sender shares markets now = Some (Inr (q, s, amba)) \<Longrightarrow>
    pool_step (p, ps) (q, ps[i := s])"
| claimed: "i < length ps \<Longrightarrow> stake_claimed p (ps ! i) now = Some (Inr (q, s, amba, usdc)) \<Longrightarrow> pool_step (p, ps) (q, ps[i := s])"
| stream: "stream_set p mint account decimals start_ts end_ts amount now = Some (Inr q) \<Longrightarrow> pool_step (p, ps) (q, ps)"
| withdrawn: "stream_withdraw p held amount now = Some (Inr (q, paid)) \<Longrightarrow> pool_step (p, ps) (q, ps)"
| priced: "pool_step (p, ps) (post p price now, ps)"
| configured: "params_check m = Some (Inr ()) \<Longrightarrow> pool_step (p, ps) (params_apply m p, ps)"
| lends: "credit_funded p h amount holding grown now = Some (Inr (q, h')) \<Longrightarrow> pool_step (p, ps) (q, ps)"
| unlends: "credit_defunded p h least amount now = Some (Inr (q, h')) \<Longrightarrow> pool_step (p, ps) (q, ps)"
| settles: "credit_settles p h vt now vault_held usdc_held = Some (Inr (q, h', free', share, cover, amba)) \<Longrightarrow> pool_step (p, ps) (q, ps)"
| recovers: "recovery_paid p h gross = Some (Inr (q, h', usdc, amba)) \<Longrightarrow> pool_step (p, ps) (q, ps)"

inductive pool_reachable :: "stake_pool \<times> stake_position list \<Rightarrow> bool" where
  created: "pool_reachable (new_stake_pool bump decimals vault operator mint amba usdc quote_mint now m, [])"
| stepped: "pool_reachable st \<Longrightarrow> pool_step st st' \<Longrightarrow> pool_reachable st'"

end
