(* ===== verification/Stake_Solvency.thy ===== *)
theory Stake_Solvency
  imports Stake_Ledger Complex_Main
begin

text \<open>
  The stake pool stays solvent whatever its instructions do: through every share epoch the positions' shares are worth
  no more than the pool's, and what its two accumulators (the stakers' USDC and the AMBA stream) promise all positions,
  with what they were paid, never exceeds what was distributed. The argument on one accumulator is made once, in the
  locale \<open>accumulator\<close>, and used for both.
\<close>

subsection \<open>Shares through the epochs\<close>

text \<open>
  A position of \<open>g\<close> epochs ago holds \<open>n\<close> shares of its own epoch; in the current one they are worth \<open>n\<close> times the
  rates of the ended epochs, as long as those are kept, and by the running index after that.
\<close>

definition rate :: "stake_pool \<Rightarrow> nat \<Rightarrow> real" where
  "rate p i = (case sp_epoch_rates p ! i of (staked, tot) \<Rightarrow> real staked / real tot)"

primrec through :: "stake_pool \<Rightarrow> nat \<Rightarrow> real \<Rightarrow> real" where
  "through p 0 n = n"
| "through p (Suc i) n = through p i (n * rate p i)"

definition from_index :: "stake_position \<Rightarrow> u128" where
  "from_index s = (if sk_index s = 0 then INDEX_ONE else sk_index s)"

definition worth :: "stake_pool \<Rightarrow> stake_position \<Rightarrow> real" where
  "worth p s =
     (let g = sp_epoch p - sk_epoch s in
      if g \<le> EPOCH_ENDS then through p g (real (sk_shares s))
      else if sk_epoch s < sp_wipe_epoch p then 0
      else real (sk_shares s) * (real (share_index_of p) / real (from_index s)))"

text \<open>What an accumulator promises a position: its pending part and, epoch by epoch, its shares times the growth.\<close>

primrec flows :: "stake_pool \<Rightarrow> (nat \<Rightarrow> nat) \<Rightarrow> nat \<Rightarrow> nat \<Rightarrow> real \<Rightarrow> real \<Rightarrow> real" where
  "flows p ends acc 0 n x = n * (real acc - x)"
| "flows p ends acc (Suc i) n x = n * (real (ends i) - x) + flows p ends acc i (n * rate p i) (real (ends i))"

definition due :: "(nat \<times> nat \<Rightarrow> nat) \<Rightarrow> nat \<Rightarrow> (stake_position \<Rightarrow> nat) \<Rightarrow> (stake_position \<Rightarrow> nat) \<Rightarrow>
    stake_pool \<Rightarrow> stake_position \<Rightarrow> real" where
  "due pick scale pending snap p s =
     real (pending s * scale) +
     (let g = sp_epoch p - sk_epoch s in
      if g \<le> EPOCH_ENDS
      then flows p (\<lambda>i. pick (sp_epoch_ends p ! i)) (pick (reward_acc p, sp_usdc_acc p)) g (real (sk_shares s)) (real (snap s))
      else 0)"

subsection \<open>Facts on worth\<close>

definition same_epochs :: "stake_pool \<Rightarrow> stake_pool \<Rightarrow> bool" where
  "same_epochs p q \<longleftrightarrow> sp_epoch q = sp_epoch p \<and> sp_epoch_rates q = sp_epoch_rates p \<and> sp_epoch_ends q = sp_epoch_ends p
     \<and> sp_share_index q = sp_share_index p \<and> sp_wipe_epoch q = sp_wipe_epoch p"

lemma rate_same: "same_epochs p q \<Longrightarrow> rate q = rate p"
  by (auto simp: same_epochs_def rate_def)

lemma through_same: "same_epochs p q \<Longrightarrow> through q g n = through p g n"
  by (induction g arbitrary: n) (simp_all add: rate_same)

lemma worth_same: "same_epochs p q \<Longrightarrow> worth q s = worth p s"
  by (auto simp: worth_def through_same Let_def share_index_of_def) (auto simp: same_epochs_def)

lemma rate_nonneg: "0 \<le> rate p i"
  by (simp add: rate_def split: prod.splits)

lemma through_mult: "through p g (n * x) = n * through p g x"
  by (induction g arbitrary: n x) (simp_all add: mult.assoc)

lemma through_eq: "through p g n = n * through p g 1"
  using through_mult [of p g n 1] by simp

lemma through_nonneg: "0 \<le> n \<Longrightarrow> 0 \<le> through p g n"
  by (induction g arbitrary: n) (simp_all add: rate_nonneg)

lemma through_mono: "m \<le> n \<Longrightarrow> through p g m \<le> through p g n"
  by (induction g arbitrary: m n) (simp_all add: rate_nonneg mult_right_mono)

lemma worth_nonneg: "0 \<le> worth p s"
  by (simp add: worth_def Let_def through_nonneg)

lemma flows_grow:
  "flows p ends (acc + d) g n x = flows p ends acc g n x + through p g n * real d"
  by (induction g arbitrary: n x) (simp_all add: algebra_simps)

lemma flows_mult: "flows p ends acc g (n * m) x = n * flows p ends acc g m x"
  by (induction g arbitrary: n m x) (simp_all add: algebra_simps)

text \<open>A position's snapshot never runs ahead of the accumulator of its epoch, and the kept ends are in order.\<close>

definition in_order :: "nat \<Rightarrow> (nat \<Rightarrow> nat) \<Rightarrow> bool" where
  "in_order acc ends \<longleftrightarrow> ends 0 \<le> acc \<and> (\<forall>i < EPOCH_ENDS - 1. ends (Suc i) \<le> ends i)"

definition end_of :: "nat \<Rightarrow> (nat \<Rightarrow> nat) \<Rightarrow> nat \<Rightarrow> nat" where
  "end_of acc ends g = (case g of 0 \<Rightarrow> acc | Suc i \<Rightarrow> ends i)"

lemma flows_nonneg:
  assumes "in_order acc ends" "g \<le> EPOCH_ENDS" "0 \<le> n" "x \<le> real (end_of acc ends g)"
  shows "0 \<le> flows p ends acc g n x"
  using assms(2-4)
proof (induction g arbitrary: n x)
  case 0
  then show ?case by (simp add: end_of_def)
next
  case (Suc i)
  have "ends i \<le> end_of acc ends i" using assms(1) Suc.prems(1) by (cases i) (auto simp: in_order_def end_of_def)
  then have "0 \<le> flows p ends acc i (n * rate p i) (real (ends i))"
    using Suc.prems by (intro Suc.IH) (simp_all add: rate_nonneg)
  with Suc.prems show ?case by (simp add: end_of_def)
qed

subsection \<open>Conversion at an epoch's end\<close>

definition kept :: "stake_pool \<Rightarrow> bool" where
  "kept p \<longleftrightarrow> length (sp_epoch_rates p) = EPOCH_ENDS \<and> length (sp_epoch_ends p) = EPOCH_ENDS \<and>
     sp_staked p \<le> sp_shares p \<and> sp_shares p < 2 ^ 64 \<and> sp_wipe_epoch p \<le> sp_epoch p \<and> sp_share_index p \<le> INDEX_ONE"

lemma floor_real: "0 < b \<Longrightarrow> real (a div b) \<le> real a / real b"
  by (simp add: of_nat_div_le_of_nat)

lemma convert_le_rate: "real (convert_shares n (sp_epoch_rates p ! i)) \<le> real n * rate p i"
proof -
  obtain a b where ab: "sp_epoch_rates p ! i = (a, b)" by force
  show ?thesis
  proof (cases "b = 0")
    case False
    have "convert_shares n (a, b) \<le> n * a div b"
      by (auto simp: convert_shares_def cast_def intro: order_trans [OF mod_less_eq_dividend])
    then have "real (convert_shares n (a, b)) \<le> real (n * a div b)" by (simp only: of_nat_le_iff)
    also have "\<dots> \<le> real (n * a) / real b" using False by (intro floor_real) simp
    finally show ?thesis by (simp add: rate_def ab)
  qed (simp add: convert_shares_def rate_def ab)
qed

lemma INDEX_ONE_eq: "INDEX_ONE = 2 ^ 126"
  by (simp add: INDEX_ONE_def push_bit_eq_mult)

lemma index_convert_real:
  assumes "index_convert wiped index from n = Some m" "n < 2 ^ 64" "index \<le> INDEX_ONE" "0 < from" "from \<le> INDEX_ONE"
  shows "real m \<le> (if wiped then 0 else real n * (real index / real from))"
proof (cases wiped)
  case False
  have lim: "n < 2 ^ 128" "index < 2 ^ 128" "from < 2 ^ 128" using assms by (simp_all add: INDEX_ONE_eq)
  obtain v where v: "mul_div n index from = Some v" "m = cast 64 (min v n)"
    using assms(1) False by (auto simp: index_convert_def checked_simps)
  then have "v = n * index div from"
    using assms(4) by (auto simp: mul_div_quotient [OF lim] checked_def split: if_splits)
  then have "m \<le> n * index div from"
    using v(2) by (auto simp: cast_def intro: order_trans [OF mod_less_eq_dividend])
  then have "real m \<le> real (n * index div from)" by (simp only: of_nat_le_iff)
  also have "\<dots> \<le> real (n * index) / real from" using assms(4) by (intro floor_real)
  finally show ?thesis using False by simp
qed (use assms(1) in \<open>simp add: index_convert_def\<close>)

subsection \<open>One round of touching a position\<close>

lemma touch_step_kept:
  assumes "touch_step p acc s = Some t" "sp_epoch p - sk_epoch s = Suc i" "i < EPOCH_ENDS" "kept p"
  obtains u where "position_settle s (fst (sp_epoch_ends p ! i)) (snd (sp_epoch_ends p ! i)) = Some u"
    "t = u\<lparr>sk_shares := convert_shares (sk_shares s) (sp_epoch_rates p ! i),
       sk_unbonding := min (convert_shares (sk_unbonding s) (sp_epoch_rates p ! i)) (convert_shares (sk_shares s) (sp_epoch_rates p ! i)),
       sk_epoch := Suc (sk_epoch s), sk_index := sp_share_index p\<rparr>"
proof -
  have len: "length (sp_epoch_ends p) = 4" "length (sp_epoch_rates p) = 4" using assms(4) by (simp_all add: kept_def)
  obtain r a where ra: "sp_epoch_ends p ! i = (r, a)" by force
  from assms(1) obtain u where u: "position_settle s r a = Some u"
    "t = u\<lparr>sk_shares := convert_shares (sk_shares u) (sp_epoch_rates p ! i),
       sk_unbonding := min (convert_shares (sk_unbonding u) (sp_epoch_rates p ! i)) (convert_shares (sk_shares u) (sp_epoch_rates p ! i)),
       sk_epoch := sk_epoch u + 1, sk_index := sp_share_index p\<rparr>"
    using assms(2,3) by (auto simp: touch_step_def checked_simps Let_def ra len split: if_splits)
  have "sk_shares u = sk_shares s" "sk_unbonding u = sk_unbonding s" "sk_epoch u = sk_epoch s"
    by (simp_all add: position_settle_facts(1) [OF u(1)])
  with u show ?thesis by (intro that [of u]) (simp_all add: ra)
qed

lemma touch_step_old:
  assumes "touch_step p acc s = Some t" "EPOCH_ENDS < sp_epoch p - sk_epoch s" "kept p"
  obtains shares unbonding where
    "index_convert (sk_epoch s < sp_wipe_epoch p) (share_index_of p) (from_index s) (sk_shares s) = Some shares"
    "t = s\<lparr>sk_shares := shares, sk_unbonding := min unbonding shares, sk_epoch := sp_epoch p,
       sk_reward_snapshot := acc, sk_usdc_snapshot := sp_usdc_acc p, sk_index := sp_share_index p\<rparr>"
  using assms by (auto simp: touch_step_def checked_simps Let_def kept_def from_index_def split: if_splits)

lemma touch_loop_invariant:
  assumes "touch_loop p acc s = Some t" "P s"
    "\<And>u v. P u \<Longrightarrow> sk_epoch u \<noteq> sp_epoch p \<Longrightarrow> touch_step p acc u = Some v \<Longrightarrow> P v"
  shows "P t \<and> sk_epoch t = sp_epoch p"
  using assms
proof (induction p acc s rule: touch_loop.induct)
  case (1 p acc s)
  show ?case
  proof (cases "sk_epoch s = sp_epoch p")
    case True
    with "1.prems" show ?thesis by (simp add: touch_loop.simps)
  next
    case False
    with "1.prems"(1) obtain u where u: "touch_step p acc s = Some u" "touch_loop p acc u = Some t"
      by (auto simp: touch_loop.simps [of p acc s] split: option.splits)
    show ?thesis using "1.IH" [OF False u] "1.prems"(2,3) False u(1) by blast
  qed
qed

text \<open>A position that is not ahead of its pool; the index it keeps is the pool's once it is of the pool's epoch.\<close>

definition loose :: "stake_pool \<Rightarrow> stake_position \<Rightarrow> bool" where
  "loose p s \<longleftrightarrow> sk_epoch s \<le> sp_epoch p \<and> sk_shares s < 2 ^ 64 \<and> sk_index s \<le> INDEX_ONE \<and>
     (sk_epoch s = sp_epoch p \<longrightarrow> from_index s = share_index_of p)"

text \<open>While its epoch's end is kept, the index a position is from is no smaller than the rates since allow.\<close>

definition fits :: "stake_pool \<Rightarrow> stake_position \<Rightarrow> bool" where
  "fits p s \<longleftrightarrow> loose p s \<and>
     (sk_shares s \<noteq> 0 \<and> sp_wipe_epoch p \<le> sk_epoch s \<and> sp_epoch p - sk_epoch s \<le> EPOCH_ENDS \<longrightarrow>
       real (share_index_of p) \<le> through p (sp_epoch p - sk_epoch s) (real (from_index s)))"

lemma index_bounds:
  "0 < from_index s" "0 < share_index_of p"
  "sk_index s \<le> INDEX_ONE \<Longrightarrow> from_index s \<le> INDEX_ONE" "sp_share_index p \<le> INDEX_ONE \<Longrightarrow> share_index_of p \<le> INDEX_ONE"
  by (simp_all add: from_index_def share_index_of_def INDEX_ONE_eq)

lemma loose_current: "loose p s \<Longrightarrow> sk_epoch s = sp_epoch p \<Longrightarrow> fits p s"
  by (simp add: fits_def loose_def)

lemma touch_step_worth:
  assumes "loose p s" "kept p" "sk_epoch s \<noteq> sp_epoch p" "touch_step p acc s = Some t"
  shows "loose p t" "worth p t \<le> worth p s"
proof -
  note e = touch_step_epoch [OF assms(4,3)]
  have idx: "sk_index t = sp_share_index p" using assms(4) by (auto simp: touch_step_def checked_simps)
  then have "from_index t = share_index_of p" by (simp add: from_index_def share_index_of_def)
  moreover have "sk_shares t < 2 ^ 64" using touch_step_shares(1) [OF assms(4)] assms(1) by (simp add: loose_def)
  moreover have "sk_index t \<le> INDEX_ONE" using assms(2) by (simp add: idx kept_def)
  ultimately show "loose p t" using e by (simp add: loose_def)
  show "worth p t \<le> worth p s"
  proof (cases "sp_epoch p - sk_epoch s \<le> EPOCH_ENDS")
    case True
    obtain i where i: "sp_epoch p - sk_epoch s = Suc i" using e by (cases "sp_epoch p - sk_epoch s") auto
    show ?thesis
    proof (rule touch_step_kept [OF assms(4) i _ assms(2)])
      show "i < EPOCH_ENDS" using True i by simp
      fix u
      assume "t = u\<lparr>sk_shares := convert_shares (sk_shares s) (sp_epoch_rates p ! i),
        sk_unbonding := min (convert_shares (sk_unbonding s) (sp_epoch_rates p ! i)) (convert_shares (sk_shares s) (sp_epoch_rates p ! i)),
        sk_epoch := Suc (sk_epoch s), sk_index := sp_share_index p\<rparr>"
      then have t: "sk_shares t = convert_shares (sk_shares s) (sp_epoch_rates p ! i)" "sk_epoch t = Suc (sk_epoch s)"
        by simp_all
      have "sp_epoch p - sk_epoch t = i" using i t(2) by simp
      then have "worth p t = through p i (real (sk_shares t))" using i True by (simp add: worth_def Let_def)
      also have "\<dots> \<le> through p i (real (sk_shares s) * rate p i)"
        unfolding t(1) by (intro through_mono convert_le_rate)
      also have "\<dots> = worth p s" using i True by (simp add: worth_def Let_def)
      finally show ?thesis .
    qed
  next
    case False
    then have g: "EPOCH_ENDS < sp_epoch p - sk_epoch s" by simp
    show ?thesis
    proof (rule touch_step_old [OF assms(4) g assms(2)])
      fix n m
      assume n: "index_convert (sk_epoch s < sp_wipe_epoch p) (share_index_of p) (from_index s) (sk_shares s) = Some n"
        and t: "t = s\<lparr>sk_shares := n, sk_unbonding := min m n, sk_epoch := sp_epoch p,
          sk_reward_snapshot := acc, sk_usdc_snapshot := sp_usdc_acc p, sk_index := sp_share_index p\<rparr>"
      have "real n \<le> (if sk_epoch s < sp_wipe_epoch p then 0
          else real (sk_shares s) * (real (share_index_of p) / real (from_index s)))"
        using assms(1,2) by (intro index_convert_real [OF n] index_bounds) (simp_all add: loose_def kept_def)
      then show ?thesis using False by (simp add: t worth_def Let_def)
    qed
  qed
qed

subsection \<open>Rolling over to a new epoch\<close>

text \<open>What \<open>begin_epoch\<close> does once the stream is accrued.\<close>

definition next_index :: "stake_pool \<Rightarrow> nat" where
  "next_index p = (if sp_shares p = 0 then share_index_of p else share_index_of p * sp_staked p div sp_shares p)"

definition rolled :: "stake_pool \<Rightarrow> stake_pool \<Rightarrow> bool" where
  "rolled p q \<longleftrightarrow> (\<exists>unbonding. q = p\<lparr>
     sp_epoch_ends := (reward_acc p, sp_usdc_acc p) # butlast (sp_epoch_ends p),
     sp_epoch_rates := (sp_staked p, sp_shares p) # butlast (sp_epoch_rates p),
     sp_unbonding := unbonding, sp_epoch := Suc (sp_epoch p),
     sp_share_index := (if next_index p = 0 then INDEX_ONE else next_index p),
     sp_wipe_epoch := (if next_index p = 0 then Suc (sp_epoch p) else sp_wipe_epoch p),
     sp_shares := sp_staked p\<rparr>)"

definition accrued :: "stake_pool \<Rightarrow> u64 \<Rightarrow> stake_pool option" where
  "accrued p now = (case sp_rewards p of None \<Rightarrow> Some p
     | Some r \<Rightarrow> map_option (\<lambda>r. p\<lparr>sp_rewards := Some r\<rparr>) (accrue r (sp_shares p) now))"

lemma accrued_pool:
  assumes "(case sp_rewards p of None \<Rightarrow> Some None | Some r \<Rightarrow> map_option Some (accrue r (sp_shares p) now)) = Some rewards"
  shows "accrued p now = Some (p\<lparr>sp_rewards := rewards\<rparr>)"
  using assms by (auto simp: accrued_def split: option.splits)

lemma begin_epoch_rolled:
  assumes "begin_epoch p now = Some q" "kept p"
  obtains m where "accrued p now = Some m" "rolled m q"
proof -
  from assms(1) obtain rewards e nxt where r:
    "(case sp_rewards p of None \<Rightarrow> Some None | Some r \<Rightarrow> map_option Some (accrue r (sp_shares p) now)) = Some rewards"
    and n: "(if sp_shares p = 0 then Some (share_index_of p)
        else mul_div (share_index_of p) (min (sp_staked p) (sp_shares p)) (sp_shares p)) = Some nxt"
    and e: "e = Suc (sp_epoch p)"
    and q: "q = p\<lparr>sp_rewards := rewards,
       sp_epoch_ends := (case rewards of None \<Rightarrow> 0 | Some r \<Rightarrow> rw_acc r, sp_usdc_acc p) # butlast (sp_epoch_ends p),
       sp_epoch_rates := (sp_staked p, sp_shares p) # butlast (sp_epoch_rates p),
       sp_unbonding := convert_shares (sp_unbonding p) (sp_staked p, sp_shares p), sp_epoch := e,
       sp_share_index := (if nxt = 0 then INDEX_ONE else nxt),
       sp_wipe_epoch := (if nxt = 0 then e else sp_wipe_epoch p), sp_shares := sp_staked p\<rparr>"
    by (auto simp: begin_epoch_def Let_def checked_simps)
  have "share_index_of p \<le> INDEX_ONE" "sp_staked p \<le> sp_shares p" "sp_shares p < 2 ^ 64"
    using assms(2) by (simp_all add: kept_def share_index_of_def)
  then have lim: "share_index_of p < 2 ^ 128" "min (sp_staked p) (sp_shares p) < 2 ^ 128" "sp_shares p < 2 ^ 128"
    "min (sp_staked p) (sp_shares p) = sp_staked p"
    by (simp_all add: INDEX_ONE_eq)
  have "nxt = next_index p"
    using n mul_div_quotient [OF lim(1-3)] unfolding lim(4) by (auto simp: next_index_def checked_def split: if_splits)
  then have nxt: "nxt = next_index (p\<lparr>sp_rewards := rewards\<rparr>)" by (simp add: next_index_def share_index_of_def)
  have "rolled (p\<lparr>sp_rewards := rewards\<rparr>) q"
    unfolding rolled_def
    by (rule exI [of _ "convert_shares (sp_unbonding p) (sp_staked p, sp_shares p)"]) (simp add: q e nxt reward_acc_def)
  then show ?thesis by (rule that [OF accrued_pool [OF r]])
qed

lemma rolled_fields:
  assumes "rolled p q"
  shows "sp_epoch q = Suc (sp_epoch p)" "sp_epoch_ends q = (reward_acc p, sp_usdc_acc p) # butlast (sp_epoch_ends p)"
    "sp_epoch_rates q = (sp_staked p, sp_shares p) # butlast (sp_epoch_rates p)" "reward_acc q = reward_acc p"
    "sp_usdc_acc q = sp_usdc_acc p" "sp_rewards q = sp_rewards p" "sp_usdc_distributed q = sp_usdc_distributed p"
    "sp_usdc_paid q = sp_usdc_paid p" "sp_shares q = sp_staked p" "sp_staked q = sp_staked p"
  using assms by (auto simp: rolled_def reward_acc_def)

lemma rolled_rate:
  assumes "rolled p q" "kept p"
  shows "rate q 0 = real (sp_staked p) / real (sp_shares p)" "Suc i < EPOCH_ENDS \<Longrightarrow> rate q (Suc i) = rate p i"
  using assms by (auto simp: rolled_def rate_def kept_def nth_butlast)

lemma rolled_through:
  assumes "rolled p q" "kept p" "g < EPOCH_ENDS"
  shows "through q (Suc g) n = through p g n * (real (sp_staked p) / real (sp_shares p))"
  using assms(3)
proof (induction g arbitrary: n)
  case 0
  then show ?case using rolled_rate(1) [OF assms(1,2)] by simp
next
  case (Suc i)
  have "through q (Suc (Suc i)) n = through q (Suc i) (n * rate p i)"
    using rolled_rate(2) [OF assms(1,2) Suc.prems] by simp
  also have "\<dots> = through p i (n * rate p i) * (real (sp_staked p) / real (sp_shares p))"
    using Suc.prems by (intro Suc.IH) simp
  finally show ?case by simp
qed

lemma rolled_kept: "rolled p q \<Longrightarrow> kept p \<Longrightarrow> kept q"
proof -
  assume r: "rolled p q" and k: "kept p"
  have "next_index p \<le> share_index_of p"
    using k by (auto simp: next_index_def kept_def intro!: div_le_of_mult_le)
  moreover have "share_index_of p \<le> INDEX_ONE" using k by (simp add: kept_def index_bounds(4))
  ultimately show "kept q" using r k by (auto simp: rolled_def kept_def)
qed

lemma next_index_real:
  assumes "sp_shares p \<noteq> 0"
  shows "real (next_index p) \<le> real (share_index_of p) * (real (sp_staked p) / real (sp_shares p))"
  using floor_real [of "sp_shares p" "share_index_of p * sp_staked p"] assms by (simp add: next_index_def)

lemma worth_by_index:
  assumes "fits p s" "sp_wipe_epoch p \<le> sk_epoch s"
  shows "real (sk_shares s) * (real (share_index_of p) / real (from_index s)) \<le> worth p s"
proof (cases "sp_epoch p - sk_epoch s \<le> EPOCH_ENDS \<and> sk_shares s \<noteq> 0")
  case True
  let ?g = "sp_epoch p - sk_epoch s"
  have "real (share_index_of p) \<le> real (from_index s) * through p ?g 1"
    using assms True unfolding fits_def through_eq [of p ?g "real (from_index s)"] by blast
  then have "real (share_index_of p) / real (from_index s) \<le> through p ?g 1"
    using index_bounds(1) [of s] by (simp add: divide_le_eq mult.commute)
  then have "real (sk_shares s) * (real (share_index_of p) / real (from_index s)) \<le> real (sk_shares s) * through p ?g 1"
    by (rule mult_left_mono) simp
  also have "\<dots> = worth p s" using True by (simp add: worth_def Let_def through_eq [of p ?g "real (sk_shares s)"])
  finally show ?thesis .
next
  case False
  with assms(2) show ?thesis using worth_nonneg [of p s] by (auto simp: worth_def Let_def)
qed

lemma rolled_not_wiped:
  assumes "rolled p q" "loose p s" "sp_wipe_epoch q \<le> sk_epoch s"
  shows "share_index_of q = next_index p" "sp_wipe_epoch p \<le> sk_epoch s"
proof -
  have "next_index p \<noteq> 0" using assms by (auto simp: rolled_def loose_def split: if_splits)
  then show "share_index_of q = next_index p" "sp_wipe_epoch p \<le> sk_epoch s"
    using assms by (auto simp: rolled_def share_index_of_def)
qed

lemma rolled_worth:
  assumes "rolled p q" "kept p" "fits p s" "sp_shares p = 0 \<longrightarrow> worth p s = 0"
  shows "worth q s \<le> worth p s * (real (sp_staked p) / real (sp_shares p))"
proof -
  let ?g = "sp_epoch p - sk_epoch s" and ?r = "real (sp_staked p) / real (sp_shares p)"
  have l: "loose p s" using assms(3) by (simp add: fits_def)
  have gap: "sp_epoch q - sk_epoch s = Suc ?g" using l by (simp add: rolled_fields [OF assms(1)] loose_def Suc_diff_le)
  show ?thesis
  proof (cases "?g < EPOCH_ENDS")
    case True
    then show ?thesis using rolled_through [OF assms(1,2) True] by (simp add: worth_def gap Let_def)
  next
    case False
    have w: "worth q s = (if sk_epoch s < sp_wipe_epoch q then 0
        else real (sk_shares s) * (real (share_index_of q) / real (from_index s)))"
      using False gap by (simp add: worth_def Let_def)
    show ?thesis
    proof (cases "sk_epoch s < sp_wipe_epoch q")
      case True
      then show ?thesis using w worth_nonneg [of p s] by simp
    next
      case False
      note N = rolled_not_wiped [OF assms(1) l, OF leI [OF False]]
      let ?by = "real (sk_shares s) * (real (share_index_of p) / real (from_index s))"
      have q: "worth q s = real (sk_shares s) * (real (next_index p) / real (from_index s))" using w False N(1) by simp
      have le: "?by \<le> worth p s" by (rule worth_by_index [OF assms(3) N(2)])
      show ?thesis
      proof (cases "sp_shares p = 0")
        case True
        then show ?thesis using q le assms(4) by (simp add: next_index_def)
      next
        case False
        have "worth q s \<le> real (sk_shares s) * (real (share_index_of p) * ?r / real (from_index s))"
          unfolding q by (intro mult_left_mono divide_right_mono next_index_real [OF False]) simp_all
        also have "\<dots> = ?by * ?r" by (simp add: ac_simps)
        also have "\<dots> \<le> worth p s * ?r" by (rule mult_right_mono [OF le]) simp
        finally show ?thesis .
      qed
    qed
  qed
qed

lemma rolled_fits:
  assumes "rolled p q" "kept p" "fits p s" "sp_shares p = 0 \<longrightarrow> worth p s = 0"
  shows "fits q s"
proof -
  let ?g = "sp_epoch p - sk_epoch s" and ?r = "real (sp_staked p) / real (sp_shares p)"
  have l: "loose p s" using assms(3) by (simp add: fits_def)
  have gap: "sp_epoch q - sk_epoch s = Suc ?g" "sk_epoch s < sp_epoch q"
    using l by (simp_all add: rolled_fields [OF assms(1)] loose_def Suc_diff_le)
  have "real (share_index_of q) \<le> through q (Suc ?g) (real (from_index s))"
    if n: "sk_shares s \<noteq> 0" and w: "sp_wipe_epoch q \<le> sk_epoch s" and g: "Suc ?g \<le> EPOCH_ENDS"
  proof -
    note N = rolled_not_wiped [OF assms(1) l w]
    have i: "real (share_index_of p) \<le> through p ?g (real (from_index s))" using assms(3) n N(2) g by (simp add: fits_def)
    have "sp_shares p \<noteq> 0"
    proof
      assume "sp_shares p = 0"
      then have "real (sk_shares s) * through p ?g 1 = 0"
        using assms(4) g by (simp add: worth_def Let_def through_eq [of p ?g "real (sk_shares s)"])
      then have "through p ?g (real (from_index s)) = 0" using n by (simp add: through_eq [of p ?g "real (from_index s)"])
      with i index_bounds(2) [of p] show False by simp
    qed
    then have "real (next_index p) \<le> real (share_index_of p) * ?r" by (rule next_index_real)
    also have "\<dots> \<le> through p ?g (real (from_index s)) * ?r" by (rule mult_right_mono [OF i]) simp
    also have "\<dots> = through q (Suc ?g) (real (from_index s))" using g by (intro rolled_through [symmetric] assms) simp
    finally show ?thesis by (simp add: N(1))
  qed
  then show ?thesis using l gap by (simp add: fits_def loose_def)
qed

subsection \<open>The pool's shares\<close>

definition no_house :: "stake_pool \<Rightarrow> bool" where
  "no_house p \<longleftrightarrow> (\<forall>r. sp_rewards p = Some r \<longrightarrow> rw_house_shares r = 0)"

definition good :: "stake_pool \<Rightarrow> stake_position list \<Rightarrow> bool" where
  "good p ps \<longleftrightarrow> kept p \<and> no_house p \<and> (\<forall>s\<in>set ps. fits p s) \<and> (\<Sum>s\<leftarrow>ps. worth p s) \<le> real (sp_shares p)"

lemma fits_same: "same_epochs p q \<Longrightarrow> fits q s = fits p s"
  unfolding fits_def loose_def by (simp add: through_same share_index_of_def) (simp add: same_epochs_def)

lemma sum_update:
  fixes f :: "'a \<Rightarrow> real"
  shows "i < length xs \<Longrightarrow> (\<Sum>x\<leftarrow>xs[i := y]. f x) = (\<Sum>x\<leftarrow>xs. f x) - f (xs ! i) + f y"
  by (induction xs arbitrary: i) (auto split: nat.splits)

lemma set_update: "i < length xs \<Longrightarrow> (\<forall>x\<in>set (xs[i := y]). P x) \<longleftrightarrow> P y \<and> (\<forall>j < length xs. j \<noteq> i \<longrightarrow> P (xs ! j))"
  by (auto simp: all_set_conv_all_nth nth_list_update)

lemma good_frame:
  assumes "good p ps" "same_epochs p q" "kept q" "no_house q" "sp_shares q = sp_shares p"
  shows "good q ps"
  using assms by (simp add: good_def fits_same worth_same)

lemma accrued_facts:
  assumes "accrued p now = Some m"
  shows "m = p\<lparr>sp_rewards := sp_rewards m\<rparr>" "same_epochs p m" "kept p \<Longrightarrow> kept m" "no_house p \<Longrightarrow> no_house m"
    "sp_shares m = sp_shares p" "sp_usdc_acc m = sp_usdc_acc p" "sp_usdc_distributed m = sp_usdc_distributed p"
    "sp_usdc_paid m = sp_usdc_paid p" "sp_staked m = sp_staked p"
proof -
  show m: "m = p\<lparr>sp_rewards := sp_rewards m\<rparr>" using assms by (auto simp: accrued_def split: option.splits)
  show "same_epochs p m" "kept p \<Longrightarrow> kept m" "sp_shares m = sp_shares p" "sp_usdc_acc m = sp_usdc_acc p"
    "sp_usdc_distributed m = sp_usdc_distributed p" "sp_usdc_paid m = sp_usdc_paid p" "sp_staked m = sp_staked p"
    by (subst m, simp add: same_epochs_def kept_def)+
  show "no_house p \<Longrightarrow> no_house m"
    using assms by (auto simp: accrued_def no_house_def accrue_def Let_def checked_simps split: option.splits if_splits)
qed

lemma good_accrued: "good p ps \<Longrightarrow> accrued p now = Some m \<Longrightarrow> good m ps"
  by (rule good_frame [of p]) (simp_all add: accrued_facts good_def)

lemma good_rolled:
  assumes "good p ps" "rolled p q"
  shows "good q ps"
proof -
  have k: "kept p" and sum: "(\<Sum>s\<leftarrow>ps. worth p s) \<le> real (sp_shares p)" and fit: "\<forall>s\<in>set ps. fits p s"
    using assms(1) by (simp_all add: good_def)
  have z: "sp_shares p = 0 \<longrightarrow> worth p s = 0" if "s \<in> set ps" for s
  proof
    assume "sp_shares p = 0"
    then have "(\<Sum>s\<leftarrow>ps. worth p s) \<le> 0" using sum by simp
    then have "(\<Sum>s\<leftarrow>ps. worth p s) = 0" using worth_nonneg by (intro antisym sum_list_nonneg) auto
    then show "worth p s = 0" using that worth_nonneg by (subst (asm) sum_list_nonneg_eq_0_iff) auto
  qed
  let ?r = "real (sp_staked p) / real (sp_shares p)"
  have "(\<Sum>s\<leftarrow>ps. worth q s) \<le> (\<Sum>s\<leftarrow>ps. worth p s * ?r)"
    using fit z by (intro sum_list_mono rolled_worth [OF assms(2) k]) auto
  also have "\<dots> = (\<Sum>s\<leftarrow>ps. worth p s) * ?r" by (rule sum_list_mult_const)
  also have "\<dots> \<le> real (sp_shares p) * ?r" by (rule mult_right_mono [OF sum]) simp
  also have "\<dots> \<le> real (sp_staked p)" by simp
  finally have "(\<Sum>s\<leftarrow>ps. worth q s) \<le> real (sp_shares q)" by (simp add: rolled_fields [OF assms(2)])
  moreover have "\<forall>s\<in>set ps. fits q s" using rolled_fits [OF assms(2) k] fit z by blast
  moreover have "no_house q" using assms by (simp add: good_def no_house_def rolled_fields(6))
  ultimately show ?thesis using rolled_kept [OF assms(2) k] by (simp add: good_def)
qed

lemma worth_current: "sk_epoch s = sp_epoch p \<Longrightarrow> worth p s = real (sk_shares s)"
  by (simp add: worth_def)

text \<open>A position of the current epoch changes its shares together with the pool.\<close>

lemma good_change:
  assumes "good q ps" "i < length ps" "same_epochs q q'" "kept q'" "no_house q'"
    "sk_epoch (ps ! i) = sp_epoch q" "sk_epoch t = sp_epoch q" "sk_index t = sk_index (ps ! i)" "sk_shares t < 2 ^ 64"
    "sp_shares q' + sk_shares (ps ! i) = sp_shares q + sk_shares t"
  shows "good q' (ps[i := t])"
proof -
  have fit: "\<forall>s\<in>set ps. fits q s" using assms(1) by (simp add: good_def)
  then have "fits q (ps ! i)" using assms(2) by simp
  then have "loose q t" using assms(6-9) by (auto simp: fits_def loose_def from_index_def split: if_splits)
  then have "fits q t" using assms(7) by (intro loose_current)
  then have all: "\<forall>s\<in>set (ps[i := t]). fits q s" using fit assms(2) by (simp add: set_update)
  have e: "sp_epoch q' = sp_epoch q" using assms(3) by (simp add: same_epochs_def)
  have "(\<Sum>s\<leftarrow>ps[i := t]. worth q s) = (\<Sum>s\<leftarrow>ps. worth q s) - real (sk_shares (ps ! i)) + real (sk_shares t)"
    using assms(2,6,7) by (simp add: sum_update worth_current)
  also have "\<dots> \<le> real (sp_shares q) - real (sk_shares (ps ! i)) + real (sk_shares t)" using assms(1) by (simp add: good_def)
  also have "\<dots> = real (sp_shares q')" using assms(10) by (metis add_diff_eq diff_add_eq of_nat_add add_diff_cancel_right')
  finally show ?thesis using assms all by (simp add: good_def worth_same [OF assms(3)] fits_same [OF assms(3)])
qed

subsection \<open>An accumulator\<close>

definition grown :: "(nat \<times> nat \<Rightarrow> nat) \<Rightarrow> nat \<Rightarrow> (stake_pool \<Rightarrow> nat) \<Rightarrow> (stake_pool \<Rightarrow> nat) \<Rightarrow>
    stake_pool \<Rightarrow> stake_pool \<Rightarrow> bool" where
  "grown pick scale tin tout p q \<longleftrightarrow> same_epochs p q \<and> tin p \<le> tin q \<and> tout q = tout p \<and>
     (let a = pick (reward_acc p, sp_usdc_acc p); b = pick (reward_acc q, sp_usdc_acc q)
      in a \<le> b \<and> (b - a) * sp_shares p \<le> (tin q - tin p) * scale)"

text \<open>
  The interface: where the accumulator and its kept ends are (\<open>pick\<close>), a position's pending amount and snapshot, and the
  totals that came in and went out; the laws are what settling, restarting, accruing and spreading do to them.
\<close>

locale accumulator =
  fixes pick :: "nat \<times> nat \<Rightarrow> nat" and scale :: nat and pending snap :: "stake_position \<Rightarrow> nat"
    and tin tout :: "stake_pool \<Rightarrow> nat"
  assumes scale_pos: "0 < scale"
    and settled: "position_settle s r u = Some t \<Longrightarrow>
      pending t = pending s + sk_shares s * (pick (r, u) - snap s) div scale \<and> snap t = pick (r, u) \<and> snap s \<le> pick (r, u)"
    and kept_pending: "pending (s\<lparr>sk_shares := n, sk_unbonding := m, sk_epoch := e, sk_index := x\<rparr>) = pending s"
      "snap (s\<lparr>sk_shares := n, sk_unbonding := m, sk_epoch := e, sk_index := x\<rparr>) = snap s"
    and restarted: "pending (s\<lparr>sk_shares := n, sk_unbonding := m, sk_epoch := e, sk_reward_snapshot := r,
        sk_usdc_snapshot := u, sk_index := x\<rparr>) = pending s"
      "snap (s\<lparr>sk_shares := n, sk_unbonding := m, sk_epoch := e, sk_reward_snapshot := r,
        sk_usdc_snapshot := u, sk_index := x\<rparr>) = pick (r, u)"
    and money: "sp_rewards q = sp_rewards p \<Longrightarrow> sp_usdc_distributed q = sp_usdc_distributed p \<Longrightarrow>
      sp_usdc_paid q = sp_usdc_paid p \<Longrightarrow> tin q = tin p \<and> tout q = tout p"
    and accruing: "accrued p now = Some q \<Longrightarrow> no_house p \<Longrightarrow> grown pick scale tin tout p q"
    and spreading: "spread p amount = Some q \<Longrightarrow> grown pick scale tin tout p q"
begin

definition A :: "stake_pool \<Rightarrow> nat" where
  "A p = pick (reward_acc p, sp_usdc_acc p)"

definition E :: "stake_pool \<Rightarrow> nat \<Rightarrow> nat" where
  "E p i = pick (sp_epoch_ends p ! i)"

definition D :: "stake_pool \<Rightarrow> stake_position \<Rightarrow> real" where
  "D = due pick scale pending snap"

definition snapped :: "stake_pool \<Rightarrow> stake_position \<Rightarrow> bool" where
  "snapped p s \<longleftrightarrow> (let g = sp_epoch p - sk_epoch s in g \<le> EPOCH_ENDS \<longrightarrow> snap s \<le> end_of (A p) (E p) g)"

lemma D_eq:
  "D p s = real (pending s * scale) + (let g = sp_epoch p - sk_epoch s in
      if g \<le> EPOCH_ENDS then flows p (E p) (A p) g (real (sk_shares s)) (real (snap s)) else 0)"
  by (simp add: D_def due_def A_def E_def [abs_def] Let_def)

lemma settle_part:
  assumes "position_settle s r u = Some t"
  shows "real (pending t * scale) \<le> real (pending s * scale) + real (sk_shares s) * (real (pick (r, u)) - real (snap s))"
proof -
  have "pending t * scale \<le> pending s * scale + sk_shares s * (pick (r, u) - snap s)"
    using settled [OF assms] by (simp add: distrib_right)
  then have "real (pending t * scale) \<le> real (pending s * scale + sk_shares s * (pick (r, u) - snap s))"
    by (simp only: of_nat_le_iff)
  then show ?thesis using settled [OF assms] by (simp add: of_nat_diff)
qed

lemma flows_less:
  assumes "m \<le> n" "in_order (A p) (E p)" "g \<le> EPOCH_ENDS" "x \<le> real (end_of (A p) (E p) g)"
  shows "flows p (E p) (A p) g m x \<le> flows p (E p) (A p) g n x"
proof -
  have "0 \<le> flows p (E p) (A p) g 1 x" using assms(2-4) by (intro flows_nonneg) simp_all
  then have "m * flows p (E p) (A p) g 1 x \<le> n * flows p (E p) (A p) g 1 x" using assms(1) by (intro mult_right_mono)
  then show ?thesis by (simp flip: flows_mult)
qed

lemma end_below: "in_order acc ends \<Longrightarrow> i < EPOCH_ENDS \<Longrightarrow> ends i \<le> end_of acc ends i"
  by (cases i) (auto simp: in_order_def end_of_def)

lemma touch_step_due:
  assumes "loose p s" "kept p" "in_order (A p) (E p)" "sk_epoch s \<noteq> sp_epoch p" "touch_step p (reward_acc p) s = Some t"
  shows "D p t \<le> D p s \<and> snapped p t"
proof (cases "sp_epoch p - sk_epoch s \<le> EPOCH_ENDS")
  case True
  obtain i where i: "sp_epoch p - sk_epoch s = Suc i"
    using touch_step_epoch [OF assms(5,4)] by (cases "sp_epoch p - sk_epoch s") auto
  show ?thesis
  proof (rule touch_step_kept [OF assms(5) i _ assms(2)])
    show "i < EPOCH_ENDS" using True i by simp
    fix u
    assume u: "position_settle s (fst (sp_epoch_ends p ! i)) (snd (sp_epoch_ends p ! i)) = Some u"
      and t: "t = u\<lparr>sk_shares := convert_shares (sk_shares s) (sp_epoch_rates p ! i),
        sk_unbonding := min (convert_shares (sk_unbonding s) (sp_epoch_rates p ! i)) (convert_shares (sk_shares s) (sp_epoch_rates p ! i)),
        sk_epoch := Suc (sk_epoch s), sk_index := sp_share_index p\<rparr>"
    have f: "pending t = pending u" "snap t = E p i" "sk_shares t = convert_shares (sk_shares s) (sp_epoch_rates p ! i)"
      "sp_epoch p - sk_epoch t = i" "i < EPOCH_ENDS"
      using settled [OF u] i True by (simp_all add: t kept_pending E_def)
    note below = end_below [OF assms(3) f(5)]
    have "D p t = real (pending u * scale) + flows p (E p) (A p) i (real (sk_shares t)) (real (E p i))"
      using f by (simp add: D_eq Let_def)
    also have "\<dots> \<le> real (pending s * scale) + real (sk_shares s) * (real (E p i) - real (snap s))
        + flows p (E p) (A p) i (real (sk_shares s) * rate p i) (real (E p i))"
      using settle_part [OF u] below f(5) assms(3) unfolding f(3)
      by (intro add_mono flows_less convert_le_rate) (simp_all add: E_def)
    also have "\<dots> = D p s" using i True by (simp add: D_eq Let_def)
    finally show ?thesis using below f by (simp add: snapped_def Let_def)
  qed
next
  case False
  then have g: "EPOCH_ENDS < sp_epoch p - sk_epoch s" by simp
  show ?thesis
    by (rule touch_step_old [OF assms(5) g assms(2)]) (use False in \<open>simp add: D_eq Let_def restarted snapped_def A_def end_of_def\<close>)
qed

lemma settle_due:
  assumes "position_settle s (reward_acc p) (sp_usdc_acc p) = Some t" "sk_epoch s = sp_epoch p"
  shows "D p t \<le> D p s \<and> snap t = A p"
proof -
  have t: "sk_epoch t = sp_epoch p" by (simp add: position_settle_facts(1) [OF assms(1)] assms(2))
  show ?thesis using settle_part [OF assms(1)] settled [OF assms(1)] assms(2) t by (simp add: D_eq Let_def A_def)
qed

text \<open>The accumulator grows by no more per share than what came in allows.\<close>

definition grows :: "stake_pool \<Rightarrow> stake_pool \<Rightarrow> bool" where
  "grows p q \<longleftrightarrow> same_epochs p q \<and> A p \<le> A q \<and> tin p \<le> tin q \<and> tout q = tout p \<and>
     (A q - A p) * sp_shares p \<le> (tin q - tin p) * scale"

definition covered :: "stake_pool \<Rightarrow> stake_position list \<Rightarrow> bool" where
  "covered p ps \<longleftrightarrow> (\<Sum>s\<leftarrow>ps. D p s) + real (tout p * scale) \<le> real (tin p * scale)"

lemma grows_due:
  assumes "grows p q"
  shows "D q s \<le> D p s + worth p s * real (A q - A p)"
proof -
  have same: "same_epochs p q" and a: "A q = A p + (A q - A p)" using assms by (simp_all add: grows_def)
  have q: "rate q = rate p" "sp_epoch q = sp_epoch p" "E q = E p"
    using rate_same [OF same] same by (simp_all add: same_epochs_def E_def [abs_def])
  have fl: "flows q e acc g n x = flows p e acc g n x" for e acc g n x
    by (induction g arbitrary: n x) (simp_all add: q)
  show ?thesis
  proof (cases "sp_epoch p - sk_epoch s \<le> EPOCH_ENDS")
    case True
    have "flows p (E p) (A q) (sp_epoch p - sk_epoch s) n x
        = flows p (E p) (A p) (sp_epoch p - sk_epoch s) n x + through p (sp_epoch p - sk_epoch s) n * real (A q - A p)" for n x
      by (subst a) (rule flows_grow)
    with True show ?thesis by (simp add: D_eq fl q Let_def worth_def)
  next
    case False
    then show ?thesis using worth_nonneg [of p s] by (simp add: D_eq q Let_def)
  qed
qed

lemma grows_covered:
  assumes "grows p q" "covered p ps" "(\<Sum>s\<leftarrow>ps. worth p s) \<le> real (sp_shares p)"
  shows "covered q ps"
proof -
  let ?d = "real (A q - A p)"
  have "(\<Sum>s\<leftarrow>ps. D q s) \<le> (\<Sum>s\<leftarrow>ps. D p s + worth p s * ?d)" by (intro sum_list_mono grows_due assms(1))
  also have "\<dots> = (\<Sum>s\<leftarrow>ps. D p s) + (\<Sum>s\<leftarrow>ps. worth p s) * ?d" by (simp add: sum_list_addf sum_list_mult_const)
  also have "\<dots> \<le> (\<Sum>s\<leftarrow>ps. D p s) + real (sp_shares p) * ?d" using assms(3) by (intro add_left_mono mult_right_mono) simp_all
  also have "real (sp_shares p) * ?d = real ((A q - A p) * sp_shares p)" by simp
  also have "\<dots> \<le> real ((tin q - tin p) * scale)" using assms(1) by (simp only: grows_def of_nat_le_iff)
  finally have "(\<Sum>s\<leftarrow>ps. D q s) \<le> (\<Sum>s\<leftarrow>ps. D p s) + real ((tin q - tin p) * scale)" by simp
  moreover have "real ((tin q - tin p) * scale) = real (tin q * scale) - real (tin p * scale)"
    using assms(1) by (simp add: grows_def of_nat_diff algebra_simps)
  moreover have "tout q = tout p" using assms(1) by (simp add: grows_def)
  ultimately show ?thesis using assms(2) by (simp add: covered_def)
qed

lemma rolled_flows:
  assumes "rolled p q" "kept p" "g < EPOCH_ENDS"
  shows "flows q (E q) (A q) (Suc g) n x = flows p (E p) (A p) g n x"
  using assms(3)
proof -
  have e: "A q = A p" "E q 0 = A p" "Suc i < EPOCH_ENDS \<Longrightarrow> E q (Suc i) = E p i" for i
    using assms(2) by (simp_all add: rolled_fields [OF assms(1)] kept_def A_def E_def nth_butlast)
  show ?thesis using assms(3)
  proof (induction g arbitrary: n x)
    case 0
    then show ?case by (simp add: e)
  next
    case (Suc i)
    have "flows q (E q) (A q) (Suc (Suc i)) n x
        = n * (real (E p i) - x) + flows q (E q) (A q) (Suc i) (n * rate p i) (real (E p i))"
      using rolled_rate(2) [OF assms(1,2) Suc.prems] e(3) [OF Suc.prems] by simp
    also have "flows q (E q) (A q) (Suc i) (n * rate p i) (real (E p i)) = flows p (E p) (A p) i (n * rate p i) (real (E p i))"
      using Suc.prems by (intro Suc.IH) simp
    finally show ?case by simp
  qed
qed

lemma rolled_order:
  assumes "rolled p q" "kept p" "in_order (A p) (E p)"
  shows "in_order (A q) (E q)"
proof -
  have e: "A q = A p" "E q 0 = A p" "\<And>i. Suc i < EPOCH_ENDS \<Longrightarrow> E q (Suc i) = E p i"
    using assms(2) by (simp_all add: rolled_fields [OF assms(1)] kept_def A_def E_def nth_butlast)
  have "E q (Suc i) \<le> E q i" if "i < EPOCH_ENDS - 1" for i
    using that assms(3) by (cases i) (simp_all add: e in_order_def)
  then show ?thesis by (simp add: in_order_def e)
qed

lemma rolled_due:
  assumes "rolled p q" "kept p" "loose p s" "in_order (A p) (E p)" "snapped p s"
  shows "D q s \<le> D p s" "snapped q s"
proof -
  let ?g = "sp_epoch p - sk_epoch s"
  have gap: "sp_epoch q - sk_epoch s = Suc ?g" using assms(3) by (simp add: rolled_fields [OF assms(1)] loose_def Suc_diff_le)
  have e: "Suc i \<le> EPOCH_ENDS \<Longrightarrow> E q i = end_of (A p) (E p) i" for i
    using assms(2) by (cases i) (simp_all add: rolled_fields [OF assms(1)] kept_def A_def E_def end_of_def nth_butlast)
  have "end_of (A q) (E q) (Suc ?g) = E q ?g" by (simp add: end_of_def)
  then show "snapped q s" using assms(5) e [of ?g] by (simp add: snapped_def gap Let_def)
  show "D q s \<le> D p s"
  proof (cases "?g < EPOCH_ENDS")
    case True
    then show ?thesis using rolled_flows [OF assms(1,2) True] by (simp add: D_eq gap Let_def)
  next
    case False
    have "0 \<le> flows p (E p) (A p) ?g (real (sk_shares s)) (real (snap s))" if "?g \<le> EPOCH_ENDS"
      using that assms(4,5) by (intro flows_nonneg) (simp_all add: snapped_def Let_def)
    with False show ?thesis by (auto simp: D_eq gap Let_def)
  qed
qed

lemma rolled_covered:
  assumes "rolled p q" "kept p" "\<forall>s\<in>set ps. loose p s \<and> snapped p s" "in_order (A p) (E p)" "covered p ps"
  shows "covered q ps"
proof -
  have "tin q = tin p" "tout q = tout p" using money [OF rolled_fields(6-8) [OF assms(1)]] by simp_all
  moreover have "D q s \<le> D p s" if "s \<in> set ps" for s
    using rolled_due(1) [OF assms(1,2) _ assms(4)] assms(3) that by blast
  then have "(\<Sum>s\<leftarrow>ps. D q s) \<le> (\<Sum>s\<leftarrow>ps. D p s)" by (rule sum_list_mono)
  ultimately show ?thesis using assms(5) by (simp add: covered_def)
qed

definition lane :: "stake_pool \<Rightarrow> stake_position list \<Rightarrow> bool" where
  "lane p ps \<longleftrightarrow> in_order (A p) (E p) \<and> (\<forall>s\<in>set ps. snapped p s) \<and> covered p ps"

lemma grown_grows: "grown pick scale tin tout p q \<Longrightarrow> grows p q"
  by (simp add: grown_def grows_def A_def Let_def)

lemma same_ends: "same_epochs p q \<Longrightarrow> E q = E p"
  by (simp add: same_epochs_def E_def [abs_def])

lemma lane_grown:
  assumes "grown pick scale tin tout p q" "lane p ps" "good p ps"
  shows "lane q ps"
proof -
  note g = grown_grows [OF assms(1)]
  have same: "same_epochs p q" and e: "A p \<le> A q" using g by (simp_all add: grows_def)
  note e = e same_ends [OF same] same [unfolded same_epochs_def, THEN conjunct1]
  have "in_order (A q) (E q)" using assms(2) e by (simp add: lane_def in_order_def)
  moreover have "snapped q s" if "snapped p s" for s
    using that e by (auto simp: snapped_def Let_def end_of_def split: nat.splits)
  moreover have "covered q ps" using assms(2,3) by (intro grows_covered [OF g]) (simp_all add: lane_def good_def)
  ultimately show ?thesis using assms(2) by (simp add: lane_def)
qed

lemma lane_rolled:
  assumes "rolled p q" "lane p ps" "good p ps"
  shows "lane q ps"
proof -
  have k: "kept p" and f: "\<forall>s\<in>set ps. loose p s \<and> snapped p s" and o: "in_order (A p) (E p)" and c: "covered p ps"
    using assms(2,3) by (auto simp: good_def lane_def fits_def)
  have "\<forall>s\<in>set ps. snapped q s" using rolled_due(2) [OF assms(1) k _ o] f by blast
  then show ?thesis using rolled_order [OF assms(1) k o] rolled_covered [OF assms(1) k f o c] by (simp add: lane_def)
qed

lemma D_same:
  assumes "same_epochs p q" "A q = A p"
  shows "D q s = D p s" "snapped q s = snapped p s"
proof -
  note e = rate_same [OF assms(1)] same_ends [OF assms(1)]
  have fl: "flows q x a g n y = flows p x a g n y" for x a g n y
    by (induction g arbitrary: n y) (simp_all add: e)
  have "sp_epoch q = sp_epoch p" using assms(1) by (simp add: same_epochs_def)
  then show "D q s = D p s" "snapped q s = snapped p s"
    by (simp_all only: D_eq snapped_def fl e assms(2))
qed

text \<open>A position whose snapshot is the accumulator: nothing but its pending amount is due.\<close>

lemma D_settled: "sk_epoch s = sp_epoch p \<Longrightarrow> snap s = A p \<Longrightarrow> D p s = real (pending s * scale)"
  by (simp add: D_eq)

lemma lane_change:
  assumes "lane q ps" "i < length ps" "same_epochs q q'" "A q' = A q" "tin q' = tin q"
    "sk_epoch (ps ! i) = sp_epoch q" "snap (ps ! i) = A q" "sk_epoch t = sp_epoch q" "snap t = A q"
    "tout q' + pending t = tout q + pending (ps ! i)"
  shows "lane q' (ps[i := t])"
proof -
  note D = D_same [OF assms(3,4)]
  have o: "in_order (A q') (E q')" using assms(1) same_ends [OF assms(3)] assms(4) by (simp add: lane_def)
  have "snapped q t" using assms(8,9) by (simp add: snapped_def end_of_def)
  then have all: "\<forall>s\<in>set (ps[i := t]). snapped q' s" using assms(1,2) by (simp add: set_update D lane_def)
  have "(\<Sum>s\<leftarrow>ps[i := t]. D q s) = (\<Sum>s\<leftarrow>ps. D q s) - real (pending (ps ! i) * scale) + real (pending t * scale)"
    using assms(2,6-9) by (simp add: sum_update D_settled)
  moreover have "real (tout q' * scale) + real (pending t * scale) = real (tout q * scale) + real (pending (ps ! i) * scale)"
    using assms(10) by (simp flip: of_nat_add distrib_right)
  ultimately have "covered q' (ps[i := t])"
    using assms(1,5) by (simp add: lane_def covered_def D)
  with o all show ?thesis by (simp add: lane_def)
qed

lemma lane_frame:
  assumes "lane q ps" "same_epochs q q'" "A q' = A q" "tin q' = tin q" "tout q' = tout q"
  shows "lane q' ps"
  using assms D_same [OF assms(2,3)] same_ends [OF assms(2)] by (simp add: lane_def covered_def)

lemma lane_touched:
  assumes "lane q ps" "good q ps" "i < length ps" "touch_loop q (reward_acc q) (ps ! i) = Some u"
    "position_settle u (reward_acc q) (sp_usdc_acc q) = Some t"
  shows "lane q (ps[i := t])" "snap t = A q"
proof -
  have k: "kept q" and l: "loose q (ps ! i)" and o: "in_order (A q) (E q)" and sn: "\<forall>s\<in>set ps. snapped q s"
    using assms(1-3) by (auto simp: good_def lane_def fits_def)
  let ?P = "\<lambda>u. D q u \<le> D q (ps ! i) \<and> loose q u"
  have "?P v" if "?P u" "sk_epoch u \<noteq> sp_epoch q" "touch_step q (reward_acc q) u = Some v" for u v
    using that touch_step_due [OF _ k o that(2,3)] touch_step_worth(1) [OF _ k that(2,3)] by (meson order_trans)
  from touch_loop_invariant [OF assms(4), of ?P, OF _ this] l
  have "D q u \<le> D q (ps ! i)" and eu: "sk_epoch u = sp_epoch q" by simp_all
  then have d: "D q t \<le> D q (ps ! i)" and s: "snap t = A q" using settle_due [OF assms(5) eu] by simp_all
  have e: "sk_epoch t = sp_epoch q" by (simp add: position_settle_facts(1) [OF assms(5)] eu)
  show "snap t = A q" by (rule s)
  have "snapped q t" using s e by (simp add: snapped_def end_of_def)
  then have "\<forall>s\<in>set (ps[i := t]). snapped q s" using sn assms(3) by (simp add: set_update)
  moreover have "covered q (ps[i := t])"
    using assms(1,3) d by (simp add: lane_def covered_def sum_update)
  ultimately show "lane q (ps[i := t])" using o by (simp add: lane_def)
qed

end

subsection \<open>The two accumulators\<close>

definition streamed :: "stake_pool \<Rightarrow> u64" where
  "streamed p = (case sp_rewards p of None \<Rightarrow> 0 | Some r \<Rightarrow> rw_distributed r)"

definition stream_paid :: "stake_pool \<Rightarrow> u64" where
  "stream_paid p = (case sp_rewards p of None \<Rightarrow> 0 | Some r \<Rightarrow> rw_paid r)"

lemma accrue_cases:
  assumes "accrue r n now = Some r'"
  obtains "r' = r\<lparr>rw_last_ts := max (rw_last_ts r) now\<rparr>"
  | x where "r' = r\<lparr>rw_acc := rw_acc r + x * REWARD_SCALE div (n - rw_house_shares r),
      rw_distributed := rw_distributed r + x, rw_last_ts := max (rw_last_ts r) now\<rparr>"
proof -
  define a z where "a = max (rw_last_ts r) (rw_start_ts r)" and "z = min now (rw_end_ts r)"
  show ?thesis
  proof (cases "a < z \<and> 0 < n - rw_house_shares r \<and> 0 < released_at r z - released_at r a")
    case True
    with assms show ?thesis
      by (intro that(2) [of "released_at r z - released_at r a"])
        (auto simp: accrue_def Let_def checked_simps a_def [symmetric] z_def [symmetric])
  next
    case False
    with assms show ?thesis
      by (intro that(1)) (auto simp: accrue_def Let_def checked_simps a_def [symmetric] z_def [symmetric] split: if_splits)
  qed
qed

lemma accrue_facts:
  assumes "accrue r n now = Some r'"
  shows "rw_acc r \<le> rw_acc r'" "rw_distributed r \<le> rw_distributed r'" "rw_paid r' = rw_paid r"
    "rw_house_shares r = 0 \<Longrightarrow> (rw_acc r' - rw_acc r) * n \<le> (rw_distributed r' - rw_distributed r) * REWARD_SCALE"
  using assms by (cases rule: accrue_cases; simp)+

lemma accrued_stream:
  assumes "accrued p now = Some q" "no_house p"
  shows "reward_acc p \<le> reward_acc q \<and> streamed p \<le> streamed q \<and> stream_paid q = stream_paid p \<and>
    (reward_acc q - reward_acc p) * sp_shares p \<le> (streamed q - streamed p) * REWARD_SCALE"
proof (cases "sp_rewards p")
  case None
  with assms show ?thesis by (simp add: accrued_def)
next
  case (Some r)
  with assms(1) obtain r' where r: "accrue r (sp_shares p) now = Some r'" "sp_rewards q = Some r'"
    by (auto simp: accrued_def)
  then show ?thesis using accrue_facts [OF r(1)] Some assms(2)
    by (simp add: reward_acc_def streamed_def stream_paid_def no_house_def)
qed

lemma spread_same:
  assumes "spread p amount = Some q"
  shows "same_epochs p q" "reward_acc q = reward_acc p" "sp_rewards q = sp_rewards p" "sp_usdc_paid q = sp_usdc_paid p"
    "sp_shares q = sp_shares p" "sp_staked q = sp_staked p"
  using assms by (auto simp: spread_def checked_simps same_epochs_def reward_acc_def split: if_splits)

interpretation usdc: accumulator snd USDC_SCALE sk_usdc_pending sk_usdc_snapshot sp_usdc_distributed sp_usdc_paid
proof (unfold_locales, goal_cases)
  case (2 s r u t)
  then show ?case using position_settle_facts [OF 2] by simp
next
  case (8 p now q)
  then show ?case using accrued_facts(2,6-8) [OF 8(1)] by (simp add: grown_def)
next
  case (9 p amount q)
  have "(sp_usdc_acc q - sp_usdc_acc p) * sp_shares p \<le> (sp_usdc_distributed q - sp_usdc_distributed p) * USDC_SCALE"
    "sp_usdc_acc p \<le> sp_usdc_acc q"
    unfolding spread_facts(3) [OF 9] by simp_all
  then show ?case using spread_facts(4) [OF 9] spread_same(1,4) [OF 9] by (simp add: grown_def)
qed (simp_all add: USDC_SCALE_def)

interpretation amba: accumulator fst REWARD_SCALE sk_reward_pending sk_reward_snapshot streamed stream_paid
proof (unfold_locales, goal_cases)
  case (2 s r u t)
  then show ?case using position_settle_facts [OF 2] by simp
next
  case (8 p now q)
  then show ?case using accrued_stream [OF 8] accrued_facts(2) [OF 8(1)] by (simp add: grown_def)
next
  case (9 p amount q)
  then show ?case using spread_same [OF 9] by (simp add: grown_def streamed_def stream_paid_def)
qed (simp_all add: REWARD_SCALE_def streamed_def stream_paid_def)

subsection \<open>Every instruction keeps the pool solid\<close>

definition solid :: "stake_pool \<Rightarrow> stake_position list \<Rightarrow> bool" where
  "solid p ps \<longleftrightarrow> good p ps \<and> usdc.lane p ps \<and> amba.lane p ps"

definition settled_at :: "stake_pool \<Rightarrow> stake_position \<Rightarrow> bool" where
  "settled_at q s \<longleftrightarrow> sk_epoch s = sp_epoch q \<and> sk_usdc_snapshot s = sp_usdc_acc q \<and> sk_reward_snapshot s = reward_acc q"

lemma good_facts: "good p ps \<Longrightarrow> kept p" "good p ps \<Longrightarrow> no_house p"
  by (simp_all add: good_def)

lemma solid_accrued: "solid p ps \<Longrightarrow> accrued p now = Some q \<Longrightarrow> solid q ps"
  unfolding solid_def
  by (metis good_accrued usdc.lane_grown [OF usdc.accruing] amba.lane_grown [OF amba.accruing] good_facts(2))

lemma solid_rolled: "solid p ps \<Longrightarrow> rolled p q \<Longrightarrow> solid q ps"
  unfolding solid_def by (metis good_rolled usdc.lane_rolled amba.lane_rolled)

lemma solid_begin_epoch:
  assumes "solid p ps" "begin_epoch p now = Some q"
  shows "solid q ps"
proof -
  have "kept p" using assms(1) good_facts(1) by (auto simp: solid_def)
  then obtain m where "accrued p now = Some m" "rolled m q" by (rule begin_epoch_rolled [OF assms(2)])
  then show ?thesis using assms(1) solid_accrued solid_rolled by blast
qed

lemma solid_spread:
  assumes "solid p ps" "spread p amount = Some q"
  shows "solid q ps"
proof -
  have "kept q" "no_house q" using assms spread_same [OF assms(2)] by (auto simp: solid_def good_def kept_def no_house_def same_epochs_def)
  then have "good q ps" using assms(1) spread_same [OF assms(2)] by (auto intro: good_frame simp: solid_def)
  then show ?thesis using assms(1) usdc.lane_grown [OF usdc.spreading [OF assms(2)]] amba.lane_grown [OF amba.spreading [OF assms(2)]]
    by (simp add: solid_def)
qed

text \<open>Changes of the pool that no position's shares or earnings depend on.\<close>

definition other_fields :: "stake_pool \<Rightarrow> stake_pool \<Rightarrow> bool" where
  "other_fields p q \<longleftrightarrow> same_epochs p q \<and> sp_shares q = sp_shares p \<and> sp_staked q \<le> sp_staked p \<and>
     sp_rewards q = sp_rewards p \<and> sp_usdc_acc q = sp_usdc_acc p \<and> sp_usdc_distributed q = sp_usdc_distributed p \<and>
     sp_usdc_paid q = sp_usdc_paid p"

lemma solid_other:
  assumes "solid p ps" "other_fields p q"
  shows "solid q ps"
proof -
  have r: "reward_acc q = reward_acc p" "streamed q = streamed p" "stream_paid q = stream_paid p"
    using assms(2) by (simp_all add: other_fields_def reward_acc_def streamed_def stream_paid_def)
  have g: "good p ps" and lanes: "usdc.lane p ps" "amba.lane p ps" using assms(1) by (simp_all add: solid_def)
  have o: "same_epochs p q" "sp_shares q = sp_shares p" "sp_usdc_acc q = sp_usdc_acc p"
    "sp_usdc_distributed q = sp_usdc_distributed p" "sp_usdc_paid q = sp_usdc_paid p"
    using assms(2) by (simp_all add: other_fields_def)
  have k: "kept q" using assms(2) good_facts(1) [OF g] by (simp add: kept_def other_fields_def same_epochs_def)
  have "no_house q" using assms(2) good_facts(2) [OF g] by (simp add: no_house_def other_fields_def)
  then have "good q ps" by (rule good_frame [OF g o(1) k _ o(2)])
  moreover have "usdc.lane q ps" by (rule usdc.lane_frame [OF lanes(1) o(1)]) (simp_all add: usdc.A_def o)
  moreover have "amba.lane q ps" by (rule amba.lane_frame [OF lanes(2) o(1)]) (simp_all add: amba.A_def r)
  ultimately show ?thesis by (simp add: solid_def)
qed

lemma solid_touch:
  assumes "solid p ps" "i < length ps" "touch p (ps ! i) now = Some (q, t)"
  shows "solid q (ps[i := t]) \<and> settled_at q t \<and> accrued p now = Some q"
  using assms(3)
proof (cases rule: touch_cases)
  case (1 rewards u)
  have acc: "accrued p now = Some q" using accrued_pool [OF 1(4)] by (simp add: 1(1))
  have q: "solid q ps" by (rule solid_accrued [OF assms(1) acc])
  then have k: "kept q" and l: "loose q (ps ! i)" and g: "good q ps" and fit: "\<forall>s\<in>set ps. fits q s"
    using assms(2) by (auto simp: solid_def good_def fits_def)
  let ?P = "\<lambda>u. worth q u \<le> worth q (ps ! i) \<and> loose q u"
  have "?P v" if "?P u" "sk_epoch u \<noteq> sp_epoch q" "touch_step q (reward_acc q) u = Some v" for u v
    using that touch_step_worth [OF _ k that(2,3)] by (meson order_trans)
  from touch_loop_invariant [OF 1(2), of ?P, OF _ this] l
  have u: "worth q u \<le> worth q (ps ! i)" "loose q u" "sk_epoch u = sp_epoch q" by simp_all
  have t: "sk_epoch t = sp_epoch q" "sk_shares t = sk_shares u" "sk_index t = sk_index u"
    "sk_usdc_snapshot t = sp_usdc_acc q" "sk_reward_snapshot t = reward_acc q"
    by (simp_all add: position_settle_facts(1) [OF 1(3)] u(3))
  have settled: "settled_at q t" using t by (simp add: settled_at_def)
  have "loose q t" using u(2,3) t by (auto simp: loose_def from_index_def split: if_splits)
  then have "fits q t" by (rule loose_current [OF _ t(1)])
  moreover have "worth q t \<le> worth q (ps ! i)" using u t by (simp add: worth_current)
  ultimately have "good q (ps[i := t])" using g fit assms(2) by (simp add: good_def sum_update set_update)
  then have "solid q (ps[i := t])"
    using q usdc.lane_touched [OF _ g assms(2) 1(2,3)] amba.lane_touched [OF _ g assms(2) 1(2,3)] by (simp add: solid_def)
  with settled acc show ?thesis by blast
qed

text \<open>A settled position and the pool change together.\<close>

lemma solid_change:
  assumes "solid q ps" "i < length ps" "settled_at q (ps ! i)" "settled_at q t" "same_epochs q q'"
    "sp_usdc_acc q' = sp_usdc_acc q" "reward_acc q' = reward_acc q" "sp_usdc_distributed q' = sp_usdc_distributed q"
    "streamed q' = streamed q" "no_house q'" "sp_staked q' \<le> sp_shares q'" "sp_shares q' < 2 ^ 64"
    "sk_index t = sk_index (ps ! i)" "sk_shares t < 2 ^ 64" "sp_shares q' + sk_shares (ps ! i) = sp_shares q + sk_shares t"
    "sp_usdc_paid q' + sk_usdc_pending t = sp_usdc_paid q + sk_usdc_pending (ps ! i)"
    "stream_paid q' + sk_reward_pending t = stream_paid q + sk_reward_pending (ps ! i)"
  shows "solid q' (ps[i := t])"
proof -
  have "kept q'" using assms(1,5,11,12) by (simp add: solid_def good_def kept_def same_epochs_def)
  then have "good q' (ps[i := t])"
    using assms by (intro good_change [of q ps i q']) (auto simp: solid_def settled_at_def)
  moreover have "usdc.lane q' (ps[i := t])"
    using assms by (intro usdc.lane_change [of q ps i q']) (auto simp: solid_def settled_at_def usdc.A_def)
  moreover have "amba.lane q' (ps[i := t])"
    using assms by (intro amba.lane_change [of q ps i q']) (auto simp: solid_def settled_at_def amba.A_def)
  ultimately show ?thesis by (simp add: solid_def)
qed

lemma shares_for_ge:
  assumes "shares_for p received = Some n" "sp_staked p \<le> sp_shares p"
  shows "received \<le> n"
proof -
  have "n = received * (sp_shares p + 1) div (sp_staked p + 1)" using assms(1) by (auto simp: shares_for_def checked_simps)
  moreover have "received * (sp_staked p + 1) \<le> received * (sp_shares p + 1)" using assms(2) by simp
  ultimately show ?thesis by (simp add: less_eq_div_iff_mult_less_eq del: mult_Suc_right)
qed

lemma amba_of_left:
  assumes "n \<le> sp_shares p" "sp_staked p \<le> sp_shares p" "sp_shares p < 2 ^ 64" "sp_shares p \<noteq> 0"
  shows "sp_staked p - amba_of p n \<le> sp_shares p - n" "amba_of p n \<le> sp_staked p"
proof -
  let ?S = "sp_shares p" and ?K = "sp_staked p"
  have le: "n * ?K div ?S \<le> ?K" using assms(1,4) by (intro div_le_of_mult_le) (simp_all add: mult.commute)
  then have a: "amba_of p n = n * ?K div ?S" using assms by (simp add: amba_of_def cast_id)
  show "amba_of p n \<le> ?K" using le a by simp
  have "?K \<le> (?S - n) + n * ?K div ?S"
  proof -
    have "?K * ?S \<le> (?S - n) * ?S + n * ?K"
    proof -
      have "?K * ?S = ?K * (?S - n) + ?K * n" using assms(1) by (simp flip: distrib_left)
      also have "\<dots> \<le> ?S * (?S - n) + ?K * n" using assms(2) by simp
      finally show ?thesis by (simp add: mult.commute)
    qed
    then have "?K * ?S div ?S \<le> ((?S - n) * ?S + n * ?K) div ?S" by (rule div_le_mono)
    then show ?thesis using assms(4) by simp
  qed
  then show "?K - amba_of p n \<le> ?S - n" using a by simp
qed

lemma solid_kept: "solid p ps \<Longrightarrow> sp_staked p \<le> sp_shares p \<and> sp_shares p < 2 ^ 64 \<and> no_house p"
  by (simp add: solid_def good_def kept_def)

text \<open>An instruction that touches a position and then changes it with the pool.\<close>

lemma solid_after_touch:
  assumes "solid p ps" "i < length ps" "touch p (ps ! i) now = Some (m, t)"
    "settled_at m t \<Longrightarrow> settled_at m s" "same_epochs m q" "sp_usdc_acc q = sp_usdc_acc m" "reward_acc q = reward_acc m"
    "sp_usdc_distributed q = sp_usdc_distributed m" "streamed q = streamed m" "no_house m \<Longrightarrow> no_house q"
    "sp_staked m \<le> sp_shares m \<Longrightarrow> sp_shares m < 2 ^ 64 \<Longrightarrow> sp_staked q \<le> sp_shares q \<and> sp_shares q < 2 ^ 64"
    "sk_index s = sk_index t" "sk_shares t < 2 ^ 64 \<Longrightarrow> sk_shares s < 2 ^ 64"
    "sp_shares q + sk_shares t = sp_shares m + sk_shares s"
    "sp_usdc_paid q + sk_usdc_pending s = sp_usdc_paid m + sk_usdc_pending t"
    "stream_paid q + sk_reward_pending s = stream_paid m + sk_reward_pending t"
  shows "solid q (ps[i := s])"
proof -
  from solid_touch [OF assms(1-3)] have m: "solid m (ps[i := t])" "settled_at m t" by blast+
  have sh: "sk_shares t < 2 ^ 64" using m(1) assms(2) by (auto simp: solid_def good_def fits_def loose_def set_update)
  have "solid q (ps[i := t, i := s])"
    by (rule solid_change [OF m(1)]) (use solid_kept [OF m(1)] assms m(2) sh in simp_all)
  then show ?thesis by simp
qed

lemmas pool_eval = settled_at_def same_epochs_def reward_acc_def streamed_def stream_paid_def no_house_def

lemma step_staked:
  assumes "solid p ps" "i < length ps" "stake_received p (ps ! i) received now = Some (Inr (q, s))"
  shows "solid q (ps[i := s])"
proof -
  from assms(3) obtain p1 m t n where
    p1: "(if rolls_over p received then begin_epoch p now else Some p) = Some p1"
    and t: "touch p1 (ps ! i) now = Some (m, t)" and n: "shares_for m received = Some n"
    and q: "q = m\<lparr>sp_staked := sp_staked m + received, sp_shares := sp_shares m + n, sp_staked_in := sp_staked_in m + received\<rparr>"
    and s: "s = t\<lparr>sk_shares := sk_shares t + n, sk_staked_in := sk_staked_in t + received\<rparr>"
    and lim: "sp_shares m + n < 2 ^ 64" "sk_shares t + n < 2 ^ 64"
    by (auto simp: stake_received_def res_simps Let_def split: prod.splits)
  have p1: "solid p1 ps" using p1 assms(1) solid_begin_epoch by (auto split: if_splits)
  have "received \<le> n" if "sp_staked m \<le> sp_shares m" using shares_for_ge [OF n that] .
  then show ?thesis
    by (intro solid_after_touch [OF p1 assms(2) t]) (use lim in \<open>auto simp: q s pool_eval\<close>)
qed

lemma step_unstaking:
  assumes "solid p ps" "i < length ps" "start_unstaking p (ps ! i) shares now = Some (Inr (q, s))"
  shows "solid q (ps[i := s])"
proof -
  from assms(3) obtain m t a b where
    t: "touch p (ps ! i) now = Some (m, t)" and q: "q = m\<lparr>sp_unbonding := a\<rparr>" and s: "s = t\<lparr>sk_unbonding := b, sk_unbond_ts := now\<rparr>"
    by (auto simp: start_unstaking_def res_simps Let_def split: prod.splits)
  show ?thesis by (rule solid_after_touch [OF assms(1,2) t]) (simp_all add: q s pool_eval)
qed

lemma step_cancelled:
  assumes "solid p ps" "i < length ps" "cancel_unstaking p (ps ! i) now = Some (Inr (q, s))"
  shows "solid q (ps[i := s])"
proof -
  from assms(3) obtain m t a where
    t: "touch p (ps ! i) now = Some (m, t)" and q: "q = m\<lparr>sp_unbonding := a\<rparr>" and s: "s = t\<lparr>sk_unbonding := 0, sk_unbond_ts := 0\<rparr>"
    by (auto simp: cancel_unstaking_def res_simps Let_def split: prod.splits)
  show ?thesis by (rule solid_after_touch [OF assms(1,2) t]) (simp_all add: q s pool_eval)
qed

lemma unstake_shares_ok:
  assumes "unstake_shares p pos sender shares markets now = Some (Inr (q, s, amba))"
  obtains m t n where "touch p pos now = Some (m, t)" "amba = amba_of m n" "amba \<noteq> 0" "n \<noteq> 0" "n \<le> sp_shares m" "n \<le> sk_shares t"
    "n \<le> sk_unbonding t" "sender = sk_owner t \<or> n = sk_unbonding t" "unbond_ends t \<noteq> None" "the (unbond_ends t) \<le> now"
    "lending_markets m markets now = Some (Inr ())" "amba \<le> sp_staked m"
    "sp_allocated m = 0 \<or> (\<exists>c. capacity_of m (sp_staked m - amba) now = Some c \<and> sp_allocated m \<le> c)"
    "q = m\<lparr>sp_staked := sp_staked m - amba, sp_shares := sp_shares m - n, sp_unbonding := sp_unbonding m - n,
      sp_unstaked := sp_unstaked m + amba\<rparr>"
    "s = t\<lparr>sk_shares := sk_shares t - n, sk_unbonding := sk_unbonding t - n,
      sk_unbond_ts := (if sk_unbonding t = n then 0 else sk_unbond_ts t), sk_unstaked := sk_unstaked t + amba\<rparr>"
proof -
  from assms obtain m t where t: "touch p pos now = Some (m, t)" unfolding unstake_shares_def need_ok by (auto split: prod.splits)
  define n where "n = (if shares = U64_MAX then sk_unbonding t else shares)"
  note a = assms [unfolded unstake_shares_def t need_def Let_def, simplified, folded n_def, unfolded res_simps option_bind_eq_Some]
  show ?thesis
    by (rule that [of m t n]) (use a t in \<open>auto simp: res_simps checked_simps split: option.splits if_splits\<close>)
qed

lemma step_unstaked:
  assumes "solid p ps" "i < length ps" "unstake_shares p (ps ! i) sender shares markets now = Some (Inr (q, s, amba))"
  shows "solid q (ps[i := s])"
  using assms(3)
proof (rule unstake_shares_ok)
  fix m t n
  assume t: "touch p (ps ! i) now = Some (m, t)" and n: "amba = amba_of m n" "n \<noteq> 0" "n \<le> sp_shares m" "n \<le> sk_shares t"
    and q: "q = m\<lparr>sp_staked := sp_staked m - amba, sp_shares := sp_shares m - n, sp_unbonding := sp_unbonding m - n,
      sp_unstaked := sp_unstaked m + amba\<rparr>"
    and s: "s = t\<lparr>sk_shares := sk_shares t - n, sk_unbonding := sk_unbonding t - n,
      sk_unbond_ts := (if sk_unbonding t = n then 0 else sk_unbond_ts t), sk_unstaked := sk_unstaked t + amba\<rparr>"
  have "sp_staked m - amba \<le> sp_shares m - n" if "sp_staked m \<le> sp_shares m" "sp_shares m < 2 ^ 64"
    using amba_of_left(1) [OF n(3) that] n by simp
  then show "solid q (ps[i := s])"
    by (intro solid_after_touch [OF assms(1,2) t]) (use n in \<open>auto simp: q s pool_eval\<close>)
qed

lemma step_claimed:
  assumes "solid p ps" "i < length ps" "stake_claimed p (ps ! i) now = Some (Inr (q, s, amba, usdc))"
  shows "solid q (ps[i := s])"
proof -
  from assms(3) obtain m t where t: "touch p (ps ! i) now = Some (m, t)"
    unfolding stake_claimed_def need_ok by (auto split: prod.splits)
  note a = assms(3) [unfolded stake_claimed_def t need_def Let_def, simplified]
  show ?thesis
  proof (cases "sk_reward_pending t = 0")
    case True
    with a have "(q = m \<and> s = t \<and> sk_usdc_pending t = 0) \<or>
        (q = m\<lparr>sp_usdc_paid := sp_usdc_paid m + sk_usdc_pending t\<rparr> \<and>
         s = t\<lparr>sk_usdc_pending := 0, sk_usdc_paid := sk_usdc_paid t + sk_usdc_pending t\<rparr>)"
      by (auto simp: res_simps split: if_splits)
    then show ?thesis by (elim disjE conjE; intro solid_after_touch [OF assms(1,2) t]) (simp_all add: pool_eval)
  next
    case False
    from a False obtain r where r: "sp_rewards m = Some r"
      by (cases "sp_rewards m") (auto simp: andthen_def)
    let ?m = "m\<lparr>sp_rewards := Some (r\<lparr>rw_paid := rw_paid r + sk_reward_pending t\<rparr>)\<rparr>"
      and ?t = "t\<lparr>sk_reward_pending := 0, sk_reward_paid := sk_reward_paid t + sk_reward_pending t\<rparr>"
    from a False r have "(q = ?m \<and> s = ?t \<and> sk_usdc_pending t = 0) \<or>
        (q = ?m\<lparr>sp_usdc_paid := sp_usdc_paid m + sk_usdc_pending t\<rparr> \<and>
         s = ?t\<lparr>sk_usdc_pending := 0, sk_usdc_paid := sk_usdc_paid t + sk_usdc_pending t\<rparr>)"
      by (auto simp: res_simps split: if_splits)
    then show ?thesis by (elim disjE conjE; intro solid_after_touch [OF assms(1,2) t]) (simp_all add: pool_eval r)
  qed
qed

lemma solid_stream:
  assumes "solid p ps" "reward_acc q = reward_acc p" "streamed q = streamed p" "stream_paid q = stream_paid p"
    "no_house q" "q = p\<lparr>sp_rewards := sp_rewards q\<rparr>"
  shows "solid q ps"
proof -
  have e: "same_epochs p q" "sp_shares q = sp_shares p" "sp_staked q = sp_staked p" "sp_usdc_acc q = sp_usdc_acc p"
    "sp_usdc_distributed q = sp_usdc_distributed p" "sp_usdc_paid q = sp_usdc_paid p"
    by (subst assms(6), simp add: same_epochs_def)+
  have g: "good p ps" and lanes: "usdc.lane p ps" "amba.lane p ps" using assms(1) by (simp_all add: solid_def)
  have "kept q" using good_facts(1) [OF g] e by (simp add: kept_def same_epochs_def)
  then have "good q ps" by (rule good_frame [OF g e(1) _ assms(5) e(2)])
  moreover have "usdc.lane q ps" by (rule usdc.lane_frame [OF lanes(1) e(1)]) (simp_all add: usdc.A_def e)
  moreover have "amba.lane q ps" by (rule amba.lane_frame [OF lanes(2) e(1)]) (simp_all add: amba.A_def assms(2-4))
  ultimately show ?thesis by (simp add: solid_def)
qed

lemma step_stream:
  assumes "solid p ps" "stream_set p mint account decimals start_ts end_ts amount now = Some (Inr q)"
  shows "solid q ps"
proof (cases "sp_rewards p")
  case None
  then show ?thesis using assms(2)
    by (intro solid_stream [OF assms(1)]) (auto simp: stream_set_def res_simps pool_eval rewards_default_def)
next
  case (Some r)
  with assms(2) obtain r' where r: "accrue r (sp_shares p) now = Some r'"
    and q: "q = p\<lparr>sp_rewards := Some (r'\<lparr>rw_start_ts := start_ts, rw_end_ts := end_ts, rw_amount := amount\<rparr>)\<rparr>"
    by (auto simp: stream_set_def res_simps)
  then have a: "accrued p now = Some (p\<lparr>sp_rewards := Some r'\<rparr>)" using Some by (simp add: accrued_def)
  note m = solid_accrued [OF assms(1) a]
  show ?thesis by (rule solid_stream [OF m]) (use solid_kept [OF m] in \<open>simp_all add: q pool_eval\<close>)
qed

lemma step_withdrawn:
  assumes "solid p ps" "stream_withdraw p held amount now = Some (Inr (q, paid))"
  shows "solid q ps"
proof -
  from assms(2) obtain r r' where "sp_rewards p = Some r" "accrue r (sp_shares p) now = Some r'" "q = p\<lparr>sp_rewards := Some r'\<rparr>"
    by (auto simp: stream_withdraw_def res_simps checked_simps Let_def)
  then have "accrued p now = Some q" by (simp add: accrued_def)
  then show ?thesis by (rule solid_accrued [OF assms(1)])
qed

lemma post_other: "other_fields p (post p price now)"
  by (simp add: other_fields_def post_def Let_def same_epochs_def)

lemma configured_other: "other_fields p (params_apply m p)"
  by (simp add: other_fields_def params_apply_def same_epochs_def)

lemma lends_other: "credit_funded p h amount holding room now = Some (Inr (q, h')) \<Longrightarrow> other_fields p q"
  by (auto simp: credit_funded_def res_simps Let_def other_fields_def same_epochs_def)

lemma recovers_other: "recovery_paid p h gross = Some (Inr (q, h', usdc, amba)) \<Longrightarrow> other_fields p q"
  by (auto simp: recovery_paid_def res_simps Let_def other_fields_def same_epochs_def split: prod.splits)

lemma covered_other: "shortfall_covered p h now = Some (Inr (q, h', cover, amba)) \<Longrightarrow> other_fields p q"
  by (auto simp: shortfall_covered_def res_simps checked_simps Let_def other_fields_def same_epochs_def
      split: prod.splits if_splits)

lemma solid_release:
  assumes "solid p ps" "release_buffer p = Some q"
  shows "solid q ps"
  using assms(2)
proof (cases rule: release_buffer_cases)
  case 2
  have "other_fields p (p\<lparr>sp_buffer := buffer_target p\<rparr>)" by (simp add: other_fields_def same_epochs_def)
  with 2 assms(1) show ?thesis using solid_other solid_spread by blast
qed (use assms(1) in simp)

lemma solid_profit:
  assumes "solid p ps" "take_profit p amount = Some q"
  shows "solid q ps"
proof -
  from assms(2) obtain b n where "spread (p\<lparr>sp_buffer := b\<rparr>) n = Some q" by (auto simp: take_profit_def checked_simps Let_def)
  moreover have "other_fields p (p\<lparr>sp_buffer := b\<rparr>)" by (simp add: other_fields_def same_epochs_def)
  ultimately show ?thesis using assms(1) solid_other solid_spread by blast
qed

lemma step_unlends:
  assumes "solid p ps" "credit_defunded p h least amount now = Some (Inr (q, h'))"
  shows "solid q ps"
proof -
  from assms(2) obtain n where "release_buffer (p\<lparr>sp_allocated := sp_allocated p - n\<rparr>) = Some q"
    by (auto simp: credit_defunded_def res_simps Let_def)
  moreover have "other_fields p (p\<lparr>sp_allocated := sp_allocated p - n\<rparr>)" by (simp add: other_fields_def same_epochs_def)
  ultimately show ?thesis using assms(1) solid_other solid_release by blast
qed

lemma step_shared:
  assumes "solid p ps" "profit_shared p h free = Some (Inr (q, h', free', share))"
  shows "solid q ps"
proof -
  have "q = p \<or> (\<exists>n x. take_profit (p\<lparr>sp_profit_in := n\<rparr>) x = Some q)"
    using assms(2) by (auto simp: profit_shared_def res_simps Let_def split: option.splits if_splits)
  moreover have "other_fields p (p\<lparr>sp_profit_in := n\<rparr>)" for n by (simp add: other_fields_def same_epochs_def)
  ultimately show ?thesis using assms(1) solid_other solid_profit by blast
qed

lemma step_settles:
  assumes "solid p ps" "credit_settles p h vt now vault_held usdc_held = Some (Inr (q, h', free', share, cover, amba))"
  shows "solid q ps"
proof -
  let ?free = "map_option tr_free vt"
  from assms(2) obtain h0 z where h0: "credit_clock h now = Some h0" and z:
    "(if h_debt h0 = 0
      then andthen (profit_shared p h0 ?free) (\<lambda>(p, h, free, share). Some (Inr (p, h, free, share, 0, 0)))
      else andthen (shortfall_covered p h0 now) (\<lambda>(p, h, cover, amba). Some (Inr (p, h, ?free, 0, cover, amba))))
      = Some (Inr z)"
    and rest: "(case z of (p, h, free, share, cover, amba) \<Rightarrow>
      let p = p\<lparr>sp_allocated := sp_allocated p - h_credit_limit h\<rparr>;
         p = (if h_credit_flags h AND CREDIT_COUNTED \<noteq> 0 then p\<lparr>sp_credit_markets := sp_credit_markets p - 1\<rparr> else p);
         h = h\<lparr>h_credit_limit := 0,
           h_credit_flags := (h_credit_flags h AND (255 - CREDIT_COUNTED)) OR CREDIT_SETTLED\<rparr> in
      need Overflow (release_buffer p) (\<lambda>p.
        ensure Custody (h_custody h \<le> vault_held) (
        andthen (add_u64 (sp_buffer p) (usdc_owed p)) (\<lambda>promised.
        ensure Custody (promised \<le> usdc_held) (
        Some (Inr (p, h, free, share, cover, amba)))))))
      = Some (Inr (q, h', free', share, cover, amba))"
    unfolding credit_settles_def Let_def [of "map_option tr_free vt"] ensure_ok need_ok andthen_ok by blast
  obtain p1 h1 f1 s1 c1 a1 where z1: "z = (p1, h1, f1, s1, c1, a1)" by (metis prod_cases6)
  have "(\<exists>x. profit_shared p h0 ?free = Some (Inr (p1, h1, f1, x))) \<or> (\<exists>x y. shortfall_covered p h0 now = Some (Inr (p1, h1, x, y)))"
    using z unfolding z1 by (auto simp: res_simps split: if_splits prod.splits)
  then have "solid p1 ps" using step_shared [OF assms(1)] covered_other solid_other [OF assms(1)] by blast
  moreover obtain p3 where "release_buffer p3 = Some q" "other_fields p1 p3"
    using rest unfolding z1 by (auto simp: res_simps Let_def other_fields_def same_epochs_def split: if_splits)
  ultimately show ?thesis using solid_other solid_release by blast
qed

lemma step_opened:
  assumes "solid p ps"
  shows "solid p (ps @ [new_position p bump pool owner])"
proof -
  let ?s = "new_position p bump pool owner"
  have g: "good p ps" and lanes: "usdc.lane p ps" "amba.lane p ps" using assms by (simp_all add: solid_def)
  have f: "sk_epoch ?s = sp_epoch p" "sk_index ?s = sp_share_index p" "sk_shares ?s = 0" "sk_usdc_pending ?s = 0"
    "sk_reward_pending ?s = 0" "sk_usdc_snapshot ?s = 0" "sk_reward_snapshot ?s = 0"
    by (simp_all add: new_position_def stake_position_default_def)
  have "loose p ?s" using good_facts(1) [OF g] f by (simp add: loose_def kept_def from_index_def share_index_of_def)
  then have "fits p ?s" by (rule loose_current [OF _ f(1)])
  then have "good p (ps @ [?s])" using g f by (simp add: good_def worth_current)
  moreover have "usdc.lane p (ps @ [?s])"
    using lanes(1) f by (simp add: usdc.lane_def usdc.covered_def usdc.snapped_def usdc.D_eq end_of_def)
  moreover have "amba.lane p (ps @ [?s])"
    using lanes(2) f by (simp add: amba.lane_def amba.covered_def amba.snapped_def amba.D_eq end_of_def)
  ultimately show ?thesis by (simp add: solid_def)
qed

lemma solid_step: "pool_step st st' \<Longrightarrow> solid (fst st) (snd st) \<Longrightarrow> solid (fst st') (snd st')"
  by (induction rule: pool_step.induct; unfold fst_conv snd_conv)
    (blast intro: step_opened step_staked step_unstaking step_cancelled step_unstaked step_claimed step_stream
      step_withdrawn step_unlends step_settles solid_other post_other configured_other lends_other recovers_other)+

lemma solid_new: "solid (new_stake_pool bump decimals vault operator mint amba usdc quote_mint now m) []"
proof -
  let ?p = "new_stake_pool bump decimals vault operator mint amba usdc quote_mint now m"
  have f: "sp_rewards ?p = None" "sp_usdc_acc ?p = 0" "sp_epoch_ends ?p = replicate EPOCH_ENDS (0, 0)"
    "sp_epoch_rates ?p = replicate EPOCH_ENDS (0, 0)" "sp_shares ?p = 0" "sp_staked ?p = 0" "sp_wipe_epoch ?p = 0"
    "sp_share_index ?p = 0" "sp_usdc_paid ?p = 0" "sp_usdc_distributed ?p = 0"
    by (simp_all add: new_stake_pool_def params_apply_def stake_pool_default_def)
  have "in_order 0 (\<lambda>i. snd (replicate EPOCH_ENDS (0, 0 :: nat) ! i))" "in_order 0 (\<lambda>i. fst (replicate EPOCH_ENDS (0 :: nat, 0) ! i))"
    by (simp_all add: in_order_def)
  then show ?thesis
    by (simp add: solid_def good_def kept_def no_house_def usdc.lane_def amba.lane_def usdc.covered_def amba.covered_def
      usdc.A_def amba.A_def usdc.E_def [abs_def] amba.E_def [abs_def] reward_acc_def streamed_def stream_paid_def f)
qed

lemma solid_reachable: "pool_reachable st \<Longrightarrow> solid (fst st) (snd st)"
  by (induction rule: pool_reachable.induct) (simp_all add: solid_new solid_step)

subsection \<open>Solvency\<close>

lemma pending_le:
  assumes "amba.lane p ps" "usdc.lane p ps" "s \<in> set ps"
  shows "real (sk_usdc_pending s * USDC_SCALE) \<le> usdc.D p s" "real (sk_reward_pending s * REWARD_SCALE) \<le> amba.D p s"
proof -
  have "0 \<le> flows p (usdc.E p) (usdc.A p) g (real (sk_shares s)) (real (sk_usdc_snapshot s))"
    if "g = sp_epoch p - sk_epoch s" "g \<le> EPOCH_ENDS" for g
    using that assms(2,3) by (intro flows_nonneg) (auto simp: usdc.lane_def usdc.snapped_def Let_def)
  then show "real (sk_usdc_pending s * USDC_SCALE) \<le> usdc.D p s" by (simp add: usdc.D_eq Let_def)
  have "0 \<le> flows p (amba.E p) (amba.A p) g (real (sk_shares s)) (real (sk_reward_snapshot s))"
    if "g = sp_epoch p - sk_epoch s" "g \<le> EPOCH_ENDS" for g
    using that assms(1,3) by (intro flows_nonneg) (auto simp: amba.lane_def amba.snapped_def Let_def)
  then show "real (sk_reward_pending s * REWARD_SCALE) \<le> amba.D p s" by (simp add: amba.D_eq Let_def)
qed

lemma scaled_total:
  assumes "\<And>s. s \<in> set ps \<Longrightarrow> real (f s * c) \<le> d s" "(\<Sum>s\<leftarrow>ps. d s) + real (paid * c) \<le> real (tot * c)" "0 < (c::nat)"
  shows "(\<Sum>s\<leftarrow>ps. f s) + paid \<le> tot"
proof -
  have "real ((\<Sum>s\<leftarrow>ps. f s) * c) = (\<Sum>s\<leftarrow>ps. real (f s * c))" by (induction ps) (simp_all add: distrib_right)
  also have "\<dots> \<le> (\<Sum>s\<leftarrow>ps. d s)" by (intro sum_list_mono assms(1))
  finally have "real (((\<Sum>s\<leftarrow>ps. f s) + paid) * c) \<le> real (tot * c)" using assms(2) by (simp add: distrib_right)
  then show ?thesis using assms(3) by (simp only: of_nat_le_iff mult_le_cancel2)
qed

lemma sum_real: "(\<Sum>x\<leftarrow>xs. real (f x)) = real (\<Sum>x\<leftarrow>xs. f x)"
  by (induction xs) simp_all

lemma current_shares:
  "(\<Sum>s\<leftarrow>filter (\<lambda>s. sk_epoch s = sp_epoch p) ps. real (sk_shares s)) \<le> (\<Sum>s\<leftarrow>ps. worth p s)"
  by (induction ps) (auto simp: worth_current worth_nonneg add_increasing)

text \<open>
  C38. A stake pool is always solvent. Whatever sequence of stakes, unstakes, claims, stream changes, lending,
  settlements and slashings it went through, over any number of share epochs: the shares of the positions of its
  epoch are at most its shares, it never holds more atoms than shares, and what its positions have pending and were
  paid, of the stakers' USDC and of the AMBA stream, is at most what was distributed. So every pending amount can be
  paid, by whoever comes last.
\<close>

theorem stake_pool_is_solvent:
  assumes "pool_reachable (p, ps)"
  shows "(\<Sum>s\<leftarrow>filter (\<lambda>s. sk_epoch s = sp_epoch p) ps. sk_shares s) \<le> sp_shares p \<and> sp_staked p \<le> sp_shares p \<and>
    (\<Sum>s\<leftarrow>ps. sk_usdc_pending s) + sp_usdc_paid p \<le> sp_usdc_distributed p \<and>
    (\<Sum>s\<leftarrow>ps. sk_reward_pending s) + stream_paid p \<le> streamed p"
proof -
  have s: "solid p ps" using solid_reachable [OF assms] by simp
  then have lanes: "amba.lane p ps" "usdc.lane p ps" and g: "good p ps" by (simp_all add: solid_def)
  have "(\<Sum>s\<leftarrow>filter (\<lambda>s. sk_epoch s = sp_epoch p) ps. real (sk_shares s)) \<le> real (sp_shares p)"
    using current_shares [of p ps] g by (simp add: good_def)
  then have "(\<Sum>s\<leftarrow>filter (\<lambda>s. sk_epoch s = sp_epoch p) ps. sk_shares s) \<le> sp_shares p"
    by (simp only: sum_real of_nat_le_iff)
  moreover have "(\<Sum>s\<leftarrow>ps. sk_usdc_pending s) + sp_usdc_paid p \<le> sp_usdc_distributed p"
    using lanes(2) by (intro scaled_total [OF pending_le(1) [OF lanes] _ usdc.scale_pos]) (simp_all add: usdc.lane_def usdc.covered_def)
  moreover have "(\<Sum>s\<leftarrow>ps. sk_reward_pending s) + stream_paid p \<le> streamed p"
    using lanes(1) by (intro scaled_total [OF pending_le(2) [OF lanes] _ amba.scale_pos]) (simp_all add: amba.lane_def amba.covered_def)
  ultimately show ?thesis using solid_kept [OF s] by simp
qed

definition first_params :: stake_params where
  "first_params = \<lparr>sm_haircut_bps = 5000, sm_profit_bps = 5000, sm_buffer_bps = 500, sm_twap_window = 3600, sm_expiry_window = 86400\<rparr>"

definition first_pool :: stake_pool where
  "first_pool = new_stake_pool 255 9 [1] [2] [3] [4] [5] [6] 1000 first_params"

lemma first_stake:
  "stake_received first_pool (new_position first_pool 254 [7] [8]) 500 2000 =
     Some (Inr (first_pool\<lparr>sp_staked := 500, sp_shares := 500, sp_staked_in := 500\<rparr>,
       (new_position first_pool 254 [7] [8])\<lparr>sk_shares := 500, sk_staked_in := 500\<rparr>))"
  by (simp add: stake_received_def rolls_over_def shares_for_def touch_def touch_loop.simps position_settle_def need_def
      ensure_def andthen_def add_u64_def checked_def checked_sub_def checked_mul_def checked_add_def first_pool_def
      new_stake_pool_def params_apply_def first_params_def stake_pool_default_def new_position_def stake_position_default_def)

theorem stake_pool_is_solvent_witness:
  "\<exists>p s. pool_reachable (p, [s]) \<and> sk_shares s = 500 \<and> sk_epoch s = sp_epoch p \<and>
     (\<Sum>s\<leftarrow>filter (\<lambda>s. sk_epoch s = sp_epoch p) [s]. sk_shares s) \<le> sp_shares p"
proof -
  let ?p = "first_pool\<lparr>sp_staked := 500, sp_shares := 500, sp_staked_in := 500\<rparr>"
    and ?s = "(new_position first_pool 254 [7] [8])\<lparr>sk_shares := 500, sk_staked_in := 500\<rparr>"
  have "pool_reachable (first_pool, [])" unfolding first_pool_def by (rule pool_reachable.created)
  from pool_reachable.stepped [OF this pool_step.opened]
  have o: "pool_reachable (first_pool, [new_position first_pool 254 [7] [8]])" by simp
  have "pool_step (first_pool, [new_position first_pool 254 [7] [8]]) (?p, [new_position first_pool 254 [7] [8]][0 := ?s])"
    by (rule pool_step.staked [of 0 _ _ 500 2000]) (simp_all add: first_stake)
  then have r: "pool_reachable (?p, [?s])" using pool_reachable.stepped [OF o] by simp
  have "sk_shares ?s = 500" "sk_epoch ?s = sp_epoch ?p" by (simp_all add: new_position_def)
  with r stake_pool_is_solvent [OF r] show ?thesis by blast
qed

subsection \<open>Unstaking and recovery\<close>

text \<open>
  C39. An unstake takes nothing from the stakers who stay: it pays at most the pro-rata part of what is staked, so
  the atoms behind each remaining share never fall; it pays only shares whose timer has run out, all of them unless
  the owner sends it, only with every market holding the pool's credit at hand and none near its expiry, and what
  stays still backs the credit lent.
\<close>

theorem unstaking_leaves_the_rest_whole:
  assumes "pool_reachable (p, ps)" "i < length ps" "unstake_shares p (ps ! i) sender shares markets now = Some (Inr (q, s, amba))"
  shows "\<exists>m t n. touch p (ps ! i) now = Some (m, t) \<and> 0 < n \<and> n \<le> sk_unbonding t \<and> sk_shares s + n = sk_shares t \<and>
    amba * sp_shares m \<le> n * sp_staked m \<and> sp_staked m * sp_shares q \<le> sp_staked q * sp_shares m \<and>
    (sender \<noteq> sk_owner t \<longrightarrow> n = sk_unbonding t) \<and> (\<exists>ends. unbond_ends t = Some ends \<and> ends \<le> now) \<and>
    length markets = sp_credit_markets m \<and>
    (0 < sp_allocated q \<longrightarrow> (\<exists>c. capacity_of m (sp_staked q) now = Some c \<and> sp_allocated q \<le> c))"
  using assms(3)
proof (rule unstake_shares_ok)
  fix m t n
  assume t: "touch p (ps ! i) now = Some (m, t)" and n: "amba = amba_of m n" "n \<noteq> 0" "n \<le> sp_shares m" "n \<le> sk_shares t"
    "n \<le> sk_unbonding t" "sender = sk_owner t \<or> n = sk_unbonding t" "unbond_ends t \<noteq> None" "the (unbond_ends t) \<le> now"
    and lm: "lending_markets m markets now = Some (Inr ())"
    and cap: "sp_allocated m = 0 \<or> (\<exists>c. capacity_of m (sp_staked m - amba) now = Some c \<and> sp_allocated m \<le> c)"
    and q: "q = m\<lparr>sp_staked := sp_staked m - amba, sp_shares := sp_shares m - n, sp_unbonding := sp_unbonding m - n,
      sp_unstaked := sp_unstaked m + amba\<rparr>"
    and s: "s = t\<lparr>sk_shares := sk_shares t - n, sk_unbonding := sk_unbonding t - n,
      sk_unbond_ts := (if sk_unbonding t = n then 0 else sk_unbond_ts t), sk_unstaked := sk_unstaked t + amba\<rparr>"
  have "solid p ps" using solid_reachable [OF assms(1)] by simp
  then have "solid m (ps[i := t])" using solid_touch [OF _ assms(2) t] by blast
  note k = solid_kept [OF this]
  have le: "amba * sp_shares m \<le> n * sp_staked m"
    unfolding n(1) amba_of_def by (auto simp: cast_def intro: order_trans [OF mult_le_mono1 [OF mod_less_eq_dividend]])
  have "amba \<le> sp_staked m" using amba_of_left(2) [OF n(3)] k n by simp
  then have "sp_staked m * (sp_shares m - n) \<le> (sp_staked m - amba) * sp_shares m"
    using le n(3) by (simp add: diff_mult_distrib diff_mult_distrib2 mult.commute)
  moreover have "length markets = sp_credit_markets m" using lm by (simp add: lending_markets_def res_simps)
  ultimately show ?thesis using t n le cap by (intro exI [of _ m] exI [of _ t] exI [of _ n]) (auto simp: q s)
qed

definition staked_pool :: stake_pool where
  "staked_pool = first_pool\<lparr>sp_staked := 500, sp_shares := 500, sp_staked_in := 500\<rparr>"

definition staked_position :: stake_position where
  "staked_position = (new_position first_pool 254 [7] [8])\<lparr>sk_shares := 500, sk_staked_in := 500\<rparr>"

lemmas stake_eval = need_def ensure_def andthen_def add_u64_def checked_def checked_sub_def checked_mul_def checked_add_def
  touch_def touch_loop.simps position_settle_def Let_def cast_def staked_pool_def staked_position_def first_pool_def
  new_stake_pool_def params_apply_def first_params_def stake_pool_default_def new_position_def stake_position_default_def

lemma later_unstake:
  "start_unstaking staked_pool staked_position 200 3000 = Some (Inr (staked_pool\<lparr>sp_unbonding := 200\<rparr>,
     staked_position\<lparr>sk_unbonding := 200, sk_unbond_ts := 3000\<rparr>))"
  "unstake_shares (staked_pool\<lparr>sp_unbonding := 200\<rparr>) (staked_position\<lparr>sk_unbonding := 200, sk_unbond_ts := 3000\<rparr>) [9] 200 [] 700000 =
     Some (Inr (staked_pool\<lparr>sp_staked := 300, sp_shares := 300, sp_unbonding := 0, sp_unstaked := 200\<rparr>,
       staked_position\<lparr>sk_shares := 300, sk_unbonding := 0, sk_unbond_ts := 0, sk_unstaked := 200\<rparr>, 200))"
  by (simp_all add: start_unstaking_def unstake_shares_def lending_markets_def counted_def amba_of_def unbond_ends_def
      saturate_def UNBOND_SECS_def stake_eval)

theorem unstaking_leaves_the_rest_whole_witness:
  "\<exists>p ps q s amba. pool_reachable (p, ps) \<and> unstake_shares p (ps ! 0) [9] 200 [] 700000 = Some (Inr (q, s, amba)) \<and>
     (\<exists>m t n. touch p (ps ! 0) 700000 = Some (m, t) \<and> sp_staked m * sp_shares q \<le> sp_staked q * sp_shares m)"
proof -
  let ?p = "staked_pool\<lparr>sp_unbonding := 200\<rparr>" and ?s = "staked_position\<lparr>sk_unbonding := 200, sk_unbond_ts := 3000\<rparr>"
  have "pool_reachable (first_pool, [])" unfolding first_pool_def by (rule pool_reachable.created)
  from pool_reachable.stepped [OF this pool_step.opened]
  have o: "pool_reachable (first_pool, [new_position first_pool 254 [7] [8]])" by simp
  have "pool_step (first_pool, [new_position first_pool 254 [7] [8]])
      (staked_pool, [new_position first_pool 254 [7] [8]][0 := staked_position])"
    by (rule pool_step.staked [of 0 _ _ 500 2000]) (simp_all add: first_stake staked_pool_def staked_position_def)
  then have "pool_reachable (staked_pool, [staked_position])" using pool_reachable.stepped [OF o] by simp
  moreover have "pool_step (staked_pool, [staked_position]) (?p, [staked_position][0 := ?s])"
    by (rule pool_step.unstaking [of 0 _ _ 200 3000]) (simp_all add: later_unstake(1))
  ultimately have r: "pool_reachable (?p, [?s])" using pool_reachable.stepped by fastforce
  have at: "[?s] ! 0 = ?s" "(0::nat) < length [?s]" by simp_all
  from unstaking_leaves_the_rest_whole [OF r at(2), unfolded at(1), OF later_unstake(2)] r later_unstake(2)
  show ?thesis using at(1) by metis
qed

text \<open>The winners of a market one after another, with what they are paid together.\<close>

fun recovery_all :: "stake_pool \<Rightarrow> header \<Rightarrow> u64 list \<Rightarrow> (stake_pool \<times> header \<times> u64 \<times> u64) res" where
  "recovery_all p h [] = Some (Inr (p, h, 0, 0))"
| "recovery_all p h (gross # rest) =
     andthen (recovery_paid p h gross) (\<lambda>(p, h, usdc, amba).
     andthen (recovery_all p h rest) (\<lambda>(p, h, usdc', amba'). Some (Inr (p, h, usdc + usdc', amba + amba'))))"

lemma ceil_part_le: "(s::nat) \<le> w \<Longrightarrow> 0 < w \<Longrightarrow> div_ceil (g * s) w \<le> g"
  by (simp add: div_ceil_le_iff)

lemma recovery_parts_eq:
  assumes "h_shortfall h \<le> h_winners h" "0 < h_winners h" "g < 2 ^ 64" "h_recovery_amba h < 2 ^ 64" "g \<le> h_winners h"
  shows "recovery_parts h left g = (min (div_ceil (g * h_shortfall h) (h_winners h)) (h_debt h),
    min (g * h_recovery_amba h div h_winners h) left)"
proof -
  let ?c = "div_ceil (g * h_shortfall h) (h_winners h)"
  have c: "?c \<le> g" by (rule ceil_part_le [OF assms(1,2)])
  have "g * h_recovery_amba h \<le> h_recovery_amba h * h_winners h" using assms(5) by (simp add: mult.commute)
  then have "g * h_recovery_amba h div h_winners h \<le> h_recovery_amba h" using assms(2) by (intro div_le_of_mult_le)
  then show ?thesis using c assms(3,4) by (simp add: recovery_parts_def Let_def saturate_id cast_id min_def)
qed

lemma recovery_all_totals:
  assumes "recovery_all p h gs = Some (Inr (q, h', usdc, amba))" "h_shortfall h \<le> h_winners h" "0 < h_winners h"
    "h_winners h < 2 ^ 64" "h_recovery_amba h < 2 ^ 64" "\<forall>g\<in>set gs. g \<le> h_winners h"
  shows "h_debt h' = h_debt h - (\<Sum>g\<leftarrow>gs. div_ceil (g * h_shortfall h) (h_winners h)) \<and>
    usdc + h_debt h = sum_list gs + h_debt h' \<and> h_backing h' + sum_list gs = h_backing h \<and>
    amba \<le> (\<Sum>g\<leftarrow>gs. g * h_recovery_amba h div h_winners h) \<and> sp_recovery_owed q + amba = sp_recovery_owed p"
  using assms
proof (induction gs arbitrary: p h usdc amba)
  case (Cons g gs)
  let ?c = "div_ceil (g * h_shortfall h) (h_winners h)"
  have g: "g < 2 ^ 64" "g \<le> h_winners h" using Cons.prems by auto
  note parts = recovery_parts_eq [OF Cons.prems(2,3) g(1) Cons.prems(5) g(2)]
  have c: "?c \<le> g" by (rule ceil_part_le [OF Cons.prems(2,3)])
  from Cons.prems(1) obtain p1 h1 u1 a1 u2 a2 where s: "recovery_paid p h g = Some (Inr (p1, h1, u1, a1))"
    "recovery_all p1 h1 gs = Some (Inr (q, h', u2, a2))" "usdc = u1 + u2" "amba = a1 + a2"
    by (auto simp: res_simps split: prod.splits)
  from s(1) have f: "h_debt h1 = h_debt h - min ?c (h_debt h)" "u1 = g - min ?c (h_debt h)" "h_backing h1 = h_backing h - g"
    "g \<le> h_backing h" "a1 = min (g * h_recovery_amba h div h_winners h) (sp_recovery_owed p)"
    "sp_recovery_owed p1 = sp_recovery_owed p - a1" "h_shortfall h1 = h_shortfall h" "h_winners h1 = h_winners h"
    "h_recovery_amba h1 = h_recovery_amba h"
    by (auto simp: recovery_paid_def parts res_simps checked_simps Let_def)
  define C where "C = (\<Sum>g\<leftarrow>gs. div_ceil (g * h_shortfall h) (h_winners h))"
  define R where "R = (\<Sum>g\<leftarrow>gs. g * h_recovery_amba h div h_winners h)"
  have ih: "h_debt h' = h_debt h1 - C" "u2 + h_debt h1 = sum_list gs + h_debt h'" "h_backing h' + sum_list gs = h_backing h1"
    "a2 \<le> R" "sp_recovery_owed q + a2 = sp_recovery_owed p1"
    unfolding C_def R_def using Cons.IH [OF s(2)] Cons.prems(2-6) f(7-9) by simp_all
  define m where "m = min ?c (h_debt h)"
  have m: "m \<le> ?c" "m \<le> h_debt h" "m = ?c \<or> m = h_debt h" by (auto simp: m_def)
  note f = f [folded m_def]
  have "h_debt h' = h_debt h - (?c + C)" using ih(1) f(1) m by linarith
  moreover have "usdc + h_debt h = g + sum_list gs + h_debt h'" using ih(2) f(1,2) m c s(3) by linarith
  moreover have "h_backing h' + (g + sum_list gs) = h_backing h" using ih(3) f(3,4) by linarith
  moreover have "amba \<le> g * h_recovery_amba h div h_winners h + R" using ih(4) f(5) s(4) by simp
  moreover have "sp_recovery_owed q + amba = sp_recovery_owed p" using ih(5) f(5,6) s(4) by simp
  ultimately show ?case by (simp add: C_def R_def)
qed simp

lemma sum_ceil_ge:
  assumes "0 < (w::nat)"
  shows "sum_list gs * s \<le> (\<Sum>g\<leftarrow>gs. div_ceil (g * s) w) * w"
proof (induction gs)
  case (Cons g gs)
  have "g * s \<le> div_ceil (g * s) w * w" using div_ceil_le_iff [OF assms, of "g * s" "div_ceil (g * s) w"] by simp
  with Cons show ?case by (simp add: distrib_right)
qed simp

lemma sum_floor_le: "(\<Sum>g\<leftarrow>gs. g * r div (w::nat)) * w \<le> sum_list gs * r"
proof (induction gs)
  case (Cons g gs)
  have "g * r div w * w \<le> g * r" by (rule div_times_less_eq_dividend)
  from add_mono [OF this Cons] show ?case by (simp only: list.map sum_list.Cons distrib_right)
qed simp

text \<open>
  C40. A shortfall is spread over the winners in full and never beyond it: once all of them, together owed the backing
  the shortfall was fixed against, are paid, no debt is left, they received in USDC exactly the backing less the
  shortfall, in AMBA at most what was set aside, and the backing is used up.
\<close>

theorem recovery_spreads_the_shortfall_in_full:
  assumes "recovery_all p h gs = Some (Inr (q, h', usdc, amba))" "sum_list gs = h_winners h" "h_backing h = h_winners h"
    "h_debt h = h_shortfall h" "h_shortfall h \<le> h_winners h" "0 < h_winners h" "h_winners h < 2 ^ 64" "h_recovery_amba h < 2 ^ 64"
  shows "h_debt h' = 0 \<and> usdc + h_shortfall h = h_winners h \<and> amba \<le> h_recovery_amba h \<and> h_backing h' = 0 \<and>
    sp_recovery_owed q + amba = sp_recovery_owed p"
proof -
  let ?c = "\<Sum>g\<leftarrow>gs. div_ceil (g * h_shortfall h) (h_winners h)" and ?a = "\<Sum>g\<leftarrow>gs. g * h_recovery_amba h div h_winners h"
  have each: "\<forall>g\<in>set gs. g \<le> h_winners h" using member_le_sum_list [of _ gs] assms(2) by auto
  note T = recovery_all_totals [OF assms(1,5-8) each]
  have "h_winners h * h_shortfall h \<le> ?c * h_winners h" using sum_ceil_ge [OF assms(6), of gs "h_shortfall h"] assms(2) by simp
  then have "h_shortfall h \<le> ?c" using assms(6) by (simp add: mult.commute)
  moreover have "?a * h_winners h \<le> h_recovery_amba h * h_winners h"
    using sum_floor_le [where gs = gs and r = "h_recovery_amba h" and w = "h_winners h"] assms(2) by (simp add: mult.commute)
  then have "?a \<le> h_recovery_amba h" using assms(6) by simp
  ultimately show ?thesis using T assms(2-4) by auto
qed

definition short_market :: header where
  "short_market = sample_header\<lparr>h_shortfall := 7, h_debt := 7, h_winners := 20, h_backing := 20, h_recovery_amba := 90,
     h_status := STATUS_SETTLED, h_credit_flags := CREDIT_SHORTFALL, h_credit_owner := sp_vault staked_pool\<rparr>"

theorem recovery_spreads_the_shortfall_in_full_witness:
  "\<exists>q h' usdc amba. recovery_all (staked_pool\<lparr>sp_recovery_owed := 90\<rparr>) short_market [3, 11, 6] = Some (Inr (q, h', usdc, amba)) \<and>
     h_debt h' = 0 \<and> usdc + 7 = 20 \<and> amba \<le> 90"
proof -
  obtain q h' usdc amba where
    r: "recovery_all (staked_pool\<lparr>sp_recovery_owed := 90\<rparr>) short_market [3, 11, 6] = Some (Inr (q, h', usdc, amba))"
    by (simp add: recovery_paid_def recovery_parts_def short_market_def sample_header_def div_ceil_def saturate_def cast_def
      ensure_def STATUS_SETTLED_def STATUS_OPEN_def CREDIT_SHORTFALL_def need_def andthen_def add_u64_def checked_def checked_sub_def checked_add_def)
  have "h_winners short_market = 20" "h_backing short_market = 20" "h_debt short_market = 7" "h_shortfall short_market = 7"
    "h_recovery_amba short_market = 90"
    by (simp_all add: short_market_def)
  then show ?thesis using recovery_spreads_the_shortfall_in_full [OF r] r by simp
qed

end
