(* ===== verification/Market_Ledger.thy ===== *)
theory Market_Ledger
  imports Results Credit "HOL-Library.Product_Lexorder"
begin

text \<open>
  The market of \<open>programs/futures/src/processor.rs\<close> as its instructions see it: the header and the records of the
  arenas, which \<open>Market_Records\<close> lays out in the account's bytes. Cash moves between the buckets of the traders,
  the totals of the header and the backing; \<open>store\<close> repays the credit owner's debt and audits the market before
  an instruction may keep what it did.

  An index past its arena reads nothing here (\<open>None\<close>), where the code would read the bytes of the next arena; no
  record of a well-formed market names such an index.
\<close>

record market =
  m_head :: header
  m_traders :: "trader list"
  m_orders :: "order list"
  m_makers :: "maker list"
  m_steps :: "step list list"
  m_claims :: "claim list"
  m_approval :: "u64 option"

definition NO_CLAIM :: u32 where "NO_CLAIM = 4294967295"
definition ORDER_CLOSE :: u8 where "ORDER_CLOSE = 1"

definition closes :: "order \<Rightarrow> bool" where
  "closes r \<longleftrightarrow> o_flags r AND ORDER_CLOSE \<noteq> 0"

definition trader_default :: trader where
  "trader_default = \<lparr>tr_owner = default_key, tr_free = 0, tr_reserved = 0, tr_claims = 0, tr_orders = 0, tr_maker = 0,
     tr_paid_out = 0\<rparr>"

definition order_default :: order where
  "order_default = \<lparr>o_seq = 0, o_trader = 0, o_side = 0, o_flags = 0, o_lo = 0, o_hi = 0, o_lots = 0, o_price = 0,
     o_escrow_per_lot = 0, o_claim = 0, o_placed_lots = 0, o_placed_ts = 0\<rparr>"

definition claim_default :: claim where
  "claim_default = \<lparr>c_lots = 0, c_seq = 0, c_trader = 0, c_side = 0, c_lo = 0, c_hi = 0, c_cost = 0, c_reserved = 0,
     c_opened_ts = 0, c_held = False\<rparr>"

definition maker_default :: maker where
  "maker_default = \<lparr>mk_seq = 0, mk_trader = 0, mk_used = False, mk_lo = 0, mk_hi = 0, mk_escrow = 0,
     mk_bid_spread = 0, mk_ask_spread = 0, mk_quoted_ts = 0, mk_tiers = \<lparr>t_count = 0, t_ratio = 0, t_spread = 0\<rparr>,
     mk_bid_total = 0, mk_ask_total = 0\<rparr>"

abbreviation trader_of :: "market \<Rightarrow> u16 \<Rightarrow> trader option" where
  "trader_of m i \<equiv> slot (m_traders m) i"

definition put_trader :: "market \<Rightarrow> u16 \<Rightarrow> trader \<Rightarrow> market" where
  "put_trader m i t = m\<lparr>m_traders := (m_traders m)[i := t]\<rparr>"

definition put_order :: "market \<Rightarrow> u16 \<Rightarrow> order \<Rightarrow> market" where
  "put_order m i r = m\<lparr>m_orders := (m_orders m)[i := r]\<rparr>"

definition put_claim :: "market \<Rightarrow> u32 \<Rightarrow> claim \<Rightarrow> market" where
  "put_claim m i c = m\<lparr>m_claims := (m_claims m)[i := c]\<rparr>"

definition put_maker :: "market \<Rightarrow> u8 \<Rightarrow> maker \<Rightarrow> market" where
  "put_maker m i k = m\<lparr>m_makers := (m_makers m)[i := k]\<rparr>"

definition put_steps :: "market \<Rightarrow> u8 \<Rightarrow> step list \<Rightarrow> market" where
  "put_steps m i ss = m\<lparr>m_steps := (m_steps m)[i := ss]\<rparr>"

subsection \<open>Cash\<close>

definition credit_free :: "market \<Rightarrow> u16 \<Rightarrow> u64 \<Rightarrow> market res" where
  "credit_free m i amount =
     Option.bind (trader_of m i) (\<lambda>t.
     andthen (add_u64 (tr_free t) amount) (\<lambda>free.
     andthen (add_u64 (h_total_free (m_head m)) amount) (\<lambda>total_free.
     Some (Inr (put_trader (m\<lparr>m_head := (m_head m)\<lparr>h_total_free := total_free\<rparr>\<rparr>) i (t\<lparr>tr_free := free\<rparr>))))))"

definition debit_free :: "market \<Rightarrow> u16 \<Rightarrow> u64 \<Rightarrow> market res" where
  "debit_free m i amount =
     Option.bind (trader_of m i) (\<lambda>t.
     andthen (sub_u64 (tr_free t) amount) (\<lambda>free.
     andthen (sub_u64 (h_total_free (m_head m)) amount) (\<lambda>total_free.
     Some (Inr (put_trader (m\<lparr>m_head := (m_head m)\<lparr>h_total_free := total_free\<rparr>\<rparr>) i (t\<lparr>tr_free := free\<rparr>))))))"

definition reserve :: "market \<Rightarrow> u16 \<Rightarrow> u64 \<Rightarrow> market res" where
  "reserve m i amount =
     Option.bind (trader_of m i) (\<lambda>t.
     andthen (sub_u64 (tr_free t) amount) (\<lambda>free.
     andthen (add_u64 (tr_reserved t) amount) (\<lambda>reserved.
     andthen (sub_u64 (h_total_free (m_head m)) amount) (\<lambda>total_free.
     andthen (add_u64 (h_total_reserved (m_head m)) amount) (\<lambda>total_reserved.
     Some (Inr (put_trader
       (m\<lparr>m_head := (m_head m)\<lparr>h_total_free := total_free, h_total_reserved := total_reserved\<rparr>\<rparr>) i
       (t\<lparr>tr_free := free, tr_reserved := reserved\<rparr>))))))))"

definition release :: "market \<Rightarrow> u16 \<Rightarrow> u64 \<Rightarrow> market res" where
  "release m i amount =
     Option.bind (trader_of m i) (\<lambda>t.
     andthen (sub_or Insolvent (tr_reserved t) amount) (\<lambda>reserved.
     andthen (add_u64 (tr_free t) amount) (\<lambda>free.
     andthen (sub_or Insolvent (h_total_reserved (m_head m)) amount) (\<lambda>total_reserved.
     andthen (add_u64 (h_total_free (m_head m)) amount) (\<lambda>total_free.
     Some (Inr (put_trader
       (m\<lparr>m_head := (m_head m)\<lparr>h_total_free := total_free, h_total_reserved := total_reserved\<rparr>\<rparr>) i
       (t\<lparr>tr_free := free, tr_reserved := reserved\<rparr>))))))))"

definition reserved_to_backing :: "market \<Rightarrow> u16 \<Rightarrow> u64 \<Rightarrow> market res" where
  "reserved_to_backing m i amount =
     Option.bind (trader_of m i) (\<lambda>t.
     andthen (sub_or Insolvent (tr_reserved t) amount) (\<lambda>reserved.
     andthen (sub_or Insolvent (h_total_reserved (m_head m)) amount) (\<lambda>total_reserved.
     andthen (add_u64 (h_backing (m_head m)) amount) (\<lambda>backing.
     Some (Inr (put_trader
       (m\<lparr>m_head := (m_head m)\<lparr>h_total_reserved := total_reserved, h_backing := backing\<rparr>\<rparr>) i
       (t\<lparr>tr_reserved := reserved\<rparr>)))))))"

definition backing_to_free :: "market \<Rightarrow> u16 \<Rightarrow> u64 \<Rightarrow> market res" where
  "backing_to_free m i amount =
     andthen (sub_or Insolvent (h_backing (m_head m)) amount) (\<lambda>backing.
     credit_free (m\<lparr>m_head := (m_head m)\<lparr>h_backing := backing\<rparr>\<rparr>) i amount)"

definition next_seq :: "market \<Rightarrow> (market \<times> u64) res" where
  "next_seq m =
     andthen (add_u64 (h_next_seq (m_head m)) 1) (\<lambda>seq.
     Some (Inr (m\<lparr>m_head := (m_head m)\<lparr>h_next_seq := seq\<rparr>\<rparr>, seq)))"

subsection \<open>Traders\<close>

definition find_trader :: "market \<Rightarrow> pubkey \<Rightarrow> u16 option" where
  "find_trader m owner = find (\<lambda>i. tr_owner (m_traders m ! i) = owner) [0..<length (m_traders m)]"

definition usable_slot :: "market \<Rightarrow> u16 \<Rightarrow> bool" where
  "usable_slot m i =
     (let t = m_traders m ! i; h = m_head m in
      (tr_owner t = default_key \<or> idle t)
      \<and> \<not> (has_credit h \<and> \<not> credit_settled h \<and> tr_owner t = h_credit_owner h))"

definition trader_slot :: "market \<Rightarrow> pubkey \<Rightarrow> (market \<times> u16) res" where
  "trader_slot m owner =
     (case find_trader m owner of
        Some i \<Rightarrow> Some (Inr (m, i))
      | None \<Rightarrow>
          need TraderCapacity (find (usable_slot m) [0..<length (m_traders m)]) (\<lambda>i.
          Some (Inr (put_trader m i (trader_default\<lparr>tr_owner := owner\<rparr>), i))))"

subsection \<open>The audit\<close>

text \<open>
  The sums are of 128 bits: adding one that does not fit aborts. Those that cannot reach the bound, of the traders'
  64-bit balances and the steps' 64-bit inventories, are plain.
\<close>

fun audit_orders :: "market \<Rightarrow> order list \<Rightarrow> u128 \<Rightarrow> u32 \<Rightarrow> (u128 \<times> u32) res" where
  "audit_orders m [] escrow holds = Some (Inr (escrow, holds))"
| "audit_orders m (r # rs) escrow holds =
     (if o_seq r = 0 then audit_orders m rs escrow holds
      else Option.bind (checked_add 128 escrow (o_lots r * o_escrow_per_lot r)) (\<lambda>escrow.
        if \<not> closes r \<and> o_claim r \<noteq> NO_CLAIM then
          ensure Insolvent (o_claim r < length (m_claims m)) (
          let c = m_claims m ! o_claim r in
          ensure Insolvent (c_held c \<and> c_trader c = o_trader r \<and> c_side c = o_side r \<and> c_lo c = o_lo r \<and> c_hi c = o_hi r) (
          audit_orders m rs escrow (holds + 1)))
        else audit_orders m rs escrow holds))"

definition per_lot :: "header \<Rightarrow> u8 \<Rightarrow> u16 \<Rightarrow> u16 \<Rightarrow> u64 option" where
  "per_lot h sd lo hi =
     (if sd = side_u8 Long then long_per_lot lo hi (h_settlement_fine h) (h_k h)
      else short_per_lot lo hi (h_settlement_fine h) (h_k h))"

fun audit_steps :: "header \<Rightarrow> step list \<Rightarrow> u16 \<Rightarrow> u128 \<times> u128 \<times> u128 \<Rightarrow> (u128 \<times> u128 \<times> u128) option" where
  "audit_steps h [] x acc = Some acc"
| "audit_steps h (s # ss) x (long, short, due) =
     (let lots = nat \<bar>st_inv s\<bar> in
      if st_inv s = 0 then audit_steps h ss (x + 1) (long, short, due)
      else do {
        due \<leftarrow> (if h_status h = STATUS_OPEN then Some due
                   else do { per \<leftarrow> per_lot h (if 0 < st_inv s then 0 else 1) x (x + 1);
                             checked_add 128 due (lots * per) });
        audit_steps h ss (x + 1) (if 0 < st_inv s then (long + lots, short, due) else (long, short + lots, due)) })"

fun audit_makers :: "header \<Rightarrow> (maker \<times> step list) list \<Rightarrow> u128 \<Rightarrow> u128 \<times> u128 \<times> u128 \<Rightarrow>
    (u128 \<times> u128 \<times> u128 \<times> u128) option" where
  "audit_makers h [] escrow (long, short, due) = Some (escrow, long, short, due)"
| "audit_makers h ((k, ss) # ks) escrow acc =
     (if \<not> mk_used k then audit_makers h ks escrow acc
      else do {
        escrow \<leftarrow> checked_add 128 escrow (mk_escrow k);
        acc \<leftarrow> audit_steps h ss 0 acc;
        audit_makers h ks escrow acc })"

fun audit_claims :: "header \<Rightarrow> claim list \<Rightarrow> u32 \<Rightarrow> u128 \<times> u128 \<times> u128 \<Rightarrow> (u32 \<times> u128 \<times> u128 \<times> u128) option" where
  "audit_claims h [] held (long, short, due) = Some (held, long, short, due)"
| "audit_claims h (c # cs) held (long, short, due) =
     (let held = held + of_bool (c_held c) in
      if c_lots c = 0 then audit_claims h cs held (long, short, due)
      else do {
        v \<leftarrow> set_value (c_lo c) (c_hi c) (h_k h);
        let set = c_lots c * v;
        (long, short) \<leftarrow>
          (if c_side c = side_u8 Long then do { long \<leftarrow> checked_add 128 long set; Some (long, short) }
           else do { short \<leftarrow> checked_add 128 short set; Some (long, short) });
        due \<leftarrow> (if h_status h = STATUS_OPEN then Some due
                   else do { per \<leftarrow> per_lot h (c_side c) (c_lo c) (c_hi c);
                             checked_add 128 due (c_lots c * per) });
        audit_claims h cs held (long, short, due) })"

definition audit :: "market \<Rightarrow> unit res" where
  "audit m =
     (let h = m_head m;
          free = sum_list (map tr_free (m_traders m)); reserved = sum_list (map tr_reserved (m_traders m)) in
      ensure Insolvent (free = h_total_free h \<and> reserved = h_total_reserved h) (
      andthen (audit_orders m (m_orders m) 0 0) (\<lambda>(escrow, holds).
      Option.bind (audit_makers h (zip (m_makers m) (m_steps m)) escrow (0, 0, 0)) (\<lambda>(escrow, long, short, due).
      Option.bind (checked_mul 128 long (h_k h)) (\<lambda>long.
      Option.bind (checked_mul 128 short (h_k h)) (\<lambda>short.
      ensure Insolvent (escrow = reserved) (
      Option.bind (audit_claims h (m_claims m) 0 (long, short, due)) (\<lambda>(held, long, short, due).
      ensure Insolvent (held = holds) (
      ensure Insolvent (if h_status h = STATUS_OPEN then long = h_backing h \<and> short = h_backing h
                        else due = h_backing h) (
      ensure Insolvent (h_custody h + h_debt h = free + reserved + h_backing h) (
      Some (Inr ()))))))))))))"

subsection \<open>Storing\<close>

definition set_approval :: "market \<Rightarrow> u64 \<Rightarrow> market" where
  "set_approval m exposure = m\<lparr>m_approval := map_option (\<lambda>_. exposure) (m_approval m)\<rparr>"

definition repay_from :: "market \<Rightarrow> u16 \<Rightarrow> market res" where
  "repay_from m t =
     Option.bind (trader_of m t) (\<lambda>tr.
     let r = min (tr_free tr) (h_debt (m_head m)) in
     if 0 < r then
       andthen (debit_free m t r) (\<lambda>m.
       Some (Inr (m\<lparr>m_head := (m_head m)\<lparr>h_debt := h_debt (m_head m) - r\<rparr>\<rparr>)))
     else Some (Inr m))"

definition repay :: "market \<Rightarrow> market res" where
  "repay m =
     (let h = m_head m in
      if h_debt h = 0 \<or> \<not> has_credit h then Some (Inr m)
      else
        let found = find_trader m (h_credit_owner h) in
        andthen (case found of
            Some t \<Rightarrow> if credit_settled h then Some (Inr m) else repay_from m t
          | None \<Rightarrow> Some (Inr m)) (\<lambda>m.
        let own = (case found of None \<Rightarrow> 0 | Some t \<Rightarrow> tr_free (m_traders m ! t) + tr_reserved (m_traders m ! t));
            own = (if credit_settled (m_head m) then 0 else own) in
        ensure CreditLimit (h_debt (m_head m) \<le> h_backing (m_head m) + own) (
        Some (Inr m))))"

definition store :: "market \<Rightarrow> market res" where
  "store m =
     andthen (repay m) (\<lambda>m.
     let m = (if h_debt (m_head m) = 0 then set_approval m 0 else m) in
     andthen (audit m) (\<lambda>_. Some (Inr m)))"

definition fund :: "market \<Rightarrow> u16 \<Rightarrow> u64 \<Rightarrow> u64 \<Rightarrow> (market \<times> u64) res" where
  "fund m t amount now =
     Option.bind (trader_of m t) (\<lambda>tr.
     let h = m_head m in
     if amount \<le> tr_free tr \<or> \<not> has_credit h \<or> tr_owner tr \<noteq> h_credit_owner h \<or> h_status h \<noteq> STATUS_OPEN
        \<or> credit_settled h \<or> h_credit_until h \<le> now
     then Some (Inr (m, 0))
     else
       let lend = amount - tr_free tr in
       andthen (credit_free m t lend) (\<lambda>m.
       andthen (add_u64 (h_debt (m_head m)) lend) (\<lambda>debt.
       Some (Inr (m\<lparr>m_head := (m_head m)\<lparr>h_debt := debt\<rparr>\<rparr>, lend)))))"

end
