(* ===== verification/Claim_Table.thy ===== *)
theory Claim_Table
  imports Market_Ledger
begin

text \<open>
  The claims of a market, from \<open>programs/futures/src/processor.rs\<close> and \<open>plan_net\<close> of \<open>state.rs\<close>: opening, dropping
  and holding slots, redeeming a complete set, and placing the claim of a fill, which first redeems against the
  owner's exact complements, then joins a claim of its range or takes a slot, and nets against the owner's
  overlapping opposite claims.
\<close>

abbreviation claim_slot :: "market \<Rightarrow> u32 \<Rightarrow> claim option" where
  "claim_slot m i \<equiv> slot (m_claims m) i"

definition claim_of :: "market \<Rightarrow> u32 \<Rightarrow> claim res" where
  "claim_of m i = need ClaimNotFound (claim_slot m i) (Some \<circ> Inr)"

definition owned_claim :: "market \<Rightarrow> u32 \<Rightarrow> u64 \<Rightarrow> u16 \<Rightarrow> claim res" where
  "owned_claim m i seq t =
     andthen (claim_of m i) (\<lambda>c.
     ensure ClaimNotFound (c_lots c \<noteq> 0 \<and> c_seq c = seq) (
     ensure Unauthorized (c_trader c = t) (
     Some (Inr c))))"

definition free_slot :: "market \<Rightarrow> (market \<times> u32) res" where
  "free_slot m =
     (let cap = length (m_claims m); hint = h_claim_hint (m_head m) in
      need ClaimCapacity
        (find (\<lambda>i. c_lots (m_claims m ! i) = 0 \<and> \<not> c_held (m_claims m ! i)) (map (\<lambda>j. (hint + j) mod cap) [0..<cap]))
        (\<lambda>i. Some (Inr (m\<lparr>m_head := (m_head m)\<lparr>h_claim_hint := (i + 1) mod cap\<rparr>\<rparr>, i))))"

definition count_claim :: "market \<Rightarrow> u16 \<Rightarrow> market option" where
  "count_claim m t = do {
     tr \<leftarrow> trader_of m t;
     claims \<leftarrow> checked_add 32 (tr_claims tr) 1;
     opened \<leftarrow> checked_add 64 (h_claims_open (m_head m)) 1;
     Some (put_trader (m\<lparr>m_head := (m_head m)\<lparr>h_claims_open := opened\<rparr>\<rparr>) t (tr\<lparr>tr_claims := claims\<rparr>)) }"

definition new_claim :: "market \<Rightarrow> claim \<Rightarrow> (market \<times> u32) res" where
  "new_claim m c =
     andthen (free_slot m) (\<lambda>(m, i).
     andthen (next_seq m) (\<lambda>(m, seq).
     Option.bind (count_claim (put_claim m i (c\<lparr>c_seq := seq\<rparr>)) (c_trader c)) (\<lambda>m.
     Some (Inr (m, i)))))"

definition placeholder :: "claim \<Rightarrow> claim" where
  "placeholder c = claim_default\<lparr>c_seq := c_seq c, c_trader := c_trader c, c_side := c_side c, c_lo := c_lo c,
     c_hi := c_hi c, c_held := True\<rparr>"

definition drop_claim :: "market \<Rightarrow> u32 \<Rightarrow> market option" where
  "drop_claim m i = do {
     c \<leftarrow> claim_slot m i;
     t \<leftarrow> trader_of m (c_trader c);
     let m = put_trader m (c_trader c) (t\<lparr>tr_claims := tr_claims t - 1\<rparr>);
     let m = m\<lparr>m_head := (m_head m)\<lparr>h_claims_open := h_claims_open (m_head m) - 1\<rparr>\<rparr>;
     Some (put_claim m i (if c_held c then placeholder c else claim_default)) }"

definition placeholders :: "market \<Rightarrow> u64" where
  "placeholders m = length (filter (\<lambda>r. o_seq r \<noteq> 0 \<and> \<not> closes r \<and> o_claim r < length (m_claims m)
     \<and> c_lots (m_claims m ! o_claim r) = 0) (m_orders m))"

definition free_slots :: "market \<Rightarrow> u64" where
  "free_slots m = length (m_claims m) - h_claims_open (m_head m) - placeholders m"

definition fits :: "market \<Rightarrow> order \<Rightarrow> u32 \<Rightarrow> bool" where
  "fits m r i =
     (let c = m_claims m ! i in
      i < length (m_claims m) \<and> 0 < c_lots c \<and> c_trader c = o_trader r \<and> \<not> c_held c \<and> c_side c = o_side r
      \<and> c_lo c = o_lo r \<and> c_hi c = o_hi r)"

definition take_hold :: "market \<Rightarrow> order \<Rightarrow> u32 option \<Rightarrow> (market \<times> u32) res" where
  "take_hold m r prefer =
     Option.bind (trader_of m (o_trader r)) (\<lambda>t.
     let found = (case prefer of
           Some i \<Rightarrow> if fits m r i then Some i
             else if 0 < tr_claims t then find (fits m r) [0..<length (m_claims m)] else None
         | None \<Rightarrow> if 0 < tr_claims t then find (fits m r) [0..<length (m_claims m)] else None) in
     case found of
       Some i \<Rightarrow> Some (Inr (put_claim m i ((m_claims m ! i)\<lparr>c_held := True\<rparr>), i))
     | None \<Rightarrow>
         andthen (free_slot m) (\<lambda>(m, i).
         andthen (next_seq m) (\<lambda>(m, seq).
         Some (Inr (put_claim m i (claim_default\<lparr>c_seq := seq, c_trader := o_trader r, c_side := o_side r,
           c_lo := o_lo r, c_hi := o_hi r, c_held := True\<rparr>), i)))))"

definition release_hold :: "market \<Rightarrow> u32 \<Rightarrow> market option" where
  "release_hold m i = do {
     c \<leftarrow> claim_slot m i;
     Some (put_claim m i (if c_lots c = 0 then claim_default else c\<lparr>c_held := False\<rparr>)) }"

subsection \<open>Redemption\<close>

text \<open>The claim without \<open>lots\<close> of its lots, and the share of the cost basis they had.\<close>

definition shrink :: "claim \<Rightarrow> u64 \<Rightarrow> (claim \<times> u64) option" where
  "shrink c lots = do {
     let part = (if lots = c_lots c then c_cost c else cast 64 (c_cost c * lots div max (c_lots c) 1));
     cost \<leftarrow> checked_sub (c_cost c) part;
     left \<leftarrow> checked_sub (c_lots c) lots;
     Some (c\<lparr>c_cost := cost, c_lots := left\<rparr>, part) }"

definition give_up :: "claim \<Rightarrow> u64 \<Rightarrow> bool \<Rightarrow> claim res" where
  "give_up c lots from_reserved =
     Option.bind (if from_reserved then Some (c_lots c) else checked_sub (c_lots c) (c_reserved c)) (\<lambda>usable.
     ensure ClaimReserved (lots \<le> usable) (
     andthen (if from_reserved
              then need ClaimReserved (checked_sub (c_reserved c) lots) (\<lambda>reserved. Some (Inr (c\<lparr>c_reserved := reserved\<rparr>)))
              else Some (Inr c)) (\<lambda>c.
     Option.bind (shrink c lots) (\<lambda>(c, part). Some (Inr c)))))"

definition put_shrunk :: "market \<Rightarrow> u32 \<Rightarrow> claim \<Rightarrow> market res" where
  "put_shrunk m i c =
     (if c_lots c = 0 then Option.bind (drop_claim m i) (\<lambda>m. Some (Inr m))
      else andthen (next_seq m) (\<lambda>(m, seq). Some (Inr (put_claim m i (c\<lparr>c_seq := seq\<rparr>)))))"

definition pay_redeemed :: "market \<Rightarrow> u16 \<Rightarrow> u16 \<Rightarrow> u16 \<Rightarrow> u64 \<Rightarrow> market res" where
  "pay_redeemed m t lo hi lots =
     Option.bind (set_value lo hi (h_k (m_head m))) (\<lambda>v.
     andthen (mul_u64 lots v) (\<lambda>cash.
     backing_to_free m t cash))"

definition complements :: "claim \<Rightarrow> claim \<Rightarrow> bool" where
  "complements x y \<longleftrightarrow> c_trader x = c_trader y \<and> c_lo x = c_lo y \<and> c_hi x = c_hi y \<and> c_side x \<noteq> c_side y
     \<and> 0 < c_lots x \<and> 0 < c_lots y"

definition redeem_pair :: "market \<Rightarrow> u32 \<Rightarrow> u32 \<Rightarrow> u64 \<Rightarrow> bool \<Rightarrow> bool \<Rightarrow> market res" where
  "redeem_pair m x y lots x_reserved y_reserved =
     Option.bind (claim_slot m x) (\<lambda>cx.
     Option.bind (claim_slot m y) (\<lambda>cy.
     ensure NotComplement (complements cx cy) (
     andthen (give_up cx lots x_reserved) (\<lambda>cx.
     andthen (give_up cy lots y_reserved) (\<lambda>cy.
     andthen (put_shrunk m x cx) (\<lambda>m.
     andthen (put_shrunk m y cy) (\<lambda>m.
     pay_redeemed m (c_trader cx) (c_lo cx) (c_hi cx) lots)))))))"

definition redeem_fresh :: "market \<Rightarrow> claim \<Rightarrow> u32 \<Rightarrow> u64 \<Rightarrow> bool \<Rightarrow> (market \<times> claim) res" where
  "redeem_fresh m fresh y lots from_reserved =
     Option.bind (claim_slot m y) (\<lambda>cy.
     ensure NotComplement (complements fresh cy) (
     andthen (give_up fresh lots False) (\<lambda>fresh.
     andthen (give_up cy lots from_reserved) (\<lambda>cy.
     andthen (put_shrunk m y cy) (\<lambda>m.
     andthen (pay_redeemed m (c_trader fresh) (c_lo fresh) (c_hi fresh) lots) (\<lambda>m.
     Some (Inr (m, fresh))))))))"

subsection \<open>Netting overlaps\<close>

record net_match =
  nm_claim :: u32
  nm_piece :: "u16 \<times> u16"
  nm_lo :: u16
  nm_hi :: u16
  nm_lots :: u64

type_synonym piece = "u16 \<times> u16 \<times> u64"

definition meets :: "claim \<Rightarrow> piece \<Rightarrow> bool" where
  "meets c p = (case p of (pl, ph, pn) \<Rightarrow> max pl (c_lo c) < min ph (c_hi c))"

text \<open>
  One claim against the pieces still to look at: the pieces it leaves, those it has passed first, and its matches.
  The parts outside the claim go to the end of the list, where it finds no overlap with them.
\<close>

function net_pieces :: "u32 \<Rightarrow> claim \<Rightarrow> u64 \<Rightarrow> piece list \<Rightarrow> piece list \<Rightarrow> piece list \<times> net_match list" where
  "net_pieces i c usable passed [] = (passed, [])"
| "net_pieces i c usable passed ((pl, ph, pn) # pieces) =
     (if usable = 0 then (passed @ (pl, ph, pn) # pieces, [])
      else let a = max pl (c_lo c); z = min ph (c_hi c) in
        if pn = 0 \<or> z \<le> a then net_pieces i c usable (passed @ [(pl, ph, pn)]) pieces
        else let n = min pn usable;
                 outside = (if pl < a then [(pl, a, n)] else []) @ (if z < ph then [(z, ph, n)] else []);
                 (left, ms) = net_pieces i c (usable - n) (passed @ [(pl, ph, pn - n)]) (pieces @ outside)
             in (left, \<lparr>nm_claim = i, nm_piece = (pl, ph), nm_lo = a, nm_hi = z, nm_lots = n\<rparr> # ms))"
  by pat_completeness auto

termination
  by (relation "measure (\<lambda>(i, c, usable, passed, pieces). \<Sum>p\<leftarrow>pieces. if meets c p then 3 else 1)")
    (auto simp: meets_def)

fun net_claims :: "(u32 \<times> claim) list \<Rightarrow> piece list \<Rightarrow> net_match list option" where
  "net_claims [] pieces = Some []"
| "net_claims ((i, c) # cs) pieces = do {
     usable \<leftarrow> checked_sub (c_lots c) (c_reserved c);
     let (pieces, ms) = net_pieces i c usable [] pieces;
     rest \<leftarrow> net_claims cs pieces;
     Some (ms @ rest) }"

definition plan_net :: "u16 \<Rightarrow> u16 \<Rightarrow> u64 \<Rightarrow> (u32 \<times> claim) list \<Rightarrow> net_match list option" where
  "plan_net lo hi lots opposed = net_claims
     (sort_key (\<lambda>(i, c). (of_bool (c_lo c \<noteq> lo \<or> c_hi c \<noteq> hi) :: nat, i))
       (filter (\<lambda>(i, c). c_lo c < hi \<and> lo < c_hi c \<and> c_reserved c < c_lots c) opposed))
     [(lo, hi, lots)]"

definition parts_outside :: "claim \<Rightarrow> u16 \<Rightarrow> u16 \<Rightarrow> (u16 \<times> u16) list" where
  "parts_outside c a z = (if c_lo c < a then [(c_lo c, a)] else []) @ (if z < c_hi c then [(z, c_hi c)] else [])"

text \<open>The slots a claim's parts need, and whether the claim can give up the lots on \<open>[a, z)\<close> at all.\<close>

definition slots_needed :: "claim \<Rightarrow> u16 \<Rightarrow> u16 \<Rightarrow> u64 \<Rightarrow> u64 res" where
  "slots_needed c a z lots =
     Option.bind (checked_sub (c_lots c) (c_reserved c)) (\<lambda>usable.
     ensure NotComplement (lots \<le> usable \<and> c_lo c \<le> a \<and> z \<le> c_hi c) (
     let n = length (parts_outside c a z) in
     Some (Inr (if c_lots c = lots \<and> \<not> c_held c then n - 1 else n))))"

definition part_claim :: "claim \<Rightarrow> u64 \<Rightarrow> u64 \<Rightarrow> u16 \<times> u16 \<Rightarrow> claim" where
  "part_claim x lots part p = (case p of (lo, hi) \<Rightarrow>
     claim_default\<lparr>c_lots := lots, c_trader := c_trader x, c_side := c_side x, c_lo := lo, c_hi := hi,
       c_cost := cast 64 (part * (hi - lo) div (c_hi x - c_lo x)), c_opened_ts := c_opened_ts x\<rparr>)"

fun new_parts :: "market \<Rightarrow> claim list \<Rightarrow> (market \<times> u32 list) res" where
  "new_parts m [] = Some (Inr (m, []))"
| "new_parts m (c # cs) =
     andthen (new_claim m c) (\<lambda>(m, i).
     andthen (new_parts m cs) (\<lambda>(m, is). Some (Inr (m, i # is))))"

text \<open>What one of the two claims of an overlap leaves behind: the market and the slots of its new parts.\<close>

definition give_overlap :: "market \<Rightarrow> u32 \<Rightarrow> claim \<Rightarrow> u16 \<Rightarrow> u16 \<Rightarrow> u64 \<Rightarrow> (market \<times> u32 list) res" where
  "give_overlap m i x a z lots =
     Option.bind (shrink x lots) (\<lambda>(x, part).
     let outside = parts_outside x a z; piece = part_claim x lots part in
     if 0 < c_lots x then
       andthen (next_seq m) (\<lambda>(m, seq).
       new_parts (put_claim m i (x\<lparr>c_seq := seq\<rparr>)) (map piece outside))
     else if c_held x then Option.bind (drop_claim m i) (\<lambda>m. new_parts m (map piece outside))
     else case outside of
       p # outside \<Rightarrow>
         andthen (next_seq m) (\<lambda>(m, seq).
         new_parts (put_claim m i ((piece p)\<lparr>c_seq := seq\<rparr>)) (map piece outside))
     | [] \<Rightarrow> Option.bind (drop_claim m i) (\<lambda>m. Some (Inr (m, []))))"

definition net_overlap :: "market \<Rightarrow> u32 \<Rightarrow> u32 \<Rightarrow> u16 \<Rightarrow> u16 \<Rightarrow> u64 \<Rightarrow> (market \<times> u32 list) option res" where
  "net_overlap m f c a z lots =
     Option.bind (claim_slot m f) (\<lambda>cf.
     Option.bind (claim_slot m c) (\<lambda>cc.
     andthen (slots_needed cf a z lots) (\<lambda>nf.
     andthen (slots_needed cc a z lots) (\<lambda>nc.
     if free_slots m < nf + nc then Some (Inr None)
     else
       andthen (give_overlap m f cf a z lots) (\<lambda>(m, parts).
       andthen (give_overlap m c cc a z lots) (\<lambda>(m, _).
       andthen (pay_redeemed m (c_trader cf) a z lots) (\<lambda>m.
       Some (Inr (Some (m, parts))))))))))"

definition is_piece :: "market \<Rightarrow> claim \<Rightarrow> net_match \<Rightarrow> u32 \<Rightarrow> bool" where
  "is_piece m n q s =
     (let c = m_claims m ! s in
      c_trader c = c_trader n \<and> c_side c = c_side n \<and> (c_lo c, c_hi c) = nm_piece q \<and> nm_lots q \<le> c_lots c)"

fun net_matches :: "market \<Rightarrow> claim \<Rightarrow> u32 list \<Rightarrow> net_match list \<Rightarrow> market res" where
  "net_matches m n pieces [] = Some (Inr m)"
| "net_matches m n pieces (q # qs) =
     (case find (is_piece m n q) pieces of
        None \<Rightarrow> Some (Inr m)
      | Some f \<Rightarrow>
          andthen (net_overlap m f (nm_claim q) (nm_lo q) (nm_hi q) (nm_lots q)) (\<lambda>r.
          case r of
            None \<Rightarrow> Some (Inr m)
          | Some (m, parts) \<Rightarrow> net_matches m n (pieces @ parts) qs))"

definition opposed_claims :: "market \<Rightarrow> claim \<Rightarrow> u32 \<Rightarrow> (u32 \<times> claim) list" where
  "opposed_claims m n fresh =
     filter (\<lambda>(i, c). i \<noteq> fresh \<and> c_lots c \<noteq> 0 \<and> c_trader c = c_trader n \<and> c_side c \<noteq> c_side n)
       (map (\<lambda>i. (i, m_claims m ! i)) [0..<length (m_claims m)])"

definition net_overlaps :: "market \<Rightarrow> u32 \<Rightarrow> u64 \<Rightarrow> market res" where
  "net_overlaps m fresh lots =
     Option.bind (claim_slot m fresh) (\<lambda>n.
     Option.bind (plan_net (c_lo n) (c_hi n) lots (opposed_claims m n fresh)) (\<lambda>plan.
     net_matches m n [fresh] plan))"

subsection \<open>Placing a claim\<close>

text \<open>
  The scan of the owner's claims for a fresh one: redeem exact complements as they are found (\<open>Inl\<close> when nothing of
  the fresh claim is left), remember the first claim of the same side and range, and whether any other overlaps.
\<close>

fun place_scan :: "market \<Rightarrow> claim \<Rightarrow> u32 option \<Rightarrow> bool \<Rightarrow> u32 list \<Rightarrow>
    (market + market \<times> claim \<times> u32 option \<times> bool) res" where
  "place_scan m fresh join overlaps [] = Some (Inr (Inr (m, fresh, join, overlaps)))"
| "place_scan m fresh join overlaps (i # is) =
     (let c = m_claims m ! i in
      if c_lots c = 0 \<or> c_trader c \<noteq> c_trader fresh then place_scan m fresh join overlaps is
      else let exact = (c_lo c = c_lo fresh \<and> c_hi c = c_hi fresh) in
        if c_side c = c_side fresh then
          place_scan m fresh (if exact \<and> join = None then Some i else join) overlaps is
        else if exact then
          Option.bind (checked_sub (c_lots c) (c_reserved c)) (\<lambda>usable.
          let lots = min (c_lots fresh) usable in
          if 0 < lots then
            andthen (redeem_fresh m fresh i lots False) (\<lambda>(m, fresh).
            if c_lots fresh = 0 then Some (Inr (Inl m)) else place_scan m fresh join overlaps is)
          else place_scan m fresh join overlaps is)
        else place_scan m fresh join
          (overlaps \<or> (c_lo c < c_hi fresh \<and> c_lo fresh < c_hi c \<and> c_reserved c < c_lots c)) is)"

definition place_first :: "market \<Rightarrow> claim \<Rightarrow> (u32 \<times> bool) option \<Rightarrow> (market \<times> claim) res" where
  "place_first m fresh first =
     (case first of
        None \<Rightarrow> Some (Inr (m, fresh))
      | Some (c, reserved) \<Rightarrow>
          Option.bind (claim_slot m c) (\<lambda>other.
          Option.bind (if reserved then Some (c_reserved other) else checked_sub (c_lots other) (c_reserved other)) (\<lambda>usable.
          let lots = min (c_lots fresh) usable in
          if 0 < lots then redeem_fresh m fresh c lots reserved else Some (Inr (m, fresh)))))"

definition join_claim :: "market \<Rightarrow> claim \<Rightarrow> u32 \<Rightarrow> market res" where
  "join_claim m fresh i =
     Option.bind (claim_slot m i) (\<lambda>c.
     Option.bind (if c_lots c = 0 then count_claim m (c_trader fresh) else Some m) (\<lambda>m.
     let c = (if c_lots c = 0 then c\<lparr>c_opened_ts := c_opened_ts fresh\<rparr> else c) in
     andthen (add_u64 (c_lots c) (c_lots fresh)) (\<lambda>lots.
     andthen (add_u64 (c_cost c) (c_cost fresh)) (\<lambda>cost.
     andthen (next_seq m) (\<lambda>(m, seq).
     Some (Inr (put_claim m i (c\<lparr>c_lots := lots, c_cost := cost, c_opened_ts := min (c_opened_ts c) (c_opened_ts fresh),
       c_seq := seq\<rparr>))))))))"

text \<open>What is left of the fresh claim joins a claim, or takes a slot, and nets.\<close>

definition place_rest :: "market \<Rightarrow> claim \<Rightarrow> u32 option \<Rightarrow> bool \<Rightarrow> (market \<times> u32 option) res" where
  "place_rest m fresh join overlaps =
     (if c_lots fresh = 0 then Some (Inr (m, None))
      else
        andthen (case join of
            Some i \<Rightarrow> andthen (join_claim m fresh i) (\<lambda>m. Some (Inr (m, i)))
          | None \<Rightarrow> new_claim m fresh) (\<lambda>(m, f).
        andthen (if overlaps then net_overlaps m f (c_lots fresh) else Some (Inr m)) (\<lambda>m.
        Some (Inr (m, Some f)))))"

definition place :: "market \<Rightarrow> claim \<Rightarrow> (u32 \<times> bool) option \<Rightarrow> u32 option \<Rightarrow> (market \<times> u32 option) res" where
  "place m fresh first hold =
     andthen (place_first m fresh first) (\<lambda>(m, fresh).
     Option.bind (trader_of m (c_trader fresh)) (\<lambda>t.
     andthen (if 0 < c_lots fresh \<and> 0 < tr_claims t
              then place_scan m fresh hold False [0..<length (m_claims m)]
              else Some (Inr (Inr (m, fresh, hold, False)))) (\<lambda>r.
     case r of
       Inl m \<Rightarrow> Some (Inr (m, None))
     | Inr (m, fresh, join, overlaps) \<Rightarrow> place_rest m fresh join overlaps)))"

end
