(* ===== verification/Oracle_Period.thy ===== *)
theory Oracle_Period
  imports Byte_Store
begin

text \<open>
  The oracle's periods as its consumers read them, from \<open>oracle-interface/src/lib.rs\<close>: the account's bytes, the
  checks a reader makes, when a period is tradable and what it settled at.
\<close>

datatype program_error = InvalidAccountData | IllegalOwner | InvalidSeeds | InvalidArgument

datatype period_status = Forming | Live | Settled | Failed

fun period_status_u8 :: "period_status \<Rightarrow> u8" where
  "period_status_u8 Forming = 0"
| "period_status_u8 Live = 1"
| "period_status_u8 Settled = 2"
| "period_status_u8 Failed = 3"

definition period_status_from_u8 :: "u8 \<Rightarrow> period_status option" where
  "period_status_from_u8 v =
     (if v = 0 then Some Forming else if v = 1 then Some Live else if v = 2 then Some Settled
      else if v = 3 then Some Failed else None)"

record period =
  pd_bump :: u8
  pd_status :: period_status
  pd_value_decimals :: u8
  pd_product_id :: pubkey
  pd_planned_listing_ts :: u64
  pd_expiry_ts :: u64
  pd_effective_listing_ts :: u64
  pd_settlement_value :: u64
  pd_settled_ts :: u64
  pd_settlement_digest :: pubkey

record settlement =
  sv_value :: u64
  sv_decimals :: u8
  sv_settled_ts :: u64
  sv_digest :: pubkey

definition MAX_VALUE_DECIMALS :: u8 where "MAX_VALUE_DECIMALS = 18"
abbreviation (input) PERIOD_LEN :: usize where "PERIOD_LEN \<equiv> 148"
definition PERIOD_DISCRIMINATOR :: bytes where "PERIOD_DISCRIMINATOR = map of_char ''AOPERIOD''"
definition PERIOD_VERSION :: u8 where "PERIOD_VERSION = 2"
definition PERIOD_LEGACY_VERSION :: u8 where "PERIOD_LEGACY_VERSION = 1"
definition PERIOD_NAMESPACE_SEED :: bytes where "PERIOD_NAMESPACE_SEED = map of_char ''ameba-oracle-v1''"
definition PERIOD_SEED :: bytes where "PERIOD_SEED = map of_char ''period''"

definition new_forming :: "u8 \<Rightarrow> pubkey \<Rightarrow> u64 \<Rightarrow> u64 \<Rightarrow> u8 \<Rightarrow> period" where
  "new_forming bump product_id planned_listing_ts expiry_ts value_decimals =
     \<lparr>pd_bump = bump, pd_status = Forming, pd_value_decimals = value_decimals, pd_product_id = product_id,
      pd_planned_listing_ts = planned_listing_ts, pd_expiry_ts = expiry_ts, pd_effective_listing_ts = 0,
      pd_settlement_value = 0, pd_settled_ts = 0, pd_settlement_digest = replicate 32 0\<rparr>"

definition period_fields :: "period \<Rightarrow> field list" where
  "period_fields p = [
     put_bytes 0 PERIOD_DISCRIMINATOR, put8 8 PERIOD_VERSION, put8 9 (pd_bump p), put8 10 (period_status_u8 (pd_status p)),
     put8 11 (pd_value_decimals p), put_key 12 (pd_product_id p), put64 44 (pd_planned_listing_ts p),
     put64 52 (pd_expiry_ts p), put64 60 (pd_effective_listing_ts p), put64 68 (pd_settlement_value p),
     put64 76 (pd_settled_ts p), put_key 84 (pd_settlement_digest p)]"

definition period_encode :: "period \<Rightarrow> bytes option" where
  "period_encode p = puts (period_fields p) (replicate PERIOD_LEN 0)"

definition period_validate :: "period \<Rightarrow> (program_error + unit)" where
  "period_validate p =
     (let listed = (pd_planned_listing_ts p \<le> pd_effective_listing_ts p \<and> pd_effective_listing_ts p < pd_expiry_ts p);
          unsettled = (pd_settlement_value p = 0 \<and> pd_settled_ts p = 0 \<and> pd_settlement_digest p = replicate 32 0);
          consistent = (case pd_status p of
              Forming \<Rightarrow> pd_effective_listing_ts p = 0 \<and> unsettled
            | Live \<Rightarrow> listed \<and> unsettled
            | Settled \<Rightarrow> listed \<and> pd_expiry_ts p \<le> pd_settled_ts p \<and> pd_settlement_digest p \<noteq> replicate 32 0
            | Failed \<Rightarrow> (pd_effective_listing_ts p = 0 \<or> listed) \<and> unsettled)
      in if \<not> consistent \<or> pd_product_id p = replicate 32 0 \<or> pd_expiry_ts p \<le> pd_planned_listing_ts p
            \<or> MAX_VALUE_DECIMALS < pd_value_decimals p
         then Inl InvalidAccountData else Inr ())"

text \<open>The fields of the account, once its length, discriminator, version and reserved bytes are checked.\<close>

definition period_parse :: "bytes \<Rightarrow> (program_error + period) option" where
  "period_parse b = do {
     bump \<leftarrow> u8_at b 9; status \<leftarrow> u8_at b 10; value_decimals \<leftarrow> u8_at b 11; product_id \<leftarrow> key_at b 12;
     planned \<leftarrow> u64_at b 44; expiry \<leftarrow> u64_at b 52; effective \<leftarrow> u64_at b 60; settlement_value \<leftarrow> u64_at b 68;
     settled \<leftarrow> u64_at b 76; digest \<leftarrow> key_at b 84;
     Some (case period_status_from_u8 status of
         None \<Rightarrow> Inl InvalidAccountData
       | Some st \<Rightarrow> Inr \<lparr>pd_bump = bump, pd_status = st, pd_value_decimals = value_decimals, pd_product_id = product_id,
           pd_planned_listing_ts = planned, pd_expiry_ts = expiry, pd_effective_listing_ts = effective,
           pd_settlement_value = settlement_value, pd_settled_ts = settled, pd_settlement_digest = digest\<rparr>) }"

definition period_decode :: "bytes \<Rightarrow> (program_error + period) option" where
  "period_decode b =
     (if length b \<noteq> PERIOD_LEN \<or> sub_bytes b 0 8 \<noteq> Some PERIOD_DISCRIMINATOR
         \<or> u8_at b 8 \<notin> {Some PERIOD_LEGACY_VERSION, Some PERIOD_VERSION} \<or> sub_bytes b 116 32 \<noteq> Some (replicate 32 0)
      then Some (Inl InvalidAccountData)
      else do {
        r \<leftarrow> period_parse b;
        Some (case r of
            Inl e \<Rightarrow> Inl e
          | Inr p \<Rightarrow> (case period_validate p of
                Inl e \<Rightarrow> Inl e
              | Inr _ \<Rightarrow>
                  if u8_at b 8 = Some PERIOD_LEGACY_VERSION \<and> pd_status p = Settled \<and> pd_settlement_value p = 0
                  then Inl InvalidAccountData else Inr p)) })"

definition is_tradable_at :: "period \<Rightarrow> u64 \<Rightarrow> bool" where
  "is_tradable_at p now \<longleftrightarrow> pd_status p = Live \<and> pd_effective_listing_ts p \<le> now \<and> now < pd_expiry_ts p"

definition settlement_of :: "period \<Rightarrow> settlement option" where
  "settlement_of p =
     (if pd_status p = Settled
      then Some \<lparr>sv_value = pd_settlement_value p, sv_decimals = pd_value_decimals p, sv_settled_ts = pd_settled_ts p,
        sv_digest = pd_settlement_digest p\<rparr>
      else None)"

text \<open>\<open>address\<close> is \<open>create_program_address\<close> of the runtime.\<close>

definition load_period :: "(bytes list \<Rightarrow> pubkey \<Rightarrow> pubkey option) \<Rightarrow> pubkey \<Rightarrow> pubkey \<Rightarrow> pubkey \<Rightarrow> bytes \<Rightarrow>
    (program_error + period) option" where
  "load_period address oracle_program owner key data =
     (if owner \<noteq> oracle_program then Some (Inl IllegalOwner)
      else do {
        r \<leftarrow> period_decode data;
        Some (case r of
            Inl e \<Rightarrow> Inl e
          | Inr p \<Rightarrow>
              if address [PERIOD_NAMESPACE_SEED, PERIOD_SEED, pd_product_id p, to_le 8 (pd_expiry_ts p),
                   [word_of_nat (pd_bump p)]] oracle_program = Some key
              then Inr p else Inl InvalidSeeds) })"

definition load_period_for :: "(bytes list \<Rightarrow> pubkey \<Rightarrow> pubkey option) \<Rightarrow> pubkey \<Rightarrow> pubkey \<Rightarrow> pubkey \<Rightarrow> bytes \<Rightarrow>
    pubkey \<Rightarrow> u64 \<Rightarrow> (program_error + period) option" where
  "load_period_for address oracle_program owner key data product_id expiry_ts = do {
     r \<leftarrow> load_period address oracle_program owner key data;
     Some (case r of
         Inl e \<Rightarrow> Inl e
       | Inr p \<Rightarrow> if pd_product_id p \<noteq> product_id \<or> pd_expiry_ts p \<noteq> expiry_ts then Inl InvalidArgument else Inr p) }"

subsection \<open>Reading back\<close>

definition period_ok :: "period \<Rightarrow> bool" where
  "period_ok p \<longleftrightarrow> pd_bump p < 2 ^ 8 \<and> pd_value_decimals p < 2 ^ 8 \<and> length (pd_product_id p) = 32
     \<and> pd_planned_listing_ts p < 2 ^ 64 \<and> pd_expiry_ts p < 2 ^ 64 \<and> pd_effective_listing_ts p < 2 ^ 64
     \<and> pd_settlement_value p < 2 ^ 64 \<and> pd_settled_ts p < 2 ^ 64 \<and> length (pd_settlement_digest p) = 32"

lemma status_round_trip: "period_status_from_u8 (period_status_u8 s) = Some s" "period_status_u8 s < 256"
  by (cases s; simp add: period_status_from_u8_def)+

lemma period_layout:
  assumes "period_ok p"
  shows "disjoint_fields (period_fields p)" "\<forall>f\<in>set (period_fields p). fst f + length (snd f) \<le> 116"
  by (rule disjoint_fieldsI) (use assms in \<open>simp_all add: period_fields_def period_ok_def fields_simps PERIOD_DISCRIMINATOR_def\<close>)

lemma period_encode_bytes:
  assumes "period_ok p"
  obtains b where "period_encode p = Some b" "length b = PERIOD_LEN" "sub_bytes b 116 32 = Some (replicate 32 0)"
    "\<forall>f\<in>set (period_fields p). got b f"
proof -
  obtain b where b: "puts (period_fields p) (replicate PERIOD_LEN 0) = Some b"
    by (rule puts_total [of "period_fields p" "replicate PERIOD_LEN 0"]) (use period_layout(2) [OF assms] in fastforce)+
  have "sub_bytes b 116 32 = sub_bytes (replicate PERIOD_LEN 0) 116 32"
    by (rule puts_frame [OF b]) (use period_layout(2) [OF assms] in \<open>auto simp: apart_def\<close>)
  then have "sub_bytes b 116 32 = Some (replicate 32 0)" by (simp add: sub_bytes_def)
  then show thesis using that b puts_length [OF b] puts_got [OF b period_layout(1) [OF assms]] by (simp add: period_encode_def)
qed

lemma decode_encoded:
  assumes "period_ok p" "period_validate p = Inr ()"
  obtains b where "period_encode p = Some b" "length b = PERIOD_LEN" "period_decode b = Some (Inr p)"
proof -
  obtain b where b: "period_encode p = Some b" "length b = PERIOD_LEN" "sub_bytes b 116 32 = Some (replicate 32 0)"
    and g: "\<forall>f\<in>set (period_fields p). got b f" by (rule period_encode_bytes [OF assms(1)])
  have parse: "period_parse b = Some (Inr p)"
    using g assms(1) by (simp add: period_parse_def period_fields_def read_back_simps period_ok_def status_round_trip)
  have len: "length PERIOD_DISCRIMINATOR = 8" by (simp add: PERIOD_DISCRIMINATOR_def)
  have ver: "u8_at b 8 = Some PERIOD_VERSION"
    using g by (simp add: period_fields_def read_back_simps PERIOD_VERSION_def)
  have "sub_bytes b 0 8 = Some PERIOD_DISCRIMINATOR"
    using g len by (simp add: period_fields_def read_back_simps)
  then have "period_decode b = Some (Inr p)"
    using b parse ver assms(2) by (simp add: period_decode_def PERIOD_VERSION_def PERIOD_LEGACY_VERSION_def)
  with b(1,2) show thesis by (rule that)
qed

lemma case_Inr_iff: "(case r of Inl e \<Rightarrow> Inl e | Inr p \<Rightarrow> f p) = Inr q \<longleftrightarrow> (\<exists>p. r = Inr p \<and> f p = Inr q)"
  by (cases r) auto

lemma decoded_validated:
  assumes "period_decode b = Some (Inr p)"
  shows "period_validate p = Inr ()"
  using assms by (auto simp: period_decode_def option_bind_eq_Some case_Inr_iff split: if_splits)

text \<open>
  C28. Oracle periods: every valid period written by the oracle reads back from its account as it was, through the
  reader its consumers use. Whatever that reader accepts is an account of the bound oracle program, at the address
  derived from the period, for exactly the product and expiry asked for; it is tradable only from its listing, not
  before the planned one, and before its expiry, while it has no settlement; and a settlement exists only at or after
  expiry. Any other bytes are answered with an error, never an abort.
\<close>

theorem period_accounts_are_exact:
  "(period_ok p \<and> period_validate p = Inr () \<and> address [PERIOD_NAMESPACE_SEED, PERIOD_SEED, pd_product_id p,
      to_le 8 (pd_expiry_ts p), [word_of_nat (pd_bump p)]] oracle = Some key \<longrightarrow>
      (\<exists>b. period_encode p = Some b \<and> length b = PERIOD_LEN
         \<and> load_period_for address oracle oracle key b (pd_product_id p) (pd_expiry_ts p) = Some (Inr p)))
   \<and> (\<exists>r. load_period_for address oracle owner key data product expiry = Some r \<and> (\<forall>q. r = Inr q \<longrightarrow>
      owner = oracle \<and> pd_product_id q = product \<and> pd_expiry_ts q = expiry
      \<and> address [PERIOD_NAMESPACE_SEED, PERIOD_SEED, product, to_le 8 expiry, [word_of_nat (pd_bump q)]] oracle = Some key
      \<and> (is_tradable_at q now \<longrightarrow> pd_planned_listing_ts q \<le> now \<and> now < expiry \<and> settlement_of q = None)
      \<and> (\<forall>v. settlement_of q = Some v \<longrightarrow> expiry \<le> sv_settled_ts v \<and> sv_value v = pd_settlement_value q)))"
proof (intro conjI impI)
  assume p: "period_ok p \<and> period_validate p = Inr () \<and> address [PERIOD_NAMESPACE_SEED, PERIOD_SEED, pd_product_id p,
      to_le 8 (pd_expiry_ts p), [word_of_nat (pd_bump p)]] oracle = Some key"
  then obtain b where "period_encode p = Some b" "length b = PERIOD_LEN" "period_decode b = Some (Inr p)"
    using decode_encoded by blast
  then show "\<exists>b. period_encode p = Some b \<and> length b = PERIOD_LEN
       \<and> load_period_for address oracle oracle key b (pd_product_id p) (pd_expiry_ts p) = Some (Inr p)"
    using p by (simp add: load_period_for_def load_period_def)
next
  have "\<exists>r. period_decode data = Some r"
    by (simp add: period_decode_def period_parse_def at_defs sub_bytes_def split: option.splits)
  then obtain r where r: "load_period_for address oracle owner key data product expiry = Some r"
    by (cases "owner = oracle") (auto simp: load_period_for_def load_period_def)
  have "owner = oracle \<and> pd_product_id q = product \<and> pd_expiry_ts q = expiry
      \<and> address [PERIOD_NAMESPACE_SEED, PERIOD_SEED, product, to_le 8 expiry, [word_of_nat (pd_bump q)]] oracle = Some key
      \<and> (is_tradable_at q now \<longrightarrow> pd_planned_listing_ts q \<le> now \<and> now < expiry \<and> settlement_of q = None)
      \<and> (\<forall>v. settlement_of q = Some v \<longrightarrow> expiry \<le> sv_settled_ts v \<and> sv_value v = pd_settlement_value q)"
    if "r = Inr q" for q
  proof -
    have q: "owner = oracle" "pd_product_id q = product" "pd_expiry_ts q = expiry" "period_decode data = Some (Inr q)"
      "address [PERIOD_NAMESPACE_SEED, PERIOD_SEED, product, to_le 8 expiry, [word_of_nat (pd_bump q)]] oracle = Some key"
      using r that by (auto simp: load_period_for_def load_period_def option_bind_eq_Some case_Inr_iff split: if_splits)
    note v = decoded_validated [OF q(4)]
    then have "is_tradable_at q now \<longrightarrow> pd_planned_listing_ts q \<le> now \<and> now < expiry \<and> settlement_of q = None"
      using q(3) by (auto simp: period_validate_def Let_def is_tradable_at_def settlement_of_def split: if_splits)
    moreover have "settlement_of q = Some w \<longrightarrow> expiry \<le> sv_settled_ts w \<and> sv_value w = pd_settlement_value q" for w
      using v q(3) by (auto simp: period_validate_def Let_def settlement_of_def split: if_splits)
    ultimately show ?thesis using q by blast
  qed
  with r show "\<exists>r. load_period_for address oracle owner key data product expiry = Some r \<and> (\<forall>q. r = Inr q \<longrightarrow>
      owner = oracle \<and> pd_product_id q = product \<and> pd_expiry_ts q = expiry
      \<and> address [PERIOD_NAMESPACE_SEED, PERIOD_SEED, product, to_le 8 expiry, [word_of_nat (pd_bump q)]] oracle = Some key
      \<and> (is_tradable_at q now \<longrightarrow> pd_planned_listing_ts q \<le> now \<and> now < expiry \<and> settlement_of q = None)
      \<and> (\<forall>v. settlement_of q = Some v \<longrightarrow> expiry \<le> sv_settled_ts v \<and> sv_value v = pd_settlement_value q))"
    by blast
qed

definition sample_period :: period where
  "sample_period = (new_forming 254 (replicate 32 7) 100 200 6)\<lparr>pd_status := Settled, pd_effective_listing_ts := 110,
     pd_settlement_value := 42, pd_settled_ts := 205, pd_settlement_digest := replicate 32 9\<rparr>"

theorem period_accounts_are_exact_witness:
  "\<exists>b. period_encode sample_period = Some b
     \<and> load_period_for (\<lambda>_ _. Some [1]) [2] [2] [1] b (replicate 32 7) 200 = Some (Inr sample_period)"
proof -
  have "period_ok sample_period" by (simp add: sample_period_def new_forming_def period_ok_def)
  moreover have "period_validate sample_period = Inr ()"
    by code_simp
  moreover have "pd_product_id sample_period = replicate 32 7" "pd_expiry_ts sample_period = 200"
    by (simp_all add: sample_period_def new_forming_def)
  ultimately show ?thesis
    using conjunct1 [OF period_accounts_are_exact [of sample_period "\<lambda>_ _. Some [1]" "[2]" "[1]"]] by auto
qed

end
