(* ===== verification/Market_Instructions.thy ===== *)
theory Market_Instructions
  imports Claim_Table Accounts Oracle_Period
begin

text \<open>
  The instructions on cash, resting liquidity, claims and settlement, from \<open>programs/futures/src/processor.rs\<close>: each
  as what it does to the market once its accounts are read, with every check and every write, ending in \<open>store\<close>.
  Token transfers are the token program's: an instruction that makes one is given what it answers. The
  trading gate's oracle period is given as it was loaded.
\<close>

subsection \<open>Who acts\<close>

record account =
  ac_key :: pubkey
  ac_signer :: bool
  ac_program :: pubkey
  ac_data :: bytes

text \<open>The accounts of an instruction, and \<open>create_program_address\<close> of the runtime.\<close>

record accounts =
  as_address :: "bytes list \<Rightarrow> pubkey \<Rightarrow> pubkey option"
  as_program :: pubkey
  as_market :: pubkey
  as_owner :: account
  as_rest :: "account list"

definition NAMESPACE :: bytes where "NAMESPACE = ascii ''ameba-range-v1''"
definition VAULT_SEED :: bytes where "VAULT_SEED = ascii ''earn''"

definition load_vault :: "accounts \<Rightarrow> account \<Rightarrow> vault res" where
  "load_vault a info =
     ensure InvalidAccount (ac_program info = as_program a) (
     andthen (vault_read (ac_data info)) (\<lambda>v.
     need InvalidAccount (as_address a [NAMESPACE, VAULT_SEED, va_operator v, [word_of_nat (va_bump v)]] (as_program a)) (\<lambda>at.
     ensure InvalidAccount (at = ac_key info) (
     Some (Inr v)))))"

text \<open>
  As production builds have it: an owner that does not sign and is no vault is refused. (With the feature
  \<open>legacy-pools\<close>, of development builds only, \<open>legacy_operator\<close> would take it for a pool whose operator may cancel.)
\<close>

definition authorize :: "accounts \<Rightarrow> unit res" where
  "authorize a =
     (let acc = as_owner a; data = ac_data acc in
      if ac_signer acc then Some (Inr ())
      else
        ensure Unauthorized (ac_program acc = as_program a) (
        ensure Unauthorized ((length data = VAULT_LEN \<or> length data = VAULT_REWARDS_LEN) \<and> sub_bytes data 0 8 = Some VAULT_MAGIC) (
        andthen (load_vault a acc) (\<lambda>v.
        ensure Unauthorized (as_market a \<in> set (va_markets v)) (
        ensure Unauthorized (\<exists>x\<in>set (as_rest a). ac_signer x \<and> ac_key x = va_operator v) (
        Some (Inr ())))))))"

definition acting_trader :: "market \<Rightarrow> accounts \<Rightarrow> u16 res" where
  "acting_trader m a =
     andthen (authorize a) (\<lambda>_.
     need Unauthorized (find_trader m (ac_key (as_owner a))) (Some \<circ> Inr))"

definition owned_trader :: "market \<Rightarrow> accounts \<Rightarrow> u16 res" where
  "owned_trader m a =
     ensure Unauthorized (ac_signer (as_owner a)) (
     need Unauthorized (find_trader m (ac_key (as_owner a))) (Some \<circ> Inr))"

subsection \<open>Cash\<close>

text \<open>
  The token side of a cash instruction: the accounts it names, and what the token program answers, its own id, the
  owner's token account, the vault before and after the transfer, and the transfer itself. A missing sixth account
  is the error of its absence.
\<close>

record token_account =
  tok_mint :: pubkey
  tok_owner :: pubkey
  tok_amount :: u64

record cash_accounts =
  cs_owner_token :: pubkey
  cs_vault :: pubkey
  cs_token_program :: pubkey
  cs_authority :: "pubkey res"
  cs_token_id :: pubkey
  cs_owner_account :: "token_account res"
  cs_before :: "token_account res"
  cs_moved :: "unit res"
  cs_after :: "token_account res"

definition AUTHORITY_SEED :: bytes where "AUTHORITY_SEED = ascii ''authority''"

definition check_vault :: "header \<Rightarrow> cash_accounts \<Rightarrow> unit res" where
  "check_vault h c =
     ensure InvalidAccount (cs_vault c = h_vault h) (
     andthen (cs_after c) (\<lambda>v.
     ensure Custody (h_custody h \<le> tok_amount v) (
     Some (Inr ()))))"

definition deposit :: "market \<Rightarrow> accounts \<Rightarrow> cash_accounts \<Rightarrow> u64 \<Rightarrow> market res" where
  "deposit m a c amount =
     ensure Unauthorized (ac_signer (as_owner a)) (
     ensure InvalidInstruction (cs_token_program c = cs_token_id c \<and> amount \<noteq> 0) (
     ensure InvalidAccount (cs_vault c = h_vault (m_head m) \<and> cs_owner_token c \<noteq> cs_vault c) (
     andthen (trader_slot m (ac_key (as_owner a))) (\<lambda>(m, i).
     andthen (cs_before c) (\<lambda>before.
     andthen (cs_moved c) (\<lambda>_.
     andthen (cs_after c) (\<lambda>after.
     andthen (add_u64 (tok_amount before) amount) (\<lambda>expected.
     ensure Custody (tok_amount after = expected) (
     andthen (credit_free m i amount) (\<lambda>m.
     andthen (add_u64 (h_custody (m_head m)) amount) (\<lambda>custody.
     let m = m\<lparr>m_head := (m_head m)\<lparr>h_custody := custody\<rparr>\<rparr> in
     andthen (check_vault (m_head m) c) (\<lambda>_.
     store m))))))))))))"

text \<open>What a withdrawal of some cash does before it stores.\<close>

definition pay_out :: "market \<Rightarrow> accounts \<Rightarrow> cash_accounts \<Rightarrow> u16 \<Rightarrow> u64 \<Rightarrow> market res" where
  "pay_out m a c i amount =
     andthen (cs_owner_account c) (\<lambda>dest.
     ensure Custody (cs_vault c = h_vault (m_head m) \<and> cs_owner_token c \<noteq> cs_vault c
       \<and> tok_owner dest = ac_key (as_owner a) \<and> tok_mint dest = h_quote_mint (m_head m)) (
     andthen (debit_free m i amount) (\<lambda>m.
     andthen (sub_u64 (h_custody (m_head m)) amount) (\<lambda>custody.
     let m = m\<lparr>m_head := (m_head m)\<lparr>h_custody := custody\<rparr>\<rparr> in
     need InvalidAccount (as_address a [NAMESPACE, AUTHORITY_SEED, as_market a, [word_of_nat (h_authority_bump (m_head m))]] (as_program a)) (\<lambda>authority.
     andthen (cs_authority c) (\<lambda>given.
     ensure InvalidAccount (given = authority) (
     andthen (cs_moved c) (\<lambda>_.
     andthen (check_vault (m_head m) c) (\<lambda>_.
     Some (Inr m))))))))))"

definition withdraw :: "market \<Rightarrow> accounts \<Rightarrow> cash_accounts \<Rightarrow> u64 \<Rightarrow> (market \<times> u64) res" where
  "withdraw m a c amount =
     ensure InvalidInstruction (cs_token_program c = cs_token_id c) (
     andthen (owned_trader m a) (\<lambda>i.
     Option.bind (trader_of m i) (\<lambda>t.
     let amount = (if amount = U64_MAX then tr_free t else amount) in
     andthen (if 0 < amount then pay_out m a c i amount else Some (Inr m)) (\<lambda>m.
     andthen (store m) (\<lambda>m. Some (Inr (m, amount)))))))"

subsection \<open>Resting liquidity\<close>

definition uncount_order :: "market \<Rightarrow> u16 \<Rightarrow> market option" where
  "uncount_order m t = do {
     tr \<leftarrow> trader_of m t;
     Some (put_trader m t (tr\<lparr>tr_orders := tr_orders tr - 1\<rparr>)) }"

definition remove_order :: "market \<Rightarrow> u16 \<Rightarrow> (market \<times> u64) res" where
  "remove_order m i =
     Option.bind (slot (m_orders m) i) (\<lambda>r.
     andthen (mul_u64 (o_lots r) (o_escrow_per_lot r)) (\<lambda>escrow.
     andthen (release m (o_trader r) escrow) (\<lambda>m.
     Option.bind (if closes r
         then Option.bind (claim_slot m (o_claim r)) (\<lambda>c.
           Some (if 0 < c_lots c then put_claim m (o_claim r) (c\<lparr>c_reserved := c_reserved c - o_lots r\<rparr>) else m))
         else if o_claim r \<noteq> NO_CLAIM then release_hold m (o_claim r) else Some m) (\<lambda>m.
     Option.bind (uncount_order (put_order m i order_default) (o_trader r)) (\<lambda>m.
     Some (Inr (m, escrow)))))))"

definition cancel :: "market \<Rightarrow> accounts \<Rightarrow> u16 \<Rightarrow> u64 \<Rightarrow> market res" where
  "cancel m a i seq =
     andthen (acting_trader m a) (\<lambda>t.
     need OrderNotFound (slot (m_orders m) i) (\<lambda>r.
     ensure OrderNotFound (o_seq r \<noteq> 0 \<and> o_seq r = seq) (
     ensure Unauthorized (o_trader r = t) (
     andthen (remove_order m i) (\<lambda>(m, _).
     store m)))))"

definition retired_step :: "step \<Rightarrow> step" where
  "retired_step s = s\<lparr>st_bid_lots := 0, st_ask_lots := 0\<rparr>"

definition retire_ladder :: "market \<Rightarrow> u8 \<Rightarrow> (market \<times> u64) res" where
  "retire_ladder m i =
     Option.bind (slot (m_makers m) i) (\<lambda>k.
     andthen (release m (mk_trader k) (mk_escrow k)) (\<lambda>m.
     Option.bind (slot (m_steps m) i) (\<lambda>ss.
     let m = put_steps m i (map retired_step ss) in
     if (\<forall>s\<in>set ss. st_inv s = 0) then
       Option.bind (trader_of m (mk_trader k)) (\<lambda>tr.
       Some (Inr (put_maker (put_trader m (mk_trader k) (tr\<lparr>tr_maker := 0\<rparr>)) i maker_default, mk_escrow k)))
     else Some (Inr (put_maker m i (k\<lparr>mk_seq := 0, mk_escrow := 0\<rparr>), mk_escrow k)))))"

definition cancel_quote :: "market \<Rightarrow> accounts \<Rightarrow> market res" where
  "cancel_quote m a =
     andthen (acting_trader m a) (\<lambda>t.
     Option.bind (trader_of m t) (\<lambda>tr.
     ensure OrderNotFound (tr_maker tr \<noteq> 0) (
     andthen (retire_ladder m (tr_maker tr - 1)) (\<lambda>(m, _).
     store m))))"

subsection \<open>Claims\<close>

text \<open>Where the left part of a split goes: its slot, or a new one when a resting order holds the slot.\<close>

definition put_left :: "market \<Rightarrow> u32 \<Rightarrow> claim \<Rightarrow> market res" where
  "put_left m i c =
     (if c_held c
      then Option.bind (drop_claim m i) (\<lambda>m. andthen (new_claim m (c\<lparr>c_held := False\<rparr>)) (\<lambda>(m, _). Some (Inr m)))
      else andthen (next_seq m) (\<lambda>(m, seq). Some (Inr (put_claim m i (c\<lparr>c_seq := seq\<rparr>)))))"

definition split_claim :: "market \<Rightarrow> accounts \<Rightarrow> u32 \<Rightarrow> u64 \<Rightarrow> u16 \<Rightarrow> market res" where
  "split_claim m a i seq at =
     andthen (acting_trader m a) (\<lambda>t.
     andthen (owned_claim m i seq t) (\<lambda>c.
     ensure InvalidShape (c_lo c < at \<and> at < c_hi c \<and> c_reserved c = 0) (
     let right_cost = cast 64 (c_cost c * (c_hi c - at) div (c_hi c - c_lo c));
         right = claim_default\<lparr>c_lots := c_lots c, c_trader := t, c_side := c_side c, c_lo := at, c_hi := c_hi c,
           c_cost := right_cost, c_opened_ts := c_opened_ts c\<rparr> in
     Option.bind (checked_sub (c_cost c) right_cost) (\<lambda>cost.
     andthen (put_left m i (c\<lparr>c_hi := at, c_cost := cost\<rparr>)) (\<lambda>m.
     andthen (new_claim m right) (\<lambda>(m, _).
     store m))))))"

definition merged_shape :: "claim \<Rightarrow> claim \<Rightarrow> claim res" where
  "merged_shape k x =
     (if c_lo k = c_lo x \<and> c_hi k = c_hi x
      then andthen (add_u64 (c_lots k) (c_lots x)) (\<lambda>lots. Some (Inr (k\<lparr>c_lots := lots\<rparr>)))
      else if c_lots k = c_lots x \<and> (c_hi k = c_lo x \<or> c_hi x = c_lo k)
      then Some (Inr (k\<lparr>c_lo := min (c_lo k) (c_lo x), c_hi := max (c_hi k) (c_hi x)\<rparr>))
      else Some (Inl InvalidShape))"

text \<open>Where the merged claim goes: its slot, or a new one when a resting order holds the slot for the old range.\<close>

definition put_merged :: "market \<Rightarrow> u32 \<Rightarrow> claim \<Rightarrow> u32 \<Rightarrow> claim \<Rightarrow> market res" where
  "put_merged m keep k absorb x =
     (if c_held k \<and> (c_lo k \<noteq> c_lo x \<or> c_hi k \<noteq> c_hi x)
      then Option.bind (drop_claim m keep) (\<lambda>m.
        Option.bind (drop_claim m absorb) (\<lambda>m.
        andthen (new_claim m (k\<lparr>c_held := False\<rparr>)) (\<lambda>(m, _). Some (Inr m))))
      else andthen (next_seq m) (\<lambda>(m, seq).
        Option.bind (drop_claim (put_claim m keep (k\<lparr>c_seq := seq\<rparr>)) absorb) (\<lambda>m. Some (Inr m))))"

definition merge_claims :: "market \<Rightarrow> accounts \<Rightarrow> u32 \<times> u64 \<Rightarrow> u32 \<times> u64 \<Rightarrow> market res" where
  "merge_claims m a keep absorb =
     andthen (acting_trader m a) (\<lambda>t.
     ensure InvalidShape (fst keep \<noteq> fst absorb) (
     andthen (owned_claim m (fst keep) (snd keep) t) (\<lambda>k.
     andthen (owned_claim m (fst absorb) (snd absorb) t) (\<lambda>x.
     ensure InvalidShape (c_side k = c_side x \<and> c_reserved k = 0 \<and> c_reserved x = 0) (
     andthen (merged_shape k x) (\<lambda>k.
     andthen (add_u64 (c_cost k) (c_cost x)) (\<lambda>cost.
     let k = k\<lparr>c_cost := cost, c_opened_ts := min (c_opened_ts k) (c_opened_ts x)\<rparr> in
     andthen (put_merged m (fst keep) k (fst absorb) x) store)))))))"

definition no_redemption_past_final :: "market \<Rightarrow> u16 \<Rightarrow> unit res" where
  "no_redemption_past_final m t =
     Option.bind (trader_of m t) (\<lambda>tr.
     let h = m_head m; unsettled = (\<not> credit_settled h \<or> h_credit_flags h AND CREDIT_SHORTFALL \<noteq> 0) in
     ensure NeedsRecovery
       (\<not> (h_status h \<noteq> STATUS_OPEN \<and> has_credit h \<and> unsettled \<and> tr_owner tr \<noteq> h_credit_owner h)) (
     Some (Inr ())))"

definition redeem :: "market \<Rightarrow> accounts \<Rightarrow> u32 \<times> u64 \<Rightarrow> u32 \<times> u64 \<Rightarrow> u64 \<Rightarrow> market res" where
  "redeem m a long short lots =
     andthen (acting_trader m a) (\<lambda>t.
     andthen (no_redemption_past_final m t) (\<lambda>_.
     andthen (owned_claim m (fst long) (snd long) t) (\<lambda>l.
     andthen (owned_claim m (fst short) (snd short) t) (\<lambda>s.
     ensure NotComplement (c_side l = side_u8 Long \<and> c_side s = side_u8 Short \<and> c_lo l = c_lo s \<and> c_hi l = c_hi s \<and> lots \<noteq> 0) (
     andthen (redeem_pair m (fst long) (fst short) lots False False) (\<lambda>m.
     store m))))))"

text \<open>\<open>on_curve\<close> is whether the receiver's key is a point of the curve, as a wallet's is.\<close>

definition transfer_claim :: "market \<Rightarrow> accounts \<Rightarrow> u32 \<Rightarrow> u64 \<Rightarrow> u64 \<Rightarrow> pubkey \<Rightarrow> bool \<Rightarrow> market res" where
  "transfer_claim m a i seq lots receiver on_curve =
     andthen (owned_trader m a) (\<lambda>t.
     andthen (no_redemption_past_final m t) (\<lambda>_.
     andthen (owned_claim m i seq t) (\<lambda>c.
     Option.bind (checked_sub (c_lots c) (c_reserved c)) (\<lambda>usable.
     ensure ClaimReserved (lots \<noteq> 0 \<and> lots \<le> usable \<and> receiver \<noteq> default_key) (
     ensure InvalidAccount on_curve (
     andthen (trader_slot m receiver) (\<lambda>(m, r).
     Option.bind (shrink c lots) (\<lambda>(c, cost).
     let moved = claim_default\<lparr>c_lots := lots, c_trader := r, c_side := c_side c, c_lo := c_lo c, c_hi := c_hi c,
       c_cost := cost, c_opened_ts := c_opened_ts c\<rparr> in
     andthen (put_shrunk m i c) (\<lambda>m.
     andthen (place m moved None None) (\<lambda>(m, _).
     store m))))))))))"

subsection \<open>Settlement\<close>

definition finalize :: "market \<Rightarrow> pubkey \<Rightarrow> period res \<Rightarrow> u64 \<Rightarrow> market res" where
  "finalize m period_key loaded now =
     (let h = m_head m in
      ensure AlreadyFinal (h_status h = STATUS_OPEN) (
      ensure InvalidAccount (period_key = h_period h) (
      andthen loaded (\<lambda>p.
      ensure NotSettled (pd_status p = Settled \<and> h_expiry_ts h \<le> now \<and> pd_value_decimals p = h_value_decimals h) (
      store (m\<lparr>m_head := h\<lparr>h_settlement_fine := settle_fine (pd_settlement_value p) (h_step_value h) (h_k h),
        h_status := STATUS_SETTLED, h_settled_ts := now\<rparr>\<rparr>))))))"

definition council_may_settle :: "header \<Rightarrow> period \<Rightarrow> u64 \<Rightarrow> unit res" where
  "council_may_settle h p now =
     (case pd_status p of
        Failed \<Rightarrow> Some (Inr ())
      | Settled \<Rightarrow> if pd_value_decimals p \<noteq> h_value_decimals h then Some (Inr ()) else Some (Inl InvalidInstruction)
      | _ \<Rightarrow> if h_expiry_ts h \<le> now then Some (Inr ()) else Some (Inl NotExpired))"

text \<open>The fallback of the council, once its authority is checked.\<close>

definition council_settle :: "market \<Rightarrow> pubkey \<Rightarrow> period res \<Rightarrow> u64 \<Rightarrow> u64 \<Rightarrow> market res" where
  "council_settle m period_key loaded value now =
     (let h = m_head m in
      ensure AlreadyFinal (h_status h = STATUS_OPEN) (
      ensure InvalidAccount (period_key = h_period h) (
      andthen loaded (\<lambda>p.
      andthen (council_may_settle h p now) (\<lambda>_.
      store (m\<lparr>m_head := h\<lparr>h_settlement_fine := settle_fine value (h_step_value h) (h_k h),
        h_status := STATUS_FAILED, h_settled_ts := now\<rparr>\<rparr>))))))"

definition need_final :: "market \<Rightarrow> unit res" where
  "need_final m = ensure NotSettled (h_status (m_head m) \<noteq> STATUS_OPEN) (Some (Inr ()))"

definition may_settle :: "market \<Rightarrow> u16 \<Rightarrow> u64 \<Rightarrow> unit res" where
  "may_settle m t payout =
     Option.bind (trader_of m t) (\<lambda>tr.
     let h = m_head m in
     if \<not> has_credit h \<or> tr_owner tr = h_credit_owner h then Some (Inr ())
     else
       ensure NotSettled (credit_settled h) (
       ensure NeedsRecovery (\<not> (h_credit_flags h AND CREDIT_SHORTFALL \<noteq> 0 \<and> 0 < payout)) (
       Some (Inr ()))))"

text \<open>A payout to a trader, and its counters.\<close>

definition count_paid :: "market \<Rightarrow> u16 \<Rightarrow> u64 \<Rightarrow> market res" where
  "count_paid m t payout =
     Option.bind (trader_of m t) (\<lambda>tr.
     andthen (add_u64 (tr_paid_out tr) payout) (\<lambda>paid.
     Some (Inr (put_trader m t (tr\<lparr>tr_paid_out := paid\<rparr>)))))"

definition settle_one :: "market \<Rightarrow> u32 \<Rightarrow> market res" where
  "settle_one m i =
     andthen (claim_of m i) (\<lambda>c.
     if c_lots c = 0 then Some (Inr m)
     else
       Option.bind (per_lot (m_head m) (c_side c) (c_lo c) (c_hi c)) (\<lambda>per.
       andthen (mul_u64 (c_lots c) per) (\<lambda>payout.
       andthen (may_settle m (c_trader c) payout) (\<lambda>_.
       Option.bind (drop_claim m i) (\<lambda>m.
       andthen (backing_to_free m (c_trader c) payout) (\<lambda>m.
       andthen (add_u64 (h_total_paid_out (m_head m)) payout) (\<lambda>tot.
       count_paid (m\<lparr>m_head := (m_head m)\<lparr>h_total_paid_out := tot\<rparr>\<rparr>) (c_trader c) payout)))))))"

fun settle_each :: "market \<Rightarrow> u32 list \<Rightarrow> market res" where
  "settle_each m [] = Some (Inr m)"
| "settle_each m (i # is) = andthen (settle_one m i) (\<lambda>m. settle_each m is)"

definition settle :: "market \<Rightarrow> u32 list \<Rightarrow> market res" where
  "settle m claims = andthen (need_final m) (\<lambda>_. andthen (settle_each m claims) store)"

fun inventory_payout :: "header \<Rightarrow> u16 \<Rightarrow> step list \<Rightarrow> u64 \<Rightarrow> u64 res" where
  "inventory_payout h x [] payout = Some (Inr payout)"
| "inventory_payout h x (s # ss) payout =
     Option.bind (per_lot h (if 0 < st_inv s then 0 else 1) x (x + 1)) (\<lambda>per.
     andthen (mul_u64 (nat \<bar>st_inv s\<bar>) per) (\<lambda>part.
     andthen (add_u64 payout part) (\<lambda>payout.
     inventory_payout h (x + 1) ss payout)))"

definition settle_maker :: "market \<Rightarrow> u8 \<Rightarrow> market res" where
  "settle_maker m i =
     andthen (need_final m) (\<lambda>_.
     need OrderNotFound (slot (m_makers m) i) (\<lambda>k.
     ensure OrderNotFound (mk_used k) (
     Option.bind (slot (m_steps m) i) (\<lambda>ss.
     andthen (inventory_payout (m_head m) 0 ss 0) (\<lambda>payout.
     let m = put_steps m i (map (\<lambda>s. s\<lparr>st_inv := 0\<rparr>) ss) in
     andthen (may_settle m (mk_trader k) payout) (\<lambda>_.
     andthen (backing_to_free m (mk_trader k) payout) (\<lambda>m.
     andthen (add_u64 (h_total_paid_out (m_head m)) payout) (\<lambda>tot.
     andthen (retire_ladder (m\<lparr>m_head := (m_head m)\<lparr>h_total_paid_out := tot\<rparr>\<rparr>) i) (\<lambda>(m, _).
     andthen (count_paid m (mk_trader k) payout) store)))))))))"

fun prune_each :: "market \<Rightarrow> u16 list \<Rightarrow> market res" where
  "prune_each m [] = Some (Inr m)"
| "prune_each m (i # is) =
     (if i < length (m_orders m) \<and> o_seq (m_orders m ! i) \<noteq> 0
      then andthen (remove_order m i) (\<lambda>(m, _). prune_each m is)
      else prune_each m is)"

definition prune :: "market \<Rightarrow> u16 list \<Rightarrow> market res" where
  "prune m orders = andthen (need_final m) (\<lambda>_. andthen (prune_each m orders) store)"

end
