(* ===== verification/Market_Worth.thy ===== *)
theory Market_Worth
  imports Market_Instructions
begin

text \<open>
  What a trader's cash, claims and inventory are worth at a settlement, and how every operation on claims changes
  it. \<open>worth P m s\<close> adds up the traders whose slot \<open>P\<close> selects: one of them, or all. The relation \<open>moves\<close> says what
  an operation adds to it and that the market's terms stay as they were; the operations compose by adding up.
\<close>

definition unit_pay :: "nat \<Rightarrow> nat \<Rightarrow> bool \<Rightarrow> nat \<Rightarrow> nat \<Rightarrow> int" where
  "unit_pay k s long lo hi = (if long then int (long_spec lo hi s k) else int ((hi - lo) * k) - int (long_spec lo hi s k))"

definition pays :: "nat \<Rightarrow> nat \<Rightarrow> claim \<Rightarrow> int" where
  "pays k s c = int (c_lots c) * unit_pay k s (c_side c = side_u8 Long) (c_lo c) (c_hi c)"

definition val :: "(nat \<Rightarrow> bool) \<Rightarrow> nat \<Rightarrow> nat \<Rightarrow> claim \<Rightarrow> int" where
  "val P k s c = (if P (c_trader c) then pays k s c else 0)"

definition steps_pay :: "nat \<Rightarrow> nat \<Rightarrow> step list \<Rightarrow> int" where
  "steps_pay k s ss = (\<Sum>x<length ss. \<bar>st_inv (ss ! x)\<bar> * unit_pay k s (0 < st_inv (ss ! x)) x (x + 1))"

definition maker_val :: "(nat \<Rightarrow> bool) \<Rightarrow> nat \<Rightarrow> nat \<Rightarrow> maker \<times> step list \<Rightarrow> int" where
  "maker_val P k s q = (if mk_used (fst q) \<and> P (mk_trader (fst q)) then steps_pay k s (snd q) else 0)"

definition cash :: "(nat \<Rightarrow> bool) \<Rightarrow> trader list \<Rightarrow> int" where
  "cash P ts = (\<Sum>i<length ts. if P i then int (tr_free (ts ! i) + tr_reserved (ts ! i)) else 0)"

definition claims_val :: "(nat \<Rightarrow> bool) \<Rightarrow> nat \<Rightarrow> nat \<Rightarrow> claim list \<Rightarrow> int" where
  "claims_val P k s cs = (\<Sum>c\<leftarrow>cs. val P k s c)"

definition makers_val :: "(nat \<Rightarrow> bool) \<Rightarrow> nat \<Rightarrow> nat \<Rightarrow> (maker \<times> step list) list \<Rightarrow> int" where
  "makers_val P k s ks = (\<Sum>q\<leftarrow>ks. maker_val P k s q)"

definition worth :: "(nat \<Rightarrow> bool) \<Rightarrow> market \<Rightarrow> nat \<Rightarrow> int" where
  "worth P m s = cash P (m_traders m) + claims_val P (h_k (m_head m)) s (m_claims m)
     + makers_val P (h_k (m_head m)) s (zip (m_makers m) (m_steps m))"

text \<open>What is owed to all claims and inventories together at a settlement.\<close>

definition all_pay :: "market \<Rightarrow> nat \<Rightarrow> int" where
  "all_pay m s = claims_val (\<lambda>_. True) (h_k (m_head m)) s (m_claims m)
     + makers_val (\<lambda>_. True) (h_k (m_head m)) s (zip (m_makers m) (m_steps m))"

subsection \<open>Shapes\<close>

definition shaped :: "nat \<Rightarrow> nat \<Rightarrow> claim \<Rightarrow> bool" where
  "shaped grid traders c \<longleftrightarrow> c_side c \<le> 1 \<and> c_lo c < c_hi c \<and> c_hi c \<le> grid \<and> c_trader c < traders"

definition claim_formed :: "nat \<Rightarrow> nat \<Rightarrow> claim \<Rightarrow> bool" where
  "claim_formed grid traders c \<longleftrightarrow> (0 < c_lots c \<or> c_held c \<longrightarrow> shaped grid traders c)"

definition formed :: "market \<Rightarrow> bool" where
  "formed m \<longleftrightarrow> (\<forall>c\<in>set (m_claims m). claim_formed (h_grid (m_head m)) (length (m_traders m)) c)"

definition same_kind :: "claim \<Rightarrow> claim \<Rightarrow> bool" where
  "same_kind c d \<longleftrightarrow> c_trader c = c_trader d \<and> c_side c = c_side d \<and> c_lo c = c_lo d \<and> c_hi c = c_hi d"

lemma same_kind_refl [simp]: "same_kind c c"
  by (simp add: same_kind_def)

lemma same_kind_shaped: "same_kind c d \<Longrightarrow> shaped g n c \<longleftrightarrow> shaped g n d"
  by (simp add: same_kind_def shaped_def)

lemma claim_formed_default [simp]: "claim_formed g n claim_default"
  by (simp add: claim_formed_def claim_default_def)

lemma val_default [simp]: "val P k s claim_default = 0"
  by (simp add: val_def pays_def claim_default_def)

lemma val_no_lots [simp]: "c_lots c = 0 \<Longrightarrow> val P k s c = 0"
  by (simp add: val_def pays_def)

text \<open>Lots add up, and a long and a short claim of one range are worth their set.\<close>

lemma val_lots:
  assumes "same_kind x y" "same_kind y z" "c_lots x = c_lots y + c_lots z"
  shows "val P k s x = val P k s y + val P k s z"
  using assms by (simp add: val_def pays_def same_kind_def distrib_right)

definition set_pay :: "(nat \<Rightarrow> bool) \<Rightarrow> nat \<Rightarrow> nat \<Rightarrow> nat \<Rightarrow> nat \<Rightarrow> nat \<Rightarrow> int" where
  "set_pay P k t lo hi lots = (if P t then int (lots * ((hi - lo) * k)) else 0)"

lemma unit_pay_set: "unit_pay k s True lo hi + unit_pay k s False lo hi = int ((hi - lo) * k)"
  by (simp add: unit_pay_def)

lemma val_set:
  assumes "c_trader y = c_trader x" "c_lo y = c_lo x" "c_hi y = c_hi x" "c_side y \<noteq> c_side x"
    "c_side x \<le> 1" "c_side y \<le> 1" "c_lots y = c_lots x"
  shows "val P k s x + val P k s y = set_pay P k (c_trader x) (c_lo x) (c_hi x) (c_lots x)"
proof -
  have "c_side x = 0 \<and> c_side y = 1 \<or> c_side x = 1 \<and> c_side y = 0" using assms(4-6) by linarith
  then have "pays k s x + pays k s y = int (c_lots x) * (unit_pay k s True (c_lo x) (c_hi x) + unit_pay k s False (c_lo x) (c_hi x))"
    using assms(2,3,7) by (auto simp: pays_def algebra_simps)
  then show ?thesis using assms(1) by (simp add: val_def set_pay_def unit_pay_set)
qed

lemma unit_pay_split:
  assumes "lo \<le> a" "a \<le> hi"
  shows "unit_pay k s b lo hi = unit_pay k s b lo a + unit_pay k s b a hi"
proof -
  have "long_spec lo hi s k = long_spec lo a s k + long_spec a hi s k" using assms by (rule long_spec_split)
  moreover have "(hi - lo) * k = (a - lo) * k + (hi - a) * k" using assms by (simp add: add_mult_distrib [symmetric])
  ultimately show ?thesis by (simp add: unit_pay_def)
qed

subsection \<open>Sums over arenas\<close>

lemma sum_list_put:
  "i < length xs \<Longrightarrow> (\<Sum>x\<leftarrow>xs[i := y]. f x) = (\<Sum>x\<leftarrow>xs. f x) - f (xs ! i) + (f y :: int)"
  by (induction xs arbitrary: i) (auto split: nat.splits)

lemma claims_val_put:
  "i < length cs \<Longrightarrow> claims_val P k s (cs[i := c]) = claims_val P k s cs - val P k s (cs ! i) + val P k s c"
  unfolding claims_val_def by (rule sum_list_put)

lemma cash_put:
  assumes "i < length ts"
  shows "cash P (ts[i := t]) = cash P ts + (if P i then int (tr_free t + tr_reserved t)
           - int (tr_free (ts ! i) + tr_reserved (ts ! i)) else 0)"
proof -
  define f where "f = (\<lambda>(u :: trader) j. if P j then int (tr_free u + tr_reserved u) else 0)"
  have "cash P (ts[i := t]) = (\<Sum>j<length ts. f (if j = i then t else ts ! j) j)"
    by (simp add: cash_def f_def nth_list_update) (rule sum.cong, auto)
  also have "\<dots> = f t i + (\<Sum>j\<in>{..<length ts} - {i}. f (ts ! j) j)"
    using assms by (subst sum.remove [of _ i]) (auto intro!: sum.cong)
  also have "(\<Sum>j\<in>{..<length ts} - {i}. f (ts ! j) j) = cash P ts - f (ts ! i) i"
    using assms by (subst sum_diff1) (auto simp: cash_def f_def)
  finally show ?thesis by (simp add: f_def)
qed

lemma cash_same:
  "length ts = length us \<Longrightarrow> (\<And>i. i < length ts \<Longrightarrow> tr_free (ts ! i) + tr_reserved (ts ! i) = tr_free (us ! i) + tr_reserved (us ! i))
    \<Longrightarrow> cash P ts = cash P us"
  unfolding cash_def by (rule sum.cong) (simp_all only: lessThan_iff)

subsection \<open>Moves\<close>

text \<open>The header without the counters that operations on claims and cash change.\<close>

definition terms :: "market \<Rightarrow> header" where
  "terms m = (m_head m)\<lparr>h_total_free := 0, h_total_reserved := 0, h_backing := 0, h_next_seq := 0, h_claim_hint := 0,
     h_claims_open := 0, h_total_paid_out := 0\<rparr>"

text \<open>How far the traders' cash is from the header's totals; the audit refuses any difference.\<close>

definition drift :: "market \<Rightarrow> int" where
  "drift m = cash (\<lambda>_. True) (m_traders m) - int (h_total_free (m_head m) + h_total_reserved (m_head m))"

text \<open>Slots that resting orders hold stay held, for the same trader, side and range.\<close>

definition holds_kept :: "claim list \<Rightarrow> claim list \<Rightarrow> bool" where
  "holds_kept cs ds \<longleftrightarrow> (\<forall>j<length cs. c_held (cs ! j) \<longrightarrow> c_held (ds ! j) \<and> same_kind (ds ! j) (cs ! j))"

lemma holds_kept_refl [simp]: "holds_kept cs cs"
  by (simp add: holds_kept_def)

lemma holds_kept_trans: "holds_kept cs ds \<Longrightarrow> holds_kept ds es \<Longrightarrow> length ds = length cs \<Longrightarrow> holds_kept cs es"
  by (simp add: holds_kept_def same_kind_def)

definition stays_held :: "claim \<Rightarrow> claim \<Rightarrow> bool" where
  "stays_held c d \<longleftrightarrow> (c_held c \<longrightarrow> c_held d \<and> same_kind d c)"

lemma holds_kept_put: "stays_held (cs ! i) d \<Longrightarrow> holds_kept cs (cs[i := d])"
  by (cases "i < length cs") (auto simp: holds_kept_def stays_held_def nth_list_update)

definition moves :: "market \<Rightarrow> market \<Rightarrow> ((nat \<Rightarrow> bool) \<Rightarrow> nat \<Rightarrow> int) \<Rightarrow> bool" where
  "moves m m' d \<longleftrightarrow>
     terms m' = terms m \<and> length (m_claims m') = length (m_claims m) \<and> holds_kept (m_claims m) (m_claims m')
     \<and> map tr_owner (m_traders m') = map tr_owner (m_traders m)
     \<and> m_orders m' = m_orders m \<and> m_makers m' = m_makers m \<and> m_steps m' = m_steps m \<and> m_approval m' = m_approval m
     \<and> drift m' = drift m \<and> (\<forall>P s. worth P m' s = worth P m s + d P s)"

lemma terms_eq:
  assumes "terms m' = terms m"
  shows "h_k (m_head m') = h_k (m_head m)" "h_grid (m_head m') = h_grid (m_head m)"
    "h_status (m_head m') = h_status (m_head m)" "h_settlement_fine (m_head m') = h_settlement_fine (m_head m)"
    "h_custody (m_head m') = h_custody (m_head m)" "h_debt (m_head m') = h_debt (m_head m)"
    "h_credit_owner (m_head m') = h_credit_owner (m_head m)" "h_credit_flags (m_head m') = h_credit_flags (m_head m)"
  using assms [THEN arg_cong [of _ _ h_k]] assms [THEN arg_cong [of _ _ h_grid]]
    assms [THEN arg_cong [of _ _ h_status]] assms [THEN arg_cong [of _ _ h_settlement_fine]]
    assms [THEN arg_cong [of _ _ h_custody]] assms [THEN arg_cong [of _ _ h_debt]]
    assms [THEN arg_cong [of _ _ h_credit_owner]] assms [THEN arg_cong [of _ _ h_credit_flags]]
  by (simp_all add: terms_def)

lemma moves_terms:
  assumes "moves m m' d"
  shows "h_k (m_head m') = h_k (m_head m)" "h_grid (m_head m') = h_grid (m_head m)"
    "length (m_traders m') = length (m_traders m)" "length (m_claims m') = length (m_claims m)"
proof -
  have "terms m' = terms m" using assms by (simp add: moves_def)
  then show "h_k (m_head m') = h_k (m_head m)" "h_grid (m_head m') = h_grid (m_head m)" by (rule terms_eq)+
  have "map tr_owner (m_traders m') = map tr_owner (m_traders m)" using assms by (simp add: moves_def)
  from arg_cong [OF this, of length] show "length (m_traders m') = length (m_traders m)" by simp
  show "length (m_claims m') = length (m_claims m)" using assms by (simp add: moves_def)
qed

lemma moves_refl [intro]: "moves m m (\<lambda>P s. 0)"
  by (simp add: moves_def)

lemma moves_trans:
  "moves m m' d \<Longrightarrow> moves m' m'' e \<Longrightarrow> moves m m'' (\<lambda>P s. d P s + e P s)"
  by (auto simp: moves_def elim: holds_kept_trans)

lemma moves_cong: "moves m m' d \<Longrightarrow> (\<And>P s. d P s = e P s) \<Longrightarrow> moves m m' e"
  by (simp add: moves_def)

lemma moves_head:
  assumes "terms (m\<lparr>m_head := h\<rparr>) = terms m" "h_total_free h = h_total_free (m_head m)"
    "h_total_reserved h = h_total_reserved (m_head m)"
  shows "moves m (m\<lparr>m_head := h\<rparr>) (\<lambda>P s. 0)"
  using assms terms_eq(1) [OF assms(1)] by (simp add: moves_def worth_def drift_def)

lemma moves_put_claim:
  assumes "i < length (m_claims m)" "stays_held (m_claims m ! i) c"
  shows "moves m (put_claim m i c)
    (\<lambda>P s. val P (h_k (m_head m)) s c - val P (h_k (m_head m)) s (m_claims m ! i))"
  using assms by (simp add: moves_def put_claim_def terms_def worth_def claims_val_put drift_def holds_kept_put)

definition at :: "(nat \<Rightarrow> bool) \<Rightarrow> nat \<Rightarrow> nat \<Rightarrow> int" where
  "at P i amount = (if P i then int amount else 0)"

lemma moves_cash:
  assumes "slot (m_traders m) i = Some t" "m' = put_trader (m\<lparr>m_head := h\<rparr>) i u"
    "terms (m\<lparr>m_head := h\<rparr>) = terms m" "tr_owner u = tr_owner t"
    "int (tr_free u + tr_reserved u) = int (tr_free t + tr_reserved t) + e"
    "int (h_total_free h + h_total_reserved h) = int (h_total_free (m_head m) + h_total_reserved (m_head m)) + e"
  shows "moves m m' (\<lambda>P s. if P i then e else 0) \<and> m_claims m' = m_claims m"
proof -
  have i: "i < length (m_traders m)" "t = m_traders m ! i" using assms(1) by (simp_all add: slot_Some)
  have owners: "map tr_owner ((m_traders m)[i := u]) = map tr_owner (m_traders m)"
    by (metis assms(4) i list_update_id map_update nth_map)
  have k: "h_k h = h_k (m_head m)" using terms_eq(1) [OF assms(3)] by simp
  have cash: "cash P ((m_traders m)[i := u]) = cash P (m_traders m) + (if P i then e else 0)" for P
    using assms(5) i(2) by (simp add: cash_put [OF i(1)])
  have "moves m m' (\<lambda>P s. if P i then e else 0)"
    using assms(3,6) owners by (simp add: moves_def assms(2) put_trader_def terms_def worth_def cash k drift_def)
  then show ?thesis by (simp add: assms(2) put_trader_def)
qed

lemma moves_put_trader:
  assumes "i < length (m_traders m)" "tr_owner t = tr_owner (m_traders m ! i)"
    "tr_free t + tr_reserved t = tr_free (m_traders m ! i) + tr_reserved (m_traders m ! i)"
  shows "moves m (put_trader m i t) (\<lambda>P s. 0)"
  using moves_cash [of m i "m_traders m ! i" "put_trader m i t" "m_head m" t 0] assms by (simp add: slot_Some)

lemma credit_free_moves:
  assumes "credit_free m i amount = Some (Inr m')"
  shows "moves m m' (\<lambda>P s. at P i amount) \<and> m_claims m' = m_claims m"
proof -
  obtain t h u where eq: "slot (m_traders m) i = Some t" "m' = put_trader (m\<lparr>m_head := h\<rparr>) i u"
    "terms (m\<lparr>m_head := h\<rparr>) = terms m" "tr_owner u = tr_owner t" and e: "tr_free u + tr_reserved u = tr_free t + tr_reserved t + amount"
      "h_total_free h + h_total_reserved h = h_total_free (m_head m) + h_total_reserved (m_head m) + amount"
    using assms by (fastforce simp: credit_free_def res_simps option_bind_eq_Some terms_def)
  have "int (tr_free u + tr_reserved u) = int (tr_free t + tr_reserved t) + (int amount)" using e(1) by linarith
  moreover have "int (h_total_free h + h_total_reserved h) = int (h_total_free (m_head m) + h_total_reserved (m_head m)) + (int amount)"
    using e(2) by linarith
  ultimately have "moves m m' (\<lambda>P s. if P i then int amount else 0) \<and> m_claims m' = m_claims m" by (rule moves_cash [OF eq])
  then show ?thesis by (auto simp: at_def elim: moves_cong)
qed

lemma debit_free_moves:
  assumes "debit_free m i amount = Some (Inr m')"
  shows "moves m m' (\<lambda>P s. - at P i amount) \<and> m_claims m' = m_claims m"
proof -
  obtain t h u where eq: "slot (m_traders m) i = Some t" "m' = put_trader (m\<lparr>m_head := h\<rparr>) i u"
    "terms (m\<lparr>m_head := h\<rparr>) = terms m" "tr_owner u = tr_owner t" and e: "tr_free u + tr_reserved u + amount = tr_free t + tr_reserved t"
      "h_total_free h + h_total_reserved h + amount = h_total_free (m_head m) + h_total_reserved (m_head m)"
    using assms by (fastforce simp: debit_free_def res_simps option_bind_eq_Some terms_def)
  have "int (tr_free u + tr_reserved u) = int (tr_free t + tr_reserved t) + (- int amount)" using e(1) by linarith
  moreover have "int (h_total_free h + h_total_reserved h) = int (h_total_free (m_head m) + h_total_reserved (m_head m)) + (- int amount)"
    using e(2) by linarith
  ultimately have "moves m m' (\<lambda>P s. if P i then - int amount else 0) \<and> m_claims m' = m_claims m" by (rule moves_cash [OF eq])
  then show ?thesis by (auto simp: at_def elim: moves_cong)
qed

lemma release_moves:
  assumes "release m i amount = Some (Inr m')"
  shows "moves m m' (\<lambda>P s. 0) \<and> m_claims m' = m_claims m"
proof -
  obtain t h u where eq: "slot (m_traders m) i = Some t" "m' = put_trader (m\<lparr>m_head := h\<rparr>) i u"
    "terms (m\<lparr>m_head := h\<rparr>) = terms m" "tr_owner u = tr_owner t" and e: "tr_free u + tr_reserved u = tr_free t + tr_reserved t"
      "h_total_free h + h_total_reserved h = h_total_free (m_head m) + h_total_reserved (m_head m)"
    using assms by (fastforce simp: release_def res_simps option_bind_eq_Some terms_def)
  have "int (tr_free u + tr_reserved u) = int (tr_free t + tr_reserved t) + (0)" using e(1) by linarith
  moreover have "int (h_total_free h + h_total_reserved h) = int (h_total_free (m_head m) + h_total_reserved (m_head m)) + (0)"
    using e(2) by linarith
  ultimately have "moves m m' (\<lambda>P s. if P i then 0 else 0) \<and> m_claims m' = m_claims m" by (rule moves_cash [OF eq])
  then show ?thesis by (auto simp: at_def elim: moves_cong)
qed

lemma reserved_to_backing_moves:
  assumes "reserved_to_backing m i amount = Some (Inr m')"
  shows "moves m m' (\<lambda>P s. - at P i amount) \<and> m_claims m' = m_claims m"
proof -
  obtain t h u where eq: "slot (m_traders m) i = Some t" "m' = put_trader (m\<lparr>m_head := h\<rparr>) i u"
    "terms (m\<lparr>m_head := h\<rparr>) = terms m" "tr_owner u = tr_owner t" and e: "tr_free u + tr_reserved u + amount = tr_free t + tr_reserved t"
      "h_total_free h + h_total_reserved h + amount = h_total_free (m_head m) + h_total_reserved (m_head m)"
    using assms by (fastforce simp: reserved_to_backing_def res_simps option_bind_eq_Some terms_def)
  have "int (tr_free u + tr_reserved u) = int (tr_free t + tr_reserved t) + (- int amount)" using e(1) by linarith
  moreover have "int (h_total_free h + h_total_reserved h) = int (h_total_free (m_head m) + h_total_reserved (m_head m)) + (- int amount)"
    using e(2) by linarith
  ultimately have "moves m m' (\<lambda>P s. if P i then - int amount else 0) \<and> m_claims m' = m_claims m" by (rule moves_cash [OF eq])
  then show ?thesis by (auto simp: at_def elim: moves_cong)
qed

lemma backing_to_free_moves:
  assumes "backing_to_free m i amount = Some (Inr m')"
  shows "moves m m' (\<lambda>P s. at P i amount) \<and> m_claims m' = m_claims m"
proof -
  obtain backing where *: "credit_free (m\<lparr>m_head := (m_head m)\<lparr>h_backing := backing\<rparr>\<rparr>) i amount = Some (Inr m')"
    using assms by (auto simp: backing_to_free_def res_simps)
  have "moves m (m\<lparr>m_head := (m_head m)\<lparr>h_backing := backing\<rparr>\<rparr>) (\<lambda>P s. 0)" by (rule moves_head) (simp_all add: terms_def)
  from moves_trans [OF this conjunct1 [OF credit_free_moves [OF *]]] credit_free_moves [OF *]
  show ?thesis by simp
qed

lemma next_seq_moves:
  assumes "next_seq m = Some (Inr (m', seq))"
  shows "moves m m' (\<lambda>P s. 0) \<and> m_claims m' = m_claims m \<and> m_traders m' = m_traders m"
  using assms moves_head by (auto simp: next_seq_def res_simps terms_def)

lemma formed_put:
  assumes "moves m m' d" "formed m" "m_claims m' = (m_claims m)[i := c]"
    "claim_formed (h_grid (m_head m)) (length (m_traders m)) c"
  shows "formed m'"
  using assms(2-4) set_update_subset_insert [of "m_claims m" i c] moves_terms [OF assms(1)]
  by (auto simp: formed_def)

lemma formed_same: "moves m m' d \<Longrightarrow> formed m \<Longrightarrow> m_claims m' = m_claims m \<Longrightarrow> formed m'"
  using moves_terms by (simp add: formed_def)

lemma formed_at:
  assumes "formed m" "i < length (m_claims m)"
  shows "claim_formed (h_grid (m_head m)) (length (m_traders m)) (m_claims m ! i)"
  using assms by (simp add: formed_def)

subsection \<open>Slots\<close>

lemma count_claim_moves:
  assumes "count_claim m t = Some m'"
  shows "moves m m' (\<lambda>P s. 0) \<and> m_claims m' = m_claims m"
proof -
  obtain tr h u where eq: "slot (m_traders m) t = Some tr" "m' = put_trader (m\<lparr>m_head := h\<rparr>) t u"
    "terms (m\<lparr>m_head := h\<rparr>) = terms m" "tr_owner u = tr_owner tr" and e: "tr_free u + tr_reserved u = tr_free tr + tr_reserved tr"
      "h_total_free h + h_total_reserved h = h_total_free (m_head m) + h_total_reserved (m_head m)"
    using assms by (fastforce simp: count_claim_def option_bind_eq_Some terms_def)
  have "int (tr_free u + tr_reserved u) = int (tr_free tr + tr_reserved tr) + 0" using e(1) by linarith
  moreover have "int (h_total_free h + h_total_reserved h) = int (h_total_free (m_head m) + h_total_reserved (m_head m)) + 0"
    using e(2) by linarith
  ultimately have "moves m m' (\<lambda>P s. if P t then 0 else 0) \<and> m_claims m' = m_claims m" by (rule moves_cash [OF eq])
  then show ?thesis by (auto elim: moves_cong)
qed

definition vacant :: "claim \<Rightarrow> bool" where
  "vacant c \<longleftrightarrow> c_lots c = 0 \<and> \<not> c_held c"

lemma free_slot_moves:
  assumes "free_slot m = Some (Inr (m', i))"
  shows "moves m m' (\<lambda>P s. 0) \<and> m_claims m' = m_claims m \<and> i < length (m_claims m) \<and> vacant (m_claims m ! i)"
proof -
  define cap where "cap = length (m_claims m)"
  obtain f: "find (\<lambda>i. c_lots (m_claims m ! i) = 0 \<and> \<not> c_held (m_claims m ! i))
      (map (\<lambda>j. (h_claim_hint (m_head m) + j) mod cap) [0..<cap]) = Some i"
    and m': "m' = m\<lparr>m_head := (m_head m)\<lparr>h_claim_hint := (i + 1) mod cap\<rparr>\<rparr>"
    using assms by (auto simp: free_slot_def res_simps cap_def Let_def)
  from f obtain n where n: "n < cap" "vacant (m_claims m ! i)" "i = (h_claim_hint (m_head m) + [0..<cap] ! n) mod cap"
    by (auto simp: find_Some_iff vacant_def)
  then have "i < cap" by (metis gr_zeroI less_nat_zero_code mod_less_divisor)
  moreover have "moves m m' (\<lambda>P s. 0)" unfolding m' by (rule moves_head) (simp_all add: terms_def)
  ultimately show ?thesis using n(2) by (simp add: m' cap_def)
qed

lemma new_claim_moves:
  assumes "new_claim m c = Some (Inr (m', i))"
  shows "moves m m' (\<lambda>P s. val P (h_k (m_head m)) s c) \<and> i < length (m_claims m) \<and> vacant (m_claims m ! i)
    \<and> (\<exists>seq. m_claims m' = (m_claims m)[i := c\<lparr>c_seq := seq\<rparr>])"
proof -
  obtain m1 m2 seq where m1: "free_slot m = Some (Inr (m1, i))" and m2: "next_seq m1 = Some (Inr (m2, seq))"
    and m': "count_claim (put_claim m2 i (c\<lparr>c_seq := seq\<rparr>)) (c_trader c) = Some m'"
    using assms by (auto simp: new_claim_def res_simps option_bind_eq_Some)
  note 1 = free_slot_moves [OF m1] and 2 = next_seq_moves [OF m2]
  have 3: "moves m m2 (\<lambda>P s. 0)" using moves_trans [of m m1 _ m2] 1 2 by fastforce
  have same: "m_claims m2 = m_claims m" and k: "h_k (m_head m2) = h_k (m_head m)" using 1 2 moves_terms [OF 3] by auto
  have i: "i < length (m_claims m2)" "vacant (m_claims m ! i)" using 1 same by auto
  have "stays_held (m_claims m2 ! i) (c\<lparr>c_seq := seq\<rparr>)" using i(2) by (simp add: same vacant_def stays_held_def)
  note 4 = moves_put_claim [OF i(1) this]
  note 5 = count_claim_moves [OF m']
  have "moves m m' (\<lambda>P s. val P (h_k (m_head m)) s c)"
    by (rule moves_cong [OF moves_trans [OF moves_trans [OF 3 4] conjunct1 [OF 5]]])
      (use i in \<open>simp add: same k vacant_def val_def pays_def\<close>)
  then show ?thesis using 5 i same by (auto simp: put_claim_def)
qed

text \<open>What is left in a slot whose claim \<open>c\<close> is dropped.\<close>

definition remnant :: "claim \<Rightarrow> claim" where
  "remnant c = (if c_held c then placeholder c else claim_default)"

lemma remnant_no_lots [simp]: "c_lots (remnant c) = 0" "c_held (remnant c) = c_held c"
  by (simp_all add: remnant_def placeholder_def claim_default_def)

lemma remnant_stays_held: "stays_held c (remnant c)"
  by (simp add: stays_held_def remnant_def placeholder_def same_kind_def)

lemma remnant_kind: "c_held c \<Longrightarrow> same_kind (remnant c) c"
  by (simp add: remnant_def placeholder_def same_kind_def)

lemma remnant_formed: "claim_formed g n c \<Longrightarrow> claim_formed g n (remnant c)"
  using remnant_kind [of c] same_kind_shaped [of "remnant c" c] by (auto simp: claim_formed_def)

lemma drop_claim_moves:
  assumes "drop_claim m i = Some m'"
  shows "moves m m' (\<lambda>P s. - val P (h_k (m_head m)) s (m_claims m ! i)) \<and> i < length (m_claims m)
    \<and> m_claims m' = (m_claims m)[i := remnant (m_claims m ! i)]"
proof -
  define c where "c = m_claims m ! i"
  obtain t where i: "i < length (m_claims m)" and t: "trader_of m (c_trader c) = Some t"
    and m': "m' = put_claim ((put_trader m (c_trader c) (t\<lparr>tr_claims := tr_claims t - 1\<rparr>))
      \<lparr>m_head := (m_head m)\<lparr>h_claims_open := h_claims_open (m_head m) - 1\<rparr>\<rparr>) i (remnant c)" (is "_ = put_claim ?m i _")
    using assms by (auto simp: drop_claim_def option_bind_eq_Some slot_Some c_def remnant_def Let_def put_trader_def)
  have "moves m (put_trader m (c_trader c) (t\<lparr>tr_claims := tr_claims t - 1\<rparr>)) (\<lambda>P s. 0)" (is "moves m ?n _")
    using t by (intro moves_put_trader) (auto simp: slot_Some)
  from moves_trans [OF this moves_head [where m = ?n and h = "(m_head m)\<lparr>h_claims_open := h_claims_open (m_head m) - 1\<rparr>"]]
  have 1: "moves m ?m (\<lambda>P s. 0) \<and> m_claims ?m = m_claims m" by (simp add: terms_def put_trader_def)
  have j: "i < length (m_claims ?m)" using i 1 by simp
  have hs: "stays_held (m_claims ?m ! i) (remnant c)" using 1 remnant_stays_held by (simp add: c_def put_trader_def)
  have "moves m m' (\<lambda>P s. - val P (h_k (m_head m)) s (m_claims m ! i))"
    unfolding m' by (rule moves_cong [OF moves_trans [OF conjunct1 [OF 1] moves_put_claim [OF j hs]]])
      (simp add: put_trader_def)
  then show ?thesis using i by (simp add: m' put_claim_def put_trader_def c_def)
qed

subsection \<open>Redemption\<close>

lemma shrink_facts:
  assumes "shrink c lots = Some (c', part)"
  shows "same_kind c' c" "c_lots c = c_lots c' + lots" "c_held c' = c_held c" "c_reserved c' = c_reserved c"
  using assms by (auto simp: shrink_def same_kind_def option_bind_eq_Some checked_simps Let_def split: if_splits)

lemma give_up_facts:
  assumes "give_up c lots res = Some (Inr c')"
  shows "same_kind c' c" "c_lots c = c_lots c' + lots" "c_held c' = c_held c"
    "c_reserved c' = c_reserved c - (if res then lots else 0)"
proof -
  obtain d part where d: "d = c\<lparr>c_reserved := c_reserved c - (if res then lots else 0)\<rparr>" "shrink d lots = Some (c', part)"
    using assms by (auto simp: give_up_def res_simps option_bind_eq_Some checked_simps split: if_splits)
  show "same_kind c' c" "c_lots c = c_lots c' + lots" "c_held c' = c_held c"
    "c_reserved c' = c_reserved c - (if res then lots else 0)"
    using shrink_facts [OF d(2)] by (simp_all add: d(1) same_kind_def)
qed

lemma put_shrunk_moves:
  assumes "put_shrunk m i c = Some (Inr m')" "i < length (m_claims m)" "stays_held (m_claims m ! i) c"
  shows "moves m m' (\<lambda>P s. val P (h_k (m_head m)) s c - val P (h_k (m_head m)) s (m_claims m ! i))
    \<and> (\<exists>d. m_claims m' = (m_claims m)[i := d]
        \<and> (if c_lots c = 0 then d = remnant (m_claims m ! i) else \<exists>seq. d = c\<lparr>c_seq := seq\<rparr>))"
proof (cases "c_lots c = 0")
  case True
  then have "drop_claim m i = Some m'" using assms(1) by (auto simp: put_shrunk_def option_bind_eq_Some)
  from drop_claim_moves [OF this] True show ?thesis by (auto elim: moves_cong)
next
  case False
  then obtain m1 seq where 1: "next_seq m = Some (Inr (m1, seq))" and m': "m' = put_claim m1 i (c\<lparr>c_seq := seq\<rparr>)"
    using assms(1) by (auto simp: put_shrunk_def res_simps)
  note 2 = next_seq_moves [OF 1]
  then have i: "i < length (m_claims m1)" "stays_held (m_claims m1 ! i) (c\<lparr>c_seq := seq\<rparr>)"
    using assms(2,3) by (simp_all add: stays_held_def same_kind_def)
  have "moves m m' (\<lambda>P s. val P (h_k (m_head m)) s c - val P (h_k (m_head m)) s (m_claims m ! i))"
    unfolding m' using moves_terms(1) [OF conjunct1 [OF 2]]
    by (intro moves_cong [OF moves_trans [OF conjunct1 [OF 2] moves_put_claim [OF i]]]) (simp add: 2 val_def pays_def)
  with False 2 show ?thesis by (auto simp: m' put_claim_def)
qed

lemma give_up_stays_held: "give_up c lots res = Some (Inr c') \<Longrightarrow> stays_held c c'"
  by (simp add: stays_held_def give_up_facts)

lemma pay_redeemed_moves:
  assumes "pay_redeemed m t lo hi lots = Some (Inr m')"
  shows "moves m m' (\<lambda>P s. set_pay P (h_k (m_head m)) t lo hi lots) \<and> m_claims m' = m_claims m"
proof -
  have "backing_to_free m t (lots * ((hi - lo) * h_k (m_head m))) = Some (Inr m')"
    using assms by (auto simp: pay_redeemed_def res_simps option_bind_eq_Some checked_simps)
  from backing_to_free_moves [OF this] show ?thesis by (auto simp: at_def set_pay_def elim!: moves_cong)
qed

text \<open>What two complements give up is worth what is paid for it.\<close>

lemma give_up_val:
  assumes "give_up x lots r = Some (Inr x')" "give_up y lots q = Some (Inr y')" "complements x y"
    "c_side x \<le> 1" "c_side y \<le> 1"
  shows "val P k s x' + val P k s y' + set_pay P k (c_trader x) (c_lo x) (c_hi x) lots = val P k s x + val P k s y"
proof -
  note gx = give_up_facts [OF assms(1)] and gy = give_up_facts [OF assms(2)]
  have "val P k s x = val P k s x' + val P k s (x\<lparr>c_lots := lots\<rparr>)"
    by (rule val_lots) (use gx in \<open>simp_all add: same_kind_def\<close>)
  moreover have "val P k s y = val P k s y' + val P k s (y\<lparr>c_lots := lots\<rparr>)"
    by (rule val_lots) (use gy in \<open>simp_all add: same_kind_def\<close>)
  moreover have "val P k s (x\<lparr>c_lots := lots\<rparr>) + val P k s (y\<lparr>c_lots := lots\<rparr>) = set_pay P k (c_trader x) (c_lo x) (c_hi x) lots"
    using assms(3-5) val_set [of "y\<lparr>c_lots := lots\<rparr>" "x\<lparr>c_lots := lots\<rparr>" P k s] by (simp add: complements_def)
  ultimately show ?thesis by simp
qed

lemma shaped_of: "claim_formed g n c \<Longrightarrow> 0 < c_lots c \<Longrightarrow> shaped g n c"
  by (simp add: claim_formed_def)

lemma put_shrunk_formed:
  assumes "put_shrunk m i c = Some (Inr m')" "i < length (m_claims m)" "formed m" "same_kind c (m_claims m ! i)"
    "c_lots c \<le> c_lots (m_claims m ! i)" "c_held c = c_held (m_claims m ! i)"
  shows "formed m'"
proof -
  have "stays_held (m_claims m ! i) c" using assms(4,6) by (simp add: stays_held_def)
  note p = put_shrunk_moves [OF assms(1,2) this] and old = formed_at [OF assms(3,2)]
  obtain d where d: "m_claims m' = (m_claims m)[i := d]"
    "if c_lots c = 0 then d = remnant (m_claims m ! i) else \<exists>seq. d = c\<lparr>c_seq := seq\<rparr>" using p by blast
  have "claim_formed (h_grid (m_head m)) (length (m_traders m)) d"
  proof (cases "c_lots c = 0")
    case True
    with d(2) show ?thesis by (simp add: remnant_formed old)
  next
    case False
    with assms(5) have "shaped (h_grid (m_head m)) (length (m_traders m)) (m_claims m ! i)"
      by (intro shaped_of [OF old]) simp
    with False d(2) assms(4) show ?thesis by (auto simp: claim_formed_def shaped_def same_kind_def)
  qed
  with p d(1) assms(3) show ?thesis by (blast intro: formed_put)
qed

lemma complements_sides:
  assumes "complements x y" "formed m" "y = m_claims m ! i" "i < length (m_claims m)"
  shows "c_side y \<le> 1"
  using assms formed_at [OF assms(2,4)] by (simp add: complements_def claim_formed_def shaped_def)

lemma redeem_fresh_moves:
  assumes "redeem_fresh m fresh y lots r = Some (Inr (m', fresh'))" "formed m" "c_side fresh \<le> 1"
  shows "moves m m' (\<lambda>P s. val P (h_k (m_head m)) s fresh - val P (h_k (m_head m)) s fresh') \<and> formed m'
    \<and> same_kind fresh' fresh \<and> c_lots fresh = c_lots fresh' + lots
    \<and> c_side (m_claims m ! y) \<noteq> c_side fresh \<and> (\<exists>d. m_claims m' = (m_claims m)[y := d])"
proof -
  define cy where "cy = m_claims m ! y"
  obtain cy' m1 where y: "y < length (m_claims m)" and comp: "complements fresh cy"
    and gf: "give_up fresh lots False = Some (Inr fresh')" and gy: "give_up cy lots r = Some (Inr cy')"
    and 1: "put_shrunk m y cy' = Some (Inr m1)"
    and 2: "pay_redeemed m1 (c_trader fresh') (c_lo fresh') (c_hi fresh') lots = Some (Inr m')"
    using assms(1) by (auto simp: redeem_fresh_def res_simps option_bind_eq_Some slot_Some cy_def)
  note f = give_up_facts [OF gf] and g = give_up_facts [OF gy]
  have side: "c_side cy \<le> 1" using complements_sides [OF comp assms(2) cy_def y] .
  note p1 = put_shrunk_moves [OF 1 y give_up_stays_held [OF gy, unfolded cy_def]] and p2 = pay_redeemed_moves [OF 2]
  have k: "h_k (m_head m1) = h_k (m_head m)" using p1 moves_terms(1) by blast
  have "moves m m' (\<lambda>P s. val P (h_k (m_head m)) s fresh - val P (h_k (m_head m)) s fresh')"
  proof (rule moves_cong [OF moves_trans [OF conjunct1 [OF p1] conjunct1 [OF p2]]])
    fix P s
    show "val P (h_k (m_head m)) s cy' - val P (h_k (m_head m)) s (m_claims m ! y)
        + set_pay P (h_k (m_head m1)) (c_trader fresh') (c_lo fresh') (c_hi fresh') lots
      = val P (h_k (m_head m)) s fresh - val P (h_k (m_head m)) s fresh'"
      using give_up_val [OF gf gy comp assms(3) side, of P "h_k (m_head m)" s] f(1)
      by (simp add: k cy_def same_kind_def)
  qed
  moreover have "formed m1"
    by (rule put_shrunk_formed [OF 1 y assms(2)]) (use g in \<open>simp_all add: cy_def\<close>)
  then have "formed m'" using formed_same p2 by blast
  moreover have "c_side (m_claims m ! y) \<noteq> c_side fresh" using comp by (simp add: complements_def cy_def)
  moreover have "\<exists>d. m_claims m' = (m_claims m)[y := d]" using p1 p2 by auto
  ultimately show ?thesis using f by blast
qed

lemma redeem_pair_moves:
  assumes "redeem_pair m x y lots r q = Some (Inr m')" "formed m"
  shows "moves m m' (\<lambda>P s. 0) \<and> formed m'"
proof -
  define cx cy where "cx = m_claims m ! x" and "cy = m_claims m ! y"
  obtain cx' cy' m1 m2 where x: "x < length (m_claims m)" and y: "y < length (m_claims m)" and comp: "complements cx cy"
    and gx: "give_up cx lots r = Some (Inr cx')" and gy: "give_up cy lots q = Some (Inr cy')"
    and 1: "put_shrunk m x cx' = Some (Inr m1)" and 2: "put_shrunk m1 y cy' = Some (Inr m2)"
    and 3: "pay_redeemed m2 (c_trader cx') (c_lo cx') (c_hi cx') lots = Some (Inr m')"
    using assms(1) by (auto simp: redeem_pair_def res_simps option_bind_eq_Some slot_Some cx_def cy_def)
  note f = give_up_facts [OF gx] and g = give_up_facts [OF gy]
  have sides: "c_side cx \<le> 1" "c_side cy \<le> 1"
    using complements_sides [OF comp assms(2) cy_def y] complements_sides [of cy cx m x] comp assms(2) x
    by (auto simp: cx_def complements_def)
  note p1 = put_shrunk_moves [OF 1 x give_up_stays_held [OF gx, unfolded cx_def]]
  have "x \<noteq> y" using comp by (auto simp: complements_def cx_def cy_def)
  with p1 have m1: "m_claims m1 ! y = cy" "y < length (m_claims m1)" using y by (auto simp: cy_def)
  note p2 = put_shrunk_moves [OF 2 m1(2) give_up_stays_held [OF gy, folded m1(1)]] and p3 = pay_redeemed_moves [OF 3]
  have k1: "h_k (m_head m1) = h_k (m_head m)" using p1 moves_terms(1) by blast
  moreover have "h_k (m_head m2) = h_k (m_head m1)" using p2 moves_terms(1) by blast
  ultimately have k2: "h_k (m_head m2) = h_k (m_head m)" by simp
  have "moves m m' (\<lambda>P s. 0)"
  proof (rule moves_cong [OF moves_trans [OF moves_trans [OF conjunct1 [OF p1] conjunct1 [OF p2]] conjunct1 [OF p3]]])
    fix P s
    show "val P (h_k (m_head m)) s cx' - val P (h_k (m_head m)) s (m_claims m ! x)
        + (val P (h_k (m_head m1)) s cy' - val P (h_k (m_head m1)) s (m_claims m1 ! y))
        + set_pay P (h_k (m_head m2)) (c_trader cx') (c_lo cx') (c_hi cx') lots = 0"
      using give_up_val [OF gx gy comp sides, of P "h_k (m_head m)" s] f(1) m1(1)
      by (simp add: k1 k2 cx_def [symmetric] same_kind_def)
  qed
  moreover have "formed m1"
    by (rule put_shrunk_formed [OF 1 x assms(2)]) (use f in \<open>simp_all add: cx_def\<close>)
  then have "formed m2"
    by (rule put_shrunk_formed [OF 2 m1(2)]) (use g m1 in \<open>simp_all add: cy_def\<close>)
  then have "formed m'" using formed_same p3 by blast
  ultimately show ?thesis by blast
qed

subsection \<open>Netting\<close>

definition matched :: "nat \<Rightarrow> net_match list \<Rightarrow> nat" where
  "matched i qs = (\<Sum>q\<leftarrow>qs. if nm_claim q = i then nm_lots q else 0)"

lemma matched_simps [simp]:
  "matched i [] = 0" "matched i (q # qs) = (if nm_claim q = i then nm_lots q else 0) + matched i qs"
  "matched i (qs @ rs) = matched i qs + matched i rs"
  by (simp_all add: matched_def)

definition proper :: "net_match \<Rightarrow> bool" where
  "proper q \<longleftrightarrow> 0 < nm_lots q \<and> nm_lo q < nm_hi q"

lemma net_pieces_facts:
  "net_pieces i c usable passed pieces = (rest, ms) \<Longrightarrow>
    (\<forall>q\<in>set ms. nm_claim q = i \<and> proper q) \<and> matched i ms \<le> usable"
proof (induction i c usable passed pieces arbitrary: rest ms rule: net_pieces.induct)
  case (2 i c usable passed pl ph pn pieces)
  define a z n where "a = max pl (c_lo c)" and "z = min ph (c_hi c)" and "n = min pn usable"
  define outside where "outside = (if pl < a then [(pl, a, n)] else []) @ (if z < ph then [(z, ph, n)] else [])"
  have step: "net_pieces i c usable passed ((pl, ph, pn) # pieces) =
      (if usable = 0 then (passed @ (pl, ph, pn) # pieces, [])
       else if pn = 0 \<or> z \<le> a then net_pieces i c usable (passed @ [(pl, ph, pn)]) pieces
       else case net_pieces i c (usable - n) (passed @ [(pl, ph, pn - n)]) (pieces @ outside) of (left, ms) \<Rightarrow>
         (left, \<lparr>nm_claim = i, nm_piece = (pl, ph), nm_lo = a, nm_hi = z, nm_lots = n\<rparr> # ms))"
    unfolding net_pieces.simps Let_def a_def z_def n_def outside_def by (rule refl)
  consider "usable = 0" | "0 < usable" "pn = 0 \<or> z \<le> a" | "0 < usable" "0 < pn" "a < z" by linarith
  then show ?case
  proof cases
    case 1
    with 2(3) show ?thesis by simp
  next
    case 2
    then have "net_pieces i c usable (passed @ [(pl, ph, pn)]) pieces = (rest, ms)" using "2.prems" unfolding step by simp
    with "2.IH"(1) [OF _ a_def z_def] 2 show ?thesis by simp
  next
    case 3
    obtain rest' ms' where r: "net_pieces i c (usable - n) (passed @ [(pl, ph, pn - n)]) (pieces @ outside) = (rest', ms')"
      by fastforce
    have ms: "ms = \<lparr>nm_claim = i, nm_piece = (pl, ph), nm_lo = a, nm_hi = z, nm_lots = n\<rparr> # ms'"
      using "2.prems" 3 r unfolding step by simp
    have "(\<forall>q\<in>set ms'. nm_claim q = i \<and> proper q) \<and> matched i ms' \<le> usable - n"
      using "2.IH"(2) [OF _ a_def z_def _ n_def outside_def] 3 r by simp
    moreover have "0 < n" "n \<le> usable" using 3 by (simp_all add: n_def)
    ultimately have "n + matched i ms' \<le> usable" by linarith
    with \<open>0 < n\<close> 3 \<open>_ \<and> matched i ms' \<le> _\<close> show ?thesis by (simp add: ms proper_def)
  qed
qed simp

lemma matched_other: "(\<forall>q\<in>set ms. nm_claim q = i) \<Longrightarrow> j \<noteq> i \<Longrightarrow> matched j ms = 0"
  by (induction ms) auto

lemma net_claims_facts:
  "net_claims cs pieces = Some ms \<Longrightarrow> distinct (map fst cs) \<Longrightarrow>
    (\<forall>q\<in>set ms. proper q) \<and> (\<forall>i. 0 < matched i ms \<longrightarrow> (\<exists>c. (i, c) \<in> set cs \<and> matched i ms + c_reserved c \<le> c_lots c))"
proof (induction cs arbitrary: pieces ms)
  case (Cons ic cs)
  obtain i c where ic: "ic = (i, c)" by fastforce
  obtain usable rest ps ms1 where u: "usable = c_lots c - c_reserved c" "c_reserved c \<le> c_lots c"
    and 1: "net_pieces i c usable [] pieces = (ps, ms1)" and r: "net_claims cs ps = Some rest" and ms: "ms = ms1 @ rest"
    using Cons.prems(1) by (auto simp: ic option_bind_eq_Some checked_simps split: prod.splits)
  have f: "(\<forall>q\<in>set ms1. nm_claim q = i \<and> proper q)" "matched i ms1 \<le> usable" using net_pieces_facts [OF 1] by auto
  have IH: "(\<forall>q\<in>set rest. proper q) \<and> (\<forall>i. 0 < matched i rest \<longrightarrow> (\<exists>c. (i, c) \<in> set cs \<and> matched i rest + c_reserved c \<le> c_lots c))"
    using Cons.IH [OF r] Cons.prems(2) by simp
  have "i \<notin> fst ` set cs" using Cons.prems(2) by (simp add: ic)
  then have none: "matched i rest = 0" using IH by (metis fst_conv image_eqI not_gr_zero)
  have "\<exists>c'. (j, c') \<in> set ((i, c) # cs) \<and> matched j ms + c_reserved c' \<le> c_lots c'" if "0 < matched j ms" for j
  proof (cases "j = i")
    case True
    then show ?thesis using f u none by (intro exI [of _ c]) (simp add: ms)
  next
    case False
    then have "matched j ms1 = 0" using matched_other [of ms1 i j] f by simp
    then show ?thesis using IH that by (auto simp: ms)
  qed
  then show ?case using f IH by (auto simp: ms ic)
qed simp

definition keeps :: "market \<Rightarrow> market \<Rightarrow> nat set \<Rightarrow> bool" where
  "keeps m m' A \<longleftrightarrow> length (m_claims m') = length (m_claims m)
     \<and> (\<forall>j<length (m_claims m). j \<notin> A \<and> \<not> vacant (m_claims m ! j) \<longrightarrow> m_claims m' ! j = m_claims m ! j)"

lemma keeps_put: "m_claims m' = (m_claims m)[i := c] \<Longrightarrow> keeps m m' {i}"
  by (auto simp: keeps_def nth_list_update)

lemma keeps_trans: "keeps m m' A \<Longrightarrow> keeps m' m'' B \<Longrightarrow> keeps m m'' (A \<union> B)"
  by (auto simp: keeps_def)

lemma new_parts_moves:
  "new_parts m cs = Some (Inr (m', is)) \<Longrightarrow> formed m \<Longrightarrow>
    (\<forall>c\<in>set cs. claim_formed (h_grid (m_head m)) (length (m_traders m)) c) \<Longrightarrow>
    moves m m' (\<lambda>P s. claims_val P (h_k (m_head m)) s cs) \<and> formed m' \<and> keeps m m' {}"
proof (induction cs arbitrary: m "is")
  case Nil
  then show ?case by (auto simp: claims_val_def keeps_def)
next
  case (Cons c cs)
  obtain m1 i is1 where 1: "new_claim m c = Some (Inr (m1, i))" and 2: "new_parts m1 cs = Some (Inr (m', is1))"
    using Cons.prems(1) by (auto simp: res_simps)
  obtain seq where n: "moves m m1 (\<lambda>P s. val P (h_k (m_head m)) s c)" "i < length (m_claims m)" "vacant (m_claims m ! i)"
    "m_claims m1 = (m_claims m)[i := c\<lparr>c_seq := seq\<rparr>]" using new_claim_moves [OF 1] by blast
  have "claim_formed (h_grid (m_head m)) (length (m_traders m)) (c\<lparr>c_seq := seq\<rparr>)"
    using Cons.prems(3) by (simp add: claim_formed_def shaped_def)
  then have f: "formed m1" using n(4) by (rule formed_put [OF n(1) Cons.prems(2), rotated])
  have IH: "moves m1 m' (\<lambda>P s. claims_val P (h_k (m_head m1)) s cs) \<and> formed m' \<and> keeps m1 m' {}"
    using Cons.IH [OF 2 f] Cons.prems(3) moves_terms [OF n(1)] by simp
  have "keeps m m1 {}" using n(2-4) by (auto simp: keeps_def nth_list_update)
  moreover have "moves m m' (\<lambda>P s. claims_val P (h_k (m_head m)) s (c # cs))"
    by (rule moves_cong [OF moves_trans [OF n(1) conjunct1 [OF IH]]])
      (simp add: claims_val_def moves_terms(1) [OF n(1)])
  ultimately show ?case using IH keeps_trans [of m m1 "{}" m' "{}"] by simp
qed

text \<open>The lots a claim gives up on \<open>[a, z)\<close> are worth themselves on the overlap and the parts kept outside it.\<close>

lemma parts_val:
  assumes "c_lo x \<le> a" "a \<le> z" "z \<le> c_hi x"
  shows "val P k s (x\<lparr>c_lots := n\<rparr>) = val P k s (x\<lparr>c_lots := n, c_lo := a, c_hi := z\<rparr>)
    + claims_val P k s (map (part_claim x n part) (parts_outside x a z))"
proof -
  let ?u = "unit_pay k s (c_side x = side_u8 Long)"
  have "?u (c_lo x) (c_hi x) = ?u (c_lo x) a + ?u a z + ?u z (c_hi x)"
    using unit_pay_split [of "c_lo x" a "c_hi x"] unit_pay_split [of a z "c_hi x"] assms by simp
  moreover have "?u y y = 0" for y by (simp add: unit_pay_def long_spec_def)
  ultimately have "int n * ?u (c_lo x) (c_hi x) = int n * ?u a z + (if c_lo x < a then int n * ?u (c_lo x) a else 0)
      + (if z < c_hi x then int n * ?u z (c_hi x) else 0)"
    using assms by (auto simp: distrib_left le_less)
  then show ?thesis
    by (auto simp: claims_val_def val_def pays_def parts_outside_def part_claim_def claim_default_def)
qed

lemma parts_formed:
  assumes "shaped g n x" "c_lo x \<le> a" "a < z" "z \<le> c_hi x"
  shows "\<forall>c\<in>set (map (part_claim x lots part) (parts_outside x a z)). claim_formed g n c"
  using assms by (auto simp: parts_outside_def part_claim_def claim_default_def claim_formed_def shaped_def)

lemma give_overlap_moves:
  assumes "give_overlap m i x a z lots = Some (Inr (m', is))" "formed m" "i < length (m_claims m)" "m_claims m ! i = x"
    "shaped (h_grid (m_head m)) (length (m_traders m)) x" "c_lo x \<le> a" "a < z" "z \<le> c_hi x"
  shows "moves m m' (\<lambda>P s. - val P (h_k (m_head m)) s (x\<lparr>c_lots := lots, c_lo := a, c_hi := z\<rparr>)) \<and> formed m' \<and> keeps m m' {i}
    \<and> (lots < c_lots x \<longrightarrow> same_kind (m_claims m' ! i) x \<and> c_lots (m_claims m' ! i) = c_lots x - lots
        \<and> c_reserved (m_claims m' ! i) = c_reserved x)"
proof -
  let ?k = "h_k (m_head m)" and ?g = "h_grid (m_head m)" and ?n = "length (m_traders m)"
  obtain y part where y: "shrink x lots = Some (y, part)"
    using assms(1) by (auto simp: give_overlap_def option_bind_eq_Some)
  note sh = shrink_facts [OF y]
  let ?ps = "parts_outside y a z" and ?piece = "part_claim y lots part"
  have ps: "?ps = parts_outside x a z" "?piece = part_claim x lots part"
    using sh(1) assms(1) y by (auto simp: parts_outside_def same_kind_def part_claim_def fun_eq_iff shrink_def
      option_bind_eq_Some Let_def)
  have formed_parts: "\<forall>c\<in>set (map ?piece ?ps). claim_formed ?g ?n c"
    unfolding ps by (rule parts_formed [OF assms(5-8)])
  have y_val: "val P ?k s x = val P ?k s y + val P ?k s (x\<lparr>c_lots := lots\<rparr>)" for P s
    by (rule val_lots) (use sh in \<open>simp_all add: same_kind_def\<close>)
  have outside: "val P ?k s (x\<lparr>c_lots := lots\<rparr>) = val P ?k s (x\<lparr>c_lots := lots, c_lo := a, c_hi := z\<rparr>)
      + claims_val P ?k s (map ?piece ?ps)" for P s
    unfolding ps using assms(6-8) by (intro parts_val) simp_all
  have shaped_y: "shaped ?g ?n y" using assms(5) same_kind_shaped [OF sh(1)] by simp
  obtain m1 c cs where 1: "moves m m1 (\<lambda>P s. val P ?k s c - val P ?k s x)" "m_claims m1 = (m_claims m)[i := c]"
    and 2: "new_parts m1 cs = Some (Inr (m', is))" and c: "claim_formed ?g ?n c"
    and val_c: "\<And>P s. val P ?k s c + claims_val P ?k s cs = val P ?k s y + claims_val P ?k s (map ?piece ?ps)"
    and cs: "set cs \<subseteq> set (map ?piece ?ps)"
    and more: "lots < c_lots x \<longrightarrow> same_kind c x \<and> c_lots c = c_lots x - lots \<and> c_reserved c = c_reserved x \<and> 0 < c_lots c"
  proof (cases "0 < c_lots y")
    case True
    then obtain m0 seq where 0: "next_seq m = Some (Inr (m0, seq))"
      and 2: "new_parts (put_claim m0 i (y\<lparr>c_seq := seq\<rparr>)) (map ?piece ?ps) = Some (Inr (m', is))"
      using assms(1) y by (auto simp: give_overlap_def res_simps option_bind_eq_Some Let_def)
    note n = next_seq_moves [OF 0]
    have i: "i < length (m_claims m0)" using n assms(3) by simp
    have st: "stays_held (m_claims m0 ! i) (y\<lparr>c_seq := seq\<rparr>)" using n assms(4) sh by (simp add: stays_held_def same_kind_def)
    show thesis
    proof (rule that [OF _ _ 2])
      show "moves m (put_claim m0 i (y\<lparr>c_seq := seq\<rparr>)) (\<lambda>P s. val P ?k s (y\<lparr>c_seq := seq\<rparr>) - val P ?k s x)"
        using moves_terms(1) [OF conjunct1 [OF n]] assms(4)
        by (intro moves_cong [OF moves_trans [OF conjunct1 [OF n] moves_put_claim [OF i st]]]) (simp add: n)
      show "claim_formed ?g ?n (y\<lparr>c_seq := seq\<rparr>)" using shaped_y by (simp add: claim_formed_def shaped_def)
    qed (use True sh n in \<open>simp_all add: put_claim_def val_def pays_def same_kind_def\<close>)
  next
    case False
    then have no_lots: "c_lots y = 0" by simp
    show thesis
    proof (cases "c_held y \<or> ?ps = []")
      case True
      then obtain m1 where 1: "drop_claim m i = Some m1" and 2: "new_parts m1 (map ?piece ?ps) = Some (Inr (m', is))"
        using assms(1) y no_lots
        by (auto simp: give_overlap_def option_bind_eq_Some Let_def split: if_splits)
      note d = drop_claim_moves [OF 1]
      have "claim_formed ?g ?n (remnant x)" using assms(5) by (intro remnant_formed) (simp add: claim_formed_def)
      then show thesis
        by (rule that [OF _ _ 2, rotated 2]) (use d no_lots sh assms(4) in \<open>auto elim: moves_cong\<close>)
    next
      case False
      then obtain p ps' where p: "?ps = p # ps'" "\<not> c_held y" by (auto simp: neq_Nil_conv)
      then obtain m0 seq where 0: "next_seq m = Some (Inr (m0, seq))"
        and 2: "new_parts (put_claim m0 i ((?piece p)\<lparr>c_seq := seq\<rparr>)) (map ?piece ps') = Some (Inr (m', is))"
        using assms(1) y no_lots by (auto simp: give_overlap_def res_simps option_bind_eq_Some Let_def)
      note n = next_seq_moves [OF 0]
      have i: "i < length (m_claims m0)" using n assms(3) by simp
      have fp: "claim_formed ?g ?n (?piece p)" using formed_parts p(1) by simp
      have st: "stays_held (m_claims m0 ! i) ((?piece p)\<lparr>c_seq := seq\<rparr>)" using n assms(4) sh p(2) by (simp add: stays_held_def)
      show thesis
      proof (rule that [OF _ _ 2])
        show "moves m (put_claim m0 i ((?piece p)\<lparr>c_seq := seq\<rparr>)) (\<lambda>P s. val P ?k s ((?piece p)\<lparr>c_seq := seq\<rparr>) - val P ?k s x)"
          using moves_terms(1) [OF conjunct1 [OF n]] assms(4)
          by (intro moves_cong [OF moves_trans [OF conjunct1 [OF n] moves_put_claim [OF i st]]]) (simp add: n)
        show "claim_formed ?g ?n ((?piece p)\<lparr>c_seq := seq\<rparr>)" using fp by (simp add: claim_formed_def shaped_def)
      qed (use sh n p no_lots in \<open>auto simp: put_claim_def val_def pays_def claims_val_def\<close>)
    qed
  qed
  have f1: "formed m1" by (rule formed_put [OF 1(1) assms(2) 1(2) c])
  have cs_formed: "\<forall>c\<in>set cs. claim_formed (h_grid (m_head m1)) (length (m_traders m1)) c"
    using cs formed_parts moves_terms [OF 1(1)] by auto
  note np = new_parts_moves [OF 2 f1 cs_formed]
  have k1: "h_k (m_head m1) = ?k" by (rule moves_terms(1) [OF 1(1)])
  have "moves m m' (\<lambda>P s. - val P ?k s (x\<lparr>c_lots := lots, c_lo := a, c_hi := z\<rparr>))"
  proof (rule moves_cong [OF moves_trans [OF 1(1) conjunct1 [OF np]]])
    fix P s
    show "val P ?k s c - val P ?k s x + claims_val P (h_k (m_head m1)) s cs = - val P ?k s (x\<lparr>c_lots := lots, c_lo := a, c_hi := z\<rparr>)"
      using val_c [of P s] y_val [of P s] outside [of P s] by (simp add: k1)
  qed
  moreover have "keeps m m' {i}" using keeps_trans [OF keeps_put [OF 1(2)], of m' "{}"] np by simp
  moreover have "m_claims m' ! i = c" if "0 < c_lots c"
    using np that assms(3) 1(2) by (simp add: keeps_def vacant_def)
  ultimately show ?thesis using np more by auto
qed

lemma slots_needed_ok:
  "slots_needed c a z lots = Some (Inr n) \<Longrightarrow> lots + c_reserved c \<le> c_lots c \<and> c_lo c \<le> a \<and> z \<le> c_hi c"
  by (auto simp: slots_needed_def res_simps option_bind_eq_Some checked_simps Let_def)

lemma net_overlap_moves:
  assumes "net_overlap m f c a z lots = Some (Inr (Some (m', parts)))" "formed m" "a < z" "0 < lots"
    "c_trader (m_claims m ! c) = c_trader (m_claims m ! f)" "c_side (m_claims m ! c) \<noteq> c_side (m_claims m ! f)"
  shows "moves m m' (\<lambda>P s. 0) \<and> formed m' \<and> keeps m m' {f, c}
    \<and> (lots < c_lots (m_claims m ! c) \<longrightarrow> same_kind (m_claims m' ! c) (m_claims m ! c)
        \<and> c_lots (m_claims m' ! c) = c_lots (m_claims m ! c) - lots
        \<and> c_reserved (m_claims m' ! c) = c_reserved (m_claims m ! c))"
proof -
  let ?k = "h_k (m_head m)" and ?g = "h_grid (m_head m)" and ?n = "length (m_traders m)"
  define cf cc where "cf = m_claims m ! f" and "cc = m_claims m ! c"
  obtain nf nc m1 m2 ps where f: "f < length (m_claims m)" and c: "c < length (m_claims m)"
    and sf: "slots_needed cf a z lots = Some (Inr nf)" and sc: "slots_needed cc a z lots = Some (Inr nc)"
    and 1: "give_overlap m f cf a z lots = Some (Inr (m1, parts))"
    and 2: "give_overlap m1 c cc a z lots = Some (Inr (m2, ps))"
    and 3: "pay_redeemed m2 (c_trader cf) a z lots = Some (Inr m')"
    using assms(1) by (auto simp: net_overlap_def res_simps option_bind_eq_Some slot_Some cf_def cc_def split: if_splits)
  have ff: "lots \<le> c_lots cf" "c_lo cf \<le> a" "z \<le> c_hi cf" using slots_needed_ok [OF sf] by auto
  have fc: "lots \<le> c_lots cc" "c_lo cc \<le> a" "z \<le> c_hi cc" using slots_needed_ok [OF sc] by auto
  have shf: "shaped ?g ?n cf" and shc: "shaped ?g ?n cc"
    using formed_at [OF assms(2) f] formed_at [OF assms(2) c] ff(1) fc(1) assms(4)
    by (auto simp: cf_def cc_def intro!: shaped_of)
  have "f \<noteq> c" using assms(6) by auto
  note g1 = give_overlap_moves [OF 1 assms(2) f cf_def [symmetric] shf ff(2) assms(3) ff(3)]
  have m1c: "m_claims m1 ! c = cc" "c < length (m_claims m1)"
    using g1 c \<open>f \<noteq> c\<close> fc(1) assms(4) by (auto simp: keeps_def vacant_def cc_def)
  note t1 = moves_terms [OF conjunct1 [OF g1]]
  have shc1: "shaped (h_grid (m_head m1)) (length (m_traders m1)) cc" using shc t1 by simp
  have "formed m1" using g1 by simp
  note g2 = give_overlap_moves [OF 2 this m1c(2,1) shc1 fc(2) assms(3) fc(3)]
  note p = pay_redeemed_moves [OF 3]
  have k2: "h_k (m_head m2) = ?k" using t1(1) moves_terms(1) [OF conjunct1 [OF g2]] by simp
  let ?x = "cf\<lparr>c_lots := lots, c_lo := a, c_hi := z\<rparr>" and ?y = "cc\<lparr>c_lots := lots, c_lo := a, c_hi := z\<rparr>"
  have "moves m m' (\<lambda>P s. 0)"
  proof (rule moves_cong [OF moves_trans [OF moves_trans [OF conjunct1 [OF g1] conjunct1 [OF g2]] conjunct1 [OF p]]])
    fix P s
    have "val P ?k s ?x + val P ?k s ?y = set_pay P ?k (c_trader ?x) (c_lo ?x) (c_hi ?x) (c_lots ?x)"
      using assms(5,6) shf shc by (intro val_set) (simp_all add: cf_def cc_def shaped_def)
    then show "- val P ?k s ?x + - val P (h_k (m_head m1)) s ?y + set_pay P (h_k (m_head m2)) (c_trader cf) a z lots = 0"
      by (simp add: k2 t1(1))
  qed
  moreover have "formed m'" using formed_same [of m2 m'] p g2 by blast
  moreover have "keeps m m' {f, c}"
    using keeps_trans [of m m1 "{f}" m2 "{c}"] g1 g2 p by (simp add: keeps_def insert_commute)
  ultimately show ?thesis using g2 p by (simp add: cc_def)
qed

definition open_matches :: "market \<Rightarrow> claim \<Rightarrow> net_match list \<Rightarrow> bool" where
  "open_matches m n qs \<longleftrightarrow> (\<forall>i. 0 < matched i qs \<longrightarrow> i < length (m_claims m) \<and>
     c_trader (m_claims m ! i) = c_trader n \<and> c_side (m_claims m ! i) \<noteq> c_side n
     \<and> matched i qs + c_reserved (m_claims m ! i) \<le> c_lots (m_claims m ! i))"

lemma net_matches_moves:
  "net_matches m n pieces qs = Some (Inr m') \<Longrightarrow> formed m \<Longrightarrow> open_matches m n qs \<Longrightarrow> \<forall>q\<in>set qs. proper q \<Longrightarrow>
    moves m m' (\<lambda>P s. 0) \<and> formed m'"
proof (induction qs arbitrary: m pieces)
  case Nil
  then show ?case by auto
next
  case (Cons q qs)
  define c where "c = nm_claim q"
  show ?case
  proof (cases "find (is_piece m n q) pieces")
    case None
    with Cons.prems show ?thesis by auto
  next
    case (Some f)
    have isf: "is_piece m n q f" using find_Some_iff [THEN iffD1, OF Some] by auto
    obtain r where r: "net_overlap m f c (nm_lo q) (nm_hi q) (nm_lots q) = Some (Inr r)"
      using Cons.prems(1) Some by (auto simp: res_simps c_def)
    show ?thesis
    proof (cases r)
      case None
      with Cons.prems Some r show ?thesis by (auto simp: res_simps c_def)
    next
      case (Some mp)
      then obtain m1 parts where mp: "r = Some (m1, parts)" by (cases mp) auto
      have q: "0 < nm_lots q" "nm_lo q < nm_hi q" using Cons.prems(4) by (auto simp: proper_def)
      have "0 < matched c (q # qs)" using q by (simp add: c_def)
      then have oc: "c < length (m_claims m)" "c_trader (m_claims m ! c) = c_trader n"
        "c_side (m_claims m ! c) \<noteq> c_side n" "nm_lots q + matched c qs + c_reserved (m_claims m ! c) \<le> c_lots (m_claims m ! c)"
        using Cons.prems(3) [unfolded open_matches_def, rule_format, of c] by (auto simp: c_def)
      have pf: "c_trader (m_claims m ! f) = c_trader n" "c_side (m_claims m ! f) = c_side n"
        using isf by (simp_all add: is_piece_def Let_def)
      have st: "moves m m1 (\<lambda>P s. 0) \<and> formed m1 \<and> keeps m m1 {f, c}
          \<and> (nm_lots q < c_lots (m_claims m ! c) \<longrightarrow> same_kind (m_claims m1 ! c) (m_claims m ! c)
            \<and> c_lots (m_claims m1 ! c) = c_lots (m_claims m ! c) - nm_lots q
            \<and> c_reserved (m_claims m1 ! c) = c_reserved (m_claims m ! c))"
        using oc pf by (intro net_overlap_moves [OF r [unfolded mp] Cons.prems(2) q(2,1)]) simp_all
      have rest: "net_matches m1 n (pieces @ parts) qs = Some (Inr m')"
        using Cons.prems(1) \<open>find (is_piece m n q) pieces = Some f\<close> r mp by (simp add: andthen_def c_def)
      have "open_matches m1 n qs"
        unfolding open_matches_def
      proof (intro allI impI)
        fix i assume i: "0 < matched i qs"
        then have oi: "i < length (m_claims m)" "c_trader (m_claims m ! i) = c_trader n" "c_side (m_claims m ! i) \<noteq> c_side n"
          "matched i qs + c_reserved (m_claims m ! i) \<le> c_lots (m_claims m ! i)"
          using Cons.prems(3) [unfolded open_matches_def, rule_format, of i] by auto
        have len: "length (m_claims m1) = length (m_claims m)" using st by (simp add: keeps_def)
        show "i < length (m_claims m1) \<and> c_trader (m_claims m1 ! i) = c_trader n \<and> c_side (m_claims m1 ! i) \<noteq> c_side n
            \<and> matched i qs + c_reserved (m_claims m1 ! i) \<le> c_lots (m_claims m1 ! i)"
        proof (cases "i = c")
          case True
          have "nm_lots q < c_lots (m_claims m ! c)" using i oc(4) unfolding True by linarith
          then show ?thesis using st oi oc(4) True len by (auto simp: same_kind_def)
        next
          case False
          moreover have "i \<noteq> f" using oi(3) pf(2) by auto
          moreover have "\<not> vacant (m_claims m ! i)" using i oi(4) by (simp add: vacant_def)
          ultimately have "m_claims m1 ! i = m_claims m ! i" using st oi(1) by (simp add: keeps_def)
          then show ?thesis using oi len by simp
        qed
      qed
      then have "moves m1 m' (\<lambda>P s. 0) \<and> formed m'" using Cons.IH [OF rest] st Cons.prems(4) by simp
      then show ?thesis using moves_trans [of m m1 "\<lambda>P s. 0" m' "\<lambda>P s. 0"] st by simp
    qed
  qed
qed

lemma net_overlaps_moves:
  assumes "net_overlaps m f lots = Some (Inr m')" "formed m"
  shows "moves m m' (\<lambda>P s. 0) \<and> formed m'"
proof -
  define n where "n = m_claims m ! f"
  obtain plan where plan: "plan_net (c_lo n) (c_hi n) lots (opposed_claims m n f) = Some plan"
    and nm: "net_matches m n [f] plan = Some (Inr m')"
    using assms(1) by (auto simp: net_overlaps_def option_bind_eq_Some slot_Some n_def)
  define cs where "cs = sort_key (\<lambda>(i, c). (of_bool (c_lo c \<noteq> c_lo n \<or> c_hi c \<noteq> c_hi n) :: nat, i))
       (filter (\<lambda>(i, c). c_lo c < c_hi n \<and> c_lo n < c_hi c \<and> c_reserved c < c_lots c) (opposed_claims m n f))"
  have nc: "net_claims cs [(c_lo n, c_hi n, lots)] = Some plan" using plan by (simp add: plan_net_def cs_def)
  have "distinct (map fst (opposed_claims m n f))"
    unfolding opposed_claims_def by (intro distinct_map_filter) (simp add: comp_def)
  then have "distinct (map fst cs)"
    unfolding cs_def by (metis (no_types, lifting) distinct_map_filter mset_map mset_sort mset_eq_imp_distinct_iff)
  note facts = net_claims_facts [OF nc this]
  have "set cs \<subseteq> set (opposed_claims m n f)" by (auto simp: cs_def)
  then have sub: "i < length (m_claims m) \<and> c = m_claims m ! i \<and> c_trader c = c_trader n \<and> c_side c \<noteq> c_side n"
    if "(i, c) \<in> set cs" for i c using that by (auto simp: opposed_claims_def)
  have "open_matches m n plan" unfolding open_matches_def
  proof (intro allI impI)
    fix i assume "0 < matched i plan"
    then obtain c where "(i, c) \<in> set cs" "matched i plan + c_reserved c \<le> c_lots c" using facts by blast
    with sub [of i c] show "i < length (m_claims m) \<and> c_trader (m_claims m ! i) = c_trader n
        \<and> c_side (m_claims m ! i) \<noteq> c_side n \<and> matched i plan + c_reserved (m_claims m ! i) \<le> c_lots (m_claims m ! i)"
      by auto
  qed
  then show ?thesis using net_matches_moves [OF nm assms(2)] facts by simp
qed

subsection \<open>Placing\<close>

definition joins :: "market \<Rightarrow> claim \<Rightarrow> nat option \<Rightarrow> bool" where
  "joins m fresh join \<longleftrightarrow> (\<forall>j. join = Some j \<longrightarrow> j < length (m_claims m) \<and> same_kind (m_claims m ! j) fresh)"

lemma joins_kept:
  assumes "joins m fresh join" "same_kind fresh' fresh" "m_claims m' = (m_claims m)[y := d]"
    "c_side (m_claims m ! y) \<noteq> c_side fresh"
  shows "joins m' fresh' join"
  unfolding joins_def
proof (intro allI impI)
  fix j assume "join = Some j"
  then have j: "j < length (m_claims m)" "same_kind (m_claims m ! j) fresh" using assms(1) by (auto simp: joins_def)
  then have "y \<noteq> j" using assms(4) by (auto simp: same_kind_def)
  then show "j < length (m_claims m') \<and> same_kind (m_claims m' ! j) fresh'"
    using j assms(2,3) by (simp add: same_kind_def)
qed

lemma place_scan_moves:
  "place_scan m fresh join overlaps is = Some (Inr r) \<Longrightarrow> formed m \<Longrightarrow> c_side fresh \<le> 1 \<Longrightarrow> joins m fresh join \<Longrightarrow>
    set is \<subseteq> {..<length (m_claims m)} \<Longrightarrow>
    (case r of
       Inl m' \<Rightarrow> moves m m' (\<lambda>P s. val P (h_k (m_head m)) s fresh) \<and> formed m'
     | Inr (m', fresh', join', overlaps') \<Rightarrow>
         moves m m' (\<lambda>P s. val P (h_k (m_head m)) s fresh - val P (h_k (m_head m)) s fresh') \<and> formed m'
         \<and> same_kind fresh' fresh \<and> joins m' fresh' join')"
proof (induction "is" arbitrary: m fresh join overlaps)
  case Nil
  then show ?case by auto
next
  case (Cons i "is")
  define c where "c = m_claims m ! i"
  have i: "i < length (m_claims m)" "set is \<subseteq> {..<length (m_claims m)}" using Cons.prems(5) by auto
  let ?exact = "c_lo c = c_lo fresh \<and> c_hi c = c_hi fresh" and ?lots = "min (c_lots fresh) (c_lots c - c_reserved c)"
  have go_on: ?case if "place_scan m fresh j v is = Some (Inr r)" "joins m fresh j" for j v
    using that Cons.prems i(2) by (intro Cons.IH) auto
  consider (skip) "c_lots c = 0 \<or> c_trader c \<noteq> c_trader fresh"
    | (join) "0 < c_lots c" "c_trader c = c_trader fresh" "c_side c = c_side fresh"
    | (redeem) "0 < c_lots c" "c_trader c = c_trader fresh" "c_side c \<noteq> c_side fresh" ?exact "0 < ?lots"
    | (other) "0 < c_lots c" "c_trader c = c_trader fresh" "c_side c \<noteq> c_side fresh" "\<not> (?exact \<and> 0 < ?lots)" by linarith
  then show ?case
  proof cases
    case skip
    then show ?thesis using Cons.prems(1,4) by (intro go_on) (auto simp: c_def Let_def)
  next
    case join
    then show ?thesis using Cons.prems(1,4) i(1)
      by (intro go_on [where j = "if ?exact \<and> join = None then Some i else join" and v = overlaps])
        (auto simp: c_def Let_def joins_def same_kind_def)
  next
    case redeem
    then obtain m1 f1 where rf: "redeem_fresh m fresh i ?lots False = Some (Inr (m1, f1))"
      and r: "(if c_lots f1 = 0 then Some (Inr (Inl m1)) else place_scan m1 f1 join overlaps is) = Some (Inr r)"
      using Cons.prems(1) by (auto simp: c_def Let_def res_simps option_bind_eq_Some checked_simps split: if_splits)
    note 1 = redeem_fresh_moves [OF rf Cons.prems(2,3)]
    have k: "h_k (m_head m1) = h_k (m_head m)" using 1 moves_terms(1) by blast
    show ?thesis
    proof (cases "c_lots f1 = 0")
      case True
      with r 1 show ?thesis by (auto elim: moves_cong)
    next
      case False
      have j1: "joins m1 f1 join" using joins_kept [OF Cons.prems(4)] 1 by blast
      have "set is \<subseteq> {..<length (m_claims m1)}" "c_side f1 \<le> 1" using 1 i(2) Cons.prems(3) by (auto simp: same_kind_def)
      with False r 1 j1 have IH: "case r of
          Inl m' \<Rightarrow> moves m1 m' (\<lambda>P s. val P (h_k (m_head m1)) s f1) \<and> formed m'
        | Inr (m', fresh', join', overlaps') \<Rightarrow>
            moves m1 m' (\<lambda>P s. val P (h_k (m_head m1)) s f1 - val P (h_k (m_head m1)) s fresh') \<and> formed m'
            \<and> same_kind fresh' f1 \<and> joins m' fresh' join'" by (intro Cons.IH) auto
      have 2: "moves m m1 (\<lambda>P s. val P (h_k (m_head m)) s fresh - val P (h_k (m_head m)) s f1)" using 1 by blast
      have sk: "same_kind f1 fresh" using 1 by blast
      show ?thesis
      proof (cases r)
        case (Inl m')
        then have 3: "moves m1 m' (\<lambda>P s. val P (h_k (m_head m1)) s f1)" "formed m'" using IH by auto
        have "moves m m' (\<lambda>P s. val P (h_k (m_head m)) s fresh)" by (rule moves_cong [OF moves_trans [OF 2 3(1)]]) (simp add: k)
        with 3 show ?thesis by (simp add: Inl)
      next
        case (Inr q)
        then obtain m' f' j' v' where q: "r = Inr (m', f', j', v')" by (cases q) auto
        then have 3: "moves m1 m' (\<lambda>P s. val P (h_k (m_head m1)) s f1 - val P (h_k (m_head m1)) s f')" using IH by simp
        have "moves m m' (\<lambda>P s. val P (h_k (m_head m)) s fresh - val P (h_k (m_head m)) s f')"
          by (rule moves_cong [OF moves_trans [OF 2 3]]) (simp add: k)
        then show ?thesis using IH sk by (simp add: q same_kind_def)
      qed
    qed
  next
    case other
    then obtain v where "place_scan m fresh join v is = Some (Inr r)"
      using Cons.prems(1) by (auto simp: c_def Let_def option_bind_eq_Some checked_simps split: if_splits)
    then show ?thesis using Cons.prems(4) by (rule go_on)
  qed
qed

lemma place_first_moves:
  assumes "place_first m fresh first = Some (Inr (m', fresh'))" "formed m" "c_side fresh \<le> 1" "joins m fresh hold"
  shows "moves m m' (\<lambda>P s. val P (h_k (m_head m)) s fresh - val P (h_k (m_head m)) s fresh') \<and> formed m'
    \<and> same_kind fresh' fresh \<and> joins m' fresh' hold"
proof (cases "m' = m \<and> fresh' = fresh")
  case True
  with assms(2,4) show ?thesis by auto
next
  case False
  then obtain c lots res where "redeem_fresh m fresh c lots res = Some (Inr (m', fresh'))"
    using assms(1) by (auto simp: place_first_def option_bind_eq_Some Let_def split: option.splits if_splits)
  from redeem_fresh_moves [OF this assms(2,3)] joins_kept [OF assms(4)] show ?thesis by blast
qed

lemma join_claim_moves:
  assumes "join_claim m fresh i = Some (Inr m')" "formed m" "same_kind (m_claims m ! i) fresh"
    "shaped (h_grid (m_head m)) (length (m_traders m)) fresh"
  shows "moves m m' (\<lambda>P s. val P (h_k (m_head m)) s fresh) \<and> formed m'"
proof -
  let ?k = "h_k (m_head m)"
  define c where "c = m_claims m ! i"
  obtain m1 m2 d seq where i: "i < length (m_claims m)"
    and 1: "(if c_lots c = 0 then count_claim m (c_trader fresh) else Some m) = Some m1"
    and 2: "next_seq m1 = Some (Inr (m2, seq))" and m': "m' = put_claim m2 i d"
    and d: "same_kind d c" "c_lots d = c_lots c + c_lots fresh" "c_held d = c_held c"
    using assms(1) by (fastforce simp: join_claim_def res_simps option_bind_eq_Some slot_Some c_def Let_def same_kind_def
      split: if_splits)
  have 3: "moves m m1 (\<lambda>P s. 0) \<and> m_claims m1 = m_claims m"
    using 1 count_claim_moves by (auto split: if_splits)
  note 4 = next_seq_moves [OF 2]
  have 5: "moves m m2 (\<lambda>P s. 0)" using moves_trans [of m m1 _ m2] 3 4 by fastforce
  have same: "m_claims m2 = m_claims m" "i < length (m_claims m2)" using 3 4 i by auto
  have v: "val P ?k s d = val P ?k s c + val P ?k s fresh" for P s
    by (rule val_lots) (use d assms(3) in \<open>simp_all add: c_def\<close>)
  have st: "stays_held (m_claims m2 ! i) d" using d by (simp add: stays_held_def same(1) c_def)
  have mv: "moves m m' (\<lambda>P s. val P ?k s fresh)"
    unfolding m' by (rule moves_cong [OF moves_trans [OF 5 moves_put_claim [OF same(2) st]]])
      (simp add: moves_terms(1) [OF 5] same(1) c_def [symmetric] v)
  have "shaped (h_grid (m_head m)) (length (m_traders m)) d"
    using assms(3,4) d(1) same_kind_shaped by (metis c_def)
  then have "formed m'" by (intro formed_put [OF mv assms(2)]) (auto simp: m' put_claim_def same(1) claim_formed_def)
  with mv show ?thesis by blast
qed

lemma place_rest_moves:
  assumes "place_rest m fresh join overlaps = Some (Inr (m', r))" "formed m"
    "shaped (h_grid (m_head m)) (length (m_traders m)) fresh" "joins m fresh join"
  shows "moves m m' (\<lambda>P s. val P (h_k (m_head m)) s fresh) \<and> formed m'"
proof (cases "c_lots fresh = 0")
  case True
  with assms(1,2) show ?thesis by (auto simp: place_rest_def)
next
  case False
  then obtain m1 f where 1: "(case join of
        Some i \<Rightarrow> andthen (join_claim m fresh i) (\<lambda>m. Some (Inr (m, i)))
      | None \<Rightarrow> new_claim m fresh) = Some (Inr (m1, f))"
    and 2: "(if overlaps then net_overlaps m1 f (c_lots fresh) else Some (Inr m1)) = Some (Inr m')"
    using assms(1) by (auto simp: place_rest_def res_simps)
  have 3: "moves m m1 (\<lambda>P s. val P (h_k (m_head m)) s fresh) \<and> formed m1"
  proof (cases join)
    case None
    then have "new_claim m fresh = Some (Inr (m1, f))" using 1 by simp
    note n = new_claim_moves [OF this]
    then obtain seq where "m_claims m1 = (m_claims m)[f := fresh\<lparr>c_seq := seq\<rparr>]" by blast
    moreover have "claim_formed (h_grid (m_head m)) (length (m_traders m)) (fresh\<lparr>c_seq := seq\<rparr>)"
      using assms(3) by (simp add: claim_formed_def shaped_def)
    ultimately show ?thesis using formed_put [OF conjunct1 [OF n] assms(2)] n by blast
  next
    case (Some i)
    then have "join_claim m fresh i = Some (Inr m1)" using 1 by (auto simp: res_simps)
    then show ?thesis using assms(2-4) Some by (intro join_claim_moves) (auto simp: joins_def)
  qed
  have 4: "moves m1 m' (\<lambda>P s. 0) \<and> formed m'"
    using 2 3 net_overlaps_moves by (auto split: if_splits)
  then show ?thesis using moves_trans [OF conjunct1 [OF 3], of m' "\<lambda>P s. 0"] by simp
qed

lemma place_moves:
  assumes "place m fresh first hold = Some (Inr (m', r))" "formed m"
    "shaped (h_grid (m_head m)) (length (m_traders m)) fresh" "joins m fresh hold"
  shows "moves m m' (\<lambda>P s. val P (h_k (m_head m)) s fresh) \<and> formed m'"
proof -
  let ?k = "h_k (m_head m)"
  obtain m1 f1 where 1: "place_first m fresh first = Some (Inr (m1, f1))"
    and "Option.bind (trader_of m1 (c_trader f1)) (\<lambda>t.
     andthen (if 0 < c_lots f1 \<and> 0 < tr_claims t then place_scan m1 f1 hold False [0..<length (m_claims m1)]
              else Some (Inr (Inr (m1, f1, hold, False)))) (\<lambda>r.
     case r of
       Inl m \<Rightarrow> Some (Inr (m, None))
     | Inr (m, fresh, join, overlaps) \<Rightarrow> place_rest m fresh join overlaps)) = Some (Inr (m', r))"
    using assms(1) by (auto simp: place_def andthen_ok)
  then obtain t :: trader and q where 2: "(if 0 < c_lots f1 \<and> 0 < tr_claims t then place_scan m1 f1 hold False [0..<length (m_claims m1)]
             else Some (Inr (Inr (m1, f1, hold, False)))) = Some (Inr q)"
    and 3: "(case q of Inl m \<Rightarrow> Some (Inr (m, None))
             | Inr (m, fresh, join, overlaps) \<Rightarrow> place_rest m fresh join overlaps) = Some (Inr (m', r))"
    by (auto simp: andthen_ok option_bind_eq_Some)
  have side: "c_side fresh \<le> 1" using assms(3) by (simp add: shaped_def)
  note p1 = place_first_moves [OF 1 assms(2) side assms(4)]
  note t1 = moves_terms [OF conjunct1 [OF p1]]
  have p2: "case q of
       Inl m' \<Rightarrow> moves m1 m' (\<lambda>P s. val P (h_k (m_head m1)) s f1) \<and> formed m'
     | Inr (m', fresh', join', overlaps') \<Rightarrow>
         moves m1 m' (\<lambda>P s. val P (h_k (m_head m1)) s f1 - val P (h_k (m_head m1)) s fresh') \<and> formed m'
         \<and> same_kind fresh' f1 \<and> joins m' fresh' join'"
  proof (cases "0 < c_lots f1 \<and> 0 < tr_claims t")
    case True
    with 2 have "place_scan m1 f1 hold False [0..<length (m_claims m1)] = Some (Inr q)" by simp
    then show ?thesis using p1 side by (intro place_scan_moves) (auto simp: same_kind_def)
  next
    case False
    then have "q = Inr (m1, f1, hold, False)" using 2 by auto
    then show ?thesis using p1 by auto
  qed
  show ?thesis
  proof (cases q)
    case (Inl m2)
    then have 4: "moves m1 m' (\<lambda>P s. val P (h_k (m_head m1)) s f1)" "formed m'" using 3 p2 by auto
    have "moves m m' (\<lambda>P s. val P ?k s fresh)" by (rule moves_cong [OF moves_trans [OF conjunct1 [OF p1] 4(1)]]) (simp add: t1)
    with 4 show ?thesis by blast
  next
    case (Inr x)
    then obtain m2 f2 j v where q: "q = Inr (m2, f2, j, v)" by (cases x) auto
    have "moves m1 m2 (\<lambda>P s. val P (h_k (m_head m1)) s f1 - val P (h_k (m_head m1)) s f2)" using p2 by (simp add: q)
    from moves_trans [OF conjunct1 [OF p1] this] have 4: "moves m m2 (\<lambda>P s. val P ?k s fresh - val P ?k s f2)"
      by (simp add: t1)
    have f2: "formed m2" "same_kind f2 fresh" "joins m2 f2 j" using p2 p1 by (auto simp: q same_kind_def)
    note t2 = moves_terms [OF 4]
    have "shaped (h_grid (m_head m2)) (length (m_traders m2)) f2"
      using assms(3) same_kind_shaped [OF f2(2)] t2 by simp
    moreover have "place_rest m2 f2 j v = Some (Inr (m', r))" using 3 by (simp add: q)
    ultimately have 5: "moves m2 m' (\<lambda>P s. val P (h_k (m_head m2)) s f2) \<and> formed m'"
      using f2 by (intro place_rest_moves)
    have "moves m m' (\<lambda>P s. val P ?k s fresh)" by (rule moves_cong [OF moves_trans [OF 4 conjunct1 [OF 5]]]) (simp add: t2)
    with 5 show ?thesis by blast
  qed
qed

end
