(* ===== verification/Market_Audit.thy ===== *)
theory Market_Audit
  imports Market_Worth
begin

text \<open>
  The audit in closed form: on a market whose claims and ladders lie on its grid, its loops compute the sums they
  are named for, the amount due being what all claims and inventories are worth at the settlement.
\<close>

definition final_pay :: "header \<Rightarrow> bool \<Rightarrow> nat \<Rightarrow> nat \<Rightarrow> nat" where
  "final_pay h long lo hi = nat (unit_pay (h_k h) (h_settlement_fine h) long lo hi)"

lemma unit_pay_nonneg: "0 \<le> unit_pay k s long lo hi"
  using long_spec_le [of lo hi s k] by (simp add: unit_pay_def del: of_nat_mult)

lemma final_pay_int: "int (final_pay h long lo hi) = unit_pay (h_k h) (h_settlement_fine h) long lo hi"
  by (simp add: final_pay_def unit_pay_nonneg)

lemma per_lot_total:
  assumes "lo \<le> hi" "hi * h_k h < 2 ^ 64"
  shows "per_lot h sd lo hi = Some (final_pay h (sd = 0) lo hi)"
proof -
  let ?s = "h_settlement_fine h" and ?k = "h_k h"
  have le: "long_spec lo hi ?s ?k \<le> (hi - lo) * ?k" by (rule long_spec_le)
  have "short_per_lot lo hi ?s ?k = Some ((hi - lo) * ?k - long_spec lo hi ?s ?k)"
    using le by (simp add: short_per_lot_def set_value_total [OF assms] long_per_lot_total [OF assms] checked_sub_def)
  then show ?thesis
    using le long_per_lot_total [OF assms]
    by (simp add: per_lot_def final_pay_def unit_pay_def nat_diff_distrib del: of_nat_mult)
qed

definition steps_long :: "step list \<Rightarrow> nat" where
  "steps_long ss = (\<Sum>s\<leftarrow>ss. if 0 < st_inv s then nat \<bar>st_inv s\<bar> else 0)"

definition steps_short :: "step list \<Rightarrow> nat" where
  "steps_short ss = (\<Sum>s\<leftarrow>ss. if st_inv s < 0 then nat \<bar>st_inv s\<bar> else 0)"

fun steps_due :: "header \<Rightarrow> step list \<Rightarrow> nat \<Rightarrow> nat" where
  "steps_due h [] x = 0"
| "steps_due h (s # ss) x = nat \<bar>st_inv s\<bar> * final_pay h (0 < st_inv s) x (x + 1) + steps_due h ss (x + 1)"

lemma audit_steps_eq:
  "x + length ss \<le> g \<Longrightarrow> g * h_k h < 2 ^ 64 \<Longrightarrow> d < 2 ^ 128 \<Longrightarrow>
    audit_steps h ss x (l, sh, d) =
      (if h_status h = STATUS_OPEN then Some (l + steps_long ss, sh + steps_short ss, d)
       else if d + steps_due h ss x < 2 ^ 128 then Some (l + steps_long ss, sh + steps_short ss, d + steps_due h ss x)
       else None)"
proof (induction ss arbitrary: x l sh d)
  case Nil
  then show ?case by (simp add: steps_long_def steps_short_def)
next
  case (Cons s ss)
  have x: "(x + 1) + length ss \<le> g" using Cons.prems(1) by simp
  have "(x + 1) * h_k h \<le> g * h_k h" using x by (intro mult_le_mono1) simp
  then have per: "per_lot h sd x (x + 1) = Some (final_pay h (sd = 0) x (x + 1))" for sd
    using Cons.prems(2) by (intro per_lot_total) auto
  note IH = Cons.IH [OF x Cons.prems(2)]
  define part where "part = nat \<bar>st_inv s\<bar> * final_pay h (0 < st_inv s) x (x + 1)"
  show ?case
  proof (cases "st_inv s = 0")
    case True
    then show ?thesis using IH [OF Cons.prems(3)] by (simp add: steps_long_def steps_short_def)
  next
    case False
    then have sign: "st_inv s < 0 \<longleftrightarrow> \<not> 0 < st_inv s" by linarith
    show ?thesis
    proof (cases "h_status h = STATUS_OPEN")
      case True
      then show ?thesis using False sign IH [OF Cons.prems(3)] by (simp add: steps_long_def steps_short_def)
    next
      case closed: False
      have step: "audit_steps h (s # ss) x (l, sh, d) = Option.bind (checked_add 128 d part) (\<lambda>d.
          audit_steps h ss (x + 1) (if 0 < st_inv s then (l + nat \<bar>st_inv s\<bar>, sh, d) else (l, sh + nat \<bar>st_inv s\<bar>, d)))"
        using False closed per [of 0] per [of 1] by (cases "0 < st_inv s") (simp_all add: part_def Let_def)
      have due: "steps_due h (s # ss) x = part + steps_due h ss (x + 1)" by (simp add: part_def)
      show ?thesis
      proof (cases "d + part < 2 ^ 128")
        case True
        then have "checked_add 128 d part = Some (d + part)" by (simp only: checked_add_Some)
        with IH [OF True] closed sign False show ?thesis
          unfolding step due by (simp add: steps_long_def steps_short_def add.assoc)
      next
        case big: False
        then have "checked_add 128 d part = None" by (simp only: checked_add_def checked_def if_False)
        with big closed show ?thesis unfolding step due by simp
      qed
    qed
  qed
qed

lemma steps_due_from:
  "int (steps_due h ss x) = (\<Sum>j<length ss. \<bar>st_inv (ss ! j)\<bar> * unit_pay (h_k h) (h_settlement_fine h) (0 < st_inv (ss ! j)) (x + j) (x + j + 1))"
  by (induction ss arbitrary: x) (simp_all add: final_pay_int sum.lessThan_Suc_shift del: sum.lessThan_Suc)

lemma steps_due_int: "int (steps_due h ss 0) = steps_pay (h_k h) (h_settlement_fine h) ss"
  by (simp add: steps_due_from steps_pay_def)

subsection \<open>Ladders\<close>

definition ladders_on :: "nat \<Rightarrow> step list list \<Rightarrow> bool" where
  "ladders_on g sss \<longleftrightarrow> (\<forall>ss\<in>set sss. length ss = g)"

definition used_sum :: "(maker \<times> step list \<Rightarrow> nat) \<Rightarrow> (maker \<times> step list) list \<Rightarrow> nat" where
  "used_sum f ks = (\<Sum>q\<leftarrow>ks. if mk_used (fst q) then f q else 0)"

lemma used_sum_simps [simp]:
  "used_sum f [] = 0" "used_sum f (q # ks) = (if mk_used (fst q) then f q else 0) + used_sum f ks"
  by (simp_all add: used_sum_def)

abbreviation "escrows \<equiv> used_sum (\<lambda>q. mk_escrow (fst q))"
abbreviation "longs \<equiv> used_sum (\<lambda>q. steps_long (snd q))"
abbreviation "shorts \<equiv> used_sum (\<lambda>q. steps_short (snd q))"
abbreviation "dues h \<equiv> used_sum (\<lambda>q. steps_due h (snd q) 0)"

lemma audit_makers_eq:
  "\<forall>q\<in>set ks. length (snd q) = g \<Longrightarrow> g * h_k h < 2 ^ 64 \<Longrightarrow> d < 2 ^ 128 \<Longrightarrow> e < 2 ^ 128 \<Longrightarrow>
    audit_makers h ks e (l, sh, d) =
      (if e + escrows ks < 2 ^ 128 \<and> (h_status h = STATUS_OPEN \<or> d + dues h ks < 2 ^ 128)
       then Some (e + escrows ks, l + longs ks, sh + shorts ks, if h_status h = STATUS_OPEN then d else d + dues h ks)
       else None)"
proof (induction ks arbitrary: e l sh d)
  case (Cons q ks)
  obtain k ss where q: "q = (k, ss)" by fastforce
  show ?case
  proof (cases "mk_used k")
    case False
    then show ?thesis using Cons.IH [of d e l sh] Cons.prems by (simp add: q)
  next
    case True
    have steps: "audit_steps h ss 0 (l, sh, d) =
      (if h_status h = STATUS_OPEN then Some (l + steps_long ss, sh + steps_short ss, d)
       else if d + steps_due h ss 0 < 2 ^ 128 then Some (l + steps_long ss, sh + steps_short ss, d + steps_due h ss 0)
       else None)"
      using Cons.prems by (intro audit_steps_eq [of _ _ g]) (auto simp: q)
    have IH: "d' < 2 ^ 128 \<Longrightarrow> e' < 2 ^ 128 \<Longrightarrow> audit_makers h ks e' (l', sh', d') =
      (if e' + escrows ks < 2 ^ 128 \<and> (h_status h = STATUS_OPEN \<or> d' + dues h ks < 2 ^ 128)
       then Some (e' + escrows ks, l' + longs ks, sh' + shorts ks, if h_status h = STATUS_OPEN then d' else d' + dues h ks)
       else None)" for d' e' l' sh'
      using Cons.IH Cons.prems by simp
    consider "2 ^ 128 \<le> e + mk_escrow k" | "e + mk_escrow k < 2 ^ 128" "h_status h = STATUS_OPEN"
      | "e + mk_escrow k < 2 ^ 128" "h_status h \<noteq> STATUS_OPEN" "d + steps_due h ss 0 < 2 ^ 128"
      | "e + mk_escrow k < 2 ^ 128" "h_status h \<noteq> STATUS_OPEN" "2 ^ 128 \<le> d + steps_due h ss 0" by linarith
    then show ?thesis
      by cases (use True Cons.prems(3) in \<open>simp_all add: q checked_add_def checked_def steps IH add.assoc\<close>)
  qed
qed simp

lemma makers_due_int: "int (dues h ks) = makers_val (\<lambda>_. True) (h_k h) (h_settlement_fine h) ks"
  by (induction ks) (simp_all add: makers_val_def maker_val_def steps_due_int)

subsection \<open>Claims\<close>

definition side_sum :: "nat \<Rightarrow> bool \<Rightarrow> claim list \<Rightarrow> nat" where
  "side_sum k long cs = (\<Sum>c\<leftarrow>cs. if (c_side c = 0) = long then c_lots c * ((c_hi c - c_lo c) * k) else 0)"

definition claims_due :: "header \<Rightarrow> claim list \<Rightarrow> nat" where
  "claims_due h cs = (\<Sum>c\<leftarrow>cs. c_lots c * final_pay h (c_side c = 0) (c_lo c) (c_hi c))"

definition held_sum :: "claim list \<Rightarrow> nat" where
  "held_sum cs = (\<Sum>c\<leftarrow>cs. of_bool (c_held c))"

lemma claim_sums_simps [simp]:
  "side_sum k b [] = 0" "claims_due h [] = 0" "held_sum [] = 0"
  "side_sum k b (c # cs) = (if (c_side c = 0) = b then c_lots c * ((c_hi c - c_lo c) * k) else 0) + side_sum k b cs"
  "claims_due h (c # cs) = c_lots c * final_pay h (c_side c = 0) (c_lo c) (c_hi c) + claims_due h cs"
  "held_sum (c # cs) = of_bool (c_held c) + held_sum cs"
  by (simp_all add: side_sum_def claims_due_def held_sum_def)

lemma audit_claims_eq:
  "\<forall>c\<in>set cs. 0 < c_lots c \<longrightarrow> c_lo c < c_hi c \<and> c_hi c \<le> g \<Longrightarrow> g * h_k h < 2 ^ 64 \<Longrightarrow>
    l < 2 ^ 128 \<Longrightarrow> sh < 2 ^ 128 \<Longrightarrow> d < 2 ^ 128 \<Longrightarrow>
    audit_claims h cs held (l, sh, d) =
      (if l + side_sum (h_k h) True cs < 2 ^ 128 \<and> sh + side_sum (h_k h) False cs < 2 ^ 128
          \<and> (h_status h = STATUS_OPEN \<or> d + claims_due h cs < 2 ^ 128)
       then Some (held + held_sum cs, l + side_sum (h_k h) True cs, sh + side_sum (h_k h) False cs,
         if h_status h = STATUS_OPEN then d else d + claims_due h cs)
       else None)"
proof (induction cs arbitrary: held l sh d)
  case (Cons c cs)
  let ?set = "c_lots c * ((c_hi c - c_lo c) * h_k h)" and ?due = "c_lots c * final_pay h (c_side c = 0) (c_lo c) (c_hi c)"
  have IH: "l' < 2 ^ 128 \<Longrightarrow> sh' < 2 ^ 128 \<Longrightarrow> d' < 2 ^ 128 \<Longrightarrow> audit_claims h cs held' (l', sh', d') =
      (if l' + side_sum (h_k h) True cs < 2 ^ 128 \<and> sh' + side_sum (h_k h) False cs < 2 ^ 128
          \<and> (h_status h = STATUS_OPEN \<or> d' + claims_due h cs < 2 ^ 128)
       then Some (held' + held_sum cs, l' + side_sum (h_k h) True cs, sh' + side_sum (h_k h) False cs,
         if h_status h = STATUS_OPEN then d' else d' + claims_due h cs)
       else None)" for held' l' sh' d'
    using Cons.IH Cons.prems by simp
  show ?case
  proof (cases "c_lots c = 0")
    case True
    then show ?thesis using Cons.prems by (simp add: IH Let_def add.assoc)
  next
    case False
    then have r: "c_lo c \<le> c_hi c" "c_hi c \<le> g" using Cons.prems(1) by auto
    have "c_hi c * h_k h \<le> g * h_k h" using r by (intro mult_le_mono1)
    with Cons.prems(2) have hi: "c_hi c * h_k h < 2 ^ 64" by linarith
    note sv = set_value_total [OF r(1) hi] and pl = per_lot_total [OF r(1) hi]
    let ?l = "if c_side c = 0 then l + ?set else l" and ?sh = "if c_side c = 0 then sh else sh + ?set"
    consider "2 ^ 128 \<le> ?l \<or> 2 ^ 128 \<le> ?sh" | "?l < 2 ^ 128" "?sh < 2 ^ 128" "h_status h = STATUS_OPEN"
      | "?l < 2 ^ 128" "?sh < 2 ^ 128" "h_status h \<noteq> STATUS_OPEN" "d + ?due < 2 ^ 128"
      | "?l < 2 ^ 128" "?sh < 2 ^ 128" "h_status h \<noteq> STATUS_OPEN" "2 ^ 128 \<le> d + ?due" by linarith
    then show ?thesis
      by cases (use False Cons.prems(3-5) in \<open>auto simp: Let_def checked_add_def checked_def sv pl IH add.assoc\<close>)
  qed
qed simp

lemma claims_due_int: "int (claims_due h cs) = claims_val (\<lambda>_. True) (h_k h) (h_settlement_fine h) cs"
  by (induction cs) (simp_all add: claims_val_def val_def pays_def final_pay_int)

end
