(* ===== verification/Market_Invariant.thy ===== *)
theory Market_Invariant
  imports Market_Audit
begin

text \<open>
  The invariant of a market and that its instructions keep it. A market is sound when its claims and ladders lie on
  its grid, its audit passes, its credit owner has repaid what it can, and, while it is open, what all claims and
  inventories are worth equals the backing at every settlement: the audit checks the two ends of that range only.
\<close>

definition on_grid :: "market \<Rightarrow> bool" where
  "on_grid m \<longleftrightarrow> h_grid (m_head m) * h_k (m_head m) < 2 ^ 64 \<and> length (m_steps m) = length (m_makers m)
     \<and> ladders_on (h_grid (m_head m)) (m_steps m)"

definition backed :: "market \<Rightarrow> bool" where
  "backed m \<longleftrightarrow> (\<forall>s. all_pay m s = int (h_backing (m_head m)))"

text \<open>The credit owner owes nothing it has free cash for, and its debt is carried.\<close>

definition settled_up :: "market \<Rightarrow> bool" where
  "settled_up m =
     (let h = m_head m; found = find_trader m (h_credit_owner h) in
      h_debt h = 0 \<or> \<not> has_credit h
      \<or> (credit_settled h \<and> h_debt h \<le> h_backing h)
      \<or> (\<not> credit_settled h \<and> found = None \<and> h_debt h \<le> h_backing h)
      \<or> (\<not> credit_settled h \<and> (\<exists>t. found = Some t \<and> tr_free (m_traders m ! t) = 0
           \<and> h_debt h \<le> h_backing h + tr_reserved (m_traders m ! t))))"

definition sound :: "market \<Rightarrow> bool" where
  "sound m \<longleftrightarrow> formed m \<and> on_grid m \<and> audit m = Some (Inr ()) \<and> settled_up m
     \<and> (h_status (m_head m) = STATUS_OPEN \<longrightarrow> backed m)"

subsection \<open>What the audit says\<close>

lemma audit_orders_claims:
  "m_claims m' = m_claims m \<Longrightarrow> audit_orders m' rs e h = audit_orders m rs e h"
proof (induction rs arbitrary: e h)
  case (Cons r rs)
  then show ?case by (cases "checked_add 128 e (o_lots r * o_escrow_per_lot r)") (simp_all add: Let_def)
qed simp

lemma audit_orders_bound:
  "audit_orders m rs e h = Some (Inr (e', h')) \<Longrightarrow> e < 2 ^ 128 \<Longrightarrow> e' < 2 ^ 128"
  by (induction rs arbitrary: e h)
    (auto simp: res_simps option_bind_eq_Some checked_add_Some Let_def split: if_splits simp del: power_numeral)

lemma formed_ranges:
  "formed m \<Longrightarrow> \<forall>c\<in>set (m_claims m). 0 < c_lots c \<longrightarrow> c_lo c < c_hi c \<and> c_hi c \<le> h_grid (m_head m)"
  by (auto simp: formed_def claim_formed_def shaped_def)

lemma audit_iff:
  assumes "formed m" "on_grid m"
  defines "h \<equiv> m_head m" and "ks \<equiv> zip (m_makers m) (m_steps m)" and "cs \<equiv> m_claims m"
  shows "audit m = Some (Inr ()) \<longleftrightarrow>
    sum_list (map tr_free (m_traders m)) = h_total_free h \<and> sum_list (map tr_reserved (m_traders m)) = h_total_reserved h
    \<and> (\<exists>e. audit_orders m (m_orders m) 0 0 = Some (Inr (e, held_sum cs)) \<and> e + escrows ks = h_total_reserved h
         \<and> e + escrows ks < 2 ^ 128)
    \<and> longs ks * h_k h + side_sum (h_k h) True cs < 2 ^ 128 \<and> shorts ks * h_k h + side_sum (h_k h) False cs < 2 ^ 128
    \<and> (if h_status h = STATUS_OPEN
       then longs ks * h_k h + side_sum (h_k h) True cs = h_backing h
         \<and> shorts ks * h_k h + side_sum (h_k h) False cs = h_backing h
       else dues h ks + claims_due h cs < 2 ^ 128 \<and> dues h ks + claims_due h cs = h_backing h)
    \<and> h_custody h + h_debt h = h_total_free h + h_total_reserved h + h_backing h"
proof -
  have g: "h_grid h * h_k h < 2 ^ 64" "\<forall>q\<in>set ks. length (snd q) = h_grid h"
    using assms(2) by (auto simp: on_grid_def h_def ks_def ladders_on_def dest: set_zip_rightD)
  have mk: "e < 2 ^ 128 \<Longrightarrow> audit_makers h ks e (0, 0, 0) =
      (if e + escrows ks < 2 ^ 128 \<and> (h_status h = STATUS_OPEN \<or> dues h ks < 2 ^ 128)
       then Some (e + escrows ks, longs ks, shorts ks, if h_status h = STATUS_OPEN then 0 else dues h ks)
       else None)" for e
    using audit_makers_eq [OF g(2,1), of 0 e 0 0] by simp
  have cl: "l < 2 ^ 128 \<Longrightarrow> sh < 2 ^ 128 \<Longrightarrow> d < 2 ^ 128 \<Longrightarrow> audit_claims h cs 0 (l, sh, d) =
      (if l + side_sum (h_k h) True cs < 2 ^ 128 \<and> sh + side_sum (h_k h) False cs < 2 ^ 128
          \<and> (h_status h = STATUS_OPEN \<or> d + claims_due h cs < 2 ^ 128)
       then Some (held_sum cs, l + side_sum (h_k h) True cs, sh + side_sum (h_k h) False cs,
         if h_status h = STATUS_OPEN then d else d + claims_due h cs)
       else None)" for l sh d
    using audit_claims_eq [OF _ g(1), of cs l sh d 0] formed_ranges [OF assms(1)] by (simp add: cs_def h_def)
  have au: "audit m = ensure Insolvent (sum_list (map tr_free (m_traders m)) = h_total_free h
        \<and> sum_list (map tr_reserved (m_traders m)) = h_total_reserved h) (
      andthen (audit_orders m (m_orders m) 0 0) (\<lambda>(escrow, holds).
      Option.bind (audit_makers h ks escrow (0, 0, 0)) (\<lambda>(escrow, long, short, due).
      Option.bind (checked_mul 128 long (h_k h)) (\<lambda>long.
      Option.bind (checked_mul 128 short (h_k h)) (\<lambda>short.
      ensure Insolvent (escrow = sum_list (map tr_reserved (m_traders m))) (
      Option.bind (audit_claims h cs 0 (long, short, due)) (\<lambda>(held, long, short, due).
      ensure Insolvent (held = holds) (
      ensure Insolvent (if h_status h = STATUS_OPEN then long = h_backing h \<and> short = h_backing h
                        else due = h_backing h) (
      ensure Insolvent (h_custody h + h_debt h = sum_list (map tr_free (m_traders m))
        + sum_list (map tr_reserved (m_traders m)) + h_backing h) (
      Some (Inr ())))))))))))"
    unfolding audit_def Let_def h_def ks_def cs_def by (rule refl)
  show ?thesis
  proof (cases "\<exists>e n. audit_orders m (m_orders m) 0 0 = Some (Inr (e, n))")
    case False
    then show ?thesis by (auto simp: au res_simps)
  next
    case True
    then obtain e n where en: "audit_orders m (m_orders m) 0 0 = Some (Inr (e, n))" by blast
    then have "e < 2 ^ 128" by (rule audit_orders_bound) simp
    note mk = mk [OF this]
    show ?thesis
    proof (cases "h_status h = STATUS_OPEN")
      case True
      show ?thesis
        unfolding au by (auto simp: res_simps en mk True option_bind_eq_Some checked_mul_Some cl simp del: power_numeral
          split: if_splits) 
    next
      case False
      show ?thesis
        unfolding au by (auto simp: res_simps en mk False option_bind_eq_Some checked_mul_Some cl simp del: power_numeral
          split: if_splits)
    qed
  qed
qed

lemma cash_all: "cash (\<lambda>_. True) ts = int (sum_list (map tr_free ts) + sum_list (map tr_reserved ts))"
proof -
  have "cash (\<lambda>_. True) ts = (\<Sum>t\<leftarrow>ts. int (tr_free t + tr_reserved t))"
    by (simp add: cash_def sum_list_sum_nth atLeast0LessThan)
  also have "\<dots> = int (sum_list (map tr_free ts) + sum_list (map tr_reserved ts))" by (induction ts) auto
  finally show ?thesis .
qed

lemma worth_all: "worth (\<lambda>_. True) m s = cash (\<lambda>_. True) (m_traders m) + all_pay m s"
  by (simp add: worth_def all_pay_def)

lemma audit_cash:
  assumes "audit m = Some (Inr ())" "formed m" "on_grid m"
  shows "cash (\<lambda>_. True) (m_traders m) + int (h_backing (m_head m)) = int (h_custody (m_head m) + h_debt (m_head m))"
    "h_status (m_head m) \<noteq> STATUS_OPEN \<Longrightarrow> all_pay m (h_settlement_fine (m_head m)) = int (h_backing (m_head m))"
    "h_status (m_head m) = STATUS_OPEN \<Longrightarrow> h_backing (m_head m) < 2 ^ 128"
proof -
  note a = assms(1) [unfolded audit_iff [OF assms(2,3)]]
  show "cash (\<lambda>_. True) (m_traders m) + int (h_backing (m_head m)) = int (h_custody (m_head m) + h_debt (m_head m))"
    using a by (simp add: cash_all)
  show "h_status (m_head m) = STATUS_OPEN \<Longrightarrow> h_backing (m_head m) < 2 ^ 128" using a by auto
  show "all_pay m (h_settlement_fine (m_head m)) = int (h_backing (m_head m))" if "h_status (m_head m) \<noteq> STATUS_OPEN"
  proof -
    have "dues (m_head m) (zip (m_makers m) (m_steps m)) + claims_due (m_head m) (m_claims m) = h_backing (m_head m)"
      using a that by simp
    from arg_cong [OF this, of int] show ?thesis by (simp add: all_pay_def makers_due_int claims_due_int)
  qed
qed

subsection \<open>Storing\<close>

text \<open>What \<open>store\<close> leaves alone: all but the credit owner's free cash, its total and its debt.\<close>

definition frame :: "market \<Rightarrow> market \<Rightarrow> bool" where
  "frame m m' \<longleftrightarrow> (m_head m')\<lparr>h_total_free := 0, h_debt := 0\<rparr> = (m_head m)\<lparr>h_total_free := 0, h_debt := 0\<rparr>
     \<and> m_claims m' = m_claims m \<and> m_orders m' = m_orders m \<and> m_makers m' = m_makers m \<and> m_steps m' = m_steps m
     \<and> map tr_owner (m_traders m') = map tr_owner (m_traders m)"

lemma frame_head:
  assumes "frame m m'"
  shows "h_k (m_head m') = h_k (m_head m)" "h_grid (m_head m') = h_grid (m_head m)"
    "h_status (m_head m') = h_status (m_head m)" "h_settlement_fine (m_head m') = h_settlement_fine (m_head m)"
    "h_custody (m_head m') = h_custody (m_head m)" "h_backing (m_head m') = h_backing (m_head m)"
    "h_credit_owner (m_head m') = h_credit_owner (m_head m)" "h_credit_flags (m_head m') = h_credit_flags (m_head m)"
proof -
  have eq: "(m_head m')\<lparr>h_total_free := 0, h_debt := 0\<rparr> = (m_head m)\<lparr>h_total_free := 0, h_debt := 0\<rparr>"
    using assms by (simp add: frame_def)
  show "h_k (m_head m') = h_k (m_head m)" "h_grid (m_head m') = h_grid (m_head m)"
    "h_status (m_head m') = h_status (m_head m)" "h_settlement_fine (m_head m') = h_settlement_fine (m_head m)"
    "h_custody (m_head m') = h_custody (m_head m)" "h_backing (m_head m') = h_backing (m_head m)"
    "h_credit_owner (m_head m') = h_credit_owner (m_head m)" "h_credit_flags (m_head m') = h_credit_flags (m_head m)"
    using arg_cong [OF eq, of h_k] arg_cong [OF eq, of h_grid] arg_cong [OF eq, of h_status]
      arg_cong [OF eq, of h_settlement_fine] arg_cong [OF eq, of h_custody] arg_cong [OF eq, of h_backing]
      arg_cong [OF eq, of h_credit_owner] arg_cong [OF eq, of h_credit_flags] by simp_all
qed

lemma frame_lengths: "frame m m' \<Longrightarrow> length (m_traders m') = length (m_traders m)"
  by (metis frame_def length_map)

lemma frame_formed: "frame m m' \<Longrightarrow> formed m' \<longleftrightarrow> formed m"
  using frame_head(2) [of m m'] frame_lengths [of m m'] by (simp add: formed_def frame_def)

lemma frame_on_grid: "frame m m' \<Longrightarrow> on_grid m' \<longleftrightarrow> on_grid m"
  using frame_head(1,2) [of m m'] by (simp add: on_grid_def frame_def)

lemma frame_all_pay: "frame m m' \<Longrightarrow> all_pay m' s = all_pay m s"
  using frame_head(1) [of m m'] by (simp add: all_pay_def frame_def)

lemma find_trader_owners:
  assumes "map tr_owner ts = map tr_owner (m_traders m)" "m_traders m' = ts"
  shows "find_trader m' owner = find_trader m owner"
proof -
  have len: "length ts = length (m_traders m)" using arg_cong [OF assms(1), of length] by simp
  have "tr_owner (ts ! i) = tr_owner (m_traders m ! i)" if "i < length ts" for i
    using arg_cong [OF assms(1), of "\<lambda>l. l ! i"] that len by simp
  then show ?thesis by (auto simp: find_trader_def assms(2) len intro!: find_cong)
qed

lemma frame_find: "frame m m' \<Longrightarrow> find_trader m' owner = find_trader m owner"
  by (rule find_trader_owners [OF _ refl]) (simp add: frame_def)

definition repaid :: "market \<Rightarrow> (nat \<Rightarrow> bool) \<Rightarrow> nat \<Rightarrow> int" where
  "repaid m P r = (case find_trader m (h_credit_owner (m_head m)) of None \<Rightarrow> 0 | Some t \<Rightarrow> at P t r)"

lemma repay_from_facts:
  assumes "repay_from m t = Some (Inr m')"
  shows "\<exists>r. frame m m' \<and> h_debt (m_head m) = h_debt (m_head m') + r \<and> m_approval m' = m_approval m
    \<and> (\<forall>P s. worth P m' s = worth P m s - at P t r) \<and> drift m' = drift m
    \<and> (tr_free (m_traders m' ! t) = 0 \<or> h_debt (m_head m') = 0)"
proof -
  define r where "r = min (tr_free (m_traders m ! t)) (h_debt (m_head m))"
  have t: "t < length (m_traders m)" using assms by (auto simp: repay_from_def option_bind_eq_Some slot_Some)
  show ?thesis
  proof (cases "0 < r")
    case False
    then have "m' = m" using assms by (auto simp: repay_from_def option_bind_eq_Some slot_Some r_def Let_def)
    then show ?thesis using False by (intro exI [of _ 0]) (auto simp: frame_def r_def at_def min_def split: if_splits)
  next
    case True
    then obtain m1 where m1: "debit_free m t r = Some (Inr m1)"
      and m': "m' = m1\<lparr>m_head := (m_head m1)\<lparr>h_debt := h_debt (m_head m1) - r\<rparr>\<rparr>"
      using assms by (auto simp: repay_from_def option_bind_eq_Some slot_Some r_def Let_def res_simps)
    obtain tf where m1_eq: "m1 = put_trader (m\<lparr>m_head := (m_head m)\<lparr>h_total_free := tf\<rparr>\<rparr>) t
        ((m_traders m ! t)\<lparr>tr_free := tr_free (m_traders m ! t) - r\<rparr>)"
      using m1 by (auto simp: debit_free_def res_simps option_bind_eq_Some slot_Some)
    note mv = debit_free_moves [OF m1]
    have "worth P m' s = worth P m1 s" for P s by (simp add: m' worth_def)
    then have w: "worth P m' s = worth P m s - at P t r" for P s using mv by (simp add: moves_def)
    have "drift m' = drift m" using mv by (simp add: moves_def m' drift_def)
    moreover have "frame m m'" using mv by (simp add: frame_def m' m1_eq put_trader_def moves_def)
    moreover have "h_debt (m_head m) = h_debt (m_head m') + r" "m_approval m' = m_approval m"
      by (simp_all add: m' m1_eq put_trader_def r_def)
    moreover have "tr_free (m_traders m' ! t) = 0 \<or> h_debt (m_head m') = 0"
      using t by (auto simp: m' m1_eq put_trader_def r_def min_def)
    ultimately show ?thesis using w by blast
  qed
qed

lemma repay_facts:
  assumes "repay m = Some (Inr m')"
  shows "\<exists>r. frame m m' \<and> h_debt (m_head m) = h_debt (m_head m') + r
    \<and> (\<forall>P s. worth P m' s = worth P m s - repaid m P r)
    \<and> repaid m (\<lambda>_. True) r = int r \<and> drift m' = drift m
    \<and> (0 < r \<longrightarrow> has_credit (m_head m) \<and> \<not> credit_settled (m_head m)) \<and> settled_up m'"
proof -
  define h where "h = m_head m"
  define found where "found = find_trader m (h_credit_owner h)"
  have same: ?thesis if "m' = m" "settled_up m"
    using that by (intro exI [of _ 0]) (auto simp: frame_def repaid_def at_def split: option.splits)
  show ?thesis
  proof (cases "h_debt h = 0 \<or> \<not> has_credit h")
    case True
    then have "m' = m" using assms by (simp add: repay_def h_def Let_def)
    then show ?thesis using same True by (auto simp: settled_up_def Let_def h_def)
  next
    case owing: False
    obtain m1 where m1: "(case found of
            Some t \<Rightarrow> if credit_settled h then Some (Inr m) else repay_from m t
          | None \<Rightarrow> Some (Inr m)) = Some (Inr m1)" and "m1 = m'"
      and carried: "h_debt (m_head m1) \<le> h_backing (m_head m1) + (if credit_settled (m_head m1) then 0
        else case found of None \<Rightarrow> 0 | Some t \<Rightarrow> tr_free (m_traders m1 ! t) + tr_reserved (m_traders m1 ! t))"
      using assms owing unfolding repay_def h_def found_def Let_def by (auto simp: res_simps)
    show ?thesis
    proof (cases "credit_settled h \<or> found = None")
      case True
      then have "m' = m" using m1 \<open>m1 = m'\<close> by (auto split: option.splits)
      moreover have "settled_up m"
        using True carried \<open>m1 = m'\<close> \<open>m' = m\<close> unfolding h_def found_def by (auto simp: settled_up_def Let_def split: if_splits)
      ultimately show ?thesis by (rule same)
    next
      case False
      then obtain t where t: "found = Some t" "repay_from m t = Some (Inr m')" using m1 \<open>m1 = m'\<close> by auto
      obtain r where r: "frame m m'" "h_debt (m_head m) = h_debt (m_head m') + r"
        "\<forall>P s. worth P m' s = worth P m s - at P t r" "drift m' = drift m" "tr_free (m_traders m' ! t) = 0 \<or> h_debt (m_head m') = 0"
        using repay_from_facts [OF t(2)] by blast
      have "credit_settled (m_head m') \<longleftrightarrow> credit_settled h" using frame_head(8) [OF r(1)] by (simp add: credit_settled_def h_def)
      moreover have "find_trader m' (h_credit_owner (m_head m')) = Some t"
        using frame_find [OF r(1)] frame_head(7) [OF r(1)] t(1) by (simp add: found_def h_def)
      ultimately have "settled_up m'"
        using r(5) carried \<open>m1 = m'\<close> False t(1) by (auto simp: settled_up_def Let_def)
      then show ?thesis using r owing False t(1) by (intro exI [of _ r]) (auto simp: repaid_def found_def h_def at_def)
    qed
  qed
qed

lemma store_facts:
  assumes "store m = Some (Inr m')"
  obtains r where "frame m m'" "h_debt (m_head m) = h_debt (m_head m') + r"
    "\<forall>P s. worth P m' s = worth P m s - repaid m P r" "repaid m (\<lambda>_. True) r = int r" "drift m' = drift m"
    "0 < r \<longrightarrow> has_credit (m_head m) \<and> \<not> credit_settled (m_head m)" "settled_up m'" "audit m' = Some (Inr ())"
proof -
  obtain m1 where m1: "repay m = Some (Inr m1)"
    and m': "m' = (if h_debt (m_head m1) = 0 then set_approval m1 0 else m1)" and au: "audit m' = Some (Inr ())"
    using assms by (auto simp: store_def res_simps Let_def)
  obtain r where r: "frame m m1" "h_debt (m_head m) = h_debt (m_head m1) + r"
    "\<forall>P s. worth P m1 s = worth P m s - repaid m P r" "repaid m (\<lambda>_. True) r = int r" "drift m1 = drift m"
    "0 < r \<longrightarrow> has_credit (m_head m) \<and> \<not> credit_settled (m_head m)" "settled_up m1"
    using repay_facts [OF m1] by blast
  have eq: "m_head m' = m_head m1" "m_traders m' = m_traders m1" "m_claims m' = m_claims m1" "m_orders m' = m_orders m1"
    "m_makers m' = m_makers m1" "m_steps m' = m_steps m1" by (simp_all add: m' set_approval_def)
  have "find_trader m' k = find_trader m1 k" for k by (simp add: find_trader_def eq)
  then have "settled_up m'" using r(7) by (simp add: settled_up_def eq)
  moreover have "frame m m'" using r(1) by (simp add: frame_def eq)
  moreover have "worth P m' s = worth P m s - repaid m P r" for P s using r(3) by (simp add: worth_def eq)
  ultimately show thesis using that [of r] r au by (simp add: eq drift_def)
qed

text \<open>
  An operation that adds \<open>d\<close> to the worth of the traders, and then is stored, adds as much to what claims and
  inventories are worth over the backing.
\<close>

definition flows :: "market \<Rightarrow> market \<Rightarrow> ((nat \<Rightarrow> bool) \<Rightarrow> nat \<Rightarrow> int) \<Rightarrow> bool" where
  "flows m m' d \<longleftrightarrow> terms m' = terms m \<and> drift m' = drift m \<and> map tr_owner (m_traders m') = map tr_owner (m_traders m)
     \<and> (\<forall>P s. worth P m' s = worth P m s + d P s)"

lemma moves_flows: "moves m m' d \<Longrightarrow> flows m m' d"
  by (simp add: moves_def flows_def)

lemma flows_refl [intro]: "flows m m (\<lambda>P s. 0)"
  by (simp add: flows_def)

lemma flows_trans: "flows m m' d \<Longrightarrow> flows m' m'' e \<Longrightarrow> flows m m'' (\<lambda>P s. d P s + e P s)"
  by (simp add: flows_def)

lemma flows_cong: "flows m m' d \<Longrightarrow> (\<And>P s. d P s = e P s) \<Longrightarrow> flows m m' e"
  by (simp add: flows_def)

lemma flows_terms:
  assumes "flows m m' d"
  shows "h_k (m_head m') = h_k (m_head m)" "h_grid (m_head m') = h_grid (m_head m)"
    "h_status (m_head m') = h_status (m_head m)" "h_settlement_fine (m_head m') = h_settlement_fine (m_head m)"
    "h_custody (m_head m') = h_custody (m_head m)" "h_debt (m_head m') = h_debt (m_head m)"
    "h_credit_owner (m_head m') = h_credit_owner (m_head m)" "h_credit_flags (m_head m') = h_credit_flags (m_head m)"
  using assms terms_eq [of m' m] by (simp_all add: flows_def)

lemma flows_find: "flows m m' d \<Longrightarrow> find_trader m' owner = find_trader m owner"
  by (rule find_trader_owners [OF _ refl]) (simp add: flows_def)

lemma stored_excess:
  assumes "sound m" "terms m1 = terms m" "\<And>s. worth (\<lambda>_. True) m1 s = worth (\<lambda>_. True) m s + e s"
    "store m1 = Some (Inr m')" "formed m1" "on_grid m1"
  shows "all_pay m' s - int (h_backing (m_head m')) = all_pay m s - int (h_backing (m_head m)) + e s"
proof -
  obtain r where r: "frame m1 m'" "h_debt (m_head m1) = h_debt (m_head m') + r"
    "\<forall>P s. worth P m' s = worth P m1 s - repaid m1 P r" "repaid m1 (\<lambda>_. True) r = int r" "drift m' = drift m1"
    "0 < r \<longrightarrow> has_credit (m_head m1) \<and> \<not> credit_settled (m_head m1)" "settled_up m'" "audit m' = Some (Inr ())"
    by (rule store_facts [OF assms(4)])
  note f = frame_head [OF r(1)] and t = terms_eq [OF assms(2)]
  have "formed m'" "on_grid m'" using frame_formed [OF r(1)] frame_on_grid [OF r(1)] assms(5,6) by simp_all
  note a' = audit_cash(1) [OF r(8) this]
  have "formed m" "on_grid m" "audit m = Some (Inr ())" using assms(1) by (simp_all add: sound_def)
  note a = audit_cash(1) [OF this(3,1,2)]
  have pay: "all_pay m' s = all_pay m1 s" by (rule frame_all_pay [OF r(1)])
  have "worth (\<lambda>_. True) m' s = worth (\<lambda>_. True) m1 s - repaid m1 (\<lambda>_. True) r" using r(3) by blast
  with pay have c1: "cash (\<lambda>_. True) (m_traders m') = cash (\<lambda>_. True) (m_traders m1) - repaid m1 (\<lambda>_. True) r"
    by (simp add: worth_all)
  have c2: "cash (\<lambda>_. True) (m_traders m1) + all_pay m1 s = cash (\<lambda>_. True) (m_traders m) + all_pay m s + e s"
    using assms(3) [of s] by (simp add: worth_all)
  have "int (h_custody (m_head m') + h_debt (m_head m')) = int (h_custody (m_head m) + h_debt (m_head m)) - int r"
    using f(5) t(5,6) r(2) by simp
  then show ?thesis using a a' c1 c2 pay r(4) by linarith
qed

lemma stored_sound:
  assumes "sound m" "terms m1 = terms m" "\<And>s. worth (\<lambda>_. True) m1 s = worth (\<lambda>_. True) m s + e s"
    "store m1 = Some (Inr m')" "formed m1" "on_grid m1" "h_status (m_head m) = STATUS_OPEN \<Longrightarrow> \<forall>s. e s = 0"
  shows "sound m'"
proof -
  obtain r where r: "frame m1 m'" "h_debt (m_head m1) = h_debt (m_head m') + r"
    "\<forall>P s. worth P m' s = worth P m1 s - repaid m1 P r" "repaid m1 (\<lambda>_. True) r = int r" "drift m' = drift m1"
    "0 < r \<longrightarrow> has_credit (m_head m1) \<and> \<not> credit_settled (m_head m1)" "settled_up m'" "audit m' = Some (Inr ())"
    by (rule store_facts [OF assms(4)])
  have "formed m'" "on_grid m'" using frame_formed [OF r(1)] frame_on_grid [OF r(1)] assms(5,6) by simp_all
  moreover have "backed m'" if "h_status (m_head m') = STATUS_OPEN"
  proof -
    have "h_status (m_head m) = STATUS_OPEN" using that frame_head(3) [OF r(1)] terms_eq(3) [OF assms(2)] by simp
    then have "backed m" "\<forall>s. e s = 0" using assms(1,7) by (simp_all add: sound_def)
    then show ?thesis using stored_excess [OF assms(1-6)] by (simp add: backed_def)
  qed
  ultimately show ?thesis using r by (simp add: sound_def)
qed

lemma moves_on_grid: "moves m m' d \<Longrightarrow> on_grid m \<Longrightarrow> on_grid m'"
  using terms_eq(1,2) [of m' m] by (simp add: moves_def on_grid_def)

text \<open>
  What an instruction does to the traders' worth once it is stored: a change by \<open>d\<close>, of which \<open>l\<close> was lent to the
  credit owner, and a repayment.
\<close>

definition ledger_lends :: "market \<Rightarrow> market \<Rightarrow> ((nat \<Rightarrow> bool) \<Rightarrow> nat \<Rightarrow> int) \<Rightarrow> nat \<Rightarrow> bool" where
  "ledger_lends m m' d l \<longleftrightarrow> (\<exists>r. h_debt (m_head m) + l = h_debt (m_head m') + r \<and> repaid m' (\<lambda>_. True) r = int r
     \<and> (0 < r \<longrightarrow> has_credit (m_head m) \<and> \<not> credit_settled (m_head m))
     \<and> (0 < l \<longrightarrow> has_credit (m_head m)) \<and> h_credit_owner (m_head m') = h_credit_owner (m_head m)
     \<and> (\<forall>P s. worth P m' s = worth P m s + d P s - repaid m' P r))"

definition ledger_moves :: "market \<Rightarrow> market \<Rightarrow> ((nat \<Rightarrow> bool) \<Rightarrow> nat \<Rightarrow> int) \<Rightarrow> bool" where
  "ledger_moves m m' d \<longleftrightarrow> ledger_lends m m' d 0"

lemma frame_repaid: "frame m m' \<Longrightarrow> repaid m' P r = repaid m P r"
  by (simp add: repaid_def frame_find frame_head(7))

end
