(* ===== verification/Market_Safety.thy ===== *)
theory Market_Safety
  imports Market_Invariant
begin

text \<open>
  Every instruction on cash, resting liquidity, claims and settlement keeps the invariant, and what each does to the
  traders' worth.
\<close>

subsection \<open>Claims\<close>

lemma owned_claim_ok:
  "owned_claim m i seq t = Some (Inr c) \<longleftrightarrow>
    i < length (m_claims m) \<and> c = m_claims m ! i \<and> c_lots c \<noteq> 0 \<and> c_seq c = seq \<and> c_trader c = t"
  by (auto simp: owned_claim_def claim_of_def res_simps slot_Some)

lemma put_seq_moves:
  assumes "next_seq m = Some (Inr (m1, seq))" "i < length (m_claims m)" "stays_held (m_claims m ! i) c"
  shows "moves m (put_claim m1 i (c\<lparr>c_seq := seq\<rparr>)) (\<lambda>P s. val P (h_k (m_head m)) s c - val P (h_k (m_head m)) s (m_claims m ! i))
    \<and> m_claims (put_claim m1 i (c\<lparr>c_seq := seq\<rparr>)) = (m_claims m)[i := c\<lparr>c_seq := seq\<rparr>]"
proof -
  note n = next_seq_moves [OF assms(1)]
  have i: "i < length (m_claims m1)" "stays_held (m_claims m1 ! i) (c\<lparr>c_seq := seq\<rparr>)"
    using n assms(2,3) by (simp_all add: stays_held_def same_kind_def)
  have "moves m (put_claim m1 i (c\<lparr>c_seq := seq\<rparr>)) (\<lambda>P s. val P (h_k (m_head m)) s c - val P (h_k (m_head m)) s (m_claims m ! i))"
    using moves_terms(1) [OF conjunct1 [OF n]]
    by (intro moves_cong [OF moves_trans [OF conjunct1 [OF n] moves_put_claim [OF i]]]) (simp add: n val_def pays_def)
  then show ?thesis by (simp add: put_claim_def n)
qed

lemma claim_formed_seq: "claim_formed g n (c\<lparr>c_seq := seq\<rparr>) = claim_formed g n c"
  by (simp add: claim_formed_def shaped_def)

lemma new_claim_formed:
  assumes "new_claim m c = Some (Inr (m', i))" "formed m" "claim_formed (h_grid (m_head m)) (length (m_traders m)) c"
  shows "moves m m' (\<lambda>P s. val P (h_k (m_head m)) s c) \<and> formed m'"
proof -
  note n = new_claim_moves [OF assms(1)]
  obtain seq where "m_claims m' = (m_claims m)[i := c\<lparr>c_seq := seq\<rparr>]" using n by blast
  then show ?thesis using n assms(3) formed_put [OF conjunct1 [OF n] assms(2)] by (simp add: claim_formed_seq)
qed

lemma drop_claim_formed:
  assumes "drop_claim m i = Some m'" "formed m"
  shows "moves m m' (\<lambda>P s. - val P (h_k (m_head m)) s (m_claims m ! i)) \<and> formed m'
    \<and> (\<forall>j. j \<noteq> i \<longrightarrow> m_claims m' ! j = m_claims m ! j)"
proof -
  note d = drop_claim_moves [OF assms(1)]
  have "claim_formed (h_grid (m_head m)) (length (m_traders m)) (remnant (m_claims m ! i))"
    using d formed_at [OF assms(2)] by (blast intro: remnant_formed)
  then show ?thesis using d formed_put [OF conjunct1 [OF d] assms(2)] by simp
qed

lemma split_claim_moves:
  assumes "split_claim m a i seq x = Some (Inr m')" "formed m"
  shows "\<exists>m1. store m1 = Some (Inr m') \<and> moves m m1 (\<lambda>P s. 0) \<and> formed m1"
proof -
  let ?k = "h_k (m_head m)" and ?g = "h_grid (m_head m)" and ?n = "length (m_traders m)"
  define c where "c = m_claims m ! i"
  obtain cost rc m1 m2 j where i: "i < length (m_claims m)" "c_lots c \<noteq> 0"
    and x: "c_lo c < x" "x < c_hi c"
    and 1: "put_left m i (c\<lparr>c_hi := x, c_cost := cost\<rparr>) = Some (Inr m1)"
    and 2: "new_claim m1 (claim_default\<lparr>c_lots := c_lots c, c_trader := c_trader c, c_side := c_side c, c_lo := x, c_hi := c_hi c,
           c_cost := rc, c_opened_ts := c_opened_ts c\<rparr>) = Some (Inr (m2, j))" (is "new_claim m1 ?r = _")
    and st: "store m2 = Some (Inr m')"
    using assms(1) unfolding split_claim_def Let_def
    by (auto simp: res_simps owned_claim_ok option_bind_eq_Some c_def)
  have sh: "shaped ?g ?n c" using formed_at [OF assms(2) i(1)] i(2) by (simp add: claim_formed_def c_def)
  let ?l = "c\<lparr>c_hi := x, c_cost := cost\<rparr>"
  have fl: "claim_formed ?g ?n (?l\<lparr>c_held := b\<rparr>)" for b using sh x by (simp add: claim_formed_def shaped_def)
  have fr: "claim_formed ?g ?n ?r" using sh x by (simp add: claim_formed_def shaped_def claim_default_def)
  have v: "val P ?k s c = val P ?k s ?l + val P ?k s ?r" for P s
    using x unit_pay_split [of "c_lo c" x "c_hi c" ?k s "c_side c = side_u8 Long"]
    by (simp add: val_def pays_def claim_default_def distrib_left)
  have 3: "moves m m1 (\<lambda>P s. val P ?k s ?l - val P ?k s c) \<and> formed m1"
  proof (cases "c_held c")
    case True
    then obtain m0 j where d: "drop_claim m i = Some m0" and n: "new_claim m0 (?l\<lparr>c_held := False\<rparr>) = Some (Inr (m1, j))"
      using 1 by (auto simp: put_left_def res_simps option_bind_eq_Some)
    note d = drop_claim_formed [OF d assms(2)]
    note t = moves_terms [OF conjunct1 [OF d]]
    have "claim_formed (h_grid (m_head m0)) (length (m_traders m0)) (?l\<lparr>c_held := False\<rparr>)" using fl t by simp
    then have n: "moves m0 m1 (\<lambda>P s. val P (h_k (m_head m0)) s (?l\<lparr>c_held := False\<rparr>)) \<and> formed m1"
      using new_claim_formed [OF n] d by blast
    have "moves m m1 (\<lambda>P s. val P ?k s ?l - val P ?k s c)"
      by (rule moves_cong [OF moves_trans [OF conjunct1 [OF d] conjunct1 [OF n]]]) (simp add: t c_def val_def pays_def)
    with n show ?thesis by blast
  next
    case False
    then obtain m0 sq where q: "next_seq m = Some (Inr (m0, sq))" "m1 = put_claim m0 i (?l\<lparr>c_seq := sq\<rparr>)"
      using 1 by (auto simp: put_left_def res_simps)
    have "stays_held (m_claims m ! i) ?l" using False by (simp add: stays_held_def c_def)
    note p = put_seq_moves [OF q(1) i(1) this]
    have "claim_formed ?g ?n (?l\<lparr>c_seq := sq\<rparr>)" using fl [of "c_held c"] by (simp add: claim_formed_def shaped_def)
    then show ?thesis using formed_put [OF conjunct1 [OF p] assms(2) conjunct2 [OF p]] p by (simp add: q(2) c_def)
  qed
  note t = moves_terms [OF conjunct1 [OF 3]]
  have "moves m1 m2 (\<lambda>P s. val P (h_k (m_head m1)) s ?r) \<and> formed m2"
    using new_claim_formed [OF 2] 3 fr t by simp
  moreover from this have "moves m m2 (\<lambda>P s. 0)"
    by (intro moves_cong [OF moves_trans [OF conjunct1 [OF 3] conjunct1]]) (simp_all add: t v)
  ultimately show ?thesis using st by blast
qed

lemma merged_shape_val:
  assumes "merged_shape k x = Some (Inr k')" "shaped g n k" "shaped g n x" "c_trader k = c_trader x" "c_side k = c_side x"
  shows "val P kk s k' = val P kk s k + val P kk s x" "shaped g n k'" "c_held k' = c_held k"
proof -
  have "c_lo k < c_hi k" "c_lo x < c_hi x" using assms(2,3) by (simp_all add: shaped_def)
  then consider "c_lo k = c_lo x" "c_hi k = c_hi x" "k' = k\<lparr>c_lots := c_lots k + c_lots x\<rparr>"
    | "c_lots k = c_lots x" "c_hi k = c_lo x" "k' = k\<lparr>c_hi := c_hi x\<rparr>"
    | "c_lots k = c_lots x" "c_hi x = c_lo k" "k' = k\<lparr>c_lo := c_lo x\<rparr>"
    using assms(1) by (auto simp: merged_shape_def res_simps min_def max_def split: if_splits)
  then have "val P kk s k' = val P kk s k + val P kk s x \<and> shaped g n k' \<and> c_held k' = c_held k"
  proof cases
    case 1
    then show ?thesis using assms(2,4,5) by (simp add: val_def pays_def distrib_right shaped_def)
  next
    case 2
    then show ?thesis using assms(2-5) unit_pay_split [of "c_lo k" "c_lo x" "c_hi x" kk s "c_side k = side_u8 Long"]
      by (simp add: val_def pays_def distrib_left shaped_def)
  next
    case 3
    then show ?thesis using assms(2-5) unit_pay_split [of "c_lo x" "c_lo k" "c_hi k" kk s "c_side k = side_u8 Long"]
      by (simp add: val_def pays_def distrib_left shaped_def)
  qed
  then show "val P kk s k' = val P kk s k + val P kk s x" "shaped g n k'" "c_held k' = c_held k" by blast+
qed

lemma merged_shape_held:
  assumes "merged_shape k x = Some (Inr k0)" "shaped g n k" "shaped g n x" "c_side k = c_side x"
  shows "c_held k0 = c_held k \<and> (c_lo k0 = c_lo x \<and> c_hi k0 = c_hi x \<longrightarrow> same_kind k0 k)"
  using assms by (auto simp: merged_shape_def res_simps shaped_def same_kind_def split: if_splits)

lemma merge_claims_moves:
  assumes "merge_claims m a keep absorb = Some (Inr m')" "formed m"
  shows "\<exists>m1. store m1 = Some (Inr m') \<and> moves m m1 (\<lambda>P s. 0) \<and> formed m1"
proof -
  let ?k = "h_k (m_head m)" and ?g = "h_grid (m_head m)" and ?n = "length (m_traders m)"
  obtain ki kq where keep: "keep = (ki, kq)" by fastforce
  obtain xi xq where absorb: "absorb = (xi, xq)" by fastforce
  define k x where "k = m_claims m ! ki" and "x = m_claims m ! xi"
  obtain k0 cost m1 where ne: "ki \<noteq> xi" and i: "ki < length (m_claims m)" "c_lots k \<noteq> 0" "xi < length (m_claims m)" "c_lots x \<noteq> 0"
    and same: "c_trader k = c_trader x" "c_side k = c_side x" and k0: "merged_shape k x = Some (Inr k0)"
    and 1: "put_merged m ki (k0\<lparr>c_cost := cost, c_opened_ts := min (c_opened_ts k0) (c_opened_ts x)\<rparr>) xi x = Some (Inr m1)"
    and st: "store m1 = Some (Inr m')"
    using assms(1) unfolding merge_claims_def Let_def keep absorb fst_conv snd_conv
    by (auto simp: res_simps owned_claim_ok k_def x_def)
  have sh: "shaped ?g ?n k" "shaped ?g ?n x" using formed_at [OF assms(2)] i by (simp_all add: claim_formed_def k_def x_def)
  define k1 where "k1 = k0\<lparr>c_cost := cost, c_opened_ts := min (c_opened_ts k0) (c_opened_ts x)\<rparr>"
  note mv = merged_shape_val [OF k0 sh same] and 1 = 1 [folded k1_def]
  have "val P ?k s k1 = val P ?k s k0" for P s by (simp add: k1_def val_def pays_def)
  with mv have k1: "val P ?k s k1 = val P ?k s k + val P ?k s x" "shaped ?g ?n k1" for P s
    by (simp_all add: k1_def shaped_def)
  have "moves m m1 (\<lambda>P s. 0) \<and> formed m1"
  proof (cases "c_held k1 \<and> (c_lo k1 \<noteq> c_lo x \<or> c_hi k1 \<noteq> c_hi x)")
    case True
    then obtain m2 m3 j where d1: "drop_claim m ki = Some m2" and d2: "drop_claim m2 xi = Some m3"
      and n: "new_claim m3 (k1\<lparr>c_held := False\<rparr>) = Some (Inr (m1, j))"
      using 1 by (auto simp: put_merged_def res_simps option_bind_eq_Some split: if_splits)
    note d1 = drop_claim_formed [OF d1 assms(2)]
    then have "formed m2" by blast
    note d2 = drop_claim_formed [OF d2 this]
    note t1 = moves_terms [OF conjunct1 [OF d1]] and t2 = moves_terms [OF conjunct1 [OF d2]]
    have "claim_formed (h_grid (m_head m3)) (length (m_traders m3)) (k1\<lparr>c_held := False\<rparr>)"
      using k1(2) t1 t2 by (simp add: claim_formed_def shaped_def)
    then have n: "moves m3 m1 (\<lambda>P s. val P (h_k (m_head m3)) s (k1\<lparr>c_held := False\<rparr>)) \<and> formed m1"
      using new_claim_formed [OF n] d2 by blast
    have xi: "m_claims m2 ! xi = x" using d1 ne by (simp add: x_def)
    have "moves m m1 (\<lambda>P s. 0)"
    proof (rule moves_cong [OF moves_trans [OF moves_trans [OF conjunct1 [OF d1] conjunct1 [OF d2]] conjunct1 [OF n]]])
      fix P s
      have "val P ?k s (k1\<lparr>c_held := False\<rparr>) = val P ?k s k1" by (simp add: val_def pays_def)
      then show "- val P ?k s (m_claims m ! ki) + - val P (h_k (m_head m2)) s (m_claims m2 ! xi)
          + val P (h_k (m_head m3)) s (k1\<lparr>c_held := False\<rparr>) = 0" using k1(1) by (simp add: t1 t2 xi k_def)
    qed
    with n show ?thesis by blast
  next
    case False
    then obtain m2 sq where q: "next_seq m = Some (Inr (m2, sq))" and d: "drop_claim (put_claim m2 ki (k1\<lparr>c_seq := sq\<rparr>)) xi = Some m1"
      using 1 by (auto simp: put_merged_def res_simps option_bind_eq_Some split: if_splits)
    have "stays_held (m_claims m ! ki) k1"
      using merged_shape_held [OF k0 sh same(2)] False by (auto simp: stays_held_def k1_def k_def same_kind_def)
    note p = put_seq_moves [OF q i(1) this]
    have "claim_formed ?g ?n (k1\<lparr>c_seq := sq\<rparr>)" using k1(2) by (simp add: claim_formed_def shaped_def)
    then have f: "formed (put_claim m2 ki (k1\<lparr>c_seq := sq\<rparr>))" using formed_put [OF conjunct1 [OF p] assms(2) conjunct2 [OF p]] by blast
    note d = drop_claim_formed [OF d f] and t = moves_terms [OF conjunct1 [OF p]]
    have xi: "m_claims (put_claim m2 ki (k1\<lparr>c_seq := sq\<rparr>)) ! xi = x" using p ne by (simp add: x_def)
    have "moves m m1 (\<lambda>P s. 0)"
      by (rule moves_cong [OF moves_trans [OF conjunct1 [OF p] conjunct1 [OF d]]])
        (simp add: t(1) xi k1(1) k_def)
    with d show ?thesis by blast
  qed
  then show ?thesis using st by blast
qed

lemma redeem_moves:
  assumes "redeem m a l sh lots = Some (Inr m')" "formed m"
  shows "\<exists>m1. store m1 = Some (Inr m') \<and> moves m m1 (\<lambda>P s. 0) \<and> formed m1"
proof -
  obtain m1 where "redeem_pair m (fst l) (fst sh) lots False False = Some (Inr m1)" "store m1 = Some (Inr m')"
    using assms(1) by (auto simp: redeem_def res_simps)
  then show ?thesis using redeem_pair_moves assms(2) by blast
qed

subsection \<open>Resting liquidity\<close>

text \<open>A change of the market that \<open>store\<close> may follow: claims and ladders stay on the grid, worth changes by \<open>d\<close>.\<close>

definition steps_to :: "market \<Rightarrow> market \<Rightarrow> ((nat \<Rightarrow> bool) \<Rightarrow> nat \<Rightarrow> int) \<Rightarrow> bool" where
  "steps_to m m' d \<longleftrightarrow> flows m m' d \<and> (formed m \<longrightarrow> formed m') \<and> (on_grid m \<longrightarrow> on_grid m')"

lemma steps_to_trans: "steps_to m m' d \<Longrightarrow> steps_to m' m'' e \<Longrightarrow> steps_to m m'' (\<lambda>P s. d P s + e P s)"
  by (auto simp: steps_to_def intro: flows_trans)

lemma steps_to_cong: "steps_to m m' d \<Longrightarrow> (\<And>P s. d P s = e P s) \<Longrightarrow> steps_to m m' e"
  by (auto simp: steps_to_def elim: flows_cong)

lemma steps_to_refl [intro]: "steps_to m m (\<lambda>P s. 0)"
  by (auto simp: steps_to_def)

lemma moves_steps_to: "moves m m' d \<Longrightarrow> (formed m \<Longrightarrow> formed m') \<Longrightarrow> steps_to m m' d"
  using moves_flows moves_on_grid by (auto simp: steps_to_def)

lemma stored_step:
  assumes "sound m" "steps_to m m1 d" "store m1 = Some (Inr m')"
    "h_status (m_head m) = STATUS_OPEN \<Longrightarrow> \<forall>s. d (\<lambda>_. True) s = 0"
  shows "sound m' \<and> ledger_moves m m' d"
proof
  have f: "formed m1" "on_grid m1" "flows m m1 d" using assms(1,2) by (simp_all add: sound_def steps_to_def)
  have t: "terms m1 = terms m" and w: "\<And>P s. worth P m1 s = worth P m s + d P s" using f(3) by (simp_all add: flows_def)
  show "sound m'" by (rule stored_sound [OF assms(1) t w assms(3) f(1,2)]) (rule assms(4))
  obtain r where r: "frame m1 m'" "h_debt (m_head m1) = h_debt (m_head m') + r"
    "\<forall>P s. worth P m' s = worth P m1 s - repaid m1 P r" "repaid m1 (\<lambda>_. True) r = int r" "drift m' = drift m1"
    "0 < r \<longrightarrow> has_credit (m_head m1) \<and> \<not> credit_settled (m_head m1)" "settled_up m'" "audit m' = Some (Inr ())"
    by (rule store_facts [OF assms(3)])
  show "ledger_moves m m' d"
    unfolding ledger_moves_def ledger_lends_def using w r(2,3,4,6) by (intro exI [of _ r])
      (simp add: frame_repaid [OF r(1)] frame_head(7) [OF r(1)] terms_eq(6-8) [OF t] has_credit_def credit_settled_def)
qed

lemma put_trader_steps:
  assumes "trader_of m i = Some t" "tr_owner u = tr_owner t" "tr_free u + tr_reserved u = tr_free t + tr_reserved t"
  shows "steps_to m (put_trader m i u) (\<lambda>P s. 0)"
  using assms moves_put_trader [of i m u] formed_same [of m "put_trader m i u" "\<lambda>P s. 0"]
  by (intro moves_steps_to) (auto simp: slot_Some put_trader_def)

lemma put_claim_steps:
  assumes "i < length (m_claims m)" "\<And>P s. val P (h_k (m_head m)) s c = val P (h_k (m_head m)) s (m_claims m ! i)"
    "formed m \<Longrightarrow> claim_formed (h_grid (m_head m)) (length (m_traders m)) c"
  shows "steps_to m (put_claim m i c) (\<lambda>P s. 0)"
proof -
  have "flows m (put_claim m i c) (\<lambda>P s. 0)"
    using assms(1,2) by (simp add: flows_def put_claim_def terms_def worth_def claims_val_put drift_def)
  moreover have "formed m \<longrightarrow> formed (put_claim m i c)"
    using assms(3) set_update_subset_insert [of "m_claims m" i c] by (auto simp: formed_def put_claim_def)
  ultimately show ?thesis by (simp add: steps_to_def on_grid_def put_claim_def)
qed

lemma release_steps: "release m i amount = Some (Inr m') \<Longrightarrow> steps_to m m' (\<lambda>P s. 0) \<and> m_claims m' = m_claims m
    \<and> m_orders m' = m_orders m \<and> m_makers m' = m_makers m \<and> m_steps m' = m_steps m"
proof -
  assume "release m i amount = Some (Inr m')"
  note r = release_moves [OF this]
  show ?thesis using r formed_same [OF conjunct1 [OF r]] moves_steps_to [OF conjunct1 [OF r]] by (simp add: moves_def)
qed

lemma release_hold_steps:
  assumes "release_hold m i = Some m'"
  shows "steps_to m m' (\<lambda>P s. 0)"
proof -
  have i: "i < length (m_claims m)"
    and m': "m' = put_claim m i (if c_lots (m_claims m ! i) = 0 then claim_default else (m_claims m ! i)\<lparr>c_held := False\<rparr>)"
    using assms by (auto simp: release_hold_def option_bind_eq_Some slot_Some)
  show ?thesis unfolding m'
    by (rule put_claim_steps [OF i]) (use formed_at [OF _ i] in \<open>auto simp: val_def pays_def claim_formed_def shaped_def claim_default_def\<close>)
qed

lemma remove_order_steps:
  assumes "remove_order m i = Some (Inr (m', e))"
  shows "steps_to m m' (\<lambda>P s. 0)"
proof -
  define r where "r = m_orders m ! i"
  obtain m1 m2 tr where 1: "release m (o_trader r) e = Some (Inr m1)"
    and 2: "(if closes r
         then Option.bind (claim_slot m1 (o_claim r)) (\<lambda>c.
           Some (if 0 < c_lots c then put_claim m1 (o_claim r) (c\<lparr>c_reserved := c_reserved c - o_lots r\<rparr>) else m1))
         else if o_claim r \<noteq> NO_CLAIM then release_hold m1 (o_claim r) else Some m1) = Some m2"
    and tr: "trader_of (put_order m2 i order_default) (o_trader r) = Some tr"
    and m': "m' = put_trader (put_order m2 i order_default) (o_trader r) (tr\<lparr>tr_orders := tr_orders tr - 1\<rparr>)"
    using assms unfolding remove_order_def uncount_order_def r_def
    by (auto simp: res_simps option_bind_eq_Some slot_Some [of "m_orders m"])
  have 3: "steps_to m1 m2 (\<lambda>P s. 0)"
  proof (cases "closes r")
    case True
    then obtain c where c: "claim_slot m1 (o_claim r) = Some c"
      "m2 = (if 0 < c_lots c then put_claim m1 (o_claim r) (c\<lparr>c_reserved := c_reserved c - o_lots r\<rparr>) else m1)"
      using 2 by (auto simp: option_bind_eq_Some)
    then show ?thesis using formed_at [of m1 "o_claim r"]
      by (auto simp: slot_Some claim_formed_def shaped_def val_def pays_def intro!: put_claim_steps)
  next
    case False
    then show ?thesis using 2 release_hold_steps by (auto split: if_splits)
  qed
  have 4: "steps_to m2 (put_order m2 i order_default) (\<lambda>P s. 0)"
    by (simp add: steps_to_def flows_def put_order_def terms_def drift_def worth_def formed_def on_grid_def)
  have 5: "steps_to (put_order m2 i order_default) m' (\<lambda>P s. 0)" unfolding m' by (rule put_trader_steps [OF tr]) simp_all
  from steps_to_trans [OF steps_to_trans [OF steps_to_trans [OF conjunct1 [OF release_steps [OF 1]] 3] 4] 5]
  show ?thesis by simp
qed

lemma prune_each_steps: "prune_each m is = Some (Inr m') \<Longrightarrow> steps_to m m' (\<lambda>P s. 0)"
proof (induction "is" arbitrary: m)
  case (Cons i "is")
  show ?case
  proof (cases "i < length (m_orders m) \<and> o_seq (m_orders m ! i) \<noteq> 0")
    case True
    then obtain m1 e where "remove_order m i = Some (Inr (m1, e))" "prune_each m1 is = Some (Inr m')"
      using Cons.prems by (auto simp: res_simps)
    then show ?thesis using steps_to_trans [OF remove_order_steps Cons.IH] by fastforce
  next
    case False
    then show ?thesis using Cons by auto
  qed
qed auto

lemma makers_val_put:
  "i < length ks \<Longrightarrow> makers_val P k s (ks[i := q]) = makers_val P k s ks - maker_val P k s (ks ! i) + maker_val P k s q"
  unfolding makers_val_def by (rule sum_list_put)

lemma steps_pay_inv: "map st_inv ss = map st_inv ts \<Longrightarrow> steps_pay k s ss = steps_pay k s ts"
proof -
  assume eq: "map st_inv ss = map st_inv ts"
  have "length ss = length ts" using arg_cong [OF eq, of length] by simp
  moreover have "st_inv (ss ! x) = st_inv (ts ! x)" if "x < length ss" for x
    using arg_cong [OF eq, of "\<lambda>l. l ! x"] that calculation by simp
  ultimately show ?thesis by (simp add: steps_pay_def)
qed

lemma steps_pay_flat: "\<forall>x\<in>set ss. st_inv x = 0 \<Longrightarrow> steps_pay k s ss = 0"
  by (simp add: steps_pay_def)

lemma put_ladder_steps:
  assumes "i < length (m_makers m)" "i < length (m_steps m)" "length ss = length (m_steps m ! i)"
  shows "steps_to m (put_maker (put_steps m i ss) i mk)
    (\<lambda>P s. maker_val P (h_k (m_head m)) s (mk, ss) - maker_val P (h_k (m_head m)) s (m_makers m ! i, m_steps m ! i))"
proof -
  have z: "zip ((m_makers m)[i := mk]) ((m_steps m)[i := ss]) = (zip (m_makers m) (m_steps m))[i := (mk, ss)]"
    by (simp add: update_zip)
  have "\<forall>x\<in>set ((m_steps m)[i := ss]). length x = h_grid (m_head m)" if "ladders_on (h_grid (m_head m)) (m_steps m)"
    using that assms set_update_subset_insert [of "m_steps m" i ss] by (auto simp: ladders_on_def)
  then show ?thesis using assms
    by (simp add: steps_to_def flows_def put_maker_def put_steps_def terms_def drift_def worth_def formed_def on_grid_def z
      makers_val_put ladders_on_def)
qed

lemma retire_ladder_cases:
  assumes "retire_ladder m i = Some (Inr (m', e))"
  defines "k \<equiv> m_makers m ! i"
  obtains m1 ss tr where "i < length (m_makers m)" "release m (mk_trader k) (mk_escrow k) = Some (Inr m1)"
    "i < length (m_steps m1)" "ss = m_steps m1 ! i" "\<forall>s\<in>set ss. st_inv s = 0" "trader_of m1 (mk_trader k) = Some tr"
    "m' = put_trader (put_maker (put_steps m1 i (map retired_step ss)) i maker_default) (mk_trader k) (tr\<lparr>tr_maker := 0\<rparr>)"
  | m1 ss where "i < length (m_makers m)" "release m (mk_trader k) (mk_escrow k) = Some (Inr m1)"
    "i < length (m_steps m1)" "ss = m_steps m1 ! i"
    "m' = put_maker (put_steps m1 i (map retired_step ss)) i (k\<lparr>mk_seq := 0, mk_escrow := 0\<rparr>)"
proof -
  obtain m1 ss where i: "i < length (m_makers m)" and 1: "release m (mk_trader k) (mk_escrow k) = Some (Inr m1)"
    and ss: "slot (m_steps m1) i = Some ss"
    using assms by (auto simp: retire_ladder_def res_simps option_bind_eq_Some slot_Some [of "m_makers m"])
  have ss': "i < length (m_steps m1)" "ss = m_steps m1 ! i" using ss by (simp_all add: slot_Some)
  show thesis
  proof (cases "\<forall>s\<in>set ss. st_inv s = 0")
    case True
    obtain tr where tr: "trader_of m1 (mk_trader k) = Some tr"
      and m': "m' = put_maker (put_trader (put_steps m1 i (map retired_step ss)) (mk_trader k) (tr\<lparr>tr_maker := 0\<rparr>)) i maker_default"
      using assms(1) True 1 ss unfolding retire_ladder_def
      by (auto simp: res_simps option_bind_eq_Some slot_Some [of "m_makers m"] k_def Let_def put_steps_def)
    show thesis by (rule that(1) [OF i 1 ss' True tr]) (simp add: m' put_maker_def put_steps_def put_trader_def)
  next
    case False
    have "m' = put_maker (put_steps m1 i (map retired_step ss)) i (k\<lparr>mk_seq := 0, mk_escrow := 0\<rparr>)"
      using assms(1) 1 ss unfolding retire_ladder_def
      by (auto simp: res_simps option_bind_eq_Some slot_Some [of "m_makers m"] k_def Let_def if_not_P [OF False])
    then show thesis by (rule that(2) [OF i 1 ss'])
  qed
qed

lemma retire_ladder_steps:
  assumes "retire_ladder m i = Some (Inr (m', e))"
  shows "steps_to m m' (\<lambda>P s. 0)"
  using assms
proof (cases rule: retire_ladder_cases)
  case (1 m1 ss tr)
  let ?m = "put_maker (put_steps m1 i (map retired_step ss)) i maker_default"
  note r = release_steps [OF 1(2)]
  have j: "i < length (m_makers m1)" "m_makers m1 ! i = m_makers m ! i" using r 1 by simp_all
  have s1: "steps_to m1 ?m (\<lambda>P s. 0)"
    by (rule steps_to_cong [OF put_ladder_steps [OF j(1) 1(3)]])
      (use 1(5) in \<open>simp_all add: 1(4) [symmetric] maker_val_def maker_default_def steps_pay_flat\<close>)
  have s2: "steps_to ?m m' (\<lambda>P s. 0)" unfolding 1(7)
    by (rule put_trader_steps [of _ _ tr]) (use 1(6) in \<open>simp_all add: put_maker_def put_steps_def\<close>)
  from steps_to_trans [OF steps_to_trans [OF conjunct1 [OF r] s1] s2] show ?thesis by simp
next
  case (2 m1 ss)
  note r = release_steps [OF 2(2)]
  have j: "i < length (m_makers m1)" "m_makers m1 ! i = m_makers m ! i" using r 2 by simp_all
  have inv: "map st_inv (map retired_step ss) = map st_inv ss" by (simp add: retired_step_def)
  have "steps_to m1 m' (\<lambda>P s. 0)" unfolding 2(5)
    by (rule steps_to_cong [OF put_ladder_steps [OF j(1) 2(3)]])
      (use steps_pay_inv [OF inv] in \<open>simp_all add: 2(4) [symmetric] j(2) maker_val_def\<close>)
  from steps_to_trans [OF conjunct1 [OF r] this] show ?thesis by simp
qed

subsection \<open>Settlement\<close>

lemma steps_to_settlement:
  "steps_to m m' d \<Longrightarrow> h_settlement_fine (m_head m') = h_settlement_fine (m_head m) \<and> h_k (m_head m') = h_k (m_head m)
    \<and> h_status (m_head m') = h_status (m_head m)"
  using flows_terms [of m m' d] by (simp add: steps_to_def)

lemma head_steps:
  assumes "terms (m\<lparr>m_head := h\<rparr>) = terms m" "h_total_free h = h_total_free (m_head m)"
    "h_total_reserved h = h_total_reserved (m_head m)"
  shows "steps_to m (m\<lparr>m_head := h\<rparr>) (\<lambda>P s. 0)"
  using moves_head [OF assms] formed_same [OF moves_head [OF assms]] by (intro moves_steps_to) auto

lemma backing_to_free_steps:
  "backing_to_free m t amount = Some (Inr m') \<Longrightarrow> steps_to m m' (\<lambda>P s. at P t amount)"
proof -
  assume "backing_to_free m t amount = Some (Inr m')"
  note b = backing_to_free_moves [OF this]
  show ?thesis using b formed_same [OF conjunct1 [OF b]] by (intro moves_steps_to) auto
qed

lemma count_paid_steps:
  "count_paid m t amount = Some (Inr m') \<Longrightarrow> steps_to m m' (\<lambda>P s. 0)"
  by (auto simp: count_paid_def res_simps option_bind_eq_Some intro!: put_trader_steps)

text \<open>A payout out of the backing, with its counters.\<close>

lemma payout_steps:
  assumes "backing_to_free m t payout = Some (Inr m1)" "tot = h_total_paid_out (m_head m1) + payout"
    "count_paid (m1\<lparr>m_head := (m_head m1)\<lparr>h_total_paid_out := tot\<rparr>\<rparr>) t payout = Some (Inr m')"
  shows "steps_to m m' (\<lambda>P s. at P t payout)"
proof -
  have "steps_to m1 (m1\<lparr>m_head := (m_head m1)\<lparr>h_total_paid_out := tot\<rparr>\<rparr>) (\<lambda>P s. 0)"
    by (rule head_steps) (simp_all add: terms_def)
  from steps_to_trans [OF steps_to_trans [OF backing_to_free_steps [OF assms(1)] this] count_paid_steps [OF assms(3)]]
  show ?thesis by simp
qed

lemma per_lot_formed:
  assumes "formed m" "on_grid m" "i < length (m_claims m)" "c_lots (m_claims m ! i) \<noteq> 0"
  shows "per_lot (m_head m) (c_side (m_claims m ! i)) (c_lo (m_claims m ! i)) (c_hi (m_claims m ! i))
    = Some (final_pay (m_head m) (c_side (m_claims m ! i) = 0) (c_lo (m_claims m ! i)) (c_hi (m_claims m ! i)))"
proof (rule per_lot_total)
  let ?c = "m_claims m ! i"
  have r: "c_lo ?c < c_hi ?c" "c_hi ?c \<le> h_grid (m_head m)"
    using formed_at [OF assms(1,3)] assms(4) by (simp_all add: claim_formed_def shaped_def)
  then show "c_lo ?c \<le> c_hi ?c" by simp
  have "c_hi ?c * h_k (m_head m) \<le> h_grid (m_head m) * h_k (m_head m)" using r(2) by (rule mult_le_mono1)
  moreover have "h_grid (m_head m) * h_k (m_head m) < 2 ^ 64" using assms(2) by (simp add: on_grid_def)
  ultimately show "c_hi ?c * h_k (m_head m) < 2 ^ 64" by (rule le_less_trans)
qed

lemma settle_one_steps:
  assumes "settle_one m i = Some (Inr m')" "formed m" "on_grid m"
  shows "\<exists>d. steps_to m m' d \<and> (\<forall>P. d P (h_settlement_fine (m_head m)) = 0)"
proof (cases "c_lots (m_claims m ! i) = 0")
  case True
  then have "m' = m" using assms(1) by (auto simp: settle_one_def claim_of_def res_simps slot_Some)
  then show ?thesis by (intro exI [of _ "\<lambda>P s. 0"]) auto
next
  case False
  define c where "c = m_claims m ! i"
  let ?k = "h_k (m_head m)"
  obtain per m1 m2 tot where i: "i < length (m_claims m)" and per: "per_lot (m_head m) (c_side c) (c_lo c) (c_hi c) = Some per"
    and 1: "drop_claim m i = Some m1" and 2: "backing_to_free m1 (c_trader c) (c_lots c * per) = Some (Inr m2)"
    and tot: "tot = h_total_paid_out (m_head m2) + c_lots c * per"
    and 3: "count_paid (m2\<lparr>m_head := (m_head m2)\<lparr>h_total_paid_out := tot\<rparr>\<rparr>) (c_trader c) (c_lots c * per) = Some (Inr m')"
    using assms(1) False by (auto simp: settle_one_def claim_of_def res_simps slot_Some option_bind_eq_Some c_def)
  have p: "per = final_pay (m_head m) (c_side c = 0) (c_lo c) (c_hi c)"
    using per_lot_formed [OF assms(2,3) i] False per by (simp add: c_def)
  have "formed m1" using drop_claim_formed [OF 1 assms(2)] by blast
  then have "steps_to m m1 (\<lambda>P s. - val P ?k s c)"
    using drop_claim_formed [OF 1 assms(2)] unfolding c_def by (intro moves_steps_to) auto
  from steps_to_trans [OF this payout_steps [OF 2 tot 3]]
  have "steps_to m m' (\<lambda>P s. - val P ?k s c + at P (c_trader c) (c_lots c * per))" .
  moreover have "- val P ?k (h_settlement_fine (m_head m)) c + at P (c_trader c) (c_lots c * per) = 0" for P
    by (simp add: val_def at_def pays_def p final_pay_int)
  ultimately show ?thesis by blast
qed

lemma settle_each_steps:
  "settle_each m is = Some (Inr m') \<Longrightarrow> formed m \<Longrightarrow> on_grid m \<Longrightarrow>
    \<exists>d. steps_to m m' d \<and> (\<forall>P. d P (h_settlement_fine (m_head m)) = 0)"
proof (induction "is" arbitrary: m)
  case Nil
  then show ?case by (intro exI [of _ "\<lambda>P s. 0"]) auto
next
  case (Cons i "is")
  obtain m1 where 1: "settle_one m i = Some (Inr m1)" and 2: "settle_each m1 is = Some (Inr m')"
    using Cons.prems(1) by (auto simp: res_simps)
  obtain d where d: "steps_to m m1 d" "\<forall>P. d P (h_settlement_fine (m_head m)) = 0"
    using settle_one_steps [OF 1 Cons.prems(2,3)] by blast
  then have "formed m1" "on_grid m1" using Cons.prems by (simp_all add: steps_to_def)
  then obtain e where e: "steps_to m1 m' e" "\<forall>P. e P (h_settlement_fine (m_head m1)) = 0" using Cons.IH [OF 2] by blast
  then show ?case using steps_to_trans [OF d(1) e(1)] d(2) steps_to_settlement [OF d(1)] by fastforce
qed

lemma inventory_payout_due:
  "inventory_payout h x ss p = Some (Inr q) \<Longrightarrow> x + length ss \<le> g \<Longrightarrow> g * h_k h < 2 ^ 64 \<Longrightarrow> q = p + steps_due h ss x"
proof (induction ss arbitrary: x p)
  case (Cons s ss)
  have "(x + 1) * h_k h \<le> g * h_k h" using Cons.prems(2) by (intro mult_le_mono1) simp
  then have per: "per_lot h sd x (x + 1) = Some (final_pay h (sd = 0) x (x + 1))" for sd
    using Cons.prems(3) by (intro per_lot_total) auto
  have "inventory_payout h (x + 1) ss (p + nat \<bar>st_inv s\<bar> * final_pay h (0 < st_inv s) x (x + 1)) = Some (Inr q)"
    using Cons.prems(1) per [of "if 0 < st_inv s then 0 else 1"]
    by (auto simp: res_simps option_bind_eq_Some split: if_splits)
  from Cons.IH [OF this] Cons.prems(2,3) show ?case by simp
qed simp

lemma settle_maker_steps:
  assumes "settle_maker m i = Some (Inr m')" "on_grid m"
  shows "\<exists>m1 d. store m1 = Some (Inr m') \<and> steps_to m m1 d \<and> (\<forall>P. d P (h_settlement_fine (m_head m)) = 0)
    \<and> h_status (m_head m) \<noteq> STATUS_OPEN"
proof -
  define k ss where "k = m_makers m ! i" and "ss = m_steps m ! i"
  define ms where "ms = put_steps m i (map (\<lambda>s. s\<lparr>st_inv := 0\<rparr>) ss)"
  let ?k = "h_k (m_head m)"
  obtain payout m1 m2 e m3 where i: "i < length (m_makers m)" "i < length (m_steps m)" "mk_used k"
    and fin: "h_status (m_head m) \<noteq> STATUS_OPEN"
    and p: "inventory_payout (m_head m) 0 ss 0 = Some (Inr payout)"
    and 1: "backing_to_free ms (mk_trader k) payout = Some (Inr m1)"
    and 2: "retire_ladder (m1\<lparr>m_head := (m_head m1)\<lparr>h_total_paid_out := h_total_paid_out (m_head m1) + payout\<rparr>\<rparr>) i = Some (Inr (m2, e))"
    and 3: "count_paid m2 (mk_trader k) payout = Some (Inr m3)" and st: "store m3 = Some (Inr m')"
    using assms(1) unfolding settle_maker_def need_final_def ms_def k_def ss_def
    by (auto simp: res_simps slot_Some option_bind_eq_Some Let_def)
  have len: "length ss = h_grid (m_head m)" using assms(2) i(2) by (simp add: on_grid_def ladders_on_def ss_def)
  have due: "payout = steps_due (m_head m) ss 0"
    using inventory_payout_due [OF p, of "h_grid (m_head m)"] assms(2) len by (simp add: on_grid_def)
  have ms_eq: "ms = put_maker (put_steps m i (map (\<lambda>s. s\<lparr>st_inv := 0\<rparr>) ss)) i k"
    by (simp add: ms_def put_maker_def put_steps_def k_def)
  have 4: "steps_to m ms (\<lambda>P s. - maker_val P ?k s (k, ss))"
    unfolding ms_eq
    by (rule steps_to_cong [OF put_ladder_steps [OF i(1,2)]])
      (simp_all add: k_def [symmetric] ss_def [symmetric] maker_val_def steps_pay_flat)
  have 5: "steps_to m1 (m1\<lparr>m_head := (m_head m1)\<lparr>h_total_paid_out := h_total_paid_out (m_head m1) + payout\<rparr>\<rparr>) (\<lambda>P s. 0)"
    by (rule head_steps) (simp_all add: terms_def)
  have "steps_to m m3 (\<lambda>P s. - maker_val P ?k s (k, ss) + at P (mk_trader k) payout)"
    using steps_to_trans [OF steps_to_trans [OF steps_to_trans [OF steps_to_trans [OF 4 backing_to_free_steps [OF 1]] 5]
      retire_ladder_steps [OF 2]] count_paid_steps [OF 3]] by simp
  moreover have "- maker_val P ?k (h_settlement_fine (m_head m)) (k, ss) + at P (mk_trader k) payout = 0" for P
    using i(3) by (simp add: maker_val_def at_def due steps_due_int)
  ultimately show ?thesis using st fin by blast
qed

subsection \<open>Cash and new traders\<close>

lemma at_zero [simp]: "at P i 0 = 0"
  by (simp add: at_def)

lemma trader_slot_facts:
  assumes "trader_slot m owner = Some (Inr (m1, i))"
  obtains c where "m_head m1 = m_head m" "m_claims m1 = m_claims m" "m_makers m1 = m_makers m" "m_steps m1 = m_steps m"
    "length (m_traders m1) = length (m_traders m)" "i < length (m_traders m)"
    "\<forall>P s. worth P m1 s = worth P m s - at P i c" "drift m1 = drift m - int c"
proof (cases "find_trader m owner")
  case (Some j)
  then have "m1 = m" "i = j" using assms by (auto simp: trader_slot_def)
  moreover have "j < length (m_traders m)" using Some by (auto simp: find_trader_def find_Some_iff)
  ultimately show thesis by (intro that [of 0]) (auto simp: at_def)
next
  case None
  then have f: "find (usable_slot m) [0..<length (m_traders m)] = Some i"
    and m1: "m1 = put_trader m i (trader_default\<lparr>tr_owner := owner\<rparr>)"
    using assms by (auto simp: trader_slot_def res_simps)
  have i: "i < length (m_traders m)" using f by (auto simp: find_Some_iff)
  define c where "c = tr_free (m_traders m ! i) + tr_reserved (m_traders m ! i)"
  have cash: "cash P (m_traders m1) = cash P (m_traders m) - at P i c" for P
    using cash_put [OF i, of P "trader_default\<lparr>tr_owner := owner\<rparr>"] by (simp add: m1 put_trader_def trader_default_def c_def at_def)
  show thesis
    by (rule that [of c]) (use i cash in \<open>simp_all add: m1 put_trader_def worth_def drift_def at_def\<close>)
qed

lemma audit_drift:
  assumes "audit m = Some (Inr ())" "formed m" "on_grid m"
  shows "drift m = 0"
  using assms(1) [unfolded audit_iff [OF assms(2,3)]] by (simp add: drift_def cash_all)

lemma all_pay_same:
  "h_k (m_head m') = h_k (m_head m) \<Longrightarrow> m_claims m' = m_claims m \<Longrightarrow> m_makers m' = m_makers m \<Longrightarrow> m_steps m' = m_steps m \<Longrightarrow>
    all_pay m' s = all_pay m s"
  by (simp add: all_pay_def)

text \<open>Storing a market in which only cash has moved, in or out of custody.\<close>

lemma stored_cash:
  assumes "sound m" "store m1 = Some (Inr m')" "terms (m1\<lparr>m_head := (m_head m1)\<lparr>h_custody := h_custody (m_head m)\<rparr>\<rparr>) = terms m"
    "h_backing (m_head m1) = h_backing (m_head m)" "m_claims m1 = m_claims m" "m_makers m1 = m_makers m"
    "m_steps m1 = m_steps m" "length (m_traders m1) = length (m_traders m)"
  shows "sound m'" "drift m1 = 0"
    "\<And>d. \<forall>P s. worth P m1 s = worth P m s + d P s \<Longrightarrow> ledger_moves m m' d"
proof -
  obtain r where r: "frame m1 m'" "h_debt (m_head m1) = h_debt (m_head m') + r"
    "\<forall>P s. worth P m' s = worth P m1 s - repaid m1 P r" "repaid m1 (\<lambda>_. True) r = int r" "drift m' = drift m1"
    "0 < r \<longrightarrow> has_credit (m_head m1) \<and> \<not> credit_settled (m_head m1)" "settled_up m'" "audit m' = Some (Inr ())"
    by (rule store_facts [OF assms(2)])
  note t = terms_eq [OF assms(3), simplified]
  have f: "formed m1" "on_grid m1" using assms(1,5-8) t by (simp_all add: sound_def formed_def on_grid_def)
  then have f': "formed m'" "on_grid m'" using frame_formed [OF r(1)] frame_on_grid [OF r(1)] by simp_all
  have "backed m'" if "h_status (m_head m') = STATUS_OPEN"
    using that assms(1,4-7) t frame_head(3,6) [OF r(1)] frame_all_pay [OF r(1)] all_pay_same [of m1 m]
    by (simp add: sound_def backed_def)
  then show "sound m'" using f' r by (simp add: sound_def)
  show "drift m1 = 0" using audit_drift [OF r(8) f'] r(5) by simp
  show "ledger_moves m m' d" if "\<forall>P s. worth P m1 s = worth P m s + d P s" for d
    unfolding ledger_moves_def ledger_lends_def using that r(2,3,4,6) t
    by (intro exI [of _ r]) (simp add: frame_repaid [OF r(1)] frame_head(7) [OF r(1)] has_credit_def credit_settled_def)
qed

lemma deposit_facts:
  assumes "deposit m a c amount = Some (Inr m')" "sound m"
  shows "sound m' \<and> (\<exists>m1 i. trader_slot m (ac_key (as_owner a)) = Some (Inr (m1, i)) \<and> ledger_moves m m' (\<lambda>P s. at P i amount)
    \<and> h_custody (m_head m') = h_custody (m_head m) + amount)"
proof -
  obtain m1 i m2 where 1: "trader_slot m (ac_key (as_owner a)) = Some (Inr (m1, i))" and 2: "credit_free m1 i amount = Some (Inr m2)"
    and st: "store (m2\<lparr>m_head := (m_head m2)\<lparr>h_custody := h_custody (m_head m2) + amount\<rparr>\<rparr>) = Some (Inr m')"
      (is "store ?m3 = _")
    using assms(1) by (auto simp: deposit_def res_simps Let_def)
  obtain x where c: "m_head m1 = m_head m" "m_claims m1 = m_claims m" "m_makers m1 = m_makers m" "m_steps m1 = m_steps m"
    "length (m_traders m1) = length (m_traders m)" "i < length (m_traders m)"
    "\<forall>P s. worth P m1 s = worth P m s - at P i x" "drift m1 = drift m - int x"
    by (rule trader_slot_facts [OF 1])
  note m2 = credit_free_moves [OF 2]
  have b: "h_backing (m_head m2) = h_backing (m_head m1)"
    using 2 by (auto simp: credit_free_def res_simps option_bind_eq_Some put_trader_def)
  have tm: "terms m2 = terms m1" using m2 by (simp add: moves_def)
  note t2 = moves_terms [OF conjunct1 [OF m2]]
  have cust: "h_custody (m_head m2) = h_custody (m_head m)" using terms_eq(5) [OF tm] c(1) by simp
  have eqs: "terms (?m3\<lparr>m_head := (m_head ?m3)\<lparr>h_custody := h_custody (m_head m)\<rparr>\<rparr>) = terms m"
  proof -
    have "?m3\<lparr>m_head := (m_head ?m3)\<lparr>h_custody := h_custody (m_head m)\<rparr>\<rparr> = m2" by (simp flip: cust)
    then show ?thesis using tm c(1) by (simp add: terms_def)
  qed
  note sc = stored_cash [OF assms(2) st eqs]
  have fr: "m_makers m2 = m_makers m1" "m_steps m2 = m_steps m1" "drift m2 = drift m1"
    "\<forall>P s. worth P m2 s = worth P m1 s + at P i amount" using m2 by (simp_all add: moves_def)
  have "drift ?m3 = drift m2" by (simp add: drift_def)
  moreover have "drift ?m3 = 0" using b c fr m2 t2 by (intro sc(2)) simp_all
  moreover have "drift m = 0" using assms(2) audit_drift by (simp add: sound_def)
  ultimately have "x = 0" using fr c(8) by simp
  have "worth P ?m3 s = worth P m2 s" for P s by (simp add: worth_def)
  then have "\<forall>P s. worth P ?m3 s = worth P m s + at P i amount" using fr(4) c(7) \<open>x = 0\<close> by (simp add: at_def)
  then have "ledger_moves m m' (\<lambda>P s. at P i amount)" using b c fr m2 t2 by (intro sc(3)) simp_all
  moreover have "sound m'" using b c fr m2 t2 by (intro sc(1)) simp_all
  moreover have "h_custody (m_head m') = h_custody (m_head m) + amount"
  proof -
    obtain r where "frame ?m3 m'" by (rule store_facts [OF st])
    from frame_head(5) [OF this] show ?thesis by (simp add: cust)
  qed
  ultimately show ?thesis using 1 by blast
qed

lemma withdraw_facts:
  assumes "withdraw m a c amount = Some (Inr (m', paid))" "sound m"
  shows "sound m' \<and> (\<exists>i. find_trader m (ac_key (as_owner a)) = Some i \<and> ac_signer (as_owner a) \<and> paid \<le> tr_free (m_traders m ! i)
    \<and> ledger_moves m m' (\<lambda>P s. - at P i paid) \<and> h_custody (m_head m) = h_custody (m_head m') + paid)"
proof -
  obtain i m1 where i: "find_trader m (ac_key (as_owner a)) = Some i" "ac_signer (as_owner a)"
    and p: "paid = (if amount = U64_MAX then tr_free (m_traders m ! i) else amount)"
    and 1: "(if 0 < paid then pay_out m a c i paid else Some (Inr m)) = Some (Inr m1)" and st: "store m1 = Some (Inr m')"
    using assms(1) unfolding withdraw_def owned_trader_def Let_def
    by (auto simp: res_simps option_bind_eq_Some slot_Some)
  show ?thesis
  proof (cases "0 < paid")
    case False
    then have "m1 = m" "paid = 0" using 1 by auto
    then have "steps_to m m1 (\<lambda>P s. 0)" by auto
    then have "sound m' \<and> ledger_moves m m' (\<lambda>P s. 0)" by (rule stored_step [OF assms(2) _ st]) simp
    moreover obtain r where "frame m1 m'" by (rule store_facts [OF st])
    ultimately show ?thesis using i \<open>paid = 0\<close> \<open>m1 = m\<close> frame_head(5) [of m m'] by auto
  next
    case True
    then obtain m0 where 0: "debit_free m i paid = Some (Inr m0)" "paid \<le> h_custody (m_head m0)"
      and m1: "m1 = m0\<lparr>m_head := (m_head m0)\<lparr>h_custody := h_custody (m_head m0) - paid\<rparr>\<rparr>"
      using 1 by (auto simp: pay_out_def res_simps Let_def)
    note d = debit_free_moves [OF 0(1)]
    have b: "h_backing (m_head m0) = h_backing (m_head m)" and le: "paid \<le> tr_free (m_traders m ! i)"
      using 0(1) by (auto simp: debit_free_def res_simps option_bind_eq_Some put_trader_def slot_Some)
    have tm: "terms m0 = terms m" using d by (simp add: moves_def)
    have cust: "h_custody (m_head m0) = h_custody (m_head m)" using terms_eq(5) [OF tm] by simp
    have eqs: "terms (m1\<lparr>m_head := (m_head m1)\<lparr>h_custody := h_custody (m_head m)\<rparr>\<rparr>) = terms m"
    proof -
      have "m1\<lparr>m_head := (m_head m1)\<lparr>h_custody := h_custody (m_head m)\<rparr>\<rparr> = m0" by (simp add: m1 flip: cust)
      then show ?thesis using tm by simp
    qed
    have fr: "m_makers m0 = m_makers m" "m_steps m0 = m_steps m" "\<forall>P s. worth P m0 s = worth P m s - at P i paid"
      using d by (simp_all add: moves_def)
    have "worth P m1 s = worth P m0 s" for P s by (simp add: m1 worth_def)
    then have w: "\<forall>P s. worth P m1 s = worth P m s + - at P i paid" using fr(3) by simp
    note sc = stored_cash [OF assms(2) st eqs]
    have "sound m'" "ledger_moves m m' (\<lambda>P s. - at P i paid)"
      using b d fr moves_terms [OF conjunct1 [OF d]] by (intro sc(1) sc(3) [OF _ _ _ _ _ w]; simp add: m1)+
    moreover obtain r where "frame m1 m'" by (rule store_facts [OF st])
    ultimately show ?thesis using i le frame_head(5) [of m1 m'] cust 0(2) by (auto simp: m1)
  qed
qed

end
