(* ===== verification/Proposal.thy ===== *)
theory Proposal
  imports Package Byte_Store "HOL-Library.Product_Lexorder"
begin

unbundle bit_operations_syntax

text \<open>
  The compact encoding of a package, from \<open>crates/futures-math/src/codec.rs\<close>: sparse fills by arc, ladder fills as
  runs of steps with equal lots, LEB128 integers and zigzag-coded differences of the potentials. \<open>None\<close> is the
  \<open>DecodeError\<close>.
\<close>

subsection \<open>The order of the arcs\<close>

text \<open>\<open>ArcId\<close> derives its order: orders by slot, then ladder arcs by maker, step, side and tier.\<close>

fun arc_key :: "arc_id \<Rightarrow> nat \<times> nat \<times> nat \<times> nat \<times> nat" where
  "arc_key (Order s) = (0, s, 0, 0, 0)"
| "arc_key (Maker mk st sd t) = (1, mk, st, side_u8 sd, t)"

lemma side_u8_inject: "side_u8 a = side_u8 b \<longleftrightarrow> a = b"
  by (cases a; cases b) simp_all

lemma arc_key_inject: "arc_key a = arc_key b \<longleftrightarrow> a = b"
  by (cases a; cases b) (auto simp: side_u8_inject)

instantiation arc_id :: linorder
begin

definition less_eq_arc_id :: "arc_id \<Rightarrow> arc_id \<Rightarrow> bool" where
  "less_eq_arc_id a b \<longleftrightarrow> arc_key a \<le> arc_key b"

definition less_arc_id :: "arc_id \<Rightarrow> arc_id \<Rightarrow> bool" where
  "less_arc_id a b \<longleftrightarrow> arc_key a < arc_key b"

instance
  by intro_classes (auto simp: less_eq_arc_id_def less_arc_id_def less_le_not_le arc_key_inject dest: antisym)

end

record proposal =
  pr_fills :: "(arc_id \<times> u64) list"
  pr_taker_fill :: u64
  pr_potentials :: "i64 list"

definition from_fills :: "arc list \<Rightarrow> u64 list \<Rightarrow> u64 \<Rightarrow> i64 list \<Rightarrow> proposal" where
  "from_fills arcs fills taker_fill potentials =
     \<lparr>pr_fills = sort (map (\<lambda>(a, m). (a_id a, m)) (filter (\<lambda>(a, m). 0 < m) (zip arcs fills))),
      pr_taker_fill = taker_fill, pr_potentials = potentials\<rparr>"

text \<open>Dense fills parallel to the arcs, both walked once.\<close>

fun dense_walk :: "(arc_id \<times> u64) list \<Rightarrow> arc list \<Rightarrow> u64 list option" where
  "dense_walk [] arcs = Some (replicate (length arcs) 0)"
| "dense_walk ((i, m) # fills) [] = None"
| "dense_walk ((i, m) # fills) (a # arcs) =
     (if a_id a < i then map_option ((#) 0) (dense_walk ((i, m) # fills) arcs)
      else if a_id a \<noteq> i then None
      else map_option ((#) m) (dense_walk fills arcs))"

definition dense :: "proposal \<Rightarrow> arc list \<Rightarrow> u64 list option" where
  "dense p arcs = dense_walk (pr_fills p) arcs"

subsection \<open>Integers\<close>

fun put_var :: "u64 \<Rightarrow> bytes" where
  "put_var v =
     (let b = word_of_nat (v AND 127) in if v div 128 = 0 then [b] else (b OR 128) # put_var (v div 128))"

text \<open>Ten bytes at most; bits shifted past the 64th are lost.\<close>

fun var_from :: "nat \<Rightarrow> u64 \<Rightarrow> bytes \<Rightarrow> (u64 \<times> bytes) option" where
  "var_from shift v [] = None"
| "var_from shift v (b # bs) =
     (if 64 \<le> shift then None
      else let v = v OR cast 64 (unat (b AND 127) * 2 ^ shift) in
        if b AND 128 = 0 then Some (v, bs) else var_from (shift + 7) v bs)"

definition var :: "bytes \<Rightarrow> (u64 \<times> bytes) option" where
  "var bs = var_from 0 0 bs"

definition zigzag :: "i64 \<Rightarrow> u64" where
  "zigzag v = unsigned_of 64 (cast_int 64 (v * 2) XOR (v div 2 ^ 63))"

definition unzigzag :: "u64 \<Rightarrow> i64" where
  "unzigzag v = int (v div 2) XOR (- int (v mod 2))"

subsection \<open>Encoding\<close>

fun put_orders :: "u64 \<Rightarrow> (u16 \<times> u64) list \<Rightarrow> bytes option" where
  "put_orders prev [] = Some []"
| "put_orders prev ((s, m) # rest) = do {
     d \<leftarrow> checked_sub s prev;
     out \<leftarrow> put_orders s rest;
     Some (put_var d @ put_var m @ out) }"

type_synonym run = "u8 \<times> u8 \<times> u16 \<times> u16 \<times> u64"

text \<open>One step onto the runs, the last one first. Adding to a step or a length past 16 bits aborts.\<close>

definition add_step :: "u8 \<times> u8 \<times> u16 \<times> u64 \<Rightarrow> run list \<Rightarrow> run list option" where
  "add_step x runs = (case x of (mk, sb, step, m) \<Rightarrow>
     case runs of
       [] \<Rightarrow> Some [(mk, sb, step, 1, m)]
     | (mk', sb', step', len, m') # older \<Rightarrow>
         if mk' = mk \<and> sb' = sb then do {
           end \<leftarrow> checked_add 16 step' len;
           if end = step \<and> m' = m
           then do { len \<leftarrow> checked_add 16 len 1; Some ((mk', sb', step', len, m') # older) }
           else Some ((mk, sb, step, 1, m) # runs) }
         else Some ((mk, sb, step, 1, m) # runs))"

fun add_steps :: "(u8 \<times> u8 \<times> u16 \<times> u64) list \<Rightarrow> run list \<Rightarrow> run list option" where
  "add_steps [] runs = Some (rev runs)"
| "add_steps (x # xs) runs = do { runs \<leftarrow> add_step x runs; add_steps xs runs }"

definition order_fills :: "(arc_id \<times> u64) list \<Rightarrow> (u16 \<times> u64) list" where
  "order_fills fills = List.map_filter (\<lambda>(i, m). case i of Order s \<Rightarrow> Some (s, m) | _ \<Rightarrow> None) fills"

definition step_fills :: "(arc_id \<times> u64) list \<Rightarrow> (u8 \<times> u8 \<times> u16 \<times> u64) list" where
  "step_fills fills =
     sort (List.map_filter (\<lambda>(i, m). case i of Maker mk st sd t \<Rightarrow> Some (mk, side_u8 sd + 2 * t, st, m) | _ \<Rightarrow> None) fills)"

definition put_run :: "run \<Rightarrow> bytes" where
  "put_run r = (case r of (mk, sb, step, len, m) \<Rightarrow>
     [word_of_nat mk, word_of_nat sb] @ put_var step @ put_var len @ put_var m)"

fun put_potentials :: "i64 \<Rightarrow> i64 list \<Rightarrow> bytes" where
  "put_potentials prev [] = []"
| "put_potentials prev (p # ps) = put_var (zigzag (cast_int 64 (p - prev))) @ put_potentials p ps"

definition encode :: "proposal \<Rightarrow> bytes option" where
  "encode p = do {
     let orders = order_fills (pr_fills p);
     ob \<leftarrow> put_orders 0 orders;
     runs \<leftarrow> add_steps (step_fills (pr_fills p)) [];
     Some (put_var (length orders) @ ob @ put_var (length runs) @ concat (map put_run runs)
       @ put_var (pr_taker_fill p) @ put_var (length (pr_potentials p)) @ put_potentials 0 (pr_potentials p)) }"

subsection \<open>Decoding\<close>

function get_orders :: "u64 \<Rightarrow> bool \<Rightarrow> u64 \<Rightarrow> bytes \<Rightarrow> ((arc_id \<times> u64) list \<times> bytes) option" where
  "get_orders n first idx bs =
     (if n = 0 then Some ([], bs)
      else do {
        (d, bs) \<leftarrow> var bs;
        if \<not> first \<and> d = 0 then None
        else do {
          idx \<leftarrow> checked_add 64 idx d;
          (m, bs) \<leftarrow> var bs;
          s \<leftarrow> checked 16 idx;
          if m = 0 \<or> s = U16_MAX then None
          else do {
            (fills, bs) \<leftarrow> get_orders (n - 1) False idx bs;
            Some ((Order s, m) # fills, bs) } } })"
  by pat_completeness auto

termination
  by (relation "measure fst") auto

definition get_byte :: "bytes \<Rightarrow> (u8 \<times> bytes) option" where
  "get_byte bs = (case bs of [] \<Rightarrow> None | b # bs \<Rightarrow> Some (unat b, bs))"

definition get_run :: "bytes \<Rightarrow> ((arc_id \<times> u64) list \<times> bytes) option" where
  "get_run bs = do {
     (mk, bs) \<leftarrow> get_byte bs;
     (sb, bs) \<leftarrow> get_byte bs;
     sd \<leftarrow> from_u8 (sb AND 1);
     let tier = sb div 2;
     if MAX_TIERS \<le> tier then None
     else do {
       (step, bs) \<leftarrow> var bs;
       step \<leftarrow> checked 16 step;
       (len, bs) \<leftarrow> var bs;
       len \<leftarrow> checked 16 len;
       (m, bs) \<leftarrow> var bs;
       if m = 0 \<or> len = 0 then None
       else if 2 ^ 16 \<le> step + (len - 1) then None
       else Some (map (\<lambda>s. (Maker mk (step + s) sd tier, m)) [0..<len], bs) } }"

function get_runs :: "u64 \<Rightarrow> bytes \<Rightarrow> ((arc_id \<times> u64) list \<times> bytes) option" where
  "get_runs n bs =
     (if n = 0 then Some ([], bs)
      else do {
        (fills, bs) \<leftarrow> get_run bs;
        (rest, bs) \<leftarrow> get_runs (n - 1) bs;
        Some (fills @ rest, bs) })"
  by pat_completeness auto

termination
  by (relation "measure fst") auto

function get_potentials :: "u64 \<Rightarrow> i64 \<Rightarrow> bytes \<Rightarrow> (i64 list \<times> bytes) option" where
  "get_potentials n prev bs =
     (if n = 0 then Some ([], bs)
      else do {
        (z, bs) \<leftarrow> var bs;
        let p = cast_int 64 (prev + unzigzag z);
        (ps, bs) \<leftarrow> get_potentials (n - 1) p bs;
        Some (p # ps, bs) })"
  by pat_completeness auto

termination
  by (relation "measure fst") auto

fun twice :: "(arc_id \<times> u64) list \<Rightarrow> bool" where
  "twice (x # y # rest) = (fst x = fst y \<or> twice (y # rest))"
| "twice _ = False"

definition decode :: "bytes \<Rightarrow> proposal option" where
  "decode bs = do {
     (n, bs) \<leftarrow> var bs;
     (orders, bs) \<leftarrow> get_orders n True 0 bs;
     (runs, bs) \<leftarrow> var bs;
     (steps, bs) \<leftarrow> get_runs runs bs;
     let fills = sort (orders @ steps);
     if twice fills then None
     else do {
       (taker_fill, bs) \<leftarrow> var bs;
       (n, bs) \<leftarrow> var bs;
       if 4096 < n then None
       else do {
         (potentials, bs) \<leftarrow> get_potentials n 0 bs;
         if bs \<noteq> [] then None
         else Some \<lparr>pr_fills = fills, pr_taker_fill = taker_fill, pr_potentials = potentials\<rparr> } } }"

declare put_var.simps [simp del] get_orders.simps [simp del] get_runs.simps [simp del] get_potentials.simps [simp del]

end
