(* ===== verification/Ladders.thy ===== *)
theory Ladders
  imports Market_Instructions Proposal
begin

text \<open>
  Maker ladders, from \<open>programs/futures/src/state.rs\<close>: the depth tiers of a step, the lots each has left, what a step
  needs in escrow, the arcs of the whole book and the ladder a quote writes. An array of tiers has eight entries, as
  in the code, where a further one aborts.
\<close>

subsection \<open>Tiers\<close>

type_synonym tier_lots = "u64 list"

definition tiers_n :: "tiers \<Rightarrow> usize" where
  "tiers_n t = max (t_count t) 1"

fun tier_weights :: "u16 \<Rightarrow> u128 \<Rightarrow> nat \<Rightarrow> u128 list" where
  "tier_weights ratio w 0 = []"
| "tier_weights ratio w (Suc n) = w # tier_weights ratio (w * ratio div 100) n"

definition tier_sizes :: "tiers \<Rightarrow> u64 \<Rightarrow> tier_lots option" where
  "tier_sizes t tot =
     (let n = tiers_n t in
      if MAX_TIERS < n then None
      else if n = 1 then Some (tot # replicate 7 0)
      else let w = tier_weights (t_ratio t) 100 n; all = max (sum_list w) 1;
               parts = map (\<lambda>x. cast 64 (tot * x div all)) (take (n - 1) w)
        in do { rest \<leftarrow> checked_sub tot (sum_list parts);
                Some (parts @ rest # replicate (MAX_TIERS - n) 0) })"

fun take_filled :: "u64 \<Rightarrow> tier_lots \<Rightarrow> tier_lots" where
  "take_filled filled [] = []"
| "take_filled filled (s # ss) = (let used = min filled s in (s - used) # take_filled (filled - used) ss)"

definition remaining_in :: "tiers \<Rightarrow> tier_lots \<Rightarrow> u64 \<Rightarrow> u64 \<Rightarrow> tier_lots" where
  "remaining_in t sizes tot remaining =
     (let n = tiers_n t in
      if n = 1 then remaining # replicate 7 0
      else if tot \<le> remaining then sizes
      else take_filled (tot - remaining) (take n sizes) @ replicate (MAX_TIERS - n) 0)"

fun live_walk :: "u64 \<Rightarrow> tier_lots \<Rightarrow> usize" where
  "live_walk lots [] = 0"
| "live_walk lots (s # ss) =
     (if lots = 0 then 0 else if 0 < s then 1 + live_walk (lots - s) ss else live_walk lots ss)"

definition tiers_live :: "tiers \<Rightarrow> tier_lots \<Rightarrow> u64 \<Rightarrow> u64 \<Rightarrow> usize" where
  "tiers_live t sizes tot remaining =
     (let n = tiers_n t in
      if n = 1 then of_bool (0 < remaining)
      else if tot \<le> remaining then length (filter (\<lambda>s. 0 < s) (take n sizes))
      else live_walk remaining (rev (take n sizes)))"

definition tier_price :: "tiers \<Rightarrow> u32 \<Rightarrow> side \<Rightarrow> usize \<Rightarrow> u64 \<Rightarrow> u64" where
  "tier_price t best sd i k =
     (let off = t_spread t * i in
      case sd of Long \<Rightarrow> best - off | Short \<Rightarrow> min (best + off) k)"

subsection \<open>A maker's steps\<close>

definition maker_sizes :: "maker \<Rightarrow> (tier_lots \<times> tier_lots) option" where
  "maker_sizes mk = do {
     bids \<leftarrow> tier_sizes (mk_tiers mk) (mk_bid_total mk);
     asks \<leftarrow> tier_sizes (mk_tiers mk) (mk_ask_total mk);
     Some (bids, asks) }"

definition step_lots :: "maker \<Rightarrow> tier_lots \<times> tier_lots \<Rightarrow> step \<Rightarrow> tier_lots \<times> tier_lots" where
  "step_lots mk sizes st =
     (remaining_in (mk_tiers mk) (fst sizes) (mk_bid_total mk) (st_bid_lots st),
      remaining_in (mk_tiers mk) (snd sizes) (mk_ask_total mk) (st_ask_lots st))"

text \<open>One side of a tier: the lots inventory backs, and the escrow the others add.\<close>

definition side_escrow :: "u64 \<Rightarrow> u64 \<Rightarrow> u64 option \<Rightarrow> u64 \<Rightarrow> (u64 \<times> u64) option" where
  "side_escrow lots held per tot =
     (let backed = min lots held in
      if backed < lots then do {
        per \<leftarrow> per;
        add \<leftarrow> checked_mul 64 (lots - backed) per;
        tot \<leftarrow> checked_add 64 tot add;
        Some (held - backed, tot) }
      else Some (held - backed, tot))"

fun escrow_walk :: "tiers \<Rightarrow> step \<Rightarrow> u64 \<Rightarrow> nat \<Rightarrow> (u64 \<times> u64) list \<Rightarrow> u64 \<Rightarrow> u64 \<Rightarrow> u64 \<Rightarrow> u64 option" where
  "escrow_walk t st k i [] long short tot = Some tot"
| "escrow_walk t st k i ((bid, ask) # rest) long short tot = do {
     (short, tot) \<leftarrow> side_escrow bid short (Some (tier_price t (st_bid st) Long i k)) tot;
     (long, tot) \<leftarrow> side_escrow ask long (checked_sub k (tier_price t (st_ask st) Short i k)) tot;
     escrow_walk t st k (i + 1) rest long short tot }"

definition step_escrow :: "maker \<Rightarrow> tier_lots \<times> tier_lots \<Rightarrow> step \<Rightarrow> u64 \<Rightarrow> u64 option" where
  "step_escrow mk sizes st k =
     (let (bids, asks) = step_lots mk sizes st in
      escrow_walk (mk_tiers mk) st k 0 (take (tiers_n (mk_tiers mk)) (zip bids asks))
        (nat (max (st_inv st) 0)) (if st_inv st < 0 then nat \<bar>st_inv st\<bar> else 0) 0)"

subsection \<open>The book\<close>

definition order_arc :: "u16 \<Rightarrow> order \<Rightarrow> arc" where
  "order_arc i r = \<lparr>a_id = Order i, a_side = (if o_side r = 0 then Long else Short), a_lo = o_lo r, a_hi = o_hi r,
     a_price = o_price r, a_cap = o_lots r, a_rank = rank (o_seq r) 0\<rparr>"

definition order_arcs :: "order list \<Rightarrow> arc list" where
  "order_arcs rs = map (\<lambda>i. order_arc i (rs ! i)) (filter (\<lambda>i. o_seq (rs ! i) \<noteq> 0 \<and> o_lots (rs ! i) \<noteq> 0) [0..<length rs])"

definition tier_arc :: "u64 \<Rightarrow> u8 \<Rightarrow> maker \<Rightarrow> u16 \<Rightarrow> side \<Rightarrow> u32 \<Rightarrow> tier_lots \<Rightarrow> u8 \<Rightarrow> arc" where
  "tier_arc k i mk x sd best lots tier = \<lparr>a_id = Maker i x sd tier, a_side = sd, a_lo = x, a_hi = x + 1,
     a_price = tier_price (mk_tiers mk) best sd tier k, a_cap = lots ! tier,
     a_rank = rank (mk_seq mk) 0 OR maker_sub x sd tier\<rparr>"

definition side_arcs :: "u64 \<Rightarrow> u8 \<Rightarrow> maker \<Rightarrow> u16 \<Rightarrow> side \<Rightarrow> u32 \<Rightarrow> tier_lots \<Rightarrow> arc list" where
  "side_arcs k i mk x sd best lots =
     map (tier_arc k i mk x sd best lots) (filter (\<lambda>tier. lots ! tier \<noteq> 0) [0..<tiers_n (mk_tiers mk)])"

definition step_arcs :: "u64 \<Rightarrow> u8 \<Rightarrow> maker \<Rightarrow> tier_lots \<times> tier_lots \<Rightarrow> step list \<Rightarrow> u16 \<Rightarrow> arc list option" where
  "step_arcs k i mk sizes ss x = do {
     st \<leftarrow> slot ss x;
     let (bids, asks) = step_lots mk sizes st;
     Some (side_arcs k i mk x Long (st_bid st) bids @ side_arcs k i mk x Short (st_ask st) asks) }"

fun collect :: "('a \<Rightarrow> 'b list option) \<Rightarrow> 'a list \<Rightarrow> 'b list option" where
  "collect f [] = Some []"
| "collect f (x # xs) = do { ys \<leftarrow> f x; zs \<leftarrow> collect f xs; Some (ys @ zs) }"

definition ladder_arcs :: "market \<Rightarrow> u8 \<Rightarrow> arc list option" where
  "ladder_arcs m i =
     (let mk = m_makers m ! i in
      if \<not> mk_used mk \<or> mk_seq mk = 0 then Some []
      else do {
        sizes \<leftarrow> maker_sizes mk;
        ss \<leftarrow> slot (m_steps m) i;
        collect (step_arcs (h_k (m_head m)) i mk sizes ss) [mk_lo mk..<mk_hi mk] })"

definition book_arcs :: "market \<Rightarrow> arc list option" where
  "book_arcs m = do {
     ladders \<leftarrow> collect (ladder_arcs m) [0..<length (m_makers m)];
     Some (order_arcs (m_orders m) @ ladders) }"

definition step_live :: "maker \<Rightarrow> tier_lots \<times> tier_lots \<Rightarrow> step list \<Rightarrow> u16 \<Rightarrow> unit list option" where
  "step_live mk sizes ss x = do {
     st \<leftarrow> slot ss x;
     Some (replicate (tiers_live (mk_tiers mk) (fst sizes) (mk_bid_total mk) (st_bid_lots st)
       + tiers_live (mk_tiers mk) (snd sizes) (mk_ask_total mk) (st_ask_lots st)) ()) }"

definition maker_live :: "market \<Rightarrow> u8 \<Rightarrow> unit list option" where
  "maker_live m i =
     (let mk = m_makers m ! i in
      if \<not> mk_used mk \<or> mk_seq mk = 0 then Some []
      else do {
        sizes \<leftarrow> maker_sizes mk;
        ss \<leftarrow> slot (m_steps m) i;
        collect (step_live mk sizes ss) [mk_lo mk..<mk_hi mk] })"

text \<open>The number of ladder arcs, counted without building them.\<close>

definition count_ladder_arcs :: "market \<Rightarrow> usize option" where
  "count_ladder_arcs m = map_option length (collect (maker_live m) [0..<length (m_makers m)])"

subsection \<open>Writing a ladder\<close>

record ladder =
  ld_lo :: u16
  ld_hi :: u16
  ld_bid_spread :: u32
  ld_ask_spread :: u32
  ld_bid_lots :: u64
  ld_ask_lots :: u64
  ld_keep :: bool
  ld_tiers :: tiers

record core =
  co_lo :: u16
  co_hi :: u16

record knot =
  kn_pos :: u16
  kn_price :: u32

function mids_walk :: "knot list \<Rightarrow> usize \<Rightarrow> u16 \<Rightarrow> usize" where
  "mids_walk knots w x =
     (if w + 1 < length knots \<and> kn_pos (knots ! (w + 1)) < x then mids_walk knots (w + 1) x else w)"
  by pat_completeness auto

termination
  by (relation "measure (\<lambda>(knots, w, x). length knots - w)") auto

text \<open>The mid at \<open>x\<close> and where the walk along the knots stands. No knots abort.\<close>

definition mids_at :: "knot list \<Rightarrow> usize \<Rightarrow> u16 \<Rightarrow> (usize \<times> u64) option" where
  "mids_at knots w x = do {
     first \<leftarrow> slot knots 0;
     if x \<le> kn_pos first then Some (w, kn_price first)
     else let w = mids_walk knots w x in
       if w + 1 = length knots then Some (w, kn_price (knots ! w))
       else let a = knots ! w; c = knots ! (w + 1); pa = int (kn_price a); pc = int (kn_price c) in do {
         dx \<leftarrow> checked_sub x (kn_pos a);
         width \<leftarrow> checked_sub (kn_pos c) (kn_pos a);
         if width = 0 then None
         else Some (w, unsigned_of 64 (pa + ((pc - pa) * int dx) sdiv int width)) } }"

definition quoted_step :: "u64 \<Rightarrow> ladder \<Rightarrow> u64 \<Rightarrow> u64 \<Rightarrow> u64 \<Rightarrow> step \<Rightarrow> step" where
  "quoted_step k l mid bid_lots ask_lots st =
     (let left_bid = st_bid_lots st; left_ask = st_ask_lots st; st = st\<lparr>st_bid_lots := 0, st_ask_lots := 0\<rparr>;
          st = (if ld_bid_spread l \<le> mid
                then st\<lparr>st_bid := cast 32 (mid - ld_bid_spread l), st_bid_lots := if ld_keep l then min bid_lots left_bid else bid_lots\<rparr>
                else st);
          ask = mid + ld_ask_spread l
      in if ask \<le> k then st\<lparr>st_ask := cast 32 ask, st_ask_lots := if ld_keep l then min ask_lots left_ask else ask_lots\<rparr> else st)"

text \<open>Every step of the grid from \<open>x\<close> on: outside the ladder it gets no lots, outside the core the last tier's.\<close>

fun write_steps :: "u64 \<Rightarrow> maker \<Rightarrow> tier_lots \<times> tier_lots \<Rightarrow> ladder \<Rightarrow> core \<Rightarrow> knot list \<Rightarrow> usize \<Rightarrow> u16 \<Rightarrow> step list \<Rightarrow> u64 \<Rightarrow>
    (step list \<times> u64) option" where
  "write_steps k mk sizes l co knots w x [] escrow = Some ([], escrow)"
| "write_steps k mk sizes l co knots w x (st # ss) escrow =
     (if ld_lo l \<le> x \<and> x < ld_hi l then do {
        (w, mid) \<leftarrow> mids_at knots w x;
        let lst = tiers_n (mk_tiers mk) - 1;
        let (bid_lots, ask_lots) = (if co_lo co \<le> x \<and> x < co_hi co then (ld_bid_lots l, ld_ask_lots l)
                                    else (fst sizes ! lst, snd sizes ! lst));
        let st = quoted_step k l mid bid_lots ask_lots st;
        add \<leftarrow> step_escrow mk sizes st k;
        escrow \<leftarrow> checked_add 64 escrow add;
        (ss, escrow) \<leftarrow> write_steps k mk sizes l co knots w (x + 1) ss escrow;
        Some (st # ss, escrow) }
      else do {
        (ss, escrow) \<leftarrow> write_steps k mk sizes l co knots w (x + 1) ss escrow;
        Some (retired_step st # ss, escrow) })"

definition write_ladder :: "market \<Rightarrow> u8 \<Rightarrow> ladder \<Rightarrow> core \<Rightarrow> knot list \<Rightarrow> (market \<times> u64) option" where
  "write_ladder m i l co knots = do {
     mk \<leftarrow> slot (m_makers m) i;
     let mk = mk\<lparr>mk_tiers := ld_tiers l, mk_bid_total := ld_bid_lots l, mk_ask_total := ld_ask_lots l\<rparr>;
     sizes \<leftarrow> maker_sizes mk;
     ss \<leftarrow> slot (m_steps m) i;
     (ss, escrow) \<leftarrow> write_steps (h_k (m_head m)) mk sizes l co knots 0 0 ss 0;
     Some (put_steps (put_maker m i mk) i ss, escrow) }"

end
