(* ===== verification/Trader_Value.thy ===== *)
theory Trader_Value
  imports Ladders
begin

text \<open>
  \<open>trader_value\<close> of \<open>programs/futures/src/state.rs\<close>: what the cash, claims and inventory of a trader are worth, the
  least and the most over every settlement, found by one sweep of slopes over the grid. Sums of lots over the grid
  stay far inside the code's 128 bits (fewer than \<open>2 ^ 32\<close> claims of 64-bit lots over fewer than \<open>2 ^ 16\<close> steps) and
  are plain integers; where a product with \<open>k\<close> may leave them the code aborts. A Rust \<open>None\<close> is the error \<open>Overflow\<close>, to
  which every caller turns it.
\<close>

subsection \<open>The sweep\<close>

text \<open>Side, range and lots of what a trader holds.\<close>

type_synonym position = "bool \<times> u16 \<times> u16 \<times> u64"

definition inventory :: "step list \<Rightarrow> position list" where
  "inventory ss = map (\<lambda>x. (0 < st_inv (ss ! x), x, x + 1, nat \<bar>st_inv (ss ! x)\<bar>)) (filter (\<lambda>x. st_inv (ss ! x) \<noteq> 0) [0..<length ss])"

definition claimed :: "u16 \<Rightarrow> claim list \<Rightarrow> position list" where
  "claimed t cs = map (\<lambda>c. (c_side c = side_u8 Long, c_lo c, c_hi c, c_lots c)) (filter (\<lambda>c. c_lots c \<noteq> 0 \<and> c_trader c = t) cs)"

definition positions :: "market \<Rightarrow> u16 \<Rightarrow> position list option" where
  "positions m t = do {
     tr \<leftarrow> slot (m_traders m) t;
     inv \<leftarrow> (if 0 < tr_maker tr then map_option inventory (slot (m_steps m) (tr_maker tr - 1)) else Some []);
     Some (inv @ claimed t (m_claims m)) }"

definition bump :: "int list \<Rightarrow> nat \<Rightarrow> int \<Rightarrow> int list option" where
  "bump xs i v = (if i < length xs then Some (xs[i := xs ! i + v]) else None)"

text \<open>The closure \<open>add\<close>: slope changes, the shorts' full sets and, once the market is final, what is owed.\<close>

definition add_position :: "header \<Rightarrow> position \<Rightarrow> int list \<times> int \<times> u128 \<Rightarrow> (int list \<times> int \<times> u128) option" where
  "add_position h q acc = (case (q, acc) of ((long, lo, hi, lots), (delta, base, due)) \<Rightarrow> do {
     base \<leftarrow> (if long then Some base else do { w \<leftarrow> checked_sub hi lo; Some (base + int lots * int w) });
     delta \<leftarrow> bump delta lo (if long then int lots else - int lots);
     delta \<leftarrow> bump delta hi (if long then - int lots else int lots);
     due \<leftarrow> (if h_status h = STATUS_OPEN then Some due
       else do {
         per \<leftarrow> (if long then long_per_lot lo hi (h_settlement_fine h) (h_k h) else short_per_lot lo hi (h_settlement_fine h) (h_k h));
         checked_add 128 due (lots * per) });
     Some (delta, base, due) })"

fun add_positions :: "header \<Rightarrow> position list \<Rightarrow> int list \<times> int \<times> u128 \<Rightarrow> (int list \<times> int \<times> u128) option" where
  "add_positions h [] acc = Some acc"
| "add_positions h (q # qs) acc = do { acc \<leftarrow> add_position h q acc; add_positions h qs acc }"

fun sweep :: "int \<Rightarrow> int list \<Rightarrow> int \<Rightarrow> int \<Rightarrow> int \<times> int \<Rightarrow> int \<times> int" where
  "sweep base [] d slope best = best"
| "sweep base (dx # dxs) d slope (lo, hi) =
     sweep base dxs (d + (slope + dx)) (slope + dx) (min lo (base + d), max hi (base + d))"

definition try_u64 :: "int \<Rightarrow> u64 res" where
  "try_u64 v = (if 0 \<le> v \<and> v < 2 ^ 64 then Some (Inr (nat v)) else Some (Inl Overflow))"

definition value_of :: "u64 \<Rightarrow> nat \<Rightarrow> int \<Rightarrow> u64 res" where
  "value_of k held v = Option.bind (checked_int 128 (v * int k)) (\<lambda>p.
     Option.bind (checked_int 128 (int held + p)) try_u64)"

definition trader_value :: "market \<Rightarrow> u16 \<Rightarrow> (u64 \<times> u64) res" where
  "trader_value m t =
     Option.bind (slot (m_traders m) t) (\<lambda>tr.
     let h = m_head m; held = tr_free tr + tr_reserved tr; n = h_grid h + 1 in
     Option.bind (positions m t) (\<lambda>qs.
     Option.bind (add_positions h qs (replicate (n + 1) 0, 0, 0)) (\<lambda>(delta, base, due).
     if h_status h \<noteq> STATUS_OPEN
     then Option.bind (checked_add 128 held due) (\<lambda>v. andthen (try_u64 (int v)) (\<lambda>v. Some (Inr (v, v))))
     else let (lo, hi) = sweep base (take n delta) 0 0 (2 ^ 127 - 1, - (2 ^ 127)) in
       andthen (value_of (h_k h) held lo) (\<lambda>lo.
       andthen (value_of (h_k h) held hi) (\<lambda>hi.
       Some (Inr (lo, hi)))))))"

end
