(* ===== verification/Credit_Risk.thy ===== *)
theory Credit_Risk
  imports Trader_Value Credit
begin

text \<open>
  \<open>credit_risk\<close> of \<open>programs/futures/src/state.rs\<close>: what the position of the credit owner could cost its stakers and
  what carries its debt, over every fill of its resting orders and ladder. The code has it twice: the reviewed form in
  128 bits (\<open>credit_risk_exact\<close>) and one pass in 64 bits for markets whose values are small (\<open>credit_risk_fast\<close>), which
  falls back to the first where a value leaves its range. A Rust \<open>None\<close> is the error \<open>Overflow\<close>, to which every caller turns
  it; an overflow of plain arithmetic aborts. Sums of lots over the grid cannot leave 128 bits and are plain integers.
\<close>

record credit_risk =
  cr_exposure :: u64
  cr_carry :: u64

text \<open>Lots that rest on a step: the cost per lot, and how many.\<close>

type_synonym lots_at = "int \<times> int"

subsection \<open>What both forms read\<close>

text \<open>The trader's claims as difference arrays of long and of short lots.\<close>

fun claim_deltas :: "u16 \<Rightarrow> claim list \<Rightarrow> int list \<times> int list \<Rightarrow> (int list \<times> int list) option" where
  "claim_deltas t [] ds = Some ds"
| "claim_deltas t (c # cs) (dl, ds) =
     (if c_lots c = 0 \<or> c_trader c \<noteq> t then claim_deltas t cs (dl, ds)
      else if c_side c = side_u8 Long then do {
        dl \<leftarrow> bump dl (c_lo c) (int (c_lots c));
        dl \<leftarrow> bump dl (c_hi c) (- int (c_lots c));
        claim_deltas t cs (dl, ds) }
      else do {
        ds \<leftarrow> bump ds (c_lo c) (int (c_lots c));
        ds \<leftarrow> bump ds (c_hi c) (- int (c_lots c));
        claim_deltas t cs (dl, ds) })"

definition own_orders :: "u16 \<Rightarrow> order list \<Rightarrow> order list" where
  "own_orders t rs = filter (\<lambda>r. o_seq r \<noteq> 0 \<and> o_trader r = t \<and> o_lots r \<noteq> 0) rs"

definition order_side :: "order \<Rightarrow> side" where
  "order_side r = (if o_side r = side_u8 Long then Long else Short)"

record risk_ladder =
  rl_maker :: maker
  rl_steps :: "step list"
  rl_live :: bool

definition own_ladder :: "market \<Rightarrow> trader \<Rightarrow> bool \<Rightarrow> risk_ladder option option" where
  "own_ladder m tr resting =
     (if tr_maker tr = 0 then Some None
      else do {
        mk \<leftarrow> slot (m_makers m) (tr_maker tr - 1);
        ss \<leftarrow> slot (m_steps m) (tr_maker tr - 1);
        Some (Some \<lparr>rl_maker = mk, rl_steps = ss, rl_live = mk_used mk \<and> mk_seq mk \<noteq> 0 \<and> resting\<rparr>) })"

definition own_sizes :: "risk_ladder option \<Rightarrow> (tier_lots \<times> tier_lots) option" where
  "own_sizes lad = (case lad of None \<Rightarrow> Some ([], []) | Some l \<Rightarrow> maker_sizes (rl_maker l))"

definition ladder_n :: "risk_ladder option \<Rightarrow> usize" where
  "ladder_n lad = (case lad of None \<Rightarrow> 1 | Some l \<Rightarrow> tiers_n (mk_tiers (rl_maker l)))"

subsection \<open>The reviewed form\<close>

record risk_order =
  ro_side :: side
  ro_lo :: u16
  ro_hi :: u16
  ro_lots :: u64
  ro_c :: u64

definition exact_order :: "u64 \<Rightarrow> order \<Rightarrow> risk_order list option" where
  "exact_order k r = do {
     c \<leftarrow> contribution (order_side r) (o_lo r) (o_hi r) (o_price r) k;
     Some [\<lparr>ro_side = order_side r, ro_lo = o_lo r, ro_hi = o_hi r, ro_lots = o_lots r, ro_c = c\<rparr>] }"

definition exact_orders :: "market \<Rightarrow> u16 \<Rightarrow> bool \<Rightarrow> risk_order list option" where
  "exact_orders m t resting = (if resting then collect (exact_order (h_k (m_head m))) (own_orders t (m_orders m)) else Some [])"

text \<open>The closure \<open>step\<close>: bids, asks, their prices by tier and the inventory.\<close>

definition no_lots :: tier_lots where
  "no_lots = replicate 8 0"

definition exact_step :: "u64 \<Rightarrow> risk_ladder option \<Rightarrow> tier_lots \<times> tier_lots \<Rightarrow> u16 \<Rightarrow>
    (tier_lots \<times> tier_lots \<times> u64 list \<times> u64 list \<times> i64) option" where
  "exact_step k lad sizes x =
     (case lad of
        None \<Rightarrow> Some (no_lots, no_lots, [0], [0], 0)
      | Some l \<Rightarrow> do {
          st \<leftarrow> slot (rl_steps l) x;
          let mk = rl_maker l;
          let n = tiers_n (mk_tiers mk);
          if \<not> rl_live l \<or> x < mk_lo mk \<or> mk_hi mk \<le> x
          then Some (no_lots, no_lots, replicate n 0, replicate n 0, st_inv st)
          else let (bids, asks) = step_lots mk sizes st
            in Some (bids, asks, map (\<lambda>i. tier_price (mk_tiers mk) (st_bid st) Long i k) [0..<n],
                 map (\<lambda>i. tier_price (mk_tiers mk) (st_ask st) Short i k) [0..<n], st_inv st) })"

definition plus128 :: "int \<Rightarrow> int \<Rightarrow> int option" where
  "plus128 a b = checked_int 128 (a + b)"

definition times128 :: "int \<Rightarrow> int \<Rightarrow> int option" where
  "times128 a b = checked_int 128 (a * b)"

text \<open>What the first lots of a side cost: lots and price by tier, best first.\<close>

fun backed_cost :: "(u64 \<times> u64) list \<Rightarrow> u64 \<Rightarrow> int \<Rightarrow> int option" where
  "backed_cost [] left tot = Some tot"
| "backed_cost ((lots, c) # rest) left tot =
     (if left = 0 then Some tot
      else let q = min lots left in do {
        p \<leftarrow> times128 (int q) (int c);
        tot \<leftarrow> plus128 tot p;
        backed_cost rest (left - q) tot })"

text \<open>The closure \<open>escrow\<close>.\<close>

definition ladder_escrow :: "tier_lots \<Rightarrow> u64 \<Rightarrow> u64 \<Rightarrow> int option" where
  "ladder_escrow lots best held = do {
     q \<leftarrow> checked 64 (sum_list lots);
     times128 (int (q - min q held)) (int best) }"

definition long_inv :: "i64 \<Rightarrow> u64" where
  "long_inv stock = nat (max stock 0)"

definition short_inv :: "i64 \<Rightarrow> u64" where
  "short_inv stock = nat \<bar>min stock 0\<bar>"

text \<open>The first pass: the inventory into the coverage, and what its short part could cost in all.\<close>

fun exact_inventory :: "u64 \<Rightarrow> risk_ladder option \<Rightarrow> tier_lots \<times> tier_lots \<Rightarrow> u16 list \<Rightarrow> int list \<times> int list \<times> int \<times> int \<Rightarrow>
    (int list \<times> int list \<times> int \<times> int) option" where
  "exact_inventory k lad sizes [] acc = Some acc"
| "exact_inventory k lad sizes (x # xs) (dl, ds, held, escrow) = do {
     (bids, asks, bp, ap, stock) \<leftarrow> exact_step k lad sizes x;
     (dl, ds) \<leftarrow> (if 0 < stock then do { dl \<leftarrow> bump dl x stock; dl \<leftarrow> bump dl (x + 1) (- stock); Some (dl, ds) }
       else if stock < 0 then do { ds \<leftarrow> bump ds x \<bar>stock\<bar>; ds \<leftarrow> bump ds (x + 1) (- \<bar>stock\<bar>); Some (dl, ds) }
       else Some (dl, ds));
     b \<leftarrow> backed_cost (zip bids bp) (short_inv stock) 0;
     held \<leftarrow> plus128 held b;
     e \<leftarrow> ladder_escrow bids (hd bp) (short_inv stock);
     escrow \<leftarrow> plus128 escrow e;
     exact_inventory k lad sizes xs (dl, ds, held, escrow) }"

fun running_total :: "int list \<Rightarrow> int \<Rightarrow> int \<Rightarrow> int" where
  "running_total [] s v = v"
| "running_total (d # ds) s v = running_total ds (s + d) (v + (s + d))"

text \<open>What the orders could give up at a settlement: the contribution beyond what the claim pays.\<close>

fun order_losses :: "u64 \<Rightarrow> u16 \<Rightarrow> risk_order list \<Rightarrow> int \<Rightarrow> int option" where
  "order_losses k x [] pen = Some pen"
| "order_losses k x (r # rs) pen = do {
     s \<leftarrow> checked_mul 64 x k;
     l \<leftarrow> long_per_lot (ro_lo r) (ro_hi r) s k;
     pays \<leftarrow> (case ro_side r of Long \<Rightarrow> Some (int l)
       | Short \<Rightarrow> do { v \<leftarrow> set_value (ro_lo r) (ro_hi r) k; Some (int v - int l) });
     p \<leftarrow> times128 (int (ro_lots r)) (max (int (ro_c r) - pays) 0);
     pen \<leftarrow> plus128 pen p;
     order_losses k x rs pen }"

text \<open>
  \<open>step_least\<close>: the lots needed off the offsetting side, then the pairs that cost more than \<open>k\<close>. The rest of a side
  is the list from the entry the index is at, with the lots left of it.
\<close>

fun take_need :: "lots_at list \<Rightarrow> int \<Rightarrow> int \<Rightarrow> (int \<times> lots_at list) option" where
  "take_need [] open_lots tot = Some (tot, [])"
| "take_need ((c, left) # rest) open_lots tot =
     (if open_lots \<le> 0 then Some (tot, (c, left) # rest)
      else let q = min left open_lots in do {
        p \<leftarrow> times128 q c;
        tot \<leftarrow> plus128 tot (- p);
        if left - q = 0 then take_need rest (open_lots - q) tot else Some (tot, (c, left - q) # rest) })"

function pair_off :: "int \<Rightarrow> lots_at list \<Rightarrow> lots_at list \<Rightarrow> int \<Rightarrow> int option" where
  "pair_off k [] other tot = Some tot"
| "pair_off k (p # ps) [] tot = Some tot"
| "pair_off k ((a, left) # ps) ((b, right) # qs) tot =
     (let pair = k - a - b in
      if 0 \<le> pair then Some tot
      else let q = min left right in do {
        v \<leftarrow> times128 q pair;
        tot \<leftarrow> plus128 tot v;
        pair_off k (if left - q = 0 then ps else (a, left - q) # ps) (if right - q = 0 then qs else (b, right - q) # qs) tot })"
  by pat_completeness auto

termination
  by (relation "measure (\<lambda>(k, ps, qs, tot). length ps + length qs)") (auto simp: min_def)

definition step_least :: "lots_at list \<Rightarrow> lots_at list \<Rightarrow> int \<Rightarrow> int \<Rightarrow> int option" where
  "step_least offset other open_lots k = do {
     (tot, offset) \<leftarrow> take_need offset open_lots 0;
     pair_off k offset other tot }"

text \<open>The step's resting lots by side, costliest first. Equal costs may come in any order in the code.\<close>

definition costliest_first :: "lots_at list \<Rightarrow> lots_at list" where
  "costliest_first ps = sort_key (\<lambda>p. - fst p) ps"

definition on_step :: "u16 \<Rightarrow> side \<Rightarrow> risk_order list \<Rightarrow> lots_at list" where
  "on_step x sd rs = map (\<lambda>r. ((int (ro_c r) + (int (ro_hi r) - int (ro_lo r)) - 1) div (int (ro_hi r) - int (ro_lo r)), int (ro_lots r)))
     (filter (\<lambda>r. ro_side r = sd \<and> ro_lo r \<le> x \<and> x < ro_hi r) rs)"

definition exact_long :: "u16 \<Rightarrow> tier_lots \<Rightarrow> u64 list \<Rightarrow> risk_order list \<Rightarrow> lots_at list" where
  "exact_long x bids bp rs =
     (let tiers = map (\<lambda>(p, q). (int p, int q)) (filter (\<lambda>(p, q). 0 < q) (zip bp bids))
      in if \<exists>r\<in>set rs. ro_lo r \<le> x \<and> x < ro_hi r then costliest_first (tiers @ on_step x Long rs) else tiers)"

definition exact_short :: "int \<Rightarrow> u16 \<Rightarrow> tier_lots \<Rightarrow> u64 list \<Rightarrow> risk_order list \<Rightarrow> lots_at list" where
  "exact_short k x asks ap rs =
     (let tiers = map (\<lambda>(p, q). (k - int p, int q)) (filter (\<lambda>(p, q). 0 < q) (zip ap asks))
      in if \<exists>r\<in>set rs. ro_lo r \<le> x \<and> x < ro_hi r then costliest_first (tiers @ on_step x Short rs) else tiers)"

record exact_state =
  ex_l :: int
  ex_s :: int
  ex_own :: int
  ex_v :: int
  ex_least :: int
  ex_floor :: int
  ex_ask_backed :: int
  ex_bid_backed :: int
  ex_bid_escrow :: int
  ex_ask_escrow :: int

text \<open>The settlement at grid position \<open>x\<close>.\<close>

definition exact_position :: "u64 \<Rightarrow> u64 \<Rightarrow> risk_order list \<Rightarrow> u16 \<times> u16 \<Rightarrow> int \<Rightarrow> u16 \<Rightarrow> exact_state \<Rightarrow> exact_state option" where
  "exact_position k reserved rs band escrow_total x e = do {
     pen \<leftarrow> plus128 (ex_ask_backed e) (ex_bid_backed e);
     above \<leftarrow> plus128 escrow_total (- ex_bid_escrow e);
     pen \<leftarrow> plus128 pen above;
     pen \<leftarrow> plus128 pen (ex_ask_escrow e);
     pen \<leftarrow> order_losses k x rs pen;
     if fst band \<le> x \<and> x \<le> snd band then do {
       v \<leftarrow> times128 (ex_v e) (int k);
       v \<leftarrow> plus128 v (int reserved);
       v \<leftarrow> plus128 v (- pen);
       Some (e\<lparr>ex_least := min (ex_least e) v\<rparr>) }
     else Some e }"

text \<open>The step above it.\<close>

definition exact_advance :: "u64 \<Rightarrow> risk_ladder option \<Rightarrow> tier_lots \<times> tier_lots \<Rightarrow> risk_order list \<Rightarrow> bool \<Rightarrow> int list \<Rightarrow> int list \<Rightarrow> u16 \<Rightarrow>
    exact_state \<Rightarrow> exact_state option" where
  "exact_advance k lad sizes rs resting dl ds x e = do {
     l \<leftarrow> map_option ((+) (ex_l e)) (slot dl x);
     s \<leftarrow> map_option ((+) (ex_s e)) (slot ds x);
     w \<leftarrow> times128 (int k) (max l s);
     own \<leftarrow> plus128 (ex_own e) w;
     (bids, asks, bp, ap, stock) \<leftarrow> exact_step k lad sizes x;
     a \<leftarrow> backed_cost (zip asks (map (\<lambda>p. k - p) ap)) (long_inv stock) 0;
     ask_backed \<leftarrow> plus128 (ex_ask_backed e) a;
     b \<leftarrow> backed_cost (zip bids bp) (short_inv stock) 0;
     bid_backed \<leftarrow> plus128 (ex_bid_backed e) (- b);
     ae \<leftarrow> ladder_escrow asks (k - hd ap) (long_inv stock);
     ask_escrow \<leftarrow> plus128 (ex_ask_escrow e) ae;
     be \<leftarrow> ladder_escrow bids (hd bp) (short_inv stock);
     bid_escrow \<leftarrow> plus128 (ex_bid_escrow e) be;
     let e = e\<lparr>ex_l := l, ex_s := s, ex_own := own, ex_v := ex_v e + (l - s), ex_ask_backed := ask_backed,
       ex_bid_backed := bid_backed, ex_ask_escrow := ask_escrow, ex_bid_escrow := bid_escrow\<rparr>;
     if \<not> resting then Some e
     else let long = exact_long x bids bp rs; short = exact_short (int k) x asks ap rs in do {
       f \<leftarrow> (if s \<le> l then step_least short long (l - s) (int k) else step_least long short (s - l) (int k));
       fl \<leftarrow> plus128 (ex_floor e) f;
       Some (e\<lparr>ex_floor := fl\<rparr>) } }"

text \<open>The second pass, from a position to the last.\<close>

fun exact_walk :: "(u16 \<Rightarrow> exact_state \<Rightarrow> exact_state option) \<Rightarrow> (u16 \<Rightarrow> exact_state \<Rightarrow> exact_state option) \<Rightarrow> u16 \<Rightarrow> u16 list \<Rightarrow>
    exact_state \<Rightarrow> exact_state option" where
  "exact_walk position advance grid [] e = position grid e"
| "exact_walk position advance grid (x # xs) e = do {
     e \<leftarrow> position x e;
     e \<leftarrow> advance x e;
     exact_walk position advance grid xs e }"

definition risk_of :: "header \<Rightarrow> trader \<Rightarrow> int \<Rightarrow> int \<Rightarrow> int \<Rightarrow> credit_risk res" where
  "risk_of h tr least own below =
     Option.bind (plus128 (int (h_debt h) - int (tr_free tr)) (- least)) (\<lambda>lost.
     Option.bind (plus128 (int (tr_free tr) + int (tr_reserved tr)) own) (\<lambda>held.
     Option.bind (plus128 held below) (\<lambda>carry.
     andthen (try_u64 (max lost 0)) (\<lambda>exposure.
     Some (Inr \<lparr>cr_exposure = exposure, cr_carry = saturate 64 (nat (max carry 0))\<rparr>)))))"

definition final_risk :: "market \<Rightarrow> u16 \<Rightarrow> trader \<Rightarrow> credit_risk res" where
  "final_risk m t tr =
     andthen (trader_value m t) (\<lambda>(low, _).
     let h = m_head m; at_risk = h_debt h + tr_reserved tr;
         cash = (if credit_settled h then 0 else tr_free tr + tr_reserved tr) in
     andthen (try_u64 (int (at_risk - low))) (\<lambda>exposure.
     Some (Inr \<lparr>cr_exposure = exposure, cr_carry = saturate 64 (cash + h_backing h)\<rparr>)))"

definition exact_open :: "market \<Rightarrow> u16 \<Rightarrow> trader \<Rightarrow> bool \<Rightarrow> u16 \<times> u16 \<Rightarrow> exact_state option" where
  "exact_open m t tr resting band = (let h = m_head m; k = h_k h; grid = h_grid h in do {
     (dl, ds) \<leftarrow> claim_deltas t (m_claims m) (replicate (grid + 1) 0, replicate (grid + 1) 0);
     lad \<leftarrow> own_ladder m tr resting;
     sizes \<leftarrow> own_sizes lad;
     rs \<leftarrow> exact_orders m t resting;
     (dl, ds, held, escrow) \<leftarrow> (if lad = None then Some (dl, ds, 0, 0) else exact_inventory k lad sizes [0..<grid] (dl, ds, 0, 0));
     exact_walk (exact_position k (tr_reserved tr) rs band escrow) (exact_advance k lad sizes rs resting dl ds) grid [0..<grid]
       \<lparr>ex_l = 0, ex_s = 0, ex_own = 0, ex_v = running_total (take grid ds) 0 0, ex_least = 2 ^ 127 - 1, ex_floor = 0,
        ex_ask_backed = 0, ex_bid_backed = held, ex_bid_escrow = 0, ex_ask_escrow = 0\<rparr> })"

definition credit_risk_exact :: "market \<Rightarrow> u16 \<Rightarrow> bool \<Rightarrow> u16 \<times> u16 \<Rightarrow> credit_risk res" where
  "credit_risk_exact m t resting band =
     Option.bind (slot (m_traders m) t) (\<lambda>tr.
     if h_status (m_head m) \<noteq> STATUS_OPEN then final_risk m t tr
     else Option.bind (exact_open m t tr resting band) (\<lambda>e. risk_of (m_head m) tr (ex_least e) (ex_own e) (ex_floor e)))"

subsection \<open>One pass in 64 bits\<close>

definition FAST :: u64 where "FAST = 2 ^ 31"

definition fast :: "u64 \<Rightarrow> i64 res" where
  "fast v = (if v < FAST then Some (Inr (int v)) else Some (Inl Overflow))"

text \<open>Unchecked in the code; \<open>check64\<close> is a checked sum or difference.\<close>

definition fast_mul :: "i64 \<Rightarrow> i64 \<Rightarrow> i64" where
  "fast_mul a b = cast_int 64 (a * b)"

definition check64 :: "int \<Rightarrow> i64 res" where
  "check64 v = need Overflow (checked_int 64 v) (Some \<circ> Inr)"

definition as_i64 :: "u64 \<Rightarrow> i64" where
  "as_i64 v = cast_int 64 (int v)"

record fast_order =
  fo_long :: bool
  fo_lo :: u16
  fo_hi :: u16
  fo_lots :: i64
  fo_c :: i64
  fo_per :: i64
  fo_span :: "u64 \<times> u64"

definition div_up :: "u64 \<Rightarrow> u64 \<Rightarrow> u64 option" where
  "div_up a b = (if b = 0 then None else Some ((a + b - 1) div b))"

definition read_order :: "u64 \<Rightarrow> order \<Rightarrow> fast_order res" where
  "read_order k r =
     Option.bind (contribution (order_side r) (o_lo r) (o_hi r) (o_price r) k) (\<lambda>c.
     andthen (fast (o_lots r)) (\<lambda>lots.
     andthen (fast c) (\<lambda>fc.
     Option.bind (checked_sub (o_hi r) (o_lo r)) (\<lambda>w.
     Option.bind (div_up c w) (\<lambda>per.
     andthen (fast per) (\<lambda>per.
     Option.bind (checked_mul 64 (o_lo r) k) (\<lambda>lo_k.
     Option.bind (set_value (o_lo r) (o_hi r) k) (\<lambda>v.
     Some (Inr \<lparr>fo_long = (order_side r = Long), fo_lo = o_lo r, fo_hi = o_hi r, fo_lots = lots, fo_c = fc, fo_per = per,
       fo_span = (lo_k, v)\<rparr>)))))))))"

fun fast_orders :: "u64 \<Rightarrow> order list \<Rightarrow> fast_order list res" where
  "fast_orders k [] = Some (Inr [])"
| "fast_orders k (r # rs) = andthen (read_order k r) (\<lambda>q. andthen (fast_orders k rs) (\<lambda>qs. Some (Inr (q # qs))))"

text \<open>One side of a live ladder step.\<close>

record step_side =
  sd_sizes :: tier_lots
  sd_n :: usize
  sd_total :: u64
  sd_left :: u64
  sd_best :: i64
  sd_spread :: i64
  sd_sum :: u64

definition sd_any :: "step_side \<Rightarrow> bool" where
  "sd_any d \<longleftrightarrow> 0 < min (sd_left d) (if sd_n d = 1 then 2 ^ 64 - 1 else sd_total d)"

fun each_tier :: "i64 \<Rightarrow> u64 \<Rightarrow> i64 \<Rightarrow> tier_lots \<Rightarrow> lots_at list" where
  "each_tier gap filled price [] = []"
| "each_tier gap filled price (tier # sizes) =
     (let used = min filled tier; rest = each_tier gap (filled - used) (price - gap) sizes
      in if used < tier then (max price 0, as_i64 (tier - used)) # rest else rest)"

text \<open>\<open>each\<close>, as the list of what it passes on; \<open>list\<close> is the same list.\<close>

definition sd_each :: "step_side \<Rightarrow> lots_at list" where
  "sd_each d =
     (if sd_n d = 1 then (if 0 < sd_left d then [(max (sd_best d) 0, as_i64 (sd_left d))] else [])
      else each_tier (sd_spread d) (sd_total d - sd_left d) (sd_best d) (take (sd_n d) (sd_sizes d)))"

definition sd_lots :: "step_side \<Rightarrow> i64" where
  "sd_lots d =
     (if sd_n d = 1 then as_i64 (sd_left d)
      else let filled = sd_total d - sd_left d in as_i64 (sd_sum d - min filled (sd_sum d)))"

fun prefix_walk :: "lots_at list \<Rightarrow> i64 \<Rightarrow> i64 \<Rightarrow> i64 option" where
  "prefix_walk [] left tot = Some tot"
| "prefix_walk ((c, lots) # rest) left tot =
     (let q = min left lots in do {
        tot \<leftarrow> checked_int 64 (tot + fast_mul q c);
        if 0 < left - q then prefix_walk rest (left - q) tot else Some tot })"

definition sd_prefix :: "step_side \<Rightarrow> i64 \<Rightarrow> i64 option" where
  "sd_prefix d q = (if 0 < q then prefix_walk (sd_each d) q 0 else Some 0)"

fun merge_lots :: "lots_at list \<Rightarrow> lots_at list \<Rightarrow> lots_at list" where
  "merge_lots ts [] = ts"
| "merge_lots [] (o1 # os) = o1 # os"
| "merge_lots (t # ts) (o1 # os) = (if fst o1 \<le> fst t then t # merge_lots ts (o1 # os) else o1 # merge_lots (t # ts) os)"

definition merge_step :: "lots_at list \<Rightarrow> fast_order list \<Rightarrow> bool \<Rightarrow> u16 \<Rightarrow> lots_at list" where
  "merge_step tiers qs long x =
     merge_lots tiers (map (\<lambda>q. (fo_per q, fo_lots q)) (filter (\<lambda>q. fo_long q = long \<and> fo_lo q \<le> x \<and> x < fo_hi q) qs))"

fun take_need_fast :: "lots_at list \<Rightarrow> i64 \<Rightarrow> i64 \<Rightarrow> (i64 \<times> lots_at list) res" where
  "take_need_fast [] open_lots tot = Some (Inr (tot, []))"
| "take_need_fast ((c, left) # rest) open_lots tot =
     (if open_lots \<le> 0 then Some (Inr (tot, (c, left) # rest))
      else let q = min left open_lots in
        andthen (check64 (tot - fast_mul q c)) (\<lambda>tot.
        if left - q = 0 then take_need_fast rest (open_lots - q) tot else Some (Inr (tot, (c, left - q) # rest))))"

function pair_off_fast :: "i64 \<Rightarrow> lots_at list \<Rightarrow> lots_at list \<Rightarrow> i64 \<Rightarrow> i64 res" where
  "pair_off_fast k [] other tot = Some (Inr tot)"
| "pair_off_fast k (p # ps) [] tot = Some (Inr tot)"
| "pair_off_fast k ((a, left) # ps) ((b, right) # qs) tot =
     (let over = a + b - k in
      if over \<le> 0 then Some (Inr tot)
      else let q = min left right in
        andthen (check64 (tot - fast_mul q over)) (\<lambda>tot.
        pair_off_fast k (if left - q = 0 then ps else (a, left - q) # ps) (if right - q = 0 then qs else (b, right - q) # qs) tot))"
  by pat_completeness auto

termination
  by (relation "measure (\<lambda>(k, ps, qs, tot). length ps + length qs)") (auto simp: min_def)

definition step_least_fast :: "lots_at list \<Rightarrow> lots_at list \<Rightarrow> i64 \<Rightarrow> i64 \<Rightarrow> i64 res" where
  "step_least_fast offset other open_lots k = andthen (take_need_fast offset open_lots 0) (\<lambda>(tot, offset). pair_off_fast k offset other tot)"

record fast_state =
  fa_x_k :: u64
  fa_l :: i64
  fa_s :: i64
  fa_net_k :: i64
  fa_shorts :: i64
  fa_wide :: i64
  fa_ask_backed :: i64
  fa_bid_backed :: i64
  fa_bid_escrow :: i64
  fa_ask_escrow :: i64
  fa_least :: i64
  fa_floor :: i64

fun fast_losses :: "u64 \<Rightarrow> fast_order list \<Rightarrow> i64 \<Rightarrow> i64 res" where
  "fast_losses x_k [] g = Some (Inr g)"
| "fast_losses x_k (q # qs) g =
     (let (lo_k, v) = fo_span q; pays = min (x_k - lo_k) v; pays = (if fo_long q then pays else v - pays);
          lose = int (nat (fo_c q) - pays) in
      andthen (check64 (g - fast_mul (fo_lots q) lose)) (\<lambda>g. fast_losses x_k qs g))"

definition fast_position :: "fast_order list \<Rightarrow> u16 \<times> u16 \<Rightarrow> u16 \<Rightarrow> fast_state \<Rightarrow> fast_state res" where
  "fast_position qs band x a =
     andthen (check64 (fa_net_k a - fa_ask_backed a)) (\<lambda>g.
     andthen (check64 (g + fa_bid_backed a)) (\<lambda>g.
     andthen (check64 (g + fa_bid_escrow a)) (\<lambda>g.
     andthen (check64 (g - fa_ask_escrow a)) (\<lambda>g.
     andthen (fast_losses (fa_x_k a) qs g) (\<lambda>g.
     Some (Inr (if fst band \<le> x \<and> x \<le> snd band then a\<lparr>fa_least := min (fa_least a) g\<rparr> else a)))))))"

definition fast_sides :: "u64 \<Rightarrow> maker \<Rightarrow> tier_lots \<times> tier_lots \<Rightarrow> u64 \<times> u64 \<Rightarrow> step \<Rightarrow> (step_side \<times> step_side) res" where
  "fast_sides k mk sizes sums st =
     (let n = tiers_n (mk_tiers mk); gap = int (t_spread (mk_tiers mk)) in
      andthen (fast (st_bid st)) (\<lambda>best.
      andthen (if n = 1 then andthen (fast (st_bid_lots st)) (\<lambda>v. Some (Inr (nat v))) else Some (Inr (st_bid_lots st))) (\<lambda>bid_left.
      andthen (if n = 1 then andthen (fast (st_ask_lots st)) (\<lambda>v. Some (Inr (nat v))) else Some (Inr (st_ask_lots st))) (\<lambda>ask_left.
      Some (Inr
        (\<lparr>sd_sizes = fst sizes, sd_n = n, sd_total = mk_bid_total mk, sd_left = bid_left, sd_best = best, sd_spread = gap, sd_sum = fst sums\<rparr>,
         \<lparr>sd_sizes = snd sizes, sd_n = n, sd_total = mk_ask_total mk, sd_left = ask_left, sd_best = int k - int (st_ask st),
          sd_spread = gap, sd_sum = snd sums\<rparr>))))))"

text \<open>What the ladder adds at a step: its inventory, and its sides if it is live there.\<close>

definition fast_ladder :: "u64 \<Rightarrow> risk_ladder option \<Rightarrow> tier_lots \<times> tier_lots \<Rightarrow> u64 \<times> u64 \<Rightarrow> u16 \<Rightarrow>
    (i64 \<times> i64 \<times> (step_side \<times> step_side \<times> bool) option) res" where
  "fast_ladder k lad sizes sums x =
     (case lad of
        None \<Rightarrow> Some (Inr (0, 0, None))
      | Some l \<Rightarrow>
          Option.bind (slot (rl_steps l) x) (\<lambda>st.
          andthen (fast (nat \<bar>st_inv st\<bar>)) (\<lambda>stock.
          if rl_live l \<and> mk_lo (rl_maker l) \<le> x \<and> x < mk_hi (rl_maker l)
          then andthen (fast_sides k (rl_maker l) sizes sums st) (\<lambda>(bids, asks).
            Some (Inr (st_inv st, stock, Some (bids, asks, min (st_ask st) k < st_bid st))))
          else Some (Inr (st_inv st, stock, None)))))"

text \<open>What the lots of the ladder at the step could give up below it: held by its inventory, or from escrow.\<close>

definition fast_backing :: "i64 \<Rightarrow> i64 \<Rightarrow> (step_side \<times> step_side \<times> bool) option \<Rightarrow> fast_state \<Rightarrow> fast_state res" where
  "fast_backing net stock sides a =
     (case sides of
        None \<Rightarrow> Some (Inr a)
      | Some (bids, asks, _) \<Rightarrow>
          andthen (if 0 < net then Option.bind (sd_prefix asks stock) (\<lambda>p. check64 (fa_ask_backed a + p)) else Some (Inr (fa_ask_backed a))) (\<lambda>ask_backed.
          andthen (if net < 0 then Option.bind (sd_prefix bids stock) (\<lambda>p. check64 (fa_bid_backed a + p)) else Some (Inr (fa_bid_backed a))) (\<lambda>bid_backed.
          let ask_q = sd_lots asks - (if 0 < net then min (sd_lots asks) stock else 0);
              bid_q = sd_lots bids - (if net < 0 then min (sd_lots bids) stock else 0) in
          andthen (check64 (fa_bid_escrow a + fast_mul bid_q (max (sd_best bids) 0))) (\<lambda>bid_escrow.
          andthen (check64 (fa_ask_escrow a + fast_mul ask_q (max (sd_best asks) 0))) (\<lambda>ask_escrow.
          Some (Inr (a\<lparr>fa_ask_backed := ask_backed, fa_bid_backed := bid_backed, fa_bid_escrow := bid_escrow,
            fa_ask_escrow := ask_escrow\<rparr>)))))))"

text \<open>The least the fills of the step can add to what is held, less what they cost.\<close>

definition fast_least :: "i64 \<Rightarrow> fast_order list \<Rightarrow> (step_side \<times> step_side \<times> bool) option \<Rightarrow> u16 \<Rightarrow> i64 \<Rightarrow> i64 res" where
  "fast_least k qs sides x d =
     (case sides of
        Some (bids, asks, crosses) \<Rightarrow>
          if qs = [] then ensure Overflow (\<not> (crosses \<and> sd_any bids \<and> sd_any asks)) (
            Option.bind (if 0 \<le> d then sd_prefix asks d else sd_prefix bids (- d)) (\<lambda>p. Some (Inr (- p))))
          else let long = merge_step (sd_each bids) qs True x; short = merge_step (sd_each asks) qs False x in
            if 0 \<le> d then step_least_fast short long d k else step_least_fast long short (- d) k
      | None \<Rightarrow>
          let long = merge_step [] qs True x; short = merge_step [] qs False x in
          if 0 \<le> d then step_least_fast short long d k else step_least_fast long short (- d) k)"

text \<open>The lots the step has, claims and inventory.\<close>

definition fast_cover :: "u64 \<Rightarrow> risk_ladder option \<Rightarrow> tier_lots \<times> tier_lots \<Rightarrow> u64 \<times> u64 \<Rightarrow> int list \<Rightarrow> int list \<Rightarrow> u16 \<Rightarrow> fast_state \<Rightarrow>
    (fast_state \<times> i64 \<times> i64 \<times> (step_side \<times> step_side \<times> bool) option) res" where
  "fast_cover k lad sizes sums dl ds x a =
     Option.bind (slot dl x) (\<lambda>cl.
     Option.bind (slot ds x) (\<lambda>cs.
     andthen (check64 cl) (\<lambda>cl.
     andthen (check64 (fa_l a + cl)) (\<lambda>l.
     andthen (check64 cs) (\<lambda>cs.
     andthen (check64 (fa_s a + cs)) (\<lambda>s.
     andthen (fast_ladder k lad sizes sums x) (\<lambda>(net, stock, sides).
     andthen (if 0 < net then check64 (l + stock) else Some (Inr l)) (\<lambda>sl.
     andthen (if 0 < net then Some (Inr s) else check64 (s + stock)) (\<lambda>ss.
     andthen (fast_backing net stock sides a) (\<lambda>a.
     Some (Inr (a\<lparr>fa_l := l, fa_s := s\<rparr>, sl, ss, sides))))))))))))"

definition fast_count :: "u64 \<Rightarrow> fast_order list \<Rightarrow> bool \<Rightarrow> u16 \<Rightarrow> fast_state \<Rightarrow> i64 \<Rightarrow> i64 \<Rightarrow> (step_side \<times> step_side \<times> bool) option \<Rightarrow>
    fast_state res" where
  "fast_count k qs resting x a sl ss sides =
     andthen (check64 (fa_wide a + max sl ss)) (\<lambda>wide.
     andthen (check64 (fa_shorts a + ss)) (\<lambda>shorts.
     Option.bind (checked_int 64 (sl - ss)) (\<lambda>d.
     andthen (fast (nat \<bar>d\<bar>)) (\<lambda>_.
     andthen (check64 (fa_net_k a + fast_mul d (int k))) (\<lambda>net_k.
     let a = a\<lparr>fa_wide := wide, fa_shorts := shorts, fa_net_k := net_k\<rparr> in
     if \<not> resting then Some (Inr a)
     else andthen (fast_least (int k) qs sides x d) (\<lambda>f.
       andthen (check64 (fa_floor a + f)) (\<lambda>fl.
       Some (Inr (a\<lparr>fa_floor := fl\<rparr>)))))))))"

definition fast_advance :: "u64 \<Rightarrow> risk_ladder option \<Rightarrow> tier_lots \<times> tier_lots \<Rightarrow> u64 \<times> u64 \<Rightarrow> fast_order list \<Rightarrow> bool \<Rightarrow> int list \<Rightarrow>
    int list \<Rightarrow> u16 \<Rightarrow> fast_state \<Rightarrow> fast_state res" where
  "fast_advance k lad sizes sums qs resting dl ds x a =
     Option.bind (checked_add 64 (fa_x_k a) k) (\<lambda>x_k.
     andthen (fast_cover k lad sizes sums dl ds x a) (\<lambda>(a, sl, ss, sides).
     fast_count k qs resting x (a\<lparr>fa_x_k := x_k\<rparr>) sl ss sides))"

fun fast_walk :: "(u16 \<Rightarrow> fast_state \<Rightarrow> fast_state res) \<Rightarrow> (u16 \<Rightarrow> fast_state \<Rightarrow> fast_state res) \<Rightarrow> u16 \<Rightarrow> u16 list \<Rightarrow> fast_state \<Rightarrow>
    fast_state res" where
  "fast_walk position advance grid [] a = position grid a"
| "fast_walk position advance grid (x # xs) a =
     andthen (position x a) (\<lambda>a. andthen (advance x a) (\<lambda>a. fast_walk position advance grid xs a))"

definition live_totals :: "risk_ladder option \<Rightarrow> unit res" where
  "live_totals lad = (case lad of
     None \<Rightarrow> Some (Inr ())
   | Some l \<Rightarrow> if rl_live l then andthen (fast (mk_bid_total (rl_maker l))) (\<lambda>_. andthen (fast (mk_ask_total (rl_maker l))) (\<lambda>_. Some (Inr ())))
       else Some (Inr ()))"

definition tier_sum :: "nat \<Rightarrow> tier_lots \<Rightarrow> u64" where
  "tier_sum n sizes = saturate 64 (sum_list (take n sizes))"

definition fast_open :: "market \<Rightarrow> u16 \<Rightarrow> trader \<Rightarrow> bool \<Rightarrow> u16 \<times> u16 \<Rightarrow> fast_state res" where
  "fast_open m t tr resting band = (let h = m_head m; k = h_k h; grid = h_grid h in
     andthen (fast k) (\<lambda>_.
     Option.bind (claim_deltas t (m_claims m) (replicate (grid + 1) 0, replicate (grid + 1) 0)) (\<lambda>(dl, ds).
     Option.bind (own_ladder m tr resting) (\<lambda>lad.
     andthen (live_totals lad) (\<lambda>_.
     Option.bind (own_sizes lad) (\<lambda>sizes.
     andthen (if resting then fast_orders k (own_orders t (m_orders m)) else Some (Inr [])) (\<lambda>qs.
     let qs = sort_key (\<lambda>q. - fo_per q) qs; n = ladder_n lad; sums = (tier_sum n (fst sizes), tier_sum n (snd sizes)) in
     fast_walk (fast_position qs band) (fast_advance k lad sizes sums qs resting dl ds) grid [0..<grid]
       \<lparr>fa_x_k = 0, fa_l = 0, fa_s = 0, fa_net_k = 0, fa_shorts = 0, fa_wide = 0, fa_ask_backed = 0, fa_bid_backed = 0,
        fa_bid_escrow = 0, fa_ask_escrow = 0, fa_least = 2 ^ 63 - 1, fa_floor = 0\<rparr>)))))))"

definition credit_risk_fast :: "market \<Rightarrow> u16 \<Rightarrow> bool \<Rightarrow> u16 \<times> u16 \<Rightarrow> credit_risk res" where
  "credit_risk_fast m t resting band =
     Option.bind (slot (m_traders m) t) (\<lambda>tr.
     andthen (fast_open m t tr resting band) (\<lambda>a.
     let k = int (h_k (m_head m)) in
     risk_of (m_head m) tr (fa_least a + fa_shorts a * k - fa_bid_backed a + int (tr_reserved tr) - fa_bid_escrow a)
       (fa_wide a * k) (fa_floor a)))"

subsection \<open>What the instructions ask\<close>

definition credit_risk_in_range :: "market \<Rightarrow> u16 \<Rightarrow> bool \<Rightarrow> u16 \<times> u16 \<Rightarrow> credit_risk res" where
  "credit_risk_in_range m t resting band =
     ensure Overflow (fst band \<le> snd band \<and> snd band \<le> h_grid (m_head m)) (
     if h_status (m_head m) = STATUS_OPEN
     then (case credit_risk_fast m t resting band of
        Some (Inl e) \<Rightarrow> credit_risk_exact m t resting band
      | r \<Rightarrow> r)
     else credit_risk_exact m t resting band)"

text \<open>The full-grid assessment, or the approved bound where it is lower.\<close>

definition credit_risk_of :: "market \<Rightarrow> u16 \<Rightarrow> bool \<Rightarrow> credit_risk res" where
  "credit_risk_of m t resting =
     andthen (credit_risk_in_range m t resting (0, h_grid (m_head m))) (\<lambda>r.
     Option.bind (slot (m_traders m) t) (\<lambda>tr.
     Some (Inr (if h_status (m_head m) = STATUS_OPEN \<and> tr_owner tr = h_credit_owner (m_head m)
       then (case m_approval m of Some approved \<Rightarrow> r\<lparr>cr_exposure := min (cr_exposure r) approved\<rparr> | None \<Rightarrow> r)
       else r))))"

definition credit_exposure :: "market \<Rightarrow> u16 \<Rightarrow> u64 res" where
  "credit_exposure m t = andthen (credit_risk_of m t True) (\<lambda>r. Some (Inr (cr_exposure r)))"

definition credit_admits :: "market \<Rightarrow> u16 \<Rightarrow> bool res" where
  "credit_admits m t =
     Option.bind (slot (m_traders m) t) (\<lambda>tr.
     let h = m_head m in
     if h_debt h = 0 \<or> \<not> has_credit h \<or> credit_settled h \<or> h_status h \<noteq> STATUS_OPEN \<or> tr_owner tr \<noteq> h_credit_owner h
     then Some (Inr True)
     else andthen (credit_risk_of m t True) (\<lambda>r. Some (Inr (cr_exposure r \<le> h_credit_limit h \<and> h_debt h \<le> cr_carry r))))"

end
