(* ===== verification/Trading.thy ===== *)
theory Trading
  imports Credit_Risk
begin

text \<open>
  The instructions that trade, from \<open>programs/futures/src/processor.rs\<close>: \<open>submit\<close> verifies a package against the
  complete book and executes it, \<open>quote\<close> posts a ladder. The head of a maker, which the code reads
  once per ladder, does not change while the fills execute, so it is read for each of them here. Logs and return data are left out.
\<close>

definition MODE_IOC :: u8 where "MODE_IOC = 0"
definition MODE_GTC :: u8 where "MODE_GTC = 1"
definition MODE_POST :: u8 where "MODE_POST = 2"
definition WORK_LIMIT :: u64 where "WORK_LIMIT = 30000"
definition MAX_LADDER_STEPS :: u16 where "MAX_LADDER_STEPS = 256"
definition MAX_BOOK_LADDER_ARCS :: usize where "MAX_BOOK_LADDER_ARCS = 1024"

record submit_params =
  sb_side :: u8
  sb_lo :: u16
  sb_hi :: u16
  sb_lots :: u64
  sb_limit :: u64
  sb_min_fill :: u64
  sb_mode :: u8
  sb_close_claim :: u32
  sb_close_seq :: u64

definition to_u64 :: "i128 \<Rightarrow> u64 res" where
  "to_u64 v = (if 0 \<le> v \<and> v < 2 ^ 64 then Some (Inr (nat v)) else Some (Inl Overflow))"

definition side_of :: "u8 \<Rightarrow> side res" where
  "side_of v = need InvalidShape (from_u8 v) (Some \<circ> Inr)"

definition tradable :: "header \<Rightarrow> pubkey \<Rightarrow> period res \<Rightarrow> u64 \<Rightarrow> unit res" where
  "tradable h period_key loaded now =
     ensure NotTradable (h_status h = STATUS_OPEN \<and> period_key = h_period h) (
     andthen loaded (\<lambda>p.
     ensure NotTradable (is_tradable_at p now) (Some (Inr ()))))"

definition check_shape :: "header \<Rightarrow> u16 \<Rightarrow> u16 \<Rightarrow> unit res" where
  "check_shape h lo hi = ensure InvalidShape (lo < hi \<and> hi \<le> h_grid h) (Some (Inr ()))"

fun submit_error :: "verify_error \<Rightarrow> futures_error" where
  "submit_error Potentials = BadProposal"
| "submit_error (Capacity _) = ErrUnbalanced"
| "submit_error (Unbalanced _) = ErrUnbalanced"
| "submit_error (Price _) = NotBestPrice"
| "submit_error Quantity = NotMaxFill"
| "submit_error (Fifo _) = FifoViolation"
| "submit_error Work = SearchLimit"

fun quote_error :: "verify_error \<Rightarrow> futures_error" where
  "quote_error (Price _) = WouldCross"
| "quote_error (Fifo _) = WouldCross"
| "quote_error e = submit_error e"

definition verified :: "(verify_error \<Rightarrow> futures_error) \<Rightarrow> (verify_error + u64) option \<Rightarrow> unit res" where
  "verified err v = Option.bind v (\<lambda>r. case r of Inl e \<Rightarrow> Some (Inl (err e)) | Inr _ \<Rightarrow> Some (Inr ()))"

subsection \<open>Credit\<close>

definition check_credit :: "market \<Rightarrow> u16 \<Rightarrow> u64 option \<Rightarrow> market res" where
  "check_credit m t approval =
     Option.bind (trader_of m t) (\<lambda>tr.
     let h = m_head m in
     if \<not> has_credit h \<or> tr_owner tr \<noteq> h_credit_owner h then Some (Inr m)
     else if h_debt h = 0 \<or> credit_settled h \<or> h_status h \<noteq> STATUS_OPEN then Some (Inr (set_approval m 0))
     else
       andthen (credit_risk_in_range m t True (0, h_grid h)) (\<lambda>r.
       let exposure = (case approval of Some x \<Rightarrow> x | None \<Rightarrow> cr_exposure r) in
       ensure CreditLimit (exposure \<le> h_credit_limit h \<and> h_debt h \<le> cr_carry r) (
       Some (Inr (set_approval m exposure)))))"

definition assert_credit :: "market \<Rightarrow> u16 \<Rightarrow> unit res" where
  "assert_credit m t =
     Option.bind (trader_of m t) (\<lambda>tr.
     let h = m_head m in
     if h_debt h = 0 \<or> \<not> has_credit h \<or> tr_owner tr \<noteq> h_credit_owner h then Some (Inr ())
     else
       andthen (credit_risk_of m t False) (\<lambda>r.
       ensure CreditLimit (cr_exposure r \<le> h_credit_limit h \<and> h_debt h \<le> cr_carry r) (Some (Inr ()))))"

subsection \<open>Fills\<close>

text \<open>An order placed before slots were held takes hold of where its fill went.\<close>

definition hold_fill :: "market \<Rightarrow> order \<Rightarrow> u32 option \<Rightarrow> (market \<times> order) option" where
  "hold_fill m r placed =
     (case placed of
        None \<Rightarrow> Some (m, r)
      | Some i \<Rightarrow> do {
          c \<leftarrow> claim_slot m i;
          Some (if 0 < c_lots c \<and> \<not> c_held c \<and> c_trader c = o_trader r \<and> c_side c = o_side r \<and> c_lo c = o_lo r \<and> c_hi c = o_hi r
            then (put_claim m i (c\<lparr>c_held := True\<rparr>), r\<lparr>o_claim := i\<rparr>) else (m, r)) })"

definition finish_order :: "market \<Rightarrow> u16 \<Rightarrow> order \<Rightarrow> market option" where
  "finish_order m i r =
     (if o_lots r = 0 then do {
        m \<leftarrow> (if \<not> closes r \<and> o_claim r \<noteq> NO_CLAIM then release_hold m (o_claim r) else Some m);
        uncount_order (put_order m i order_default) (o_trader r) }
      else Some (put_order m i r))"

definition fill_claim :: "order \<Rightarrow> u64 \<Rightarrow> u64 \<Rightarrow> u64 \<Rightarrow> claim" where
  "fill_claim r lots c now = claim_default\<lparr>c_lots := lots, c_trader := o_trader r, c_side := o_side r, c_lo := o_lo r,
     c_hi := o_hi r, c_cost := c, c_opened_ts := now\<rparr>"

text \<open>The fill of a close order nets against the claim it reserves and pays from the redemption.\<close>

definition fill_close :: "market \<Rightarrow> order \<Rightarrow> u64 \<Rightarrow> u64 \<Rightarrow> u64 \<Rightarrow> market res" where
  "fill_close m r lots c now =
     andthen (add_u64 (h_backing (m_head m)) c) (\<lambda>backing.
     andthen (place (m\<lparr>m_head := (m_head m)\<lparr>h_backing := backing\<rparr>\<rparr>) (fill_claim r lots c now) (Some (o_claim r, True)) None)
       (\<lambda>(m, _).
     debit_free m (o_trader r) c))"

definition fill_open :: "market \<Rightarrow> order \<Rightarrow> u64 \<Rightarrow> u64 \<Rightarrow> u64 \<Rightarrow> (market \<times> order) res" where
  "fill_open m r lots c now =
     andthen (mul_u64 lots (o_escrow_per_lot r)) (\<lambda>escrow.
     ensure Insolvent (escrow = c) (
     andthen (reserved_to_backing m (o_trader r) c) (\<lambda>m.
     if o_claim r \<noteq> NO_CLAIM
     then andthen (place m (fill_claim r lots c now) None (Some (o_claim r))) (\<lambda>(m, _). Some (Inr (m, r)))
     else andthen (place m (fill_claim r lots c now) None None) (\<lambda>(m, placed).
       Option.bind (hold_fill m r placed) (\<lambda>x. Some (Inr x))))))"

definition fill_order :: "market \<Rightarrow> u16 \<Rightarrow> u64 \<Rightarrow> u64 \<Rightarrow> u64 \<Rightarrow> market res" where
  "fill_order m i lots c now =
     Option.bind (slot (m_orders m) i) (\<lambda>r.
     need ErrUnbalanced (checked_sub (o_lots r) lots) (\<lambda>left.
     let r = r\<lparr>o_lots := left\<rparr> in
     andthen (if closes r then andthen (fill_close m r lots c now) (\<lambda>m. Some (Inr (m, r))) else fill_open m r lots c now)
       (\<lambda>(m, r).
     Option.bind (finish_order m i r) (\<lambda>m. Some (Inr m)))))"

text \<open>A tier of a step fills: the step it leaves, and the lots netted against opposite inventory.\<close>

definition step_filled :: "side \<Rightarrow> u64 \<Rightarrow> step \<Rightarrow> (step \<times> u64) res" where
  "step_filled sd lots st =
     (let held = st_inv st in
      ensure Overflow (lots < 2 ^ 63) (
      case sd of
        Long \<Rightarrow>
          Option.bind (checked_sub (st_bid_lots st) lots) (\<lambda>left.
          need Overflow (checked_int 64 (held + int lots)) (\<lambda>holds.
          Some (Inr (st\<lparr>st_bid_lots := left, st_inv := holds\<rparr>, if held < 0 then min lots (nat \<bar>held\<bar>) else 0))))
      | Short \<Rightarrow>
          Option.bind (checked_sub (st_ask_lots st) lots) (\<lambda>left.
          need Overflow (checked_int 64 (held - int lots)) (\<lambda>holds.
          Some (Inr (st\<lparr>st_ask_lots := left, st_inv := holds\<rparr>, if 0 < held then min lots (nat \<bar>held\<bar>) else 0))))))"

definition fill_step :: "market \<Rightarrow> u8 \<Rightarrow> u16 \<Rightarrow> side \<Rightarrow> u8 \<Rightarrow> u64 \<Rightarrow> (market \<times> u64) res" where
  "fill_step m i x sd tier lots =
     Option.bind (slot (m_makers m) i) (\<lambda>mk.
     Option.bind (maker_sizes mk) (\<lambda>sizes.
     Option.bind (slot (m_steps m) i) (\<lambda>ss.
     Option.bind (slot ss x) (\<lambda>st.
     let rem = (case sd of Long \<Rightarrow> fst (step_lots mk sizes st) | Short \<Rightarrow> snd (step_lots mk sizes st)) in
     ensure ErrUnbalanced (tier < tiers_n (mk_tiers mk) \<and> lots \<le> rem ! tier \<and> (\<forall>r\<in>set (take tier rem). r = 0)) (
     andthen (step_filled sd lots st) (\<lambda>(st, netted).
     Some (Inr (put_steps m i (ss[x := st]), netted))))))))"

record tally =
  ta_resting :: i128
  ta_net_cost :: i128
  ta_short_sets :: i128
  ta_makers :: "(u8 \<times> u64 \<times> u64 \<times> u64) list"
  ta_credit_filled :: bool

fun tally_maker :: "(u8 \<times> u64 \<times> u64 \<times> u64) list \<Rightarrow> u8 \<Rightarrow> u64 \<times> u64 \<times> u64 \<Rightarrow> (u8 \<times> u64 \<times> u64 \<times> u64) list res" where
  "tally_maker [] i (e, b, n) = Some (Inr [(i, e, b, n)])"
| "tally_maker ((j, e', b', n') # rest) i (e, b, n) =
     (if j = i
      then andthen (add_u64 e' e) (\<lambda>e. andthen (add_u64 b' b) (\<lambda>b. andthen (add_u64 n' n) (\<lambda>n. Some (Inr ((j, e, b, n) # rest)))))
      else andthen (tally_maker rest i (e, b, n)) (\<lambda>rest. Some (Inr ((j, e', b', n') # rest))))"

definition arc_trader :: "market \<Rightarrow> arc \<Rightarrow> u16 option" where
  "arc_trader m a =
     (case a_id a of
        Order i \<Rightarrow> map_option o_trader (slot (m_orders m) i)
      | Maker i _ _ _ \<Rightarrow> map_option mk_trader (slot (m_makers m) i))"

definition fill_arc :: "market \<Rightarrow> arc \<Rightarrow> u64 \<Rightarrow> u64 \<Rightarrow> u64 \<Rightarrow> (u8 \<times> u64 \<times> u64 \<times> u64) list \<Rightarrow>
    (market \<times> (u8 \<times> u64 \<times> u64 \<times> u64) list) res" where
  "fill_arc m a lots c now makers =
     (case a_id a of
        Order i \<Rightarrow> andthen (fill_order m i lots c now) (\<lambda>m. Some (Inr (m, makers)))
      | Maker i x sd tier \<Rightarrow>
          andthen (fill_step m i x sd tier lots) (\<lambda>(m, netted).
          andthen (mul_u64 netted (c div lots)) (\<lambda>backed.
          andthen (sub_u64 c backed) (\<lambda>escrowed.
          andthen (tally_maker makers i (escrowed, backed, netted)) (\<lambda>makers.
          Some (Inr (m, makers)))))))"

text \<open>The sums, kept in 128 bits.\<close>

definition tally_arc :: "u64 \<Rightarrow> arc \<Rightarrow> u64 \<Rightarrow> u64 \<Rightarrow> tally \<Rightarrow> tally option" where
  "tally_arc k a lots c ta = do {
     resting \<leftarrow> checked_int 128 (ta_resting ta + int c);
     p \<leftarrow> cost a;
     q \<leftarrow> checked_int 128 (p * int lots);
     net \<leftarrow> checked_int 128 (ta_net_cost ta + q);
     sets \<leftarrow> (if a_side a = Short then do {
         v \<leftarrow> set_value (a_lo a) (a_hi a) k;
         s \<leftarrow> checked_int 128 (int v * int lots);
         checked_int 128 (ta_short_sets ta + s) }
       else Some (ta_short_sets ta));
     Some (ta\<lparr>ta_resting := resting, ta_net_cost := net, ta_short_sets := sets\<rparr>) }"

fun fill_arcs :: "u16 option \<Rightarrow> u64 \<Rightarrow> market \<Rightarrow> (arc \<times> u64) list \<Rightarrow> tally \<Rightarrow> (market \<times> tally) res" where
  "fill_arcs credit_slot now m [] ta = Some (Inr (m, ta))"
| "fill_arcs credit_slot now m ((a, lots) # rest) ta =
     (if lots = 0 then fill_arcs credit_slot now m rest ta
      else
        let ta = ta\<lparr>ta_credit_filled := ta_credit_filled ta \<or> (credit_slot \<noteq> None \<and> arc_trader m a = credit_slot)\<rparr> in
        Option.bind (contribution (a_side a) (a_lo a) (a_hi a) (a_price a) (h_k (m_head m))) (\<lambda>per.
        andthen (mul_u64 lots per) (\<lambda>c.
        Option.bind (tally_arc (h_k (m_head m)) a lots c ta) (\<lambda>ta.
        andthen (fill_arc m a lots c now (ta_makers ta)) (\<lambda>(m, makers).
        fill_arcs credit_slot now m rest (ta\<lparr>ta_makers := makers\<rparr>))))))"

text \<open>A ladder pays for its fills: escrowed lots from its escrow, netted ones from the sets they redeem.\<close>

definition pay_ladder :: "market \<Rightarrow> u8 \<times> u64 \<times> u64 \<times> u64 \<Rightarrow> market res" where
  "pay_ladder m x = (case x of (i, escrowed, backed, netted) \<Rightarrow>
     Option.bind (slot (m_makers m) i) (\<lambda>mk.
     need Insolvent (checked_sub (mk_escrow mk) escrowed) (\<lambda>escrow.
     andthen (reserved_to_backing (put_maker m i (mk\<lparr>mk_escrow := escrow\<rparr>)) (mk_trader mk) escrowed) (\<lambda>m.
     andthen (add_u64 (h_backing (m_head m)) backed) (\<lambda>backing.
     let m = m\<lparr>m_head := (m_head m)\<lparr>h_backing := backing\<rparr>\<rparr> in
     andthen (if 0 < netted
              then andthen (mul_u64 netted (h_k (m_head m))) (\<lambda>cash. backing_to_free m (mk_trader mk) cash)
              else Some (Inr m)) (\<lambda>m.
     debit_free m (mk_trader mk) backed))))))"

fun pay_ladders :: "market \<Rightarrow> (u8 \<times> u64 \<times> u64 \<times> u64) list \<Rightarrow> market res" where
  "pay_ladders m [] = Some (Inr m)"
| "pay_ladders m (x # xs) = andthen (pay_ladder m x) (\<lambda>m. pay_ladders m xs)"

subsection \<open>The taker\<close>

definition taker_claim :: "submit_params \<Rightarrow> u16 \<Rightarrow> u64 \<Rightarrow> u64 \<Rightarrow> u64 \<Rightarrow> claim" where
  "taker_claim p t filled paid now = claim_default\<lparr>c_lots := filled, c_trader := t, c_side := sb_side p, c_lo := sb_lo p,
     c_hi := sb_hi p, c_cost := paid, c_opened_ts := now\<rparr>"

text \<open>The taker pays what is missing of the new sets, or is refunded what is over.\<close>

definition back_sets :: "market \<Rightarrow> u16 \<Rightarrow> i128 \<Rightarrow> market res" where
  "back_sets m t paid =
     (if 0 \<le> paid
      then andthen (to_u64 paid) (\<lambda>p.
        andthen (add_u64 (h_backing (m_head m)) p) (\<lambda>backing.
        Some (Inr (m\<lparr>m_head := (m_head m)\<lparr>h_backing := backing\<rparr>\<rparr>))))
      else andthen (to_u64 (- paid)) (\<lambda>p. backing_to_free m t p))"

definition pay_taken :: "market \<Rightarrow> u16 \<Rightarrow> i128 \<Rightarrow> u64 \<Rightarrow> market res" where
  "pay_taken m t paid now =
     (if 0 < paid
      then andthen (to_u64 paid) (\<lambda>p.
        andthen (fund m t p now) (\<lambda>(m, _).
        debit_free m t p))
      else Some (Inr m))"

definition count_trade :: "market \<Rightarrow> submit_params \<Rightarrow> u64 \<Rightarrow> i128 \<Rightarrow> u64 \<Rightarrow> market res" where
  "count_trade m p filled premium now =
     (let h = m_head m in
      Option.bind (checked_add 64 (h_trades h) 1) (\<lambda>trades.
      andthen (add_u64 (h_volume_lots h) filled) (\<lambda>lots.
      Option.bind (checked_mul 64 (sb_lo p) (h_k h)) (\<lambda>base.
      andthen (to_u64 (max premium 0)) (\<lambda>paid.
      Option.bind (checked_add 64 base (paid div filled)) (\<lambda>entry.
      Some (Inr (m\<lparr>m_head := h\<lparr>h_trades := trades, h_volume_lots := lots,
        h_volume_premium := saturate 128 (h_volume_premium h + nat \<bar>premium\<bar>), h_last_entry_fine := entry,
        h_last_trade_ts := now\<rparr>\<rparr>))))))))"

definition take_fill :: "market \<Rightarrow> submit_params \<Rightarrow> side \<Rightarrow> u16 \<Rightarrow> u32 option \<Rightarrow> u64 \<Rightarrow> u64 \<Rightarrow> tally \<Rightarrow> u64 \<Rightarrow>
    (market \<times> u32 option) res" where
  "take_fill m p sd t close filled width ta now =
     Option.bind (case sd of Long \<Rightarrow> Some (ta_net_cost ta) | Short \<Rightarrow> checked_int 128 (- ta_net_cost ta)) (\<lambda>premium.
     if filled = 0 then Some (Inr (m, None))
     else
       Option.bind (if sd = Short then Option.bind (checked_int 128 (int width * int filled)) (\<lambda>s. checked_int 128 (ta_short_sets ta + s))
                    else Some (ta_short_sets ta)) (\<lambda>sets.
       Option.bind (checked_int 128 (sets - ta_resting ta)) (\<lambda>paid.
       Option.bind (checked_int 128 (int (sb_limit p) * int filled)) (\<lambda>bound.
       ensure LimitExceeded (case sd of Long \<Rightarrow> premium \<le> bound | Short \<Rightarrow> bound \<le> premium) (
       andthen (to_u64 (max paid 0)) (\<lambda>spent.
       andthen (back_sets m t paid) (\<lambda>m.
       andthen (place m (taker_claim p t filled spent now) (map_option (\<lambda>c. (c, False)) close) None) (\<lambda>(m, taken).
       andthen (pay_taken m t paid now) (\<lambda>m.
       andthen (count_trade m p filled premium now) (\<lambda>m.
       Some (Inr (m, taken))))))))))))"

definition resting_order :: "submit_params \<Rightarrow> u16 \<Rightarrow> u64 \<Rightarrow> u64 \<Rightarrow> u64 \<Rightarrow> u64 \<Rightarrow> order" where
  "resting_order p t left seq per now = \<lparr>o_seq = seq, o_trader = t, o_side = sb_side p, o_flags = 0, o_lo = sb_lo p,
     o_hi = sb_hi p, o_lots = left, o_price = sb_limit p, o_escrow_per_lot = per, o_claim = NO_CLAIM, o_placed_lots = left,
     o_placed_ts = now\<rparr>"

text \<open>A close order reserves lots of its claim; an opening order holds the slot its fills go to.\<close>

definition bind_order :: "market \<Rightarrow> order \<Rightarrow> u32 option \<Rightarrow> u32 option \<Rightarrow> (market \<times> order) res" where
  "bind_order m r close taken =
     (case close of
        Some c \<Rightarrow>
          Option.bind (claim_slot m c) (\<lambda>cl.
          ensure ClaimReserved (c_lots cl \<noteq> 0) (
          Option.bind (checked_sub (c_lots cl) (c_reserved cl)) (\<lambda>usable.
          ensure ClaimReserved (o_lots r \<le> usable) (
          Option.bind (checked_add 64 (c_reserved cl) (o_lots r)) (\<lambda>reserved.
          Some (Inr (put_claim m c (cl\<lparr>c_reserved := reserved\<rparr>), r\<lparr>o_escrow_per_lot := 0, o_flags := ORDER_CLOSE, o_claim := c\<rparr>)))))))
      | None \<Rightarrow> andthen (take_hold m r taken) (\<lambda>(m, i). Some (Inr (m, r\<lparr>o_claim := i\<rparr>))))"

definition count_order :: "market \<Rightarrow> u16 \<Rightarrow> market option" where
  "count_order m t = do {
     tr \<leftarrow> trader_of m t;
     orders \<leftarrow> checked_add 16 (tr_orders tr) 1;
     Some (put_trader m t (tr\<lparr>tr_orders := orders\<rparr>)) }"

definition rest_order :: "market \<Rightarrow> submit_params \<Rightarrow> side \<Rightarrow> u16 \<Rightarrow> u32 option \<Rightarrow> u64 \<Rightarrow> u32 option \<Rightarrow> u64 \<Rightarrow> u64 \<Rightarrow> market res" where
  "rest_order m p sd t close left taken seq now =
     need OrderCapacity (find (\<lambda>i. o_seq (m_orders m ! i) = 0) [0..<length (m_orders m)]) (\<lambda>i.
     Option.bind (contribution sd (sb_lo p) (sb_hi p) (sb_limit p) (h_k (m_head m))) (\<lambda>per.
     andthen (bind_order m (resting_order p t left seq per now) close taken) (\<lambda>(m, r).
     andthen (mul_u64 left (o_escrow_per_lot r)) (\<lambda>escrow.
     andthen (fund m t escrow now) (\<lambda>(m, _).
     andthen (reserve m t escrow) (\<lambda>m.
     Option.bind (count_order (put_order m i r) t) (\<lambda>m.
     Some (Inr m))))))))"

definition close_of :: "market \<Rightarrow> submit_params \<Rightarrow> u16 \<Rightarrow> u32 option res" where
  "close_of m p t =
     (if sb_close_claim p = NO_CLAIM then Some (Inr None)
      else
        andthen (owned_claim m (sb_close_claim p) (sb_close_seq p) t) (\<lambda>c.
        ensure NotComplement (\<not> (c_side c = sb_side p \<or> c_lo c \<noteq> sb_lo p \<or> c_hi c \<noteq> sb_hi p)) (
        Option.bind (checked_sub (c_lots c) (c_reserved c)) (\<lambda>usable.
        ensure ClaimReserved (sb_lots p \<le> usable) (
        Some (Inr (Some (sb_close_claim p))))))))"

definition no_tally :: tally where
  "no_tally = \<lparr>ta_resting = 0, ta_net_cost = 0, ta_short_sets = 0, ta_makers = [], ta_credit_filled = False\<rparr>"

definition credit_slot_of :: "market \<Rightarrow> u16 option" where
  "credit_slot_of m =
     (let h = m_head m in if has_credit h \<and> \<not> credit_settled h then find_trader m (h_credit_owner h) else None)"

text \<open>A verified package executes: the resting fills, the ladders' payments, the taker, and what rests of its order.\<close>

definition execute :: "market \<Rightarrow> submit_params \<Rightarrow> side \<Rightarrow> u64 \<Rightarrow> u16 \<Rightarrow> u32 option \<Rightarrow> (arc \<times> u64) list \<Rightarrow> u64 \<Rightarrow>
    u64 option \<Rightarrow> u64 \<Rightarrow> market res" where
  "execute m p sd width t close fills filled approval now =
     andthen (next_seq m) (\<lambda>(m, seq).
     let credit_slot = credit_slot_of m in
     andthen (fill_arcs credit_slot now m fills no_tally) (\<lambda>(m, ta).
     andthen (pay_ladders m (ta_makers ta)) (\<lambda>m.
     andthen (take_fill m p sd t close filled width ta now) (\<lambda>(m, taken).
     andthen (if filled < sb_lots p \<and> sb_mode p \<noteq> MODE_IOC
              then rest_order m p sd t close (sb_lots p - filled) taken seq now else Some (Inr m)) (\<lambda>m.
     andthen (check_credit m t approval) (\<lambda>m.
     andthen (case credit_slot of
                Some c \<Rightarrow> if ta_credit_filled ta \<and> c \<noteq> t then assert_credit m c else Some (Inr ())
              | None \<Rightarrow> Some (Inr ())) (\<lambda>_.
     store m)))))))"

definition submit :: "market \<Rightarrow> accounts \<Rightarrow> submit_params \<Rightarrow> bytes \<Rightarrow> u64 option \<Rightarrow> pubkey \<Rightarrow> period res \<Rightarrow> u64 \<Rightarrow>
    market res" where
  "submit m a p prop_bytes approval period_key loaded now =
     andthen (authorize a) (\<lambda>_.
     andthen (tradable (m_head m) period_key loaded now) (\<lambda>_.
     andthen (check_shape (m_head m) (sb_lo p) (sb_hi p)) (\<lambda>_.
     andthen (side_of (sb_side p)) (\<lambda>sd.
     Option.bind (set_value (sb_lo p) (sb_hi p) (h_k (m_head m))) (\<lambda>width.
     ensure InvalidInstruction (\<not> (sb_lots p = 0 \<or> sb_lots p < sb_min_fill p \<or> width < sb_limit p \<or> MODE_POST < sb_mode p)) (
     andthen (trader_slot m (ac_key (as_owner a))) (\<lambda>(m, t).
     andthen (close_of m p t) (\<lambda>close.
     Option.bind (book_arcs m) (\<lambda>arcs.
     need BadProposal (decode prop_bytes) (\<lambda>pr.
     need BadProposal (dense pr arcs) (\<lambda>fills.
     andthen (verified submit_error (verify arcs
         (Some \<lparr>tk_side = sd, tk_lo = sb_lo p, tk_hi = sb_hi p, tk_limit = sb_limit p, tk_qty = sb_lots p\<rparr>)
         fills (pr_taker_fill pr) (pr_potentials pr) (h_grid (m_head m)) WORK_LIMIT)) (\<lambda>_.
     ensure MinFill (\<not> (pr_taker_fill pr < sb_min_fill p \<or> (sb_mode p = MODE_POST \<and> 0 < pr_taker_fill pr))) (
     execute m p sd width t close (zip arcs fills) (pr_taker_fill pr) approval now)))))))))))))"

subsection \<open>Quotes\<close>

definition ladder_ok :: "u64 \<Rightarrow> ladder \<Rightarrow> core \<Rightarrow> knot list \<Rightarrow> bool" where
  "ladder_ok k l co knots \<longleftrightarrow> \<not> (MAX_LADDER_STEPS < ld_hi l - ld_lo l
     \<or> \<not> (ld_lo l \<le> co_lo co \<and> co_lo co \<le> co_hi co \<and> co_hi co \<le> ld_hi l)
     \<or> MAX_TIERS < t_count (ld_tiers l)
     \<or> (1 < t_count (ld_tiers l) \<and> (t_ratio (ld_tiers l) = 0 \<or> t_spread (ld_tiers l) = 0))
     \<or> knots = [] \<or> \<not> sorted_wrt (\<lambda>x y. kn_pos x < kn_pos y) knots \<or> (\<exists>kn\<in>set knots. k < kn_price kn)
     \<or> ld_bid_spread l + ld_ask_spread l = 0)"

text \<open>The maker slot of a trader: its own, or a free one it takes.\<close>

definition maker_slot :: "market \<Rightarrow> u16 \<Rightarrow> (market \<times> u8) res" where
  "maker_slot m t =
     Option.bind (trader_of m t) (\<lambda>tr.
     if 0 < tr_maker tr then Some (Inr (m, tr_maker tr - 1))
     else
       need MakerCapacity (find (\<lambda>i. \<not> mk_used (m_makers m ! i)) [0..<length (m_makers m)]) (\<lambda>i.
       Option.bind (checked_add 8 i 1) (\<lambda>j.
       Some (Inr (put_maker (put_trader m t (tr\<lparr>tr_maker := j\<rparr>)) i (maker_default\<lparr>mk_used := True, mk_trader := t\<rparr>), i)))))"

definition quoted_maker :: "ladder \<Rightarrow> u64 \<Rightarrow> u64 \<Rightarrow> u64 \<Rightarrow> maker \<Rightarrow> maker" where
  "quoted_maker l seq escrow now mk = mk\<lparr>mk_seq := seq, mk_lo := ld_lo l, mk_hi := ld_hi l, mk_escrow := escrow,
     mk_bid_spread := ld_bid_spread l, mk_ask_spread := ld_ask_spread l, mk_quoted_ts := now\<rparr>"

definition quote :: "market \<Rightarrow> accounts \<Rightarrow> ladder \<Rightarrow> core \<Rightarrow> knot list \<Rightarrow> bytes \<Rightarrow> u64 option \<Rightarrow> pubkey \<Rightarrow>
    period res \<Rightarrow> u64 \<Rightarrow> market res" where
  "quote m a l co knots prop_bytes approval period_key loaded now =
     andthen (tradable (m_head m) period_key loaded now) (\<lambda>_.
     andthen (acting_trader m a) (\<lambda>t.
     andthen (check_shape (m_head m) (ld_lo l) (ld_hi l)) (\<lambda>_.
     ensure InvalidPrice (ladder_ok (h_k (m_head m)) l co knots) (
     andthen (maker_slot m t) (\<lambda>(m, i).
     Option.bind (slot (m_makers m) i) (\<lambda>old.
     andthen (release m t (mk_escrow old)) (\<lambda>m.
     need Overflow (write_ladder m i l co knots) (\<lambda>(m, escrow).
     andthen (fund m t escrow now) (\<lambda>(m, _).
     andthen (reserve m t escrow) (\<lambda>m.
     Option.bind (slot (m_makers m) i) (\<lambda>mk.
     andthen (next_seq m) (\<lambda>(m, seq).
     andthen (check_credit (put_maker m i (quoted_maker l seq escrow now mk)) t approval) (\<lambda>m.
     Option.bind (count_ladder_arcs m) (\<lambda>n.
     ensure MakerCapacity (n \<le> MAX_BOOK_LADDER_ARCS) (
     Option.bind (book_arcs m) (\<lambda>arcs.
     need BadProposal (decode prop_bytes) (\<lambda>pr.
     ensure WouldCross (pr_fills pr = [] \<and> pr_taker_fill pr = 0) (
     andthen (verified quote_error (verify arcs None (replicate (length arcs) 0) 0 (pr_potentials pr) (h_grid (m_head m)) WORK_LIMIT)) (\<lambda>_.
     store m)))))))))))))))))))"

end
