(* ===== verification/Market_Holds.thy ===== *)
theory Market_Holds
  imports Market_Safety Trading
begin

text \<open>
  What resting orders rely on while a package executes: an opening order that holds a claim slot finds it held, of its
  own side and range, and no two orders hold one slot. The audit checks the first of these at every store; the second
  is kept by every instruction.
\<close>

definition holding :: "order \<Rightarrow> bool" where
  "holding r \<longleftrightarrow> o_seq r \<noteq> 0 \<and> \<not> closes r \<and> o_claim r \<noteq> NO_CLAIM"

definition order_kind :: "order \<Rightarrow> claim \<Rightarrow> bool" where
  "order_kind r c \<longleftrightarrow> c_trader c = o_trader r \<and> c_side c = o_side r \<and> c_lo c = o_lo r \<and> c_hi c = o_hi r"

definition held_for :: "market \<Rightarrow> order \<Rightarrow> bool" where
  "held_for m r \<longleftrightarrow> o_claim r < length (m_claims m) \<and> c_held (m_claims m ! o_claim r) \<and> order_kind r (m_claims m ! o_claim r)"

definition apart_from :: "market \<Rightarrow> nat \<Rightarrow> order \<Rightarrow> bool" where
  "apart_from m i r \<longleftrightarrow> (\<forall>j<length (m_orders m). j \<noteq> i \<and> holding (m_orders m ! j) \<longrightarrow> o_claim (m_orders m ! j) \<noteq> o_claim r)"

definition hold_at :: "market \<Rightarrow> nat \<Rightarrow> order \<Rightarrow> bool" where
  "hold_at m i r \<longleftrightarrow> (holding r \<longrightarrow> held_for m r \<and> apart_from m i r)"

definition holds_but :: "market \<Rightarrow> nat \<Rightarrow> bool" where
  "holds_but m i \<longleftrightarrow> (\<forall>j<length (m_orders m). j \<noteq> i \<and> holding (m_orders m ! j) \<longrightarrow> held_for m (m_orders m ! j)
     \<and> (\<forall>l<length (m_orders m). l \<noteq> i \<and> l \<noteq> j \<and> holding (m_orders m ! l) \<longrightarrow> o_claim (m_orders m ! l) \<noteq> o_claim (m_orders m ! j)))"

definition holds_ok :: "market \<Rightarrow> bool" where
  "holds_ok m \<longleftrightarrow> (\<forall>i<length (m_orders m). hold_at m i (m_orders m ! i))"

lemma order_default_not_holding [simp]: "\<not> holding order_default"
  by (simp add: holding_def order_default_def)

lemma holds_ok_split: "holds_ok m \<Longrightarrow> i < length (m_orders m) \<Longrightarrow> holds_but m i \<and> hold_at m i (m_orders m ! i)"
  by (simp add: holds_ok_def holds_but_def hold_at_def apart_from_def)

lemma holds_ok_put:
  assumes "holds_but m i" "hold_at m i r"
  shows "holds_ok (put_order m i r)"
proof (cases "i < length (m_orders m)")
  case True
  show ?thesis
    unfolding holds_ok_def
  proof (intro allI impI)
    fix j assume "j < length (m_orders (put_order m i r))"
    then show "hold_at (put_order m i r) j (m_orders (put_order m i r) ! j)"
      using assms True
      by (auto simp: holds_but_def hold_at_def apart_from_def held_for_def put_order_def nth_list_update)
  qed
next
  case False
  then show ?thesis
    using assms by (auto simp: holds_but_def holds_ok_def hold_at_def apart_from_def held_for_def put_order_def)
qed

text \<open>Claims may change while the held slots stay as they are.\<close>

lemma held_for_kept:
  "held_for m r \<Longrightarrow> holds_kept (m_claims m) (m_claims m') \<Longrightarrow> length (m_claims m') = length (m_claims m) \<Longrightarrow> held_for m' r"
  by (auto simp: held_for_def holds_kept_def order_kind_def same_kind_def)

lemma holds_but_kept:
  "holds_but m i \<Longrightarrow> m_orders m' = m_orders m \<Longrightarrow> holds_kept (m_claims m) (m_claims m') \<Longrightarrow>
    length (m_claims m') = length (m_claims m) \<Longrightarrow> holds_but m' i"
  using held_for_kept [of m _ m'] by (simp add: holds_but_def)

lemma hold_at_kept:
  "hold_at m i r \<Longrightarrow> m_orders m' = m_orders m \<Longrightarrow> holds_kept (m_claims m) (m_claims m') \<Longrightarrow>
    length (m_claims m') = length (m_claims m) \<Longrightarrow> hold_at m' i r"
  using held_for_kept [of m r m'] by (auto simp: hold_at_def apart_from_def)

lemma holds_moves:
  assumes "moves m m' d"
  shows "holds_but m i \<Longrightarrow> holds_but m' i" "hold_at m i r \<Longrightarrow> hold_at m' i r" "holds_ok m \<Longrightarrow> holds_ok m'"
proof -
  note f = assms [unfolded moves_def]
  then show "holds_but m i \<Longrightarrow> holds_but m' i" "hold_at m i r \<Longrightarrow> hold_at m' i r"
    using holds_but_kept hold_at_kept by blast+
  show "holds_ok m \<Longrightarrow> holds_ok m'" using f hold_at_kept [of m _ _ m'] by (simp add: holds_ok_def)
qed

text \<open>The slot an order gives up is no other order's.\<close>

lemma release_hold_holds:
  assumes "release_hold m (o_claim r) = Some m'" "holds_but m i" "holding r" "hold_at m i r"
  shows "holds_but m' i" "m_orders m' = m_orders m"
proof -
  obtain c where m': "m' = put_claim m (o_claim r) c" using assms(1) by (auto simp: release_hold_def option_bind_eq_Some)
  then show "m_orders m' = m_orders m" by (simp add: put_claim_def)
  have "apart_from m i r" using assms(3,4) by (simp add: hold_at_def)
  then show "holds_but m' i"
    using assms(2) by (auto simp: holds_but_def apart_from_def m' put_claim_def held_for_def)
qed

lemma finish_order_holds:
  assumes "finish_order m i r = Some m'" "holds_but m i" "hold_at m i r" "o_seq r \<noteq> 0"
  shows "holds_ok m' \<and> m_orders m' = (m_orders m)[i := if o_lots r = 0 then order_default else r]
    \<and> m_makers m' = m_makers m \<and> m_steps m' = m_steps m \<and> length (m_claims m') = length (m_claims m)
    \<and> steps_to m m' (\<lambda>P s. 0)"
proof -
  have put: "steps_to n (put_order n i x) (\<lambda>P s. 0)" for n x
    by (simp add: steps_to_def flows_def put_order_def terms_def drift_def worth_def formed_def on_grid_def)
  show ?thesis
  proof (cases "o_lots r = 0")
    case False
    then have m': "m' = put_order m i r" using assms(1) by (simp add: finish_order_def)
    show ?thesis using holds_ok_put [OF assms(2,3)] put False by (auto simp: m' put_order_def)
  next
    case True
    obtain m1 tr where 1: "(if \<not> closes r \<and> o_claim r \<noteq> NO_CLAIM then release_hold m (o_claim r) else Some m) = Some m1"
      and tr: "trader_of (put_order m1 i order_default) (o_trader r) = Some tr"
      and m': "m' = put_trader (put_order m1 i order_default) (o_trader r) (tr\<lparr>tr_orders := tr_orders tr - 1\<rparr>)"
      using assms(1) True by (auto simp: finish_order_def uncount_order_def option_bind_eq_Some)
    have s1: "steps_to m m1 (\<lambda>P s. 0)" using 1 release_hold_steps by (auto split: if_splits)
    have h1: "holds_but m1 i \<and> m_orders m1 = m_orders m \<and> m_makers m1 = m_makers m \<and> m_steps m1 = m_steps m
      \<and> length (m_claims m1) = length (m_claims m)"
    proof (cases "\<not> closes r \<and> o_claim r \<noteq> NO_CLAIM")
      case True
      then have r: "release_hold m (o_claim r) = Some m1" "holding r" using 1 assms(4) by (simp_all add: holding_def)
      moreover have "m_makers m1 = m_makers m \<and> m_steps m1 = m_steps m \<and> length (m_claims m1) = length (m_claims m)"
        using r(1) by (auto simp: release_hold_def option_bind_eq_Some put_claim_def)
      ultimately show ?thesis using release_hold_holds [OF r(1) assms(2) r(2) assms(3)] by simp
    next
      case False
      then have "m1 = m" using 1 by auto
      then show ?thesis using assms(2) by simp
    qed
    have s3: "steps_to (put_order m1 i order_default) m' (\<lambda>P s. 0)" unfolding m' by (rule put_trader_steps [OF tr]) simp_all
    have "steps_to m m' (\<lambda>P s. 0)" using steps_to_trans [OF steps_to_trans [OF s1 put] s3] by simp
    moreover have "hold_at m1 i order_default" by (simp add: hold_at_def)
    then have "holds_ok (put_order m1 i order_default)" using holds_ok_put h1 by blast
    then have "holds_ok m'" by (simp add: m' put_trader_def holds_ok_def hold_at_def apart_from_def held_for_def)
    ultimately show ?thesis using h1 True by (simp add: m' put_trader_def put_order_def)
  qed
qed

subsection \<open>Orders\<close>

definition order_shaped :: "nat \<Rightarrow> nat \<Rightarrow> order \<Rightarrow> bool" where
  "order_shaped g n r \<longleftrightarrow> o_side r \<le> 1 \<and> o_lo r < o_hi r \<and> o_hi r \<le> g \<and> o_trader r < n"

definition order_formed :: "nat \<Rightarrow> nat \<Rightarrow> order \<Rightarrow> bool" where
  "order_formed g n r \<longleftrightarrow> (o_seq r \<noteq> 0 \<longrightarrow> order_shaped g n r)"

definition orders_formed :: "market \<Rightarrow> bool" where
  "orders_formed m \<longleftrightarrow> (\<forall>r\<in>set (m_orders m). order_formed (h_grid (m_head m)) (length (m_traders m)) r)"

definition same_order :: "order \<Rightarrow> order \<Rightarrow> bool" where
  "same_order r q \<longleftrightarrow> o_seq r = o_seq q \<and> o_trader r = o_trader q \<and> o_side r = o_side q \<and> o_flags r = o_flags q
     \<and> o_lo r = o_lo q \<and> o_hi r = o_hi q"

text \<open>Orders that are gone, or as they were but for their lots and the slot they hold.\<close>

definition orders_from :: "order list \<Rightarrow> order list \<Rightarrow> bool" where
  "orders_from rs qs \<longleftrightarrow> length qs = length rs \<and> (\<forall>j<length rs. qs ! j = order_default \<or> same_order (qs ! j) (rs ! j))"

lemma orders_from_refl [simp]: "orders_from rs rs"
  by (simp add: orders_from_def same_order_def)

lemma orders_from_put:
  assumes "orders_from rs qs" "q = order_default \<or> same_order q (qs ! i)" "i < length qs \<Longrightarrow> qs ! i \<noteq> order_default"
  shows "orders_from rs (qs[i := q])"
proof -
  have "same_order q (rs ! i)" if "i < length qs" "q \<noteq> order_default"
  proof -
    have "same_order (qs ! i) (rs ! i)" "same_order q (qs ! i)" using that assms by (auto simp: orders_from_def)
    then show ?thesis by (simp add: same_order_def)
  qed
  then show ?thesis using assms(1) by (cases "i < length qs") (auto simp: orders_from_def nth_list_update)
qed

lemma orders_from_formed:
  assumes "orders_from (m_orders m) (m_orders m')" "orders_formed m" "h_grid (m_head m') = h_grid (m_head m)"
    "length (m_traders m') = length (m_traders m)"
  shows "orders_formed m'"
  unfolding orders_formed_def
proof
  fix r assume "r \<in> set (m_orders m')"
  then obtain j where j: "j < length (m_orders m)" "r = m_orders m' ! j" using assms(1) by (auto simp: in_set_conv_nth orders_from_def)
  then have "order_formed (h_grid (m_head m)) (length (m_traders m)) (m_orders m ! j)" using assms(2) by (simp add: orders_formed_def)
  moreover have "r = order_default \<or> same_order r (m_orders m ! j)" using assms(1) j by (simp add: orders_from_def)
  ultimately show "order_formed (h_grid (m_head m')) (length (m_traders m')) r"
    using assms(3,4) by (auto simp: order_formed_def order_shaped_def same_order_def order_default_def)
qed

subsection \<open>Filling an order\<close>

lemma closes_lots [simp]: "closes (r\<lparr>o_lots := x\<rparr>) = closes r"
  by (simp add: closes_def)

definition fill_gain :: "nat \<Rightarrow> order \<Rightarrow> nat \<Rightarrow> nat \<Rightarrow> (nat \<Rightarrow> bool) \<Rightarrow> nat \<Rightarrow> int" where
  "fill_gain k r lots c P s = (if P (o_trader r) then int lots * unit_pay k s (o_side r = 0) (o_lo r) (o_hi r) - int c else 0)"

lemma fill_claim_gain: "val P k s (fill_claim r lots c now) - at P (o_trader r) c = fill_gain k r lots c P s"
  by (simp add: val_def pays_def fill_claim_def fill_gain_def at_def)

lemma fill_claim_shaped: "order_formed g n r \<Longrightarrow> o_seq r \<noteq> 0 \<Longrightarrow> shaped g n (fill_claim r lots c now)"
  by (simp add: order_formed_def order_shaped_def shaped_def fill_claim_def)

lemma fill_close_moves:
  assumes "fill_close m r lots c now = Some (Inr m')" "formed m"
    "order_formed (h_grid (m_head m)) (length (m_traders m)) r" "o_seq r \<noteq> 0"
  shows "moves m m' (fill_gain (h_k (m_head m)) r lots c) \<and> formed m'"
proof -
  obtain b m1 x where 1: "place (m\<lparr>m_head := (m_head m)\<lparr>h_backing := b\<rparr>\<rparr>) (fill_claim r lots c now) (Some (o_claim r, True)) None = Some (Inr (m1, x))"
      (is "place ?m _ _ _ = _") and 2: "debit_free m1 (o_trader r) c = Some (Inr m')"
    using assms(1) by (auto simp: fill_close_def res_simps)
  have 0: "moves m ?m (\<lambda>P s. 0)" by (rule moves_head) (simp_all add: terms_def)
  have "formed ?m" using assms(2) by (simp add: formed_def)
  from place_moves [OF 1 this] have p: "moves ?m m1 (\<lambda>P s. val P (h_k (m_head m)) s (fill_claim r lots c now)) \<and> formed m1"
    using fill_claim_shaped [OF assms(3,4)] by (simp add: joins_def)
  note d = debit_free_moves [OF 2]
  have "moves m m' (fill_gain (h_k (m_head m)) r lots c)"
    by (rule moves_cong [OF moves_trans [OF moves_trans [OF 0 conjunct1 [OF p]] conjunct1 [OF d]]])
      (simp add: fill_claim_gain [of _ _ _ r lots c now, symmetric])
  then show ?thesis using p d formed_same by blast
qed

definition held_slot :: "order \<Rightarrow> u32 option" where
  "held_slot r = (if o_claim r \<noteq> NO_CLAIM then Some (o_claim r) else None)"

lemma fill_open_cases:
  assumes "fill_open m r lots c now = Some (Inr (m', r'))"
  obtains m1 m2 x where "reserved_to_backing m (o_trader r) c = Some (Inr m1)"
    "place m1 (fill_claim r lots c now) None (held_slot r) = Some (Inr (m2, x))"
    "(m', r') = (m2, r) \<or> hold_fill m2 r x = Some (m', r')"
proof (cases "o_claim r = NO_CLAIM")
  case True
  then show ?thesis using assms that by (auto simp: fill_open_def res_simps option_bind_eq_Some held_slot_def)
next
  case False
  then show ?thesis using assms that by (auto simp: fill_open_def res_simps held_slot_def)
qed

lemma fill_open_moves:
  assumes "fill_open m r lots c now = Some (Inr (m', r'))" "formed m"
    "order_formed (h_grid (m_head m)) (length (m_traders m)) r" "o_seq r \<noteq> 0" "\<not> closes r" "holds_but m i" "hold_at m i r"
  shows "moves m m' (fill_gain (h_k (m_head m)) r lots c) \<and> formed m' \<and> holds_but m' i \<and> hold_at m' i r'
    \<and> same_order r' r \<and> o_lots r' = o_lots r"
proof -
  let ?f = "fill_claim r lots c now"
  obtain m1 m2 x where 1: "reserved_to_backing m (o_trader r) c = Some (Inr m1)"
    and 2: "place m1 ?f None (held_slot r) = Some (Inr (m2, x))"
    and 3: "(m', r') = (m2, r) \<or> hold_fill m2 r x = Some (m', r')"
    using fill_open_cases [OF assms(1)] by blast
  note m1 = reserved_to_backing_moves [OF 1]
  note t1 = moves_terms [OF conjunct1 [OF m1]]
  have f1: "formed m1" using m1 formed_same assms(2) by blast
  have h1: "holds_but m1 i" "hold_at m1 i r" using holds_moves [OF conjunct1 [OF m1]] assms(6,7) by blast+
  have sh: "shaped (h_grid (m_head m1)) (length (m_traders m1)) ?f" using fill_claim_shaped [OF assms(3,4)] t1 by simp
  have j: "joins m1 ?f (held_slot r)"
    using h1(2) assms(4,5)
    by (auto simp: held_slot_def joins_def hold_at_def holding_def held_for_def order_kind_def same_kind_def fill_claim_def)
  note p = place_moves [OF 2 f1 sh j]
  have mv: "moves m m2 (fill_gain (h_k (m_head m)) r lots c)"
    by (rule moves_cong [OF moves_trans [OF conjunct1 [OF m1] conjunct1 [OF p]]])
      (simp add: fill_claim_gain [of _ _ _ r lots c now, symmetric] t1)
  have h2: "holds_but m2 i" "hold_at m2 i r" using holds_moves [OF conjunct1 [OF p]] h1 by blast+
  show ?thesis
  proof (cases "(m', r') = (m2, r)")
    case True
    then show ?thesis using mv p h2 by (simp add: same_order_def)
  next
    case False
    then obtain k where k: "k < length (m_claims m2)" "m' = put_claim m2 k ((m_claims m2 ! k)\<lparr>c_held := True\<rparr>)" "r' = r\<lparr>o_claim := k\<rparr>"
      "\<not> c_held (m_claims m2 ! k)" "order_kind r (m_claims m2 ! k)" "0 < c_lots (m_claims m2 ! k)"
      using 3 by (auto simp: hold_fill_def option_bind_eq_Some slot_Some order_kind_def split: option.splits if_splits)
    have st: "stays_held (m_claims m2 ! k) ((m_claims m2 ! k)\<lparr>c_held := True\<rparr>)" using k(4) by (simp add: stays_held_def)
    have q: "moves m2 m' (\<lambda>P s. 0)" unfolding k(2)
      by (rule moves_cong [OF moves_put_claim [OF k(1) st]]) (simp add: val_def pays_def)
    have "formed m'"
      by (rule formed_put [OF q conjunct2 [OF p]]) (use k formed_at [OF conjunct2 [OF p] k(1)] in
        \<open>auto simp: put_claim_def claim_formed_def shaped_def\<close>)
    moreover have "holds_but m' i" by (rule holds_moves(1) [OF q h2(1)])
    moreover have "apart_from m2 i r'"
      using h2(1) k(3,4) by (auto simp: apart_from_def holds_but_def held_for_def)
    then have "hold_at m' i r'"
      using k by (auto simp: hold_at_def held_for_def put_claim_def order_kind_def apart_from_def)
    moreover have "moves m m' (fill_gain (h_k (m_head m)) r lots c)"
      by (rule moves_cong [OF moves_trans [OF mv q]]) simp
    ultimately show ?thesis using k(3) by (simp add: same_order_def)
  qed
qed

lemma fill_order_facts:
  assumes "fill_order m i lots c now = Some (Inr m')" "0 < lots" "formed m" "orders_formed m" "holds_ok m"
    "orders_from rs (m_orders m)"
  shows "i < length rs \<and> same_order (m_orders m ! i) (rs ! i)
    \<and> (o_seq (rs ! i) \<noteq> 0 \<longrightarrow> steps_to m m' (fill_gain (h_k (m_head m)) (rs ! i) lots c) \<and> formed m' \<and> holds_ok m'
      \<and> orders_from rs (m_orders m') \<and> m_makers m' = m_makers m \<and> m_steps m' = m_steps m
      \<and> length (m_claims m') = length (m_claims m))"
proof -
  define r where "r = m_orders m ! i"
  obtain m1 r' where i: "i < length (m_orders m)" "lots \<le> o_lots r"
    and 1: "(if closes r then andthen (fill_close m (r\<lparr>o_lots := o_lots r - lots\<rparr>) lots c now) (\<lambda>m. Some (Inr (m, r\<lparr>o_lots := o_lots r - lots\<rparr>)))
      else fill_open m (r\<lparr>o_lots := o_lots r - lots\<rparr>) lots c now) = Some (Inr (m1, r'))"
    and 2: "finish_order m1 i r' = Some m'"
    using assms(1) unfolding r_def by (auto simp: fill_order_def res_simps option_bind_eq_Some slot_Some checked_simps Let_def)
  let ?r = "r\<lparr>o_lots := o_lots r - lots\<rparr>"
  have "r \<noteq> order_default" using i(2) assms(2) by (auto simp: order_default_def)
  then have same: "same_order r (rs ! i)" "i < length rs" using assms(6) i(1) by (auto simp: orders_from_def r_def)
  have gain: "fill_gain k ?r lots c = fill_gain k (rs ! i) lots c" for k
    using same(1) by (simp add: fill_gain_def same_order_def fun_eq_iff)
  have "steps_to m m' (fill_gain (h_k (m_head m)) (rs ! i) lots c) \<and> formed m' \<and> holds_ok m'
      \<and> orders_from rs (m_orders m') \<and> m_makers m' = m_makers m \<and> m_steps m' = m_steps m
      \<and> length (m_claims m') = length (m_claims m)" if seq: "o_seq (rs ! i) \<noteq> 0"
  proof -
    have sq: "o_seq ?r \<noteq> 0" using seq same(1) by (simp add: same_order_def)
    have of: "order_formed (h_grid (m_head m)) (length (m_traders m)) ?r"
      using assms(4) i(1) by (auto simp: orders_formed_def order_formed_def order_shaped_def r_def)
    have h: "holds_but m i" "hold_at m i ?r"
      using holds_ok_split [OF assms(5) i(1)] by (auto simp: hold_at_def holding_def held_for_def order_kind_def apart_from_def closes_def r_def)
    have m1: "moves m m1 (fill_gain (h_k (m_head m)) ?r lots c) \<and> formed m1 \<and> holds_but m1 i \<and> hold_at m1 i r'
        \<and> same_order r' ?r \<and> o_lots r' = o_lots ?r"
    proof (cases "closes r")
      case True
      then have f: "fill_close m ?r lots c now = Some (Inr m1)" and r': "r' = ?r" using 1 by (auto simp: res_simps)
      note mv = fill_close_moves [OF f assms(3) of sq]
      then show ?thesis using holds_moves [OF conjunct1 [OF mv]] h r' by (simp add: same_order_def)
    next
      case False
      then have f: "fill_open m ?r lots c now = Some (Inr (m1, r'))" "\<not> closes ?r" using 1 by (auto simp: closes_def)
      show ?thesis using fill_open_moves [OF f(1) assms(3) of sq f(2) h] by blast
    qed
    have sq': "o_seq r' \<noteq> 0" using m1 sq by (simp add: same_order_def)
    have fin: "holds_ok m' \<and> m_orders m' = (m_orders m1)[i := if o_lots r' = 0 then order_default else r']
      \<and> m_makers m' = m_makers m1 \<and> m_steps m' = m_steps m1 \<and> length (m_claims m') = length (m_claims m1) \<and> steps_to m1 m' (\<lambda>P s. 0)"
      using finish_order_holds [OF 2 _ _ sq'] m1 by blast
    have eq: "m_orders m1 = m_orders m" "m_makers m1 = m_makers m" "m_steps m1 = m_steps m" "length (m_claims m1) = length (m_claims m)"
      using m1 by (simp_all add: moves_def)
    have "steps_to m m1 (fill_gain (h_k (m_head m)) ?r lots c)" using m1 by (intro moves_steps_to) auto
    from steps_to_trans [OF this conjunct2 [OF conjunct2 [OF conjunct2 [OF conjunct2 [OF conjunct2 [OF fin]]]]]]
    have st: "steps_to m m' (fill_gain (h_k (m_head m)) (rs ! i) lots c)" by (simp add: gain [symmetric])
    moreover have "formed m'" using st assms(3) by (simp add: steps_to_def)
    moreover have "orders_from rs (m_orders m')"
      unfolding fin [THEN conjunct2, THEN conjunct1] eq
      by (rule orders_from_put [OF assms(6)]) (use m1 \<open>r \<noteq> order_default\<close> in \<open>auto simp: r_def same_order_def\<close>)
    ultimately show ?thesis using fin eq by simp
  qed
  then show ?thesis using same by (simp add: r_def)
qed

end
