(* ===== verification/Market_Fills.thy ===== *)
theory Market_Fills
  imports Market_Holds
begin

text \<open>
  What the resting side of a package gains: every filled arc adds the payoff of its lots and takes its contribution
  from the trader behind it, whichever claims and inventories the fill nets against on the way.
\<close>

subsection \<open>Ladder steps\<close>

definition step_pay :: "nat \<Rightarrow> nat \<Rightarrow> nat \<Rightarrow> step \<Rightarrow> int" where
  "step_pay k s x st = \<bar>st_inv st\<bar> * unit_pay k s (0 < st_inv st) x (x + 1)"

lemma steps_pay_put:
  assumes "x < length ss"
  shows "steps_pay k s (ss[x := st]) = steps_pay k s ss - step_pay k s x (ss ! x) + step_pay k s x st"
proof -
  have "steps_pay k s ts = step_pay k s x (ts ! x) + (\<Sum>y\<in>{..<length ts} - {x}. step_pay k s y (ts ! y))" if "x < length ts" for ts
    using that by (simp add: steps_pay_def step_pay_def sum.remove [of "{..<length ts}" x])
  from this [of "ss[x := st]"] this [of ss] assms show ?thesis by simp
qed

lemma unit_sides: "unit_pay k s False x (Suc x) = int k - unit_pay k s True x (Suc x)"
  using unit_pay_set [of k s x "Suc x"] by simp

lemma step_pay_eq:
  "step_pay k s x st = (if 0 \<le> st_inv st then st_inv st * unit_pay k s True x (x + 1) else st_inv st * unit_pay k s True x (x + 1) - st_inv st * int k)"
  by (cases "st_inv st" "0 :: int" rule: linorder_cases) (simp_all add: step_pay_def unit_sides algebra_simps)

lemma step_filled_pay:
  assumes "step_filled sd lots st = Some (Inr (st', n))"
  shows "step_pay k s x st' = step_pay k s x st + int lots * unit_pay k s (sd = Long) x (x + 1) - int n * int k"
proof (cases sd)
  case Long
  then have eq: "st_inv st' = st_inv st + int lots" "n = (if st_inv st < 0 then min lots (nat \<bar>st_inv st\<bar>) else 0)"
    using assms by (auto simp: step_filled_def res_simps option_bind_eq_Some checked_simps Let_def)
  consider "0 \<le> st_inv st" "n = 0" | "st_inv st < 0" "int lots < - st_inv st" "n = lots"
    | "st_inv st < 0" "- st_inv st \<le> int lots" "int n = - st_inv st" using eq(2) by (cases "st_inv st < 0") (force simp: min_def split: if_splits)+
  then show ?thesis by cases (auto simp: step_pay_eq eq(1) Long algebra_simps)
next
  case Short
  then have eq: "st_inv st' = st_inv st - int lots" "n = (if 0 < st_inv st then min lots (nat \<bar>st_inv st\<bar>) else 0)"
    using assms by (auto simp: step_filled_def res_simps option_bind_eq_Some checked_simps Let_def)
  consider "st_inv st \<le> 0" "n = 0" | "0 < st_inv st" "int lots \<le> st_inv st" "n = lots"
    | "0 < st_inv st" "st_inv st < int lots" "int n = st_inv st" using eq(2) by (auto simp: min_def split: if_splits)
  then show ?thesis
    by cases (auto simp: step_pay_eq eq(1) Short unit_sides algebra_simps)
qed

lemma put_steps_steps:
  assumes "i < length (m_makers m)" "i < length (m_steps m)" "length ss = length (m_steps m ! i)"
  shows "steps_to m (put_steps m i ss)
    (\<lambda>P s. maker_val P (h_k (m_head m)) s (m_makers m ! i, ss) - maker_val P (h_k (m_head m)) s (m_makers m ! i, m_steps m ! i))"
proof -
  have "put_maker (put_steps m i ss) i (m_makers m ! i) = put_steps m i ss" by (simp add: put_maker_def put_steps_def)
  then show ?thesis using put_ladder_steps [OF assms, of "m_makers m ! i"] by simp
qed

lemma fill_step_facts:
  assumes "fill_step m i x sd tier lots = Some (Inr (m', n))"
  shows "i < length (m_makers m)
    \<and> steps_to m m' (\<lambda>P s. if mk_used (m_makers m ! i) \<and> P (mk_trader (m_makers m ! i))
        then int lots * unit_pay (h_k (m_head m)) s (sd = Long) x (x + 1) - int n * int (h_k (m_head m)) else 0)
    \<and> m' = put_steps m i (m_steps m' ! i)"
proof -
  obtain st where i: "i < length (m_makers m)" "i < length (m_steps m)" "x < length (m_steps m ! i)"
    and 1: "step_filled sd lots (m_steps m ! i ! x) = Some (Inr (st, n))"
    and m': "m' = put_steps m i ((m_steps m ! i)[x := st])"
    using assms by (auto simp: fill_step_def res_simps option_bind_eq_Some slot_Some Let_def)
  have "steps_to m m' (\<lambda>P s. if mk_used (m_makers m ! i) \<and> P (mk_trader (m_makers m ! i))
        then int lots * unit_pay (h_k (m_head m)) s (sd = Long) x (x + 1) - int n * int (h_k (m_head m)) else 0)"
    unfolding m' by (rule steps_to_cong [OF put_steps_steps [OF i(1,2)]])
      (auto simp: maker_val_def steps_pay_put [OF i(3)] step_filled_pay [OF 1])
  then show ?thesis using i by (simp add: m' put_steps_def)
qed

subsection \<open>Filled arcs\<close>

definition pay_in :: "nat \<Rightarrow> arc \<Rightarrow> nat" where
  "pay_in k a = (case a_side a of Long \<Rightarrow> a_price a | Short \<Rightarrow> (a_hi a - a_lo a) * k - a_price a)"

lemma contribution_pay_in:
  "contribution (a_side a) (a_lo a) (a_hi a) (a_price a) k = Some per \<Longrightarrow> per = pay_in k a"
  by (auto simp: contribution_def pay_in_def set_value_def option_bind_eq_Some checked_simps split: side.splits)

definition arc_owner :: "market \<Rightarrow> arc \<Rightarrow> nat" where
  "arc_owner m a = (case a_id a of Order i \<Rightarrow> o_trader (m_orders m ! i) | Maker i _ _ _ \<Rightarrow> mk_trader (m_makers m ! i))"

definition arc_profile :: "nat \<Rightarrow> arc \<times> nat \<Rightarrow> nat \<Rightarrow> int" where
  "arc_profile k f s = int (snd f) * (unit_pay k s (a_side (fst f) = Long) (a_lo (fst f)) (a_hi (fst f)) - int (pay_in k (fst f)))"

definition arc_gain :: "market \<Rightarrow> nat \<Rightarrow> arc \<times> nat \<Rightarrow> (nat \<Rightarrow> bool) \<Rightarrow> nat \<Rightarrow> int" where
  "arc_gain m k f P s = (if P (arc_owner m (fst f)) then arc_profile k f s else 0)"

definition in_book :: "market \<Rightarrow> arc \<Rightarrow> bool" where
  "in_book m a \<longleftrightarrow> (case a_id a of
     Order i \<Rightarrow> i < length (m_orders m) \<and> o_seq (m_orders m ! i) \<noteq> 0 \<and> (a_side a = Long \<longleftrightarrow> o_side (m_orders m ! i) = 0)
       \<and> a_lo a = o_lo (m_orders m ! i) \<and> a_hi a = o_hi (m_orders m ! i)
   | Maker i x sd _ \<Rightarrow> i < length (m_makers m) \<and> mk_used (m_makers m ! i) \<and> a_side a = sd \<and> a_lo a = x \<and> a_hi a = x + 1)"

text \<open>What the ladders are still to be credited for the sets their fills redeemed, less what they are to pay.\<close>

definition due_of :: "nat \<Rightarrow> nat \<times> nat \<times> nat \<Rightarrow> int" where
  "due_of k x = (case x of (e, b, n) \<Rightarrow> int n * int k - int e - int b)"

definition owing :: "market \<Rightarrow> nat \<Rightarrow> (u8 \<times> u64 \<times> u64 \<times> u64) list \<Rightarrow> (nat \<Rightarrow> bool) \<Rightarrow> int" where
  "owing m k mks P = (\<Sum>x\<leftarrow>mks. if P (mk_trader (m_makers m ! fst x)) then due_of k (snd x) else 0)"

lemma owing_simps [simp]:
  "owing m k [] P = 0"
  "owing m k (x # mks) P = (if P (mk_trader (m_makers m ! fst x)) then due_of k (snd x) else 0) + owing m k mks P"
  by (simp_all add: owing_def)

lemma tally_maker_owing:
  "tally_maker mks i x = Some (Inr mks') \<Longrightarrow>
    owing m k mks' P = owing m k mks P + (if P (mk_trader (m_makers m ! i)) then due_of k x else 0)"
proof (induction mks i x arbitrary: mks' rule: tally_maker.induct)
  case (2 j e' b' n' rest i e b n)
  show ?case
  proof (cases "j = i")
    case True
    then show ?thesis using 2(2) by (auto simp: res_simps due_of_def algebra_simps)
  next
    case False
    then obtain rest' where "tally_maker rest i (e, b, n) = Some (Inr rest')" "mks' = (j, e', b', n') # rest'"
      using 2(2) by (auto simp: res_simps)
    then show ?thesis using 2(1) [OF False] by simp
  qed
qed auto

text \<open>The market while a package fills, against the one it started from.\<close>

definition filling :: "market \<Rightarrow> market \<Rightarrow> bool" where
  "filling m0 m \<longleftrightarrow> formed m \<and> holds_ok m \<and> orders_from (m_orders m0) (m_orders m) \<and> h_grid (m_head m) = h_grid (m_head m0)
     \<and> length (m_traders m) = length (m_traders m0) \<and> m_makers m = m_makers m0 \<and> length (m_steps m) = length (m_steps m0)
     \<and> (\<forall>i<length (m_makers m0). \<not> mk_used (m_makers m0 ! i) \<longrightarrow> m_steps m ! i = m_steps m0 ! i)"

lemma steps_to_shape:
  assumes "steps_to m m' d"
  shows "h_grid (m_head m') = h_grid (m_head m)" "length (m_traders m') = length (m_traders m)" "h_k (m_head m') = h_k (m_head m)"
    "formed m \<Longrightarrow> formed m'"
proof -
  have f: "flows m m' d" using assms by (simp add: steps_to_def)
  show "h_grid (m_head m') = h_grid (m_head m)" "h_k (m_head m') = h_k (m_head m)" using flows_terms [OF f] by simp_all
  have "map tr_owner (m_traders m') = map tr_owner (m_traders m)" using f by (simp add: flows_def)
  then show "length (m_traders m') = length (m_traders m)" by (metis length_map)
  show "formed m \<Longrightarrow> formed m'" using assms by (simp add: steps_to_def)
qed

lemma fill_arc_facts:
  assumes "fill_arc m a lots c now mks = Some (Inr (m', mks'))" "0 < lots" "c = lots * pay_in (h_k (m_head m)) a"
    "in_book m0 a" "filling m0 m" "orders_formed m0"
  shows "filling m0 m' \<and> steps_to m m' (\<lambda>P s. arc_gain m0 (h_k (m_head m)) (a, lots) P s
    - (owing m0 (h_k (m_head m)) mks' P - owing m0 (h_k (m_head m)) mks P))"
proof (cases "a_id a")
  case (Order i)
  let ?k = "h_k (m_head m)"
  have 1: "fill_order m i lots c now = Some (Inr m')" "mks' = mks" using assms(1) Order by (auto simp: fill_arc_def res_simps)
  have f: "formed m" "holds_ok m" "orders_from (m_orders m0) (m_orders m)" using assms(5) by (simp_all add: filling_def)
  have of: "orders_formed m" using assms(5) by (intro orders_from_formed [OF f(3) assms(6)]) (simp_all add: filling_def)
  have b: "o_seq (m_orders m0 ! i) \<noteq> 0" "a_side a = Long \<longleftrightarrow> o_side (m_orders m0 ! i) = 0" "a_lo a = o_lo (m_orders m0 ! i)"
    "a_hi a = o_hi (m_orders m0 ! i)" using assms(4) Order by (simp_all add: in_book_def)
  have fo: "steps_to m m' (fill_gain ?k (m_orders m0 ! i) lots c)" "formed m'" "holds_ok m'" "orders_from (m_orders m0) (m_orders m')"
    "m_makers m' = m_makers m" "m_steps m' = m_steps m"
    using fill_order_facts [OF 1(1) assms(2) f(1) of f(2,3)] b(1) by simp_all
  have "filling m0 m'" using assms(5) fo steps_to_shape [OF fo(1)] by (simp add: filling_def)
  moreover have "steps_to m m' (\<lambda>P s. arc_gain m0 ?k (a, lots) P s - (owing m0 ?k mks' P - owing m0 ?k mks P))"
    by (rule steps_to_cong [OF fo(1)])
      (auto simp: 1(2) arc_gain_def fill_gain_def arc_profile_def arc_owner_def Order b assms(3) algebra_simps)
  ultimately show ?thesis ..
next
  case (Maker i x sd tier)
  let ?k = "h_k (m_head m)"
  obtain n b where 1: "fill_step m i x sd tier lots = Some (Inr (m', n))" and b: "b \<le> c"
    and 2: "tally_maker mks i (c - b, b, n) = Some (Inr mks')"
    using assms(1) Maker by (auto simp: fill_arc_def res_simps)
  note fs = fill_step_facts [OF 1]
  have mk: "m_makers m = m_makers m0" using assms(5) by (simp add: filling_def)
  have bk: "mk_used (m_makers m0 ! i)" "a_side a = sd" "a_lo a = x" "a_hi a = x + 1" using assms(4) Maker by (simp_all add: in_book_def)
  have st: "steps_to m m' (\<lambda>P s. arc_gain m0 ?k (a, lots) P s - (owing m0 ?k mks' P - owing m0 ?k mks P))"
    by (rule steps_to_cong [OF conjunct1 [OF conjunct2 [OF fs]]])
      (use b in \<open>auto simp: mk bk tally_maker_owing [OF 2] due_of_def arc_gain_def arc_profile_def arc_owner_def Maker assms(3) algebra_simps
        of_nat_diff\<close>)
  have m': "m' = put_steps m i (m_steps m' ! i)" using fs by blast
  have "m_makers m' = m_makers m" "m_orders m' = m_orders m" "m_claims m' = m_claims m" "length (m_steps m') = length (m_steps m)"
    "\<forall>j. j \<noteq> i \<longrightarrow> m_steps m' ! j = m_steps m ! j" by (subst m'; simp add: put_steps_def)+
  then have "filling m0 m'" using assms(5) steps_to_shape [OF st] bk(1)
    by (auto simp: filling_def holds_ok_def hold_at_def held_for_def apart_from_def)
  with st show ?thesis by blast
qed

text \<open>The sets an arc's shorts open, and the sums over a package that the tally keeps.\<close>

definition sets_in :: "nat \<Rightarrow> arc \<Rightarrow> nat" where
  "sets_in k a = (if a_side a = Short then (a_hi a - a_lo a) * k else 0)"

definition resting_of :: "nat \<Rightarrow> (arc \<times> nat) list \<Rightarrow> int" where
  "resting_of k fs = (\<Sum>f\<leftarrow>fs. int (snd f) * int (pay_in k (fst f)))"

definition sets_of :: "nat \<Rightarrow> (arc \<times> nat) list \<Rightarrow> int" where
  "sets_of k fs = (\<Sum>f\<leftarrow>fs. int (snd f) * int (sets_in k (fst f)))"

definition tallies :: "nat \<Rightarrow> (arc \<times> nat) list \<Rightarrow> tally \<Rightarrow> tally \<Rightarrow> bool" where
  "tallies k fs ta ta' \<longleftrightarrow> ta_resting ta' = ta_resting ta + resting_of k fs \<and> ta_short_sets ta' = ta_short_sets ta + sets_of k fs"

lemma tallies_simps [simp]: "tallies k [] ta ta"
  by (simp add: tallies_def resting_of_def sets_of_def)

lemma tally_arc_tallies:
  assumes "tally_arc k a lots (lots * pay_in k a) ta = Some ta1" "tallies k rest ta1 ta'"
  shows "tallies k ((a, lots) # rest) ta ta'"
proof -
  have "ta_resting ta1 = ta_resting ta + int lots * int (pay_in k a)"
    "ta_short_sets ta1 = ta_short_sets ta + int lots * int (sets_in k a)"
    using assms(1) by (auto simp: tally_arc_def option_bind_eq_Some checked_simps set_value_def sets_in_def algebra_simps split: if_splits)
  then show ?thesis using assms(2) by (simp add: tallies_def resting_of_def sets_of_def)
qed

definition fills_gain :: "market \<Rightarrow> nat \<Rightarrow> (arc \<times> nat) list \<Rightarrow> (nat \<Rightarrow> bool) \<Rightarrow> nat \<Rightarrow> int" where
  "fills_gain m k fs P s = (\<Sum>f\<leftarrow>fs. arc_gain m k f P s)"

lemma fills_gain_simps [simp]:
  "fills_gain m k [] P s = 0" "fills_gain m k (f # fs) P s = arc_gain m k f P s + fills_gain m k fs P s"
  by (simp_all add: fills_gain_def)

lemma fill_arcs_facts:
  "fill_arcs cs now m fs ta = Some (Inr (m', ta')) \<Longrightarrow> \<forall>f\<in>set fs. in_book m0 (fst f) \<Longrightarrow> filling m0 m \<Longrightarrow> orders_formed m0 \<Longrightarrow>
    filling m0 m' \<and> steps_to m m' (\<lambda>P s. fills_gain m0 (h_k (m_head m)) fs P s
      - (owing m0 (h_k (m_head m)) (ta_makers ta') P - owing m0 (h_k (m_head m)) (ta_makers ta) P))
    \<and> tallies (h_k (m_head m)) fs ta ta'"
proof (induction cs now m fs ta rule: fill_arcs.induct)
  case (1 cs now m ta)
  then show ?case by (auto intro: steps_to_cong [OF steps_to_refl])
next
  case (2 cs now m a lots rest ta)
  show ?case
  proof (cases "lots = 0")
    case True
    then show ?thesis using 2 by (simp add: arc_gain_def arc_profile_def tallies_def resting_of_def sets_of_def cong: if_cong)
  next
    case False
    let ?ta = "ta\<lparr>ta_credit_filled := ta_credit_filled ta \<or> (cs \<noteq> None \<and> arc_trader m a = cs)\<rparr>"
    obtain per c ta1 m1 mks where per: "contribution (a_side a) (a_lo a) (a_hi a) (a_price a) (h_k (m_head m)) = Some per"
      and c: "c = lots * per" and ta1: "tally_arc (h_k (m_head m)) a lots c ?ta = Some ta1"
      and 3: "fill_arc m a lots c now (ta_makers ta1) = Some (Inr (m1, mks))"
      and 4: "fill_arcs cs now m1 rest (ta1\<lparr>ta_makers := mks\<rparr>) = Some (Inr (m', ta'))"
      using 2(3) False by (auto simp: res_simps option_bind_eq_Some Let_def)
    have mks0: "ta_makers ta1 = ta_makers ta" using ta1 by (auto simp: tally_arc_def option_bind_eq_Some)
    have b: "in_book m0 a" "\<forall>f\<in>set rest. in_book m0 (fst f)" using 2(4) by simp_all
    have fa: "filling m0 m1" "steps_to m m1 (\<lambda>P s. arc_gain m0 (h_k (m_head m)) (a, lots) P s
        - (owing m0 (h_k (m_head m)) mks P - owing m0 (h_k (m_head m)) (ta_makers ta) P))"
      using fill_arc_facts [OF 3 _ _ b(1) 2(5,6)] False contribution_pay_in [OF per] c mks0 by simp_all
    have k1: "h_k (m_head m1) = h_k (m_head m)" by (rule steps_to_shape(3) [OF fa(2)])
    have IH: "filling m0 m' \<and> steps_to m1 m' (\<lambda>P s. fills_gain m0 (h_k (m_head m)) rest P s
        - (owing m0 (h_k (m_head m)) (ta_makers ta') P - owing m0 (h_k (m_head m)) mks P))
        \<and> tallies (h_k (m_head m)) rest (ta1\<lparr>ta_makers := mks\<rparr>) ta'"
      using 2(2) [OF False refl per ta1 4 b(2) fa(1) 2(6)] k1 by simp
    have "tallies (h_k (m_head m)) ((a, lots) # rest) ?ta ta'"
      by (rule tally_arc_tallies [OF ta1 [unfolded c contribution_pay_in [OF per]]]) (use IH in \<open>simp add: tallies_def\<close>)
    then show ?thesis
      using IH steps_to_cong [OF steps_to_trans [OF fa(2) conjunct1 [OF conjunct2 [OF IH]]]] by (simp add: algebra_simps tallies_def)
  qed
qed

subsection \<open>The ladders pay\<close>

definition same_makers :: "market \<Rightarrow> market \<Rightarrow> bool" where
  "same_makers m0 m \<longleftrightarrow> length (m_makers m) = length (m_makers m0)
     \<and> (\<forall>i<length (m_makers m0). mk_used (m_makers m ! i) = mk_used (m_makers m0 ! i) \<and> mk_trader (m_makers m ! i) = mk_trader (m_makers m0 ! i))"

lemma put_maker_steps:
  assumes "i < length (m_makers m)" "mk_used mk = mk_used (m_makers m ! i)" "mk_trader mk = mk_trader (m_makers m ! i)"
  shows "steps_to m (put_maker m i mk) (\<lambda>P s. 0)"
proof -
  have "makers_val P k s (zip ((m_makers m)[i := mk]) (m_steps m)) = makers_val P k s (zip (m_makers m) (m_steps m))" for P k s
  proof (cases "i < length (m_steps m)")
    case True
    have "zip ((m_makers m)[i := mk]) (m_steps m) = (zip (m_makers m) (m_steps m))[i := (mk, m_steps m ! i)]"
      using update_zip [of "m_makers m" "m_steps m" i "(mk, m_steps m ! i)"] by simp
    then show ?thesis using assms True by (simp add: makers_val_put maker_val_def)
  next
    case False
    then have "zip ((m_makers m)[i := mk]) (m_steps m) = zip (m_makers m) (m_steps m)"
      by (intro nth_equalityI) auto
    then show ?thesis by simp
  qed
  then show ?thesis by (simp add: steps_to_def flows_def put_maker_def terms_def drift_def worth_def formed_def on_grid_def)
qed

lemma pay_ladder_facts:
  assumes "pay_ladder m x = Some (Inr m')"
  shows "fst x < length (m_makers m)
    \<and> steps_to m m' (\<lambda>P s. if P (mk_trader (m_makers m ! fst x)) then due_of (h_k (m_head m)) (snd x) else 0)
    \<and> same_makers m m' \<and> m_orders m' = m_orders m \<and> m_steps m' = m_steps m \<and> m_claims m' = m_claims m"
proof -
  obtain i e b n where x: "x = (i, e, b, n)" by (cases x)
  define mk where "mk = m_makers m ! i"
  let ?t = "mk_trader mk" and ?k = "h_k (m_head m)"
  obtain m1 m2 where i: "i < length (m_makers m)" "e \<le> mk_escrow mk"
    and 1: "reserved_to_backing (put_maker m i (mk\<lparr>mk_escrow := mk_escrow mk - e\<rparr>)) ?t e = Some (Inr m1)" (is "reserved_to_backing ?m _ _ = _")
    and 2: "(if 0 < n then andthen (mul_u64 n (h_k (m_head (m1\<lparr>m_head := (m_head m1)\<lparr>h_backing := h_backing (m_head m1) + b\<rparr>\<rparr>))))
        (\<lambda>cash. backing_to_free (m1\<lparr>m_head := (m_head m1)\<lparr>h_backing := h_backing (m_head m1) + b\<rparr>\<rparr>) ?t cash)
      else Some (Inr (m1\<lparr>m_head := (m_head m1)\<lparr>h_backing := h_backing (m_head m1) + b\<rparr>\<rparr>))) = Some (Inr m2)"
    and 3: "debit_free m2 ?t b = Some (Inr m')"
    using assms unfolding x mk_def by (auto simp: pay_ladder_def res_simps option_bind_eq_Some slot_Some checked_simps Let_def)
  let ?m1 = "m1\<lparr>m_head := (m_head m1)\<lparr>h_backing := h_backing (m_head m1) + b\<rparr>\<rparr>"
  have s0: "steps_to m ?m (\<lambda>P s. 0)" by (rule put_maker_steps) (simp_all add: i mk_def)
  note r = reserved_to_backing_moves [OF 1]
  have s1: "steps_to ?m m1 (\<lambda>P s. - at P ?t e)" using r formed_same by (intro moves_steps_to) auto
  have s2: "moves m1 ?m1 (\<lambda>P s. 0)" by (rule moves_head) (simp_all add: terms_def)
  have k1: "h_k (m_head m1) = ?k" using moves_terms(1) [OF conjunct1 [OF r]] by (simp add: put_maker_def)
  have s3: "moves ?m1 m2 (\<lambda>P s. at P ?t (n * ?k)) \<and> m_claims m2 = m_claims m1"
  proof (cases "0 < n")
    case True
    then have "backing_to_free ?m1 ?t (n * ?k) = Some (Inr m2)" using 2 by (auto simp: res_simps k1)
    from backing_to_free_moves [OF this] show ?thesis by simp
  next
    case False
    then have "m2 = ?m1" using 2 by simp
    then show ?thesis using False by (simp add: moves_def at_def)
  qed
  note d = debit_free_moves [OF 3]
  have mv: "moves m1 m' (\<lambda>P s. at P ?t (n * ?k) - at P ?t b)"
    by (rule moves_cong [OF moves_trans [OF moves_trans [OF s2 conjunct1 [OF s3]] conjunct1 [OF d]]]) simp
  have s4: "steps_to m1 m' (\<lambda>P s. at P ?t (n * ?k) - at P ?t b)"
    using mv s3 d formed_same [OF mv] by (intro moves_steps_to) auto
  have "steps_to m m' (\<lambda>P s. if P (mk_trader (m_makers m ! fst x)) then due_of ?k (snd x) else 0)"
    by (rule steps_to_cong [OF steps_to_trans [OF steps_to_trans [OF s0 s1] s4]])
      (auto simp: x at_def due_of_def mk_def)
  moreover have "m_makers m' = (m_makers m)[i := mk\<lparr>mk_escrow := mk_escrow mk - e\<rparr>]" "m_orders m' = m_orders m" "m_steps m' = m_steps m"
    "m_claims m' = m_claims m"
    using mv r s3 d by (simp_all add: moves_def put_maker_def)
  ultimately show ?thesis using i(1) by (auto simp: x same_makers_def nth_list_update mk_def)
qed

lemma pay_ladders_facts:
  "pay_ladders m xs = Some (Inr m') \<Longrightarrow> same_makers m0 m \<Longrightarrow>
    steps_to m m' (\<lambda>P s. owing m0 (h_k (m_head m)) xs P) \<and> same_makers m0 m' \<and> m_orders m' = m_orders m \<and> m_steps m' = m_steps m
    \<and> m_claims m' = m_claims m"
proof (induction xs arbitrary: m)
  case Nil
  then show ?case by auto
next
  case (Cons x xs)
  obtain m1 where 1: "pay_ladder m x = Some (Inr m1)" and 2: "pay_ladders m1 xs = Some (Inr m')"
    using Cons.prems(1) by (auto simp: res_simps)
  note p = pay_ladder_facts [OF 1]
  have sm: "same_makers m0 m1" using Cons.prems(2) p by (simp add: same_makers_def)
  have IH: "steps_to m1 m' (\<lambda>P s. owing m0 (h_k (m_head m1)) xs P) \<and> same_makers m0 m' \<and> m_orders m' = m_orders m1
      \<and> m_steps m' = m_steps m1 \<and> m_claims m' = m_claims m1"
    using Cons.IH [OF 2 sm] by simp
  have k: "h_k (m_head m1) = h_k (m_head m)" using steps_to_shape(3) p by blast
  have "mk_trader (m_makers m ! fst x) = mk_trader (m_makers m0 ! fst x)" using Cons.prems(2) p by (simp add: same_makers_def)
  then have "steps_to m m' (\<lambda>P s. owing m0 (h_k (m_head m)) (x # xs) P)"
    using steps_to_cong [OF steps_to_trans [OF conjunct1 [OF conjunct2 [OF p]] conjunct1 [OF IH]]] by (simp add: k)
  then show ?case using IH p by simp
qed

end
