(* ===== verification/Market_Book.thy ===== *)
theory Market_Book
  imports Market_Fills
begin

text \<open>
  The book the verifier is shown is the market's own, and the payoffs of an accepted package, the taker's included,
  add up to the same amount at every settlement.
\<close>

lemma collect_mem: "collect f xs = Some ys \<Longrightarrow> y \<in> set ys \<Longrightarrow> \<exists>x\<in>set xs. \<exists>zs. f x = Some zs \<and> y \<in> set zs"
  by (induction xs arbitrary: ys) (auto simp: option_bind_eq_Some)

lemma book_arcs_in:
  assumes "book_arcs m = Some arcs" "a \<in> set arcs"
  shows "in_book m a"
proof -
  obtain ladders where l: "collect (ladder_arcs m) [0..<length (m_makers m)] = Some ladders" and "arcs = order_arcs (m_orders m) @ ladders"
    using assms(1) by (auto simp: book_arcs_def option_bind_eq_Some)
  then consider "a \<in> set (order_arcs (m_orders m))" | "a \<in> set ladders" using assms(2) by auto
  then show ?thesis
  proof cases
    case 1
    then show ?thesis by (auto simp: order_arcs_def order_arc_def in_book_def)
  next
    case 2
    obtain i zs where i: "i < length (m_makers m)" "ladder_arcs m i = Some zs" "a \<in> set zs"
      using collect_mem [OF l 2] by auto
    then have used: "mk_used (m_makers m ! i)" by (auto simp: ladder_arcs_def Let_def split: if_splits)
    then obtain sizes ss where c: "collect (step_arcs (h_k (m_head m)) i (m_makers m ! i) sizes ss)
        [mk_lo (m_makers m ! i)..<mk_hi (m_makers m ! i)] = Some zs"
      using i by (auto simp: ladder_arcs_def Let_def option_bind_eq_Some split: if_splits)
    obtain x ys where "step_arcs (h_k (m_head m)) i (m_makers m ! i) sizes ss x = Some ys" "a \<in> set ys"
      using collect_mem [OF c i(3)] by blast
    then show ?thesis
      using i(1) used by (auto simp: step_arcs_def option_bind_eq_Some side_arcs_def tier_arc_def in_book_def Let_def case_prod_beta)
  qed
qed

lemma long_spec_ends:
  assumes "lo \<le> hi"
  shows "int (long_spec lo hi s k) = int (min s (hi * k)) - int (min s (lo * k))"
proof -
  have "int (min (s - a) (b - a)) = int (min s b) - int (min s a)" if "a \<le> b" for a b
    using that by (auto simp: min_def)
  from this [OF mult_le_mono1 [OF assms, of k]] show ?thesis by (simp only: long_spec_def diff_mult_distrib)
qed

lemma balanced_payoffs:
  assumes "balanced all x" "\<forall>a\<in>set all. a_lo a < a_hi a"
  shows "(\<Sum>i<length all. int (x ! i) * unit_pay k s (a_side (all ! i) = Long) (a_lo (all ! i)) (a_hi (all ! i)))
    = (\<Sum>i<length all. int (x ! i) * int (sets_in k (all ! i)))"
proof -
  define pot where "pot = (\<lambda>p. int (min s (p * k)))"
  have "(\<Sum>i<length all. int (x ! i) * (pot (head (all ! i)) - pot (tail (all ! i)))) = 0"
    using assms(1) unfolding balanced_def by (rule circulation_potential)
  moreover have "int (x ! i) * unit_pay k s (a_side (all ! i) = Long) (a_lo (all ! i)) (a_hi (all ! i))
      = int (x ! i) * int (sets_in k (all ! i)) + int (x ! i) * (pot (head (all ! i)) - pot (tail (all ! i)))" if "i < length all" for i
  proof -
    have "a_lo (all ! i) \<le> a_hi (all ! i)" using assms(2) that by (simp add: less_imp_le)
    note e = long_spec_ends [OF this, of s k]
    show ?thesis
      by (cases "a_side (all ! i)") (simp_all add: unit_pay_def sets_in_def e pot_def head_def tail_def algebra_simps)
  qed
  ultimately show ?thesis by (simp add: sum.distrib)
qed

text \<open>A submitted package, and the taker's arc with it.\<close>

lemma package_payoffs:
  assumes "verify arcs (Some tk) fills tf pots grid lim = Some (Inr w)" "grid < U16_MAX"
  defines "fs \<equiv> zip arcs fills @ [(taker_arc tk, tf)]"
  shows "(\<Sum>f\<leftarrow>fs. int (snd f) * unit_pay k s (a_side (fst f) = Long) (a_lo (fst f)) (a_hi (fst f))) = (\<Sum>f\<leftarrow>fs. int (snd f) * int (sets_in k (fst f)))"
proof -
  let ?all = "book arcs (Some tk)" and ?x = "package fills (Some tk) tf"
  note v = verify_nodes [OF assms(1,2)]
  have len: "length fills = length arcs" by (rule verify_shapes(1) [OF assms(1)])
  have fs: "fs = zip ?all ?x" using len by (simp add: fs_def book_def package_def)
  have l: "length fs = length ?all" using v(3) by (simp add: fs)
  have "(\<Sum>f\<leftarrow>fs. g f) = (\<Sum>i<length ?all. g (?all ! i, ?x ! i))" for g :: "arc \<times> nat \<Rightarrow> int"
    using v(3) by (simp add: fs sum_list_sum_nth atLeast0LessThan)
  then show ?thesis
    using balanced_payoffs [of ?all ?x k s] v(2) verify_shapes(2) [OF assms(1)] by (simp add: feasible_def)
qed

end
