(* ===== verification/Market_Trade.thy ===== *)
theory Market_Trade
  imports Market_Book
begin

text \<open>
  A whole package: the resting fills, the ladders' payments, the taker and what rests of its order. Changes that lend
  to the credit owner are tracked by \<open>carries\<close>, which also lets the counters of trades move.
\<close>

definition carries :: "market \<Rightarrow> market \<Rightarrow> ((nat \<Rightarrow> bool) \<Rightarrow> nat \<Rightarrow> int) \<Rightarrow> nat \<Rightarrow> bool" where
  "carries m m' d l \<longleftrightarrow>
     h_k (m_head m') = h_k (m_head m) \<and> h_grid (m_head m') = h_grid (m_head m) \<and> h_status (m_head m') = h_status (m_head m)
     \<and> h_settlement_fine (m_head m') = h_settlement_fine (m_head m) \<and> h_custody (m_head m') = h_custody (m_head m)
     \<and> h_credit_owner (m_head m') = h_credit_owner (m_head m) \<and> h_credit_flags (m_head m') = h_credit_flags (m_head m)
     \<and> h_debt (m_head m') = h_debt (m_head m) + l \<and> (0 < l \<longrightarrow> has_credit (m_head m)) \<and> drift m' = drift m
     \<and> map tr_owner (m_traders m') = map tr_owner (m_traders m)
     \<and> (\<forall>P s. worth P m' s = worth P m s + d P s) \<and> (formed m \<longrightarrow> formed m') \<and> (on_grid m \<longrightarrow> on_grid m')"

lemma steps_to_carries: "steps_to m m' d \<Longrightarrow> carries m m' d 0"
  using flows_terms [of m m' d] by (simp add: carries_def steps_to_def flows_def)

lemma carries_refl: "carries m m (\<lambda>P s. 0) 0"
  by (simp add: carries_def)

lemma carries_trans: "carries m m' d l \<Longrightarrow> carries m' m'' e j \<Longrightarrow> carries m m'' (\<lambda>P s. d P s + e P s) (l + j)"
  by (auto simp: carries_def has_credit_def)

lemma carries_cong: "carries m m' d l \<Longrightarrow> (\<And>P s. d P s = e P s) \<Longrightarrow> carries m m' e l"
  by (simp add: carries_def)

lemma carries_traders: "carries m m' d l \<Longrightarrow> length (m_traders m') = length (m_traders m)"
  by (metis carries_def length_map)

lemma moves_same_carries:
  assumes "moves m m' d" "m_claims m' = m_claims m"
  shows "carries m m' d 0"
  using assms formed_same by (intro steps_to_carries moves_steps_to) auto

text \<open>The records besides the traders'.\<close>

definition same_books :: "market \<Rightarrow> market \<Rightarrow> bool" where
  "same_books m m' \<longleftrightarrow> m_orders m' = m_orders m \<and> m_makers m' = m_makers m \<and> m_steps m' = m_steps m \<and> m_claims m' = m_claims m"

lemma same_books_refl [simp]: "same_books m m"
  by (simp add: same_books_def)

lemma same_books_trans [trans]: "same_books m m' \<Longrightarrow> same_books m' m'' \<Longrightarrow> same_books m m''"
  by (simp add: same_books_def)

lemma moves_same_books: "moves m m' d \<Longrightarrow> m_claims m' = m_claims m \<Longrightarrow> same_books m m'"
  by (simp add: moves_def same_books_def)

lemma same_books_holds:
  assumes "same_books m m'"
  shows "holds_but m' i = holds_but m i" "hold_at m' i r = hold_at m i r" "holds_ok m' = holds_ok m"
  using assms by (simp_all add: same_books_def holds_but_def hold_at_def holds_ok_def held_for_def apart_from_def)

lemma head_carries:
  assumes "h = (m_head m)\<lparr>h_trades := a, h_volume_lots := b, h_volume_premium := c, h_last_entry_fine := d, h_last_trade_ts := e\<rparr>"
  shows "carries m (m\<lparr>m_head := h\<rparr>) (\<lambda>P s. 0) 0"
  by (simp add: assms carries_def drift_def worth_def formed_def on_grid_def)

lemma fund_carries:
  assumes "fund m t amount now = Some (Inr (m', l))"
  shows "carries m m' (\<lambda>P s. at P t l) l \<and> same_books m m'"
proof (cases "m' = m \<and> l = 0")
  case True
  then show ?thesis using carries_refl [of m] by simp
next
  case False
  then obtain m1 where 1: "credit_free m t l = Some (Inr m1)" and hc: "has_credit (m_head m)"
    and m': "m' = m1\<lparr>m_head := (m_head m1)\<lparr>h_debt := h_debt (m_head m1) + l\<rparr>\<rparr>"
    using assms by (auto simp: fund_def res_simps option_bind_eq_Some Let_def split: if_splits)
  note c = credit_free_moves [OF 1]
  have "terms m1 = terms m" using c by (simp add: moves_def)
  then have "has_credit (m_head m1)" using hc terms_eq(7) [of m1 m] by (simp add: has_credit_def)
  then have "carries m1 m' (\<lambda>P s. 0) l" by (simp add: m' carries_def drift_def worth_def formed_def on_grid_def)
  from carries_trans [OF moves_same_carries [OF conjunct1 [OF c] conjunct2 [OF c]] this]
  show ?thesis using moves_same_books [OF conjunct1 [OF c] conjunct2 [OF c]] by (simp add: same_books_def m')
qed

lemma reserve_moves:
  assumes "reserve m i amount = Some (Inr m')"
  shows "moves m m' (\<lambda>P s. 0) \<and> m_claims m' = m_claims m"
proof -
  obtain t tf tr where t: "slot (m_traders m) i = Some t" "amount \<le> tr_free t"
    and tot: "amount \<le> h_total_free (m_head m)"
    and m': "m' = put_trader (m\<lparr>m_head := (m_head m)\<lparr>h_total_free := h_total_free (m_head m) - amount,
        h_total_reserved := h_total_reserved (m_head m) + amount\<rparr>\<rparr>) i
      (t\<lparr>tr_free := tr_free t - amount, tr_reserved := tr_reserved t + amount\<rparr>)"
    using assms by (auto simp: reserve_def res_simps option_bind_eq_Some)
  have "moves m m' (\<lambda>P s. if P i then 0 else 0) \<and> m_claims m' = m_claims m"
    by (rule moves_cash [OF t(1) m']) (use t(2) tot in \<open>simp_all add: terms_def\<close>)
  then show ?thesis by simp
qed

lemma check_credit_carries:
  assumes "check_credit m t approval = Some (Inr m')"
  shows "carries m m' (\<lambda>P s. 0) 0 \<and> same_books m m'"
proof -
  have "m' = m \<or> (\<exists>x. m' = set_approval m x)"
    using assms by (auto simp: check_credit_def res_simps option_bind_eq_Some Let_def split: if_splits)
  moreover have "carries m (set_approval m x) (\<lambda>P s. 0) 0 \<and> same_books m (set_approval m x)" for x
    by (simp add: carries_def same_books_def set_approval_def drift_def worth_def formed_def on_grid_def)
  ultimately show ?thesis using carries_refl by auto
qed

subsection \<open>The taker\<close>

definition taker_paid :: "side \<Rightarrow> nat \<Rightarrow> nat \<Rightarrow> tally \<Rightarrow> int" where
  "taker_paid sd filled width ta = (if filled = 0 then 0
     else ta_short_sets ta + (if sd = Short then int width * int filled else 0) - ta_resting ta)"

definition taker_gain :: "nat \<Rightarrow> submit_params \<Rightarrow> side \<Rightarrow> nat \<Rightarrow> nat \<Rightarrow> int \<Rightarrow> (nat \<Rightarrow> bool) \<Rightarrow> nat \<Rightarrow> int" where
  "taker_gain k p sd t filled paid P s = (if P t then int filled * unit_pay k s (sd = Long) (sb_lo p) (sb_hi p) - paid else 0)"

lemma back_sets_moves:
  assumes "back_sets m t paid = Some (Inr m')"
  shows "moves m m' (\<lambda>P s. if P t then max (- paid) 0 else 0) \<and> m_claims m' = m_claims m"
proof (cases "0 \<le> paid")
  case True
  then obtain b where m': "m' = m\<lparr>m_head := (m_head m)\<lparr>h_backing := b\<rparr>\<rparr>" using assms by (auto simp: back_sets_def res_simps)
  have "moves m m' (\<lambda>P s. 0)" unfolding m' by (rule moves_head) (simp_all add: terms_def)
  then have "moves m m' (\<lambda>P s. if P t then max (- paid) 0 else 0)" by (rule moves_cong) (use True in simp)
  then show ?thesis by (simp add: m')
next
  case False
  then have b: "backing_to_free m t (nat (- paid)) = Some (Inr m')" using assms by (auto simp: back_sets_def to_u64_def res_simps split: if_splits)
  note b = backing_to_free_moves [OF b]
  have "moves m m' (\<lambda>P s. if P t then max (- paid) 0 else 0)" by (rule moves_cong [OF conjunct1 [OF b]]) (use False in \<open>simp add: at_def\<close>)
  then show ?thesis using b by simp
qed

lemma pay_taken_carries:
  assumes "pay_taken m t paid now = Some (Inr m')"
  shows "\<exists>l. carries m m' (\<lambda>P s. at P t l - (if P t then max paid 0 else 0)) l \<and> same_books m m'"
proof (cases "0 < paid")
  case True
  then obtain m1 l where 1: "fund m t (nat paid) now = Some (Inr (m1, l))" and 2: "debit_free m1 t (nat paid) = Some (Inr m')"
    using assms by (auto simp: pay_taken_def to_u64_def res_simps split: if_splits)
  note f = fund_carries [OF 1] and d = debit_free_moves [OF 2]
  have "carries m m' (\<lambda>P s. at P t l + - at P t (nat paid)) (l + 0)"
    by (rule carries_trans [OF conjunct1 [OF f] moves_same_carries [OF conjunct1 [OF d] conjunct2 [OF d]]])
  then have "carries m m' (\<lambda>P s. at P t l - (if P t then max paid 0 else 0)) (l + 0)"
    by (rule carries_cong) (use True in \<open>simp add: at_def\<close>)
  moreover have "same_books m m'" using f d moves_same_books same_books_trans by blast
  ultimately show ?thesis by auto
next
  case False
  then have "m' = m" using assms by (simp add: pay_taken_def)
  moreover have "carries m m (\<lambda>P s. at P t 0 - (if P t then max paid 0 else 0)) 0"
    by (rule carries_cong [OF carries_refl]) (use False in simp)
  ultimately show ?thesis by (intro exI [of _ 0]) simp
qed

lemma count_trade_carries:
  assumes "count_trade m p filled premium now = Some (Inr m')"
  shows "carries m m' (\<lambda>P s. 0) 0 \<and> same_books m m'"
  using assms head_carries by (auto simp: count_trade_def res_simps option_bind_eq_Some same_books_def Let_def)

lemma take_fill_facts:
  assumes "take_fill m p sd t close filled width ta now = Some (Inr (m', taken))" "formed m"
    "from_u8 (sb_side p) = Some sd" "sb_lo p < sb_hi p" "sb_hi p \<le> h_grid (m_head m)" "t < length (m_traders m)"
  shows "\<exists>l. carries m m' (\<lambda>P s. taker_gain (h_k (m_head m)) p sd t filled (taker_paid sd filled width ta) P s + at P t l) l
    \<and> (holds_ok m \<longrightarrow> holds_ok m') \<and> m_orders m' = m_orders m \<and> m_makers m' = m_makers m \<and> m_steps m' = m_steps m"
proof (cases "filled = 0")
  case True
  then have "m' = m" using assms(1) by (auto simp: take_fill_def option_bind_eq_Some)
  then show ?thesis using True carries_refl [of m] by (intro exI [of _ 0]) (simp add: taker_gain_def taker_paid_def cong: if_cong)
next
  case False
  let ?paid = "taker_paid sd filled width ta" and ?k = "h_k (m_head m)"
  obtain prem m1 m2 m3 spent where 1: "back_sets m t ?paid = Some (Inr m1)"
    and 2: "place m1 (taker_claim p t filled spent now) (map_option (\<lambda>c. (c, False)) close) None = Some (Inr (m2, taken))"
    and 3: "pay_taken m2 t ?paid now = Some (Inr m3)" and 4: "count_trade m3 p filled prem now = Some (Inr m')"
    using assms(1) False
    by (auto simp: take_fill_def res_simps option_bind_eq_Some checked_simps taker_paid_def split: if_splits)
  note b = back_sets_moves [OF 1]
  note t1 = moves_terms [OF conjunct1 [OF b]]
  have f1: "formed m1" using b formed_same assms(2) by blast
  have side: "sb_side p \<le> 1" "sb_side p = 0 \<longleftrightarrow> sd = Long" using assms(3) by (auto split: if_splits)
  have sh: "shaped (h_grid (m_head m1)) (length (m_traders m1)) (taker_claim p t filled spent now)"
    using side assms(4-6) t1 by (simp add: shaped_def taker_claim_def)
  note pl = place_moves [OF 2 f1 sh]
  have pl: "moves m1 m2 (\<lambda>P s. val P ?k s (taker_claim p t filled spent now)) \<and> formed m2" using pl t1 by (simp add: joins_def)
  obtain l where l: "carries m2 m3 (\<lambda>P s. at P t l - (if P t then max ?paid 0 else 0)) l" "same_books m2 m3"
    using pay_taken_carries [OF 3] by blast
  note c = count_trade_carries [OF 4]
  have mv: "moves m m2 (\<lambda>P s. (if P t then max (- ?paid) 0 else 0) + val P ?k s (taker_claim p t filled spent now))"
    by (rule moves_trans [OF conjunct1 [OF b] conjunct1 [OF pl]])
  have c1: "carries m m2 (\<lambda>P s. (if P t then max (- ?paid) 0 else 0) + val P ?k s (taker_claim p t filled spent now)) 0"
    using mv pl by (intro steps_to_carries moves_steps_to) auto
  have "carries m m' (\<lambda>P s. taker_gain ?k p sd t filled ?paid P s + at P t l) l"
    using carries_trans [OF carries_trans [OF c1 l(1)] conjunct1 [OF c]]
    by (auto elim!: carries_cong simp: taker_gain_def val_def pays_def taker_claim_def side max_def)
  moreover have "holds_ok m \<longrightarrow> holds_ok m'"
    using holds_moves(3) [OF mv] same_books_holds(3) [OF same_books_trans [OF l(2) conjunct2 [OF c]]] by simp
  moreover have "m_orders m' = m_orders m" "m_makers m' = m_makers m" "m_steps m' = m_steps m"
    using mv l(2) c by (simp_all add: moves_def same_books_def)
  ultimately show ?thesis by blast
qed

subsection \<open>What rests\<close>

lemma take_hold_found:
  assumes "take_hold m r prefer = Some (Inr (m', j))"
  obtains "fits m r j" "m' = put_claim m j ((m_claims m ! j)\<lparr>c_held := True\<rparr>)"
  | m1 m2 seq where "free_slot m = Some (Inr (m1, j))" "next_seq m1 = Some (Inr (m2, seq))"
    "m' = put_claim m2 j (claim_default\<lparr>c_seq := seq, c_trader := o_trader r, c_side := o_side r, c_lo := o_lo r, c_hi := o_hi r, c_held := True\<rparr>)"
proof -
  obtain tr where tr: "trader_of m (o_trader r) = Some tr" using assms by (auto simp: take_hold_def option_bind_eq_Some)
  define found where "found = (case prefer of
      Some i \<Rightarrow> if fits m r i then Some i else if 0 < tr_claims tr then find (fits m r) [0..<length (m_claims m)] else None
    | None \<Rightarrow> if 0 < tr_claims tr then find (fits m r) [0..<length (m_claims m)] else None)"
  have f: "\<forall>i. found = Some i \<longrightarrow> fits m r i"
    by (auto simp: found_def find_Some_iff split: option.splits if_splits)
  have c: "(case found of Some i \<Rightarrow> Some (Inr (put_claim m i ((m_claims m ! i)\<lparr>c_held := True\<rparr>), i))
     | None \<Rightarrow> andthen (free_slot m) (\<lambda>(m, i). andthen (next_seq m) (\<lambda>(m, seq).
         Some (Inr (put_claim m i (claim_default\<lparr>c_seq := seq, c_trader := o_trader r, c_side := o_side r,
           c_lo := o_lo r, c_hi := o_hi r, c_held := True\<rparr>), i))))) = Some (Inr (m', j))"
    using assms unfolding take_hold_def Let_def tr found_def by simp
  show thesis
  proof (cases found)
    case None
    then show thesis using c that(2) by (auto simp: res_simps)
  next
    case (Some i)
    then show thesis using c f that(1) by auto
  qed
qed

lemma take_hold_facts:
  assumes "take_hold m r prefer = Some (Inr (m', j))" "formed m"
    "order_shaped (h_grid (m_head m)) (length (m_traders m)) r"
  shows "moves m m' (\<lambda>P s. 0) \<and> formed m' \<and> \<not> c_held (m_claims m ! j) \<and> held_for m' (r\<lparr>o_claim := j\<rparr>)"
  using assms(1)
proof (cases rule: take_hold_found)
  case 1
  let ?c = "m_claims m ! j"
  have j: "j < length (m_claims m)" "0 < c_lots ?c" "\<not> c_held ?c" "order_kind r ?c" using 1 by (auto simp: fits_def Let_def order_kind_def)
  have mv: "moves m m' (\<lambda>P s. 0)" unfolding 1(2)
    by (rule moves_cong [OF moves_put_claim [OF j(1)]]) (use j in \<open>simp_all add: stays_held_def val_def pays_def\<close>)
  have "formed m'"
    by (rule formed_put [OF mv assms(2)]) (use 1 j formed_at [OF assms(2) j(1)] in \<open>auto simp: put_claim_def claim_formed_def shaped_def\<close>)
  then show ?thesis using mv j 1(2) by (simp add: held_for_def put_claim_def order_kind_def)
next
  case (2 m1 m2 seq)
  let ?c = "claim_default\<lparr>c_seq := seq, c_trader := o_trader r, c_side := o_side r, c_lo := o_lo r, c_hi := o_hi r, c_held := True\<rparr>"
  note f = free_slot_moves [OF 2(1)] and n = next_seq_moves [OF 2(2)]
  have m2: "moves m m2 (\<lambda>P s. 0)" using moves_trans [OF conjunct1 [OF f] conjunct1 [OF n]] by simp
  have j: "j < length (m_claims m2)" "m_claims m2 = m_claims m" "vacant (m_claims m ! j)" using f n by simp_all
  have "moves m2 m' (\<lambda>P s. 0)" unfolding 2(3)
    by (rule moves_cong [OF moves_put_claim [OF j(1)]])
      (use j in \<open>simp_all add: stays_held_def vacant_def val_def pays_def claim_default_def\<close>)
  from moves_trans [OF m2 this] have mv: "moves m m' (\<lambda>P s. 0)" by simp
  have "formed m'"
    by (rule formed_put [OF mv assms(2), of j ?c]) (use 2(3) j(2) assms(3) in
      \<open>simp_all add: put_claim_def claim_formed_def shaped_def order_shaped_def\<close>)
  then show ?thesis using mv j 2(3) by (simp add: held_for_def put_claim_def order_kind_def vacant_def)
qed

lemma ORDER_CLOSE_closes: "closes (r\<lparr>o_escrow_per_lot := a, o_flags := ORDER_CLOSE, o_claim := c\<rparr>)"
  by (simp add: closes_def ORDER_CLOSE_def)

lemma bind_order_facts:
  assumes "bind_order m r close taken = Some (Inr (m', r'))" "formed m" "holds_ok m" "i < length (m_orders m)"
    "order_shaped (h_grid (m_head m)) (length (m_traders m)) r"
  shows "moves m m' (\<lambda>P s. 0) \<and> formed m' \<and> holds_but m' i \<and> hold_at m' i r' \<and> order_formed (h_grid (m_head m)) (length (m_traders m)) r'"
proof (cases close)
  case (Some c)
  obtain x where c: "c < length (m_claims m)" and m': "m' = put_claim m c ((m_claims m ! c)\<lparr>c_reserved := x\<rparr>)"
    and r': "r' = r\<lparr>o_escrow_per_lot := 0, o_flags := ORDER_CLOSE, o_claim := c\<rparr>"
    using assms(1) Some by (auto simp: bind_order_def res_simps option_bind_eq_Some slot_Some checked_simps)
  have mv: "moves m m' (\<lambda>P s. 0)" unfolding m'
    by (rule moves_cong [OF moves_put_claim [OF c]]) (simp_all add: stays_held_def same_kind_def val_def pays_def)
  have "formed m'"
    by (rule formed_put [OF mv assms(2), of c "(m_claims m ! c)\<lparr>c_reserved := x\<rparr>"]) (use m' formed_at [OF assms(2) c] in \<open>simp_all add: put_claim_def claim_formed_def shaped_def\<close>)
  moreover have "holds_but m' i" using holds_moves(1) [OF mv] holds_ok_split [OF assms(3,4)] by blast
  moreover have "hold_at m' i r'" using ORDER_CLOSE_closes by (simp add: hold_at_def holding_def r')
  ultimately show ?thesis using mv assms(5) by (simp add: order_formed_def order_shaped_def r')
next
  case None
  then obtain j where t: "take_hold m r taken = Some (Inr (m', j))" and r': "r' = r\<lparr>o_claim := j\<rparr>"
    using assms(1) by (auto simp: bind_order_def res_simps)
  note f = take_hold_facts [OF t assms(2,5)]
  have mv: "moves m m' (\<lambda>P s. 0)" using f by blast
  have but: "holds_but m i" using holds_ok_split [OF assms(3,4)] by blast
  have "apart_from m i r'" using but f by (auto simp: apart_from_def holds_but_def held_for_def r')
  then have "apart_from m' i r'" using mv by (simp add: apart_from_def moves_def)
  moreover have "held_for m' r'" using f by (simp add: r')
  ultimately have "hold_at m' i r'" by (simp add: hold_at_def)
  then show ?thesis using f holds_moves(1) [OF mv but] assms(5) by (simp add: order_formed_def order_shaped_def r')
qed

lemma count_order_steps: "count_order m t = Some m' \<Longrightarrow> steps_to m m' (\<lambda>P s. 0) \<and> same_books m m'"
  by (auto simp: count_order_def option_bind_eq_Some same_books_def put_trader_def intro!: put_trader_steps [unfolded put_trader_def])

lemma put_order_steps: "steps_to m (put_order m i r) (\<lambda>P s. 0)"
  by (simp add: steps_to_def flows_def put_order_def terms_def drift_def worth_def formed_def on_grid_def)

lemma rest_order_facts:
  assumes "rest_order m p sd t close left taken seq now = Some (Inr m')" "formed m" "holds_ok m"
    "from_u8 (sb_side p) = Some sd" "sb_lo p < sb_hi p" "sb_hi p \<le> h_grid (m_head m)" "t < length (m_traders m)"
  shows "\<exists>l i r. carries m m' (\<lambda>P s. at P t l) l \<and> holds_ok m' \<and> m_makers m' = m_makers m \<and> m_steps m' = m_steps m
    \<and> m_orders m' = (m_orders m)[i := r] \<and> order_formed (h_grid (m_head m)) (length (m_traders m)) r"
proof -
  obtain i per m1 r m2 l m3 where i: "i < length (m_orders m)"
    and 1: "bind_order m (resting_order p t left seq per now) close taken = Some (Inr (m1, r))"
    and 2: "fund m1 t (left * o_escrow_per_lot r) now = Some (Inr (m2, l))"
    and 3: "reserve m2 t (left * o_escrow_per_lot r) = Some (Inr m3)"
    and 4: "count_order (put_order m3 i r) t = Some m'"
    using assms(1) by (auto simp: rest_order_def res_simps option_bind_eq_Some find_Some_iff)
  have o: "order_shaped (h_grid (m_head m)) (length (m_traders m)) (resting_order p t left seq per now)"
    using assms(4-7) by (auto simp: order_shaped_def resting_order_def split: if_splits)
  note b = bind_order_facts [OF 1 assms(2,3) i o]
  note f = fund_carries [OF 2] and v = reserve_moves [OF 3] and c = count_order_steps [OF 4]
  have c1: "carries m m1 (\<lambda>P s. 0) 0" using b by (intro steps_to_carries moves_steps_to) auto
  have sb: "same_books m1 m3" using f v moves_same_books same_books_trans by blast
  have c3: "carries m m3 (\<lambda>P s. at P t l) l"
    using carries_trans [OF carries_trans [OF c1 conjunct1 [OF f]] moves_same_carries [OF conjunct1 [OF v] conjunct2 [OF v]]] by simp
  have "carries m m' (\<lambda>P s. at P t l) l"
    using carries_trans [OF carries_trans [OF c3 steps_to_carries [OF put_order_steps]] steps_to_carries [OF conjunct1 [OF c]]] by simp
  moreover have "holds_but m3 i" "hold_at m3 i r" using same_books_holds [OF sb] b by simp_all
  then have "holds_ok m'" using holds_ok_put same_books_holds(3) c by blast
  moreover have "m_orders m3 = m_orders m" "m_makers m3 = m_makers m" "m_steps m3 = m_steps m"
    using sb b by (simp_all add: same_books_def moves_def)
  then have "m_makers m' = m_makers m" "m_steps m' = m_steps m" "m_orders m' = (m_orders m)[i := r]"
    using c by (simp_all add: same_books_def put_order_def)
  ultimately show ?thesis using b by blast
qed

subsection \<open>The whole package\<close>

end
