(* ===== verification/Market_Submit.thy ===== *)
theory Market_Submit
  imports Market_Trade
begin

text \<open>
  The instructions that trade keep the market sound. Besides the invariant of the ledger they rely on an orderly book:
  orders lie on the grid, no two hold one slot, and a maker slot nobody uses has no inventory.
\<close>

definition flat :: "market \<Rightarrow> bool" where
  "flat m \<longleftrightarrow> (\<forall>i<length (m_makers m). \<not> mk_used (m_makers m ! i) \<longrightarrow> (\<forall>st\<in>set (m_steps m ! i). st_inv st = 0))"

definition apart :: "market \<Rightarrow> bool" where
  "apart m \<longleftrightarrow> (\<forall>i<length (m_orders m). \<forall>j<length (m_orders m). i \<noteq> j \<and> holding (m_orders m ! i) \<and> holding (m_orders m ! j) \<longrightarrow>
     o_claim (m_orders m ! i) \<noteq> o_claim (m_orders m ! j))"

definition orderly :: "market \<Rightarrow> bool" where
  "orderly m \<longleftrightarrow> orders_formed m \<and> apart m \<and> flat m \<and> h_grid (m_head m) < U16_MAX"

lemma audit_orders_held:
  "audit_orders m rs e h = Some (Inr x) \<Longrightarrow> r \<in> set rs \<Longrightarrow> holding r \<Longrightarrow> held_for m r"
proof (induction rs arbitrary: e h)
  case (Cons q rs)
  show ?case
  proof (cases "r = q")
    case True
    then show ?thesis using Cons.prems
      by (auto simp: holding_def held_for_def order_kind_def res_simps option_bind_eq_Some Let_def)
  next
    case False
    then show ?thesis using Cons.prems Cons.IH
      by (auto simp: res_simps option_bind_eq_Some Let_def split: if_splits)
  qed
qed simp

lemma sound_holds_ok:
  assumes "sound m" "apart m"
  shows "holds_ok m"
proof -
  have "formed m" "on_grid m" "audit m = Some (Inr ())" using assms(1) by (simp_all add: sound_def)
  then obtain e where e: "audit_orders m (m_orders m) 0 0 = Some (Inr e)" using audit_iff by blast
  show ?thesis
    using assms(2) audit_orders_held [OF e] by (auto simp: holds_ok_def hold_at_def apart_from_def apart_def)
qed

lemma holds_ok_apart: "holds_ok m \<Longrightarrow> apart m"
  by (auto simp: holds_ok_def hold_at_def apart_from_def apart_def)

lemma orders_formed_same:
  "m_orders m' = m_orders m \<Longrightarrow> h_grid (m_head m') = h_grid (m_head m) \<Longrightarrow> length (m_traders m') = length (m_traders m) \<Longrightarrow>
    orders_formed m' = orders_formed m"
  by (simp add: orders_formed_def)

lemma orders_formed_put:
  assumes "orders_formed m" "m_orders m' = (m_orders m)[i := r]" "order_formed (h_grid (m_head m)) (length (m_traders m)) r"
    "h_grid (m_head m') = h_grid (m_head m)" "length (m_traders m') = length (m_traders m)"
  shows "orders_formed m'"
  using assms set_update_subset_insert [of "m_orders m" i r] by (auto simp: orders_formed_def)

lemma flat_same: "m_makers m' = m_makers m \<Longrightarrow> m_steps m' = m_steps m \<Longrightarrow> flat m' = flat m"
  by (simp add: flat_def)

lemma in_book_same: "m_orders m' = m_orders m \<Longrightarrow> m_makers m' = m_makers m \<Longrightarrow> in_book m' a = in_book m a"
  by (simp add: in_book_def cong: arc_id.case_cong)

lemma fills_gain_same: "m_orders m' = m_orders m \<Longrightarrow> m_makers m' = m_makers m \<Longrightarrow> fills_gain m' = fills_gain m"
  by (simp add: fills_gain_def arc_gain_def arc_owner_def fun_eq_iff cong: arc_id.case_cong)

text \<open>A market ready for a package, in the middle of an instruction.\<close>

definition ready :: "market \<Rightarrow> bool" where
  "ready m \<longleftrightarrow> formed m \<and> holds_ok m \<and> orders_formed m \<and> flat m"

lemma ready_same:
  assumes "carries m m' d l" "same_books m m'" "ready m"
  shows "ready m'"
proof -
  have "h_grid (m_head m') = h_grid (m_head m)" "formed m'" using assms(1,3) by (simp_all add: carries_def ready_def)
  then show ?thesis
    using assms(2,3) carries_traders [OF assms(1)] same_books_holds(3) [OF assms(2)] orders_formed_same [of m' m] flat_same [of m' m]
    by (simp add: ready_def same_books_def)
qed

text \<open>What the taker of a package pays.\<close>

definition package_paid :: "nat \<Rightarrow> submit_params \<Rightarrow> side \<Rightarrow> (arc \<times> nat) list \<Rightarrow> nat \<Rightarrow> int" where
  "package_paid k p sd fs filled = (if filled = 0 then 0
     else sets_of k fs + (if sd = Short then int ((sb_hi p - sb_lo p) * k) * int filled else 0) - resting_of k fs)"

text \<open>The resting fills with the ladders' payments.\<close>

lemma fills_paid:
  assumes "fill_arcs cs now m fs no_tally = Some (Inr (m1, ta))" "pay_ladders m1 (ta_makers ta) = Some (Inr m')"
    "\<forall>f\<in>set fs. in_book m (fst f)" "ready m"
  shows "steps_to m m' (fills_gain m (h_k (m_head m)) fs) \<and> tallies (h_k (m_head m)) fs no_tally ta \<and> ready m'"
proof -
  have r: "formed m" "holds_ok m" "orders_formed m" "flat m" using assms(4) by (simp_all add: ready_def)
  have "filling m m" using r(1,2) by (simp add: filling_def)
  note f = fill_arcs_facts [OF assms(1,3) this r(3)]
  have fm: "filling m m1" and k1: "h_k (m_head m1) = h_k (m_head m)" using f steps_to_shape(3) by blast+
  then have "same_makers m m1" by (simp add: same_makers_def filling_def)
  note p = pay_ladders_facts [OF assms(2) this]
  have st: "steps_to m m' (fills_gain m (h_k (m_head m)) fs)"
    by (rule steps_to_cong [OF steps_to_trans [OF conjunct1 [OF conjunct2 [OF f]] conjunct1 [OF p]]]) (simp add: no_tally_def k1)
  have "holds_ok m'" using fm p by (simp add: filling_def holds_ok_def hold_at_def held_for_def apart_from_def)
  moreover have "orders_formed m'"
    using fm p steps_to_shape(1,2) [OF st] by (intro orders_from_formed [OF _ r(3)]) (simp_all add: filling_def)
  moreover have "flat m'" using fm p r(4) by (simp add: flat_def same_makers_def filling_def)
  ultimately show ?thesis using st f steps_to_shape(4) [OF st r(1)] by (simp add: ready_def)
qed

lemma take_fill_ready:
  assumes "take_fill m p sd t close filled width ta now = Some (Inr (m', taken))" "ready m"
    "from_u8 (sb_side p) = Some sd" "sb_lo p < sb_hi p" "sb_hi p \<le> h_grid (m_head m)" "t < length (m_traders m)"
  shows "\<exists>l. carries m m' (\<lambda>P s. taker_gain (h_k (m_head m)) p sd t filled (taker_paid sd filled width ta) P s + at P t l) l \<and> ready m'"
proof -
  have r: "formed m" "holds_ok m" "orders_formed m" "flat m" using assms(2) by (simp_all add: ready_def)
  obtain l where l: "carries m m' (\<lambda>P s. taker_gain (h_k (m_head m)) p sd t filled (taker_paid sd filled width ta) P s + at P t l) l"
    "holds_ok m \<longrightarrow> holds_ok m'" "m_orders m' = m_orders m" "m_makers m' = m_makers m" "m_steps m' = m_steps m"
    using take_fill_facts [OF assms(1) r(1) assms(3-6)] by blast
  have "h_grid (m_head m') = h_grid (m_head m)" "formed m'" using l(1) r(1) by (simp_all add: carries_def)
  then have "ready m'"
    using l r carries_traders [OF l(1)] orders_formed_same [of m' m] flat_same [of m' m] by (simp add: ready_def)
  then show ?thesis using l(1) by blast
qed

lemma rest_order_ready:
  assumes "rest_order m p sd t close left taken seq now = Some (Inr m')" "ready m"
    "from_u8 (sb_side p) = Some sd" "sb_lo p < sb_hi p" "sb_hi p \<le> h_grid (m_head m)" "t < length (m_traders m)"
  shows "\<exists>l. carries m m' (\<lambda>P s. at P t l) l \<and> ready m'"
proof -
  have r: "formed m" "holds_ok m" "orders_formed m" "flat m" using assms(2) by (simp_all add: ready_def)
  obtain l i q where l: "carries m m' (\<lambda>P s. at P t l) l" "holds_ok m'" "m_makers m' = m_makers m" "m_steps m' = m_steps m"
    "m_orders m' = (m_orders m)[i := q]" "order_formed (h_grid (m_head m)) (length (m_traders m)) q"
    using rest_order_facts [OF assms(1) r(1,2) assms(3-6)] by blast
  have "h_grid (m_head m') = h_grid (m_head m)" "formed m'" using l(1) r(1) by (simp_all add: carries_def)
  then have "ready m'"
    using l r carries_traders [OF l(1)] orders_formed_put [OF r(3) l(5,6)] flat_same [of m' m] by (simp add: ready_def)
  then show ?thesis using l(1) by blast
qed

lemma execute_facts:
  assumes "execute m p sd width t close fs filled approval now = Some (Inr m')"
    "\<forall>f\<in>set fs. in_book m (fst f)" "ready m"
    "from_u8 (sb_side p) = Some sd" "sb_lo p < sb_hi p" "sb_hi p \<le> h_grid (m_head m)" "t < length (m_traders m)"
    "width = (sb_hi p - sb_lo p) * h_k (m_head m)"
  shows "\<exists>m1 l. store m1 = Some (Inr m') \<and> ready m1
    \<and> carries m m1 (\<lambda>P s. fills_gain m (h_k (m_head m)) fs P s
        + taker_gain (h_k (m_head m)) p sd t filled (package_paid (h_k (m_head m)) p sd fs filled) P s + at P t l) l"
proof -
  let ?k = "h_k (m_head m)" and ?paid = "package_paid (h_k (m_head m)) p sd fs filled"
  obtain m1 seq m2 ta m3 m4 taken m5 m6 where 1: "next_seq m = Some (Inr (m1, seq))"
    and 2: "fill_arcs (credit_slot_of m1) now m1 fs no_tally = Some (Inr (m2, ta))"
    and 3: "pay_ladders m2 (ta_makers ta) = Some (Inr m3)"
    and 4: "take_fill m3 p sd t close filled width ta now = Some (Inr (m4, taken))"
    and 5: "(if filled < sb_lots p \<and> sb_mode p \<noteq> MODE_IOC
      then rest_order m4 p sd t close (sb_lots p - filled) taken seq now else Some (Inr m4)) = Some (Inr m5)"
    and 6: "check_credit m5 t approval = Some (Inr m6)" and st: "store m6 = Some (Inr m')"
    using assms(1) unfolding execute_def Let_def by (auto simp: res_simps)
  note n = next_seq_moves [OF 1]
  have c1: "carries m m1 (\<lambda>P s. 0) 0" and b1: "same_books m m1" using n moves_same_carries moves_same_books by blast+
  have k1: "h_k (m_head m1) = ?k" using c1 by (simp add: carries_def)
  have "\<forall>f\<in>set fs. in_book m1 (fst f)" using assms(2) b1 in_book_same [of m1 m] by (simp add: same_books_def)
  note f = fills_paid [OF 2 3 this ready_same [OF c1 b1 assms(3)]]
  have fg: "fills_gain m1 = fills_gain m" using b1 by (intro fills_gain_same) (simp_all add: same_books_def)
  have c3: "carries m m3 (fills_gain m ?k fs) 0"
    using carries_trans [OF c1 steps_to_carries [OF conjunct1 [OF f]]] by (simp add: k1 fg)
  have sh3: "sb_hi p \<le> h_grid (m_head m3)" "t < length (m_traders m3)" "h_k (m_head m3) = ?k"
    using c3 carries_traders [OF c3] assms(6,7) by (simp_all add: carries_def)
  have paid: "taker_paid sd filled width ta = ?paid"
    using f by (simp add: taker_paid_def package_paid_def tallies_def k1 no_tally_def assms(8))
  obtain l where l: "carries m3 m4 (\<lambda>P s. taker_gain ?k p sd t filled ?paid P s + at P t l) l" "ready m4"
    using take_fill_ready [OF 4 _ assms(4,5) sh3(1,2)] f paid sh3(3) by auto
  have sh4: "sb_hi p \<le> h_grid (m_head m4)" "t < length (m_traders m4)"
    using l(1) carries_traders [OF l(1)] sh3 by (simp_all add: carries_def)
  obtain j where j: "carries m4 m5 (\<lambda>P s. at P t j) j" "ready m5"
  proof (cases "filled < sb_lots p \<and> sb_mode p \<noteq> MODE_IOC")
    case True
    then have "rest_order m4 p sd t close (sb_lots p - filled) taken seq now = Some (Inr m5)" using 5 by simp
    from rest_order_ready [OF this l(2) assms(4,5) sh4] that show thesis by blast
  next
    case False
    then have "m5 = m4" using 5 by auto
    then show thesis using that [of 0] l(2) carries_refl [of m4] by simp
  qed
  note c = check_credit_carries [OF 6]
  have "ready m6" using ready_same c j(2) by blast
  moreover have "carries m m6 (\<lambda>P s. fills_gain m ?k fs P s + taker_gain ?k p sd t filled ?paid P s + at P t (l + j)) (l + j)"
    using carries_trans [OF carries_trans [OF carries_trans [OF c3 l(1)] j(1)] conjunct1 [OF c]]
    by (auto elim!: carries_cong simp: at_def)
  ultimately show ?thesis using st by blast
qed

subsection \<open>Storing a trade\<close>

text \<open>At settlement zero the shorts are owed everything: the audit of an open market checks that they are backed.\<close>

lemma unit_pay_zero: "unit_pay k 0 long lo hi = (if long then 0 else int ((hi - lo) * k))"
  by (simp add: unit_pay_def long_spec_def)

lemma steps_pay_zero: "steps_pay k 0 ss = int (steps_short ss * k)"
proof -
  have "steps_pay k 0 ss = (\<Sum>x<length ss. int ((if st_inv (ss ! x) < 0 then nat \<bar>st_inv (ss ! x)\<bar> else 0) * k))"
    unfolding steps_pay_def by (rule sum.cong) (auto simp: unit_pay_zero)
  also have "\<dots> = int ((\<Sum>x<length ss. if st_inv (ss ! x) < 0 then nat \<bar>st_inv (ss ! x)\<bar> else 0) * k)"
    by (simp only: of_nat_sum [symmetric] sum_distrib_right)
  also have "(\<Sum>x<length ss. if st_inv (ss ! x) < 0 then nat \<bar>st_inv (ss ! x)\<bar> else 0) = steps_short ss"
    by (simp add: steps_short_def sum_list_sum_nth atLeast0LessThan)
  finally show ?thesis .
qed

lemma makers_val_zero: "makers_val (\<lambda>_. True) k 0 ks = int (shorts ks * k)"
  by (induction ks) (simp_all add: makers_val_def maker_val_def steps_pay_zero algebra_simps)

lemma claims_val_zero: "claims_val (\<lambda>_. True) k 0 cs = int (side_sum k False cs)"
  by (induction cs) (simp_all add: claims_val_def val_def pays_def unit_pay_zero)

lemma audit_open_zero:
  assumes "audit m = Some (Inr ())" "formed m" "on_grid m" "h_status (m_head m) = STATUS_OPEN"
  shows "all_pay m 0 = int (h_backing (m_head m))"
proof -
  have "shorts (zip (m_makers m) (m_steps m)) * h_k (m_head m) + side_sum (h_k (m_head m)) False (m_claims m) = h_backing (m_head m)"
    using assms(1) [unfolded audit_iff [OF assms(2,3)]] assms(4) by simp
  from arg_cong [OF this, of int] show ?thesis by (simp add: all_pay_def makers_val_zero claims_val_zero)
qed

text \<open>The market once the instruction has found its trader: a slot that was free is cleared.\<close>

definition slotted :: "market \<Rightarrow> market \<Rightarrow> nat \<Rightarrow> nat \<Rightarrow> bool" where
  "slotted m m0 i x \<longleftrightarrow> m_head m0 = m_head m \<and> m_claims m0 = m_claims m \<and> m_makers m0 = m_makers m \<and> m_steps m0 = m_steps m
     \<and> length (m_traders m0) = length (m_traders m) \<and> (\<forall>P s. worth P m0 s = worth P m s - at P i x) \<and> drift m0 = drift m - int x"

lemma slotted_refl: "slotted m m i 0"
  by (simp add: slotted_def)

lemma trader_slot_slotted:
  assumes "trader_slot m key = Some (Inr (m0, i))"
  shows "i < length (m_traders m) \<and> (\<exists>x. slotted m m0 i x) \<and> m_orders m0 = m_orders m"
proof -
  obtain x where "m_head m0 = m_head m" "m_claims m0 = m_claims m" "m_makers m0 = m_makers m" "m_steps m0 = m_steps m"
    "length (m_traders m0) = length (m_traders m)" "i < length (m_traders m)"
    "\<forall>P s. worth P m0 s = worth P m s - at P i x" "drift m0 = drift m - int x"
    by (rule trader_slot_facts [OF assms])
  moreover have "m_orders m0 = m_orders m"
    using assms by (auto simp: trader_slot_def res_simps put_trader_def split: option.splits)
  ultimately show ?thesis by (auto simp: slotted_def)
qed

lemma stored_trade:
  assumes "sound m" "h_status (m_head m) = STATUS_OPEN" "slotted m m0 i x"
    "carries m0 m1 (\<lambda>P s. d P s + at P t l) l" "store m1 = Some (Inr m')" "\<And>s. d (\<lambda>_. True) s = d (\<lambda>_. True) 0"
  shows "sound m' \<and> (\<forall>s. d (\<lambda>_. True) s = 0) \<and> ledger_lends m m' (\<lambda>P s. d P s + at P t l) l
    \<and> h_custody (m_head m') = h_custody (m_head m)"
proof -
  obtain r where r: "frame m1 m'" "h_debt (m_head m1) = h_debt (m_head m') + r"
    "\<forall>P s. worth P m' s = worth P m1 s - repaid m1 P r" "repaid m1 (\<lambda>_. True) r = int r" "drift m' = drift m1"
    "0 < r \<longrightarrow> has_credit (m_head m1) \<and> \<not> credit_settled (m_head m1)" "settled_up m'" "audit m' = Some (Inr ())"
    by (rule store_facts [OF assms(5)])
  have f: "formed m" "on_grid m" "audit m = Some (Inr ())" "backed m" using assms(1,2) by (simp_all add: sound_def)
  have h: "m_head m0 = m_head m" using assms(3) by (simp add: slotted_def)
  have f0: "formed m0" "on_grid m0" using f(1,2) assms(3) by (simp_all add: slotted_def formed_def on_grid_def)
  have f1: "formed m1" "on_grid m1" using f0 assms(4) by (simp_all add: carries_def)
  have f': "formed m'" "on_grid m'" using f1 frame_formed [OF r(1)] frame_on_grid [OF r(1)] by simp_all
  have "drift m' = 0" "drift m = 0" using audit_drift r(8) f' f by blast+
  then have x: "x = 0" using r(5) assms(3,4) by (simp add: slotted_def carries_def)
  have w: "worth P m1 s = worth P m s + d P s + at P t l" for P s using assms(3,4) x by (simp add: slotted_def carries_def)
  note fh = frame_head [OF r(1)]
  have st: "h_status (m_head m') = STATUS_OPEN" using fh(3) assms(2,4) h by (simp add: carries_def)
  have ex: "all_pay m' s - int (h_backing (m_head m')) = d (\<lambda>_. True) s" for s
  proof -
    have "cash (\<lambda>_. True) (m_traders m') + all_pay m' s = cash (\<lambda>_. True) (m_traders m) + all_pay m s + d (\<lambda>_. True) s + int l - int r"
      using r(3,4) w [of "\<lambda>_. True" s] by (simp add: worth_all [symmetric] at_def)
    moreover have "int (h_custody (m_head m') + h_debt (m_head m')) = int (h_custody (m_head m) + h_debt (m_head m)) + int l - int r"
      using fh(5) r(2) assms(4) h by (simp add: carries_def)
    moreover have "all_pay m s = int (h_backing (m_head m))" using f(4) by (simp add: backed_def)
    ultimately show ?thesis using audit_cash(1) [OF r(8) f'] audit_cash(1) [OF f(3,1,2)] by linarith
  qed
  have "d (\<lambda>_. True) 0 = 0" using ex [of 0] audit_open_zero [OF r(8) f' st] by simp
  then have d: "\<forall>s. d (\<lambda>_. True) s = 0" using assms(6) by simp
  then have "backed m'" using ex by (simp add: backed_def)
  then have "sound m'" using r(7,8) f' by (simp add: sound_def)
  moreover have "ledger_lends m m' (\<lambda>P s. d P s + at P t l) l"
    unfolding ledger_lends_def using r(2,3,4,6) w assms(4) h
    by (intro exI [of _ r]) (simp add: frame_repaid [OF r(1)] fh(7) carries_def has_credit_def credit_settled_def)
  moreover have "h_custody (m_head m') = h_custody (m_head m)" using fh(5) assms(4) h by (simp add: carries_def)
  ultimately show ?thesis using d by blast
qed

subsection \<open>Submitting a package\<close>

text \<open>What each party of a package gains at every settlement.\<close>

definition trade_entries :: "market \<Rightarrow> nat \<Rightarrow> submit_params \<Rightarrow> side \<Rightarrow> (arc \<times> nat) list \<Rightarrow> nat \<Rightarrow> (nat \<times> (nat \<Rightarrow> int)) list" where
  "trade_entries m t p sd fs filled =
     map (\<lambda>f. (arc_owner m (fst f), arc_profile (h_k (m_head m)) f)) fs
     @ [(t, \<lambda>s. int filled * unit_pay (h_k (m_head m)) s (sd = Long) (sb_lo p) (sb_hi p) - package_paid (h_k (m_head m)) p sd fs filled)]"

definition entries_gain :: "(nat \<times> (nat \<Rightarrow> int)) list \<Rightarrow> (nat \<Rightarrow> bool) \<Rightarrow> nat \<Rightarrow> int" where
  "entries_gain es P s = (\<Sum>e\<leftarrow>es. if P (fst e) then snd e s else 0)"

definition submitted :: "market \<Rightarrow> bytes \<Rightarrow> ((arc \<times> nat) list \<times> nat) option" where
  "submitted m prop_bytes = do {
     arcs \<leftarrow> book_arcs m;
     pr \<leftarrow> decode prop_bytes;
     fills \<leftarrow> dense pr arcs;
     Some (zip arcs fills, pr_taker_fill pr) }"

lemma trade_entries_gain:
  "entries_gain (trade_entries m t p sd fs filled) P s
    = fills_gain m (h_k (m_head m)) fs P s + taker_gain (h_k (m_head m)) p sd t filled (package_paid (h_k (m_head m)) p sd fs filled) P s"
  by (simp add: entries_gain_def trade_entries_def fills_gain_def arc_gain_def taker_gain_def comp_def cong: if_cong)

lemma trade_entries_constant:
  assumes "verify arcs (Some \<lparr>tk_side = sd, tk_lo = sb_lo p, tk_hi = sb_hi p, tk_limit = lim, tk_qty = q\<rparr>) fills filled pots grid w = Some (Inr x)"
    "grid < U16_MAX"
  shows "entries_gain (trade_entries m t p sd (zip arcs fills) filled) (\<lambda>_. True) s
    = entries_gain (trade_entries m t p sd (zip arcs fills) filled) (\<lambda>_. True) 0"
proof -
  let ?k = "h_k (m_head m)" and ?fs = "zip arcs fills"
  let ?tk = "\<lparr>tk_side = sd, tk_lo = sb_lo p, tk_hi = sb_hi p, tk_limit = lim, tk_qty = q\<rparr>"
  have "entries_gain (trade_entries m t p sd ?fs filled) (\<lambda>_. True) s
      = (\<Sum>f\<leftarrow>?fs @ [(taker_arc ?tk, filled)]. int (snd f) * unit_pay ?k s (a_side (fst f) = Long) (a_lo (fst f)) (a_hi (fst f)))
        - resting_of ?k ?fs - package_paid ?k p sd ?fs filled" for s
    by (simp add: entries_gain_def trade_entries_def arc_profile_def resting_of_def comp_def taker_arc_def right_diff_distrib sum_list_subtractf)
  then show ?thesis by (simp only: package_payoffs [OF assms])
qed

lemma frame_orderly:
  assumes "frame m m'" "ready m" "h_grid (m_head m) < U16_MAX"
  shows "orderly m'"
proof -
  have eq: "m_orders m' = m_orders m" "m_makers m' = m_makers m" "m_steps m' = m_steps m" using assms(1) by (simp_all add: frame_def)
  have "apart m" using assms(2) holds_ok_apart by (simp add: ready_def)
  then show ?thesis
    using assms(2,3) frame_head(2) [OF assms(1)] frame_lengths [OF assms(1)] orders_formed_same [OF eq(1)] flat_same [OF eq(2,3)]
    by (simp add: orderly_def ready_def apart_def eq)
qed

lemma book_arcs_slotted:
  assumes "slotted m m0 i x" "m_orders m0 = m_orders m"
  shows "book_arcs m0 = book_arcs m" "in_book m0 = in_book m" "fills_gain m0 = fills_gain m"
proof -
  have eq: "m_head m0 = m_head m" "m_makers m0 = m_makers m" "m_steps m0 = m_steps m" using assms(1) by (simp_all add: slotted_def)
  have "ladder_arcs m0 = ladder_arcs m" by (rule ext) (simp only: ladder_arcs_def eq)
  then show "book_arcs m0 = book_arcs m" by (simp add: book_arcs_def eq assms(2))
  show "in_book m0 = in_book m" using in_book_same [OF assms(2) eq(2)] by (simp add: fun_eq_iff)
  show "fills_gain m0 = fills_gain m" by (rule fills_gain_same [OF assms(2) eq(2)])
qed

lemma slotted_ready:
  assumes "sound m" "orderly m" "slotted m m0 i x" "m_orders m0 = m_orders m"
  shows "ready m0"
proof -
  have h: "holds_ok m" using sound_holds_ok assms(1,2) by (simp add: orderly_def)
  have eq: "m_head m0 = m_head m" "m_claims m0 = m_claims m" "m_makers m0 = m_makers m" "m_steps m0 = m_steps m"
    "length (m_traders m0) = length (m_traders m)" using assms(3) by (simp_all add: slotted_def)
  have "same_books m m0" using eq assms(4) by (simp add: same_books_def)
  then have "holds_ok m0" using same_books_holds(3) h by blast
  then show ?thesis using assms(1,2) eq orders_formed_same [of m0 m] flat_same [of m0 m] assms(4)
    by (simp add: ready_def sound_def orderly_def formed_def)
qed

lemma verified_ok: "verified err v = Some (Inr u) \<longleftrightarrow> (\<exists>w. v = Some (Inr w))"
proof (cases v)
  case (Some r)
  then show ?thesis by (cases r) (simp_all add: verified_def)
qed (simp add: verified_def)

lemma submit_facts:
  assumes "submit m a p prop_bytes approval period_key loaded now = Some (Inr m')" "sound m" "orderly m"
  shows "\<exists>m0 t fs filled sd l. trader_slot m (ac_key (as_owner a)) = Some (Inr (m0, t)) \<and> submitted m prop_bytes = Some (fs, filled)
    \<and> from_u8 (sb_side p) = Some sd \<and> sound m' \<and> orderly m' \<and> h_custody (m_head m') = h_custody (m_head m)
    \<and> (\<forall>s. entries_gain (trade_entries m t p sd fs filled) (\<lambda>_. True) s = 0)
    \<and> ledger_lends m m' (\<lambda>P s. entries_gain (trade_entries m t p sd fs filled) P s + at P t l) l"
proof -
  let ?k = "h_k (m_head m)"
  obtain sd width m0 t close arcs pr fills w where op: "h_status (m_head m) = STATUS_OPEN"
    and sh: "sb_lo p < sb_hi p" "sb_hi p \<le> h_grid (m_head m)" and sd: "from_u8 (sb_side p) = Some sd"
    and width: "set_value (sb_lo p) (sb_hi p) ?k = Some width"
    and 1: "trader_slot m (ac_key (as_owner a)) = Some (Inr (m0, t))" and 2: "book_arcs m0 = Some arcs"
    and 3: "decode prop_bytes = Some pr" and 4: "dense pr arcs = Some fills"
    and 5: "verify arcs (Some \<lparr>tk_side = sd, tk_lo = sb_lo p, tk_hi = sb_hi p, tk_limit = sb_limit p, tk_qty = sb_lots p\<rparr>)
         fills (pr_taker_fill pr) (pr_potentials pr) (h_grid (m_head m0)) WORK_LIMIT = Some (Inr w)"
    and 6: "execute m0 p sd width t close (zip arcs fills) (pr_taker_fill pr) approval now = Some (Inr m')"
    using assms(1) by (auto simp: submit_def res_simps option_bind_eq_Some tradable_def check_shape_def side_of_def verified_ok
      simp del: from_u8.simps)
  have sl: "t < length (m_traders m)" "m_orders m0 = m_orders m" using trader_slot_slotted [OF 1] by blast+
  obtain x where x: "slotted m m0 t x" using trader_slot_slotted [OF 1] by blast
  have h0: "m_head m0 = m_head m" "length (m_traders m0) = length (m_traders m)" using x by (simp_all add: slotted_def)
  note b = book_arcs_slotted [OF x sl(2)]
  have grid: "h_grid (m_head m) < U16_MAX" using assms(3) by (simp add: orderly_def)
  let ?fs = "zip arcs fills" and ?n = "pr_taker_fill pr"
  let ?es = "trade_entries m t p sd ?fs ?n"
  have sub: "submitted m prop_bytes = Some (?fs, ?n)" using 2 3 4 b(1) by (simp add: submitted_def)
  have in_b: "\<forall>f\<in>set ?fs. in_book m0 (fst f)" using book_arcs_in [OF 2] by (auto dest: set_zip_leftD)
  have wd: "width = (sb_hi p - sb_lo p) * h_k (m_head m0)"
    using width by (auto simp: set_value_def option_bind_eq_Some checked_simps h0)
  obtain m1 l where m1: "store m1 = Some (Inr m')" "ready m1"
    and c: "carries m0 m1 (\<lambda>P s. fills_gain m0 (h_k (m_head m0)) ?fs P s
        + taker_gain (h_k (m_head m0)) p sd t ?n (package_paid (h_k (m_head m0)) p sd ?fs ?n) P s + at P t l) l"
    using execute_facts [OF 6 in_b slotted_ready [OF assms(2,3) x sl(2)] sd sh(1) _ _ wd] sh(2) sl(1) h0 by auto
  have c': "carries m0 m1 (\<lambda>P s. entries_gain ?es P s + at P t l) l"
    using c by (simp only: trade_entries_gain h0(1) b(3))
  have "entries_gain ?es (\<lambda>_. True) s = entries_gain ?es (\<lambda>_. True) 0" for s
    by (rule trade_entries_constant [OF 5 [unfolded h0(1)] grid])
  note st = stored_trade [OF assms(2) op x c' m1(1) this]
  have "orderly m'"
  proof -
    obtain r where "frame m1 m'" by (rule store_facts [OF m1(1)])
    then show ?thesis using frame_orderly m1(2) grid c h0 by (simp add: carries_def)
  qed
  then show ?thesis using 1 sub sd st by blast
qed

subsection \<open>Quoting a ladder\<close>

lemma maker_slot_facts:
  assumes "maker_slot m t = Some (Inr (m', i))" "flat m"
  shows "steps_to m m' (\<lambda>P s. 0) \<and> flat m' \<and> m_orders m' = m_orders m \<and> m_claims m' = m_claims m"
proof -
  obtain tr where tr: "trader_of m t = Some tr" using assms(1) by (auto simp: maker_slot_def option_bind_eq_Some)
  show ?thesis
  proof (cases "0 < tr_maker tr")
    case True
    then have "m' = m" using assms(1) tr by (auto simp: maker_slot_def)
    then show ?thesis using assms(2) by auto
  next
    case False
    let ?mk = "maker_default\<lparr>mk_used := True, mk_trader := t\<rparr>"
    obtain j where i: "i < length (m_makers m)" "\<not> mk_used (m_makers m ! i)"
      and m': "m' = put_maker (put_trader m t (tr\<lparr>tr_maker := j\<rparr>)) i ?mk"
      using assms(1) tr False by (auto simp: maker_slot_def res_simps option_bind_eq_Some find_Some_iff)
    let ?m = "put_trader m t (tr\<lparr>tr_maker := j\<rparr>)"
    have s1: "steps_to m ?m (\<lambda>P s. 0)" by (rule put_trader_steps [OF tr]) simp_all
    have s2: "steps_to ?m m' (\<lambda>P s. 0)"
    proof (cases "i < length (m_steps m)")
      case True
      have "put_maker (put_steps ?m i (m_steps ?m ! i)) i ?mk = m'" by (simp add: m' put_maker_def put_steps_def put_trader_def)
      moreover have "\<forall>st\<in>set (m_steps m ! i). st_inv st = 0" using assms(2) i by (simp add: flat_def)
      ultimately show ?thesis
        using put_ladder_steps [of i ?m "m_steps ?m ! i" ?mk] i True
        by (auto elim!: steps_to_cong simp: put_trader_def maker_val_def steps_pay_flat)
    next
      case False
      then have "zip ((m_makers m)[i := ?mk]) (m_steps m) = zip (m_makers m) (m_steps m)" by (intro nth_equalityI) auto
      then show ?thesis
        by (simp add: m' steps_to_def flows_def put_maker_def put_trader_def terms_def drift_def worth_def formed_def on_grid_def)
    qed
    have "flat m'" using assms(2) i by (auto simp: flat_def m' put_maker_def put_trader_def nth_list_update)
    then show ?thesis using steps_to_trans [OF s1 s2] by (simp add: m' put_maker_def put_trader_def)
  qed
qed

text \<open>Writing a ladder changes quotes, not inventory.\<close>

lemma quoted_step_inv [simp]: "st_inv (quoted_step k l mid bl al st) = st_inv st"
  by (simp add: quoted_step_def Let_def)

lemma write_steps_inv:
  "write_steps k mk sizes l co knots w x ss e = Some (ss', e') \<Longrightarrow> map st_inv ss' = map st_inv ss"
  by (induction k mk sizes l co knots w x ss e arbitrary: ss' e' rule: write_steps.induct)
    (auto simp: option_bind_eq_Some retired_step_def Let_def split: if_splits prod.splits)

lemma flat_inv:
  assumes "flat m" "same_makers m m'" "\<forall>j<length (m_makers m). map st_inv (m_steps m' ! j) = map st_inv (m_steps m ! j)"
  shows "flat m'"
  unfolding flat_def
proof (intro allI impI ballI)
  fix j st assume j: "j < length (m_makers m')" "\<not> mk_used (m_makers m' ! j)" "st \<in> set (m_steps m' ! j)"
  then have "st_inv st \<in> set (map st_inv (m_steps m ! j))" using assms(2,3) by (metis image_eqI list.set_map same_makers_def)
  then show "st_inv st = 0" using j(1,2) assms(1,2) by (auto simp: flat_def same_makers_def)
qed

lemma write_ladder_facts:
  assumes "write_ladder m i l co knots = Some (m', escrow)" "flat m"
  shows "steps_to m m' (\<lambda>P s. 0) \<and> flat m' \<and> m_orders m' = m_orders m \<and> m_claims m' = m_claims m"
proof -
  define mk where "mk = (m_makers m ! i)\<lparr>mk_tiers := ld_tiers l, mk_bid_total := ld_bid_lots l, mk_ask_total := ld_ask_lots l\<rparr>"
  obtain sizes ss where i: "i < length (m_makers m)" "i < length (m_steps m)"
    and w: "write_steps (h_k (m_head m)) mk sizes l co knots 0 0 (m_steps m ! i) 0 = Some (ss, escrow)"
    and m': "m' = put_steps (put_maker m i mk) i ss"
    using assms(1) unfolding mk_def by (auto simp: write_ladder_def option_bind_eq_Some slot_Some Let_def put_maker_def)
  have inv: "map st_inv ss = map st_inv (m_steps m ! i)" by (rule write_steps_inv [OF w])
  then have len: "length ss = length (m_steps m ! i)" by (metis length_map)
  have "m' = put_maker (put_steps m i ss) i mk" by (simp add: m' put_steps_def put_maker_def)
  then have "steps_to m m' (\<lambda>P s. 0)"
    using put_ladder_steps [OF i len, of mk] steps_pay_inv [OF inv]
    by (auto elim!: steps_to_cong simp: maker_val_def mk_def)
  moreover have "flat m'"
    by (rule flat_inv [OF assms(2)]) (use inv i in \<open>auto simp: m' put_steps_def put_maker_def same_makers_def mk_def nth_list_update\<close>)
  ultimately show ?thesis by (simp add: m' put_steps_def put_maker_def)
qed

text \<open>What a quote keeps of a market that is ready, as it goes from one step to the next.\<close>

lemma ready_ladder:
  assumes "steps_to m m' d" "ready m" "flat m'" "m_orders m' = m_orders m" "m_claims m' = m_claims m"
  shows "ready m'"
proof -
  note s = steps_to_shape [OF assms(1)]
  have "holds_ok m'" using assms(2,4,5) by (simp add: ready_def holds_ok_def hold_at_def held_for_def apart_from_def)
  then show ?thesis using assms(2,3) s orders_formed_same [OF assms(4) s(1,2)] by (simp add: ready_def)
qed

lemma quote_facts:
  assumes "quote m a l co knots prop_bytes approval period_key loaded now = Some (Inr m')" "sound m" "orderly m"
  shows "\<exists>t lend. acting_trader m a = Some (Inr t) \<and> sound m' \<and> orderly m' \<and> h_custody (m_head m') = h_custody (m_head m)
    \<and> ledger_lends m m' (\<lambda>P s. at P t lend) lend"
proof -
  obtain t m1 i m2 m3 escrow m4 lend m5 m6 seq m7 where op: "h_status (m_head m) = STATUS_OPEN" and t: "acting_trader m a = Some (Inr t)"
    and 1: "maker_slot m t = Some (Inr (m1, i))" and 2: "release m1 t (mk_escrow (m_makers m1 ! i)) = Some (Inr m2)"
    and 3: "write_ladder m2 i l co knots = Some (m3, escrow)" and 4: "fund m3 t escrow now = Some (Inr (m4, lend))"
    and 5: "reserve m4 t escrow = Some (Inr m5)" and i: "i < length (m_makers m5)" and 6: "next_seq m5 = Some (Inr (m6, seq))"
    and 7: "check_credit (put_maker m6 i (quoted_maker l seq escrow now (m_makers m5 ! i))) t approval = Some (Inr m7)"
    and st: "store m7 = Some (Inr m')"
    using assms(1) by (auto simp: quote_def res_simps option_bind_eq_Some tradable_def slot_Some)
  have r: "ready m" using slotted_ready [OF assms(2,3) slotted_refl] by simp
  note a1 = maker_slot_facts [OF 1] and a2 = release_steps [OF 2]
  have f1: "flat m1" "steps_to m m1 (\<lambda>P s. 0)" "ready m1"
    using a1 r ready_ladder [of m m1] by (auto simp: ready_def)
  have f2: "flat m2" "ready m2" using a2 f1 flat_same [of m2 m1] ready_ladder [of m1 m2] by (auto simp: ready_def)
  note a3 = write_ladder_facts [OF 3 f2(1)]
  have r3: "ready m3" using ready_ladder [OF conjunct1 [OF a3] f2(2)] a3 by blast
  have c3: "carries m m3 (\<lambda>P s. 0) 0"
    using steps_to_carries [OF steps_to_trans [OF steps_to_trans [OF f1(2) conjunct1 [OF a2]] conjunct1 [OF a3]]] by simp
  note a4 = fund_carries [OF 4] and a5 = reserve_moves [OF 5] and a6 = next_seq_moves [OF 6]
  have c6: "carries m4 m6 (\<lambda>P s. 0) 0" "same_books m4 m6"
    using carries_trans [OF moves_same_carries [OF conjunct1 [OF a5] conjunct2 [OF a5]] moves_same_carries [OF conjunct1 [OF a6]]]
      a5 a6 by (simp_all add: same_books_def moves_def)
  have r6: "ready m6" using ready_same a4 c6 r3 by blast
  let ?m = "put_maker m6 i (quoted_maker l seq escrow now (m_makers m5 ! i))"
  have m56: "m_makers m6 = m_makers m5" using a6 by (simp add: moves_def)
  have s7: "steps_to m6 ?m (\<lambda>P s. 0)" by (rule put_maker_steps) (use i m56 in \<open>simp_all add: quoted_maker_def\<close>)
  have "flat ?m"
    by (rule flat_inv [of m6]) (use r6 i m56 in \<open>auto simp: ready_def same_makers_def put_maker_def quoted_maker_def nth_list_update\<close>)
  then have "ready ?m" by (intro ready_ladder [OF s7 r6]) (simp_all add: put_maker_def)
  then have r7: "ready m7" using ready_same check_credit_carries [OF 7] by blast
  have c: "carries m m7 (\<lambda>P s. at P t lend) lend"
    using carries_trans [OF carries_trans [OF carries_trans [OF carries_trans [OF c3 conjunct1 [OF a4]] c6(1)] steps_to_carries [OF s7]]
        conjunct1 [OF check_credit_carries [OF 7]]] by simp
  have c': "carries m m7 (\<lambda>P s. 0 + at P t lend) lend" using c by simp
  note tr = stored_trade [OF assms(2) op slotted_refl c' st]
  have "orderly m'"
  proof -
    obtain r where "frame m7 m'" by (rule store_facts [OF st])
    then show ?thesis using frame_orderly r7 c assms(3) by (simp add: carries_def orderly_def)
  qed
  then show ?thesis using t tr by auto
qed

end
