(* ===== verification/Market_Orderly.thy ===== *)
theory Market_Orderly
  imports Market_Submit
begin

text \<open>
  Every other instruction keeps the book orderly: it leaves the orders as they are or removes some, and gives up a maker
  slot only when its ladder has no inventory left.
\<close>

definition orders_kept :: "order list \<Rightarrow> order list \<Rightarrow> bool" where
  "orders_kept rs qs \<longleftrightarrow> length qs = length rs \<and> (\<forall>j<length rs. qs ! j = rs ! j \<or> qs ! j = order_default)"

definition neat :: "market \<Rightarrow> market \<Rightarrow> bool" where
  "neat m m' \<longleftrightarrow> h_grid (m_head m') = h_grid (m_head m) \<and> length (m_traders m') = length (m_traders m)
     \<and> orders_kept (m_orders m) (m_orders m') \<and> (flat m \<longrightarrow> flat m')"

lemma orders_kept_trans: "orders_kept rs qs \<Longrightarrow> orders_kept qs ps \<Longrightarrow> orders_kept rs ps"
  unfolding orders_kept_def by metis

lemma orders_kept_drop: "orders_kept rs (rs[i := order_default])"
  by (cases "i < length rs") (auto simp: orders_kept_def nth_list_update)

lemma neat_trans [trans]: "neat m m' \<Longrightarrow> neat m' m'' \<Longrightarrow> neat m m''"
  by (auto simp: neat_def intro: orders_kept_trans)

lemma neat_same:
  "h_grid (m_head m') = h_grid (m_head m) \<Longrightarrow> length (m_traders m') = length (m_traders m) \<Longrightarrow> m_orders m' = m_orders m \<Longrightarrow>
    m_makers m' = m_makers m \<Longrightarrow> m_steps m' = m_steps m \<Longrightarrow> neat m m'"
  by (simp add: neat_def orders_kept_def flat_def)

lemma neat_refl [simp]: "neat m m"
  by (rule neat_same) simp_all

lemma moves_neat: "moves m m' d \<Longrightarrow> neat m m'"
  using moves_terms(2,3) [of m m' d] by (intro neat_same) (simp_all add: moves_def)

lemma store_neat: "store m = Some (Inr m') \<Longrightarrow> neat m m'"
proof -
  assume "store m = Some (Inr m')"
  then obtain r where f: "frame m m'" by (rule store_facts)
  show ?thesis using f frame_head(2) [OF f] frame_lengths [OF f] by (intro neat_same) (simp_all add: frame_def)
qed

lemma trader_slot_neat: "trader_slot m key = Some (Inr (m', i)) \<Longrightarrow> neat m m'"
proof -
  assume "trader_slot m key = Some (Inr (m', i))"
  from trader_slot_slotted [OF this] show ?thesis by (auto simp: slotted_def intro!: neat_same)
qed

lemma put_trader_neat [simp]: "neat m (put_trader m t u)"
  by (rule neat_same) (simp_all add: put_trader_def)

lemma put_claim_neat [simp]: "neat m (put_claim m i c)"
  by (rule neat_same) (simp_all add: put_claim_def)

lemma head_neat: "h_grid h = h_grid (m_head m) \<Longrightarrow> neat m (m\<lparr>m_head := h\<rparr>)"
  by (rule neat_same) simp_all

lemma neat_orderly:
  assumes "neat m m'" "orderly m"
  shows "orderly m'"
proof -
  have k: "orders_kept (m_orders m) (m_orders m')" using assms(1) by (simp add: neat_def)
  have "orders_formed m'"
    unfolding orders_formed_def
  proof
    fix r assume "r \<in> set (m_orders m')"
    then obtain j where "j < length (m_orders m)" "r = m_orders m ! j \<or> r = order_default"
      using k by (auto simp: orders_kept_def in_set_conv_nth)
    then show "order_formed (h_grid (m_head m')) (length (m_traders m')) r"
      using assms by (auto simp: neat_def orderly_def orders_formed_def order_formed_def order_default_def)
  qed
  moreover have "apart m'"
    unfolding apart_def
  proof (intro allI impI, elim conjE)
    fix i j assume ij: "i < length (m_orders m')" "j < length (m_orders m')" "i \<noteq> j" "holding (m_orders m' ! i)" "holding (m_orders m' ! j)"
    then have "m_orders m' ! i = m_orders m ! i" "m_orders m' ! j = m_orders m ! j" "length (m_orders m') = length (m_orders m)"
      using k unfolding orders_kept_def by (metis order_default_not_holding)+
    then show "o_claim (m_orders m' ! i) \<noteq> o_claim (m_orders m' ! j)" using ij assms(2) by (simp add: orderly_def apart_def)
  qed
  ultimately show ?thesis using assms by (simp add: orderly_def neat_def)
qed

lemma release_hold_neat: "release_hold m i = Some m' \<Longrightarrow> neat m m'"
  by (auto simp: release_hold_def option_bind_eq_Some)

lemma remove_order_neat:
  assumes "remove_order m i = Some (Inr (m', e))"
  shows "neat m m'"
proof -
  define r where "r = m_orders m ! i"
  obtain m1 m2 tr where 1: "release m (o_trader r) e = Some (Inr m1)"
    and 2: "(if closes r
         then Option.bind (claim_slot m1 (o_claim r)) (\<lambda>c.
           Some (if 0 < c_lots c then put_claim m1 (o_claim r) (c\<lparr>c_reserved := c_reserved c - o_lots r\<rparr>) else m1))
         else if o_claim r \<noteq> NO_CLAIM then release_hold m1 (o_claim r) else Some m1) = Some m2"
    and m': "m' = put_trader (put_order m2 i order_default) (o_trader r) (tr\<lparr>tr_orders := tr_orders tr - 1\<rparr>)"
    using assms unfolding r_def
    by (auto simp: remove_order_def uncount_order_def res_simps option_bind_eq_Some slot_Some [of "m_orders m"])
  have "neat m m1" using release_moves [OF 1] moves_neat by blast
  also have "neat m1 m2"
    using 2 release_hold_neat by (cases "closes r") (auto simp: option_bind_eq_Some split: if_splits)
  also have "neat m2 (put_order m2 i order_default)"
    by (simp add: neat_def put_order_def orders_kept_drop flat_def)
  also have "neat \<dots> m'" by (simp add: m')
  finally show ?thesis .
qed

lemma prune_each_neat: "prune_each m is = Some (Inr m') \<Longrightarrow> neat m m'"
proof (induction "is" arbitrary: m)
  case (Cons i "is")
  show ?case
  proof (cases "i < length (m_orders m) \<and> o_seq (m_orders m ! i) \<noteq> 0")
    case True
    then obtain m1 e where "remove_order m i = Some (Inr (m1, e))" "prune_each m1 is = Some (Inr m')"
      using Cons.prems by (auto simp: res_simps)
    then show ?thesis using remove_order_neat Cons.IH neat_trans by blast
  next
    case False
    then show ?thesis using Cons by auto
  qed
qed simp

lemma retire_ladder_neat:
  assumes "retire_ladder m i = Some (Inr (m', e))"
  shows "neat m m'"
  using assms
proof (cases rule: retire_ladder_cases)
  case (1 m1 ss tr)
  have mk: "m_makers m1 = m_makers m" using release_moves [OF 1(2)] by (simp add: moves_def)
  have "neat m m1" using release_moves [OF 1(2)] moves_neat by blast
  also have "neat m1 m'" using 1
    by (auto simp: neat_def orders_kept_def flat_def put_maker_def put_trader_def put_steps_def nth_list_update retired_step_def mk)
  finally show ?thesis .
next
  case (2 m1 ss)
  have mk: "m_makers m1 = m_makers m" using release_moves [OF 2(2)] by (simp add: moves_def)
  have "neat m m1" using release_moves [OF 2(2)] moves_neat by blast
  also have "neat m1 m'" using 2
    by (auto simp: neat_def orders_kept_def flat_def put_maker_def put_steps_def nth_list_update retired_step_def mk)
  finally show ?thesis .
qed

lemma settle_one_neat:
  assumes "settle_one m i = Some (Inr m')"
  shows "neat m m'"
proof (cases "c_lots (m_claims m ! i) = 0")
  case True
  then have "m' = m" using assms by (auto simp: settle_one_def claim_of_def res_simps slot_Some)
  then show ?thesis by simp
next
  case False
  then obtain payout m1 m2 tot where 1: "drop_claim m i = Some m1" and 2: "backing_to_free m1 (c_trader (m_claims m ! i)) payout = Some (Inr m2)"
    and 3: "count_paid (m2\<lparr>m_head := (m_head m2)\<lparr>h_total_paid_out := tot\<rparr>\<rparr>) (c_trader (m_claims m ! i)) payout = Some (Inr m')"
    using assms by (auto simp: settle_one_def claim_of_def res_simps slot_Some option_bind_eq_Some)
  have "neat m m1" using drop_claim_moves [OF 1] moves_neat by blast
  also have "neat m1 m2" using backing_to_free_moves [OF 2] moves_neat by blast
  also have "neat m2 (m2\<lparr>m_head := (m_head m2)\<lparr>h_total_paid_out := tot\<rparr>\<rparr>)" by (rule head_neat) simp
  also have "neat \<dots> m'" using 3 by (auto simp: count_paid_def res_simps option_bind_eq_Some)
  finally show ?thesis .
qed

lemma settle_each_neat: "settle_each m is = Some (Inr m') \<Longrightarrow> neat m m'"
proof (induction "is" arbitrary: m)
  case (Cons i "is")
  then obtain m1 where "settle_one m i = Some (Inr m1)" "settle_each m1 is = Some (Inr m')" by (auto simp: res_simps)
  then show ?case using settle_one_neat Cons.IH neat_trans by blast
qed simp

lemma settle_maker_neat:
  assumes "settle_maker m i = Some (Inr m')"
  shows "neat m m'"
proof -
  let ?z = "map (\<lambda>s. s\<lparr>st_inv := 0\<rparr>)"
  define k where "k = m_makers m ! i"
  obtain payout m1 tot m2 e m3 where i: "i < length (m_steps m)" and 1: "backing_to_free (put_steps m i (?z (m_steps m ! i))) (mk_trader k) payout = Some (Inr m1)"
    and 2: "retire_ladder (m1\<lparr>m_head := (m_head m1)\<lparr>h_total_paid_out := tot\<rparr>\<rparr>) i = Some (Inr (m2, e))"
    and 3: "count_paid m2 (mk_trader k) payout = Some (Inr m3)" and 4: "store m3 = Some (Inr m')"
    using assms unfolding k_def by (auto simp: settle_maker_def res_simps slot_Some option_bind_eq_Some Let_def)
  have "neat m (put_steps m i (?z (m_steps m ! i)))"
    using i by (auto simp: neat_def orders_kept_def flat_def put_steps_def nth_list_update)
  also have "neat \<dots> m1" using backing_to_free_moves [OF 1] moves_neat by blast
  also have "neat m1 (m1\<lparr>m_head := (m_head m1)\<lparr>h_total_paid_out := tot\<rparr>\<rparr>)" by (rule head_neat) simp
  also have "neat \<dots> m2" by (rule retire_ladder_neat [OF 2])
  also have "neat m2 m3" using 3 by (auto simp: count_paid_def res_simps option_bind_eq_Some)
  also have "neat m3 m'" by (rule store_neat [OF 4])
  finally show ?thesis .
qed

text \<open>An instruction whose work is done by moves of worth, or by a change of cash, and a store.\<close>

lemma moves_store_neat: "moves m m1 d \<Longrightarrow> store m1 = Some (Inr m') \<Longrightarrow> neat m m'"
  using moves_neat store_neat neat_trans by blast

lemma deposit_neat:
  assumes "deposit m a c amount = Some (Inr m')"
  shows "neat m m'"
proof -
  obtain m1 i m2 x where 1: "trader_slot m (ac_key (as_owner a)) = Some (Inr (m1, i))" and 2: "credit_free m1 i amount = Some (Inr m2)"
    and 3: "store (m2\<lparr>m_head := (m_head m2)\<lparr>h_custody := x\<rparr>\<rparr>) = Some (Inr m')" (is "store ?m = _")
    using assms by (auto simp: deposit_def res_simps Let_def)
  have "neat m m1" by (rule trader_slot_neat [OF 1])
  also have "neat m1 m2" using credit_free_moves [OF 2] moves_neat by blast
  also have "neat m2 ?m" by (rule head_neat) simp
  also have "neat ?m m'" by (rule store_neat [OF 3])
  finally show ?thesis .
qed

lemma withdraw_neat:
  assumes "withdraw m a c amount = Some (Inr (m', paid))"
  shows "neat m m'"
proof -
  obtain i m1 where 1: "(if 0 < paid then pay_out m a c i paid else Some (Inr m)) = Some (Inr m1)" and 2: "store m1 = Some (Inr m')"
    using assms by (auto simp: withdraw_def res_simps option_bind_eq_Some Let_def)
  have "neat m m1"
  proof (cases "0 < paid")
    case True
    then obtain m2 x where "debit_free m i paid = Some (Inr m2)" "m1 = m2\<lparr>m_head := (m_head m2)\<lparr>h_custody := x\<rparr>\<rparr>"
      using 1 by (auto simp: pay_out_def res_simps Let_def)
    then have "neat m m2" "neat m2 m1" using debit_free_moves [of m i paid m2] moves_neat [of m m2] head_neat [of "(m_head m2)\<lparr>h_custody := x\<rparr>" m2] by auto
    then show ?thesis by (rule neat_trans)
  next
    case False
    then show ?thesis using 1 by simp
  qed
  then show ?thesis using store_neat [OF 2] neat_trans by blast
qed

end
