(* ===== verification/Refinement.thy ===== *)
theory Refinement
  imports Main
begin

text \<open>
  Runs of a labelled step relation, and what a component promises its clients: every step keeps the invariant and is
  a step of an abstract machine, so every run is one too.
\<close>

inductive runs :: "('e \<Rightarrow> 's \<Rightarrow> 's \<Rightarrow> bool) \<Rightarrow> 'e list \<Rightarrow> 's \<Rightarrow> 's \<Rightarrow> bool" for step where
  stay: "runs step [] s s"
| walk: "step e s s' \<Longrightarrow> runs step es s' s'' \<Longrightarrow> runs step (e # es) s s''"

inductive_simps runs_Nil [simp]: "runs step [] s s'"
inductive_simps runs_Cons: "runs step (e # es) s s''"

lemma runs_snoc: "runs step es s s' \<Longrightarrow> step e s' s'' \<Longrightarrow> runs step (es @ [e]) s s''"
  by (induction rule: runs.induct) (auto intro: runs.intros)

lemma runs_append: "runs step (es @ fs) s s'' \<longleftrightarrow> (\<exists>s'. runs step es s s' \<and> runs step fs s' s'')"
  by (induction es arbitrary: s) (auto simp: runs_Cons)

locale simulation =
  fixes step :: "'e \<Rightarrow> 's \<Rightarrow> 's \<Rightarrow> bool" and keeps :: "'s \<Rightarrow> bool"
    and abs_step :: "'e \<Rightarrow> 'a \<Rightarrow> 'a \<Rightarrow> bool" and view :: "'s \<Rightarrow> 'a"
  assumes simulates: "step e s s' \<Longrightarrow> keeps s \<Longrightarrow> keeps s' \<and> abs_step e (view s) (view s')"
begin

lemma runs_keep:
  assumes "runs step es s s'" "keeps s"
  shows "keeps s'"
  using assms by (induction rule: runs.induct) (auto dest: simulates)

lemma runs_simulate:
  assumes "runs step es s s'" "keeps s"
  shows "runs abs_step es (view s) (view s')"
  using assms
proof (induction rule: runs.induct)
  case (walk e s s' es s'')
  then show ?case using simulates by (blast intro: runs.walk)
qed (rule runs.stay)

end

end
