(* ===== verification/Market_Run.thy ===== *)
theory Market_Run
  imports Market_Orderly Refinement
begin

text \<open>
  Transfers, the final settlement and the runs of a market: every instruction of \<open>Market_Instructions\<close>, in any
  order, keeps the invariant and refines a ledger of what each trader's holdings are worth.
\<close>

subsection \<open>Transfers\<close>

lemma transfer_claim_facts:
  assumes "transfer_claim m a i seq lots receiver oc = Some (Inr m')" "sound m"
  shows "sound m' \<and> neat m m' \<and> h_custody (m_head m') = h_custody (m_head m) \<and> (\<exists>m1 r c. trader_slot m receiver = Some (Inr (m1, r)) \<and> i < length (m_claims m) \<and> find_trader m (ac_key (as_owner a)) = Some (c_trader (m_claims m ! i))
    \<and> ac_signer (as_owner a) \<and> lots + c_reserved (m_claims m ! i) \<le> c_lots (m_claims m ! i)
    \<and> c = (m_claims m ! i)\<lparr>c_lots := lots\<rparr>
    \<and> ledger_moves m m' (\<lambda>P s. val P (h_k (m_head m)) s (c\<lparr>c_trader := r\<rparr>) - val P (h_k (m_head m)) s c))"
proof -
  define c where "c = m_claims m ! i"
  obtain t m1 r c' cost m2 m3 q where t: "find_trader m (ac_key (as_owner a)) = Some t" "ac_signer (as_owner a)"
    and i: "i < length (m_claims m)" "c_lots c \<noteq> 0" "c_trader c = t" "lots \<noteq> 0" "lots + c_reserved c \<le> c_lots c"
    and 1: "trader_slot m receiver = Some (Inr (m1, r))" and sh: "shrink c lots = Some (c', cost)"
    and 2: "put_shrunk m1 i c' = Some (Inr m2)"
    and 3: "place m2 (claim_default\<lparr>c_lots := lots, c_trader := r, c_side := c_side c', c_lo := c_lo c', c_hi := c_hi c',
       c_cost := cost, c_opened_ts := c_opened_ts c'\<rparr>) None None = Some (Inr (m3, q))" (is "place m2 ?moved None None = _")
    and st: "store m3 = Some (Inr m')"
    using assms(1) unfolding transfer_claim_def owned_trader_def Let_def
    by (auto simp: res_simps owned_claim_ok option_bind_eq_Some checked_simps c_def split: prod.splits)
  let ?k = "h_k (m_head m)" and ?g = "h_grid (m_head m)" and ?n = "length (m_traders m)"
  obtain x where x: "m_head m1 = m_head m" "m_claims m1 = m_claims m" "m_makers m1 = m_makers m" "m_steps m1 = m_steps m"
    "length (m_traders m1) = ?n" "r < ?n" "\<forall>P s. worth P m1 s = worth P m s - at P r x" "drift m1 = drift m - int x"
    by (rule trader_slot_facts [OF 1])
  have f: "formed m" "on_grid m" "audit m = Some (Inr ())" using assms(2) by (simp_all add: sound_def)
  have f1: "formed m1" "on_grid m1" using f x by (simp_all add: formed_def on_grid_def)
  have sc: "shaped ?g ?n c" using formed_at [OF f(1) i(1)] i(2) by (simp add: claim_formed_def c_def)
  note s = shrink_facts [OF sh]
  have i1: "i < length (m_claims m1)" "m_claims m1 ! i = c" using i x by (simp_all add: c_def)
  have sh': "stays_held (m_claims m1 ! i) c'" using s i1 by (simp add: stays_held_def)
  note p = put_shrunk_moves [OF 2 i1(1) sh']
  have f2: "formed m2" by (rule put_shrunk_formed [OF 2 i1(1) f1(1)]) (use s i1 in simp_all)
  note t2 = moves_terms [OF conjunct1 [OF p]]
  have "shaped (h_grid (m_head m2)) (length (m_traders m2)) ?moved"
    using sc s(1) x(1,5,6) t2 by (simp add: shaped_def same_kind_def)
  then have pl: "moves m2 m3 (\<lambda>P s. val P (h_k (m_head m2)) s ?moved) \<and> formed m3"
    by (intro place_moves [OF 3 f2]) (simp_all add: joins_def)
  let ?d = "\<lambda>P s. val P ?k s (c\<lparr>c_lots := lots, c_trader := r\<rparr>) - val P ?k s (c\<lparr>c_lots := lots\<rparr>)"
  have mv: "moves m1 m3 ?d"
  proof (rule moves_cong [OF moves_trans [OF conjunct1 [OF p] conjunct1 [OF pl]]])
    fix P s
    have "val P ?k s c = val P ?k s c' + val P ?k s (c\<lparr>c_lots := lots\<rparr>)"
      by (rule val_lots) (use s in \<open>simp_all add: same_kind_def\<close>)
    moreover have "val P ?k s ?moved = val P ?k s (c\<lparr>c_lots := lots, c_trader := r\<rparr>)"
      using s(1) by (simp add: val_def pays_def same_kind_def)
    ultimately show "val P (h_k (m_head m1)) s c' - val P (h_k (m_head m1)) s (m_claims m1 ! i) + val P (h_k (m_head m2)) s ?moved = ?d P s"
      by (simp add: t2(1) x(1) i1(2))
  qed
  have g3: "on_grid m3" using moves_on_grid [OF mv f1(2)] .
  have tm: "terms m3 = terms m" using mv x(1) by (simp add: moves_def terms_def)
  have w: "worth P m3 s = worth P m s - at P r x + ?d P s" for P s using mv x(7) by (simp add: moves_def)
  have total: "?d (\<lambda>_. True) s = 0" for s by (simp add: val_def pays_def)
  obtain rr where rr: "frame m3 m'" "h_debt (m_head m3) = h_debt (m_head m') + rr"
    "\<forall>P s. worth P m' s = worth P m3 s - repaid m3 P rr" "repaid m3 (\<lambda>_. True) rr = int rr" "drift m' = drift m3"
    "0 < rr \<longrightarrow> has_credit (m_head m3) \<and> \<not> credit_settled (m_head m3)" "settled_up m'" "audit m' = Some (Inr ())"
    by (rule store_facts [OF st])
  have "formed m'" "on_grid m'" using frame_formed [OF rr(1)] frame_on_grid [OF rr(1)] pl g3 by simp_all
  then have "drift m' = 0" by (rule audit_drift [OF rr(8)])
  moreover have "drift m = 0" by (rule audit_drift [OF f(3,1,2)])
  ultimately have x0: "x = 0" using rr(5) mv x(8) by (simp add: moves_def)
  have "sound m'"
    by (rule stored_sound [OF assms(2) tm _ st conjunct2 [OF pl] g3, where e = "\<lambda>s. 0"]) (simp_all add: w x0 total)
  moreover have "ledger_moves m m' ?d"
    unfolding ledger_moves_def ledger_lends_def using rr(2,3,4,6) terms_eq(6-8) [OF tm]
    by (intro exI [of _ rr]) (simp add: frame_repaid [OF rr(1)] frame_head(7) [OF rr(1)] w x0 has_credit_def credit_settled_def)
  moreover have "h_custody (m_head m') = h_custody (m_head m)" using frame_head(5) [OF rr(1)] terms_eq(5) [OF tm] by simp
  moreover have "neat m m'" using trader_slot_neat [OF 1] moves_neat [OF mv] store_neat [OF st] neat_trans by blast
  ultimately show ?thesis using i t 1 unfolding c_def by auto
qed

subsection \<open>The final settlement\<close>

lemma settled_up_repay:
  assumes "settled_up m"
  shows "repay m = Some (Inr m)"
proof (cases "h_debt (m_head m) = 0 \<or> \<not> has_credit (m_head m)")
  case True
  then show ?thesis by (simp add: repay_def Let_def)
next
  case owing: False
  show ?thesis
  proof (cases "find_trader m (h_credit_owner (m_head m))")
    case None
    then show ?thesis using assms owing by (auto simp: settled_up_def repay_def Let_def andthen_def ensure_def)
  next
    case (Some t)
    then have t: "t < length (m_traders m)" by (auto simp: find_trader_def find_Some_iff)
    show ?thesis
    proof (cases "credit_settled (m_head m)")
      case True
      then show ?thesis using assms owing Some by (auto simp: settled_up_def repay_def Let_def andthen_def ensure_def)
    next
      case False
      then have "tr_free (m_traders m ! t) = 0" "h_debt (m_head m) \<le> h_backing (m_head m) + tr_reserved (m_traders m ! t)"
        using assms owing Some by (auto simp: settled_up_def Let_def)
      moreover from this have "repay_from m t = Some (Inr m)" using t by (simp add: repay_from_def slot_def)
      ultimately show ?thesis using owing Some False by (simp add: repay_def Let_def andthen_def ensure_def)
    qed
  qed
qed

lemma audit_approval: "audit (set_approval m x) = audit m"
proof -
  have "audit_orders (set_approval m x) rs e h = audit_orders m rs e h" for rs e h
    by (rule audit_orders_claims) (simp add: set_approval_def)
  then show ?thesis by (simp add: audit_def set_approval_def)
qed

definition finalized :: "market \<Rightarrow> u64 \<Rightarrow> u8 \<Rightarrow> u64 \<Rightarrow> market" where
  "finalized m fine status now = m\<lparr>m_head := (m_head m)\<lparr>h_settlement_fine := fine, h_status := status, h_settled_ts := now\<rparr>\<rparr>"

lemma finalized_audit:
  assumes "sound m" "h_status (m_head m) = STATUS_OPEN" "status \<noteq> STATUS_OPEN"
  shows "audit (finalized m fine status now) = Some (Inr ())"
proof -
  let ?m = "finalized m fine status now"
  let ?ks = "zip (m_makers m) (m_steps m)"
  have f: "formed m" "on_grid m" "backed m" using assms(1,2) by (simp_all add: sound_def)
  then have f': "formed ?m" "on_grid ?m" by (simp_all add: formed_def on_grid_def finalized_def)
  have a: "audit m = Some (Inr ())" using assms(1) by (simp add: sound_def)
  note au = a [unfolded audit_iff [OF f(1,2)]]
  have "int (dues (m_head ?m) ?ks + claims_due (m_head ?m) (m_claims m)) = all_pay m fine"
    by (simp add: makers_due_int claims_due_int all_pay_def finalized_def)
  with f(3) have due: "dues (m_head ?m) ?ks + claims_due (m_head ?m) (m_claims m) = h_backing (m_head m)"
    by (simp add: backed_def flip: of_nat_add)
  have b: "h_backing (m_head m) < 2 ^ 128" by (rule audit_cash(3) [OF a f(1,2) assms(2)])
  have ord: "audit_orders ?m rs e h = audit_orders m rs e h" for rs e h
    by (rule audit_orders_claims) (simp add: finalized_def)
  have eqs: "m_traders ?m = m_traders m" "m_orders ?m = m_orders m" "m_makers ?m = m_makers m" "m_steps ?m = m_steps m"
    "m_claims ?m = m_claims m" "h_status (m_head ?m) = status" "h_k (m_head ?m) = h_k (m_head m)"
    "h_total_free (m_head ?m) = h_total_free (m_head m)" "h_total_reserved (m_head ?m) = h_total_reserved (m_head m)"
    "h_backing (m_head ?m) = h_backing (m_head m)" "h_custody (m_head ?m) = h_custody (m_head m)"
    "h_debt (m_head ?m) = h_debt (m_head m)" by (simp_all add: finalized_def)
  show ?thesis
    unfolding audit_iff [OF f'] eqs ord using au due b assms(3) by simp
qed

lemma finalized_stored:
  assumes "sound m" "h_status (m_head m) = STATUS_OPEN" "status \<noteq> STATUS_OPEN"
  obtains m' where "store (finalized m fine status now) = Some (Inr m')" "sound m'"
    "all_pay m' fine = int (h_backing (m_head m'))" "ledger_moves m m' (\<lambda>P s. 0)" "h_settlement_fine (m_head m') = fine"
    "h_custody (m_head m') = h_custody (m_head m)"
proof -
  let ?m = "finalized m fine status now"
  have au: "audit ?m = Some (Inr ())" by (rule finalized_audit [OF assms])
  have "settled_up m" using assms(1) by (simp add: sound_def)
  then have up: "settled_up ?m"
    by (simp add: settled_up_def Let_def finalized_def find_trader_def has_credit_def credit_settled_def)
  define m' where "m' = (if h_debt (m_head ?m) = 0 then set_approval ?m 0 else ?m)"
  have st: "store ?m = Some (Inr m')"
    using settled_up_repay [OF up] au by (simp add: store_def andthen_def Let_def m'_def audit_approval)
  have eq: "m_head m' = m_head ?m" "m_traders m' = m_traders m" "m_claims m' = m_claims m" "m_makers m' = m_makers m"
    "m_steps m' = m_steps m" by (simp_all add: m'_def set_approval_def finalized_def)
  have f: "formed m'" "on_grid m'" using assms(1) by (simp_all add: sound_def formed_def on_grid_def eq) (simp_all add: finalized_def)
  have a': "audit m' = Some (Inr ())" using au by (simp add: m'_def audit_approval)
  have "settled_up m'" using up by (simp add: settled_up_def eq find_trader_def) (simp add: finalized_def)
  moreover have fin: "h_status (m_head m') \<noteq> STATUS_OPEN" using assms(3) by (simp add: eq finalized_def)
  ultimately have "sound m'" using f a' by (simp add: sound_def)
  moreover have "h_settlement_fine (m_head m') = fine" by (simp add: eq finalized_def)
  moreover from this have "all_pay m' fine = int (h_backing (m_head m'))" using audit_cash(2) [OF a' f fin] by simp
  moreover have "h_custody (m_head m') = h_custody (m_head m)" by (simp add: eq finalized_def)
  moreover have "ledger_moves m m' (\<lambda>P s. 0)"
    unfolding ledger_moves_def ledger_lends_def
    by (intro exI [of _ 0]) (auto simp: eq finalized_def worth_def repaid_def split: option.splits)
  ultimately show thesis using that st by blast
qed

subsection \<open>Runs\<close>

text \<open>
  The abstract ledger: what each trader's cash and holdings are worth at every settlement, whether the market has a
  credit owner, its debt, and the cash in custody. Events are what a trader sees; a repayment of the debt may follow each of them.
\<close>

type_synonym profile = "nat \<Rightarrow> int"

record ledger =
  lg_worth :: "nat \<Rightarrow> profile"
  lg_credit :: bool
  lg_debt :: nat
  lg_custody :: nat

datatype event =
  PaidIn nat nat
| PaidOut nat nat
| Kept
| Handed nat nat profile
| Traded "(nat \<times> profile) list" nat
| SettledAt nat

definition add_worth :: "ledger \<Rightarrow> nat \<Rightarrow> profile \<Rightarrow> ledger" where
  "add_worth l t p = l\<lparr>lg_worth := (lg_worth l)(t := (\<lambda>s. lg_worth l t s + p s))\<rparr>"

text \<open>A trade gives each of its parties a profile; together they are worth nothing at any settlement.\<close>

definition add_all :: "ledger \<Rightarrow> (nat \<times> profile) list \<Rightarrow> ledger" where
  "add_all l es = l\<lparr>lg_worth := (\<lambda>t s. lg_worth l t s + entries_gain es (\<lambda>i. i = t) s)\<rparr>"

inductive ledger_event :: "event \<Rightarrow> ledger \<Rightarrow> ledger \<Rightarrow> bool" where
  paid_in: "ledger_event (PaidIn t n) l ((add_worth l t (\<lambda>s. int n))\<lparr>lg_custody := lg_custody l + n\<rparr>)"
| paid_out: "lg_custody l = c + n \<Longrightarrow> ledger_event (PaidOut t n) l ((add_worth l t (\<lambda>s. - int n))\<lparr>lg_custody := c\<rparr>)"
| kept: "ledger_event Kept l l"
| handed: "ledger_event (Handed t u p) l (add_worth (add_worth l t (\<lambda>s. - p s)) u p)"
| traded: "\<forall>s. entries_gain es (\<lambda>_. True) s = 0 \<Longrightarrow> (0 < loan \<longrightarrow> lg_credit l) \<Longrightarrow>
    ledger_event (Traded es t) l ((add_worth (add_all l es) t (\<lambda>s. int loan))\<lparr>lg_debt := lg_debt l + loan\<rparr>)"
| settled_at: "\<forall>t. lg_worth l' t s = lg_worth l t s \<Longrightarrow> lg_credit l' = lg_credit l \<Longrightarrow> lg_debt l' = lg_debt l \<Longrightarrow> lg_custody l' = lg_custody l \<Longrightarrow>
    ledger_event (SettledAt s) l l'"

inductive ledger_step :: "event \<Rightarrow> ledger \<Rightarrow> ledger \<Rightarrow> bool" where
  plain: "ledger_event e l l' \<Longrightarrow> ledger_step e l l'"
| repaying: "ledger_event e l l' \<Longrightarrow> lg_debt l' = debt + r \<Longrightarrow> (0 < r \<longrightarrow> lg_credit l) \<Longrightarrow>
    ledger_step e l ((add_worth l' t (\<lambda>s. - int r))\<lparr>lg_debt := debt\<rparr>)"

definition books :: "market \<Rightarrow> ledger" where
  "books m = \<lparr>lg_worth = (\<lambda>t. worth (\<lambda>i. i = t) m), lg_credit = has_credit (m_head m), lg_debt = h_debt (m_head m), lg_custody = h_custody (m_head m)\<rparr>"

text \<open>What \<open>lots\<close> of a claim are worth at every settlement.\<close>

definition claim_profile :: "market \<Rightarrow> u32 \<Rightarrow> u64 \<Rightarrow> profile" where
  "claim_profile m i lots = (\<lambda>s. pays (h_k (m_head m)) s ((m_claims m ! i)\<lparr>c_lots := lots\<rparr>))"

inductive market_step :: "event \<Rightarrow> market \<Rightarrow> market \<Rightarrow> bool" where
  deposits: "deposit m a c amount = Some (Inr m') \<Longrightarrow> trader_slot m (ac_key (as_owner a)) = Some (Inr (m1, t)) \<Longrightarrow>
    market_step (PaidIn t amount) m m'"
| withdraws: "withdraw m a c amount = Some (Inr (m', paid)) \<Longrightarrow> find_trader m (ac_key (as_owner a)) = Some t \<Longrightarrow>
    market_step (PaidOut t paid) m m'"
| cancels: "cancel m a i seq = Some (Inr m') \<Longrightarrow> market_step Kept m m'"
| cancels_quote: "cancel_quote m a = Some (Inr m') \<Longrightarrow> market_step Kept m m'"
| splits: "split_claim m a i seq x = Some (Inr m') \<Longrightarrow> market_step Kept m m'"
| merges: "merge_claims m a keep absorb = Some (Inr m') \<Longrightarrow> market_step Kept m m'"
| redeems: "redeem m a long short lots = Some (Inr m') \<Longrightarrow> market_step Kept m m'"
| transfers: "transfer_claim m a i seq lots receiver oc = Some (Inr m') \<Longrightarrow> trader_slot m receiver = Some (Inr (m1, u)) \<Longrightarrow>
    find_trader m (ac_key (as_owner a)) = Some t \<Longrightarrow> market_step (Handed t u (claim_profile m i lots)) m m'"
| finalizes: "finalize m period_key loaded now = Some (Inr m') \<Longrightarrow> market_step Kept m m'"
| council_settles: "council_settle m period_key loaded value now = Some (Inr m') \<Longrightarrow> market_step Kept m m'"
| settles: "settle m claims = Some (Inr m') \<Longrightarrow> market_step (SettledAt (h_settlement_fine (m_head m))) m m'"
| settles_maker: "settle_maker m k = Some (Inr m') \<Longrightarrow> market_step (SettledAt (h_settlement_fine (m_head m))) m m'"
| prunes: "prune m orders = Some (Inr m') \<Longrightarrow> market_step Kept m m'"
| submits: "submit m a p prop_bytes approval period_key loaded now = Some (Inr m') \<Longrightarrow>
    trader_slot m (ac_key (as_owner a)) = Some (Inr (m1, t)) \<Longrightarrow> submitted m prop_bytes = Some (fs, filled) \<Longrightarrow>
    from_u8 (sb_side p) = Some sd \<Longrightarrow> market_step (Traded (trade_entries m t p sd fs filled) t) m m'"
| quotes: "quote m a l co knots prop_bytes approval period_key loaded now = Some (Inr m') \<Longrightarrow>
    acting_trader m a = Some (Inr t) \<Longrightarrow> market_step (Traded [] t) m m'"

lemma repaid_eq: "repaid m P r = (case find_trader m (h_credit_owner (m_head m)) of None \<Rightarrow> 0 | Some t \<Rightarrow> at P t r)"
  by (simp add: repaid_def)

text \<open>From a move of the worth of all sets of traders to a step of the ledger.\<close>

lemma ledger_of_lends:
  assumes "ledger_lends m m' d loan"
    and "\<And>l'. lg_worth l' = (\<lambda>t s. worth (\<lambda>i. i = t) m s + d (\<lambda>i. i = t) s) \<Longrightarrow> lg_debt l' = h_debt (m_head m) + loan \<Longrightarrow>
      lg_custody l' = h_custody (m_head m') \<Longrightarrow> lg_credit l' = has_credit (m_head m) \<Longrightarrow> (0 < loan \<longrightarrow> has_credit (m_head m)) \<Longrightarrow>
      ledger_event e (books m) l'"
  shows "ledger_step e (books m) (books m')"
proof -
  obtain r where r: "h_debt (m_head m) + loan = h_debt (m_head m') + r" "\<forall>P s. worth P m' s = worth P m s + d P s - repaid m' P r"
    "repaid m' (\<lambda>_. True) r = int r" "0 < r \<longrightarrow> has_credit (m_head m)" "0 < loan \<longrightarrow> has_credit (m_head m)"
    "h_credit_owner (m_head m') = h_credit_owner (m_head m)" using assms(1) by (auto simp: ledger_lends_def)
  define l where "l = \<lparr>lg_worth = (\<lambda>t s. worth (\<lambda>i. i = t) m s + d (\<lambda>i. i = t) s), lg_credit = has_credit (m_head m),
    lg_debt = h_debt (m_head m) + loan, lg_custody = h_custody (m_head m')\<rparr>"
  have ev: "ledger_event e (books m) l" by (rule assms(2)) (use r(5) in \<open>simp_all add: l_def\<close>)
  have hc: "has_credit (m_head m') = has_credit (m_head m)" using r(6) by (simp add: has_credit_def)
  show ?thesis
  proof (cases "find_trader m' (h_credit_owner (m_head m'))")
    case None
    then have "r = 0" using r(3) by (simp add: repaid_def)
    then have "books m' = l" using r(1,2) None hc by (auto simp: books_def l_def repaid_def fun_eq_iff)
    then show ?thesis using plain [OF ev] by simp
  next
    case (Some t)
    have "books m' = (add_worth l t (\<lambda>s. - int r))\<lparr>lg_debt := h_debt (m_head m')\<rparr>"
      using r(2) hc by (auto simp: books_def add_worth_def l_def repaid_def Some at_def fun_eq_iff)
    then show ?thesis using repaying [OF ev, of "h_debt (m_head m')" r t] r(1,4) by (simp add: l_def books_def)
  qed
qed

lemmas ledger_of_moves = ledger_of_lends [where loan = 0, folded ledger_moves_def, simplified]

lemma kept_ledger:
  assumes "ledger_moves m m' (\<lambda>P s. 0)" "h_custody (m_head m') = h_custody (m_head m)"
  shows "ledger_step Kept (books m) (books m')"
proof (rule ledger_of_moves [OF assms(1)])
  fix l' :: ledger assume "lg_worth l' = (\<lambda>t s. worth (\<lambda>i. i = t) m s + 0)" "lg_debt l' = h_debt (m_head m)"
    "lg_custody l' = h_custody (m_head m')" "lg_credit l' = has_credit (m_head m)"
  then have "l' = books m" by (simp add: books_def assms(2))
  then show "ledger_event Kept (books m) l'" by (simp add: kept)
qed

lemma stored_custody:
  assumes "store m1 = Some (Inr m')" "terms m1 = terms m"
  shows "h_custody (m_head m') = h_custody (m_head m)"
proof -
  obtain r where "frame m1 m'" by (rule store_facts [OF assms(1)])
  then show ?thesis using frame_head(5) terms_eq(5) [OF assms(2)] by simp
qed

text \<open>An instruction whose change of worth is nothing, and one that changes nothing at the settlement.\<close>

lemma quiet_step:
  assumes "sound m" "steps_to m m1 (\<lambda>P s. 0)" "store m1 = Some (Inr m')"
  shows "sound m' \<and> ledger_step Kept (books m) (books m')"
proof -
  have "sound m' \<and> ledger_moves m m' (\<lambda>P s. 0)" by (rule stored_step [OF assms]) simp
  moreover have "h_custody (m_head m') = h_custody (m_head m)"
    using stored_custody [OF assms(3)] assms(2) by (simp add: steps_to_def flows_def)
  ultimately show ?thesis using kept_ledger by blast
qed

lemma settling_step:
  assumes "sound m" "steps_to m m1 d" "store m1 = Some (Inr m')" "\<forall>P. d P (h_settlement_fine (m_head m)) = 0"
    "h_status (m_head m) \<noteq> STATUS_OPEN"
  shows "sound m' \<and> ledger_step (SettledAt (h_settlement_fine (m_head m))) (books m) (books m')"
proof -
  have lm: "sound m' \<and> ledger_moves m m' d" by (rule stored_step [OF assms(1-3)]) (use assms(5) in simp)
  have cu: "h_custody (m_head m') = h_custody (m_head m)"
    using stored_custody [OF assms(3)] assms(2) by (simp add: steps_to_def flows_def)
  have "ledger_step (SettledAt (h_settlement_fine (m_head m))) (books m) (books m')"
    by (rule ledger_of_moves [OF conjunct2 [OF lm]]) (rule settled_at; use assms(4) cu in \<open>simp add: books_def\<close>)
  with lm show ?thesis by blast
qed

text \<open>A trade: what each party gains, a loan to its taker or quoter, and perhaps a repayment.\<close>

lemma traded_ledger:
  assumes "ledger_lends m m' (\<lambda>P s. entries_gain es P s + at P t loan) loan" "\<forall>s. entries_gain es (\<lambda>_. True) s = 0"
    "h_custody (m_head m') = h_custody (m_head m)"
  shows "ledger_step (Traded es t) (books m) (books m')"
proof (rule ledger_of_lends [OF assms(1)])
  fix l' :: ledger assume l': "lg_worth l' = (\<lambda>u s. worth (\<lambda>i. i = u) m s + (entries_gain es (\<lambda>i. i = u) s + at (\<lambda>i. i = u) t loan))"
    "lg_debt l' = h_debt (m_head m) + loan" "lg_custody l' = h_custody (m_head m')" "lg_credit l' = has_credit (m_head m)"
    and hc: "0 < loan \<longrightarrow> has_credit (m_head m)"
  have "l' = (add_worth (add_all (books m) es) t (\<lambda>s. int loan))\<lparr>lg_debt := lg_debt (books m) + loan\<rparr>"
    by (rule ledger.equality) (use l' assms(3) in \<open>auto simp: add_worth_def add_all_def books_def at_def fun_eq_iff\<close>)
  then show "ledger_event (Traded es t) (books m) l'" using traded [OF assms(2), of loan "books m" t] hc by (simp add: books_def)
qed

lemma market_step_orderly:
  assumes "market_step e m m'" "sound m" "orderly m"
  shows "orderly m'"
  using assms(1)
proof cases
  case (submits a p prop_bytes approval period_key loaded now m1 t fs filled sd)
  then show ?thesis using submit_facts assms(2,3) by blast
next
  case (quotes a l co knots prop_bytes approval period_key loaded now t)
  then show ?thesis using quote_facts assms(2,3) by blast
next
  case (deposits a c amount m1 t)
  then show ?thesis using deposit_neat neat_orderly assms(3) by blast
next
  case (withdraws a c amount paid t)
  then show ?thesis using withdraw_neat neat_orderly assms(3) by blast
next
  case (cancels a i seq)
  then obtain m1 x where "remove_order m i = Some (Inr (m1, x))" "store m1 = Some (Inr m')" by (auto simp: cancel_def res_simps)
  then show ?thesis using remove_order_neat store_neat neat_trans neat_orderly assms(3) by blast
next
  case (cancels_quote a)
  then obtain m1 k x where "retire_ladder m k = Some (Inr (m1, x))" "store m1 = Some (Inr m')"
    by (auto simp: cancel_quote_def res_simps option_bind_eq_Some)
  then show ?thesis using retire_ladder_neat store_neat neat_trans neat_orderly assms(3) by blast
next
  case (splits a i seq x)
  then show ?thesis using split_claim_moves moves_store_neat neat_orderly assms(2,3) by (metis sound_def)
next
  case (merges a keep absorb)
  then show ?thesis using merge_claims_moves moves_store_neat neat_orderly assms(2,3) by (metis sound_def)
next
  case (redeems a long short lots)
  then show ?thesis using redeem_moves moves_store_neat neat_orderly assms(2,3) by (metis sound_def)
next
  case (transfers a i seq lots receiver oc m1 u t)
  then show ?thesis using transfer_claim_facts assms(2,3) neat_orderly by blast
next
  case (finalizes pk loaded now)
  then obtain h where "store (m\<lparr>m_head := h\<rparr>) = Some (Inr m')" "h_grid h = h_grid (m_head m)"
    by (auto simp: finalize_def res_simps Let_def)
  then show ?thesis using head_neat store_neat neat_trans neat_orderly assms(3) by blast
next
  case (council_settles pk loaded v now)
  then obtain h where "store (m\<lparr>m_head := h\<rparr>) = Some (Inr m')" "h_grid h = h_grid (m_head m)"
    by (auto simp: council_settle_def res_simps Let_def)
  then show ?thesis using head_neat store_neat neat_trans neat_orderly assms(3) by blast
next
  case (settles claims)
  then obtain m1 where "settle_each m claims = Some (Inr m1)" "store m1 = Some (Inr m')" by (auto simp: settle_def res_simps)
  then show ?thesis using settle_each_neat store_neat neat_trans neat_orderly assms(3) by blast
next
  case (settles_maker k)
  then show ?thesis using settle_maker_neat neat_orderly assms(3) by blast
next
  case (prunes orders)
  then obtain m1 where "prune_each m orders = Some (Inr m1)" "store m1 = Some (Inr m')" by (auto simp: prune_def res_simps)
  then show ?thesis using prune_each_neat store_neat neat_trans neat_orderly assms(3) by blast
qed

lemma market_step_facts:
  assumes "market_step e m m'" "sound m" "orderly m"
  shows "sound m' \<and> ledger_step e (books m) (books m')"
  using assms(1)
proof cases
  case (submits a p prop_bytes approval period_key loaded now m1 t fs filled sd)
  then obtain l where "sound m'" "h_custody (m_head m') = h_custody (m_head m)" "\<forall>s. entries_gain (trade_entries m t p sd fs filled) (\<lambda>_. True) s = 0"
    "ledger_lends m m' (\<lambda>P s. entries_gain (trade_entries m t p sd fs filled) P s + at P t l) l"
    using submit_facts [OF submits(2) assms(2,3)] by auto
  then show ?thesis using traded_ledger submits(1) by blast
next
  case (quotes a l co knots prop_bytes approval period_key loaded now t)
  then obtain lend where "sound m'" "h_custody (m_head m') = h_custody (m_head m)" "ledger_lends m m' (\<lambda>P s. at P t lend) lend"
    using quote_facts [OF quotes(2) assms(2,3)] by auto
  then show ?thesis using traded_ledger [of m m' "[]" t lend] quotes(1) by (simp add: entries_gain_def)
next
  case (deposits a c amount m1 t)
  note f = deposit_facts [OF deposits(2) assms(2)]
  then have lm: "ledger_moves m m' (\<lambda>P s. at P t amount)" and c: "h_custody (m_head m') = h_custody (m_head m) + amount"
    using deposits(3) by auto
  have "ledger_step (PaidIn t amount) (books m) (books m')"
  proof (rule ledger_of_moves [OF lm])
    fix l' :: ledger assume l': "lg_worth l' = (\<lambda>t' s. worth (\<lambda>i. i = t') m s + at (\<lambda>i. i = t') t amount)"
      "lg_debt l' = h_debt (m_head m)" "lg_custody l' = h_custody (m_head m')" "lg_credit l' = has_credit (m_head m)"
    have "l' = (add_worth (books m) t (\<lambda>s. int amount))\<lparr>lg_custody := lg_custody (books m) + amount\<rparr>"
      by (rule ledger.equality) (use l' c in \<open>auto simp: add_worth_def books_def at_def fun_eq_iff\<close>)
    then show "ledger_event (PaidIn t amount) (books m) l'" by (simp add: paid_in)
  qed
  then show ?thesis using f deposits(1) by blast
next
  case (withdraws a c amount paid t)
  note f = withdraw_facts [OF withdraws(2) assms(2)]
  then have lm: "ledger_moves m m' (\<lambda>P s. - at P t paid)" and c: "h_custody (m_head m) = h_custody (m_head m') + paid"
    using withdraws(3) by auto
  have "ledger_step (PaidOut t paid) (books m) (books m')"
  proof (rule ledger_of_moves [OF lm])
    fix l' :: ledger assume l': "lg_worth l' = (\<lambda>t' s. worth (\<lambda>i. i = t') m s + - at (\<lambda>i. i = t') t paid)"
      "lg_debt l' = h_debt (m_head m)" "lg_custody l' = h_custody (m_head m')" "lg_credit l' = has_credit (m_head m)"
    have "l' = (add_worth (books m) t (\<lambda>s. - int paid))\<lparr>lg_custody := h_custody (m_head m')\<rparr>"
      by (rule ledger.equality) (use l' in \<open>auto simp: add_worth_def books_def at_def fun_eq_iff\<close>)
    then show "ledger_event (PaidOut t paid) (books m) l'" using c by (simp add: paid_out books_def)
  qed
  then show ?thesis using f withdraws(1) by blast
next
  case (cancels a i seq)
  then obtain m1 x where "remove_order m i = Some (Inr (m1, x))" "store m1 = Some (Inr m')"
    by (auto simp: cancel_def res_simps)
  then show ?thesis using quiet_step [OF assms(2) remove_order_steps] cancels(1) by blast
next
  case (cancels_quote a)
  then obtain m1 k x where "retire_ladder m k = Some (Inr (m1, x))" "store m1 = Some (Inr m')"
    by (auto simp: cancel_quote_def res_simps option_bind_eq_Some)
  then show ?thesis using quiet_step [OF assms(2) retire_ladder_steps] cancels_quote(1) by blast
next
  case (splits a i seq x)
  obtain m1 where m1: "store m1 = Some (Inr m')" "moves m m1 (\<lambda>P s. 0)" "formed m1"
    using split_claim_moves [OF splits(2)] assms(2) by (auto simp: sound_def)
  then show ?thesis using quiet_step [OF assms(2) moves_steps_to m1(1)] splits(1) by blast
next
  case (merges a keep absorb)
  obtain m1 where m1: "store m1 = Some (Inr m')" "moves m m1 (\<lambda>P s. 0)" "formed m1"
    using merge_claims_moves [OF merges(2)] assms(2) by (auto simp: sound_def)
  then show ?thesis using quiet_step [OF assms(2) moves_steps_to m1(1)] merges(1) by blast
next
  case (redeems a long short lots)
  obtain m1 where m1: "store m1 = Some (Inr m')" "moves m m1 (\<lambda>P s. 0)" "formed m1"
    using redeem_moves [OF redeems(2)] assms(2) by (auto simp: sound_def)
  then show ?thesis using quiet_step [OF assms(2) moves_steps_to m1(1)] redeems(1) by blast
next
  case (transfers a i seq lots receiver oc m1 u t)
  define p where "p = claim_profile m i lots"
  note f = transfer_claim_facts [OF transfers(2) assms(2)]
  define c where "c = (m_claims m ! i)\<lparr>c_lots := lots\<rparr>"
  have lm: "ledger_moves m m' (\<lambda>P s. val P (h_k (m_head m)) s (c\<lparr>c_trader := u\<rparr>) - val P (h_k (m_head m)) s c)"
    and t: "c_trader c = t" and cu: "h_custody (m_head m') = h_custody (m_head m)"
    using f transfers(3,4) by (auto simp: c_def)
  have pay: "pays (h_k (m_head m)) s c = p s" "pays (h_k (m_head m)) s (c\<lparr>c_trader := v\<rparr>) = p s" for s v
    by (simp_all add: p_def claim_profile_def c_def pays_def)
  have "ledger_step (Handed t u p) (books m) (books m')"
  proof (rule ledger_of_moves [OF lm])
    fix l' :: ledger assume l': "lg_worth l' = (\<lambda>t' s. worth (\<lambda>i. i = t') m s + (val (\<lambda>i. i = t') (h_k (m_head m)) s (c\<lparr>c_trader := u\<rparr>)
        - val (\<lambda>i. i = t') (h_k (m_head m)) s c))"
      "lg_debt l' = h_debt (m_head m)" "lg_custody l' = h_custody (m_head m')" "lg_credit l' = has_credit (m_head m)"
    have "l' = add_worth (add_worth (books m) t (\<lambda>s. - p s)) u p"
      by (rule ledger.equality) (use l' cu in \<open>auto simp: add_worth_def books_def val_def pay t fun_eq_iff\<close>)
    then show "ledger_event (Handed t u p) (books m) l'" by (simp add: handed)
  qed
  then show ?thesis using f transfers(1) by (simp add: p_def)
next
  case (finalizes pk loaded now)
  then obtain fine where op: "h_status (m_head m) = STATUS_OPEN" and st: "store (finalized m fine STATUS_SETTLED now) = Some (Inr m')"
    by (auto simp: finalize_def res_simps finalized_def Let_def)
  have "STATUS_SETTLED \<noteq> STATUS_OPEN" by (simp add: STATUS_SETTLED_def STATUS_OPEN_def)
  from finalized_stored [OF assms(2) op this, of fine now] st
  show ?thesis using kept_ledger finalizes(1) by (metis Inr_inject option.inject)
next
  case (council_settles pk loaded v now)
  then obtain fine where op: "h_status (m_head m) = STATUS_OPEN" and st: "store (finalized m fine STATUS_FAILED now) = Some (Inr m')"
    by (auto simp: council_settle_def res_simps finalized_def Let_def)
  have "STATUS_FAILED \<noteq> STATUS_OPEN" by (simp add: STATUS_FAILED_def STATUS_OPEN_def)
  from finalized_stored [OF assms(2) op this, of fine now] st
  show ?thesis using kept_ledger council_settles(1) by (metis Inr_inject option.inject)
next
  case (settles claims)
  then obtain m1 where 1: "settle_each m claims = Some (Inr m1)" and st: "store m1 = Some (Inr m')"
    and fin: "h_status (m_head m) \<noteq> STATUS_OPEN" by (auto simp: settle_def need_final_def res_simps)
  obtain d where "steps_to m m1 d" "\<forall>P. d P (h_settlement_fine (m_head m)) = 0"
    using settle_each_steps [OF 1] assms(2) by (auto simp: sound_def)
  then show ?thesis using settling_step [OF assms(2) _ st _ fin] settles(1) by blast
next
  case (settles_maker k)
  obtain m1 d where "store m1 = Some (Inr m')" "steps_to m m1 d" "\<forall>P. d P (h_settlement_fine (m_head m)) = 0"
    "h_status (m_head m) \<noteq> STATUS_OPEN"
    using settle_maker_steps [OF settles_maker(2)] assms(2) by (auto simp: sound_def)
  then show ?thesis using settling_step [OF assms(2)] settles_maker(1) by blast
next
  case (prunes orders)
  then obtain m1 where "prune_each m orders = Some (Inr m1)" "store m1 = Some (Inr m')"
    by (auto simp: prune_def res_simps)
  then show ?thesis using quiet_step [OF assms(2) prune_each_steps] prunes(1) by blast
qed

interpretation market_run: simulation market_step "\<lambda>m. sound m \<and> orderly m" ledger_step books
  by unfold_locales (use market_step_facts market_step_orderly in blast)

text \<open>What the books of the ledger promise about a whole run: custody changes by what was paid in and out, the
  debt grows only where a trade borrows, and not at all without a credit owner.\<close>

fun borrows :: "event \<Rightarrow> bool" where
  "borrows (Traded es t) = True"
| "borrows e = False"

fun custody_change :: "event \<Rightarrow> int" where
  "custody_change (PaidIn t n) = int n"
| "custody_change (PaidOut t n) = - int n"
| "custody_change e = 0"

inductive_cases ledger_eventE: "ledger_event e l l'"
inductive_cases ledger_stepE: "ledger_step e l l'"

lemma ledger_event_cash:
  "ledger_event e l l' \<Longrightarrow> int (lg_custody l') = int (lg_custody l) + custody_change e \<and> lg_credit l' = lg_credit l
    \<and> (\<not> borrows e \<or> \<not> lg_credit l \<longrightarrow> lg_debt l' = lg_debt l)"
  by (erule ledger_eventE) (auto simp: add_worth_def add_all_def)

lemma ledger_step_cash:
  "ledger_step e l l' \<Longrightarrow> int (lg_custody l') = int (lg_custody l) + custody_change e \<and> lg_credit l' = lg_credit l
    \<and> (\<not> borrows e \<longrightarrow> lg_debt l' \<le> lg_debt l) \<and> (\<not> lg_credit l \<longrightarrow> lg_debt l' = lg_debt l)"
  by (erule ledger_stepE) (auto dest!: ledger_event_cash simp: add_worth_def)

lemma ledger_runs_cash:
  "runs ledger_step es l l' \<Longrightarrow> int (lg_custody l') = int (lg_custody l) + (\<Sum>e\<leftarrow>es. custody_change e) \<and> lg_credit l' = lg_credit l
    \<and> ((\<forall>e\<in>set es. \<not> borrows e) \<longrightarrow> lg_debt l' \<le> lg_debt l) \<and> (\<not> lg_credit l \<longrightarrow> lg_debt l' = lg_debt l)"
  by (induction rule: runs.induct) (auto dest!: ledger_step_cash)

end
