(* ===== verification/Market_Creation.thy ===== *)
theory Market_Creation
  imports Market_Run
begin

text \<open>
  \<open>create_market\<close> of \<open>programs/futures/src/processor.rs\<close>: the checks on its parameters and accounts, the registry it
  writes and the market its zeroed account then holds. A market whose grid fits in 64 bits starts out sound and
  orderly, so every run of instructions from there keeps it so.
\<close>

record create_params =
  cp_product_id :: pubkey
  cp_expiry_ts :: u64
  cp_grid :: u16
  cp_k :: u64
  cp_step_value :: u64
  cp_value_decimals :: u8
  cp_ref_value :: u64
  cp_trader_cap :: u16
  cp_order_cap :: u16
  cp_maker_cap :: u8
  cp_claim_cap :: u32

text \<open>
  What the accounts of the instruction show. The last fields are what other programs and the runtime answer: the
  check of the upgrade authority, the oracle's period for the index and expiry, the vault as a token account (its
  mint and owner), the derived addresses with their bumps, and the creation of the registry account.
\<close>

record create_accounts =
  ca_program :: pubkey
  ca_market :: account
  ca_market_writable :: bool
  ca_registry :: account
  ca_registry_writable :: bool
  ca_registry_lamports :: u64
  ca_period :: pubkey
  ca_oracle_program :: pubkey
  ca_mint :: account
  ca_vault :: pubkey
  ca_creator :: account
  ca_system :: pubkey
  ca_token_program :: pubkey
  ca_system_program :: pubkey
  ca_authorized :: "unit res"
  ca_loaded :: "period res"
  ca_vault_token :: "(pubkey \<times> pubkey) res"
  ca_authority :: "pubkey \<times> u8"
  ca_registry_address :: "pubkey \<times> u8"
  ca_created :: "unit res"

definition params_ok :: "create_params \<Rightarrow> bool" where
  "params_ok p \<longleftrightarrow> \<not> (cp_grid p < 2 \<or> cp_k p = 0 \<or> cp_step_value p = 0 \<or> cp_trader_cap p = 0 \<or> cp_order_cap p = 0
     \<or> cp_order_cap p = U16_MAX \<or> cp_claim_cap p = 0 \<or> cp_claim_cap p = NO_CLAIM)"

definition new_header :: "create_accounts \<Rightarrow> create_params \<Rightarrow> header" where
  "new_header a p = \<lparr>h_status = STATUS_OPEN, h_authority_bump = snd (ca_authority a), h_value_decimals = cp_value_decimals p,
     h_grid = cp_grid p, h_trader_cap = cp_trader_cap p, h_order_cap = cp_order_cap p, h_maker_cap = cp_maker_cap p,
     h_registry_bump = snd (ca_registry_address a), h_claim_cap = cp_claim_cap p, h_claim_hint = 0,
     h_product_id = cp_product_id p, h_expiry_ts = cp_expiry_ts p, h_period = ca_period a,
     h_oracle_program = ca_oracle_program a, h_quote_mint = ac_key (ca_mint a), h_vault = ca_vault a,
     h_creator = ac_key (ca_creator a), h_k = cp_k p, h_step_value = cp_step_value p,
     h_ref_fine = settle_fine (cp_ref_value p) (cp_step_value p) (cp_k p), h_settlement_fine = 0, h_next_seq = 0,
     h_total_free = 0, h_total_reserved = 0, h_backing = 0, h_custody = 0, h_trades = 0, h_volume_lots = 0,
     h_volume_premium = 0, h_last_entry_fine = 0, h_claims_open = 0, h_total_paid_out = 0, h_settled_ts = 0,
     h_last_trade_ts = 0, h_credit_owner = default_key, h_credit_limit = 0, h_debt = 0, h_credit_until = 0,
     h_funded_in = 0, h_funded_out = 0, h_tw_ts = 0, h_tw_credit = 0, h_tw_cash = 0, h_shortfall = 0,
     h_recovery_amba = 0, h_winners = 0, h_credit_flags = 0, h_profit_bps = 0\<rparr>"

definition step_default :: step where
  "step_default = \<lparr>st_ask = 0, st_bid = 0, st_ask_lots = 0, st_bid_lots = 0, st_inv = 0\<rparr>"

text \<open>The arenas of an account whose bytes past the header are zero.\<close>

definition fresh_market :: "header \<Rightarrow> market" where
  "fresh_market h = \<lparr>m_head = h, m_traders = replicate (h_trader_cap h) trader_default,
     m_orders = replicate (h_order_cap h) order_default, m_makers = replicate (h_maker_cap h) maker_default,
     m_steps = replicate (h_maker_cap h) (replicate (h_grid h) step_default),
     m_claims = replicate (h_claim_cap h) claim_default, m_approval = None\<rparr>"

definition create_market :: "create_accounts \<Rightarrow> create_params \<Rightarrow> (registry \<times> market) res" where
  "create_market a p =
     ensure Unauthorized (ac_signer (ca_creator a)) (
     ensure InvalidAccount (ca_market_writable a \<and> ca_registry_writable a) (
     andthen (ca_authorized a) (\<lambda>_.
     ensure InvalidAccount (ac_program (ca_market a) = ca_program a
       \<and> length (ac_data (ca_market a)) = market_len (cp_grid p) (cp_trader_cap p) (cp_order_cap p) (cp_maker_cap p) (cp_claim_cap p)
       \<and> (\<forall>x\<in>set (ac_data (ca_market a)). x = 0)) (
     ensure InvalidInstruction (params_ok p) (
     andthen (ca_loaded a) (\<lambda>period.
     ensure InvalidInstruction (pd_value_decimals period = cp_value_decimals p) (
     andthen (ca_vault_token a) (\<lambda>(mint, owner).
     ensure Custody (ac_program (ca_mint a) = ca_token_program a \<and> mint = ac_key (ca_mint a) \<and> owner = fst (ca_authority a)) (
     ensure InvalidAccount (fst (ca_registry_address a) = ac_key (ca_registry a)) (
     ensure InvalidAccount (ca_system a = ca_system_program a \<and> ac_program (ca_registry a) = ca_system_program a
       \<and> ca_registry_lamports a = 0) (
     andthen (ca_created a) (\<lambda>_.
     Some (Inr (\<lparr>rg_bump = snd (ca_registry_address a), rg_market = ac_key (ca_market a)\<rparr>,
       fresh_market (new_header a p)))))))))))))))"

subsection \<open>A new market is sound\<close>

lemma audit_orders_empty: "\<forall>r\<in>set rs. o_seq r = 0 \<Longrightarrow> audit_orders m rs e h = Some (Inr (e, h))"
  by (induction rs) simp_all

lemma audit_makers_empty: "\<forall>q\<in>set ks. \<not> mk_used (fst q) \<Longrightarrow> audit_makers h ks e (a, b, c) = Some (e, a, b, c)"
  by (induction ks) auto

lemma audit_claims_empty: "\<forall>c\<in>set cs. c = claim_default \<Longrightarrow> audit_claims h cs held (a, b, c) = Some (held, a, b, c)"
  by (induction cs) (simp_all add: claim_default_def Let_def)

text \<open>The ladders of a new market are unused.\<close>

lemma fresh_ladders:
  "zip (m_makers (fresh_market h)) (m_steps (fresh_market h)) = replicate (h_maker_cap h) (maker_default, replicate (h_grid h) step_default)"
  by (simp add: fresh_market_def zip_replicate)

lemma fresh_makers_val: "makers_val P k s (replicate n (maker_default, ss)) = 0"
  by (simp add: makers_val_def sum_list_replicate maker_val_def maker_default_def)

lemma fresh_cash: "cash P (replicate n trader_default) = 0"
  unfolding cash_def by (intro sum.neutral) (simp add: trader_default_def)

lemma fresh_claims_val: "claims_val P k s (replicate n claim_default) = 0"
  by (simp add: claims_val_def sum_list_replicate)

lemma fresh_market_audit:
  assumes "h_total_free h = 0" "h_total_reserved h = 0" "h_backing h = 0" "h_custody h = 0" "h_debt h = 0"
  shows "audit (fresh_market h) = Some (Inr ())"
proof -
  have "audit_makers h (zip (m_makers (fresh_market h)) (m_steps (fresh_market h))) 0 (0, 0, 0) = Some (0, 0, 0, 0)"
    unfolding fresh_ladders by (rule audit_makers_empty) (simp add: maker_default_def)
  moreover have "audit_orders (fresh_market h) (replicate n order_default) 0 0 = Some (Inr (0, 0))" for n
    by (rule audit_orders_empty) (simp add: order_default_def)
  moreover have "audit_claims h (replicate n claim_default) 0 (0, 0, 0) = Some (0, 0, 0, 0)" for n
    by (rule audit_claims_empty) simp
  moreover have "m_head (fresh_market h) = h" "m_orders (fresh_market h) = replicate (h_order_cap h) order_default"
    "m_claims (fresh_market h) = replicate (h_claim_cap h) claim_default"
    "m_traders (fresh_market h) = replicate (h_trader_cap h) trader_default" by (simp_all add: fresh_market_def)
  ultimately show ?thesis
    using assms unfolding audit_def Let_def
    by (simp add: ensure_def andthen_def checked_mul_def checked_def sum_list_replicate trader_default_def)
qed

lemma fresh_market_backed:
  assumes "h_backing h = 0"
  shows "backed (fresh_market h)"
  using assms fresh_makers_val fresh_claims_val
  by (simp add: backed_def all_pay_def fresh_ladders) (simp add: fresh_market_def)

lemma fresh_market_sound:
  assumes "h_grid h * h_k h < 2 ^ 64" "h_total_free h = 0" "h_total_reserved h = 0" "h_backing h = 0"
    "h_custody h = 0" "h_debt h = 0"
  shows "sound (fresh_market h)"
proof -
  have "formed (fresh_market h)" by (auto simp: formed_def fresh_market_def)
  moreover have "on_grid (fresh_market h)" using assms(1) by (simp add: on_grid_def fresh_market_def ladders_on_def)
  moreover have "settled_up (fresh_market h)" using assms(6) by (simp add: settled_up_def Let_def fresh_market_def)
  ultimately show ?thesis using fresh_market_audit fresh_market_backed assms by (simp add: sound_def)
qed

lemma fresh_market_orderly:
  assumes "h_grid h < U16_MAX"
  shows "orderly (fresh_market h)"
proof -
  have "o_seq order_default = 0" by (simp add: order_default_def)
  then have "orders_formed (fresh_market h)" "apart (fresh_market h)"
    by (auto simp: orders_formed_def order_formed_def apart_def holding_def fresh_market_def)
  moreover have "flat (fresh_market h)" by (simp add: flat_def fresh_market_def step_default_def)
  ultimately show ?thesis using assms by (simp add: orderly_def) (simp add: fresh_market_def)
qed

lemma create_market_sound:
  assumes "create_market a p = Some (Inr (r, m))" "cp_grid p * cp_k p < 2 ^ 64" "cp_grid p < U16_MAX"
  shows "sound m \<and> orderly m \<and> books m = \<lparr>lg_worth = (\<lambda>t s. 0), lg_credit = False, lg_debt = 0, lg_custody = 0\<rparr>"
proof -
  have m: "m = fresh_market (new_header a p)" using assms(1) by (auto simp: create_market_def res_simps)
  have "worth P m s = 0" for P s
    unfolding worth_def m fresh_ladders fresh_makers_val
    by (simp add: fresh_market_def fresh_claims_val fresh_cash)
  then have "books m = \<lparr>lg_worth = (\<lambda>t s. 0), lg_credit = False, lg_debt = 0, lg_custody = 0\<rparr>"
    by (simp add: books_def fun_eq_iff) (simp add: m fresh_market_def new_header_def has_credit_def)
  moreover have "sound m" unfolding m by (rule fresh_market_sound) (use assms(2) in \<open>simp_all add: new_header_def\<close>)
  moreover have "orderly m" unfolding m by (rule fresh_market_orderly) (use assms(3) in \<open>simp add: new_header_def\<close>)
  ultimately show ?thesis by blast
qed

end
