(* ===== verification/Trader_Range.thy ===== *)
theory Trader_Range
  imports Trader_Value Market_Invariant
begin

text \<open>
  What \<open>trader_value\<close> answers: the least and the most a trader is worth over every settlement while the market is
  open, and what it is worth at the settlement once it is final. Between two grid positions payoffs are linear, so
  the sweep over the positions misses nothing.
\<close>

subsection \<open>What the sweep reads off\<close>

text \<open>The slope of a step and the rise up to a grid position.\<close>

definition slope_at :: "int list \<Rightarrow> nat \<Rightarrow> int" where
  "slope_at delta y = (\<Sum>z\<le>y. delta ! z)"

definition rise :: "int list \<Rightarrow> nat \<Rightarrow> int" where
  "rise delta x = (\<Sum>y<x. slope_at delta y)"

text \<open>What a position pays at a grid position, in steps.\<close>

definition units :: "position \<Rightarrow> nat \<Rightarrow> int" where
  "units q x = (case q of (long, lo, hi, lots) \<Rightarrow>
     if long then int lots * int (min x hi - lo) else int lots * (int (hi - lo) - int (min x hi - lo)))"

definition in_grid :: "nat \<Rightarrow> position \<Rightarrow> bool" where
  "in_grid n q \<longleftrightarrow> (case q of (long, lo, hi, lots) \<Rightarrow> lo < hi \<and> hi \<le> n)"

lemma slope_at_bump:
  assumes "bump delta i v = Some delta'" "y < length delta"
  shows "slope_at delta' y = slope_at delta y + (if i \<le> y then v else 0)"
proof -
  have "slope_at delta' y = (\<Sum>z\<le>y. delta ! z + (if z = i then v else 0))"
    unfolding slope_at_def using assms by (intro sum.cong) (auto simp: bump_def nth_list_update split: if_splits)
  then show ?thesis by (simp add: slope_at_def sum.distrib)
qed

lemma bump_length: "bump delta i v = Some delta' \<Longrightarrow> length delta' = length delta"
  by (auto simp: bump_def split: if_splits)

lemma count_from: "(\<Sum>y<x. if i \<le> y then v else 0) = v * int (x - i)" for v :: int
  by (induction x) (auto simp: Suc_diff_le algebra_simps)

lemma rise_bump:
  assumes "bump delta i v = Some delta'" "x \<le> length delta"
  shows "rise delta' x = rise delta x + v * int (x - i)"
proof -
  have "rise delta' x = (\<Sum>y<x. slope_at delta y + (if i \<le> y then v else 0))"
    unfolding rise_def using assms by (intro sum.cong) (auto simp: slope_at_bump)
  also have "(\<Sum>y<x. slope_at delta y + (if i \<le> y then v else 0)) = rise delta x + v * int (x - i)"
    by (simp add: rise_def sum.distrib count_from)
  finally show ?thesis .
qed

lemma add_position_units:
  assumes "add_position h q (delta, base, due) = Some (delta', base', due')" "x < length delta" "in_grid n q"
  shows "base' + rise delta' x = base + rise delta x + units q x \<and> length delta' = length delta"
proof -
  obtain long lo hi lots where q: "q = (long, lo, hi, lots)" by (cases q)
  let ?v = "if long then int lots else - int lots"
  obtain d1 where 1: "bump delta lo ?v = Some d1" and 2: "bump d1 hi (- ?v) = Some delta'"
    and b: "base' = (if long then base else base + int lots * int (hi - lo))"
    using assms(1) by (auto simp: add_position_def q option_bind_eq_Some checked_simps split: if_splits)
  note l = bump_length [OF 1] bump_length [OF 2]
  have r: "rise delta' x = rise delta x + ?v * int (x - lo) - ?v * int (x - hi)"
    using rise_bump [OF 1, of x] rise_bump [OF 2, of x] l assms(2) by simp
  have g: "lo < hi" using assms(3) by (simp add: in_grid_def q)
  have "int (x - lo) - int (x - hi) = int (min x hi - lo)" using g by (auto simp: min_def)
  then have "?v * int (x - lo) - ?v * int (x - hi) = ?v * int (min x hi - lo)" by (simp only: right_diff_distrib [symmetric])
  then show ?thesis using l by (simp add: r b units_def q algebra_simps)
qed

lemma add_positions_units:
  assumes "add_positions h qs (delta, base, due) = Some (delta', base', due')" "x < length delta" "\<forall>q\<in>set qs. in_grid n q"
  shows "base' + rise delta' x = base + rise delta x + (\<Sum>q\<leftarrow>qs. units q x) \<and> length delta' = length delta"
  using assms
proof (induction qs arbitrary: delta base due)
  case (Cons q qs)
  obtain d1 b1 o1 where 1: "add_position h q (delta, base, due) = Some (d1, b1, o1)"
    and 2: "add_positions h qs (d1, b1, o1) = Some (delta', base', due')"
    using Cons.prems(1) by (auto simp: option_bind_eq_Some)
  have "b1 + rise d1 x = base + rise delta x + units q x \<and> length d1 = length delta"
    by (rule add_position_units [OF 1 Cons.prems(2)]) (use Cons.prems(3) in auto)
  with Cons.IH [OF 2] Cons.prems show ?case by simp
qed simp

text \<open>The sweep keeps the least and the most of the values at the grid positions.\<close>

lemma rise_Cons: "rise (dx # dxs) (Suc x) = dx * int (Suc x) + rise dxs x"
proof -
  have s: "slope_at (dx # dxs) (Suc y) = dx + slope_at dxs y" for y
    by (simp add: slope_at_def sum.atMost_Suc_shift del: sum.atMost_Suc)
  have z: "slope_at (dx # dxs) 0 = dx" by (simp add: slope_at_def)
  have "rise (dx # dxs) (Suc x) = slope_at (dx # dxs) 0 + (\<Sum>y<x. slope_at (dx # dxs) (Suc y))"
    by (simp add: rise_def sum.lessThan_Suc_shift del: sum.lessThan_Suc)
  also have "\<dots> = dx + (int x * dx + rise dxs x)" by (simp add: s z rise_def sum.distrib)
  finally show ?thesis by (simp add: algebra_simps)
qed

lemma sweep_values:
  "sweep base dxs d slope (lo, hi) = (Min (insert lo ((\<lambda>x. base + d + slope * int x + rise dxs x) ` {..<length dxs})),
     Max (insert hi ((\<lambda>x. base + d + slope * int x + rise dxs x) ` {..<length dxs})))"
proof (induction dxs arbitrary: d slope lo hi)
  case (Cons dx dxs)
  let ?f = "\<lambda>x. base + d + slope * int x + rise (dx # dxs) x"
  let ?g = "\<lambda>x. base + (d + (slope + dx)) + (slope + dx) * int x + rise dxs x"
  have "?f ` {..<length (dx # dxs)} = insert (?f 0) ((\<lambda>x. ?f (Suc x)) ` {..<length dxs})"
    by (simp add: lessThan_Suc_eq_insert_0 image_image)
  also have "(\<lambda>x. ?f (Suc x)) = ?g" by (simp add: rise_Cons algebra_simps fun_eq_iff)
  also have "?f 0 = base + d" by (simp add: rise_def)
  finally have im: "?f ` {..<length (dx # dxs)} = insert (base + d) (?g ` {..<length dxs})" .
  have "sweep base (dx # dxs) d slope (lo, hi) = (Min (insert (min lo (base + d)) (?g ` {..<length dxs})),
     Max (insert (max hi (base + d)) (?g ` {..<length dxs})))" by (simp add: Cons.IH)
  also have "Min (insert (min lo (base + d)) (?g ` {..<length dxs})) = Min (insert lo (insert (base + d) (?g ` {..<length dxs})))"
    by (cases "?g ` {..<length dxs} = {}") (simp_all add: min.assoc)
  also have "Max (insert (max hi (base + d)) (?g ` {..<length dxs})) = Max (insert hi (insert (base + d) (?g ` {..<length dxs})))"
    by (cases "?g ` {..<length dxs} = {}") (simp_all add: max.assoc)
  finally show ?case unfolding im .
qed simp

subsection \<open>What a trader is worth\<close>

text \<open>What a position pays at a settlement.\<close>

definition position_pays :: "nat \<Rightarrow> nat \<Rightarrow> position \<Rightarrow> int" where
  "position_pays k s q = (case q of (long, lo, hi, lots) \<Rightarrow> int lots * unit_pay k s long lo hi)"

lemma long_spec_at_grid: "lo < hi \<Longrightarrow> long_spec lo hi (x * k) k = (min x hi - lo) * k"
proof -
  assume "lo < hi"
  consider "x * k - lo * k \<le> hi * k - lo * k" "x \<le> hi" | "hi * k - lo * k \<le> x * k - lo * k" "hi \<le> x"
    by (metis diff_le_mono mult_le_mono1 nle_le)
  then show ?thesis unfolding long_spec_def diff_mult_distrib by cases (simp_all add: min_absorb1 min_absorb2)
qed

lemma pays_at_grid:
  assumes "in_grid n q"
  shows "position_pays k (x * k) q = units q x * int k"
proof -
  obtain long lo hi lots where q: "q = (long, lo, hi, lots)" by (cases q)
  have "lo < hi" using assms by (simp add: in_grid_def q)
  then have "int (long_spec lo hi (x * k) k) = int (min x hi - lo) * int k" by (simp add: long_spec_at_grid)
  then show ?thesis by (simp add: position_pays_def units_def q unit_pay_def) (simp add: algebra_simps)
qed

lemma long_spec_between:
  assumes "lo < hi" "r \<le> k"
  shows "long_spec lo hi (x * k + r) k = (min x hi - lo) * k + (if lo \<le> x \<and> x < hi then r else 0)"
proof -
  consider "x < lo" | "lo \<le> x" "x < hi" | "hi \<le> x" by linarith
  then show ?thesis
  proof cases
    case 1
    then have "x * k + k \<le> lo * k" by (metis Suc_leI add.commute mult_Suc mult_le_mono1)
    then show ?thesis using 1 assms by (simp add: long_spec_def)
  next
    case 2
    have "x * k = lo * k + (x - lo) * k" using 2 by (simp add: diff_mult_distrib)
    moreover have "(x - lo) * k + k \<le> (hi - lo) * k" using 2 by (metis Suc_leI add.commute diff_less_mono mult_Suc mult_le_mono1)
    ultimately show ?thesis using 2 assms by (simp add: long_spec_def min_def)
  next
    case 3
    then have "hi * k \<le> x * k + r" by (simp add: trans_le_add1)
    then have "(hi - lo) * k \<le> x * k + r - lo * k" unfolding diff_mult_distrib by (rule diff_le_mono)
    then show ?thesis using 3 by (simp add: long_spec_def min_absorb2)
  qed
qed

text \<open>Between two grid positions a payoff is linear, past the grid it is constant.\<close>

lemma pays_between:
  assumes "in_grid n q" "r \<le> k"
  shows "int k * position_pays k (x * k + r) q = int (k - r) * position_pays k (x * k) q + int r * position_pays k (Suc x * k) q"
proof -
  obtain long lo hi lots where q: "q = (long, lo, hi, lots)" by (cases q)
  have g: "lo < hi" using assms(1) by (simp add: in_grid_def q)
  have "int (long_spec lo hi (Suc x * k) k) = int (long_spec lo hi (x * k) k) + (if lo \<le> x \<and> x < hi then int k else 0)"
    using long_spec_between [OF g, of k k x] by (simp add: long_spec_at_grid [OF g] add.commute)
  moreover have "int (long_spec lo hi (x * k + r) k) = int (long_spec lo hi (x * k) k) + (if lo \<le> x \<and> x < hi then int r else 0)"
    using long_spec_between [OF g assms(2), of x] by (simp add: long_spec_at_grid [OF g])
  moreover have "int (k - r) = int k - int r" using assms(2) by simp
  ultimately show ?thesis by (auto simp: position_pays_def q unit_pay_def algebra_simps)
qed

lemma pays_past_grid:
  assumes "in_grid n q" "n * k \<le> s"
  shows "position_pays k s q = position_pays k (n * k) q"
proof -
  obtain long lo hi lots where q: "q = (long, lo, hi, lots)" by (cases q)
  have g: "lo < hi" "hi \<le> n" using assms(1) by (simp_all add: in_grid_def q)
  have "(hi - lo) * k \<le> n * k - lo * k" unfolding diff_mult_distrib using g(2) by (intro diff_le_mono mult_le_mono1)
  moreover have "n * k - lo * k \<le> s - lo * k" using assms(2) by (rule diff_le_mono)
  ultimately have "long_spec lo hi s k = long_spec lo hi (n * k) k" by (simp add: long_spec_def min_absorb2)
  then show ?thesis by (simp add: position_pays_def q unit_pay_def)
qed

lemma sum_linear:
  "(\<And>q. q \<in> set qs \<Longrightarrow> c * f q = a * g q + b * h q) \<Longrightarrow> c * (\<Sum>q\<leftarrow>qs. f q) = a * (\<Sum>q\<leftarrow>qs. g q) + b * (\<Sum>q\<leftarrow>qs. h q)" for a :: int
  by (induction qs) (auto simp: algebra_simps)

lemma sum_same: "(\<And>q. q \<in> set qs \<Longrightarrow> f q = g q) \<Longrightarrow> (\<Sum>q\<leftarrow>qs. f q) = (\<Sum>q\<leftarrow>qs. g q)"
  by (rule arg_cong [of _ _ sum_list]) (rule map_cong [OF refl])

text \<open>So the extremes over every settlement are among the grid positions.\<close>

lemma extremes_on_grid:
  assumes "\<forall>q\<in>set qs. in_grid n q" "0 < k" "\<forall>x\<le>n. lo \<le> (\<Sum>q\<leftarrow>qs. units q x) \<and> (\<Sum>q\<leftarrow>qs. units q x) \<le> hi"
  shows "lo * int k \<le> (\<Sum>q\<leftarrow>qs. position_pays k s q) \<and> (\<Sum>q\<leftarrow>qs. position_pays k s q) \<le> hi * int k"
proof -
  let ?f = "\<lambda>s. \<Sum>q\<leftarrow>qs. position_pays k s q"
  have at: "?f (x * k) = (\<Sum>q\<leftarrow>qs. units q x) * int k" for x
  proof -
    have "?f (x * k) = (\<Sum>q\<leftarrow>qs. units q x * int k)" using assms(1) by (intro sum_same) (blast intro: pays_at_grid)
    then show ?thesis by (simp add: sum_list_mult_const)
  qed
  have on: "lo * int k \<le> ?f (x * k) \<and> ?f (x * k) \<le> hi * int k" if "x \<le> n" for x
    unfolding at using assms(2,3) that by (simp add: mult_right_mono)
  show ?thesis
  proof (cases "n * k \<le> s")
    case True
    then have "?f s = ?f (n * k)" using assms(1) by (intro sum_same) (simp add: pays_past_grid)
    with on show ?thesis by simp
  next
    case False
    define x r where "x = s div k" and "r = s mod k"
    have s: "s = x * k + r" "r \<le> k" using assms(2) by (simp_all add: x_def r_def less_imp_le)
    have x: "x < n" using False assms(2) by (simp add: x_def less_mult_imp_div_less)
    have lin: "int k * ?f s = int (k - r) * ?f (x * k) + int r * ?f (Suc x * k)"
      unfolding s(1) using assms(1) s(2) by (intro sum_linear pays_between) auto
    have kr: "int k = int (k - r) + int r" using s(2) by simp
    have "int k * (lo * int k) \<le> int k * ?f s \<and> int k * ?f s \<le> int k * (hi * int k)"
      unfolding lin unfolding kr distrib_right using on [of x] on [of "Suc x"] x
      by (simp add: add_mono mult_left_mono s(2))
    then show ?thesis using assms(2) by simp
  qed
qed

text \<open>The ladder a trader's record names is the only one in its name.\<close>

definition ladder_linked :: "market \<Rightarrow> nat \<Rightarrow> bool" where
  "ladder_linked m t \<longleftrightarrow> tr_maker (m_traders m ! t) \<le> length (m_makers m)
     \<and> (\<forall>i<length (m_makers m). mk_used (m_makers m ! i) \<and> mk_trader (m_makers m ! i) = t \<longleftrightarrow> tr_maker (m_traders m ! t) = i + 1)"

lemma inventory_pays: "(\<Sum>q\<leftarrow>inventory ss. position_pays k s q) = steps_pay k s ss"
proof -
  let ?f = "\<lambda>x. \<bar>st_inv (ss ! x)\<bar> * unit_pay k s (0 < st_inv (ss ! x)) x (x + 1)"
  have "(\<Sum>q\<leftarrow>inventory ss. position_pays k s q) = (\<Sum>x\<leftarrow>filter (\<lambda>x. st_inv (ss ! x) \<noteq> 0) [0..<length ss]. ?f x)"
    by (simp add: inventory_def comp_def position_pays_def)
  also have "\<dots> = (\<Sum>x\<leftarrow>[0..<length ss]. ?f x)" by (rule sum_list_map_filter) simp
  finally show ?thesis by (simp add: steps_pay_def interv_sum_list_conv_sum_set_nat atLeast0LessThan)
qed

lemma claimed_pays: "(\<Sum>q\<leftarrow>claimed t cs. position_pays k s q) = claims_val (\<lambda>i. i = t) k s cs"
  by (induction cs) (auto simp: claimed_def claims_val_def val_def pays_def position_pays_def)

lemma makers_val_one:
  assumes "ladder_linked m t" "length (m_steps m) = length (m_makers m)"
  shows "makers_val (\<lambda>i. i = t) k s (zip (m_makers m) (m_steps m))
    = (case tr_maker (m_traders m ! t) of 0 \<Rightarrow> 0 | Suc j \<Rightarrow> steps_pay k s (m_steps m ! j))"
proof -
  let ?v = "tr_maker (m_traders m ! t)"
  have "makers_val (\<lambda>i. i = t) k s (zip (m_makers m) (m_steps m))
    = (\<Sum>i<length (m_makers m). maker_val (\<lambda>i. i = t) k s (zip (m_makers m) (m_steps m) ! i))"
    unfolding makers_val_def using assms(2) by (simp add: sum_list_sum_nth atLeast0LessThan)
  also have "\<dots> = (\<Sum>i<length (m_makers m). if ?v = i + 1 then steps_pay k s (m_steps m ! i) else 0)"
    using assms by (intro sum.cong) (auto simp: maker_val_def ladder_linked_def)
  also have "\<dots> = (case ?v of 0 \<Rightarrow> 0 | Suc j \<Rightarrow> steps_pay k s (m_steps m ! j))"
    using assms(1) by (auto simp: ladder_linked_def split: nat.splits)
  finally show ?thesis .
qed

lemma positions_worth:
  assumes "t < length (m_traders m)" "ladder_linked m t" "length (m_steps m) = length (m_makers m)"
  obtains qs where "positions m t = Some qs"
    "\<forall>s. worth (\<lambda>i. i = t) m s = int (tr_free (m_traders m ! t) + tr_reserved (m_traders m ! t))
       + (\<Sum>q\<leftarrow>qs. position_pays (h_k (m_head m)) s q)"
    "set qs \<subseteq> set (claimed t (m_claims m)) \<union> \<Union> (set ` inventory ` set (m_steps m))"
proof -
  let ?v = "tr_maker (m_traders m ! t)"
  define inv where "inv = (case ?v of 0 \<Rightarrow> [] | Suc j \<Rightarrow> inventory (m_steps m ! j))"
  have j: "j < length (m_steps m)" if "?v = Suc j" for j using that assms(2,3) by (simp add: ladder_linked_def)
  have p: "positions m t = Some (inv @ claimed t (m_claims m))"
    using assms(1) j by (auto simp: positions_def slot_def inv_def split: nat.splits)
  have i: "(\<Sum>q\<leftarrow>inv. position_pays k s q) = makers_val (\<lambda>i. i = t) k s (zip (m_makers m) (m_steps m))" for k s
    unfolding makers_val_one [OF assms(2,3)] by (auto simp: inv_def inventory_pays split: nat.splits)
  have "cash (\<lambda>i. i = t) (m_traders m) = int (tr_free (m_traders m ! t) + tr_reserved (m_traders m ! t))"
    using assms(1) by (simp add: cash_def)
  moreover have "set inv \<subseteq> \<Union> (set ` inventory ` set (m_steps m))"
  proof (cases ?v)
    case (Suc i)
    then have "m_steps m ! i \<in> set (m_steps m)" using j by simp
    then show ?thesis by (auto simp: inv_def Suc)
  qed (simp add: inv_def)
  ultimately show thesis
    by (intro that [OF p]) (auto simp: worth_def i claimed_pays)
qed

lemma positions_in_grid:
  assumes "set qs \<subseteq> set (claimed t (m_claims m)) \<union> \<Union> (set ` inventory ` set (m_steps m))" "formed m" "on_grid m"
  shows "\<forall>q\<in>set qs. in_grid (h_grid (m_head m)) q"
proof
  fix q assume "q \<in> set qs"
  then consider "q \<in> set (claimed t (m_claims m))" | ss where "ss \<in> set (m_steps m)" "q \<in> set (inventory ss)" using assms(1) by blast
  then show "in_grid (h_grid (m_head m)) q"
  proof cases
    case 1
    then show ?thesis using assms(2) by (auto simp: claimed_def in_grid_def formed_def claim_formed_def shaped_def)
  next
    case 2
    then have "length ss \<le> h_grid (m_head m)" using assms(3) by (auto simp: on_grid_def ladders_on_def)
    then show ?thesis using 2(2) by (auto simp: inventory_def in_grid_def)
  qed
qed

text \<open>The sums always exist, and once the market is final they hold what the positions pay at the settlement.\<close>

lemma add_position_total:
  assumes "in_grid n q" "n < length delta" "n * h_k h < 2 ^ 64"
    "h_status h \<noteq> STATUS_OPEN \<Longrightarrow> int due + position_pays (h_k h) (h_settlement_fine h) q < 2 ^ 128"
  shows "\<exists>delta' base' due'. add_position h q (delta, base, due) = Some (delta', base', due') \<and> length delta' = length delta
    \<and> (h_status h \<noteq> STATUS_OPEN \<longrightarrow> int due' = int due + position_pays (h_k h) (h_settlement_fine h) q)"
proof -
  obtain long lo hi lots where q: "q = (long, lo, hi, lots)" by (cases q)
  have g: "lo < hi" "hi \<le> n" using assms(1) by (simp_all add: in_grid_def q)
  have "hi * h_k h < 2 ^ 64" using g(2) assms(3) by (meson le_less_trans mult_le_mono1)
  then have sp: "\<exists>l sh. long_per_lot lo hi (h_settlement_fine h) (h_k h) = Some l \<and> short_per_lot lo hi (h_settlement_fine h) (h_k h) = Some sh
    \<and> int l = unit_pay (h_k h) (h_settlement_fine h) True lo hi \<and> int sh = unit_pay (h_k h) (h_settlement_fine h) False lo hi"
    using g long_spec_le [of lo hi "h_settlement_fine h" "h_k h"]
    by (simp add: short_per_lot_def set_value_total long_per_lot_total checked_sub_def unit_pay_def of_nat_diff del: of_nat_mult)
  then obtain per where per: "(if long then long_per_lot lo hi (h_settlement_fine h) (h_k h) else short_per_lot lo hi (h_settlement_fine h) (h_k h)) = Some per"
    "int per = unit_pay (h_k h) (h_settlement_fine h) long lo hi" by (cases long) auto
  have pp: "position_pays (h_k h) (h_settlement_fine h) q = int (lots * per)" by (simp add: position_pays_def q per(2))
  show ?thesis
  proof (cases "h_status h = STATUS_OPEN")
    case True
    then show ?thesis using g assms(2) by (auto simp: add_position_def q bump_def checked_sub_def)
  next
    case False
    then have "int (due + lots * per) < int (2 ^ 128)" using assms(4) unfolding pp by simp
    then have "due + lots * per < 2 ^ 128" by (simp only: of_nat_less_iff)
    then have "checked_add 128 due (lots * per) = Some (due + lots * per)" by (simp add: checked_add_def checked_def)
    then show ?thesis using False g assms(2) unfolding pp by (auto simp: add_position_def q bump_def checked_sub_def per(1))
  qed
qed

lemma add_positions_total:
  assumes "\<forall>q\<in>set qs. in_grid n q" "n < length delta" "n * h_k h < 2 ^ 64"
    "h_status h \<noteq> STATUS_OPEN \<Longrightarrow> int due + (\<Sum>q\<leftarrow>qs. position_pays (h_k h) (h_settlement_fine h) q) < 2 ^ 128"
  shows "\<exists>delta' base' due'. add_positions h qs (delta, base, due) = Some (delta', base', due') \<and> length delta' = length delta
    \<and> (h_status h \<noteq> STATUS_OPEN \<longrightarrow> int due' = int due + (\<Sum>q\<leftarrow>qs. position_pays (h_k h) (h_settlement_fine h) q))"
  using assms
proof (induction qs arbitrary: delta base due)
  case (Cons q qs)
  have nn: "0 \<le> (\<Sum>q\<leftarrow>qs. position_pays (h_k h) (h_settlement_fine h) q)"
    by (rule sum_list_nonneg) (auto simp: position_pays_def unit_pay_nonneg)
  obtain d1 b1 e1 where 1: "add_position h q (delta, base, due) = Some (d1, b1, e1)" "length d1 = length delta"
    "h_status h \<noteq> STATUS_OPEN \<longrightarrow> int e1 = int due + position_pays (h_k h) (h_settlement_fine h) q"
    using add_position_total [of n q delta h due base] Cons.prems nn by fastforce
  have "\<exists>delta' base' due'. add_positions h qs (d1, b1, e1) = Some (delta', base', due') \<and> length delta' = length d1
    \<and> (h_status h \<noteq> STATUS_OPEN \<longrightarrow> int due' = int e1 + (\<Sum>q\<leftarrow>qs. position_pays (h_k h) (h_settlement_fine h) q))"
    by (rule Cons.IH) (use Cons.prems 1 in \<open>auto simp: add.assoc\<close>)
  then show ?case using 1 by auto
qed simp

text \<open>One trader is never worth more than all of them.\<close>

lemma worth_le_all: "0 \<le> worth P m s \<and> worth P m s \<le> worth (\<lambda>_. True) m s"
proof -
  have st: "0 \<le> steps_pay k s ss" for k ss unfolding steps_pay_def by (intro sum_nonneg) (simp add: unit_pay_nonneg)
  have "0 \<le> cash P ts \<and> cash P ts \<le> cash (\<lambda>_. True) ts" for ts
    unfolding cash_def by (intro conjI sum_nonneg sum_mono) simp_all
  moreover have "0 \<le> claims_val P k s cs \<and> claims_val P k s cs \<le> claims_val (\<lambda>_. True) k s cs" for k cs
    unfolding claims_val_def by (intro conjI sum_list_nonneg sum_list_mono) (auto simp: val_def pays_def unit_pay_nonneg)
  moreover have "0 \<le> makers_val P k s ks \<and> makers_val P k s ks \<le> makers_val (\<lambda>_. True) k s ks" for k ks
    unfolding makers_val_def by (intro conjI sum_list_nonneg sum_list_mono) (auto simp: maker_val_def st)
  ultimately show ?thesis unfolding worth_def by (meson add_mono add_nonneg_nonneg)
qed

text \<open>All traders together are worth what is in custody and lent.\<close>

lemma sound_total:
  assumes "sound m" "h_status (m_head m) = STATUS_OPEN \<or> s = h_settlement_fine (m_head m)"
  shows "worth (\<lambda>_. True) m s = int (h_custody (m_head m) + h_debt (m_head m))"
proof -
  have f: "audit m = Some (Inr ())" "formed m" "on_grid m" using assms(1) by (simp_all add: sound_def)
  have "all_pay m s = int (h_backing (m_head m))"
    using assms audit_cash(2) [OF f] by (cases "h_status (m_head m) = STATUS_OPEN") (auto simp: sound_def backed_def)
  then show ?thesis using audit_cash(1) [OF f] by (simp add: worth_all)
qed

lemma value_of_eq:
  assumes "0 \<le> int held + v * int k" "int held + v * int k < 2 ^ 64" "0 \<le> v"
  shows "value_of k held v = Some (Inr (nat (int held + v * int k)))"
proof -
  define p where "p = v * int k"
  have p: "0 \<le> p" "int held + p < 2 ^ 64" using assms by (simp_all add: p_def)
  then have "in_int 128 p" "in_int 128 (int held + p)" unfolding in_int_def by simp_all
  then show ?thesis using p unfolding value_of_def p_def [symmetric] by (simp add: checked_int_def try_u64_def)
qed

text \<open>The least and the most of a finite set of values between the bounds the sweep starts with.\<close>

lemma swept:
  fixes X :: "int set"
  assumes "finite X" "X \<noteq> {}" "\<forall>v\<in>X. 0 \<le> v \<and> v < 2 ^ 64"
  shows "Min (insert (2 ^ 127 - 1) X) = Min X" "Max (insert (- (2 ^ 127)) X) = Max X"
proof -
  have m: "Min X \<in> X" "Max X \<in> X" using assms(1,2) by simp_all
  with assms(3) have "Min X < 2 ^ 64" "0 \<le> Max X" by blast+
  then show "Min (insert (2 ^ 127 - 1) X) = Min X" "Max (insert (- (2 ^ 127)) X) = Max X" using assms(1,2) by simp_all
qed

lemma rise_zero: "x \<le> n \<Longrightarrow> rise (replicate n 0) x = 0"
  unfolding rise_def slope_at_def by (intro sum.neutral ballI) simp

lemma trader_value_final:
  assumes "sound m" "t < length (m_traders m)" "ladder_linked m t" "h_custody (m_head m) + h_debt (m_head m) < 2 ^ 64"
    "h_status (m_head m) \<noteq> STATUS_OPEN"
  shows "\<exists>v. trader_value m t = Some (Inr (v, v)) \<and> int v = worth (\<lambda>i. i = t) m (h_settlement_fine (m_head m))"
proof -
  let ?h = "m_head m" and ?held = "tr_free (m_traders m ! t) + tr_reserved (m_traders m ! t)"
  have f: "formed m" "on_grid m" "h_grid ?h * h_k ?h < 2 ^ 64" "length (m_steps m) = length (m_makers m)"
    using assms(1) by (simp_all add: sound_def on_grid_def)
  obtain qs where qs: "positions m t = Some qs" and w': "\<forall>s. worth (\<lambda>i. i = t) m s = int ?held + (\<Sum>q\<leftarrow>qs. position_pays (h_k ?h) s q)"
    and sub: "set qs \<subseteq> set (claimed t (m_claims m)) \<union> \<Union> (set ` inventory ` set (m_steps m))"
    by (rule positions_worth [OF assms(2,3) f(4)])
  note w = spec [OF w']
  have all: "worth (\<lambda>i. i = t) m (h_settlement_fine ?h) < 2 ^ 64"
    using worth_le_all [of "\<lambda>i. i = t" m "h_settlement_fine ?h"] sound_total [OF assms(1), of "h_settlement_fine ?h"] assms(4) by simp
  obtain delta base due where a: "add_positions ?h qs (replicate (h_grid ?h + 1 + 1) 0, 0, 0) = Some (delta, base, due)"
    "int due = (\<Sum>q\<leftarrow>qs. position_pays (h_k ?h) (h_settlement_fine ?h) q)"
    using add_positions_total [OF positions_in_grid [OF sub f(1,2)], of "replicate (h_grid ?h + 1 + 1) 0" ?h 0 0] f(3) all [unfolded w] assms(5)
    by auto
  have v: "int (?held + due) = worth (\<lambda>i. i = t) m (h_settlement_fine ?h)" by (simp add: w a(2))
  then have b: "?held + due < 2 ^ 64" using all by simp
  then have "checked_add 128 ?held due = Some (?held + due)" by (simp add: checked_add_def checked_def)
  then have "trader_value m t = Some (Inr (?held + due, ?held + due))"
    using assms(2,5) b a(1) qs by (simp add: trader_value_def slot_def Let_def try_u64_def andthen_def nat_int_add)
  with v show ?thesis by blast
qed

lemma trader_value_open:
  assumes "sound m" "t < length (m_traders m)" "ladder_linked m t" "h_custody (m_head m) + h_debt (m_head m) < 2 ^ 64"
    "h_status (m_head m) = STATUS_OPEN" "0 < h_k (m_head m)"
  shows "\<exists>lo hi. trader_value m t = Some (Inr (lo, hi)) \<and> (\<forall>s. int lo \<le> worth (\<lambda>i. i = t) m s \<and> worth (\<lambda>i. i = t) m s \<le> int hi)
    \<and> (\<exists>s. worth (\<lambda>i. i = t) m s = int lo) \<and> (\<exists>s. worth (\<lambda>i. i = t) m s = int hi)"
proof -
  let ?h = "m_head m" and ?held = "tr_free (m_traders m ! t) + tr_reserved (m_traders m ! t)"
  let ?k = "h_k ?h" and ?n = "h_grid ?h" and ?w = "worth (\<lambda>i. i = t) m"
  have f: "formed m" "on_grid m" "?n * ?k < 2 ^ 64" "length (m_steps m) = length (m_makers m)"
    using assms(1) by (simp_all add: sound_def on_grid_def)
  obtain qs where qs: "positions m t = Some qs" and w': "\<forall>s. ?w s = int ?held + (\<Sum>q\<leftarrow>qs. position_pays ?k s q)"
    and sub: "set qs \<subseteq> set (claimed t (m_claims m)) \<union> \<Union> (set ` inventory ` set (m_steps m))"
    by (rule positions_worth [OF assms(2,3) f(4)])
  note w = spec [OF w']
  note g = positions_in_grid [OF sub f(1,2)]
  define U where "U = (\<lambda>x. \<Sum>q\<leftarrow>qs. units q x)"
  have Ux: "(\<Sum>q\<leftarrow>qs. units q x) = U x" for x by (simp add: U_def)
  have at: "?w (x * ?k) = int ?held + U x * int ?k" for x
  proof -
    have "(\<Sum>q\<leftarrow>qs. position_pays ?k (x * ?k) q) = (\<Sum>q\<leftarrow>qs. units q x * int ?k)" using g by (intro sum_same) (blast intro: pays_at_grid)
    then show ?thesis by (simp add: w U_def sum_list_mult_const)
  qed
  have U: "0 \<le> U x" for x unfolding U_def by (rule sum_list_nonneg) (auto simp: units_def split: prod.splits)
  have b: "?w s < 2 ^ 64" for s
    using worth_le_all [of "\<lambda>i. i = t" m s] sound_total [OF assms(1), of s] assms(4,5) by simp
  have Ub: "U x < 2 ^ 64" for x
  proof -
    have "U x * 1 \<le> U x * int ?k" using U assms(6) by (intro mult_left_mono) simp_all
    then show ?thesis using b [of "x * ?k"] by (simp add: at)
  qed
  obtain delta base due where a: "add_positions ?h qs (replicate (?n + 1 + 1) 0, 0, 0) = Some (delta, base, due)"
    "length delta = ?n + 1 + 1" using add_positions_total [OF g, of "replicate (?n + 1 + 1) 0" ?h 0 0] f(3) assms(5) by auto
  have r: "base + rise delta x = U x" if "x \<le> ?n" for x
    using add_positions_units [OF a(1), of x ?n] g that rise_zero [of x "?n + 1 + 1"] by (simp add: U_def)
  have rt: "rise (take (?n + 1) delta) x = rise delta x" if "x \<le> ?n" for x
    unfolding rise_def slope_at_def using that by (intro sum.cong refl) simp
  have im: "(\<lambda>x. base + 0 + 0 * int x + rise (take (?n + 1) delta) x) ` {..<length (take (?n + 1) delta)} = U ` {..?n}"
    using r rt a(2) by (auto simp: image_iff lessThan_Suc_atMost)
  let ?lo = "Min (U ` {..?n})" and ?hi = "Max (U ` {..?n})"
  have sw: "sweep base (take (?n + 1) delta) 0 0 (2 ^ 127 - 1, - (2 ^ 127)) = (?lo, ?hi)"
    unfolding sweep_values im using swept [of "U ` {..?n}"] U Ub by auto
  have mem: "?lo \<in> U ` {..?n}" "?hi \<in> U ` {..?n}" by (rule Min_in, simp, simp) (rule Max_in, simp, simp)
  obtain x y where xy: "x \<le> ?n" "?lo = U x" "y \<le> ?n" "?hi = U y" using mem by (meson atMost_iff imageE)
  have "value_of ?k ?held (U z) = Some (Inr (nat (?w (z * ?k))))" for z
    unfolding at by (rule value_of_eq) (use U b [of "z * ?k"] in \<open>simp_all add: at\<close>)
  then have "trader_value m t = Some (Inr (nat (?w (x * ?k)), nat (?w (y * ?k))))"
    using assms(2,5) a(1) qs sw by (simp add: trader_value_def slot_def Let_def andthen_def xy(2,4))
  moreover have "?w (x * ?k) \<le> ?w s \<and> ?w s \<le> ?w (y * ?k)" for s
  proof -
    have "?lo * int ?k \<le> (\<Sum>q\<leftarrow>qs. position_pays ?k s q) \<and> (\<Sum>q\<leftarrow>qs. position_pays ?k s q) \<le> ?hi * int ?k"
      by (rule extremes_on_grid [OF g assms(6)]) (simp add: Ux)
    then show ?thesis unfolding xy(2,4) using at [of x] at [of y] w [of s] by linarith
  qed
  moreover have "0 \<le> ?w s" for s using worth_le_all by blast
  ultimately show ?thesis by (metis int_nat_eq)
qed

end
