(* ===== verification/Market_Promises.thy ===== *)
theory Market_Promises
  imports Market_Creation Trader_Range
begin

text \<open>
  What a market promises its traders, stated over the instructions: it stays solvent over every run, its final
  settlement always goes through and is payable, its instructions move worth only as the ledger says, a trade gives
  every party exactly its own price, a claim is worth as much after netting as before, and only an owner or the
  operator of its vault acts for a trader.
\<close>

subsection \<open>A market with two positions\<close>

definition key_of :: "byte \<Rightarrow> pubkey" where
  "key_of b = replicate 32 b"

definition two_sided :: market where
  "two_sided = \<lparr>
     m_head = sample_header\<lparr>h_trader_cap := 2, h_order_cap := 1, h_maker_cap := 0, h_claim_cap := 4, h_next_seq := 2,
       h_step_value := 100, h_total_free := 5, h_backing := 600, h_custody := 605, h_claims_open := 2\<rparr>,
     m_traders = [trader_default\<lparr>tr_owner := key_of 1, tr_free := 5, tr_claims := 1\<rparr>,
       trader_default\<lparr>tr_owner := key_of 2, tr_claims := 1\<rparr>],
     m_orders = [order_default], m_makers = [], m_steps = [],
     m_claims = [claim_default\<lparr>c_lots := 3, c_seq := 1, c_hi := 2, c_cost := 290\<rparr>,
       claim_default\<lparr>c_lots := 3, c_seq := 2, c_trader := 1, c_side := 1, c_hi := 2, c_cost := 310\<rparr>,
       claim_default, claim_default],
     m_approval = None\<rparr>"

lemma two_sided_audit: "audit two_sided = Some (Inr ())"
  by code_simp

lemma two_sided_formed: "formed two_sided"
  by (simp add: formed_def two_sided_def claim_formed_def shaped_def claim_default_def trader_default_def sample_header_def)

lemma two_sided_backed: "backed two_sided"
  by (simp add: backed_def all_pay_def two_sided_def claims_val_def makers_val_def val_def pays_def unit_pay_def
      claim_default_def sample_header_def)

lemma two_sided_sound: "sound two_sided"
proof -
  have "on_grid two_sided" by (simp add: on_grid_def two_sided_def sample_header_def ladders_on_def)
  moreover have "settled_up two_sided" by (simp add: settled_up_def Let_def two_sided_def sample_header_def)
  ultimately show ?thesis using two_sided_audit two_sided_formed two_sided_backed by (simp add: sound_def)
qed

lemma two_sided_orderly: "orderly two_sided"
  by (simp add: orderly_def orders_formed_def order_formed_def apart_def flat_def two_sided_def sample_header_def order_default_def)

definition signed_by :: "byte \<Rightarrow> accounts" where
  "signed_by b = \<lparr>as_address = (\<lambda>_ _. None), as_program = key_of 9, as_market = key_of 8,
     as_owner = \<lparr>ac_key = key_of b, ac_signer = True, ac_program = default_key, ac_data = []\<rparr>, as_rest = []\<rparr>"

definition succeeds :: "'a res \<Rightarrow> bool" where
  "succeeds r = (case r of Some (Inr _) \<Rightarrow> True | _ \<Rightarrow> False)"

lemma succeeds_iff: "succeeds r \<longleftrightarrow> (\<exists>x. r = Some (Inr x))"
  by (auto simp: succeeds_def split: option.splits sum.splits)

lemma slot_known: "map_option (map_sum (\<lambda>e. ()) snd) r = Some (Inr t) \<Longrightarrow> \<exists>m. r = Some (Inr (m, t))"
  by (cases r rule: option.exhaust; cases "the r") auto

lemma two_sided_split: "succeeds (split_claim two_sided (signed_by 1) 0 1 1)"
  by code_simp

subsection \<open>A market with a resting order\<close>

text \<open>Trader 0 bids 120 for each of two lots of the whole grid, whose sets cost 200; trader 1 has 100 to trade with.\<close>

definition quoted :: market where
  "quoted = \<lparr>
     m_head = sample_header\<lparr>h_trader_cap := 2, h_order_cap := 1, h_maker_cap := 0, h_claim_cap := 4, h_next_seq := 1,
       h_step_value := 100, h_total_free := 100, h_total_reserved := 240, h_custody := 340\<rparr>,
     m_traders = [trader_default\<lparr>tr_owner := key_of 1, tr_reserved := 240, tr_orders := 1\<rparr>,
       trader_default\<lparr>tr_owner := key_of 2, tr_free := 100\<rparr>],
     m_orders = [order_default\<lparr>o_seq := 1, o_hi := 2, o_lots := 2, o_price := 120, o_escrow_per_lot := 120,
       o_claim := NO_CLAIM, o_placed_lots := 2\<rparr>],
     m_makers = [], m_steps = [], m_claims = replicate 4 claim_default, m_approval = None\<rparr>"

definition sells :: submit_params where
  "sells = \<lparr>sb_side = 1, sb_lo = 0, sb_hi = 2, sb_lots = 1, sb_limit = 90, sb_min_fill = 1, sb_mode = 0,
     sb_close_claim = NO_CLAIM, sb_close_seq = 0\<rparr>"

text \<open>One lot of order 0 against one lot of the taker, at potentials 0 and -120.\<close>

definition one_lot :: bytes where
  "one_lot = [1, 0, 1, 0, 1, 2, 0, 239, 1]"

definition live_period :: period where
  "live_period = (new_forming 0 (key_of 7) 0 90 0)\<lparr>pd_status := Live\<rparr>"

lemma quoted_sound: "sound quoted"
proof -
  have "audit quoted = Some (Inr ())" by code_simp
  moreover have "formed quoted"
    by (simp add: formed_def quoted_def claim_formed_def claim_default_def trader_default_def sample_header_def)
  moreover have "on_grid quoted" by (simp add: on_grid_def quoted_def sample_header_def ladders_on_def)
  moreover have "backed quoted"
    by (simp add: backed_def all_pay_def quoted_def claims_val_def makers_val_def val_def pays_def claim_default_def sample_header_def
      sum_list_replicate)
  moreover have "settled_up quoted" by (simp add: settled_up_def Let_def quoted_def sample_header_def)
  ultimately show ?thesis by (simp add: sound_def)
qed

lemma quoted_orderly: "orderly quoted"
  by (simp add: orderly_def orders_formed_def order_formed_def order_shaped_def apart_def flat_def quoted_def sample_header_def order_default_def)

lemma quoted_trade:
  "succeeds (submit quoted (signed_by 2) sells one_lot None (key_of 0) (Some (Inr live_period)) 50)"
  by code_simp

subsection \<open>Solvency\<close>

text \<open>
  C1. A market stays solvent: from any sound and orderly market, after any sequence of instructions, trades and quotes
  included, in any order, the audit
  passes, every claim has a shape on the grid, and the traders' cash, claims and inventories together are worth
  exactly what is in custody plus the debt of the credit owner, at every settlement while the market is open and at
  its settlement once it is final. Custody changed by exactly what was paid in and out, and without a trade the debt
  has not grown.
\<close>

theorem market_stays_solvent:
  assumes "sound m" "orderly m" "runs market_step es m m'"
  shows "audit m' = Some (Inr ()) \<and> formed m'
    \<and> (\<forall>s. h_status (m_head m') = STATUS_OPEN \<or> s = h_settlement_fine (m_head m') \<longrightarrow>
         worth (\<lambda>_. True) m' s = int (h_custody (m_head m') + h_debt (m_head m')))
    \<and> int (h_custody (m_head m')) = int (h_custody (m_head m)) + (\<Sum>e\<leftarrow>es. custody_change e)
    \<and> ((\<forall>e\<in>set es. \<not> borrows e) \<longrightarrow> h_debt (m_head m') \<le> h_debt (m_head m))"
proof -
  have so: "sound m \<and> orderly m" using assms(1,2) by blast
  have s': "sound m'" using market_run.runs_keep [OF assms(3) so] by blast
  have "runs ledger_step es (books m) (books m')" by (rule market_run.runs_simulate [OF assms(3) so])
  from ledger_runs_cash [OF this] show ?thesis
    using sound_total [OF s'] s' by (simp add: books_def sound_def)
qed

lemma two_sided_run: "\<exists>m'. runs market_step [Kept] two_sided m'"
  using two_sided_split by (auto simp: succeeds_iff intro: runs.intros market_step.splits)

theorem market_stays_solvent_witness:
  "sound two_sided \<and> (\<exists>m'. runs market_step [Kept] two_sided m' \<and> audit m' = Some (Inr ()) \<and> h_custody (m_head m') = 605)"
proof -
  obtain m' where r: "runs market_step [Kept] two_sided m'" using two_sided_run by blast
  have "int (h_custody (m_head two_sided)) = 605" by (simp add: two_sided_def)
  with market_stays_solvent [OF two_sided_sound two_sided_orderly r] r two_sided_sound show ?thesis by auto
qed

text \<open>
  C2. The instructions implement the ledger: seen as what each trader's cash and holdings are worth at every
  settlement, a run of instructions is a run of the abstract ledger, in which deposits and withdrawals change one
  trader by the amount, a trade gives each party the payoff of what it buys less its own price, adding up to nothing
  at every settlement, and may lend to its taker, transfers hand over exactly the claim's payoff, settling changes nothing
  at the settlement, and cancelling, splitting, merging, redeeming, pruning and finalizing change nothing at all.
\<close>

theorem instructions_refine_the_ledger:
  assumes "sound m" "orderly m" "runs market_step es m m'"
  shows "runs ledger_step es (books m) (books m')"
  by (rule market_run.runs_simulate [OF assms(3)]) (use assms(1,2) in blast)

theorem instructions_refine_the_ledger_witness:
  "\<exists>m'. runs market_step [Kept] two_sided m' \<and> runs ledger_step [Kept] (books two_sided) (books m')"
  using two_sided_run instructions_refine_the_ledger [OF two_sided_sound two_sided_orderly] by blast

text \<open>
  C3. A trade pays everyone exactly its own price: after a submission goes through, every trader is worth what it was
  plus, for each resting order or ladder step of its own that was filled, the payoff of the lots less the order's or
  step's own price; the taker is worth the payoff of what it bought less the rest of the cost. The parts add up to
  nothing at every settlement. Only a loan to the taker and a repayment by the credit owner come on top, both in
  the debt and only where the market has a credit owner. The market stays sound and orderly and custody is as it was.
\<close>

theorem trade_pays_each_its_own_price:
  assumes "submit m a p prop_bytes approval period_key loaded now = Some (Inr m')" "sound m" "orderly m"
    "trader_slot m (ac_key (as_owner a)) = Some (Inr (m0, t))" "submitted m prop_bytes = Some (fs, filled)"
    "from_u8 (sb_side p) = Some sd"
  defines "k \<equiv> h_k (m_head m)"
  shows "\<exists>paid loan repay. sound m' \<and> orderly m' \<and> h_custody (m_head m') = h_custody (m_head m)
    \<and> h_debt (m_head m) + loan = h_debt (m_head m') + repay \<and> (0 < loan \<or> 0 < repay \<longrightarrow> has_credit (m_head m))
    \<and> (\<forall>u s. worth (\<lambda>i. i = u) m' s = worth (\<lambda>i. i = u) m s
        + (\<Sum>f\<leftarrow>fs. if arc_owner m (fst f) = u then arc_profile k f s else 0)
        + (if u = t then int filled * unit_pay k s (sd = Long) (sb_lo p) (sb_hi p) - paid + int loan else 0)
        - (if find_trader m' (h_credit_owner (m_head m')) = Some u then int repay else 0))
    \<and> (\<forall>s. (\<Sum>f\<leftarrow>fs. arc_profile k f s) + int filled * unit_pay k s (sd = Long) (sb_lo p) (sb_hi p) = paid)"
proof -
  let ?paid = "package_paid k p sd fs filled"
  obtain l where f: "sound m'" "orderly m'" "h_custody (m_head m') = h_custody (m_head m)"
    and z: "\<forall>s. entries_gain (trade_entries m t p sd fs filled) (\<lambda>_. True) s = 0"
    and l: "ledger_lends m m' (\<lambda>P s. entries_gain (trade_entries m t p sd fs filled) P s + at P t l) l"
    using submit_facts [OF assms(1-3)] assms(4-6) by auto
  have g: "entries_gain (trade_entries m t p sd fs filled) P s = (\<Sum>f\<leftarrow>fs. if P (arc_owner m (fst f)) then arc_profile k f s else 0)
    + (if P t then int filled * unit_pay k s (sd = Long) (sb_lo p) (sb_hi p) - ?paid else 0)" for P s
    by (simp add: entries_gain_def trade_entries_def comp_def k_def cong: if_cong)
  have sums: "\<forall>s. (\<Sum>f\<leftarrow>fs. arc_profile k f s) + int filled * unit_pay k s (sd = Long) (sb_lo p) (sb_hi p) = ?paid"
    using z by (simp add: g algebra_simps)
  obtain r where d: "h_debt (m_head m) + l = h_debt (m_head m') + r" "0 < l \<or> 0 < r \<longrightarrow> has_credit (m_head m)"
    and w: "\<forall>P s. worth P m' s = worth P m s + (entries_gain (trade_entries m t p sd fs filled) P s + at P t l) - repaid m' P r"
    using l by (auto simp: ledger_lends_def)
  have "repaid m' (\<lambda>i. i = u) r = (if find_trader m' (h_credit_owner (m_head m')) = Some u then int r else 0)" for u
    by (simp add: repaid_def at_def split: option.splits)
  then have "worth (\<lambda>i. i = u) m' s = worth (\<lambda>i. i = u) m s + (\<Sum>f\<leftarrow>fs. if arc_owner m (fst f) = u then arc_profile k f s else 0)
    + (if u = t then int filled * unit_pay k s (sd = Long) (sb_lo p) (sb_hi p) - ?paid + int l else 0)
    - (if find_trader m' (h_credit_owner (m_head m')) = Some u then int r else 0)" for u s
    using w by (simp add: g at_def)
  then show ?thesis using f sums d by blast
qed

lemma quoted_parties:
  "map_option (map_sum (\<lambda>e. ()) snd) (trader_slot quoted (ac_key (as_owner (signed_by 2)))) = Some (Inr 1)"
  "map_option (map (\<lambda>(f, n). (a_side f, a_lo f, a_hi f, pay_in 100 f, arc_owner quoted f, n)) \<circ> fst) (submitted quoted one_lot)
     = Some [(Long, 0, 2, 120, 0, 1)]"
  "map_option snd (submitted quoted one_lot) = Some 1"
  by code_simp+

theorem trade_pays_each_its_own_price_witness:
  "\<exists>m'. submit quoted (signed_by 2) sells one_lot None (key_of 0) (Some (Inr live_period)) 50 = Some (Inr m')
     \<and> sound m' \<and> h_custody (m_head m') = 340 \<and> worth (\<lambda>i. i = 0) m' 150 = worth (\<lambda>i. i = 0) quoted 150 + 30"
proof -
  obtain m' where r: "submit quoted (signed_by 2) sells one_lot None (key_of 0) (Some (Inr live_period)) 50 = Some (Inr m')"
    using quoted_trade by (auto simp: succeeds_iff)
  obtain m0 where t: "trader_slot quoted (ac_key (as_owner (signed_by 2))) = Some (Inr (m0, 1))"
    using slot_known [OF quoted_parties(1)] by blast
  obtain f where f: "submitted quoted one_lot = Some ([(f, 1)], 1)" "a_side f = Long" "a_lo f = 0" "a_hi f = 2" "pay_in 100 f = 120"
    "arc_owner quoted f = 0" using quoted_parties(2,3) by auto
  have "from_u8 (sb_side sells) = Some Short" by (simp add: sells_def)
  note trade_pays_each_its_own_price [OF r quoted_sound quoted_orderly t f(1) this]
  moreover have "h_k (m_head quoted) = 100" "h_custody (m_head quoted) = 340" "\<not> has_credit (m_head quoted)"
    by (simp_all add: quoted_def sample_header_def has_credit_def default_key_def)
  moreover have "arc_profile 100 (f, 1) 150 = 30" using f(2-5) by (simp add: arc_profile_def unit_pay_def long_spec_def)
  ultimately show ?thesis using r f(6) by fastforce
qed

text \<open>
  C4. From its creation on a market is solvent: take a market that \<open>create_market\<close> made with a grid below 65,535 steps
  whose value \<open>grid * k\<close> is below \<open>2 ^ 64\<close> (\<open>create_market\<close> checks neither), and any run of the fifteen instructions of
  \<open>market_step\<close> (cash, orders, quotes, claims, trades, settlement; none of them gives a market credit). Then the audit
  passes, nobody owes anything, the traders' holdings are together worth exactly what is in custody, at every
  settlement while the market is open and at its settlement once it is final, and custody is what was paid in less
  what was paid out.
\<close>

theorem created_market_stays_solvent:
  assumes "create_market a p = Some (Inr (r, m))" "cp_grid p * cp_k p < 2 ^ 64" "cp_grid p < U16_MAX" "runs market_step es m m'"
  shows "audit m' = Some (Inr ()) \<and> h_debt (m_head m') = 0 \<and> int (h_custody (m_head m')) = (\<Sum>e\<leftarrow>es. custody_change e)
    \<and> (\<forall>s. h_status (m_head m') = STATUS_OPEN \<or> s = h_settlement_fine (m_head m') \<longrightarrow>
         worth (\<lambda>_. True) m' s = (\<Sum>e\<leftarrow>es. custody_change e))"
proof -
  have so: "sound m \<and> orderly m" and b: "books m = \<lparr>lg_worth = (\<lambda>t s. 0), lg_credit = False, lg_debt = 0, lg_custody = 0\<rparr>"
    using create_market_sound [OF assms(1-3)] by blast+
  have s': "sound m'" using market_run.runs_keep [OF assms(4) so] by blast
  from ledger_runs_cash [OF market_run.runs_simulate [OF assms(4) so]] show ?thesis
    using sound_total [OF s'] s' unfolding b by (simp add: books_def sound_def)
qed

definition small_params :: create_params where
  "small_params = \<lparr>cp_product_id = key_of 7, cp_expiry_ts = 9, cp_grid = 2, cp_k = 100, cp_step_value = 100, cp_value_decimals = 0,
     cp_ref_value = 100, cp_trader_cap = 1, cp_order_cap = 1, cp_maker_cap = 0, cp_claim_cap = 1\<rparr>"

definition small_accounts :: create_accounts where
  "small_accounts = (let bare = \<lparr>ac_key = key_of 8, ac_signer = False, ac_program = key_of 9, ac_data = []\<rparr> in
     \<lparr>ca_program = key_of 9,
      ca_market = bare\<lparr>ac_data := replicate (market_len 2 1 1 0 1) 0\<rparr>,
      ca_market_writable = True, ca_registry = bare\<lparr>ac_key := key_of 6, ac_program := key_of 0\<rparr>, ca_registry_writable = True,
      ca_registry_lamports = 0, ca_period = key_of 5, ca_oracle_program = key_of 4, ca_mint = bare\<lparr>ac_key := key_of 3, ac_program := key_of 2\<rparr>,
      ca_vault = key_of 1, ca_creator = bare\<lparr>ac_signer := True\<rparr>, ca_system = key_of 0, ca_token_program = key_of 2,
      ca_system_program = key_of 0, ca_authorized = Some (Inr ()), ca_loaded = Some (Inr live_period),
      ca_vault_token = Some (Inr (key_of 3, key_of 7)), ca_authority = (key_of 7, 255), ca_registry_address = (key_of 6, 254),
      ca_created = Some (Inr ())\<rparr>)"

lemma small_market_created: "succeeds (create_market small_accounts small_params)"
  by (simp add: succeeds_def create_market_def small_accounts_def small_params_def params_ok_def live_period_def new_forming_def
      ensure_def andthen_def Let_def NO_CLAIM_def)

text \<open>The token program moves 50 atoms from the owner's token account to the vault, which held none.\<close>

definition fifty_in :: cash_accounts where
  "fifty_in = (let vault = \<lparr>tok_mint = key_of 3, tok_owner = key_of 7, tok_amount = 0\<rparr> in
     \<lparr>cs_owner_token = key_of 11, cs_vault = key_of 1, cs_token_program = key_of 2, cs_authority = Some (Inl InvalidAccount),
      cs_token_id = key_of 2, cs_owner_account = Some (Inl Custody), cs_before = Some (Inr vault), cs_moved = Some (Inr ()),
      cs_after = Some (Inr (vault\<lparr>tok_amount := 50\<rparr>))\<rparr>)"

lemma small_market_deposit:
  "succeeds (deposit (fresh_market (new_header small_accounts small_params)) (signed_by 1) fifty_in 50)"
  "map_option (map_sum (\<lambda>e. ()) snd) (trader_slot (fresh_market (new_header small_accounts small_params)) (ac_key (as_owner (signed_by 1)))) = Some (Inr 0)"
  by code_simp+

theorem created_market_stays_solvent_witness:
  "\<exists>r m m'. create_market small_accounts small_params = Some (Inr (r, m)) \<and> runs market_step [PaidIn 0 50] m m'
     \<and> h_custody (m_head m') = 50 \<and> h_debt (m_head m') = 0"
proof -
  obtain r m where c: "create_market small_accounts small_params = Some (Inr (r, m))"
    using small_market_created by (auto simp: succeeds_iff)
  have m: "m = fresh_market (new_header small_accounts small_params)" using c by (auto simp: create_market_def res_simps)
  obtain m' where d: "deposit m (signed_by 1) fifty_in 50 = Some (Inr m')" using small_market_deposit(1) by (auto simp: succeeds_iff m)
  obtain m1 where t: "trader_slot m (ac_key (as_owner (signed_by 1))) = Some (Inr (m1, 0))"
    using slot_known [OF small_market_deposit(2)] by (auto simp: m)
  have r: "runs market_step [PaidIn 0 50] m m'" using market_step.deposits [OF d t] by (auto intro: runs.intros)
  have "cp_grid small_params * cp_k small_params < 2 ^ 64" "cp_grid small_params < U16_MAX" by (simp_all add: small_params_def)
  from created_market_stays_solvent [OF c this r] c r show ?thesis by auto
qed

text \<open>
  C5. The final settlement goes through: once the oracle or the council may settle an open sound market, it can be
  finalized at every value, and what is then owed to the claims and inventories is exactly the backing.
\<close>

theorem settlement_is_always_payable:
  assumes "sound m" "h_status (m_head m) = STATUS_OPEN" "council_may_settle (m_head m) p now = Some (Inr ())"
  shows "(\<exists>m'. council_settle m (h_period (m_head m)) (Some (Inr p)) value now = Some (Inr m')
      \<and> all_pay m' (settle_fine value (h_step_value (m_head m)) (h_k (m_head m))) = int (h_backing (m_head m')))
    \<and> (pd_status q = Settled \<and> h_expiry_ts (m_head m) \<le> now \<and> pd_value_decimals q = h_value_decimals (m_head m) \<longrightarrow>
      (\<exists>m'. finalize m (h_period (m_head m)) (Some (Inr q)) now = Some (Inr m')
      \<and> all_pay m' (settle_fine (pd_settlement_value q) (h_step_value (m_head m)) (h_k (m_head m))) = int (h_backing (m_head m'))))"
proof -
  have ne: "STATUS_FAILED \<noteq> STATUS_OPEN" "STATUS_SETTLED \<noteq> STATUS_OPEN" by (simp_all add: STATUS_FAILED_def STATUS_SETTLED_def STATUS_OPEN_def)
  let ?fine = "\<lambda>v. settle_fine v (h_step_value (m_head m)) (h_k (m_head m))"
  obtain m' where "store (finalized m (?fine value) STATUS_FAILED now) = Some (Inr m')" "all_pay m' (?fine value) = int (h_backing (m_head m'))"
    by (rule finalized_stored [OF assms(1,2) ne(1)])
  then have council: "\<exists>m'. council_settle m (h_period (m_head m)) (Some (Inr p)) value now = Some (Inr m')
    \<and> all_pay m' (?fine value) = int (h_backing (m_head m'))"
    using assms by (simp add: council_settle_def ensure_def andthen_def Let_def finalized_def)
  obtain m'' where "store (finalized m (?fine (pd_settlement_value q)) STATUS_SETTLED now) = Some (Inr m'')"
    "all_pay m'' (?fine (pd_settlement_value q)) = int (h_backing (m_head m''))"
    by (rule finalized_stored [OF assms(1,2) ne(2)])
  then have "\<exists>m'. finalize m (h_period (m_head m)) (Some (Inr q)) now = Some (Inr m')
    \<and> all_pay m' (?fine (pd_settlement_value q)) = int (h_backing (m_head m'))"
    if "pd_status q = Settled" "h_expiry_ts (m_head m) \<le> now" "pd_value_decimals q = h_value_decimals (m_head m)"
    using assms(2) that by (simp add: finalize_def ensure_def andthen_def Let_def finalized_def)
  with council show ?thesis by blast
qed

definition failed_period :: period where
  "failed_period = (new_forming 0 (key_of 7) 0 9 0)\<lparr>pd_status := Failed\<rparr>"

theorem settlement_is_always_payable_witness:
  "\<exists>m'. council_settle two_sided (key_of 0) (Some (Inr failed_period)) 1 50 = Some (Inr m')
    \<and> all_pay m' 1 = int (h_backing (m_head m'))"
proof -
  have "h_status (m_head two_sided) = STATUS_OPEN" "h_period (m_head two_sided) = key_of 0"
    "settle_fine 1 (h_step_value (m_head two_sided)) (h_k (m_head two_sided)) = 1"
    by (simp_all add: two_sided_def sample_header_def STATUS_OPEN_def key_of_def settle_fine_def cast_def)
  then show ?thesis
    using settlement_is_always_payable [OF two_sided_sound, of failed_period 50 1]
    by (simp add: council_may_settle_def failed_period_def)
qed

text \<open>
  C6. Placing a claim keeps every payoff: redeeming it against complements, joining it to a claim of its range and
  netting it against overlapping claims adds to what the traders are worth, cash included, exactly the payoff of the
  claim, for its trader only and at every settlement, and leaves the claims well shaped.
\<close>

theorem placing_adds_exactly_the_claim:
  assumes "place m fresh first hold = Some (Inr (m', r))" "formed m"
    "shaped (h_grid (m_head m)) (length (m_traders m)) fresh" "joins m fresh hold"
  shows "formed m' \<and> (\<forall>t s. worth (\<lambda>i. i = t) m' s =
    worth (\<lambda>i. i = t) m s + (if t = c_trader fresh then pays (h_k (m_head m)) s fresh else 0))"
  using place_moves [OF assms] by (auto simp: moves_def val_def)

lemma two_sided_place: "succeeds (place two_sided (claim_default\<lparr>c_lots := 1, c_trader := 1, c_hi := 1, c_cost := 7\<rparr>) None None)"
  by code_simp

theorem placing_adds_exactly_the_claim_witness:
  "\<exists>m' r. place two_sided (claim_default\<lparr>c_lots := 1, c_trader := 1, c_hi := 1, c_cost := 7\<rparr>) None None = Some (Inr (m', r))
     \<and> formed m' \<and> worth (\<lambda>i. i = 1) m' 40 = worth (\<lambda>i. i = 1) two_sided 40 + 40"
proof -
  let ?c = "claim_default\<lparr>c_lots := 1, c_trader := 1, c_hi := 1, c_cost := 7\<rparr>"
  obtain m' r where p: "place two_sided ?c None None = Some (Inr (m', r))"
    using two_sided_place by (auto simp: succeeds_iff)
  have "shaped (h_grid (m_head two_sided)) (length (m_traders two_sided)) ?c"
    by (simp add: shaped_def two_sided_def sample_header_def claim_default_def)
  moreover have "joins two_sided ?c None" by (simp add: joins_def)
  moreover have "pays (h_k (m_head two_sided)) 40 ?c = 40"
    by (simp add: pays_def unit_pay_def long_spec_def two_sided_def sample_header_def claim_default_def)
  ultimately show ?thesis using placing_adds_exactly_the_claim [OF p two_sided_formed] p by auto
qed

text \<open>
  The value of a trader: the slope sweep over the grid always answers on a sound market. While the market is open
  it returns the least and the most the trader's cash, claims and inventory are worth over every settlement, both of
  them reached; once it is final it returns what they are worth at the settlement.
\<close>

theorem trader_value_is_the_range:
  assumes "sound m" "t < length (m_traders m)" "ladder_linked m t" "h_custody (m_head m) + h_debt (m_head m) < 2 ^ 64"
    "0 < h_k (m_head m)"
  shows "\<exists>lo hi. trader_value m t = Some (Inr (lo, hi))
    \<and> (h_status (m_head m) = STATUS_OPEN \<longrightarrow>
         (\<forall>s. int lo \<le> worth (\<lambda>i. i = t) m s \<and> worth (\<lambda>i. i = t) m s \<le> int hi)
         \<and> (\<exists>s. worth (\<lambda>i. i = t) m s = int lo) \<and> (\<exists>s. worth (\<lambda>i. i = t) m s = int hi))
    \<and> (h_status (m_head m) \<noteq> STATUS_OPEN \<longrightarrow>
         lo = hi \<and> worth (\<lambda>i. i = t) m (h_settlement_fine (m_head m)) = int lo)"
proof (cases "h_status (m_head m) = STATUS_OPEN")
  case True
  then show ?thesis using trader_value_open [OF assms(1-4) True assms(5)] by auto
next
  case False
  then show ?thesis using trader_value_final [OF assms(1-4) False] by auto
qed

theorem trader_value_is_the_range_witness:
  "\<exists>lo hi. trader_value two_sided 0 = Some (Inr (lo, hi)) \<and> (\<forall>s. int lo \<le> worth (\<lambda>i. i = 0) two_sided s)
     \<and> (\<exists>s. worth (\<lambda>i. i = 0) two_sided s = int hi)"
proof -
  have "0 < length (m_traders two_sided)" "h_custody (m_head two_sided) + h_debt (m_head two_sided) < 2 ^ 64"
    "0 < h_k (m_head two_sided)" "h_status (m_head two_sided) = STATUS_OPEN" "ladder_linked two_sided 0"
    by (simp_all add: two_sided_def sample_header_def STATUS_OPEN_def ladder_linked_def trader_default_def)
  then show ?thesis using trader_value_is_the_range [OF two_sided_sound, of 0] by metis
qed

subsection \<open>Who acts for a trader\<close>

text \<open>
  The ten instructions that act for a trader, on the account \<open>as_owner\<close> names. \<open>acted_claims\<close> and \<open>acted_orders\<close> are
  the claims and orders they work on.
\<close>

datatype act =
  PaysIn | TakesOut | Cancels u16 | CancelsQuote | Splits u32 | Merges u32 u32 | Redeems u32 u32 | Transfers u32 | Submits | Quotes

inductive acts :: "act \<Rightarrow> accounts \<Rightarrow> market \<Rightarrow> market \<Rightarrow> bool" where
  pays_in: "deposit m a c amount = Some (Inr m') \<Longrightarrow> acts PaysIn a m m'"
| takes_out: "withdraw m a c amount = Some (Inr (m', paid)) \<Longrightarrow> acts TakesOut a m m'"
| cancels: "cancel m a i seq = Some (Inr m') \<Longrightarrow> acts (Cancels i) a m m'"
| cancels_quote: "cancel_quote m a = Some (Inr m') \<Longrightarrow> acts CancelsQuote a m m'"
| splits: "split_claim m a i seq x = Some (Inr m') \<Longrightarrow> acts (Splits i) a m m'"
| merges: "merge_claims m a keep absorb = Some (Inr m') \<Longrightarrow> acts (Merges (fst keep) (fst absorb)) a m m'"
| redeems: "redeem m a long short lots = Some (Inr m') \<Longrightarrow> acts (Redeems (fst long) (fst short)) a m m'"
| transfers: "transfer_claim m a i seq lots receiver on_curve = Some (Inr m') \<Longrightarrow> acts (Transfers i) a m m'"
| submits: "submit m a p prop_bytes approval period_key loaded now = Some (Inr m') \<Longrightarrow> acts Submits a m m'"
| quotes: "quote m a l co knots prop_bytes approval period_key loaded now = Some (Inr m') \<Longrightarrow> acts Quotes a m m'"

fun owner_only :: "act \<Rightarrow> bool" where
  "owner_only PaysIn = True"
| "owner_only TakesOut = True"
| "owner_only (Transfers i) = True"
| "owner_only _ = False"

fun acted_claims :: "act \<Rightarrow> u32 list" where
  "acted_claims (Splits i) = [i]"
| "acted_claims (Merges i j) = [i, j]"
| "acted_claims (Redeems i j) = [i, j]"
| "acted_claims (Transfers i) = [i]"
| "acted_claims _ = []"

fun acted_orders :: "act \<Rightarrow> u16 list" where
  "acted_orders (Cancels i) = [i]"
| "acted_orders _ = []"

text \<open>The account is a vault of this program at its operator's address, the market is one of its markets, and the
  operator signs.\<close>

definition operated :: "accounts \<Rightarrow> bool" where
  "operated a \<longleftrightarrow> ac_program (as_owner a) = as_program a \<and> (case vault_read (ac_data (as_owner a)) of
     Some (Inr v) \<Rightarrow> as_address a [NAMESPACE, VAULT_SEED, va_operator v, [word_of_nat (va_bump v)]] (as_program a) = Some (ac_key (as_owner a))
       \<and> as_market a \<in> set (va_markets v) \<and> (\<exists>x\<in>set (as_rest a). ac_signer x \<and> ac_key x = va_operator v)
   | _ \<Rightarrow> False)"

definition belongs :: "market \<Rightarrow> u16 \<Rightarrow> pubkey \<Rightarrow> bool" where
  "belongs m t key \<longleftrightarrow> t < length (m_traders m) \<and> tr_owner (m_traders m ! t) = key"

lemma authorize_ok: "authorize a = Some (Inr u) \<Longrightarrow> ac_signer (as_owner a) \<or> operated a"
  by (cases "ac_signer (as_owner a)") (auto simp: authorize_def load_vault_def operated_def res_simps Let_def)

lemma find_trader_belongs: "find_trader m key = Some t \<Longrightarrow> belongs m t key"
  by (auto simp: find_trader_def find_Some_iff belongs_def)

lemma acting_trader_ok:
  "acting_trader m a = Some (Inr t) \<Longrightarrow> (ac_signer (as_owner a) \<or> operated a) \<and> belongs m t (ac_key (as_owner a))"
  by (auto simp: acting_trader_def res_simps dest!: find_trader_belongs authorize_ok)

lemma owned_trader_ok: "owned_trader m a = Some (Inr t) \<Longrightarrow> ac_signer (as_owner a) \<and> belongs m t (ac_key (as_owner a))"
  by (auto simp: owned_trader_def res_simps dest!: find_trader_belongs)

lemma owned_claim_trader: "owned_claim m i seq t = Some (Inr c) \<Longrightarrow> c_trader (m_claims m ! i) = t"
  by (auto simp: owned_claim_def claim_of_def res_simps slot_Some)

text \<open>
  C7. Only an owner, or the operator of its vault, acts for a trader: each of the ten instructions that act for a
  trader (deposit, withdraw, cancel, cancel a quote, split, merge, redeem, transfer, submit, quote) succeeds only if
  the key it acts for signed, or, for all but deposits, withdrawals and transfers, if that key is a vault's account of
  this program, derived from its operator, the market is one of the vault's and the operator signed. The order it
  cancels and the claims it splits, merges, redeems or transfers belong to the trader of that key.
\<close>

theorem only_owner_or_operator_acts:
  assumes "acts act a m m'"
  shows "(ac_signer (as_owner a) \<or> \<not> owner_only act \<and> operated a)
    \<and> (\<forall>i\<in>set (acted_claims act). belongs m (c_trader (m_claims m ! i)) (ac_key (as_owner a)))
    \<and> (\<forall>i\<in>set (acted_orders act). belongs m (o_trader (m_orders m ! i)) (ac_key (as_owner a)))"
  using assms
proof cases
  case pays_in
  then show ?thesis by (auto simp: deposit_def res_simps)
next
  case takes_out
  then show ?thesis by (auto simp: withdraw_def res_simps dest!: owned_trader_ok)
next
  case cancels
  then show ?thesis by (auto simp: cancel_def res_simps slot_Some dest!: acting_trader_ok)
next
  case cancels_quote
  then show ?thesis by (auto simp: cancel_quote_def res_simps dest!: acting_trader_ok)
next
  case splits
  then show ?thesis by (auto simp: split_claim_def res_simps dest!: acting_trader_ok owned_claim_trader)
next
  case merges
  then show ?thesis by (auto simp: merge_claims_def res_simps dest!: acting_trader_ok owned_claim_trader)
next
  case redeems
  then show ?thesis by (auto simp: redeem_def res_simps dest!: acting_trader_ok owned_claim_trader)
next
  case transfers
  then show ?thesis by (auto simp: transfer_claim_def res_simps dest!: owned_trader_ok owned_claim_trader)
next
  case submits
  then show ?thesis by (auto simp: submit_def res_simps dest!: authorize_ok)
next
  case quotes
  then show ?thesis by (auto simp: quote_def res_simps dest!: acting_trader_ok)
qed

lemma quoted_cancel: "succeeds (cancel quoted (signed_by 1) 0 1)"
  by code_simp

theorem only_owner_or_operator_acts_witness:
  "(\<exists>m'. acts (Cancels 0) (signed_by 1) quoted m') \<and> belongs quoted (o_trader (m_orders quoted ! 0)) (key_of 1)
   \<and> (\<nexists>m'. acts (Cancels 0) (signed_by 2) quoted m')"
proof -
  obtain m' where "acts (Cancels 0) (signed_by 1) quoted m'"
    using quoted_cancel acts.cancels by (fastforce simp: succeeds_iff)
  moreover have "\<not> belongs quoted (o_trader (m_orders quoted ! 0)) (key_of 2)"
    by (simp add: belongs_def quoted_def key_of_def order_default_def)
  moreover have "ac_key (as_owner (signed_by b)) = key_of b" for b by (simp add: signed_by_def)
  ultimately show ?thesis using only_owner_or_operator_acts [of "Cancels 0" _ quoted] by fastforce
qed

end
