(* ===== verification/Step_Least.thy ===== *)
theory Step_Least
  imports Credit_Risk
begin

text \<open>
  What \<open>step_least\<close> computes, in both forms: with the lots of a side written out one by one, the costliest lots the
  position needs and then the pairs that cost more than \<open>k\<close>. It is the least over every fill of the step.
\<close>

subsection \<open>Lots one by one\<close>

definition unit_costs :: "lots_at list \<Rightarrow> int list" where
  "unit_costs ps = concat (map (\<lambda>(c, q). replicate (nat q) c) ps)"

lemma unit_costs_simps [simp]:
  "unit_costs [] = []" "unit_costs ((c, q) # ps) = replicate (nat q) c @ unit_costs ps" "unit_costs (ps @ qs) = unit_costs ps @ unit_costs qs"
  by (simp_all add: unit_costs_def)

definition pair_sum :: "int \<Rightarrow> int list \<Rightarrow> int list \<Rightarrow> int" where
  "pair_sum k as bs = sum_list (takeWhile (\<lambda>v. v < 0) (map2 (\<lambda>a b. k - a - b) as bs))"

definition least_of :: "int \<Rightarrow> nat \<Rightarrow> int list \<Rightarrow> int list \<Rightarrow> int" where
  "least_of k n as bs = pair_sum k (drop n as) bs - sum_list (take n as)"

lemma pair_sum_nonpos: "pair_sum k as bs \<le> 0"
  unfolding pair_sum_def by (rule sum_list_nonpos) (auto dest!: set_takeWhileD)

lemma pair_sum_Nil [simp]: "pair_sum k [] bs = 0" "pair_sum k as [] = 0"
  by (simp_all add: pair_sum_def)

lemma map2_replicate_append:
  "map2 f (replicate n a @ as) (replicate n b @ bs) = replicate n (f a b) @ map2 f as bs"
  by (simp add: zip_append zip_replicate)

lemma pair_sum_replicate:
  assumes "k - a - b < 0"
  shows "pair_sum k (replicate n a @ as) (replicate n b @ bs) = int n * (k - a - b) + pair_sum k as bs"
  using assms by (simp add: pair_sum_def map2_replicate_append takeWhile_append sum_list_replicate)

lemma pair_sum_stop: "0 < n \<Longrightarrow> 0 < l \<Longrightarrow> 0 \<le> k - a - b \<Longrightarrow> pair_sum k (replicate n a @ as) (replicate l b @ bs) = 0"
  by (cases n; cases l) (simp_all add: pair_sum_def)

lemma take_replicate_append:
  "take n (replicate m a @ as) = replicate (min n m) a @ take (n - m) as" "drop n (replicate m a @ as) = replicate (m - n) a @ drop (n - m) as"
  by simp_all

definition lots_ok :: "lots_at list \<Rightarrow> bool" where
  "lots_ok ps \<longleftrightarrow> (\<forall>(c, q)\<in>set ps. 0 \<le> c \<and> 0 < q)"

lemma lots_ok_Cons [simp]: "lots_ok ((c, q) # ps) \<longleftrightarrow> 0 \<le> c \<and> 0 < q \<and> lots_ok ps"
  by (auto simp: lots_ok_def)

lemma unit_costs_nonneg: "lots_ok ps \<Longrightarrow> 0 \<le> sum_list (take n (unit_costs ps))"
  by (rule sum_list_nonneg) (auto simp: lots_ok_def unit_costs_def dest!: in_set_takeD)

subsection \<open>The reviewed form\<close>

lemma take_need_units:
  assumes "lots_ok ps" "0 \<le> n" "tot \<le> 0" "- (2 ^ 127) < tot - sum_list (take (nat n) (unit_costs ps))"
  shows "\<exists>ps'. take_need ps n tot = Some (tot - sum_list (take (nat n) (unit_costs ps)), ps') \<and> lots_ok ps'
    \<and> unit_costs ps' = drop (nat n) (unit_costs ps)"
  using assms
proof (induction ps n tot rule: take_need.induct)
  case (2 c left rest n tot)
  show ?case
  proof (cases "n = 0")
    case False
    define q where "q = min left n"
    have q: "0 < q" "q \<le> left" "q \<le> n" using 2 False by (auto simp: q_def)
    have nn: "nat n = nat q + nat (n - q)" "nat left = nat q + nat (left - q)" using q by simp_all
    have tk: "sum_list (take (nat n) (unit_costs ((c, left) # rest))) = q * c + sum_list (take (nat (n - left)) (unit_costs rest))"
      using q by (auto simp: take_replicate_append sum_list_replicate q_def min_def nat_diff_distrib' split: if_splits)
    have r0: "0 \<le> sum_list (take (nat (n - left)) (unit_costs rest))" using 2(2) unit_costs_nonneg by simp
    have p: "0 \<le> q * c" using q 2(2) by simp
    have b: "in_int 128 (q * c)" "in_int 128 (tot - q * c)"
      using 2(4,5) r0 p unfolding tk by (auto simp: in_int_def)
    have t: "times128 q c = Some (q * c)" "plus128 tot (- (q * c)) = Some (tot - q * c)"
      using b by (simp_all add: times128_def plus128_def checked_int_def)
    show ?thesis
    proof (cases "left - q = 0")
      case True
      then have l: "left = q" by simp
      have "\<exists>ps'. take_need rest (n - q) (tot - q * c) = Some (tot - q * c - sum_list (take (nat (n - q)) (unit_costs rest)), ps')
        \<and> lots_ok ps' \<and> unit_costs ps' = drop (nat (n - q)) (unit_costs rest)"
      proof (rule 2(1) [OF _ refl, folded q_def])
        show "\<not> n \<le> 0" using False 2(3) by simp
        show "- (2 ^ 127) < tot - q * c - sum_list (take (nat (n - q)) (unit_costs rest))" using 2(5) [unfolded tk] by (simp add: l diff_diff_eq)
        show "tot - q * c \<le> 0" using p 2(4) by linarith
      qed (use 2(2,3) q True t in simp_all)
      then show ?thesis using False 2(3) t tk q(1,3)
        by (auto simp: min_absorb1 Let_def l nat_diff_distrib' diff_diff_eq)
    next
      case False': False
      then have "q = n" "n < left" by (auto simp: q_def min_def split: if_splits)
      then show ?thesis using False 2(2,3) t tk
        by (auto simp: q_def [symmetric] Let_def take_replicate_append nat_diff_distrib')
    qed
  qed (use 2 in simp)
qed simp

lemma pair_off_units:
  assumes "lots_ok ps" "lots_ok qs" "tot \<le> 0" "- (2 ^ 127) < tot + pair_sum k (unit_costs ps) (unit_costs qs)"
  shows "pair_off k ps qs tot = Some (tot + pair_sum k (unit_costs ps) (unit_costs qs))"
  using assms
proof (induction k ps qs tot rule: pair_off.induct)
  case (3 k a left ps b right qs tot)
  show ?case
  proof (cases "0 \<le> k - a - b")
    case True
    then show ?thesis using 3(2,3) by (simp add: pair_sum_stop Let_def)
  next
    case False
    define q where "q = min left right"
    let ?ps = "if left - q = 0 then ps else (a, left - q) # ps" and ?qs = "if right - q = 0 then qs else (b, right - q) # qs"
    have q: "0 < q" "q \<le> left" "q \<le> right" using 3(2,3) by (auto simp: q_def)
    have u: "unit_costs ((a, left) # ps) = replicate (nat q) a @ unit_costs ?ps"
      "unit_costs ((b, right) # qs) = replicate (nat q) b @ unit_costs ?qs"
      using q by (auto simp: replicate_add [symmetric] nat_add_distrib [symmetric] simp flip: append_assoc)
    have ok: "lots_ok ?ps" "lots_ok ?qs" using 3(2,3) q by auto
    have s: "pair_sum k (unit_costs ((a, left) # ps)) (unit_costs ((b, right) # qs)) = q * (k - a - b) + pair_sum k (unit_costs ?ps) (unit_costs ?qs)"
      unfolding u using False q(1) by (subst pair_sum_replicate) simp_all
    have np: "q * (k - a - b) \<le> 0" using q False by (simp add: mult_nonneg_nonpos)
    have b: "in_int 128 (q * (k - a - b))" "in_int 128 (tot + q * (k - a - b))"
      using 3(4,5) np pair_sum_nonpos [of k "unit_costs ?ps" "unit_costs ?qs"] unfolding s in_int_def by simp_all
    have t: "times128 q (k - a - b) = Some (q * (k - a - b))" "plus128 tot (q * (k - a - b)) = Some (tot + q * (k - a - b))"
      using b by (simp_all add: times128_def plus128_def checked_int_def)
    have "pair_off k ?ps ?qs (tot + q * (k - a - b)) = Some (tot + q * (k - a - b) + pair_sum k (unit_costs ?ps) (unit_costs ?qs))"
      by (rule 3(1) [OF refl False refl, folded q_def]) (use 3(4,5) np ok t s in simp_all)
    then show ?thesis using False t s by (simp add: q_def [symmetric] Let_def)
  qed
qed simp_all

lemma step_least_units:
  assumes "lots_ok ps" "lots_ok qs" "0 \<le> n" "- (2 ^ 127) < least_of k (nat n) (unit_costs ps) (unit_costs qs)"
  shows "step_least ps qs n k = Some (least_of k (nat n) (unit_costs ps) (unit_costs qs))"
proof -
  let ?s = "sum_list (take (nat n) (unit_costs ps))"
  have b: "- (2 ^ 127) < 0 - ?s"
    using assms(4) pair_sum_nonpos [of k "drop (nat n) (unit_costs ps)" "unit_costs qs"] by (simp add: least_of_def)
  obtain ps' where p: "take_need ps n 0 = Some (0 - ?s, ps')" "lots_ok ps'" "unit_costs ps' = drop (nat n) (unit_costs ps)"
    using take_need_units [OF assms(1,3) order.refl b] by blast
  have "pair_off k ps' qs (0 - ?s) = Some (0 - ?s + pair_sum k (unit_costs ps') (unit_costs qs))"
    by (rule pair_off_units [OF p(2) assms(2)]) (use unit_costs_nonneg [OF assms(1)] assms(4) in \<open>simp_all add: p(3) least_of_def\<close>)
  then show ?thesis using p by (simp add: step_least_def least_of_def)
qed

subsection \<open>The form in 64 bits\<close>

lemma fast_mul_exact:
  assumes "0 \<le> a" "a < 2 ^ 31" "\<bar>b\<bar> < 2 ^ 32"
  shows "fast_mul a b = a * b"
proof -
  have "\<bar>a * b\<bar> \<le> (2 ^ 31 - 1) * (2 ^ 32 - 1)" unfolding abs_mult by (rule mult_mono) (use assms in simp_all)
  then have "\<bar>a * b\<bar> < 2 ^ 63" by simp
  then have "in_int 64 (a * b)" unfolding in_int_def abs_less_iff by simp
  then show ?thesis by (simp add: fast_mul_def cast_int_id)
qed

definition fast_lots :: "lots_at list \<Rightarrow> bool" where
  "fast_lots ps \<longleftrightarrow> (\<forall>(c, q)\<in>set ps. 0 \<le> c \<and> c < 2 ^ 31 \<and> 0 < q \<and> q < 2 ^ 31)"

lemma fast_lots_simps [simp]:
  "fast_lots []" "fast_lots ((c, q) # ps) \<longleftrightarrow> 0 \<le> c \<and> c < 2 ^ 31 \<and> 0 < q \<and> q < 2 ^ 31 \<and> fast_lots ps"
  by (auto simp: fast_lots_def)

lemma fast_lots_ok: "fast_lots ps \<Longrightarrow> lots_ok ps"
  by (auto simp: fast_lots_def lots_ok_def)

lemma check64_ok [res_simps]: "check64 v = Some (Inr w) \<longleftrightarrow> w = v \<and> in_int 64 v"
  by (auto simp: check64_def need_ok checked_simps)

lemma take_need_fast_units:
  assumes "take_need_fast ps n tot = Some (Inr (tot', ps'))" "fast_lots ps" "0 \<le> n" "n < 2 ^ 31"
  shows "tot' = tot - sum_list (take (nat n) (unit_costs ps)) \<and> fast_lots ps' \<and> unit_costs ps' = drop (nat n) (unit_costs ps)"
  using assms
proof (induction ps n tot rule: take_need_fast.induct)
  case (2 c left rest n tot)
  show ?case
  proof (cases "n = 0")
    case True
    then show ?thesis using 2(2,3) by simp
  next
    case False
    define q where "q = min left n"
    have q: "0 < q" "q \<le> left" "q \<le> n" "q < 2 ^ 31" using 2(3-5) False by (auto simp: q_def)
    have fm: "fast_mul q c = q * c" using q 2(3) by (intro fast_mul_exact) simp_all
    have tk: "sum_list (take (nat n) (unit_costs ((c, left) # rest))) = q * c + sum_list (take (nat (n - left)) (unit_costs rest))"
      using q by (auto simp: take_replicate_append sum_list_replicate q_def min_def nat_diff_distrib' split: if_splits)
    show ?thesis
    proof (cases "left - q = 0")
      case True
      then have l: "left = q" by simp
      have e: "take_need_fast rest (n - q) (tot - q * c) = Some (Inr (tot', ps'))"
        using 2(2,4) False True by (auto simp: q_def [symmetric] Let_def res_simps fm)
      have "tot' = tot - q * c - sum_list (take (nat (n - q)) (unit_costs rest)) \<and> fast_lots ps' \<and> unit_costs ps' = drop (nat (n - q)) (unit_costs rest)"
        by (rule 2(1) [OF _ q_def, of "tot - q * c"]) (use e 2(3-5) False True q in simp_all)
      then show ?thesis using tk q(1,3) by (simp add: l nat_diff_distrib')
    next
      case False': False
      then have "q = n" "n < left" by (auto simp: q_def min_def split: if_splits)
      then show ?thesis using 2(2-5) False False' tk fm
        by (auto simp: q_def [symmetric] Let_def res_simps take_replicate_append nat_diff_distrib')
    qed
  qed
qed simp

lemma pair_off_fast_units:
  assumes "pair_off_fast k ps qs tot = Some (Inr r)" "fast_lots ps" "fast_lots qs" "0 \<le> k" "k < 2 ^ 31"
  shows "r = tot + pair_sum k (unit_costs ps) (unit_costs qs)"
  using assms
proof (induction k ps qs tot rule: pair_off_fast.induct)
  case (3 k a left ps b right qs tot)
  show ?case
  proof (cases "a + b - k \<le> 0")
    case True
    then show ?thesis using 3(2-4) by (simp add: pair_sum_stop Let_def)
  next
    case False
    define q where "q = min left right"
    let ?ps = "if left - q = 0 then ps else (a, left - q) # ps" and ?qs = "if right - q = 0 then qs else (b, right - q) # qs"
    have q: "0 < q" "q \<le> left" "q \<le> right" "q < 2 ^ 31" using 3(3,4) by (auto simp: q_def)
    have u: "unit_costs ((a, left) # ps) = replicate (nat q) a @ unit_costs ?ps"
      "unit_costs ((b, right) # qs) = replicate (nat q) b @ unit_costs ?qs"
      using q by (auto simp: replicate_add [symmetric] nat_add_distrib [symmetric] simp flip: append_assoc)
    have ok: "fast_lots ?ps" "fast_lots ?qs" using 3(3,4) q by auto
    have s: "pair_sum k (unit_costs ((a, left) # ps)) (unit_costs ((b, right) # qs)) = q * (k - a - b) + pair_sum k (unit_costs ?ps) (unit_costs ?qs)"
      unfolding u using False q(1) by (subst pair_sum_replicate) simp_all
    have fm: "fast_mul q (a + b - k) = q * (a + b - k)" using q 3(3-6) False by (intro fast_mul_exact) simp_all
    have e: "pair_off_fast k ?ps ?qs (tot - q * (a + b - k)) = Some (Inr r)"
      using 3(2) False by (simp add: q_def [symmetric] Let_def res_simps fm)
    have "r = tot - q * (a + b - k) + pair_sum k (unit_costs ?ps) (unit_costs ?qs)"
      by (rule 3(1) [OF refl False q_def, of "tot - q * (a + b - k)"]) (use e ok 3(5,6) in simp_all)
    then show ?thesis unfolding s by (simp add: algebra_simps)
  qed
qed simp_all

lemma step_least_fast_units:
  assumes "step_least_fast ps qs n k = Some (Inr r)" "fast_lots ps" "fast_lots qs" "0 \<le> n" "n < 2 ^ 31" "0 \<le> k" "k < 2 ^ 31"
  shows "r = least_of k (nat n) (unit_costs ps) (unit_costs qs)"
proof -
  obtain tot ps' where p: "take_need_fast ps n 0 = Some (Inr (tot, ps'))" "pair_off_fast k ps' qs tot = Some (Inr r)"
    using assms(1) by (auto simp: step_least_fast_def res_simps)
  note t = take_need_fast_units [OF p(1) assms(2,4,5)]
  then have "r = tot + pair_sum k (unit_costs ps') (unit_costs qs)" using pair_off_fast_units [OF p(2) _ assms(3,6,7)] by blast
  then show ?thesis using t by (simp add: least_of_def)
qed

subsection \<open>Only the costs count\<close>

definition dear_first :: "lots_at list \<Rightarrow> bool" where
  "dear_first ps \<longleftrightarrow> sorted_wrt (\<lambda>p q. fst q \<le> fst p) ps"

lemma unit_costs_set: "c \<in> set (unit_costs ps) \<Longrightarrow> \<exists>q. (c, q) \<in> set ps"
  by (auto simp: unit_costs_def split: if_splits)

lemma unit_costs_sorted: "dear_first ps \<Longrightarrow> sorted (rev (unit_costs ps))"
proof (induction ps)
  case (Cons p ps)
  obtain c q where p: "p = (c, q)" by (cases p)
  have "\<forall>x\<in>set (unit_costs ps). x \<le> c" using Cons.prems unit_costs_set by (fastforce simp: dear_first_def p)
  then show ?case using Cons by (auto simp: p dear_first_def sorted_append)
qed simp

lemma unit_costs_mset: "mset ps = mset qs \<Longrightarrow> mset (unit_costs ps) = mset (unit_costs qs)"
proof -
  have "mset (unit_costs ps) = (\<Sum>p\<in>#mset ps. mset (replicate (nat (snd p)) (fst p)))" for ps
    by (induction ps) (auto simp: unit_costs_def)
  then show "mset ps = mset qs \<Longrightarrow> mset (unit_costs ps) = mset (unit_costs qs)" by simp
qed

lemma same_unit_costs:
  assumes "mset ps = mset qs" "dear_first ps" "dear_first qs"
  shows "unit_costs ps = unit_costs qs"
proof -
  have "mset (rev (unit_costs ps)) = mset (rev (unit_costs qs))" using unit_costs_mset [OF assms(1)] by simp
  then have "sort (rev (unit_costs qs)) = rev (unit_costs ps)" using unit_costs_sorted [OF assms(2)] by (intro properties_for_sort) simp_all
  then have "rev (unit_costs qs) = rev (unit_costs ps)" using unit_costs_sorted [OF assms(3)] by (simp add: sorted_sort_id)
  then show ?thesis by simp
qed

subsection \<open>The least over every fill\<close>

lemma takeWhile_negative_sum: "sorted zs \<Longrightarrow> sum_list (takeWhile (\<lambda>v. v < 0) zs) = (\<Sum>z\<leftarrow>zs. min 0 z)" for zs :: "int list"
proof (induction zs)
  case (Cons z zs)
  have "(\<Sum>z\<leftarrow>zs. min 0 z) = 0" if "0 \<le> z"
  proof -
    have "\<forall>x\<in>set zs. min 0 x = 0" using Cons.prems that by auto
    then show ?thesis by (induction zs) simp_all
  qed
  then show ?case using Cons by auto
qed simp

lemma sum_take_upto:
  "p \<le> n \<Longrightarrow> sum_list (take p xs) = (\<Sum>i<n. if i < p \<and> i < length xs then xs ! i else 0)" for xs :: "int list"
proof -
  assume "p \<le> n"
  have "sum_list (take p xs) = (\<Sum>i<min (length xs) p. xs ! i)" by (simp add: sum_list_sum_nth atLeast0LessThan)
  also have "\<dots> = (\<Sum>i<n. if i < p \<and> i < length xs then xs ! i else 0)"
    by (rule sum.mono_neutral_cong_left) (use \<open>p \<le> n\<close> in auto)
  finally show ?thesis .
qed

lemma pairs_at_most:
  assumes "\<forall>x\<in>set xs. x \<le> k" "\<forall>y\<in>set ys. y \<le> k" "0 \<le> k"
  shows "(\<Sum>z\<leftarrow>map2 (\<lambda>a b. k - a - b) xs ys. min 0 z) \<le> k * int (max p g) - sum_list (take p xs) - sum_list (take g ys)"
proof -
  let ?m = "min (length xs) (length ys)" and ?n = "max p g"
  let ?u = "\<lambda>i. if i < ?m then min 0 (k - xs ! i - ys ! i) else 0"
  have "(\<Sum>z\<leftarrow>map2 (\<lambda>a b. k - a - b) xs ys. min 0 z) = (\<Sum>i<?m. ?u i)"
    by (simp add: sum_list_sum_nth atLeast0LessThan)
  also have "\<dots> = (\<Sum>i<max ?m ?n. ?u i)" by (rule sum.mono_neutral_left) auto
  also have "\<dots> \<le> (\<Sum>i<?n. ?u i)"
    using sum_mono2 [of "{..<max ?m ?n}" "{..<?n}" "\<lambda>i. - ?u i"] by (auto simp: sum_negf)
  also have "\<dots> \<le> (\<Sum>i<?n. k - (if i < p \<and> i < length xs then xs ! i else 0) - (if i < g \<and> i < length ys then ys ! i else 0))"
  proof (intro sum_mono)
    fix i
    have "i < length xs \<Longrightarrow> xs ! i \<le> k" "i < length ys \<Longrightarrow> ys ! i \<le> k" using assms(1,2) by simp_all
    then show "?u i \<le> k - (if i < p \<and> i < length xs then xs ! i else 0) - (if i < g \<and> i < length ys then ys ! i else 0)"
      using assms(3) by (auto simp: min_def)
  qed
  also have "\<dots> = k * int ?n - sum_list (take p xs) - sum_list (take g ys)"
    by (simp add: sum_take_upto [of p ?n xs] sum_take_upto [of g ?n ys] sum_subtractf mult.commute)
  finally show ?thesis .
qed

text \<open>No choice of lots costs more than the dearest ones.\<close>

lemma dearest_lots:
  fixes as :: "int list"
  assumes "sorted (rev as)" "F \<subseteq># mset as" "\<forall>a\<in>set as. 0 \<le> a"
  shows "\<Sum>\<^sub># F \<le> sum_list (take (size F) as)"
  using assms
proof (induction as arbitrary: F)
  case (Cons a as)
  have so: "sorted (rev as)" "\<forall>x\<in>set as. x \<le> a" "\<forall>x\<in>set as. 0 \<le> x" "0 \<le> a" using Cons.prems by (auto simp: sorted_append)
  show ?case
  proof (cases "a \<in># F")
    case True
    then obtain G where F: "F = add_mset a G" by (metis multi_member_split)
    then have "\<Sum>\<^sub># G \<le> sum_list (take (size G) as)" using Cons.IH so Cons.prems(2) by simp
    then show ?thesis by (simp add: F)
  next
    case False
    have sub: "F \<subseteq># mset as"
    proof (rule mset_subset_eqI)
      show "count F x \<le> count (mset as) x" for x
        using mset_subset_eq_count [OF Cons.prems(2), of x] False by (cases "x = a") (auto simp: not_in_iff)
    qed
    have "sum_list (take n as) \<le> sum_list (take n (a # as))" for n
    proof (cases n)
      case (Suc j)
      have "sum_list (take (Suc j) as) \<le> sum_list (take j as) + a"
        using so by (cases "j < length as") (auto simp: take_Suc_conv_app_nth)
      then show ?thesis by (simp add: Suc)
    qed simp
    then show ?thesis using Cons.IH [OF so(1) sub so(3)] order_trans by blast
  qed
qed simp

lemma sorted_unit_pairs:
  fixes k :: int
  assumes "sorted (rev as)" "sorted (rev bs)"
  shows "sorted (map2 (\<lambda>a b. k - a - b) as bs)"
  unfolding sorted_iff_nth_mono
proof (intro allI impI)
  fix i j assume ij: "i \<le> j" "j < length (map2 (\<lambda>a b. k - a - b) as bs)"
  have "as ! j \<le> as ! i" "bs ! j \<le> bs ! i"
    using assms ij by (auto simp: sorted_rev_iff_nth_mono)
  then show "map2 (\<lambda>a b. k - a - b) as bs ! i \<le> map2 (\<lambda>a b. k - a - b) as bs ! j" using ij by simp
qed

lemma sorted_rev_drop: "sorted (rev as) \<Longrightarrow> sorted (rev (drop n as))"
  by (simp add: rev_drop sorted_wrt_take)

lemma least_of_lower:
  assumes "sorted (rev as)" "sorted (rev bs)" "\<forall>a\<in>set as. 0 \<le> a \<and> a \<le> k" "\<forall>b\<in>set bs. 0 \<le> b \<and> b \<le> k" "0 \<le> k"
    "F \<subseteq># mset as" "G \<subseteq># mset bs"
  shows "least_of k n as bs \<le> k * max (int (size G)) (int (size F) - int n) - \<Sum>\<^sub># F - \<Sum>\<^sub># G"
proof -
  let ?p = "size F - n" and ?as = "drop n as"
  have "pair_sum k ?as bs = (\<Sum>z\<leftarrow>map2 (\<lambda>a b. k - a - b) ?as bs. min 0 z)"
    unfolding pair_sum_def by (rule takeWhile_negative_sum) (rule sorted_unit_pairs [OF sorted_rev_drop [OF assms(1)] assms(2)])
  also have "\<dots> \<le> k * int (max ?p (size G)) - sum_list (take ?p ?as) - sum_list (take (size G) bs)"
    by (rule pairs_at_most) (use assms(3-5) in \<open>auto dest: in_set_dropD\<close>)
  finally have p: "pair_sum k ?as bs \<le> k * int (max ?p (size G)) - sum_list (take ?p ?as) - sum_list (take (size G) bs)" .
  have "sum_list (take (size F) as) \<le> sum_list (take n as) + sum_list (take ?p ?as)"
  proof (cases "size F \<le> n")
    case True
    have "take n as = take (size F) as @ take (n - size F) (drop (size F) as)" using True by (metis le_add_diff_inverse take_add)
    moreover have "0 \<le> sum_list (take (n - size F) (drop (size F) as))"
      by (rule sum_list_nonneg) (use assms(3) in \<open>auto dest!: in_set_takeD in_set_dropD\<close>)
    ultimately show ?thesis using True by simp
  next
    case False
    then show ?thesis using take_add [of n ?p as] by simp
  qed
  moreover have "\<Sum>\<^sub># F \<le> sum_list (take (size F) as)" "\<Sum>\<^sub># G \<le> sum_list (take (size G) bs)"
    by (rule dearest_lots; use assms in simp)+
  moreover have mx: "int (max ?p (size G)) = max (int (size G)) (int (size F) - int n)" by auto
  ultimately show ?thesis using p [unfolded mx] unfolding least_of_def by linarith
qed

lemma least_of_reached:
  obtains F G where "F \<subseteq># mset as" "G \<subseteq># mset bs" "least_of k n as bs = k * max (int (size G)) (int (size F) - int n) - \<Sum>\<^sub># F - \<Sum>\<^sub># G"
proof -
  define zs where "zs = map2 (\<lambda>a b. k - a - b) (drop n as) bs"
  define p where "p = length (takeWhile (\<lambda>v. v < 0) zs)"
  have p: "p \<le> length as - n" "p \<le> length bs" using length_takeWhile_le [of "\<lambda>v. v < 0" zs] by (simp_all add: p_def zs_def)
  have "takeWhile (\<lambda>v. v < 0) zs = take p zs" unfolding p_def by (rule takeWhile_eq_take)
  then have ps: "pair_sum k (drop n as) bs = int p * k - sum_list (take p (drop n as)) - sum_list (take p bs)"
    unfolding pair_sum_def zs_def [symmetric] using p
    by (simp add: zs_def take_map take_zip sum_list_sum_nth atLeast0LessThan sum_subtractf)
  let ?F = "mset (take (n + p) as)" and ?G = "mset (take p bs)"
  have "?F \<subseteq># mset as" "?G \<subseteq># mset bs"
    by (metis append_take_drop_id mset_append mset_subset_eq_add_left)+
  moreover have "max (int (size ?G)) (int (size ?F) - int n) = int p" using p by auto
  moreover have "\<Sum>\<^sub># ?F = sum_list (take n as) + sum_list (take p (drop n as))" "\<Sum>\<^sub># ?G = sum_list (take p bs)"
    by (simp_all only: sum_mset_sum_list take_add sum_list_append)
  ultimately show thesis by (intro that) (auto simp: least_of_def ps mult.commute)
qed

text \<open>
  The least a step can hold: of a step with \<open>l\<close> long and \<open>s \<le> l\<close> short lots, the greedy walk over the resting lots,
  costliest first, answers the least over every choice of fills, of any lots of either side in any amounts, of what
  they add to the backing held, \<open>k\<close> times the larger side, less what they cost. Some choice reaches it.
\<close>

theorem step_least_is_the_least:
  assumes "dear_first offset" "dear_first other" "\<forall>(c, q)\<in>set offset \<union> set other. 0 \<le> c \<and> c \<le> k \<and> 0 < q" "s \<le> l" "0 \<le> k"
    "sum_list (unit_costs offset) + sum_list (unit_costs other) < 2 ^ 127"
  shows "\<exists>r. step_least offset other (l - s) k = Some r
    \<and> (\<forall>F G. F \<subseteq># mset (unit_costs offset) \<and> G \<subseteq># mset (unit_costs other) \<longrightarrow>
         r \<le> k * max (l + int (size G)) (s + int (size F)) - k * max l s - \<Sum>\<^sub># F - \<Sum>\<^sub># G)
    \<and> (\<exists>F G. F \<subseteq># mset (unit_costs offset) \<and> G \<subseteq># mset (unit_costs other)
         \<and> r = k * max (l + int (size G)) (s + int (size F)) - k * max l s - \<Sum>\<^sub># F - \<Sum>\<^sub># G)"
proof -
  let ?A = "unit_costs offset" and ?B = "unit_costs other" and ?n = "nat (l - s)"
  let ?r = "least_of k ?n ?A ?B"
  have ok: "lots_ok offset" "lots_ok other" using assms(3) by (auto simp: lots_ok_def)
  have A: "\<forall>a\<in>set ?A. 0 \<le> a \<and> a \<le> k" and B: "\<forall>b\<in>set ?B. 0 \<le> b \<and> b \<le> k"
    using assms(3) by (auto dest!: unit_costs_set)
  have held: "k * max (l + int g) (s + int f) - k * max l s = k * max (int g) (int f - int ?n)" for f g
  proof -
    have "max (l + int g) (s + int f) - max l s = max (int g) (int f - int ?n)" using assms(4) by auto
    then show ?thesis by (simp flip: right_diff_distrib)
  qed
  obtain F G where FG: "F \<subseteq># mset ?A" "G \<subseteq># mset ?B" "?r = k * max (int (size G)) (int (size F) - int ?n) - \<Sum>\<^sub># F - \<Sum>\<^sub># G"
    by (rule least_of_reached)
  have le: "\<Sum>\<^sub># H \<le> sum_list xs" if h: "H \<subseteq># mset xs" "\<forall>x\<in>set xs. 0 \<le> x \<and> x \<le> k" for H xs
  proof -
    obtain R where R: "mset xs = H + R" using h(1) by (auto simp: mset_subset_eq_exists_conv)
    then have "set_mset R \<subseteq> set xs" by (metis set_mset_mset set_mset_union sup_ge2)
    then have "\<forall>x\<in>#R. 0 \<le> x" using h(2) by blast
    then have "0 \<le> \<Sum>\<^sub># R" by (induction R) auto
    moreover have "sum_list xs = \<Sum>\<^sub># H + \<Sum>\<^sub># R" using R by (simp flip: sum_mset_sum_list)
    ultimately show ?thesis by simp
  qed
  have "0 \<le> k * max (int (size G)) (int (size F) - int ?n)" using assms(5) by simp
  then have "- (2 ^ 127) < ?r" using FG(3) le [OF FG(1) A] le [OF FG(2) B] assms(6) by linarith
  then have "step_least offset other (l - s) k = Some ?r" using ok assms(4) by (intro step_least_units) simp_all
  moreover have "?r \<le> k * max (int (size G)) (int (size F) - int ?n) - \<Sum>\<^sub># F - \<Sum>\<^sub># G" if "F \<subseteq># mset ?A" "G \<subseteq># mset ?B" for F G
    by (rule least_of_lower [OF unit_costs_sorted [OF assms(1)] unit_costs_sorted [OF assms(2)] A B assms(5) that])
  ultimately show ?thesis unfolding held using FG by blast
qed

theorem step_least_is_the_least_witness:
  "\<exists>r. step_least [(60, 3), (40, 5)] [(50, 2)] (6 - 4) 100 = Some r
     \<and> (\<exists>F G. r = 100 * max (6 + int (size G)) (4 + int (size F)) - 100 * max 6 4 - \<Sum>\<^sub># F - \<Sum>\<^sub># G)"
proof -
  have "dear_first [(60, 3), (40, 5)]" "dear_first [(50, 2)]" by (simp_all add: dear_first_def)
  moreover have "sum_list (unit_costs [(60, 3), (40, 5)]) + sum_list (unit_costs [(50, 2)]) < 2 ^ 127"
    by (simp add: sum_list_replicate)
  ultimately show ?thesis using step_least_is_the_least [of "[(60, 3), (40, 5)]" "[(50, 2)]" 100 4 6] by auto
qed

end
