(* ===== verification/Heads_Time.thy ===== *)
theory Heads_Time
  imports Rust_Base
begin

text \<open>
  Time in the oracle's heads crate (\<open>oracle/crates/heads/src/time.rs\<close>): business days and the
  settlement window, the running time integral of a delegation, and calendar months and quarters.
  The oracle workspace is built without overflow checks, so a plain operator that can leave its
  range wraps. Day counts come from 64-bit seconds and are far inside \<open>i64\<close>; they are \<open>int\<close>.
\<close>

definition DAY :: u64 where
  "DAY = 86400"

lemma DAY_pos [simp]: "0 < DAY"
  by (simp add: DAY_def)

definition is_business_day :: "u64 \<Rightarrow> bool" where
  "is_business_day ts \<longleftrightarrow> (ts div DAY + 3) mod 7 < 5"

function window_walk :: "u64 \<Rightarrow> u8 \<Rightarrow> u64" where
  "window_walk cursor remaining =
     (if 0 < remaining \<and> DAY \<le> cursor
      then let c = cursor - DAY
           in window_walk c (if is_business_day c then remaining - 1 else remaining)
      else cursor)"
  by pat_completeness auto
termination
  by (relation "measure fst") (auto simp: DAY_def)

declare window_walk.simps [simp del]

definition settlement_window_start :: "u64 \<Rightarrow> u8 \<Rightarrow> u64" where
  "settlement_window_start expiry_ts business_days = window_walk expiry_ts business_days"

definition integral :: "u64 \<Rightarrow> u64 \<Rightarrow> u64 \<Rightarrow> u128" where
  "integral amount from to = amount * (to - from)"

record accrual =
  acc_amount :: u64
  acc_since :: u64
  acc_integral :: u128

definition accrual_at :: "accrual \<Rightarrow> u64 \<Rightarrow> u128" where
  "accrual_at a t = wrapping_add 128 (acc_integral a) (integral (acc_amount a) (acc_since a) t)"

definition accrual_advance :: "accrual \<Rightarrow> u64 \<Rightarrow> accrual" where
  "accrual_advance a now =
     (if now > acc_since a then a\<lparr>acc_integral := accrual_at a now, acc_since := now\<rparr> else a)"

definition accrual_set :: "accrual \<Rightarrow> u64 \<Rightarrow> u64 \<Rightarrow> accrual" where
  "accrual_set a amount now = (accrual_advance a now)\<lparr>acc_amount := amount\<rparr>"

definition average :: "u128 \<Rightarrow> u64 \<Rightarrow> u64" where
  "average area window_secs = (if window_secs = 0 then 0 else saturate 64 (area div window_secs))"

definition civil_from_days :: "int \<Rightarrow> int \<times> nat \<times> nat" where
  "civil_from_days days =
     (let z = days + 719468;
          era = z div 146097;
          doe = z mod 146097;
          yoe = (doe - doe div 1460 + doe div 36524 - doe div 146096) div 365;
          doy = doe - (365 * yoe + yoe div 4 - yoe div 100);
          mp = (5 * doy + 2) div 153;
          day = nat (doy - (153 * mp + 2) div 5 + 1);
          month = nat (if mp < 10 then mp + 3 else mp - 9);
          year = yoe + era * 400 + (if month \<le> 2 then 1 else 0)
      in (year, month, day))"

definition days_from_civil :: "int \<Rightarrow> nat \<Rightarrow> nat \<Rightarrow> int" where
  "days_from_civil year month day =
     (let y = (if month \<le> 2 then year - 1 else year);
          era = y div 400;
          yoe = y mod 400;
          m = int month;
          doy = (153 * (if m > 2 then m - 3 else m + 9) + 2) div 5 + int day - 1;
          doe = yoe * 365 + yoe div 4 - yoe div 100 + doy
      in era * 146097 + doe - 719468)"

definition month_id :: "u64 \<Rightarrow> u32" where
  "month_id ts =
     (let (year, month, _) = civil_from_days (int (ts div DAY))
      in unsigned_of 32 (year * 12 + int month - 1))"

definition month_start :: "u32 \<Rightarrow> u64" where
  "month_start mid =
     (let year = int (mid div 12); month = mid mod 12 + 1
      in cast 64 (unsigned_of 64 (days_from_civil year month 1) * DAY))"

definition contract_quarter :: "u64 \<Rightarrow> int \<times> u8" where
  "contract_quarter expiry_ts =
     (let (year, month, _) = civil_from_days (int ((expiry_ts - 1) div DAY))
      in (year, (month - 1) div 3 + 1))"

definition quarter_start :: "int \<Rightarrow> u8 \<Rightarrow> u64" where
  "quarter_start year quarter =
     (let month = (min (max quarter 1) 4 - 1) * 3 + 1
      in cast 64 (unsigned_of 64 (days_from_civil year month 1) * DAY))"

definition is_quarter_boundary :: "u64 \<Rightarrow> bool" where
  "is_quarter_boundary ts =
     (let (_, month, day) = civil_from_days (int (ts div DAY))
      in ts mod DAY = 0 \<and> day = 1 \<and> (month - 1) mod 3 = 0)"

subsection \<open>The settlement window\<close>

text \<open>The business days among the \<open>n\<close> days before \<open>ts\<close>.\<close>

definition business_days_back :: "u64 \<Rightarrow> nat \<Rightarrow> nat" where
  "business_days_back ts n = length (filter (\<lambda>i. is_business_day (ts - Suc i * DAY)) [0..<n])"

lemma business_days_back_0 [simp]: "business_days_back ts 0 = 0"
  by (simp add: business_days_back_def)

lemma business_days_back_Suc:
  "business_days_back ts (Suc n) =
     (if is_business_day (ts - DAY) then 1 else 0) + business_days_back (ts - DAY) n"
proof -
  have "[0..<Suc n] = 0 # map Suc [0..<n]" by (simp add: map_Suc_upt upt_conv_Cons del: upt_Suc)
  then show ?thesis
    by (simp add: business_days_back_def filter_map comp_def diff_diff_left del: upt_Suc)
qed

lemma business_days_back_add:
  "business_days_back ts (m + n) = business_days_back ts m + business_days_back (ts - m * DAY) n"
proof (induction m arbitrary: ts)
  case (Suc m)
  then show ?case by (simp add: business_days_back_Suc diff_diff_left)
qed simp

lemma window_walk_stop: "r = 0 \<or> c < DAY \<Longrightarrow> window_walk c r = c"
  by (subst window_walk.simps) auto

lemma window_walk_step:
  "0 < r \<Longrightarrow> DAY \<le> c \<Longrightarrow>
   window_walk c r = window_walk (c - DAY) (if is_business_day (c - DAY) then r - 1 else r)"
  by (subst window_walk.simps) (simp add: Let_def)

lemma window_walk_spec:
  "\<exists>n. window_walk c r = c - n * DAY \<and> n * DAY \<le> c \<and> business_days_back c n \<le> r
     \<and> (business_days_back c n = r \<or> window_walk c r < DAY)
     \<and> (0 < r \<longrightarrow> business_days_back c n = r \<longrightarrow> is_business_day (window_walk c r))"
proof (induction c r rule: window_walk.induct)
  case (1 c r)
  show ?case
  proof (cases "0 < r \<and> DAY \<le> c")
    case False
    then have "window_walk c r = c" by (intro window_walk_stop) auto
    with False show ?thesis by (intro exI [of _ 0]) auto
  next
    case True
    define c' r' where "c' = c - DAY" and "r' = (if is_business_day c' then r - 1 else r)"
    from "1.IH" [OF True refl] obtain n where n:
      "window_walk c' r' = c' - n * DAY" "n * DAY \<le> c'" "business_days_back c' n \<le> r'"
      "business_days_back c' n = r' \<or> window_walk c' r' < DAY"
      "0 < r' \<longrightarrow> business_days_back c' n = r' \<longrightarrow> is_business_day (window_walk c' r')"
      by (elim exE conjE) (simp only: c'_def r'_def)
    have eq: "window_walk c r = window_walk c' r'"
      using True by (simp add: window_walk_step c'_def r'_def)
    have bd: "business_days_back c (Suc n) =
        (if is_business_day c' then 1 else 0) + business_days_back c' n"
      unfolding c'_def by (rule business_days_back_Suc)
    have last: "is_business_day (window_walk c' r')" if "business_days_back c (Suc n) = r"
    proof (cases "0 < r'")
      case True
      with that n(5) bd show ?thesis by (auto simp: r'_def split: if_splits)
    next
      case False
      with True have "is_business_day c'" "r' = 0" by (auto simp: r'_def split: if_splits)
      then show ?thesis by (simp add: window_walk_stop)
    qed
    have "c - Suc n * DAY = c' - n * DAY" by (simp add: c'_def)
    moreover have "Suc n * DAY \<le> c" using True n(2) unfolding c'_def mult_Suc by linarith
    moreover have "business_days_back c (Suc n) \<le> r"
      using bd n(3) True by (auto simp: r'_def split: if_splits)
    moreover have "business_days_back c (Suc n) = r \<or> window_walk c r < DAY"
      using bd n(4) eq True by (auto simp: r'_def split: if_splits)
    ultimately show ?thesis
      using last eq n(1) by (intro exI [of _ "Suc n"]) simp
  qed
qed

lemma day_back: "k * DAY \<le> ts \<Longrightarrow> (ts - k * DAY) div DAY = ts div DAY - k"
proof -
  assume "k * DAY \<le> ts"
  then have "ts = (ts - k * DAY) + k * DAY" by simp
  then have "ts div DAY = k + (ts - k * DAY) div DAY" by (metis DAY_pos div_mult_self1 less_numeral_extra(3))
  then show ?thesis by simp
qed

lemma three_days_have_a_business_day:
  assumes "3 * DAY \<le> ts"
  shows "1 \<le> business_days_back ts 3"
proof -
  define d where "d = ts div DAY"
  have "3 \<le> d" using assms div_le_mono [of "3 * DAY" ts DAY] by (simp add: d_def)
  then obtain e where e: "d = e + 3" using le_Suc_ex by (metis add.commute)
  have "e mod 7 \<in> {0, 1, 2, 3, 4, 5, 6}" by auto
  then have "(e mod 7 + 5) mod 7 < 5 \<or> (e mod 7 + 4) mod 7 < 5 \<or> (e mod 7 + 3) mod 7 < 5" by auto
  then have "(d - 1 + 3) mod 7 < 5 \<or> (d - 2 + 3) mod 7 < 5 \<or> (d - 3 + 3) mod 7 < 5"
    by (simp add: mod_simps e add.commute)
  moreover have "business_days_back ts 3 =
      (if is_business_day (ts - DAY) then 1 else 0) + ((if is_business_day (ts - DAY - DAY) then 1 else 0)
      + ((if is_business_day (ts - DAY - DAY - DAY) then 1 else 0) + 0))"
    by (simp only: numeral_3_eq_3 business_days_back_Suc business_days_back_0)
  moreover have "ts - DAY - DAY = ts - 2 * DAY" "ts - DAY - DAY - DAY = ts - 3 * DAY" by simp_all
  then have "(ts - DAY) div DAY = d - 1" "(ts - DAY - DAY) div DAY = d - 2"
    "(ts - DAY - DAY - DAY) div DAY = d - 3"
    using assms day_back [of 1 ts] day_back [of 2 ts] day_back [of 3 ts] by (simp_all add: d_def)
  ultimately show ?thesis by (simp only: is_business_day_def) auto
qed

lemma enough_business_days:
  "3 * n * DAY \<le> ts \<Longrightarrow> n \<le> business_days_back ts (3 * n)"
proof (induction n arbitrary: ts)
  case (Suc n)
  have e: "3 * Suc n = 3 + 3 * n" by simp
  have "3 * DAY \<le> ts" "3 * n * DAY \<le> ts - 3 * DAY" using Suc.prems by (simp_all add: algebra_simps)
  with Suc.IH [of "ts - 3 * DAY"] three_days_have_a_business_day [of ts]
  show ?case unfolding e business_days_back_add by simp
qed simp

lemma business_days_back_mono: "m \<le> n \<Longrightarrow> business_days_back ts m \<le> business_days_back ts n"
  by (metis business_days_back_add le_add1 le_add_diff_inverse)

text \<open>
  C26. The settlement window of a contract: counting back from the expiry, the start is a whole number
  of days before it, the days between hold exactly the required number of business days, and the start
  is itself a business day, whenever the expiry leaves room (three days for each).
\<close>

theorem settlement_window_has_its_business_days:
  assumes "3 * business_days * DAY \<le> expiry" "0 < business_days"
  shows "\<exists>n. settlement_window_start expiry business_days = expiry - n * DAY \<and> n * DAY \<le> expiry
           \<and> business_days_back expiry n = business_days
           \<and> is_business_day (settlement_window_start expiry business_days)"
proof -
  obtain n where n: "window_walk expiry business_days = expiry - n * DAY" "n * DAY \<le> expiry"
    "business_days_back expiry n \<le> business_days"
    "business_days_back expiry n = business_days \<or> window_walk expiry business_days < DAY"
    "0 < business_days \<longrightarrow> business_days_back expiry n = business_days
       \<longrightarrow> is_business_day (window_walk expiry business_days)"
    using window_walk_spec by blast
  have "business_days_back expiry n = business_days"
  proof (rule ccontr)
    assume ne: "business_days_back expiry n \<noteq> business_days"
    with n(1,2,4) have "expiry < Suc n * DAY" by auto
    with assms(1) have "3 * business_days * DAY < Suc n * DAY" by simp
    then have "3 * business_days \<le> n" by (simp only: mult_less_cancel2 less_Suc_eq_le)
    from business_days_back_mono [OF this, of expiry] enough_business_days [OF assms(1)] n(3) ne
    show False by simp
  qed
  with n assms(2) show ?thesis by (auto simp: settlement_window_start_def)
qed

theorem settlement_window_has_its_business_days_witness:
  "(3::nat) * 5 * DAY \<le> 1735689600 \<and> (0::nat) < 5
   \<and> (\<exists>n. settlement_window_start 1735689600 5 = 1735689600 - n * DAY
        \<and> business_days_back 1735689600 n = 5)"
  using settlement_window_has_its_business_days [of 5 1735689600]
  by (auto simp: DAY_def)

subsection \<open>Time-weighted delegation\<close>

text \<open>The area under a step function: \<open>amount\<close> from \<open>since\<close>, changed at each later time, up to \<open>t\<close>.\<close>

fun area :: "nat \<Rightarrow> nat \<Rightarrow> (nat \<times> nat) list \<Rightarrow> nat \<Rightarrow> nat" where
  "area amount since [] t = amount * (t - since)"
| "area amount since ((amount', now) # es) t = amount * (now - since) + area amount' now es t"

lemma accrual_set_fields:
  assumes "acc_since a \<le> now"
  shows "acc_amount (accrual_set a x now) = x" "acc_since (accrual_set a x now) = now"
    "acc_integral (accrual_set a x now) mod 2 ^ 128 =
       (acc_integral a + acc_amount a * (now - acc_since a)) mod 2 ^ 128"
  using assms
  by (auto simp: accrual_set_def accrual_advance_def accrual_at_def wrapping_add_def integral_def)

text \<open>
  C27. A delegation is weighted by the time it was held: after any sequence of changes at
  non-decreasing times, the accrual at \<open>t\<close> is its starting integral plus each amount times the seconds
  it stood (reduced to 128 bits).
\<close>

theorem accrual_is_the_area:
  assumes "sorted (acc_since a # map snd es @ [t])"
  shows "accrual_at (fold (\<lambda>(x, now) a. accrual_set a x now) es a) t =
    (acc_integral a + area (acc_amount a) (acc_since a) es t) mod 2 ^ 128"
  using assms
proof (induction es arbitrary: a)
  case Nil
  then show ?case by (simp add: accrual_at_def wrapping_add_def integral_def)
next
  case (Cons e es)
  obtain x now where e: "e = (x, now)" by (cases e)
  with Cons.prems have le: "acc_since a \<le> now" by simp
  note F = accrual_set_fields [OF le, of x]
  have "sorted (acc_since (accrual_set a x now) # map snd es @ [t])"
    using Cons.prems by (simp add: e F(2))
  from Cons.IH [OF this] have "accrual_at (fold (\<lambda>(x, now) a. accrual_set a x now) es (accrual_set a x now)) t
      = (acc_integral (accrual_set a x now) + area x now es t) mod 2 ^ 128"
    by (simp only: F(1,2))
  also have "\<dots> = (acc_integral (accrual_set a x now) mod 2 ^ 128 + area x now es t) mod 2 ^ 128"
    by (simp only: mod_add_left_eq)
  also have "\<dots> = (acc_integral a + (acc_amount a * (now - acc_since a) + area x now es t)) mod 2 ^ 128"
    by (simp only: F(3) mod_add_left_eq add.assoc)
  finally show ?case by (simp add: e)
qed

theorem accrual_is_the_area_witness:
  "sorted ([0, 10, 20, 30] :: nat list)
   \<and> accrual_at (accrual_set (accrual_set \<lparr>acc_amount = 5, acc_since = 0, acc_integral = 0\<rparr> 7 10) 2 20) 30
     = 5 * 10 + 7 * 10 + 2 * 10"
  using accrual_is_the_area [of "\<lparr>acc_amount = 5, acc_since = 0, acc_integral = 0\<rparr>" "[(7, 10), (2, 20)]" 30]
  by simp

subsection \<open>The calendar\<close>

definition year_of_doe :: "int \<Rightarrow> int" where
  "year_of_doe doe = doe - doe div 1460 + doe div 36524 - doe div 146096"

definition year_day :: "int \<Rightarrow> int" where
  "year_day y = 365 * y + y div 4 - y div 100 + y div 400"

lemma div_step:
  assumes "(a::int) \<le> b" "0 < k"
  shows "b div k - a div k \<le> b - a"
proof -
  have "1 * (b - a) \<le> k * (b - a)" using assms by (intro mult_right_mono) auto
  then have "b div k \<le> (a + k * (b - a)) div k" using assms(2) by (intro zdiv_mono1) auto
  then show ?thesis using assms(2) by simp
qed

lemma year_of_doe_mono:
  assumes "0 \<le> a" "a \<le> b" "b \<le> 146096"
  shows "year_of_doe a \<le> year_of_doe b"
proof -
  have "b div 1460 - a div 1460 \<le> b - a" using assms(2) by (rule div_step) simp
  moreover have "a div 36524 - a div 146096 \<le> b div 36524 - b div 146096"
    using assms zdiv_mono1 [OF assms(2), of 36524]
    by (cases "b = 146096"; cases "a = 146096") auto
  ultimately show ?thesis by (simp add: year_of_doe_def)
qed

lemma year_checks:
  "list_all (\<lambda>y. year_of_doe (year_day y) div 365 = y \<and> year_of_doe (year_day (y + 1) - 1) div 365 = y
      \<and> year_day y + 365 \<le> year_day (y + 1) \<and> year_day (y + 1) \<le> year_day y + 366) [0..399]"
  by code_simp


lemma year_facts:
  assumes "0 \<le> y" "y < 400"
  shows "year_of_doe (year_day y) div 365 = y" "year_of_doe (year_day (y + 1) - 1) div 365 = y"
    "year_day y + 365 \<le> year_day (y + 1)" "year_day (y + 1) \<le> year_day y + 366"
  using year_checks assms by (auto simp: list_all_iff)

lemma year_day_mono: "0 \<le> x \<Longrightarrow> x \<le> y \<Longrightarrow> y \<le> 400 \<Longrightarrow> year_day x \<le> year_day y"
proof (induction "nat (y - x)" arbitrary: x)
  case (Suc n)
  then have "n = nat (y - (x + 1))" "0 \<le> x + 1" "x + 1 \<le> y" "x < 400" by linarith+
  with Suc.hyps(1) [of "x + 1"] Suc.prems have "year_day (x + 1) \<le> year_day y" by blast
  with year_facts(3) [of x] Suc.prems \<open>x < 400\<close> show ?case by linarith
qed auto

lemma year_recovered:
  assumes "0 \<le> y" "y < 400" "year_day y \<le> doe" "doe < year_day (y + 1)"
  shows "year_of_doe doe div 365 = y"
proof -
  have "year_day 0 \<le> year_day y" "year_day (y + 1) \<le> year_day 400"
    using assms by (intro year_day_mono; linarith)+
  moreover have "year_day 0 = 0" "year_day 400 = 146097" by (simp_all add: year_day_def)
  ultimately have r: "0 \<le> year_day y" "year_day (y + 1) \<le> 146097" by simp_all
  have "year_of_doe (year_day y) \<le> year_of_doe doe" "year_of_doe doe \<le> year_of_doe (year_day (y + 1) - 1)"
    using assms r by (intro year_of_doe_mono; linarith)+
  from this [THEN zdiv_mono1, of 365] year_facts(1,2) [OF assms(1,2)] show ?thesis by linarith
qed

lemma year_exists:
  assumes "0 \<le> doe" "doe < 146097"
  shows "\<exists>y\<ge>0. y < 400 \<and> year_day y \<le> doe \<and> doe < year_day (y + 1)"
proof -
  have "\<exists>y\<ge>0. y < int n \<and> year_day y \<le> doe \<and> doe < year_day (y + 1)"
    if "doe < year_day (int n)" "n \<le> 400" for n
    using that
  proof (induction n)
    case 0
    then show ?case using assms by (simp add: year_day_def)
  next
    case (Suc n)
    show ?case
    proof (cases "doe < year_day (int n)")
      case True
      with Suc obtain y where "0 \<le> y" "y < int n" "year_day y \<le> doe" "doe < year_day (y + 1)" by auto
      then show ?thesis by (intro exI [of _ y]) auto
    next
      case False
      with Suc.prems show ?thesis by (intro exI [of _ "int n"]) (auto simp: add.commute)
    qed
  qed
  from this [of 400] assms show ?thesis by (simp add: year_day_def)
qed

text \<open>The number of days of a month, and the dates of the proleptic Gregorian calendar.\<close>

definition leap :: "int \<Rightarrow> bool" where
  "leap y \<longleftrightarrow> y mod 4 = 0 \<and> (y mod 100 \<noteq> 0 \<or> y mod 400 = 0)"

definition days_in_month :: "int \<Rightarrow> nat \<Rightarrow> nat" where
  "days_in_month y m = (if m = 2 then (if leap y then 29 else 28)
     else if m \<in> {4, 6, 9, 11} then 30 else 31)"

definition valid_date :: "int \<Rightarrow> nat \<Rightarrow> nat \<Rightarrow> bool" where
  "valid_date y m d \<longleftrightarrow> 1 \<le> m \<and> m \<le> 12 \<and> 1 \<le> d \<and> d \<le> days_in_month y m"

lemma div_succ:
  assumes "0 < (k::int)"
  shows "(y + 1) div k = y div k + (if (y + 1) mod k = 0 then 1 else 0)"
proof -
  have r: "0 \<le> y mod k" "y mod k < k" using assms by simp_all
  have e: "y + 1 = (y mod k + 1) + k * (y div k)" by simp
  have q: "(y + 1) div k = y div k + (y mod k + 1) div k" "(y + 1) mod k = (y mod k + 1) mod k"
    using assms by (subst e, simp only: div_mult_self2 mod_mult_self2 less_imp_neq)+
  show ?thesis
  proof (cases "y mod k + 1 = k")
    case True
    with q assms show ?thesis by simp
  next
    case False
    with r have "0 < y mod k + 1" "y mod k + 1 < k" by linarith+
    with q show ?thesis by simp
  qed
qed

lemma leap_count:
  assumes "a' = a + (if A then 1 else 0)" "b' = b + (if B then 1 else 0)" "c' = c + (if C then 1 else 0)"
    "B \<Longrightarrow> A" "C \<Longrightarrow> B"
  shows "365 * (y + 1) + a' - b' + c' = (365 * y + a - b + c :: int) + (if A \<and> (\<not> B \<or> C) then 366 else 365)"
  using assms by (cases A; cases B; cases C) simp_all

lemma year_day_Suc: "year_day (y + 1) = year_day y + (if leap (y + 1) then 366 else 365)"
  unfolding year_day_def leap_def mod_eq_0_iff_dvd
proof (rule leap_count)
  show "4 dvd y + 1" if "100 dvd y + 1" using that by (rule dvd_trans [rotated]) simp
  show "100 dvd y + 1" if "400 dvd y + 1" using that by (rule dvd_trans [rotated]) simp
qed (simp_all only: div_succ zero_less_numeral mod_eq_0_iff_dvd)

text \<open>Months counted from March: \<open>mp = 0\<close> is March and \<open>mp = 11\<close> February.\<close>

definition month_of :: "int \<Rightarrow> nat" where
  "month_of mp = nat (if mp < 10 then mp + 3 else mp - 9)"

definition march_length :: "int \<Rightarrow> int" where
  "march_length mp = (if mp = 11 then 28 else if mp \<in> {1, 3, 6, 8} then 30 else 31)"

definition month_day :: "int \<Rightarrow> int" where
  "month_day mp = (153 * mp + 2) div 5"

lemma doy_checks:
  "list_all (\<lambda>doy. let mp = (5 * doy + 2) div 153 in
      0 \<le> mp \<and> mp \<le> 11 \<and> month_day mp \<le> doy
      \<and> (doy < 365 \<longrightarrow> doy - month_day mp < march_length mp)
      \<and> (doy = 365 \<longrightarrow> mp = 11 \<and> doy - month_day mp = 28)) [0..365]"
  by code_simp

lemma march_checks:
  "list_all (\<lambda>mp. list_all (\<lambda>d. (5 * (month_day mp + d) + 2) div 153 = mp
        \<and> 0 \<le> month_day mp + d \<and> month_day mp + d \<le> (if mp = 11 \<and> d = 28 then 365 else 364))
      [0..(if mp = 11 then 28 else march_length mp - 1)]) [0..11]"
  by code_simp

lemma doy_facts:
  assumes "0 \<le> doy" "doy \<le> 365"
  defines "mp \<equiv> (5 * doy + 2) div 153"
  shows "0 \<le> mp" "mp \<le> 11" "month_day mp \<le> doy"
    "doy < 365 \<Longrightarrow> doy - month_day mp < march_length mp"
    "doy = 365 \<Longrightarrow> mp = 11 \<and> doy - month_day mp = 28"
  using doy_checks assms unfolding list_all_iff Let_def by (auto simp: mp_def)

lemma march_facts:
  assumes "0 \<le> mp" "mp \<le> 11" "0 \<le> d" "d < (if mp = 11 then 29 else march_length mp)"
  shows "(5 * (month_day mp + d) + 2) div 153 = mp" "0 \<le> month_day mp + d"
    "month_day mp + d \<le> (if mp = 11 \<and> d = 28 then 365 else 364)"
proof -
  have "mp \<in> set [0..11]" "d \<in> set [0..(if mp = 11 then 28 else march_length mp - 1)]"
    using assms by (auto simp del: upto_rec_numeral split: if_splits)
  from march_checks [unfolded list_all_iff, THEN bspec, OF this(1), THEN bspec, OF this(2)]
  show "(5 * (month_day mp + d) + 2) div 153 = mp" "0 \<le> month_day mp + d"
    "month_day mp + d \<le> (if mp = 11 \<and> d = 28 then 365 else 364)"
    by blast+
qed

lemma leap_shift: "leap (y + 400 * era) = leap y"
proof -
  have "(y + 400 * era) mod 4 = y mod 4" using mod_mult_self2 [of y 4 "100 * era"] by simp
  moreover have "(y + 400 * era) mod 100 = y mod 100" using mod_mult_self2 [of y 100 "4 * era"] by simp
  ultimately show ?thesis by (simp add: leap_def)
qed

lemma days_in_month_march:
  assumes "0 \<le> mp" "mp \<le> 11"
  shows "int (days_in_month y (month_of mp)) = (if mp = 11 \<and> leap y then 29 else march_length mp)"
proof -
  have "mp \<in> set [0..11]" using assms by (simp only: set_upto atLeastAtMost_iff)
  then show ?thesis by (auto simp: days_in_month_def month_of_def march_length_def)
qed

lemma year_day_small: "0 \<le> y \<Longrightarrow> y < 400 \<Longrightarrow> year_day y = 365 * y + y div 4 - y div 100"
  by (simp add: year_day_def)

lemma civil_of_parts:
  assumes "0 \<le> y" "y < 400" "0 \<le> doy" "doy < year_day (y + 1) - year_day y"
  defines "mp \<equiv> (5 * doy + 2) div 153"
  shows "civil_from_days (era * 146097 + year_day y + doy - 719468) =
    (y + 400 * era + (if month_of mp \<le> 2 then 1 else 0), month_of mp, nat (doy - month_day mp + 1))"
proof -
  have b: "year_day 0 \<le> year_day y" "year_day (y + 1) \<le> year_day 400"
    using assms by (intro year_day_mono; linarith)+
  have "year_day 0 = 0" "year_day 400 = 146097" by (simp_all add: year_day_def)
  with b assms have doe: "0 \<le> year_day y + doy" "year_day y + doy < 146097" by linarith+
  have "era * 146097 + year_day y + doy - 719468 + 719468 = (year_day y + doy) + 146097 * era" by simp
  then have z: "(era * 146097 + year_day y + doy - 719468 + 719468) div 146097 = era"
    "(era * 146097 + year_day y + doy - 719468 + 719468) mod 146097 = year_day y + doy"
    using doe by (simp_all only: div_mult_self2 mod_mult_self2 div_pos_pos_trivial mod_pos_pos_trivial)
  have yoe: "(year_day y + doy - (year_day y + doy) div 1460 + (year_day y + doy) div 36524
      - (year_day y + doy) div 146096) div 365 = y"
    using year_recovered [of y "year_day y + doy"] assms by (simp add: year_of_doe_def)
  have doy: "year_day y + doy - (365 * y + y div 4 - y div 100) = doy"
    using assms by (simp add: year_day_small)
  show ?thesis
    unfolding civil_from_days_def Let_def z yoe doy
    by (simp add: month_of_def month_day_def mp_def algebra_simps)
qed

lemma days_parts:
  obtains era y doy where "d = era * 146097 + year_day y + doy - 719468"
    "0 \<le> y" "y < 400" "0 \<le> doy" "doy < year_day (y + 1) - year_day y"
proof -
  define z where "z = d + 719468"
  obtain y where y: "y \<ge> 0" "y < 400" "year_day y \<le> z mod 146097" "z mod 146097 < year_day (y + 1)"
    using year_exists [of "z mod 146097"] by auto
  have "d = z div 146097 * 146097 + year_day y + (z mod 146097 - year_day y) - 719468"
    by (simp add: z_def)
  with y show ?thesis by (intro that [of "z div 146097" y "z mod 146097 - year_day y"]) auto
qed

lemma civil_date_of_every_day:
  "case civil_from_days n of (y, m, d) \<Rightarrow> valid_date y m d \<and> days_from_civil y m d = n"
proof -
  obtain era y doy where n: "n = era * 146097 + year_day y + doy - 719468"
    and y: "0 \<le> y" "y < 400" and doy: "0 \<le> doy" "doy < year_day (y + 1) - year_day y"
    by (rule days_parts)
  define mp where "mp = (5 * doy + 2) div 153"
  have doy365: "doy \<le> 365" "doy = 365 \<Longrightarrow> leap (y + 1)"
    using doy year_day_Suc [of y] by (auto split: if_splits)
  note F = doy_facts [OF doy(1) doy365(1), folded mp_def]
  define yr where "yr = y + 400 * era + (if month_of mp \<le> 2 then 1 else 0)"
  have civ: "civil_from_days n = (yr, month_of mp, nat (doy - month_day mp + 1))"
    unfolding n mp_def yr_def by (rule civil_of_parts [OF y doy])
  have m: "1 \<le> month_of mp" "month_of mp \<le> 12" "month_of mp \<le> 2 \<longleftrightarrow> 10 \<le> mp"
    using F(1,2) by (auto simp: month_of_def)
  have "leap yr" if "doy = 365"
    using doy365(2) [OF that] F(5) [OF that] leap_shift [of "y + 1" era] m(3)
    by (simp add: yr_def algebra_simps)
  then have "doy - month_day mp < int (days_in_month yr (month_of mp))"
    using F doy365(1)
    by (cases "doy = 365") (auto simp: days_in_month_march march_length_def)
  with F m have "valid_date yr (month_of mp) (nat (doy - month_day mp + 1))"
    by (auto simp: valid_date_def)
  moreover have "days_from_civil yr (month_of mp) (nat (doy - month_day mp + 1)) = n"
  proof -
    have Y: "(if month_of mp \<le> 2 then yr - 1 else yr) = y + 400 * era" by (simp add: yr_def)
    have Ydm: "(y + 400 * era) div 400 = era" "(y + 400 * era) mod 400 = y" using y by simp_all
    have M: "(if 2 < int (month_of mp) then int (month_of mp) - 3 else int (month_of mp) + 9) = mp"
      using F(1,2) by (auto simp: month_of_def)
    have D: "int (nat (doy - month_day mp + 1)) = doy - month_day mp + 1" using F(3) by simp
    show ?thesis
      unfolding days_from_civil_def Let_def Y Ydm M D n
      using y by (simp add: year_day_small month_day_def)
  qed
  ultimately show ?thesis by (simp add: civ)
qed

lemma civil_of_valid_date:
  assumes "valid_date yr m d"
  shows "civil_from_days (days_from_civil yr m d) = (yr, m, d)"
proof -
  define Y where "Y = (if m \<le> 2 then yr - 1 else yr)"
  define era y where "era = Y div 400" and "y = Y mod 400"
  define mp where "mp = (if 2 < int m then int m - 3 else int m + 9)"
  have mp: "0 \<le> mp" "mp \<le> 11" "month_of mp = m"
    using assms by (auto simp: mp_def month_of_def valid_date_def)
  have Ye: "Y = y + 400 * era" and y: "0 \<le> y" "y < 400" by (simp_all add: era_def y_def)
  have len: "int d - 1 < (if mp = 11 \<and> leap yr then 29 else march_length mp)" "0 \<le> int d - 1"
    using assms days_in_month_march [OF mp(1,2), of yr] by (auto simp: valid_date_def mp(3))
  then have "int d - 1 < (if mp = 11 then 29 else march_length mp)"
    by (auto simp: march_length_def split: if_splits)
  note F = march_facts [OF mp(1,2) len(2) this]
  have "yr = Y + 1" if "mp = 11" using that mp by (auto simp: Y_def month_of_def)
  then have "leap (y + 1)" if "mp = 11" "int d - 1 = 28"
    using that len(1) leap_shift [of "y + 1" era] by (auto simp: Ye march_length_def algebra_simps split: if_splits)
  then have doy: "month_day mp + (int d - 1) < year_day (y + 1) - year_day y"
    using F(3) year_day_Suc [of y] by (auto split: if_splits)
  have "days_from_civil yr m d = era * 146097 + year_day y + (month_day mp + (int d - 1)) - 719468"
    unfolding days_from_civil_def Let_def Y_def [symmetric] mp_def [symmetric] era_def [symmetric] y_def [symmetric]
    using y by (simp add: year_day_small month_day_def)
  moreover have "Y + (if m \<le> 2 then 1 else 0) = yr" by (simp add: Y_def)
  ultimately show ?thesis
    using civil_of_parts [OF y F(2) doy, of era, unfolded F(1)] by (simp add: mp(3) Ye)
qed

text \<open>
  The calendar is exact: every day number is the \<open>days_from_civil\<close> of its civil date, which is a
  valid date of the proleptic Gregorian calendar, and every valid date is the date of its day number.
\<close>

theorem calendar_round_trip:
  "(case civil_from_days n of (y, m, d) \<Rightarrow> valid_date y m d \<and> days_from_civil y m d = n)
   \<and> (valid_date yr mo dy \<longrightarrow> civil_from_days (days_from_civil yr mo dy) = (yr, mo, dy))"
  using civil_date_of_every_day [of n] civil_of_valid_date [of yr mo dy] by blast

theorem calendar_round_trip_witness:
  "valid_date 2028 2 29 \<and> civil_from_days (days_from_civil 2028 2 29) = (2028, 2, 29)"
  using calendar_round_trip [of 0 2028 2 29] by (simp add: valid_date_def days_in_month_def leap_def)

lemma year_day_shift: "year_day (y + 400 * era) = year_day y + 146097 * era"
proof -
  have "(y + 400 * era) div 4 = y div 4 + 100 * era" using div_mult_self2 [of 4 y "100 * era"] by simp
  moreover have "(y + 400 * era) div 100 = y div 100 + 4 * era"
    using div_mult_self2 [of 100 y "4 * era"] by simp
  ultimately show ?thesis by (simp add: year_day_def)
qed

definition march_of :: "nat \<Rightarrow> int" where
  "march_of m = (if 2 < int m then int m - 3 else int m + 9)"

lemma days_from_civil_eq:
  "days_from_civil yr m d =
     year_day (if m \<le> 2 then yr - 1 else yr) + month_day (march_of m) + int d - 1 - 719468"
proof -
  have s: "365 * (Y mod 400) + (Y mod 400) div 4 - (Y mod 400) div 100 + 146097 * (Y div 400) = year_day Y" for Y
    using year_day_shift [of "Y mod 400" "Y div 400"] by (simp add: year_day_def)
  show ?thesis
    unfolding days_from_civil_def Let_def march_of_def [symmetric]
    using s [of "if m \<le> 2 then yr - 1 else yr"] by (simp only: month_day_def)
qed

lemma first_of_next_month:
  assumes "1 \<le> m" "m \<le> 12"
  shows "days_from_civil (if m = 12 then yr + 1 else yr) (if m = 12 then 1 else m + 1) 1 =
    days_from_civil yr m 1 + int (days_in_month yr m)"
proof -
  have "m = 1 \<or> m = 2 \<or> m = 3 \<or> m = 4 \<or> m = 5 \<or> m = 6 \<or> m = 7 \<or> m = 8 \<or> m = 9 \<or> m = 10
      \<or> m = 11 \<or> m = 12"
    using assms by presburger
  then show ?thesis
    using year_day_Suc [of "yr - 1"]
    by (auto simp: days_from_civil_eq march_of_def month_day_def days_in_month_def)
qed

lemma month_start_of:
  assumes "0 \<le> yr" "1 \<le> m" "m \<le> 12" "0 \<le> days_from_civil yr m 1" "days_from_civil yr m 1 * 86400 < 2 ^ 64"
  shows "month_start (nat (yr * 12 + int m - 1)) = nat (days_from_civil yr m 1) * DAY"
proof -
  obtain k where k: "m = Suc k" "k < 12" using assms by (cases m) auto
  have e: "nat (yr * 12 + int m - 1) = k + nat yr * 12" using assms k by linarith
  have "nat (yr * 12 + int m - 1) div 12 = nat yr" "nat (yr * 12 + int m - 1) mod 12 + 1 = m"
    unfolding e using k by simp_all
  moreover have "days_from_civil yr m 1 < 2 ^ 64" using assms by linarith
  moreover have "nat (days_from_civil yr m 1) * 86400 < 2 ^ 64" using assms(4,5) by simp
  ultimately show ?thesis
    using assms by (simp only: month_start_def Let_def unsigned_of_def cast_def mod_pos_pos_trivial int_nat_eq
      if_True DAY_def mod_less)
qed

lemma civil_year_bounds:
  assumes "0 \<le> n" "n < 120000000000" "civil_from_days n = (yr, m, d)"
  shows "0 \<le> yr" "yr < 350000000"
proof -
  obtain era y doy where n: "n = era * 146097 + year_day y + doy - 719468"
    and y: "0 \<le> y" "y < 400" and doy: "0 \<le> doy" "doy < year_day (y + 1) - year_day y"
    by (rule days_parts)
  have "year_day 0 \<le> year_day y" "year_day (y + 1) \<le> year_day 400"
    using y by (intro year_day_mono; linarith)+
  moreover have "year_day 0 = 0" "year_day 400 = 146097" by (simp_all add: year_day_def)
  ultimately have "0 \<le> era" "era < 830000" using assms(1,2) n doy by linarith+
  moreover have "yr = y + 400 * era \<or> yr = y + 400 * era + 1"
    using civil_of_parts [OF y doy, of era] assms(3) n by (auto split: if_splits)
  ultimately show "0 \<le> yr" "yr < 350000000" using y by auto
qed

text \<open>
  The revenue epochs partition time: the month of a timestamp starts no later than it, and the next
  month starts after it.
\<close>

theorem month_holds_its_timestamps:
  assumes "ts < 10 ^ 16"
  shows "month_start (month_id ts) \<le> ts \<and> ts < month_start (month_id ts + 1)"
proof -
  define n where "n = ts div DAY"
  obtain yr m d where c: "civil_from_days (int n) = (yr, m, d)" by (cases "civil_from_days (int n)") auto
  have v: "valid_date yr m d" and dn: "days_from_civil yr m d = int n"
    using civil_date_of_every_day [of "int n"] c by simp_all
  have nb: "n < 120000000000" using assms by (simp add: n_def DAY_def div_less_iff_less_mult)
  have yb: "0 \<le> yr" "yr < 350000000" using civil_year_bounds [OF _ _ c] nb by simp_all
  have mb: "1 \<le> m" "m \<le> 12" using v by (simp_all add: valid_date_def)
  have "days_from_civil yr m d = days_from_civil yr m 1 + int d - 1" by (simp add: days_from_civil_eq)
  moreover have "1 \<le> d" "d \<le> days_in_month yr m" using v by (simp_all add: valid_date_def)
  ultimately have lo: "days_from_civil yr m 1 \<le> int n" "int n < days_from_civil yr m 1 + int (days_in_month yr m)"
    using dn by linarith+
  have "days_from_civil 1970 1 1 = 0" by code_simp
  then have zero: "civil_from_days 0 = (1970, 1, 1)"
    using civil_of_valid_date [of 1970 1 1] by (simp add: valid_date_def days_in_month_def)
  have pos: "0 \<le> days_from_civil yr m 1"
  proof (rule ccontr)
    assume neg: "\<not> ?thesis"
    define d0 where "d0 = nat (1 - days_from_civil yr m 1)"
    have "days_from_civil yr m d0 = 0" using neg by (simp add: days_from_civil_eq d0_def)
    moreover have "valid_date yr m d0" using neg lo mb by (auto simp: valid_date_def d0_def)
    ultimately have "d0 = 1" using civil_of_valid_date [of yr m d0] zero by simp
    with neg show False by (simp add: d0_def)
  qed
  have len: "days_in_month yr m \<le> 31" by (simp add: days_in_month_def)
  have id: "month_id ts = nat (yr * 12 + int m - 1)"
    using c yb mb by (simp add: month_id_def unsigned_of_def n_def [symmetric])
  have nx: "month_id ts + 1 =
      nat ((if m = 12 then yr + 1 else yr) * 12 + int (if m = 12 then 1 else m + 1) - 1)"
    using yb mb by (auto simp: id)
  have s1: "month_start (month_id ts) = nat (days_from_civil yr m 1) * DAY"
    unfolding id using yb mb pos lo nb by (intro month_start_of) auto
  have s2: "month_start (month_id ts + 1) = nat (days_from_civil yr m 1 + int (days_in_month yr m)) * DAY"
    unfolding nx first_of_next_month [OF mb, symmetric]
    using yb mb pos lo nb len by (intro month_start_of) (auto simp: first_of_next_month [OF mb, of yr, simplified])
  have "nat (days_from_civil yr m 1) * DAY \<le> n * DAY" using lo by (intro mult_le_mono1) auto
  also have "\<dots> \<le> ts" by (simp add: n_def)
  finally have "month_start (month_id ts) \<le> ts" by (simp add: s1)
  moreover have "ts < month_start (month_id ts + 1)"
  proof -
    have "ts < Suc n * DAY" by (simp add: n_def dividend_less_div_times)
    also have "\<dots> \<le> nat (days_from_civil yr m 1 + int (days_in_month yr m)) * DAY"
      using lo by (intro mult_le_mono1) auto
    finally show ?thesis by (simp only: s2)
  qed
  ultimately show ?thesis ..
qed

theorem month_holds_its_timestamps_witness:
  "(1735689600::nat) < 10 ^ 16
   \<and> month_start (month_id 1735689600) \<le> 1735689600 \<and> 1735689600 < month_start (month_id 1735689600 + 1)"
  using month_holds_its_timestamps [of 1735689600] by simp

end
