(* ===== verification/Heads_Median.thy ===== *)
theory Heads_Median
  imports Rust_Base "HOL-Library.Multiset"
begin

unbundle bit_operations_syntax

text \<open>
  The weighted median of the oracle (\<open>oracle/crates/heads/src/median.rs\<close>): the stable bottom-up merge
  sort of positions, the overflow-free midpoints, and the two medians read over the sorted positions.
  Sums of weights are 128-bit over at most \<open>2 ^ 64\<close> pairs of 64-bit weights, so they never leave
  their range and are plain additions here.
\<close>

subsection \<open>The model\<close>

text \<open>The inner \<open>for slot\<close> loop: fills the slots of one block of \<open>to\<close> from the two runs of \<open>from\<close>.\<close>

fun merge_slots :: "(usize \<Rightarrow> usize \<Rightarrow> bool) \<Rightarrow> usize list \<Rightarrow> usize \<Rightarrow> usize \<Rightarrow>
    usize list \<Rightarrow> usize \<Rightarrow> usize \<Rightarrow> usize list \<Rightarrow> usize list" where
  "merge_slots lt from mid e [] i j to = to"
| "merge_slots lt from mid e (slot # slots) i j to =
     (if i < mid \<and> (e \<le> j \<or> \<not> lt (from ! j) (from ! i))
      then merge_slots lt from mid e slots (Suc i) j (to[slot := from ! i])
      else merge_slots lt from mid e slots i (Suc j) (to[slot := from ! j]))"

text \<open>One pass: every block of two runs of \<open>width\<close>. The width is never zero in the code.\<close>

function merge_pass :: "(usize \<Rightarrow> usize \<Rightarrow> bool) \<Rightarrow> usize \<Rightarrow> usize \<Rightarrow> usize list \<Rightarrow> usize \<Rightarrow> usize list \<Rightarrow> usize list" where
  "merge_pass lt n width from start to =
     (if start < n \<and> 0 < width
      then let mid = min (start + width) n;
               e = min (start + 2 * width) n
           in merge_pass lt n width from e (merge_slots lt from mid e [start..<e] start mid to)
      else to)"
  by pat_completeness auto
termination
  by (relation "measure (\<lambda>(lt, n, width, from, start, to). n - start)") auto

function merge_passes :: "(usize \<Rightarrow> usize \<Rightarrow> bool) \<Rightarrow> usize \<Rightarrow> usize \<Rightarrow> usize list \<Rightarrow> usize list \<Rightarrow> usize list" where
  "merge_passes lt n width from to =
     (if width < n \<and> 0 < width
      then merge_passes lt n (width * 2) (merge_pass lt n width from 0 to) from
      else from)"
  by pat_completeness auto
termination
  by (relation "measure (\<lambda>(lt, n, width, from, to). n - width)") auto

declare merge_pass.simps [simp del] merge_passes.simps [simp del]

definition sorted_positions :: "usize \<Rightarrow> (usize \<Rightarrow> usize \<Rightarrow> bool) \<Rightarrow> usize list" where
  "sorted_positions n lt =
     (let from = [0..<n] in if n < 2 then from else merge_passes lt n 1 from from)"

definition midpoint_toward_zero :: "i64 \<Rightarrow> i64 \<Rightarrow> i64" where
  "midpoint_toward_zero a b =
     (let floor = (a AND b) + drop_bit 1 (a XOR b)
      in floor + (if floor < 0 \<and> (a XOR b) AND 1 \<noteq> 0 then 1 else 0))"

fun median_walk :: "(i64 \<times> u64) list \<Rightarrow> u128 \<Rightarrow> u128 \<Rightarrow> usize list \<Rightarrow> i64 option" where
  "median_walk pairs tot cumulative [] = None"
| "median_walk pairs tot cumulative (k # order) =
     (let (value, weight) = pairs ! k in
      if weight = 0 then median_walk pairs tot cumulative order
      else let cumulative' = cumulative + weight in
        if cumulative' * 2 > tot then Some value
        else if cumulative' * 2 = tot
        then do { (next, _) \<leftarrow> find (\<lambda>(_, w). 0 < w) (map ((!) pairs) order);
                  Some (midpoint_toward_zero value next) }
        else median_walk pairs tot cumulative' order)"

definition weighted_median :: "(i64 \<times> u64) list \<Rightarrow> i64 option" where
  "weighted_median pairs =
     (let order = sorted_positions (length pairs) (\<lambda>a b. fst (pairs ! a) < fst (pairs ! b));
          tot = sum_list (map snd pairs)
      in if tot = 0 then None else median_walk pairs tot 0 order)"

definition median_u64 :: "u64 list \<Rightarrow> u64 option" where
  "median_u64 values =
     (if values = [] then None
      else let order = sorted_positions (length values) (\<lambda>a b. values ! a < values ! b);
               upper = length values div 2
           in if length values mod 2 = 1 then Some (values ! (order ! upper))
              else let a = values ! (order ! (upper - 1)); b = values ! (order ! upper)
                   in Some ((a AND b) + drop_bit 1 (a XOR b)))"

subsection \<open>The merge sort is the stable sort\<close>

fun merge :: "('a \<Rightarrow> 'a \<Rightarrow> bool) \<Rightarrow> 'a list \<Rightarrow> 'a list \<Rightarrow> 'a list" where
  "merge lt [] ys = ys"
| "merge lt xs [] = xs"
| "merge lt (x # xs) (y # ys) =
     (if lt y x then y # merge lt (x # xs) ys else x # merge lt xs (y # ys))"

lemma merge_Nil2 [simp]: "merge lt xs [] = xs"
  by (cases xs) auto

lemma length_merge_slots [simp]: "length (merge_slots lt from mid e slots i j to) = length to"
  by (induction lt "from" mid e slots i j to rule: merge_slots.induct) auto

definition segment :: "'a list \<Rightarrow> nat \<Rightarrow> nat \<Rightarrow> 'a list" where
  "segment xs i j = take (j - i) (drop i xs)"

lemma segment_Cons: "i < j \<Longrightarrow> i < length xs \<Longrightarrow> segment xs i j = xs ! i # segment xs (Suc i) j"
  by (simp add: segment_def take_Cons' Cons_nth_drop_Suc [symmetric])

lemma segment_empty [simp]: "j \<le> i \<Longrightarrow> segment xs i j = []"
  by (simp add: segment_def)

lemma merge_slots_merge:
  assumes "e - s = (mid - i) + (e - j)" "i \<le> mid" "mid \<le> j" "j \<le> e" "e \<le> length from" "e \<le> length to" "s \<le> e"
  shows "merge_slots lt from mid e [s..<e] i j to =
    take s to @ merge lt (segment from i mid) (segment from j e) @ drop e to"
  using assms
proof (induction "e - s" arbitrary: s i j to)
  case 0
  then have "s = e" "i = mid" "j = e" by auto
  then show ?case by simp
next
  case (Suc k)
  then have up: "[s..<e] = s # [Suc s..<e]" by (simp add: upt_conv_Cons)
  have tk: "take (Suc s) (to[s := x]) = take s to @ [x]" "drop e (to[s := x]) = drop e to" for x
    using Suc.prems Suc.hyps(2) by (simp_all add: take_Suc_conv_app_nth drop_update_cancel)
  show ?case
  proof (cases "i < mid \<and> (e \<le> j \<or> \<not> lt (from ! j) (from ! i))")
    case True
    have "merge_slots lt from mid e [Suc s..<e] (Suc i) j (to[s := from ! i]) =
        take (Suc s) (to[s := from ! i]) @ merge lt (segment from (Suc i) mid) (segment from j e)
          @ drop e (to[s := from ! i])"
      using Suc.prems Suc.hyps(2) True by (intro Suc.hyps(1)) auto
    moreover have "merge lt (segment from i mid) (segment from j e) =
        from ! i # merge lt (segment from (Suc i) mid) (segment from j e)"
      using True Suc.prems by (cases "j < e") (auto simp: segment_Cons)
    ultimately show ?thesis using True by (simp add: up tk)
  next
    case False
    have "merge_slots lt from mid e [Suc s..<e] i (Suc j) (to[s := from ! j]) =
        take (Suc s) (to[s := from ! j]) @ merge lt (segment from i mid) (segment from (Suc j) e)
          @ drop e (to[s := from ! j])"
      using Suc.prems Suc.hyps(2) False by (intro Suc.hyps(1)) auto
    moreover have "merge lt (segment from i mid) (segment from j e) =
        from ! j # merge lt (segment from i mid) (segment from (Suc j) e)"
      using False Suc.prems Suc.hyps(2) by (cases "i < mid") (auto simp: segment_Cons)
    ultimately show ?thesis using False by (auto simp: up tk)
  qed
qed

lemma mset_merge [simp]: "mset (merge lt xs ys) = mset xs + mset ys"
  by (induction lt xs ys rule: merge.induct) auto

lemma set_merge [simp]: "set (merge lt xs ys) = set xs \<union> set ys"
  by (metis mset_merge set_mset_mset set_mset_union)

lemma merge_sort_key:
  fixes key :: "'a \<Rightarrow> 'b::linorder"
  assumes "sorted (map key xs)" "sorted (map key ys)"
    and "\<And>x y. x \<in> set xs \<Longrightarrow> y \<in> set ys \<Longrightarrow> lt y x \<longleftrightarrow> key y < key x"
  shows "merge lt xs ys = sort_key key (xs @ ys)"
proof -
  have "sorted (map key (merge lt xs ys))
      \<and> filter (\<lambda>x. key z = key x) (merge lt xs ys) = filter (\<lambda>x. key z = key x) (xs @ ys)" for z
    using assms
  proof (induction lt xs ys rule: merge.induct)
    case (3 lt x xs y ys)
    show ?case
    proof (cases "lt y x")
      case True
      with 3 have "filter (\<lambda>x. key z = key x) (x # xs) = []" if "key z = key y"
        using that by (auto simp: filter_empty_conv)
      with 3 True show ?thesis by auto
    qed (use 3 in auto)
  qed auto
  then show ?thesis by (intro properties_for_sort_key [symmetric]) auto
qed


text \<open>The list a pass leaves: sorted runs of \<open>w\<close> positions, from \<open>s\<close> on.\<close>

function runs :: "(nat \<Rightarrow> 'b::linorder) \<Rightarrow> nat \<Rightarrow> nat \<Rightarrow> nat \<Rightarrow> nat list" where
  "runs key w n s = (if s < n \<and> 0 < w then sort_key key [s..<min (s + w) n] @ runs key w n (s + w) else [])"
  by pat_completeness auto
termination
  by (relation "measure (\<lambda>(key, w, n, s). n - s)") auto

declare runs.simps [simp del]

lemma runs_stop: "n \<le> s \<Longrightarrow> runs key w n s = []"
  by (simp add: runs.simps)

lemma runs_step: "s < n \<Longrightarrow> 0 < w \<Longrightarrow> runs key w n s = sort_key key [s..<min (s + w) n] @ runs key w n (s + w)"
  by (subst runs.simps) simp

lemma length_runs: "0 < w \<Longrightarrow> length (runs key w n s) = n - s"
  by (induction key w n s rule: runs.induct) (subst runs.simps, auto)

lemma runs_beyond: "runs key w n (min s n) = runs key w n s"
  by (cases "s \<le> n") (auto simp: runs_stop)

lemma runs_one: "runs key 1 n s = [s..<n]"
proof (induction "n - s" arbitrary: s)
  case (Suc k)
  then have "min (s + 1) n = Suc s" by auto
  with Suc show ?case by (simp add: runs_step upt_conv_Cons)
qed (simp add: runs_stop)

lemma runs_whole: "n \<le> w \<Longrightarrow> 0 < w \<Longrightarrow> runs key w n 0 = sort_key key [0..<n]"
  by (cases "n = 0") (auto simp: runs_step runs_stop min_def)

lemma runs_double:
  assumes "s < n" "0 < w"
  shows "runs key w n s = sort_key key [s..<min (s + w) n]
     @ sort_key key [min (s + w) n..<min (s + 2 * w) n] @ runs key w n (min (s + 2 * w) n)"
  using assms by (cases "s + w < n") (auto simp: runs_step runs_stop runs_beyond min_def mult_2 add.assoc)

lemma sort_key_stable_sym [simp]:
  "filter (\<lambda>x. f k = f x) (sort_key f xs) = filter (\<lambda>x. f k = f x) xs"
proof -
  have "(\<lambda>x. f k = f x) = (\<lambda>x. f x = f k)" by auto
  then show ?thesis by (simp add: sort_key_stable)
qed

text \<open>
  What the sort asks of its caller: on the positions below \<open>n\<close>, the comparison is the strict order of
  some key. Under that contract its result is the library's stable sort by the key.
\<close>

locale keyed_positions =
  fixes lt :: "usize \<Rightarrow> usize \<Rightarrow> bool" and key :: "usize \<Rightarrow> 'b::linorder" and n :: usize
  assumes lt_key: "a < n \<Longrightarrow> b < n \<Longrightarrow> lt a b \<longleftrightarrow> key a < key b"
begin

lemma merge_block:
  assumes "s \<le> m" "m \<le> e" "e \<le> n"
  shows "merge lt (sort_key key [s..<m]) (sort_key key [m..<e]) = sort_key key [s..<e]"
proof -
  have "merge lt (sort_key key [s..<m]) (sort_key key [m..<e]) =
      sort_key key (sort_key key [s..<m] @ sort_key key [m..<e])"
    using assms by (intro merge_sort_key) (auto simp: lt_key)
  also have "\<dots> = sort_key key ([s..<m] @ [m..<e])"
    by (rule properties_for_sort_key) auto
  also have "[s..<m] @ [m..<e] = [s..<e]"
    using assms by (metis le_Suc_ex upt_add_eq_append)
  finally show ?thesis .
qed

lemma merge_pass_runs:
  assumes "drop start from = runs key w n start" "length from = n" "length to = n" "start \<le> n" "0 < w"
  shows "merge_pass lt n w from start to = take start to @ runs key (2 * w) n start"
  using assms
proof (induction "n - start" arbitrary: start to rule: less_induct)
  case less
  show ?case
  proof (cases "start < n")
    case False
    with less.prems show ?thesis by (simp add: merge_pass.simps runs_stop)
  next
    case True
    define m e where "m = min (start + w) n" and "e = min (start + 2 * w) n"
    have b: "start < e" "start \<le> m" "m \<le> e" "e \<le> n" using True less.prems by (auto simp: m_def e_def)
    have d: "drop start from = sort_key key [start..<m] @ sort_key key [m..<e] @ runs key w n e"
      using less.prems True by (simp add: runs_double m_def e_def)
    have s1: "segment from start m = sort_key key [start..<m]" by (simp add: segment_def d)
    have "drop m from = drop (m - start) (drop start from)" using b by simp
    then have d2: "drop m from = sort_key key [m..<e] @ runs key w n e" by (simp add: d)
    have s2: "segment from m e = sort_key key [m..<e]" by (simp add: segment_def d2)
    have "drop e from = drop (e - m) (drop m from)" using b by simp
    then have d3: "drop e from = runs key w n e" by (simp add: d2)
    define to' where "to' = merge_slots lt from m e [start..<e] start m to"
    have to': "to' = take start to @ sort_key key [start..<e] @ drop e to"
      unfolding to'_def using b less.prems
      by (subst merge_slots_merge) (auto simp: s1 s2 merge_block)
    have "merge_pass lt n w from start to = merge_pass lt n w from e to'"
      using True less.prems by (subst merge_pass.simps) (simp add: m_def e_def to'_def Let_def)
    also have "\<dots> = take e to' @ runs key (2 * w) n e"
      using b less.prems d3 True by (intro less.hyps) (auto simp: to'_def)
    also have "take e to' = take start to @ sort_key key [start..<e]"
      using b less.prems by (simp add: to')
    also have "runs key (2 * w) n e = runs key (2 * w) n (start + 2 * w)"
      unfolding e_def by (rule runs_beyond)
    finally show ?thesis
      using True less.prems by (simp add: runs_step [of start n "2 * w" key] e_def)
  qed
qed

lemma merge_passes_sort:
  assumes "from = runs key w n 0" "length to = n" "0 < w"
  shows "merge_passes lt n w from to = sort_key key [0..<n]"
  using assms
proof (induction "n - w" arbitrary: w "from" to rule: less_induct)
  case less
  have len: "length from = n" using less.prems by (simp add: length_runs)
  show ?case
  proof (cases "w < n")
    case False
    with less.prems show ?thesis by (simp add: merge_passes.simps runs_whole)
  next
    case True
    have "merge_pass lt n w from 0 to = runs key (2 * w) n 0"
      using merge_pass_runs [of 0 "from" w to] less.prems len by simp
    then have "merge_passes lt n (w * 2) (merge_pass lt n w from 0 to) from = sort_key key [0..<n]"
      using True less.prems len by (intro less.hyps) (auto simp: mult.commute)
    with True less.prems show ?thesis by (simp add: merge_passes.simps [of lt n w])
  qed
qed

lemma sorted_positions_sort: "sorted_positions n lt = sort_key key [0..<n]"
proof (cases "n < 2")
  case True
  then have "n = 0 \<or> n = 1" by auto
  then show ?thesis by (auto simp: sorted_positions_def)
next
  case False
  then show ?thesis
    using merge_passes_sort [of "[0..<n]" 1 "[0..<n]", OF runs_one [symmetric]]
    by (simp add: sorted_positions_def Let_def)
qed

lemma set_sorted_positions: "set (sorted_positions n lt) = {0..<n}"
  by (simp add: sorted_positions_sort)

end

text \<open>The two callers meet the contract: by the value of a pair, and by the value itself.\<close>

interpretation by_value: keyed_positions "\<lambda>a b. fst (pairs ! a) < fst (pairs ! b)" "\<lambda>a. fst (pairs ! a)"
  "length pairs" for pairs :: "(i64 \<times> u64) list"
  by unfold_locales simp

interpretation by_size: keyed_positions "\<lambda>a b. values ! a < values ! b" "(!) values" "length values"
  for "values" :: "u64 list"
  by unfold_locales simp

lemma map_nth_sort_key: "map ((!) xs) (sort_key (\<lambda>i. f (xs ! i)) [0..<length xs]) = sort_key f xs"
proof (rule properties_for_sort_key [symmetric])
  show "mset (map ((!) xs) (sort_key (\<lambda>i. f (xs ! i)) [0..<length xs])) = mset xs"
    by (metis map_nth mset_map mset_sort)
  show "sorted (map f (map ((!) xs) (sort_key (\<lambda>i. f (xs ! i)) [0..<length xs])))"
    using sorted_sort_key [of "\<lambda>i. f (xs ! i)"] by (simp add: comp_def)
  show "filter (\<lambda>x. f k = f x) (map ((!) xs) (sort_key (\<lambda>i. f (xs ! i)) [0..<length xs]))
      = filter (\<lambda>x. f k = f x) xs" for k
  proof -
    have "filter (\<lambda>x. f k = f x) (map ((!) xs) (sort_key (\<lambda>i. f (xs ! i)) [0..<length xs])) =
        map ((!) xs) (filter (\<lambda>i. f (xs ! i) = f k) (sort_key (\<lambda>i. f (xs ! i)) [0..<length xs]))"
      unfolding filter_map comp_def by (simp only: eq_commute [of "f k"])
    also have "\<dots> = map ((!) xs) (filter (\<lambda>i. f (xs ! i) = f k) [0..<length xs])"
      by (simp only: sort_key_stable)
    also have "\<dots> = filter (\<lambda>x. f k = f x) (map ((!) xs) [0..<length xs])"
      unfolding filter_map comp_def by (simp only: eq_commute [of "f k"])
    finally show ?thesis by (simp only: map_nth)
  qed
qed

subsection \<open>Midpoints\<close>

lemma int_plus_and_xor: "2 * (a AND b) + (a XOR b) = (a::int) + b"
proof -
  have "(a AND b) + (a XOR b) = (a AND b) OR (a XOR b)"
    by (rule disjunctive_add_eq_or, rule bit_eqI) (auto simp: bit_simps)
  also have "\<dots> = a OR b" by (rule bit_eqI) (auto simp: bit_simps)
  finally have "(a OR b) = (a AND b) + (a XOR b)" ..
  then show ?thesis using plus_and_or [of a b] by simp
qed

lemma nat_plus_and_xor: "2 * (a AND b) + (a XOR b) = (a::nat) + b"
proof -
  have "int (2 * (a AND b) + (a XOR b)) = int (a + b)"
    by (simp only: of_nat_add of_nat_mult of_nat_numeral of_nat_and_eq of_nat_xor_eq int_plus_and_xor)
  then show ?thesis by (simp only: of_nat_eq_iff)
qed

lemma int_floor_midpoint: "(a AND b) + drop_bit 1 (a XOR b) = (a + b :: int) div 2"
  using int_plus_and_xor [of a b] by (simp add: drop_bit_eq_div) 

lemma nat_floor_midpoint: "(a AND b) + drop_bit 1 (a XOR b) = (a + b :: nat) div 2"
  using nat_plus_and_xor [of a b] by (simp add: drop_bit_eq_div)

lemma midpoint_toward_zero_div:
  "midpoint_toward_zero a b = (if 0 \<le> a + b then (a + b) div 2 else - ((- (a + b)) div 2))"
proof -
  have "(a XOR b) AND 1 \<noteq> 0 \<longleftrightarrow> odd (a + b)"
    using int_plus_and_xor [of a b] unfolding and_one_eq by presburger
  then show ?thesis
    unfolding midpoint_toward_zero_def Let_def int_floor_midpoint by presburger
qed

lemma midpoint_same [simp]: "midpoint_toward_zero a a = a"
  unfolding midpoint_toward_zero_div by presburger

subsection \<open>The weighted median\<close>

text \<open>
  The abstract specification. The weight of the pairs whose value satisfies \<open>P\<close>; a value is a lower
  median when it carries weight, at least half the weight lies at or below it and less than half
  below it; an upper median when more than half lies at or below it and at most half below it.
\<close>

definition weight_where :: "(int \<Rightarrow> bool) \<Rightarrow> (int \<times> nat) list \<Rightarrow> nat" where
  "weight_where P pairs = sum_list (map snd (filter (P \<circ> fst) pairs))"

definition lower_median :: "(int \<times> nat) list \<Rightarrow> int \<Rightarrow> bool" where
  "lower_median pairs v \<longleftrightarrow> sum_list (map snd pairs) \<le> 2 * weight_where (\<lambda>x. x \<le> v) pairs
     \<and> 2 * weight_where (\<lambda>x. x < v) pairs < sum_list (map snd pairs)"

definition upper_median :: "(int \<times> nat) list \<Rightarrow> int \<Rightarrow> bool" where
  "upper_median pairs v \<longleftrightarrow> sum_list (map snd pairs) < 2 * weight_where (\<lambda>x. x \<le> v) pairs
     \<and> 2 * weight_where (\<lambda>x. x < v) pairs \<le> sum_list (map snd pairs)"

fun walk :: "nat \<Rightarrow> nat \<Rightarrow> (int \<times> nat) list \<Rightarrow> int option" where
  "walk tot c [] = None"
| "walk tot c ((v, w) # ps) =
     (if w = 0 then walk tot c ps
      else if (c + w) * 2 > tot then Some v
      else if (c + w) * 2 = tot
      then (case find (\<lambda>(_, w). 0 < w) ps of None \<Rightarrow> None | Some (v', _) \<Rightarrow> Some (midpoint_toward_zero v v'))
      else walk tot (c + w) ps)"

lemma median_walk_walk: "median_walk pairs tot c order = walk tot c (map ((!) pairs) order)"
  by (induction order arbitrary: c) (auto simp: Let_def split: prod.splits option.splits)

lemma weight_where_append [simp]: "weight_where P (xs @ ys) = weight_where P xs + weight_where P ys"
  by (simp add: weight_where_def)

lemma weight_where_Cons [simp]:
  "weight_where P (p # ps) = (if P (fst p) then snd p else 0) + weight_where P ps"
  by (simp add: weight_where_def)

lemma weight_where_Nil [simp]: "weight_where P [] = 0"
  by (simp add: weight_where_def)

lemma weight_where_mset: "mset xs = mset ys \<Longrightarrow> weight_where P xs = weight_where P ys"
  unfolding weight_where_def
  by (metis mset_filter mset_map sum_mset_sum_list)

lemma weight_where_le: "weight_where P ps \<le> sum_list (map snd ps)"
  by (induction ps) auto

lemma weight_where_all: "(\<And>p. p \<in> set ps \<Longrightarrow> P (fst p)) \<Longrightarrow> weight_where P ps = sum_list (map snd ps)"
  by (induction ps) auto

lemma weight_where_none: "(\<And>p. p \<in> set ps \<Longrightarrow> P (fst p) \<Longrightarrow> snd p = 0) \<Longrightarrow> weight_where P ps = 0"
  by (induction ps) auto

lemma find_weight:
  fixes ps :: "(int \<times> nat) list"
  assumes "0 < sum_list (map snd ps)"
  obtains zs v w rest where "ps = zs @ (v, w) # rest" "0 < w" "\<forall>p\<in>set zs. snd p = 0"
    "find (\<lambda>(_, w). 0 < w) ps = Some (v, w)"
  using assms
proof (induction ps arbitrary: thesis)
  case (Cons p ps)
  show ?case
  proof (cases "snd p = 0")
    case True
    with Cons.prems(2) have "0 < sum_list (map snd ps)" by simp
    with Cons.IH obtain zs v w rest where "ps = zs @ (v, w) # rest" "0 < w" "\<forall>p\<in>set zs. snd p = 0"
      "find (\<lambda>(_, w). 0 < w) ps = Some (v, w)" by blast
    with True show ?thesis by (intro Cons.prems(1) [of "p # zs" v w rest]; cases p) auto
  next
    case False
    then show ?thesis by (intro Cons.prems(1) [of "[]" "fst p" "snd p" ps]) auto
  qed
qed simp

lemma walk_median:
  assumes "sorted (map fst (done @ ps))" "c = sum_list (map snd done)" "2 * c < tot"
    "tot = sum_list (map snd (done @ ps))"
  shows "\<exists>lo hi. lower_median (done @ ps) lo \<and> upper_median (done @ ps) hi
           \<and> walk tot c ps = Some (midpoint_toward_zero lo hi)"
  using assms
proof (induction ps arbitrary: "done" c)
  case (Cons p ps)
  obtain v w where p: "p = (v, w)" by (cases p)
  note sorted = Cons.prems(1) [unfolded p]
  have below: "\<And>q. q \<in> set done \<Longrightarrow> fst q \<le> v" and above: "\<And>q. q \<in> set ps \<Longrightarrow> v \<le> fst q"
    using sorted by (auto simp: sorted_append)
  have lt: "weight_where (\<lambda>x. x < v) (done @ (v, w) # ps) \<le> c"
  proof -
    have "weight_where (\<lambda>x. x < v) ps = 0" using above by (intro weight_where_none) force
    then show ?thesis using weight_where_le [of "\<lambda>x. x < v" "done"] Cons.prems(2) by simp
  qed
  have le: "c + w \<le> weight_where (\<lambda>x. x \<le> v) (done @ (v, w) # ps)"
    using below Cons.prems(2) by (simp add: weight_where_all)
  have again: "\<exists>lo hi. lower_median (done @ p # ps) lo \<and> upper_median (done @ p # ps) hi
      \<and> walk tot (c + w) ps = Some (midpoint_toward_zero lo hi)" if "2 * (c + w) < tot"
    using Cons.IH [of "done @ [p]" "c + w"] Cons.prems that by (simp add: p)
  show ?case
  proof (cases "w = 0 \<or> (c + w) * 2 \<noteq> tot")
    case True
    show ?thesis
    proof (cases "(c + w) * 2 > tot")
      case True
      then have "lower_median (done @ p # ps) v \<and> upper_median (done @ p # ps) v"
        using lt le Cons.prems(3,4) by (simp add: p lower_median_def upper_median_def)
      with True Cons.prems(3) show ?thesis by (intro exI [of _ v]) (auto simp: p)
    next
      case False
      with \<open>w = 0 \<or> (c + w) * 2 \<noteq> tot\<close> again Cons.prems(3) show ?thesis by (auto simp: p)
    qed
  next
    case False
    then have half: "(c + w) * 2 = tot" "0 < w" by auto
    then have "0 < sum_list (map snd ps)" using Cons.prems by (simp add: p)
    then obtain zs v' w' rest where ps: "ps = zs @ (v', w') # rest" "0 < w'" "\<forall>p\<in>set zs. snd p = 0"
      "find (\<lambda>(_, w). 0 < w) ps = Some (v', w')"
      by (rule find_weight)
    have rest: "\<And>q. q \<in> set rest \<Longrightarrow> v' \<le> fst q" "\<And>q. q \<in> set zs \<Longrightarrow> fst q \<le> v'" "v \<le> v'"
      using sorted ps(1) by (auto simp: sorted_append)
    have "lower_median (done @ p # ps) v"
      using half lt le Cons.prems(3,4) by (simp add: p lower_median_def)
    moreover have "upper_median (done @ p # ps) v'"
    proof -
      have z: "weight_where (\<lambda>x. x < v') zs = 0" "weight_where (\<lambda>x. x < v') rest = 0"
        using ps(3) rest(1) by (force intro!: weight_where_none)+
      have "weight_where (\<lambda>x. x \<le> v') done = c"
        using below rest(3) Cons.prems(2) by (subst weight_where_all) (auto intro: order_trans)
      moreover have "weight_where (\<lambda>x. x < v') done \<le> c"
        using weight_where_le Cons.prems(2) by simp
      ultimately show ?thesis
        using half ps(2) rest(3) z Cons.prems(4) by (simp add: p ps(1) upper_median_def)
    qed
    ultimately show ?thesis using half ps(4) by (intro exI [of _ v] exI [of _ v']) (simp add: p)
  qed
qed simp

lemma lower_median_unique: "lower_median ps v \<Longrightarrow> lower_median ps v' \<Longrightarrow> v = v'"
proof (rule ccontr)
  have mono: "weight_where (\<lambda>x. x \<le> a) ps \<le> weight_where (\<lambda>x. x < b) ps" if "a < b" for a b
    using that by (induction ps) auto
  assume m: "lower_median ps v" "lower_median ps v'" "v \<noteq> v'"
  then show False
    using mono [of v v'] mono [of v' v] by (cases "v < v'") (auto simp: lower_median_def)
qed

lemma upper_median_unique: "upper_median ps v \<Longrightarrow> upper_median ps v' \<Longrightarrow> v = v'"
proof (rule ccontr)
  have mono: "weight_where (\<lambda>x. x \<le> a) ps \<le> weight_where (\<lambda>x. x < b) ps" if "a < b" for a b
    using that by (induction ps) auto
  assume m: "upper_median ps v" "upper_median ps v'" "v \<noteq> v'"
  then show False
    using mono [of v v'] mono [of v' v] by (cases "v < v'") (auto simp: upper_median_def)
qed

lemma sorted_pairs:
  fixes pairs :: "(i64 \<times> u64) list"
  shows "map ((!) pairs) (sorted_positions (length pairs) (\<lambda>a b. fst (pairs ! a) < fst (pairs ! b))) =
    sort_key fst pairs"
  by (simp add: by_value.sorted_positions_sort map_nth_sort_key)

lemma median_mset:
  assumes "mset xs = mset ys"
  shows "lower_median xs = lower_median ys" "upper_median xs = upper_median ys"
    "sum_list (map snd xs) = sum_list (map snd ys)"
proof -
  show "sum_list (map snd xs) = sum_list (map snd ys)" using assms by (metis mset_map sum_mset_sum_list)
  then show "lower_median xs = lower_median ys" "upper_median xs = upper_median ys"
    using weight_where_mset [OF assms] by (auto simp: lower_median_def upper_median_def)
qed

lemma weighted_median_halves:
  assumes "0 < sum_list (map snd pairs)"
  shows "\<exists>lo hi. lower_median pairs lo \<and> upper_median pairs hi
           \<and> weighted_median pairs = Some (midpoint_toward_zero lo hi)"
proof -
  have "\<exists>lo hi. lower_median ([] @ sort_key fst pairs) lo \<and> upper_median ([] @ sort_key fst pairs) hi
      \<and> walk (sum_list (map snd pairs)) 0 (sort_key fst pairs) = Some (midpoint_toward_zero lo hi)"
    using assms median_mset(3) [of "sort_key fst pairs" pairs] by (intro walk_median) simp_all
  moreover have "sum_list (map snd pairs) \<noteq> 0" using assms by (simp only: neq0_conv)
  ultimately show ?thesis
    using median_mset [of "sort_key fst pairs" pairs]
    by (simp only: weighted_median_def Let_def median_walk_walk sorted_pairs if_False append_Nil mset_sort)
qed

text \<open>
  C19. The positions the merge sort returns are the stable sort of \<open>0 ..< n\<close> by the key the comparison
  orders, whatever the key.
\<close>

theorem sorted_positions_is_the_stable_sort:
  fixes key :: "usize \<Rightarrow> int"
  assumes "\<And>a b. a < n \<Longrightarrow> b < n \<Longrightarrow> lt a b \<longleftrightarrow> key a < key b"
  shows "sorted_positions n lt = sort_key key [0..<n]"
  using assms by (rule keyed_positions.sorted_positions_sort [OF keyed_positions.intro])

theorem sorted_positions_is_the_stable_sort_witness:
  "sorted_positions 5 (\<lambda>a b. [3, 1, 2, 1, 0::int] ! a < [3, 1, 2, 1, 0] ! b) = [4, 1, 3, 2, 0]"
  using sorted_positions_is_the_stable_sort
    [of 5 "\<lambda>a b. [3, 1, 2, 1, 0::int] ! a < [3, 1, 2, 1, 0] ! b" "\<lambda>a. [3, 1, 2, 1, 0] ! a"]
  by (simp, code_simp)

text \<open>
  C20. The weighted median exists exactly when some pair carries weight, is the midpoint (toward zero)
  of the lower and the upper median, and does not depend on the order the pairs come in.
\<close>

theorem weighted_median_is_the_median:
  "(weighted_median pairs = None \<longleftrightarrow> (\<forall>p\<in>set pairs. snd p = 0))
   \<and> (weighted_median pairs = Some m \<longrightarrow> (\<exists>lo hi. lower_median pairs lo \<and> upper_median pairs hi
         \<and> m = midpoint_toward_zero lo hi))
   \<and> (mset pairs = mset pairs' \<longrightarrow> weighted_median pairs = weighted_median pairs')"
proof (intro conjI impI)
  show none: "weighted_median pairs = None \<longleftrightarrow> (\<forall>p\<in>set pairs. snd p = 0)"
  proof (cases "sum_list (map snd pairs) = 0")
    case True
    then show ?thesis by (auto simp: weighted_median_def)
  next
    case False
    then have "0 < sum_list (map snd pairs)" by (simp only: neq0_conv)
    from weighted_median_halves [OF this] False show ?thesis by auto
  qed
  show "\<exists>lo hi. lower_median pairs lo \<and> upper_median pairs hi \<and> m = midpoint_toward_zero lo hi"
    if "weighted_median pairs = Some m"
  proof -
    from that none have "sum_list (map snd pairs) \<noteq> 0" by auto
    then have "0 < sum_list (map snd pairs)" by (simp only: neq0_conv)
    from weighted_median_halves [OF this] that show ?thesis by auto
  qed
  show "weighted_median pairs = weighted_median pairs'" if m: "mset pairs = mset pairs'"
  proof (cases "sum_list (map snd pairs) = 0")
    case True
    then have "sum_list (map snd pairs') = 0" using median_mset(3) [OF m] by simp
    with True show ?thesis by (simp only: weighted_median_def Let_def if_True simp_thms)
  next
    case False
    then have "0 < sum_list (map snd pairs)" "0 < sum_list (map snd pairs')"
      using median_mset(3) [OF m] by (simp_all only: neq0_conv)
    from this [THEN weighted_median_halves] median_mset(1,2) [OF m]
    show ?thesis by (metis lower_median_unique upper_median_unique)
  qed
qed

theorem weighted_median_is_the_median_witness:
  "weighted_median [(10, 1), (- 4, 1), (7, 0)] = Some 3
   \<and> (\<exists>lo hi. lower_median [(10, 1), (- 4, 1), (7, 0)] lo \<and> upper_median [(10, 1), (- 4, 1), (7, 0)] hi
         \<and> 3 = midpoint_toward_zero lo hi)
   \<and> weighted_median [(7, 0), (- 4, 1), (10, 1)] = Some 3"
proof -
  have e: "weighted_median [(10, 1), (- 4, 1), (7, 0)] = Some 3" by code_simp
  show ?thesis
    using weighted_median_is_the_median [of "[(10, 1), (- 4, 1), (7, 0)]" 3 "[(7, 0), (- 4, 1), (10, 1)]"] e
    by (simp add: add_mset_commute)
qed

text \<open>
  The median of unsigned values reads the sorted values: the middle one, or the middle pair's
  midpoint rounded down.
\<close>

theorem median_u64_of_sorted:
  assumes "values \<noteq> []"
  shows "median_u64 values = Some (let s = sort values; n = length values in
     if odd n then s ! (n div 2) else (s ! (n div 2 - 1) + s ! (n div 2)) div 2)"
proof -
  define order where "order = sorted_positions (length values) (\<lambda>a b. values ! a < values ! b)"
  have s: "map ((!) values) order = sort values"
    unfolding order_def by (simp add: by_size.sorted_positions_sort map_nth_sort_key [of "values" "\<lambda>x. x"])
  then have len: "length order = length values" by (metis length_map length_sort)
  have n: "values ! (order ! i) = sort values ! i" if "i < length values" for i
    using that len s by (metis nth_map)
  have "length values div 2 < length values" "length values div 2 - 1 < length values"
    using assms by (simp_all add: less_imp_diff_less)
  then show ?thesis
    using assms n
    by (simp add: median_u64_def Let_def order_def [symmetric] nat_floor_midpoint [unfolded One_nat_def]
        odd_iff_mod_2_eq_one del: drop_bit_xor)
qed

theorem median_u64_of_sorted_witness:
  "median_u64 [9, 2, 5, 4] = Some 4"
  using median_u64_of_sorted [of "[9, 2, 5, 4]"] by simp

end
