(* ===== verification/Heads_Money.thy ===== *)
theory Heads_Money
  imports Heads_Median
begin

text \<open>
  The money of the heads board: slashes and the escrow that holds them (\<open>liability.rs\<close>), who gets what
  when challenges resolve (\<open>outcome.rs\<close>), prizes and the delegators' reward index (\<open>rewards.rs\<close>), the
  posting and activation thresholds (\<open>thresholds.rs\<close>) and the bucket parameters (\<open>params.rs\<close>), all under
  \<open>oracle/crates/heads/src\<close>. This workspace is built without overflow checks: a plain operator that
  can leave its range wraps, an \<open>as\<close> cast truncates.
\<close>

definition BPS :: u64 where
  "BPS = 10000"

lemma BPS_pos [simp]: "0 < BPS"
  by (simp add: BPS_def)

subsection \<open>Slashes and escrow\<close>

definition slash :: "u64 \<Rightarrow> u16 \<Rightarrow> u64" where
  "slash prin rate_bps = cast 64 (prin * rate_bps div BPS)"

fun after_strikes :: "u64 \<Rightarrow> u16 \<Rightarrow> u8 \<Rightarrow> u64" where
  "after_strikes left rate_bps 0 = left"
| "after_strikes left rate_bps (Suc strikes) =
     after_strikes (wrapping_sub 64 left (slash left rate_bps)) rate_bps strikes"

definition escrow_required :: "u64 \<Rightarrow> u16 \<Rightarrow> u8 \<Rightarrow> u64" where
  "escrow_required prin rate_bps strikes =
     wrapping_sub 64 prin (after_strikes prin rate_bps strikes)"

definition proposer_escrow_required :: "u64 \<Rightarrow> u16 \<Rightarrow> u8 \<Rightarrow> u16 \<Rightarrow> u64" where
  "proposer_escrow_required prin rate_bps strikes proposer_slash_bps =
     max (escrow_required prin rate_bps strikes) (escrow_required prin proposer_slash_bps strikes)"

definition liability_bps :: "u16 \<Rightarrow> u8 \<Rightarrow> u64" where
  "liability_bps rate_bps strikes =
     (let keep = ((\<lambda>keep. cast 128 (keep * wrapping_sub 128 BPS rate_bps) div BPS) ^^ strikes) (BPS * BPS)
      in cast 64 (wrapping_sub 128 (BPS * BPS) keep div BPS))"

record held =
  h_principal :: u64
  h_held :: u64

definition held_strike :: "held \<Rightarrow> u16 \<Rightarrow> held \<times> u64" where
  "held_strike h rate_bps =
     (let taken = min (slash (h_principal h) rate_bps) (h_held h)
      in (h\<lparr>h_principal := wrapping_sub 64 (h_principal h) (slash (h_principal h) rate_bps),
            h_held := h_held h - taken\<rparr>, taken))"

definition releasable :: "held \<Rightarrow> u64 \<Rightarrow> u64" where
  "releasable h escrow = h_held h - escrow"

subsection \<open>Challenge outcomes\<close>

record challenge =
  bond :: u64
  won :: bool

definition pro_rata_step :: "u64 \<Rightarrow> u64 list \<Rightarrow> u128 \<Rightarrow> usize \<Rightarrow>
    u64 list \<times> u64 \<times> usize option \<Rightarrow> u64 list \<times> u64 \<times> usize option" where
  "pro_rata_step amount weights tot i st =
     (case st of (parts, paid, latest) \<Rightarrow>
        if 0 < weights ! i
        then let part = cast 64 (amount * (weights ! i) div tot)
             in (parts[i := part], wrapping_add 64 paid part, Some i)
        else (parts, paid, latest))"

definition pro_rata :: "u64 \<Rightarrow> u64 list \<Rightarrow> u64 list" where
  "pro_rata amount weights =
     (let tot = sum_list weights; parts = replicate (length weights) 0 in
      if tot = 0 then parts
      else case fold (pro_rata_step amount weights tot) [0..<length weights] (parts, 0, None) of
          (parts, paid, Some i) \<Rightarrow> parts[i := wrapping_add 64 (parts ! i) (wrapping_sub 64 amount paid)]
        | (parts, paid, None) \<Rightarrow> parts)"

definition sum_u64 :: "u64 list \<Rightarrow> u64" where
  "sum_u64 xs = cast 64 (sum_list xs)"

record claim_resolution =
  cr_falls :: bool
  cr_to_challengers :: "u64 list"
  cr_to_claimant :: u64
  cr_burned :: u64

definition resolve_claim :: "u64 \<Rightarrow> challenge list \<Rightarrow> claim_resolution" where
  "resolve_claim claim_bond challenges =
     (let falls = list_ex won challenges in
      if \<not> falls
      then \<lparr>cr_falls = falls, cr_to_challengers = replicate (length challenges) 0,
             cr_to_claimant = wrapping_add 64 claim_bond (sum_u64 (map bond challenges)), cr_burned = 0\<rparr>
      else let winning = map (\<lambda>c. if won c then bond c else 0) challenges;
               shares = pro_rata claim_bond winning
           in \<lparr>cr_falls = falls,
               cr_to_challengers = map2 (\<lambda>c share. if won c then wrapping_add 64 (bond c) share else 0) challenges shares,
               cr_to_claimant = 0,
               cr_burned = sum_u64 (map bond (filter (\<lambda>c. \<not> won c) challenges))\<rparr>)"

record source_resolution =
  sr_falls :: bool
  sr_bonds_to_challengers :: "u64 list"
  sr_amba_to_challengers :: "u64 list"
  sr_proposer_slashed :: u64
  sr_to_proposer :: u64
  sr_burned :: u64

definition resolve_source :: "challenge list \<Rightarrow> u64 \<Rightarrow> u16 \<Rightarrow> source_resolution" where
  "resolve_source challenges proposer_principal proposer_slash_bps =
     (let falls = list_ex won challenges in
      if \<not> falls
      then \<lparr>sr_falls = falls, sr_bonds_to_challengers = replicate (length challenges) 0,
             sr_amba_to_challengers = replicate (length challenges) 0, sr_proposer_slashed = 0,
             sr_to_proposer = sum_u64 (map bond challenges), sr_burned = 0\<rparr>
      else let proposer_slashed = slash proposer_principal proposer_slash_bps;
               winning = map (\<lambda>c. if won c then bond c else 0) challenges
           in \<lparr>sr_falls = falls, sr_bonds_to_challengers = winning,
               sr_amba_to_challengers = pro_rata proposer_slashed winning,
               sr_proposer_slashed = proposer_slashed, sr_to_proposer = 0,
               sr_burned = sum_u64 (map bond (filter (\<lambda>c. \<not> won c) challenges))\<rparr>)"

subsection \<open>Bucket parameters\<close>

record params =
  slash_rate_bps :: u16
  max_strikes :: u8
  proposer_slash_bps :: u16
  prize_cut_bps :: u16
  base_fill_prize :: u64
  fill_prize_slope_ppb :: u64
  base_update_prize :: u64
  update_prize_slope_ppb :: u64
  claim_bond :: u64
  challenge_bond :: u64
  challenge_window_secs :: u64
  challenge_extension_secs :: u64
  head_ttl_secs :: u64
  cooldown_secs :: u64
  min_delegators :: u16
  min_live_sources :: u16
  min_settle_weight :: u64
  alpha_bps :: u16
  floor_post :: u64
  beta_bps :: u16
  floor_activate :: u64
  settlement_business_days :: u8

definition spec_defaults :: params where
  "spec_defaults = (let DAY = 86400; AMBA = 1000000000; USDC = 1000000 in
     \<lparr>slash_rate_bps = 1000, max_strikes = 2, proposer_slash_bps = 10000, prize_cut_bps = 2000,
      base_fill_prize = 5 * USDC, fill_prize_slope_ppb = 0, base_update_prize = USDC,
      update_prize_slope_ppb = 0, claim_bond = USDC, challenge_bond = USDC,
      challenge_window_secs = DAY, challenge_extension_secs = DAY div 4, head_ttl_secs = 14 * DAY,
      cooldown_secs = 14 * DAY, min_delegators = 2, min_live_sources = 1,
      min_settle_weight = 1000 * AMBA, alpha_bps = 2500, floor_post = 1000 * AMBA, beta_bps = 5000,
      floor_activate = 2000 * AMBA, settlement_business_days = 5\<rparr>)"

definition max_liability_bps :: "params \<Rightarrow> u64" where
  "max_liability_bps p = liability_bps (slash_rate_bps p) (max_strikes p)"

definition validate :: "params \<Rightarrow> bool" where
  "validate p \<longleftrightarrow>
     slash_rate_bps p \<le> BPS \<and> 0 < slash_rate_bps p \<and> 0 < max_strikes p
     \<and> proposer_slash_bps p \<le> BPS \<and> prize_cut_bps p \<le> BPS \<and> alpha_bps p \<le> BPS \<and> beta_bps p \<le> BPS
     \<and> 1 \<le> min_delegators p \<and> min_delegators p \<le> 255 \<and> 1 \<le> min_live_sources p
     \<and> 0 < challenge_window_secs p \<and> 0 < settlement_business_days p"

subsection \<open>Prizes and the reward index\<close>

definition INDEX_SCALE :: u128 where
  "INDEX_SCALE = 1000000000000000000"

lemma INDEX_SCALE_pos [simp]: "0 < INDEX_SCALE"
  by (simp add: INDEX_SCALE_def)

definition split_inflow :: "u64 \<Rightarrow> u16 \<Rightarrow> u64 \<times> u64" where
  "split_inflow inflow cut_bps =
     (let prizes = cast 64 (inflow * cut_bps div BPS) in (prizes, wrapping_sub 64 inflow prizes))"

definition linear :: "u64 \<Rightarrow> u64 \<Rightarrow> u64 \<Rightarrow> u64" where
  "linear base slope_ppb delegation =
     (let extra = slope_ppb * delegation div 1000000000 in saturate 64 (base + saturate 64 extra))"

definition fill_prize :: "params \<Rightarrow> u64 \<Rightarrow> u64" where
  "fill_prize p head_delegation = linear (base_fill_prize p) (fill_prize_slope_ppb p) head_delegation"

definition update_prize :: "params \<Rightarrow> u64 \<Rightarrow> u64" where
  "update_prize p source_delegation = linear (base_update_prize p) (update_prize_slope_ppb p) source_delegation"

definition prize_payout :: "u64 \<Rightarrow> u64 \<Rightarrow> u64 \<Rightarrow> u64" where
  "prize_payout points total_points pool =
     (if total_points \<le> pool then points else cast 64 (points * pool div total_points))"

definition index_after :: "u128 \<Rightarrow> u64 \<Rightarrow> u64 \<Rightarrow> u128 option" where
  "index_after index amount live_delegation =
     (if live_delegation = 0 then None
      else Some (wrapping_add 128 index (amount * INDEX_SCALE div live_delegation)))"

definition earned :: "u64 \<Rightarrow> u128 \<Rightarrow> u128 \<Rightarrow> u64" where
  "earned amount from to =
     (let gained = to - from;
          whole = saturate 128 (amount * (gained div INDEX_SCALE));
          part = amount * (gained mod INDEX_SCALE) div INDEX_SCALE
      in saturate 64 (saturate 128 (whole + part)))"

definition prize_surplus :: "u64 \<Rightarrow> u64 \<Rightarrow> u64 \<Rightarrow> bool \<Rightarrow> u64" where
  "prize_surplus pool total_points paid all_paid =
     (if total_points \<le> pool then pool - total_points
      else if all_paid then pool - paid else 0)"

subsection \<open>Thresholds\<close>

definition min_post :: "u64 \<Rightarrow> u16 \<Rightarrow> u64 \<Rightarrow> usize \<Rightarrow> u64" where
  "min_post floor_at alpha total_delegation live_sources =
     (let n = max live_sources 1; scaled = total_delegation * alpha div BPS div n
      in max floor_at (cast 64 scaled))"

definition activation_threshold :: "u64 \<Rightarrow> u16 \<Rightarrow> u64 list \<Rightarrow> u64" where
  "activation_threshold floor_at beta live_delegations =
     (let m = (case median_u64 live_delegations of None \<Rightarrow> 0 | Some v \<Rightarrow> v);
          scaled = m * beta div BPS
      in max floor_at (cast 64 scaled))"

definition activates :: "u64 \<Rightarrow> u16 \<Rightarrow> u64 \<Rightarrow> u16 \<Rightarrow> bool" where
  "activates delegation delegators threshold least \<longleftrightarrow>
     threshold \<le> delegation \<and> least \<le> delegators"

subsection \<open>Escrow covers exactly what the remaining strikes can take\<close>

lemma slash_eq:
  assumes "rate \<le> BPS" "p < 2 ^ 64"
  shows "slash p rate = p * rate div BPS" "slash p rate \<le> p"
proof -
  have le: "p * rate div BPS \<le> p" using assms(1) by (intro div_le_of_mult_le) (auto intro: mult_le_mono)
  with assms(2) have "p * rate div BPS < 2 ^ 64" by linarith
  then show "slash p rate = p * rate div BPS" by (simp add: slash_def cast_id)
  with le show "slash p rate \<le> p" by simp
qed

lemma strike_left:
  assumes "rate \<le> BPS" "p < 2 ^ 64"
  shows "wrapping_sub 64 p (slash p rate) = p - slash p rate"
  using assms by (intro wrapping_sub_id slash_eq(2))

lemma after_strikes_le:
  assumes "rate \<le> BPS" "p < 2 ^ 64"
  shows "after_strikes p rate n \<le> p"
  using assms
proof (induction n arbitrary: p)
  case (Suc n)
  have "p - slash p rate < 2 ^ 64" using Suc.prems by linarith
  from Suc.IH [OF Suc.prems(1) this] Suc.prems show ?case by (simp add: strike_left)
qed simp

lemma escrow_required_eq:
  assumes "rate \<le> BPS" "p < 2 ^ 64"
  shows "escrow_required p rate n = p - after_strikes p rate n"
  using assms by (simp add: escrow_required_def wrapping_sub_id after_strikes_le)

lemma escrow_required_Suc:
  assumes "rate \<le> BPS" "p < 2 ^ 64"
  shows "escrow_required p rate (Suc n) = slash p rate + escrow_required (p - slash p rate) rate n"
proof -
  have "p - slash p rate < 2 ^ 64" using assms by linarith
  then show ?thesis
    using assms slash_eq(2) [OF assms] after_strikes_le [of rate "p - slash p rate" n]
    by (simp add: escrow_required_eq strike_left)
qed

text \<open>Strikes one after another on what is held, with what each one burned.\<close>

fun strikes_on :: "held \<Rightarrow> u16 \<Rightarrow> nat \<Rightarrow> held \<times> u64 list" where
  "strikes_on h rate 0 = (h, [])"
| "strikes_on h rate (Suc n) =
     (let (h', taken) = held_strike h rate; (h'', rest) = strikes_on h' rate n in (h'', taken # rest))"

text \<open>
  C21. The escrow kept on undelegation is exactly enough: with a rate of at most 100%, a delegation that
  holds at least \<open>escrow_required\<close> for the strikes its source has left pays every one of those strikes in
  full, the burned amounts add up to that escrow, and releasing \<open>releasable\<close> first leaves just that and
  takes the rest down to nothing.
\<close>

theorem escrow_covers_every_strike:
  assumes "rate \<le> BPS" "h_principal h < 2 ^ 64" "escrow_required (h_principal h) rate n \<le> h_held h"
  shows "case strikes_on h rate n of (h', burned) \<Rightarrow>
      sum_list burned = escrow_required (h_principal h) rate n
      \<and> h_principal h' = after_strikes (h_principal h) rate n
      \<and> h_held h' = releasable h (escrow_required (h_principal h) rate n)"
  using assms
proof (induction n arbitrary: h)
  case 0
  then show ?case by (simp add: escrow_required_eq releasable_def)
next
  case (Suc n)
  define p where "p = h_principal h"
  note eq = escrow_required_Suc [OF Suc.prems(1,2), of n]
  note left = strike_left [OF Suc.prems(1,2)]
  obtain h' taken where st: "held_strike h rate = (h', taken)" by (cases "held_strike h rate")
  then have h': "h_principal h' = p - slash p rate" "taken = slash p rate" "h_held h' = h_held h - slash p rate"
    using Suc.prems(3) eq left by (auto simp: held_strike_def Let_def p_def)
  have "h_principal h' < 2 ^ 64" "escrow_required (h_principal h') rate n \<le> h_held h'"
    using Suc.prems(2,3) eq by (auto simp: h' p_def)
  from Suc.IH [OF Suc.prems(1) this] show ?case
    using eq left by (auto simp: st h' p_def releasable_def split: prod.splits)
qed

theorem escrow_covers_every_strike_witness:
  "(1000::nat) \<le> BPS \<and> escrow_required 1000 1000 2 = 190
   \<and> fst (strikes_on \<lparr>h_principal = 1000, h_held = 200\<rparr> 1000 2) = \<lparr>h_principal = 810, h_held = 10\<rparr>"
proof -
  have e: "escrow_required 1000 1000 2 = 190" by code_simp
  have a: "after_strikes 1000 1000 2 = 810" by code_simp
  show ?thesis
    using escrow_covers_every_strike [of 1000 "\<lparr>h_principal = 1000, h_held = 200\<rparr>" 2] e a
    by (auto simp: BPS_def releasable_def split: prod.splits)
qed

subsection \<open>Pro rata splits keep the amount\<close>

lemma sum_list_set: "i < length xs \<Longrightarrow> sum_list (xs[i := v]) + xs ! i = sum_list xs + (v::nat)"
  by (induction xs arbitrary: i) (auto split: nat.splits)

lemma sum_div_le:
  assumes "0 < (t::nat)"
  shows "(\<Sum>w\<leftarrow>ws. a * w div t) \<le> a * sum_list ws div t"
proof (induction ws)
  case (Cons w ws)
  have "a * w div t + a * sum_list ws div t \<le> (a * w + a * sum_list ws) div t"
    using assms by (simp add: less_eq_div_iff_mult_less_eq add_mult_distrib add_mono)
  with Cons show ?case by (simp add: distrib_left)
qed simp

definition shares_upto :: "nat \<Rightarrow> nat list \<Rightarrow> nat \<Rightarrow> nat list" where
  "shares_upto amount weights k =
     map (\<lambda>i. if i < k then amount * (weights ! i) div sum_list weights else 0) [0..<length weights]"

lemma sum_shares_upto:
  assumes "k \<le> length weights"
  shows "sum_list (shares_upto amount weights k) =
    (\<Sum>w\<leftarrow>take k weights. amount * w div sum_list weights)"
proof -
  have "shares_upto amount weights k =
      map (\<lambda>w. amount * w div sum_list weights) (take k weights) @ replicate (length weights - k) 0"
    using assms by (auto simp: shares_upto_def nth_append intro!: nth_equalityI)
  then show ?thesis by (simp add: sum_list_replicate)
qed

lemma sum_take_le: "sum_list (take k ws) \<le> sum_list (ws :: nat list)"
  by (metis append_take_drop_id le_add1 sum_list_append)

lemma sum_shares_le:
  assumes "0 < sum_list weights" "k \<le> length weights"
  shows "sum_list (shares_upto amount weights k) \<le> amount"
proof -
  have "sum_list (shares_upto amount weights k) \<le> amount * sum_list (take k weights) div sum_list weights"
    using sum_div_le [OF assms(1)] assms(2) by (simp add: sum_shares_upto)
  also have "\<dots> \<le> amount * sum_list weights div sum_list weights"
    by (intro div_le_mono mult_le_mono2 sum_take_le)
  finally show ?thesis using assms(1) by simp
qed

lemma pro_rata_fold:
  assumes "0 < sum_list weights" "amount < 2 ^ 64" "k \<le> length weights"
  shows "fold (pro_rata_step amount weights (sum_list weights)) [0..<k] (replicate (length weights) 0, 0, None)
     = (shares_upto amount weights k, sum_list (shares_upto amount weights k),
        if \<exists>i<k. 0 < weights ! i then Some (Max {i. i < k \<and> 0 < weights ! i}) else None)"
  using assms(3)
proof (induction k)
  case 0
  have "shares_upto amount weights 0 = replicate (length weights) 0"
    by (auto simp: shares_upto_def intro: nth_equalityI)
  then show ?case by (simp add: sum_list_replicate)
next
  case (Suc k)
  define part where "part = amount * (weights ! k) div sum_list weights"
  have part: "part \<le> amount"
    using sum_shares_le [OF assms(1) Suc.prems, of amount] Suc.prems
    by (simp add: sum_shares_upto take_Suc_conv_app_nth part_def)
  then have c: "cast 64 part = part" using assms(2) by (intro cast_id) linarith
  have sh: "shares_upto amount weights (Suc k) = (shares_upto amount weights k)[k := part]"
    using Suc.prems by (auto simp: shares_upto_def part_def nth_list_update less_Suc_eq intro!: nth_equalityI)
  have sum: "sum_list (shares_upto amount weights (Suc k)) = sum_list (shares_upto amount weights k) + part"
    using Suc.prems by (simp add: sum_shares_upto take_Suc_conv_app_nth part_def)
  then have w: "wrapping_add 64 (sum_list (shares_upto amount weights k)) part =
      sum_list (shares_upto amount weights (Suc k))"
    using sum_shares_le [OF assms(1) Suc.prems, of amount] assms(2)
    by (simp add: wrapping_add_def)
  show ?case
  proof (cases "0 < weights ! k")
    case True
    then have "Max {i. i < Suc k \<and> 0 < weights ! i} = k" by (intro Max_eqI) auto
    with True Suc w c show ?thesis
      by (auto simp: pro_rata_step_def Let_def part_def [symmetric] sh)
  next
    case False
    then have "{i. i < Suc k \<and> 0 < weights ! i} = {i. i < k \<and> 0 < weights ! i}"
      "part = 0" by (auto simp: less_Suc_eq part_def)
    moreover have "shares_upto amount weights k ! k = 0" using Suc.prems by (simp add: shares_upto_def)
    ultimately have same: "shares_upto amount weights (Suc k) = shares_upto amount weights k"
      "{i. i < Suc k \<and> 0 < weights ! i} = {i. i < k \<and> 0 < weights ! i}"
      using sh list_update_id [of "shares_upto amount weights k" k] by simp_all
    moreover have "(\<exists>i<Suc k. 0 < weights ! i) = (\<exists>i<k. 0 < weights ! i)"
      using False by (auto simp: less_Suc_eq)
    ultimately show ?thesis
      using False Suc.IH Suc.prems by (simp only: upt_Suc_append fold_append comp_apply) (simp add: pro_rata_step_def)
  qed
qed

lemma pro_rata_facts:
  assumes "0 < sum_list weights" "amount < 2 ^ 64"
  shows "sum_list (pro_rata amount weights) = amount" "length (pro_rata amount weights) = length weights"
    "i < length weights \<Longrightarrow> weights ! i = 0 \<Longrightarrow> pro_rata amount weights ! i = 0"
    "i < length weights \<Longrightarrow> amount * (weights ! i) div sum_list weights \<le> pro_rata amount weights ! i"
proof -
  define n parts where "n = length weights" and "parts = shares_upto amount weights n"
  define j where "j = Max {i. i < n \<and> 0 < weights ! i}"
  obtain i0 where ex: "i0 < n \<and> 0 < weights ! i0"
    using assms(1) by (metis in_set_conv_nth n_def neq0_conv sum_list_eq_0_iff)
  then have "j \<in> {i. i < n \<and> 0 < weights ! i}" unfolding j_def by (intro Max_in) auto
  then have j: "j < n" "0 < weights ! j" by auto
  have le: "sum_list parts \<le> amount" unfolding parts_def n_def using assms(1) by (rule sum_shares_le) simp
  have len: "length parts = n" by (simp add: parts_def shares_upto_def n_def)
  have nth: "i < n \<Longrightarrow> parts ! i = amount * (weights ! i) div sum_list weights" for i
    by (simp add: parts_def shares_upto_def n_def)
  have "parts ! j \<le> sum_list parts" using j len by (simp add: elem_le_sum_list)
  then have w: "wrapping_add 64 (parts ! j) (wrapping_sub 64 amount (sum_list parts)) =
      parts ! j + (amount - sum_list parts)"
    using le assms(2) by (simp add: wrapping_sub_id wrapping_add_def)
  have fold: "fold (pro_rata_step amount weights (sum_list weights)) [0..<length weights]
      (replicate (length weights) 0, 0, None) = (parts, sum_list parts, Some j)"
    using pro_rata_fold [OF assms order_refl] ex by (auto simp: parts_def j_def n_def)
  have "sum_list weights \<noteq> 0" using assms(1) by (simp only: neq0_conv)
  then have pr: "pro_rata amount weights = parts[j := parts ! j + (amount - sum_list parts)]"
    unfolding pro_rata_def Let_def fold by (simp only: if_False prod.case option.case w)
  show "sum_list (pro_rata amount weights) = amount"
    using sum_list_set [of j parts "parts ! j + (amount - sum_list parts)"] j len le by (simp add: pr)
  show "length (pro_rata amount weights) = length weights" by (simp add: pr len n_def)
  show "pro_rata amount weights ! i = 0" if "i < length weights" "weights ! i = 0"
    using that j nth [of i] len by (auto simp: pr nth_list_update n_def)
  show "amount * (weights ! i) div sum_list weights \<le> pro_rata amount weights ! i" if "i < length weights"
    using that j nth [of i] len by (simp add: pr nth_list_update n_def)
qed

text \<open>
  C22. A pro-rata split pays out the whole amount whenever some weight is positive, gives every weight at
  least its rounded-down share and nothing to a zero weight.
\<close>

theorem pro_rata_pays_the_amount:
  assumes "\<exists>w\<in>set weights. 0 < w" "amount < 2 ^ 64"
  shows "sum_list (pro_rata amount weights) = amount
    \<and> length (pro_rata amount weights) = length weights
    \<and> (\<forall>i<length weights. amount * (weights ! i) div sum_list weights \<le> pro_rata amount weights ! i
         \<and> (weights ! i = 0 \<longrightarrow> pro_rata amount weights ! i = 0))"
proof -
  have "sum_list weights \<noteq> 0" using assms(1) by auto
  then have "0 < sum_list weights" by (simp only: neq0_conv)
  from pro_rata_facts [OF this assms(2)] show ?thesis by blast
qed

theorem pro_rata_pays_the_amount_witness:
  "(\<exists>w\<in>set [3, 0, 3, 1 :: nat]. 0 < w) \<and> sum_list (pro_rata 100 [3, 0, 3, 1]) = 100
   \<and> pro_rata 100 [3, 0, 3, 1] ! 1 = 0"
  using pro_rata_pays_the_amount [of "[3, 0, 3, 1]" 100] by (auto dest!: spec [of _ 1])

subsection \<open>Resolving challenges moves money and creates none\<close>

lemma sum_bonds_split:
  "sum_list (map (\<lambda>c. if won c then bond c else 0) cs) + sum_list (map bond (filter (\<lambda>c. \<not> won c) cs)) =
   sum_list (map bond cs)"
  by (induction cs) auto

lemma sum_map2_won:
  assumes "length shares = length cs" "\<And>i. i < length cs \<Longrightarrow> \<not> won (cs ! i) \<Longrightarrow> shares ! i = 0"
  shows "sum_list (map2 (\<lambda>c s. if won c then bond c + s else 0) cs shares) =
    sum_list (map (\<lambda>c. if won c then bond c else 0) cs) + sum_list shares"
  using assms
proof (induction cs arbitrary: shares)
  case (Cons c cs)
  then obtain s ss where s: "shares = s # ss" by (cases shares) auto
  have "sum_list (map2 (\<lambda>c s. if won c then bond c + s else 0) cs ss) =
      sum_list (map (\<lambda>c. if won c then bond c else 0) cs) + sum_list ss"
    using Cons.prems(1) Cons.prems(2) [of "Suc i" for i] s by (intro Cons.IH) auto
  moreover have "\<not> won c \<Longrightarrow> s = 0" using Cons.prems(2) [of 0] s by simp
  ultimately show ?case by (auto simp: s)
qed simp

definition bonds_ok :: "u64 \<Rightarrow> challenge list \<Rightarrow> bool" where
  "bonds_ok extra cs \<longleftrightarrow> extra + sum_list (map bond cs) < 2 ^ 64 \<and> (\<forall>c\<in>set cs. 0 < bond c)"

lemma winning_sum:
  assumes "bonds_ok e cs" "list_ex won cs"
  shows "0 < sum_list (map (\<lambda>c. if won c then bond c else 0) cs)"
  using assms by (induction cs) (auto simp: bonds_ok_def)

lemma sum_u64_losers:
  assumes "bonds_ok e cs"
  shows "sum_u64 (map bond (filter P cs)) = sum_list (map bond (filter P cs))"
proof -
  have "sum_list (map bond (filter P cs)) \<le> sum_list (map bond cs)" by (induction cs) auto
  with assms have "sum_list (map bond (filter P cs)) < 2 ^ 64" unfolding bonds_ok_def by linarith
  then show ?thesis by (simp add: sum_u64_def cast_id)
qed

text \<open>
  C23. A resolved claim pays out exactly what came in: with every bond positive and the sum in 64 bits,
  the claim's bond and the challengers' bonds are what goes to challengers, to the claimant and to the
  fire. A falling claim pays its claimant nothing and every winner at least its own bond; a standing one
  pays the challengers nothing and burns nothing.
\<close>

theorem resolve_claim_conserves:
  assumes "bonds_ok stake cs"
  shows "let r = resolve_claim stake cs in
    sum_list (cr_to_challengers r) + cr_to_claimant r + cr_burned r = stake + sum_list (map bond cs)
    \<and> cr_falls r = (\<exists>c\<in>set cs. won c)
    \<and> (cr_falls r \<longrightarrow> cr_to_claimant r = 0
         \<and> (\<forall>i<length cs. if won (cs ! i) then bond (cs ! i) \<le> cr_to_challengers r ! i else cr_to_challengers r ! i = 0))
    \<and> (\<not> cr_falls r \<longrightarrow> cr_burned r = 0 \<and> set (cr_to_challengers r) \<subseteq> {0})"
proof (cases "list_ex won cs")
  case False
  have "sum_u64 (map bond cs) = sum_list (map bond cs)" "wrapping_add 64 stake (sum_list (map bond cs)) = stake + sum_list (map bond cs)"
    using assms by (auto simp: bonds_ok_def sum_u64_def cast_id wrapping_add_def)
  with False show ?thesis
    by (auto simp: resolve_claim_def Let_def sum_list_replicate list_ex_iff)
next
  case True
  define winning shares where "winning = map (\<lambda>c. if won c then bond c else 0) cs"
    and "shares = pro_rata stake winning"
  have pos: "0 < sum_list winning" unfolding winning_def by (rule winning_sum [OF assms True])
  have amt: "stake < 2 ^ 64" using assms by (simp add: bonds_ok_def)
  note F = pro_rata_facts [OF pos amt, folded shares_def]
  have len: "length shares = length cs" by (simp add: F(2) winning_def)
  have zero: "shares ! i = 0" if "i < length cs" "\<not> won (cs ! i)" for i
    using F(3) [of i] that by (simp add: winning_def)
  have fits: "bond (cs ! i) + shares ! i < 2 ^ 64" if "i < length cs" for i
  proof -
    have "bond (cs ! i) \<le> sum_list (map bond cs)" using that elem_le_sum_list [of i "map bond cs"] by simp
    moreover have "shares ! i \<le> stake" using that elem_le_sum_list [of i shares] len F(1) by simp
    ultimately show ?thesis using assms unfolding bonds_ok_def by linarith
  qed
  have paid: "map2 (\<lambda>c share. if won c then wrapping_add 64 (bond c) share else 0) cs shares =
      map2 (\<lambda>c share. if won c then bond c + share else 0) cs shares"
    using fits len by (auto simp: wrapping_add_def in_set_zip)
  have r: "resolve_claim stake cs = \<lparr>cr_falls = True,
      cr_to_challengers = map2 (\<lambda>c share. if won c then bond c + share else 0) cs shares,
      cr_to_claimant = 0, cr_burned = sum_list (map bond (filter (\<lambda>c. \<not> won c) cs))\<rparr>"
    using True assms by (simp add: resolve_claim_def Let_def winning_def [symmetric] shares_def [symmetric]
        paid sum_u64_losers)
  have "sum_list (map2 (\<lambda>c share. if won c then bond c + share else 0) cs shares) = sum_list winning + stake"
    unfolding winning_def using sum_map2_won [OF len zero] F(1) by simp
  then show ?thesis
    using True sum_bonds_split [of cs] len
    by (auto simp: r Let_def winning_def list_ex_iff)
qed

theorem resolve_claim_conserves_witness:
  "let cs = [\<lparr>bond = 30, won = True\<rparr>, \<lparr>bond = 20, won = False\<rparr>]; r = resolve_claim 50 cs in
   bonds_ok 50 cs
   \<and> sum_list (cr_to_challengers r) + cr_to_claimant r + cr_burned r = 50 + sum_list (map bond cs)"
proof -
  have ok: "bonds_ok 50 [\<lparr>bond = 30, won = True\<rparr>, \<lparr>bond = 20, won = False\<rparr>]" by (simp add: bonds_ok_def)
  with resolve_claim_conserves [OF ok] show ?thesis unfolding Let_def by blast
qed

text \<open>
  A resolved source challenge: the challengers' bonds are what comes back to the winners, goes to the
  proposer or is burned, and the AMBA the winners get is exactly what the proposer's delegation lost, never
  more than it held.
\<close>

theorem resolve_source_conserves:
  assumes "bonds_ok 0 cs" "rate \<le> BPS" "p < 2 ^ 64"
  shows "let r = resolve_source cs p rate in
    sum_list (sr_bonds_to_challengers r) + sr_to_proposer r + sr_burned r = sum_list (map bond cs)
    \<and> sum_list (sr_amba_to_challengers r) = sr_proposer_slashed r \<and> sr_proposer_slashed r \<le> p
    \<and> (\<forall>i<length cs. \<not> won (cs ! i) \<longrightarrow>
         sr_bonds_to_challengers r ! i = 0 \<and> sr_amba_to_challengers r ! i = 0)"
proof (cases "list_ex won cs")
  case False
  have "sum_u64 (map bond cs) = sum_list (map bond cs)"
    using assms by (simp add: bonds_ok_def sum_u64_def cast_id)
  with False show ?thesis by (auto simp: resolve_source_def Let_def sum_list_replicate)
next
  case True
  define winning where "winning = map (\<lambda>c. if won c then bond c else 0) cs"
  have pos: "0 < sum_list winning" unfolding winning_def by (rule winning_sum [OF assms(1) True])
  have s: "slash p rate \<le> p" using assms(2,3) by (rule slash_eq)
  with assms(3) have "slash p rate < 2 ^ 64" by linarith
  note F = pro_rata_facts [OF pos this]
  show ?thesis
    using True assms(1) s F(1) F(3) sum_bonds_split [of cs]
    by (auto simp: resolve_source_def Let_def winning_def sum_u64_losers)
qed

theorem resolve_source_conserves_witness:
  "bonds_ok 0 [\<lparr>bond = 30, won = True\<rparr>] \<and> (10000::nat) \<le> BPS
   \<and> sum_list (sr_amba_to_challengers (resolve_source [\<lparr>bond = 30, won = True\<rparr>] 700 10000))
     = sr_proposer_slashed (resolve_source [\<lparr>bond = 30, won = True\<rparr>] 700 10000)"
  using resolve_source_conserves [of "[\<lparr>bond = 30, won = True\<rparr>]" 10000 700]
  by (simp add: bonds_ok_def BPS_def Let_def)

subsection \<open>Prizes and rewards stay inside the money that came in\<close>

text \<open>
  C24. An ended prize epoch accounts for its whole pool: what every prize is paid and what
  \<open>prize_surplus\<close> releases once all are paid add up to the pool, whether or not the pool covers the
  prizes.
\<close>

theorem prize_epoch_accounts_for_its_pool:
  assumes "sum_list points < 2 ^ 64" "pool < 2 ^ 64"
  shows "let paid = sum_list (map (\<lambda>p. prize_payout p (sum_list points) pool) points) in
    paid \<le> pool \<and> paid + prize_surplus pool (sum_list points) paid True = pool"
proof (cases "sum_list points \<le> pool")
  case True
  then show ?thesis by (simp add: prize_payout_def prize_surplus_def)
next
  case False
  define t where "t = sum_list points"
  have t: "0 < t" "pool < t" using False by (simp_all add: t_def)
  have each: "prize_payout p t pool = pool * p div t" if "p \<in> set points" for p
  proof -
    have "p \<le> t" using that by (simp add: t_def member_le_sum_list)
    then have "pool * p div t \<le> pool" using t by (intro div_le_of_mult_le) auto
    then have "pool * p div t < 2 ^ 64" using assms(2) by linarith
    then show ?thesis using t by (simp add: prize_payout_def cast_id mult.commute)
  qed
  have paid: "map (\<lambda>p. prize_payout p t pool) points = map (\<lambda>p. pool * p div t) points"
    using each by simp
  have "sum_list (map (\<lambda>p. pool * p div t) points) \<le> pool * t div t"
    using sum_div_le [OF t(1), of pool points] by (simp add: t_def)
  then have "sum_list (map (\<lambda>p. pool * p div t) points) \<le> pool" using t by simp
  then show ?thesis using t by (simp add: paid prize_surplus_def flip: t_def)
qed

theorem prize_epoch_accounts_for_its_pool_witness:
  "sum_list [5, 5, 5 :: nat] < 2 ^ 64 \<and> (10::nat) < 2 ^ 64
   \<and> (let paid = sum_list (map (\<lambda>p. prize_payout p (sum_list [5, 5, 5]) 10) [5, 5, 5]) in
      paid \<le> 10 \<and> paid + prize_surplus 10 (sum_list [5, 5, 5]) paid True = 10)"
  using prize_epoch_accounts_for_its_pool [of "[5, 5, 5]" 10] by simp

lemma saturate_mono_eq: "2 ^ 64 \<le> x \<Longrightarrow> saturate 64 x = 2 ^ 64 - 1"
  by (simp add: saturate_def)

lemma earned_eq:
  "earned amount from to = saturate 64 (amount * (to - from) div INDEX_SCALE)"
proof -
  define g where "g = to - from"
  have split: "amount * g div INDEX_SCALE =
      amount * (g div INDEX_SCALE) + amount * (g mod INDEX_SCALE) div INDEX_SCALE"
  proof -
    have "amount * g = amount * (g mod INDEX_SCALE) + (amount * (g div INDEX_SCALE)) * INDEX_SCALE"
      by (metis add.commute add_mult_distrib2 div_mult_mod_eq mult.assoc)
    then show ?thesis by simp
  qed
  have two: "saturate 64 (saturate 128 (saturate 128 a + b)) = saturate 64 (a + b)" for a b
    by (simp add: saturate_def)
  show ?thesis
    unfolding earned_def Let_def g_def [symmetric] split two ..
qed

text \<open>
  C25. The delegators are never paid more than the amount that reached them: when the reward index moves
  by a distribution of \<open>amount\<close> over \<open>live\<close> atoms, delegations that add up to at most \<open>live\<close> earn at most
  \<open>amount\<close> together, and each earns its exact share of the index move, rounded down, when that fits.
\<close>

theorem rewards_never_exceed_the_inflow:
  assumes "index_after idx amount live = Some idx'" "sum_list delegations \<le> live"
    "idx + amount * INDEX_SCALE div live < 2 ^ 128"
  shows "sum_list (map (\<lambda>d. earned d idx idx') delegations) \<le> amount
    \<and> (\<forall>d\<in>set delegations. d * (idx' - idx) div INDEX_SCALE < 2 ^ 64
         \<longrightarrow> earned d idx idx' = d * (amount * INDEX_SCALE div live) div INDEX_SCALE)"
proof -
  have live: "0 < live" using assms(1) by (auto simp: index_after_def split: if_splits)
  define g where "g = amount * INDEX_SCALE div live"
  have "idx' = idx + g"
    using assms(1,3) live by (simp add: index_after_def g_def wrapping_add_def)
  then have g: "idx' - idx = g" by simp
  have le: "earned d idx idx' \<le> g * d div INDEX_SCALE" for d
    by (simp add: earned_eq g saturate_def mult.commute)
  then have "sum_list (map (\<lambda>d. earned d idx idx') delegations) \<le> (\<Sum>d\<leftarrow>delegations. g * d div INDEX_SCALE)"
    by (intro sum_list_mono)
  also have "\<dots> \<le> g * sum_list delegations div INDEX_SCALE" by (rule sum_div_le) simp
  also have "\<dots> \<le> g * live div INDEX_SCALE" using assms(2) by (intro div_le_mono mult_le_mono2)
  also have "\<dots> \<le> amount * INDEX_SCALE div INDEX_SCALE"
    unfolding g_def by (intro div_le_mono) simp
  finally have "sum_list (map (\<lambda>d. earned d idx idx') delegations) \<le> amount" by simp
  moreover have "earned d idx idx' = d * g div INDEX_SCALE" if "d * (idx' - idx) div INDEX_SCALE < 2 ^ 64" for d
    using that by (simp add: earned_eq g saturate_id)
  ultimately show ?thesis by (simp add: g_def)
qed

theorem rewards_never_exceed_the_inflow_witness:
  "index_after 0 1000 7 = Some 142857142857142857142
   \<and> sum_list (map (\<lambda>d. earned d 0 142857142857142857142) [3, 4]) \<le> 1000"
proof -
  have "index_after 0 1000 7 = Some 142857142857142857142" by code_simp
  then show ?thesis
    using rewards_never_exceed_the_inflow [of 0 1000 7 142857142857142857142 "[3, 4]"]
    by (simp add: INDEX_SCALE_def)
qed

lemma spec_defaults_valid: "validate spec_defaults \<and> max_liability_bps spec_defaults = 1900"
  by code_simp

end
