(* ===== verification/Heads_Settle.thy ===== *)
theory Heads_Settle
  imports Heads_Money "HOL-Library.List_Lexorder"
begin

text \<open>
  Channels and settlement of the heads board (\<open>oracle/crates/heads/src/channels.rs\<close> and \<open>settle.rs\<close>):
  classification, origins and duplicates, listing checks, LTA prints, component settlement, the
  fixed-mix reference and the change a contract settles on. Sums over 16-bit weights and 64-bit changes
  are 128-bit in the code and cannot leave their range; they are plain sums here. A 32-byte origin
  is a byte list, a mix a list of three shares in channel order.
\<close>

definition CHANNELS :: usize where
  "CHANNELS = 3"

definition PPM :: i64 where
  "PPM = 1000000"

subsection \<open>Codes\<close>

datatype channel = Spot | Contract | Lta

definition channel_all :: "channel list" where
  "channel_all = [Spot, Contract, Lta]"

fun channel_code :: "channel \<Rightarrow> u8" where
  "channel_code Spot = 0"
| "channel_code Contract = 1"
| "channel_code Lta = 2"

definition channel_from_code :: "u8 \<Rightarrow> channel option" where
  "channel_from_code c =
     (if c = 0 then Some Spot else if c = 1 then Some Contract else if c = 2 then Some Lta else None)"

datatype mix_basis = MixNone | Assumed | Matched

fun mix_basis_code :: "mix_basis \<Rightarrow> u8" where
  "mix_basis_code MixNone = 0"
| "mix_basis_code Assumed = 1"
| "mix_basis_code Matched = 2"

definition mix_basis_from_code :: "u8 \<Rightarrow> mix_basis option" where
  "mix_basis_from_code c =
     (if c = 0 then Some MixNone else if c = 1 then Some Assumed else if c = 2 then Some Matched else None)"

datatype settlement_target = ContractChannel | FixedMixReference

fun settlement_target_code :: "settlement_target \<Rightarrow> u8" where
  "settlement_target_code ContractChannel = 0"
| "settlement_target_code FixedMixReference = 1"

definition settlement_target_from_code :: "u8 \<Rightarrow> settlement_target option" where
  "settlement_target_from_code c =
     (if c = 0 then Some ContractChannel else if c = 1 then Some FixedMixReference else None)"

datatype challenge_reason = ValueOrOther | OffChannel | DuplicateOrigin | ExpiredObservation

fun challenge_reason_code :: "challenge_reason \<Rightarrow> u8" where
  "challenge_reason_code ValueOrOther = 0"
| "challenge_reason_code OffChannel = 1"
| "challenge_reason_code DuplicateOrigin = 2"
| "challenge_reason_code ExpiredObservation = 3"

definition challenge_reason_from_code :: "u8 \<Rightarrow> challenge_reason option" where
  "challenge_reason_from_code c =
     (if c = 0 then Some ValueOrOther else if c = 1 then Some OffChannel
      else if c = 2 then Some DuplicateOrigin else if c = 3 then Some ExpiredObservation else None)"

datatype unavailable = MixBasisNone | InvalidMix

fun unavailable_code :: "unavailable \<Rightarrow> u8" where
  "unavailable_code MixBasisNone = 2"
| "unavailable_code InvalidMix = 4"

definition unavailable_from_code :: "u8 \<Rightarrow> unavailable option" where
  "unavailable_from_code c =
     (if c = 2 then Some MixBasisNone else if c = 4 then Some InvalidMix else None)"

type_synonym mix = "u16 list"

definition mix_is_valid :: "mix \<Rightarrow> bool" where
  "mix_is_valid mix \<longleftrightarrow> sum_list mix = BPS"

subsection \<open>Classification\<close>

definition LTA_MIN_MONTHS :: u16 where
  "LTA_MIN_MONTHS = 12"

record purchase_facts =
  agreed :: bool
  agreement_months :: u16
  committed_volume :: bool
  negotiated_wholesale :: bool
  delivered_in_period :: bool
  immediate_inventory :: bool

definition classify :: "purchase_facts \<Rightarrow> channel option" where
  "classify facts =
     (if \<not> agreed facts then None
      else if LTA_MIN_MONTHS \<le> agreement_months facts \<and> committed_volume facts then Some Lta
      else if negotiated_wholesale facts \<and> delivered_in_period facts then Some Contract
      else if immediate_inventory facts then Some Spot
      else None)"

subsection \<open>Origins\<close>

type_synonym origin = "byte list"

record origin_entry =
  oe_origin :: origin
  oe_live_at :: u64
  oe_head_id :: u32
  oe_counts :: bool

definition precedence_less :: "origin_entry \<Rightarrow> origin_entry \<Rightarrow> bool" where
  "precedence_less a b \<longleftrightarrow> oe_live_at a < oe_live_at b
     \<or> (oe_live_at a = oe_live_at b \<and> oe_head_id a < oe_head_id b)"

definition origin_words :: "origin \<Rightarrow> u64 list" where
  "origin_words org = map (\<lambda>k. from_le (take 8 (drop (8 * k) org))) [0..<4]"

fun words_less :: "u64 list \<Rightarrow> u64 list \<Rightarrow> bool" where
  "words_less (x # xs) (y # ys) = (if x \<noteq> y then x < y else words_less xs ys)"
| "words_less _ _ = False"

definition first_step :: "u64 list list \<Rightarrow> usize list \<Rightarrow> usize \<Rightarrow> usize \<times> usize list \<Rightarrow> usize \<times> usize list" where
  "first_step words order at st =
     (case st of (leader, first) \<Rightarrow>
        let i = order ! at;
            leader = (if at = 0 \<or> words ! (order ! (at - 1)) \<noteq> words ! i then i else leader)
        in (leader, first[i := leader]))"

definition first_of_origin :: "origin_entry list \<Rightarrow> usize list" where
  "first_of_origin entries =
     (let n = length entries;
          words = map (origin_words \<circ> oe_origin) entries;
          order = sorted_positions n (\<lambda>a b. words_less (words ! a) (words ! b))
      in snd (fold (first_step words order) [0..<length order] (0, replicate n 0)))"

fun count_origins_from :: "(usize \<times> bool) list \<Rightarrow> bool list \<Rightarrow> usize \<Rightarrow> usize" where
  "count_origins_from [] seen origins = origins"
| "count_origins_from ((g, keep) # rest) seen origins =
     (if keep \<and> \<not> seen ! g then count_origins_from rest (seen[g := True]) (origins + 1)
      else count_origins_from rest seen origins)"

definition count_origins :: "usize list \<Rightarrow> bool list \<Rightarrow> usize" where
  "count_origins first keep = count_origins_from (zip first keep) (replicate (length first) False) 0"

text \<open>\<open>usize::MAX\<close>, the mark of an origin with no counting entry yet, is \<open>None\<close>.\<close>

definition lead_step :: "origin_entry list \<Rightarrow> usize list \<Rightarrow> usize \<Rightarrow> usize option list \<Rightarrow> usize option list" where
  "lead_step entries first k lead =
     (let e = entries ! k; g = first ! k in
      if oe_counts e \<and> (case lead ! g of None \<Rightarrow> True | Some l \<Rightarrow> precedence_less e (entries ! l))
      then lead[g := Some k] else lead)"

definition duplicates_and_origins :: "origin_entry list \<Rightarrow> bool list \<Rightarrow> bool list \<times> usize" where
  "duplicates_and_origins entries also =
     (let n = length entries;
          first = first_of_origin entries;
          lead = fold (lead_step entries first) [0..<n] (replicate n None);
          flags = map (\<lambda>k. oe_counts (entries ! k) \<and> lead ! (first ! k) \<noteq> Some k) [0..<n];
          kept = map (\<lambda>k. oe_counts (entries ! k) \<and> also ! k) [0..<n]
      in (flags, count_origins first kept))"

definition duplicate_flags :: "origin_entry list \<Rightarrow> bool list" where
  "duplicate_flags entries = fst (duplicates_and_origins entries (replicate (length entries) True))"

definition distinct_origins :: "origin_entry list \<Rightarrow> usize" where
  "distinct_origins entries = count_origins (first_of_origin entries) (map oe_counts entries)"

subsection \<open>Listing and freeze\<close>

definition settles :: "settlement_target \<Rightarrow> channel \<Rightarrow> mix \<Rightarrow> bool" where
  "settles target channel mix =
     (case target of
        ContractChannel \<Rightarrow> channel = Contract
      | FixedMixReference \<Rightarrow> 0 < mix ! channel_code channel)"

definition origins_pass :: "usize \<Rightarrow> u16 \<Rightarrow> bool" where
  "origins_pass origins least \<longleftrightarrow> max least 1 \<le> origins"

definition component_lists :: "usize \<Rightarrow> u16 \<Rightarrow> bool \<Rightarrow> bool" where
  "component_lists origins least settling \<longleftrightarrow> \<not> settling \<or> origins_pass origins least"

definition listing_allowed :: "settlement_target \<Rightarrow> (mix \<times> mix_basis) list \<Rightarrow> bool" where
  "listing_allowed target items =
     (case target of
        ContractChannel \<Rightarrow> True
      | FixedMixReference \<Rightarrow> items \<noteq> [] \<and> list_all (\<lambda>(mix, basis). basis \<noteq> MixNone \<and> mix_is_valid mix) items)"

subsection \<open>Levels\<close>

definition change_ppm :: "u64 \<Rightarrow> u64 \<Rightarrow> i64 option" where
  "change_ppm opening level =
     (if opening = 0 \<or> level = 0 then None
      else checked_int 64 ((int level - int opening) * PPM sdiv int opening))"

fun max_by_ts :: "(u64 \<times> u64) list \<Rightarrow> (u64 \<times> u64) option \<Rightarrow> (u64 \<times> u64) option" where
  "max_by_ts [] best = best"
| "max_by_ts (p # ps) best =
     max_by_ts ps (case best of None \<Rightarrow> Some p | Some q \<Rightarrow> if fst p < fst q then Some q else Some p)"

definition temporal_level :: "(u64 \<times> u64) list \<Rightarrow> u64 \<Rightarrow> u64 \<Rightarrow> u64 option" where
  "temporal_level prints start end_ts =
     (let inside = map snd (filter (\<lambda>(ts, _). start \<le> ts \<and> ts \<le> end_ts) prints) in
      if inside \<noteq> [] then median_u64 inside
      else map_option snd (max_by_ts (filter (\<lambda>(ts, _). ts \<le> start) prints) None))"

record lta_terms =
  effective_from_ts :: u64
  next_reset_ts :: u64
  lt_floor :: u64
  lt_ceiling :: u64

definition lta_valid :: "lta_terms \<Rightarrow> bool" where
  "lta_valid t \<longleftrightarrow> (effective_from_ts t = 0 \<or> next_reset_ts t = 0 \<or> effective_from_ts t < next_reset_ts t)
     \<and> (lt_floor t = 0 \<or> lt_ceiling t = 0 \<or> lt_floor t \<le> lt_ceiling t)"

definition within_band :: "lta_terms \<Rightarrow> u64 \<Rightarrow> bool" where
  "within_band t v \<longleftrightarrow> (lt_floor t = 0 \<or> lt_floor t \<le> v) \<and> (lt_ceiling t = 0 \<or> v \<le> lt_ceiling t)"

definition expired_at :: "lta_terms \<Rightarrow> u64 \<Rightarrow> bool" where
  "expired_at t at \<longleftrightarrow> next_reset_ts t \<noteq> 0 \<and> next_reset_ts t \<le> at"

definition current_at :: "lta_terms \<Rightarrow> u64 \<Rightarrow> bool" where
  "current_at t at \<longleftrightarrow> effective_from_ts t \<le> at \<and> \<not> expired_at t at"

record lta_print =
  lp_source_ts :: u64
  lp_value :: u64
  lp_terms :: lta_terms

definition lta_level :: "lta_print list \<Rightarrow> u64 \<Rightarrow> u64 \<Rightarrow> u64 option" where
  "lta_level prints start end_ts =
     temporal_level (map (\<lambda>p. (lp_source_ts p, lp_value p)) (filter (\<lambda>p. current_at (lp_terms p) end_ts) prints))
       start end_ts"

definition channel_level :: "channel \<Rightarrow> lta_print list \<Rightarrow> u64 \<Rightarrow> u64 \<Rightarrow> u64 option" where
  "channel_level channel prints start end_ts =
     (case channel of
        Lta \<Rightarrow> lta_level prints start end_ts
      | _ \<Rightarrow> temporal_level (map (\<lambda>p. (lp_source_ts p, lp_value p)) prints) start end_ts)"

subsection \<open>Component settlement\<close>

record source_input =
  si_live :: bool
  si_change_ppm :: "i64 option"
  si_weight :: u64
  si_origin :: origin
  si_live_at :: u64
  si_head_id :: u32

datatype degraded = FreezeCheckFailed | TooFewOrigins | TooLittleWeight

datatype component_settlement =
  Live i64 u16 u16 u64
| LastValid i64 degraded

fun settlement_change :: "component_settlement \<Rightarrow> i64" where
  "settlement_change (Live c _ _ _) = c"
| "settlement_change (LastValid c _) = c"

fun is_live :: "component_settlement \<Rightarrow> bool" where
  "is_live (Live _ _ _ _) = True"
| "is_live (LastValid _ _) = False"

definition origin_entry_of :: "source_input \<Rightarrow> origin_entry" where
  "origin_entry_of s =
     \<lparr>oe_origin = si_origin s, oe_live_at = si_live_at s, oe_head_id = si_head_id s,
      oe_counts = (si_live s \<and> si_change_ppm s \<noteq> None \<and> 0 < si_weight s)\<rparr>"

definition eligibility :: "source_input list \<Rightarrow> bool list \<times> bool list" where
  "eligibility sources =
     (let entries = map origin_entry_of sources;
          duplicate = duplicate_flags entries
      in (map2 (\<lambda>e d. oe_counts e \<and> \<not> d) entries duplicate, duplicate))"

definition settle_eligible :: "params \<Rightarrow> source_input list \<Rightarrow> bool list \<Rightarrow> bool list \<Rightarrow> i64 \<Rightarrow> component_settlement" where
  "settle_eligible p sources eligible duplicate last_valid =
     (let eligible_count = length (filter id eligible);
          duplicate_count = length (filter id duplicate) in
      if \<not> origins_pass eligible_count (min_live_sources p) then LastValid last_valid TooFewOrigins
      else let pairs = map (\<lambda>(s, _). (case si_change_ppm s of None \<Rightarrow> 0 | Some c \<Rightarrow> c, si_weight s))
                         (filter snd (zip sources eligible));
               weight = sum_list (map snd pairs) in
        if weight < min_settle_weight p then LastValid last_valid TooLittleWeight
        else case weighted_median pairs of
            None \<Rightarrow> LastValid last_valid TooLittleWeight
          | Some c \<Rightarrow> Live c (saturate 16 eligible_count) (saturate 16 duplicate_count) (saturate 64 weight))"

definition settle_recorded :: "params \<Rightarrow> source_input list \<Rightarrow> source_input list \<Rightarrow> bool \<Rightarrow>
    component_settlement \<times> bool list \<times> bool list" where
  "settle_recorded p live at_freeze freeze_passed =
     (let (eligible, duplicate) = eligibility live;
          settlement = (if freeze_passed then settle_eligible p live eligible duplicate 0
                        else LastValid 0 FreezeCheckFailed);
          settlement = (case settlement of
             LastValid _ reason \<Rightarrow>
               LastValid (case reason of
                   FreezeCheckFailed \<Rightarrow> 0
                 | _ \<Rightarrow> let (e, d) = eligibility at_freeze in
                     (case settle_eligible p at_freeze e d 0 of Live c _ _ _ \<Rightarrow> c | LastValid _ _ \<Rightarrow> 0)) reason
           | live \<Rightarrow> live)
      in (settlement, eligible, duplicate))"

definition settle_component :: "params \<Rightarrow> source_input list \<Rightarrow> i64 \<Rightarrow> bool \<Rightarrow> component_settlement" where
  "settle_component p sources last_valid freeze_passed =
     (if \<not> freeze_passed then LastValid last_valid FreezeCheckFailed
      else let (eligible, duplicate) = eligibility sources
           in settle_eligible p sources eligible duplicate last_valid)"

definition index_change_ppm :: "(u16 \<times> i64) list \<Rightarrow> i64 option" where
  "index_change_ppm components =
     (if sum_list (map fst components) \<noteq> BPS then None
      else checked_int 64 (sum_list (map (\<lambda>(w, c). int w * c) components) sdiv int BPS))"

definition settlement_value :: "u64 \<Rightarrow> i64 \<Rightarrow> u64 option" where
  "settlement_value base change =
     (let factor = PPM + change in
      if factor \<le> 0 then Some 0
      else let scaled = cast_int 128 (cast_int 128 (int base * factor) + PPM div 2) sdiv PPM
           in if 0 \<le> scaled then checked 64 (nat scaled) else None)"

subsection \<open>The fixed-mix reference\<close>

record channel_reading =
  rd_change_ppm :: i64
  rd_degraded :: bool

definition channel_reading_new :: "component_settlement \<Rightarrow> channel_reading" where
  "channel_reading_new s = \<lparr>rd_change_ppm = settlement_change s, rd_degraded = (\<not> is_live s)\<rparr>"

datatype reference_result =
  Available i64 bool "bool list"
| Unavailable unavailable

fun reference_change :: "reference_result \<Rightarrow> i64 option" where
  "reference_change (Available c _ _) = Some c"
| "reference_change (Unavailable _) = None"

definition channel_mask :: "bool list \<Rightarrow> u8" where
  "channel_mask flags =
     fold (\<lambda>c mask. mask OR push_bit (channel_code c) 1) (filter (\<lambda>c. flags ! channel_code c) channel_all) 0"

fun degraded_mask :: "reference_result \<Rightarrow> u8" where
  "degraded_mask (Available _ _ d) = channel_mask d"
| "degraded_mask (Unavailable _) = 0"

definition mix_change_ppm :: "mix \<Rightarrow> i64 list \<Rightarrow> i64" where
  "mix_change_ppm mix changes =
     cast_int 64 (sum_list (map2 (\<lambda>m c. int m * c) mix changes) sdiv int BPS)"

definition reference :: "mix \<Rightarrow> mix_basis \<Rightarrow> channel_reading list \<Rightarrow> reference_result" where
  "reference mix basis readings =
     (if basis = MixNone then Unavailable MixBasisNone
      else if \<not> mix_is_valid mix then Unavailable InvalidMix
      else Available (mix_change_ppm mix (map rd_change_ppm readings)) (basis = Assumed)
             (map (\<lambda>c. 0 < mix ! channel_code c \<and> rd_degraded (readings ! channel_code c)) channel_all))"

record item_settlement =
  basket_weight_bps :: u16
  contract_change_ppm :: i64
  item_reference :: reference_result

definition item_change_ppm :: "item_settlement \<Rightarrow> settlement_target \<Rightarrow> unavailable + i64" where
  "item_change_ppm i target =
     (case target of
        ContractChannel \<Rightarrow> Inr (contract_change_ppm i)
      | FixedMixReference \<Rightarrow>
          (case item_reference i of Available c _ _ \<Rightarrow> Inr c | Unavailable reason \<Rightarrow> Inl reason))"

datatype refusal = BasketWeights | RefusedUnavailable usize unavailable

fun item_pairs :: "settlement_target \<Rightarrow> usize \<Rightarrow> item_settlement list \<Rightarrow> refusal + (u16 \<times> i64) list" where
  "item_pairs target item [] = Inr []"
| "item_pairs target item (i # items) =
     (case item_change_ppm i target of
        Inl reason \<Rightarrow> Inl (RefusedUnavailable item reason)
      | Inr change \<Rightarrow>
          (case item_pairs target (item + 1) items of
             Inl r \<Rightarrow> Inl r | Inr pairs \<Rightarrow> Inr ((basket_weight_bps i, change) # pairs)))"

definition change_ppm_on :: "settlement_target \<Rightarrow> item_settlement list \<Rightarrow> refusal + i64" where
  "change_ppm_on target items =
     (case item_pairs target 0 items of
        Inl r \<Rightarrow> Inl r
      | Inr pairs \<Rightarrow> (case index_change_ppm pairs of None \<Rightarrow> Inl BasketWeights | Some c \<Rightarrow> Inr c))"

definition stage1_change_ppm :: "item_settlement list \<Rightarrow> refusal + i64" where
  "stage1_change_ppm items = change_ppm_on ContractChannel items"

definition stage2_change_ppm :: "item_settlement list \<Rightarrow> refusal + i64" where
  "stage2_change_ppm items = change_ppm_on FixedMixReference items"

definition settlement_change_ppm :: "settlement_target \<Rightarrow> item_settlement list \<Rightarrow> refusal + i64" where
  "settlement_change_ppm target items = change_ppm_on target items"

subsection \<open>Origins: one counting source per origin keeps its weight\<close>

lemma words_less_lexord: "length xs = length ys \<Longrightarrow> words_less xs ys \<longleftrightarrow> xs < ys"
  by (induction xs ys rule: words_less.induct) auto

lemma length_origin_words [simp]: "length (origin_words org) = 4"
  by (simp add: origin_words_def)

lemma origin_words_inj:
  assumes "length a = 32" "length b = 32"
  shows "origin_words a = origin_words b \<longleftrightarrow> a = b"
proof
  assume "origin_words a = origin_words b"
  then have k: "take 8 (drop (8 * k) a) = take 8 (drop (8 * k) b)" if "k < 4" for k
    using that assms by (auto simp: origin_words_def from_le_inj)
  have nth: "xs ! i = take 8 (drop (8 * (i div 8)) xs) ! (i mod 8)" if "length xs = 32" "i < 32"
    for xs :: "byte list" and i
    using that by simp
  show "a = b"
  proof (rule nth_equalityI)
    show "length a = length b" using assms by simp
    show "a ! i = b ! i" if "i < length a" for i
    proof -
      have i: "i < 32" "i div 8 < 4" using that assms by auto
      have "a ! i = take 8 (drop (8 * (i div 8)) a) ! (i mod 8)" using assms(1) i(1) by (rule nth)
      also have "\<dots> = take 8 (drop (8 * (i div 8)) b) ! (i mod 8)" by (simp only: k [OF i(2)])
      also have "\<dots> = b ! i" using assms(2) i(1) by (rule nth [symmetric])
      finally show ?thesis .
    qed
  qed
qed simp

interpretation by_origin: keyed_positions
  "\<lambda>a b. words_less (map (origin_words \<circ> oe_origin) entries ! a) (map (origin_words \<circ> oe_origin) entries ! b)"
  "\<lambda>a. map (origin_words \<circ> oe_origin) entries ! a" "length entries" for entries :: "origin_entry list"
  by unfold_locales (simp add: words_less_lexord)

lemma hd_filter_take: "filter P (take k xs) \<noteq> [] \<Longrightarrow> hd (filter P (take k xs)) = hd (filter P xs)"
  by (metis append_take_drop_id filter_append hd_append2)

lemma first_steps:
  fixes words :: "u64 list list"
  assumes "sorted (map ((!) words) order)" "distinct order" "set order \<subseteq> {0..<n}" "k \<le> length order"
  defines "same \<equiv> \<lambda>i. filter (\<lambda>j. words ! j = words ! i) order"
  shows "case fold (first_step words order) [0..<k] (0, replicate n 0) of (leader, first) \<Rightarrow>
      (0 < k \<longrightarrow> leader = hd (same (order ! (k - 1)))) \<and> length first = n
      \<and> (\<forall>m<k. first ! (order ! m) = hd (same (order ! m)))"
  using assms(4)
proof (induction k)
  case (Suc k)
  obtain leader first where f: "fold (first_step words order) [0..<k] (0, replicate n 0) = (leader, first)"
    by (cases "fold (first_step words order) [0..<k] (0, replicate n 0)")
  have IH: "0 < k \<Longrightarrow> leader = hd (same (order ! (k - 1)))" "length first = n"
    "\<And>m. m < k \<Longrightarrow> first ! (order ! m) = hd (same (order ! m))"
    using Suc.IH Suc.prems by (auto simp: f)
  define i where "i = order ! k"
  define leader' where "leader' = (if k = 0 \<or> words ! (order ! (k - 1)) \<noteq> words ! i then i else leader)"
  have mono: "words ! (order ! a) \<le> words ! (order ! b)" if "a \<le> b" "b < length order" for a b
    using that assms(1) by (auto simp: sorted_iff_nth_mono)
  have leader': "leader' = hd (same i)"
  proof (cases "k = 0 \<or> words ! (order ! (k - 1)) \<noteq> words ! i")
    case True
    have "filter (\<lambda>j. words ! j = words ! i) (take k order) = []"
    proof (cases "k = 0")
      case False
      have "words ! (order ! m) \<noteq> words ! i" if "m < k" for m
      proof -
        have "words ! (order ! m) \<le> words ! (order ! (k - 1))" "words ! (order ! (k - 1)) \<le> words ! i"
          using that Suc.prems by (auto simp: i_def intro!: mono)
        with True False show ?thesis by auto
      qed
      then show ?thesis by (auto simp: filter_empty_conv in_set_conv_nth)
    qed simp
    then have "filter (\<lambda>j. words ! j = words ! i) (take (Suc k) order) = [i]"
      using Suc.prems by (simp add: take_Suc_conv_app_nth i_def)
    then show ?thesis
      using True hd_filter_take [of "\<lambda>j. words ! j = words ! i" "Suc k" order]
      by (simp add: leader'_def same_def)
  next
    case False
    then show ?thesis using IH(1) by (simp add: leader'_def same_def)
  qed
  have step: "fold (first_step words order) [0..<Suc k] (0, replicate n 0) = (leader', first[i := leader'])"
    by (simp add: f first_step_def Let_def leader'_def i_def)
  have "i \<in> set order" using Suc.prems by (simp add: i_def)
  with assms(3) have "i < n" by auto
  moreover have "order ! m \<noteq> i" if "m < k" for m
    using that Suc.prems assms(2) by (simp add: i_def nth_eq_iff_index_eq)
  ultimately show ?case
    using IH leader' unfolding step by (auto simp: less_Suc_eq nth_list_update i_def)
qed simp

lemma first_of_origin_spec:
  assumes "\<forall>e\<in>set entries. length (oe_origin e) = 32" "i < length entries"
  shows "first_of_origin entries ! i = hd (filter (\<lambda>j. oe_origin (entries ! j) = oe_origin (entries ! i)) [0..<length entries])"
    and "length (first_of_origin entries) = length entries"
proof -
  define n words where "n = length entries" and "words = map (origin_words \<circ> oe_origin) entries"
  define order where "order = sorted_positions n (\<lambda>a b. words_less (words ! a) (words ! b))"
  have order: "order = sort_key ((!) words) [0..<n]"
    unfolding order_def n_def words_def by (rule by_origin.sorted_positions_sort)
  have len: "length order = n" by (simp add: order)
  have fo: "first_of_origin entries = snd (fold (first_step words order) [0..<length order] (0, replicate n 0))"
    by (simp only: first_of_origin_def Let_def n_def words_def order_def)
  have "case fold (first_step words order) [0..<length order] (0, replicate n 0) of (leader, first) \<Rightarrow>
      (0 < length order \<longrightarrow> leader = hd (filter (\<lambda>j. words ! j = words ! (order ! (length order - 1))) order)) \<and> length first = n
      \<and> (\<forall>m<length order. first ! (order ! m) = hd (filter (\<lambda>j. words ! j = words ! (order ! m)) order))"
    by (rule first_steps) (auto simp: order distinct_sort)
  then have F: "length (first_of_origin entries) = n"
    "\<And>m. m < n \<Longrightarrow> first_of_origin entries ! (order ! m) = hd (filter (\<lambda>j. words ! j = words ! (order ! m)) order)"
    using fo len by (auto split: prod.splits)
  then show "length (first_of_origin entries) = length entries" by (simp add: n_def)
  have "i \<in> set order" using assms(2) by (simp add: order n_def)
  then obtain m where "m < length order" "order ! m = i" by (auto simp: in_set_conv_nth)
  then have "first_of_origin entries ! i = hd (filter (\<lambda>j. words ! j = words ! i) order)"
    using F(2) [of m] by (simp add: order)
  also have "filter (\<lambda>j. words ! j = words ! i) order = filter (\<lambda>j. words ! j = words ! i) [0..<n]"
    unfolding order by (rule sort_key_stable)
  also have "\<dots> = filter (\<lambda>j. oe_origin (entries ! j) = oe_origin (entries ! i)) [0..<n]"
    using assms by (intro filter_cong) (auto simp: words_def n_def origin_words_inj)
  finally show "first_of_origin entries ! i = hd (filter (\<lambda>j. oe_origin (entries ! j) = oe_origin (entries ! i)) [0..<length entries])"
    by (simp add: n_def)
qed

text \<open>The group of an entry: the position of the first entry with its origin.\<close>

definition group_of :: "origin_entry list \<Rightarrow> nat \<Rightarrow> nat" where
  "group_of entries i = hd (filter (\<lambda>j. oe_origin (entries ! j) = oe_origin (entries ! i)) [0..<length entries])"

lemma group_of_facts:
  assumes "i < length entries"
  shows "group_of entries i < length entries" "oe_origin (entries ! group_of entries i) = oe_origin (entries ! i)"
proof -
  have "filter (\<lambda>j. oe_origin (entries ! j) = oe_origin (entries ! i)) [0..<length entries] \<noteq> []"
    using assms by (auto simp: filter_empty_conv)
  from hd_in_set [OF this] show "group_of entries i < length entries"
    "oe_origin (entries ! group_of entries i) = oe_origin (entries ! i)"
    by (auto simp: group_of_def)
qed

lemma group_of_eq:
  assumes "i < length entries" "j < length entries"
  shows "group_of entries i = group_of entries j \<longleftrightarrow> oe_origin (entries ! i) = oe_origin (entries ! j)"
  using group_of_facts [OF assms(1)] group_of_facts [OF assms(2)] by (metis group_of_def)

lemma first_of_origin_map:
  assumes "\<forall>e\<in>set entries. length (oe_origin e) = 32"
  shows "first_of_origin entries = map (group_of entries) [0..<length entries]"
proof (cases "entries = []")
  case True
  then show ?thesis by (simp add: first_of_origin_def sorted_positions_def)
next
  case False
  show ?thesis
  proof (rule nth_equalityI)
    show "length (first_of_origin entries) = length (map (group_of entries) [0..<length entries])"
      using first_of_origin_spec(2) [OF assms, of 0] False by simp
    then show "first_of_origin entries ! i = map (group_of entries) [0..<length entries] ! i"
      if "i < length (first_of_origin entries)" for i
      using that first_of_origin_spec(1) [OF assms, of i] by (simp add: group_of_def)
  qed
qed

lemma count_origins_from_spec:
  assumes "\<forall>(g, k)\<in>set ps. g < length seen"
  shows "count_origins_from ps seen m = m + card {g. (g, True) \<in> set ps \<and> \<not> seen ! g}"
  using assms
proof (induction ps seen m rule: count_origins_from.induct)
  case (2 g keep rest seen origins)
  show ?case
  proof (cases "keep \<and> \<not> seen ! g")
    case True
    have "{h. (h, True) \<in> set ((g, keep) # rest) \<and> \<not> seen ! h} =
        insert g {h. (h, True) \<in> set rest \<and> \<not> seen[g := True] ! h}"
      using True 2(3) by (auto simp: nth_list_update)
    moreover have "finite {h. (h, True) \<in> set rest \<and> \<not> seen[g := True] ! h}"
      by (rule finite_subset [of _ "fst ` set rest"]) force+
    moreover have "seen[g := True] ! g" using 2(3) by simp
    ultimately show ?thesis using True 2 by simp
  next
    case False
    then have "{h. (h, True) \<in> set ((g, keep) # rest) \<and> \<not> seen ! h} = {h. (h, True) \<in> set rest \<and> \<not> seen ! h}"
      by auto
    with False 2 show ?thesis by auto
  qed
qed simp

lemma count_origins_spec:
  assumes "\<forall>e\<in>set entries. length (oe_origin e) = 32" "length keep = length entries"
  shows "count_origins (first_of_origin entries) keep =
    card {oe_origin (entries ! i) |i. i < length entries \<and> keep ! i}"
proof -
  let ?n = "length entries"
  have "count_origins (first_of_origin entries) keep =
      card {g. (g, True) \<in> set (zip (map (group_of entries) [0..<?n]) keep) \<and> \<not> replicate ?n False ! g}"
    unfolding count_origins_def first_of_origin_map [OF assms(1)]
    by (subst count_origins_from_spec) (auto simp: in_set_zip group_of_facts)
  also have "{g. (g, True) \<in> set (zip (map (group_of entries) [0..<?n]) keep) \<and> \<not> replicate ?n False ! g} =
      group_of entries ` {i. i < ?n \<and> keep ! i}"
    using assms(2) by (force simp: in_set_zip group_of_facts)
  also have "card \<dots> = card ((\<lambda>i. oe_origin (entries ! i)) ` {i. i < ?n \<and> keep ! i})"
  proof -
    have "(\<lambda>i. oe_origin (entries ! i)) ` {i. i < ?n \<and> keep ! i} =
        (\<lambda>g. oe_origin (entries ! g)) ` group_of entries ` {i. i < ?n \<and> keep ! i}"
      by (auto simp: image_image group_of_facts intro!: image_cong)
    moreover have "inj_on (\<lambda>g. oe_origin (entries ! g)) (group_of entries ` {i. i < ?n \<and> keep ! i})"
    proof (rule inj_onI, elim imageE CollectE conjE)
      fix g g' i i'
      assume "oe_origin (entries ! g) = oe_origin (entries ! g')" "g = group_of entries i" "i < ?n"
        "g' = group_of entries i'" "i' < ?n"
      then show "g = g'" by (simp add: group_of_facts group_of_eq)
    qed
    ultimately show ?thesis by (simp add: card_image)
  qed
  also have "(\<lambda>i. oe_origin (entries ! i)) ` {i. i < ?n \<and> keep ! i} = {oe_origin (entries ! i) |i. i < ?n \<and> keep ! i}"
    by auto
  finally show ?thesis .
qed

text \<open>
  The rule of precedence between two counting sources of one origin: the earlier live one, then the
  lower head id, then the earlier position.
\<close>

definition comes_before :: "origin_entry list \<Rightarrow> nat \<Rightarrow> nat \<Rightarrow> bool" where
  "comes_before entries j k \<longleftrightarrow>
     [oe_live_at (entries ! j), oe_head_id (entries ! j), j] < [oe_live_at (entries ! k), oe_head_id (entries ! k), k]"

definition is_lead :: "origin_entry list \<Rightarrow> nat \<Rightarrow> nat \<Rightarrow> bool" where
  "is_lead entries m k \<longleftrightarrow> k < m \<and> oe_counts (entries ! k)
     \<and> (\<forall>j<m. oe_counts (entries ! j) \<longrightarrow> oe_origin (entries ! j) = oe_origin (entries ! k)
           \<longrightarrow> j = k \<or> comes_before entries k j)"

lemma comes_before_trans: "comes_before es i j \<Longrightarrow> comes_before es j k \<Longrightarrow> comes_before es i k"
  unfolding comes_before_def by (rule less_trans)

lemma comes_before_asym: "comes_before es i j \<Longrightarrow> \<not> comes_before es j i"
  unfolding comes_before_def by (rule less_not_sym)

lemma precedence_comes_before:
  "precedence_less (es ! j) (es ! k) \<Longrightarrow> comes_before es j k"
  "\<not> precedence_less (es ! k) (es ! j) \<Longrightarrow> j < k \<Longrightarrow> comes_before es j k"
  by (auto simp: comes_before_def precedence_less_def)

lemma lead_fold:
  assumes "\<forall>e\<in>set entries. length (oe_origin e) = 32" "m \<le> length entries"
  defines "n \<equiv> length entries"
  defines "lead \<equiv> fold (lead_step entries (first_of_origin entries)) [0..<m] (replicate n None)"
  shows "length lead = n \<and> (\<forall>g<n. case lead ! g of
      None \<Rightarrow> \<forall>j<m. oe_counts (entries ! j) \<longrightarrow> group_of entries j \<noteq> g
    | Some k \<Rightarrow> is_lead entries m k \<and> group_of entries k = g)"
  using assms(2) unfolding lead_def
proof (induction m)
  case (Suc m)
  define lead where "lead = fold (lead_step entries (first_of_origin entries)) [0..<m] (replicate n None)"
  define g where "g = group_of entries m"
  have m: "m < n" using Suc.prems by (simp add: n_def)
  have g: "first_of_origin entries ! m = g" "g < n"
    using m group_of_facts [of m entries] by (simp_all add: first_of_origin_map [OF assms(1)] g_def n_def)
  have IH: "length lead = n" "\<And>h. h < n \<Longrightarrow> case lead ! h of
      None \<Rightarrow> \<forall>j<m. oe_counts (entries ! j) \<longrightarrow> group_of entries j \<noteq> h
    | Some k \<Rightarrow> is_lead entries m k \<and> group_of entries k = h"
    using Suc by (auto simp: lead_def)
  have step: "fold (lead_step entries (first_of_origin entries)) [0..<Suc m] (replicate n None) =
      (if oe_counts (entries ! m) \<and> (case lead ! g of None \<Rightarrow> True | Some l \<Rightarrow> precedence_less (entries ! m) (entries ! l))
       then lead[g := Some m] else lead)"
    by (simp add: lead_step_def Let_def g lead_def)
  have org: "group_of entries j = group_of entries k \<longleftrightarrow> oe_origin (entries ! j) = oe_origin (entries ! k)"
    if "j \<le> m" "k \<le> m" for j k
    using that m by (simp add: group_of_eq n_def)
  have keep: "is_lead entries (Suc m) k" if "is_lead entries m k" "oe_counts (entries ! m) \<longrightarrow> group_of entries k \<noteq> g \<or> comes_before entries k m" for k
    using that org [of m k] by (auto simp: is_lead_def less_Suc_eq g_def)
  show ?case
  proof (cases "oe_counts (entries ! m) \<and> (case lead ! g of None \<Rightarrow> True | Some l \<Rightarrow> precedence_less (entries ! m) (entries ! l))")
    case True
    have "is_lead entries (Suc m) m"
    proof (cases "lead ! g")
      case None
      then show ?thesis using IH(2) [of g] g(2) True org [of _ m] by (auto simp: is_lead_def g_def less_Suc_eq)
    next
      case (Some l)
      then have l: "is_lead entries m l" "group_of entries l = g" using IH(2) [of g] g(2) by auto
      then have "comes_before entries m l" using True Some by (simp add: precedence_comes_before)
      moreover have "comes_before entries m j" if "j < m" "oe_counts (entries ! j)" "oe_origin (entries ! j) = oe_origin (entries ! m)" for j
      proof -
        have "oe_origin (entries ! l) = oe_origin (entries ! m)"
          using l org [of l m] by (auto simp: is_lead_def g_def)
        with that l(1) have "j = l \<or> comes_before entries l j" by (auto simp: is_lead_def)
        with \<open>comes_before entries m l\<close> show ?thesis by (auto intro: comes_before_trans)
      qed
      ultimately show ?thesis using True by (auto simp: is_lead_def less_Suc_eq)
    qed
    then have "case lead[g := Some m] ! h of
        None \<Rightarrow> \<forall>j<Suc m. oe_counts (entries ! j) \<longrightarrow> group_of entries j \<noteq> h
      | Some k \<Rightarrow> is_lead entries (Suc m) k \<and> group_of entries k = h" if "h < n" for h
      using IH(2) [OF that] IH(1) g(2) keep
      by (cases "h = g") (auto simp: nth_list_update g_def less_Suc_eq split: option.splits)
    then show ?thesis unfolding step if_P [OF True] using IH(1) by simp
  next
    case False
    have "case lead ! h of
        None \<Rightarrow> \<forall>j<Suc m. oe_counts (entries ! j) \<longrightarrow> group_of entries j \<noteq> h
      | Some k \<Rightarrow> is_lead entries (Suc m) k \<and> group_of entries k = h" if "h < n" for h
    proof (cases "lead ! h")
      case None
      then show ?thesis using IH(2) [OF that] False by (auto simp: less_Suc_eq g_def)
    next
      case (Some k)
      then have k: "is_lead entries m k" "group_of entries k = h" using IH(2) [OF that] by auto
      moreover have "comes_before entries k m" if "oe_counts (entries ! m)" "h = g"
        using that False Some k(1) by (auto simp: is_lead_def intro: precedence_comes_before(2))
      ultimately show ?thesis using Some keep [of k] by auto
    qed
    then show ?thesis unfolding step if_not_P [OF False] using IH(1) by blast
  qed
qed simp

lemma is_lead_unique:
  assumes "is_lead es m k" "is_lead es m k'" "oe_origin (es ! k) = oe_origin (es ! k')"
  shows "k = k'"
  using assms by (metis comes_before_asym is_lead_def)

lemma duplicate_iff:
  assumes "\<forall>e\<in>set entries. length (oe_origin e) = 32" "k < length entries"
  shows "duplicate_flags entries ! k \<longleftrightarrow> oe_counts (entries ! k) \<and> \<not> is_lead entries (length entries) k"
proof -
  let ?n = "length entries"
  define lead where "lead = fold (lead_step entries (first_of_origin entries)) [0..<?n] (replicate ?n None)"
  define g where "g = group_of entries k"
  have L: "case lead ! g of
      None \<Rightarrow> \<forall>j<?n. oe_counts (entries ! j) \<longrightarrow> group_of entries j \<noteq> g
    | Some k \<Rightarrow> is_lead entries ?n k \<and> group_of entries k = g"
    using lead_fold [OF assms(1) order_refl, folded lead_def] group_of_facts(1) [OF assms(2), folded g_def] by blast
  have "duplicate_flags entries ! k \<longleftrightarrow> oe_counts (entries ! k) \<and> lead ! g \<noteq> Some k"
    using assms(2) by (simp add: duplicate_flags_def duplicates_and_origins_def Let_def lead_def g_def
        first_of_origin_map [OF assms(1)])
  moreover have "lead ! g = Some k \<longleftrightarrow> is_lead entries ?n k" if "oe_counts (entries ! k)"
  proof (cases "lead ! g")
    case None
    with L that assms(2) show ?thesis by (auto simp: g_def)
  next
    case (Some l)
    then have l: "is_lead entries ?n l" "group_of entries l = g" using L by auto
    then have "oe_origin (entries ! l) = oe_origin (entries ! k)"
      using group_of_eq [of l entries k] assms(2) by (simp add: is_lead_def g_def)
    with l(1) Some show ?thesis using is_lead_unique by auto
  qed
  ultimately show ?thesis by auto
qed

lemma length_duplicate_flags [simp]: "length (duplicate_flags entries) = length entries"
  by (simp add: duplicate_flags_def duplicates_and_origins_def Let_def)

lemma comes_before_total: "j \<noteq> k \<Longrightarrow> comes_before es j k \<or> comes_before es k j"
  unfolding comes_before_def by (metis list.inject neq_iff)

lemma lead_exists:
  assumes "\<forall>e\<in>set entries. length (oe_origin e) = 32" "i < length entries" "oe_counts (entries ! i)"
  shows "\<exists>k. is_lead entries (length entries) k \<and> oe_origin (entries ! k) = oe_origin (entries ! i)"
proof -
  let ?n = "length entries"
  define lead where "lead = fold (lead_step entries (first_of_origin entries)) [0..<?n] (replicate ?n None)"
  define g where "g = group_of entries i"
  have L: "case lead ! g of
      None \<Rightarrow> \<forall>j<?n. oe_counts (entries ! j) \<longrightarrow> group_of entries j \<noteq> g
    | Some k \<Rightarrow> is_lead entries ?n k \<and> group_of entries k = g"
    using lead_fold [OF assms(1) order_refl, folded lead_def] group_of_facts(1) [OF assms(2), folded g_def] by blast
  then obtain k where k: "is_lead entries ?n k" "group_of entries k = g"
    using assms(2,3) by (cases "lead ! g") (auto simp: g_def)
  then have "k < ?n" by (simp add: is_lead_def)
  then have "oe_origin (entries ! k) = oe_origin (entries ! i)"
    using group_of_eq [of k entries i] assms(2) k(2) by (simp add: g_def)
  with k(1) show ?thesis by blast
qed

lemma card_leads:
  assumes "\<forall>e\<in>set entries. length (oe_origin e) = 32"
  shows "card {k. is_lead entries (length entries) k} =
    card {oe_origin (entries ! i) |i. i < length entries \<and> oe_counts (entries ! i)}"
proof -
  have "inj_on (\<lambda>k. oe_origin (entries ! k)) {k. is_lead entries (length entries) k}"
    by (auto intro: inj_onI is_lead_unique)
  moreover have "(\<lambda>k. oe_origin (entries ! k)) ` {k. is_lead entries (length entries) k} =
      {oe_origin (entries ! i) |i. i < length entries \<and> oe_counts (entries ! i)}"
    (is "?L = ?R")
  proof
    show "?L \<subseteq> ?R" by (auto simp: is_lead_def)
    show "?R \<subseteq> ?L"
    proof
      fix x
      assume "x \<in> ?R"
      then obtain i where i: "i < length entries" "oe_counts (entries ! i)" "x = oe_origin (entries ! i)" by blast
      obtain k where "is_lead entries (length entries) k" "oe_origin (entries ! k) = x"
        using lead_exists [OF assms i(1,2)] i(3) by auto
      then show "x \<in> ?L" by blast
    qed
  qed
  ultimately show ?thesis by (metis card_image)
qed

lemma not_lead_iff:
  assumes "k < n" "oe_counts (entries ! k)"
  shows "\<not> is_lead entries n k \<longleftrightarrow>
    (\<exists>j<n. oe_counts (entries ! j) \<and> oe_origin (entries ! j) = oe_origin (entries ! k) \<and> comes_before entries j k)"
  using assms comes_before_total comes_before_asym unfolding is_lead_def by metis

lemma length_filter_map_upt: "length (filter P [0..<n]) = card {k. k < n \<and> P k}"
  by (subst distinct_card [symmetric]) (auto intro: arg_cong [of _ _ card])

text \<open>
  C15. The origin rule: a counting source is a duplicate exactly when a counting source with its origin
  comes before it (earlier live, then lower head id, then position), so of every origin one source keeps
  its weight and there are as many of those as independent origins.
\<close>

theorem one_source_per_origin:
  assumes "\<forall>e\<in>set entries. length (oe_origin e) = 32"
  shows "(\<forall>k<length entries. duplicate_flags entries ! k \<longleftrightarrow> oe_counts (entries ! k)
      \<and> (\<exists>j<length entries. oe_counts (entries ! j) \<and> oe_origin (entries ! j) = oe_origin (entries ! k)
            \<and> comes_before entries j k))
    \<and> length (filter (\<lambda>k. oe_counts (entries ! k) \<and> \<not> duplicate_flags entries ! k) [0..<length entries])
        = distinct_origins entries
    \<and> distinct_origins entries = card (oe_origin ` {e \<in> set entries. oe_counts e})"
proof (intro conjI allI impI)
  let ?n = "length entries"
  show "duplicate_flags entries ! k \<longleftrightarrow> oe_counts (entries ! k)
      \<and> (\<exists>j<?n. oe_counts (entries ! j) \<and> oe_origin (entries ! j) = oe_origin (entries ! k) \<and> comes_before entries j k)"
    if "k < ?n" for k
    using duplicate_iff [OF assms that] not_lead_iff [OF that] by blast
  have "distinct_origins entries = card {oe_origin (entries ! i) |i. i < ?n \<and> map oe_counts entries ! i}"
    unfolding distinct_origins_def by (rule count_origins_spec [OF assms]) simp
  then have d: "distinct_origins entries = card {oe_origin (entries ! i) |i. i < ?n \<and> oe_counts (entries ! i)}"
    by (simp cong: conj_cong)
  have "{k. k < ?n \<and> oe_counts (entries ! k) \<and> \<not> duplicate_flags entries ! k} = {k. is_lead entries ?n k}"
    using duplicate_iff [OF assms] by (auto simp: is_lead_def)
  then show "length (filter (\<lambda>k. oe_counts (entries ! k) \<and> \<not> duplicate_flags entries ! k) [0..<?n]) = distinct_origins entries"
    unfolding length_filter_map_upt d by (simp add: card_leads [OF assms])
  have "{oe_origin (entries ! i) |i. i < ?n \<and> oe_counts (entries ! i)} = oe_origin ` {e \<in> set entries. oe_counts e}"
    by (auto simp: in_set_conv_nth)
  then show "distinct_origins entries = card (oe_origin ` {e \<in> set entries. oe_counts e})" by (simp add: d)
qed

theorem one_source_per_origin_witness:
  "let e = \<lambda>v t. \<lparr>oe_origin = replicate 32 v, oe_live_at = t, oe_head_id = 0, oe_counts = True\<rparr>;
       es = [e 1 5, e 1 3, e 2 9] in
   length (filter (\<lambda>k. oe_counts (es ! k) \<and> \<not> duplicate_flags es ! k) [0..<length es]) = distinct_origins es
   \<and> distinct_origins es = 2"
proof -
  let ?e = "\<lambda>v t. \<lparr>oe_origin = replicate 32 v, oe_live_at = t, oe_head_id = 0, oe_counts = True\<rparr>"
  let ?es = "[?e 1 5, ?e 1 3, ?e 2 9]"
  have "oe_origin ` {e \<in> set es. oe_counts e} = set (map oe_origin (filter oe_counts es))" for es :: "origin_entry list"
    by auto
  from this [of ?es] have "oe_origin ` {e \<in> set ?es. oe_counts e} = {replicate 32 1, replicate 32 2}"
    by (simp del: list.set) simp
  moreover have "replicate 32 (1 :: byte) \<noteq> replicate 32 2" by (simp add: replicate_eq_replicate)
  ultimately have "card (oe_origin ` {e \<in> set ?es. oe_counts e}) = 2" by simp
  moreover have "\<forall>e\<in>set ?es. length (oe_origin e) = 32" by simp
  note one_source_per_origin [OF this, THEN conjunct2]
  ultimately show ?thesis unfolding Let_def by (simp only:)
qed

subsection \<open>Component settlement\<close>

definition eligible_pairs :: "source_input list \<Rightarrow> (i64 \<times> u64) list" where
  "eligible_pairs sources =
     map (\<lambda>(s, _). (case si_change_ppm s of None \<Rightarrow> 0 | Some c \<Rightarrow> c, si_weight s))
       (filter snd (zip sources (fst (eligibility sources))))"

lemma settle_component_live:
  assumes "settle_component p sources lv fp = Live c e d w"
  shows "weighted_median (eligible_pairs sources) = Some c"
    and "min_settle_weight p \<le> sum_list (map snd (eligible_pairs sources))"
    and "origins_pass (length (filter id (fst (eligibility sources)))) (min_live_sources p)"
  using assms
  by (auto simp: settle_component_def settle_eligible_def eligible_pairs_def Let_def
      split: if_splits prod.splits option.splits)

lemma weight_where_conj:
  "(\<And>x. \<not> (P x \<and> Q x)) \<Longrightarrow> weight_where P ps + weight_where Q ps \<le> sum_list (map snd ps)"
  by (induction ps) auto

lemma median_in_majority:
  assumes "sum_list (map snd ps) < 2 * weight_where (\<lambda>x. a \<le> x \<and> x \<le> b) ps"
  shows "lower_median ps v \<or> upper_median ps v \<Longrightarrow> a \<le> v \<and> v \<le> b"
proof -
  assume v: "lower_median ps v \<or> upper_median ps v"
  have "a \<le> v"
  proof (rule ccontr)
    assume "\<not> a \<le> v"
    then have "weight_where (\<lambda>x. x \<le> v) ps + weight_where (\<lambda>x. a \<le> x \<and> x \<le> b) ps \<le> sum_list (map snd ps)"
      by (intro weight_where_conj) auto
    with v assms show False by (auto simp: lower_median_def upper_median_def)
  qed
  moreover have "v \<le> b"
  proof (rule ccontr)
    assume n: "\<not> v \<le> b"
    have "weight_where (\<lambda>x. a \<le> x \<and> x \<le> b) ps \<le> weight_where (\<lambda>x. x < v) ps"
      using n by (induction ps) auto
    with v assms show False by (auto simp: lower_median_def upper_median_def)
  qed
  ultimately show ?thesis ..
qed

lemma midpoint_between: "a \<le> lo \<Longrightarrow> lo \<le> b \<Longrightarrow> a \<le> hi \<Longrightarrow> hi \<le> b \<Longrightarrow>
    a \<le> midpoint_toward_zero lo hi \<and> midpoint_toward_zero lo hi \<le> b"
  unfolding midpoint_toward_zero_div by presburger

lemma weighted_median_Some:
  assumes "weighted_median ps = Some m"
  obtains lo hi where "lower_median ps lo" "upper_median ps hi" "m = midpoint_toward_zero lo hi"
proof -
  have "sum_list (map snd ps) \<noteq> 0"
    using assms by (auto simp only: weighted_median_def Let_def split: if_splits)
  then have "0 < sum_list (map snd ps)" by (simp only: neq0_conv)
  from weighted_median_halves [OF this] assms that show ?thesis by auto
qed

text \<open>
  C16. A component that settles live follows the weighted majority: when the eligible sources whose changes
  lie between \<open>a\<close> and \<open>b\<close> hold more than half of the eligible weight, the settled change lies there too,
  whatever the others print; it settled on at least \<open>min_settle_weight\<close> and \<open>min_live_sources\<close> origins.
\<close>

theorem settlement_follows_the_majority:
  assumes "settle_component p sources last_valid passed = Live c e d w"
    "sum_list (map snd (eligible_pairs sources)) < 2 * weight_where (\<lambda>x. a \<le> x \<and> x \<le> b) (eligible_pairs sources)"
  shows "a \<le> c \<and> c \<le> b \<and> min_settle_weight p \<le> sum_list (map snd (eligible_pairs sources))
    \<and> max (min_live_sources p) 1 \<le> length (filter id (fst (eligibility sources)))"
proof -
  note L = settle_component_live [OF assms(1)]
  obtain lo hi where m: "lower_median (eligible_pairs sources) lo" "upper_median (eligible_pairs sources) hi"
    "c = midpoint_toward_zero lo hi"
    using L(1) by (rule weighted_median_Some)
  have "a \<le> lo \<and> lo \<le> b" "a \<le> hi \<and> hi \<le> b" using median_in_majority [OF assms(2)] m by blast+
  with m(3) midpoint_between L(2,3) show ?thesis by (auto simp: origins_pass_def)
qed

definition src :: "byte \<Rightarrow> int \<Rightarrow> nat \<Rightarrow> source_input" where
  "src v c w = \<lparr>si_live = True, si_change_ppm = Some c, si_weight = w, si_origin = replicate 32 v,
     si_live_at = 1, si_head_id = 1\<rparr>"

theorem settlement_follows_the_majority_witness:
  "settle_component (spec_defaults\<lparr>min_settle_weight := 1\<rparr>) [src 1 10 5, src 2 12 4, src 3 900 3] 0 True = Live 12 3 0 12
   \<and> (10::int) \<le> 12 \<and> (12::int) \<le> 12"
proof -
  let ?ss = "[src 1 10 5, src 2 12 4, src 3 900 3]"
  have e: "settle_component (spec_defaults\<lparr>min_settle_weight := 1\<rparr>) ?ss 0 True = Live 12 3 0 12" by code_simp
  have "eligible_pairs ?ss = [(10, 5), (12, 4), (900, 3)]" by code_simp
  then show ?thesis using settlement_follows_the_majority [OF e, of 10 12] e by simp
qed

lemma comes_before_append:
  "k < length es \<Longrightarrow> j < length es \<Longrightarrow> comes_before (es @ [e]) k j \<longleftrightarrow> comes_before es k j"
  by (simp add: comes_before_def nth_append)

lemma is_lead_append:
  assumes "k < length es"
    and "\<And>k. is_lead es (length es) k \<Longrightarrow> oe_origin (es ! k) = oe_origin e \<Longrightarrow> comes_before (es @ [e]) k (length es)"
  shows "is_lead (es @ [e]) (Suc (length es)) k \<longleftrightarrow> is_lead es (length es) k"
proof
  assume l: "is_lead (es @ [e]) (Suc (length es)) k"
  show "is_lead es (length es) k"
    unfolding is_lead_def
  proof (intro conjI allI impI)
    show "oe_counts (es ! k)" using l assms(1) by (simp add: is_lead_def nth_append)
    fix j
    assume j: "j < length es" "oe_counts (es ! j)" "oe_origin (es ! j) = oe_origin (es ! k)"
    with l assms(1) have "j = k \<or> comes_before (es @ [e]) k j" by (auto simp: is_lead_def nth_append)
    with j(1) assms(1) show "j = k \<or> comes_before es k j" by (simp add: comes_before_append)
  qed (rule assms(1))
next
  assume l: "is_lead es (length es) k"
  show "is_lead (es @ [e]) (Suc (length es)) k"
    unfolding is_lead_def
  proof (intro conjI allI impI)
    show "oe_counts ((es @ [e]) ! k)" using l assms(1) by (simp add: is_lead_def nth_append)
    fix j
    assume j: "j < Suc (length es)" "oe_counts ((es @ [e]) ! j)" "oe_origin ((es @ [e]) ! j) = oe_origin ((es @ [e]) ! k)"
    show "j = k \<or> comes_before (es @ [e]) k j"
    proof (cases "j = length es")
      case True
      with j assms(1) have "oe_origin (es ! k) = oe_origin e" by (simp add: nth_append)
      with assms(2) [OF l] True show ?thesis by simp
    next
      case False
      with j l assms(1) show ?thesis by (auto simp: is_lead_def nth_append comes_before_append)
    qed
  qed (use assms(1) in simp)
qed

lemma eligibility_nth:
  assumes "\<forall>s\<in>set sources. length (si_origin s) = 32"
  shows "fst (eligibility sources) =
    map (is_lead (map origin_entry_of sources) (length sources)) [0..<length sources]"
proof (rule nth_equalityI)
  let ?es = "map origin_entry_of sources"
  have o: "\<forall>e\<in>set ?es. length (oe_origin e) = 32" using assms by (auto simp: origin_entry_of_def)
  show "length (fst (eligibility sources)) = length (map (is_lead ?es (length sources)) [0..<length sources])"
    by (simp add: eligibility_def Let_def)
  fix i
  assume "i < length (fst (eligibility sources))"
  then have i: "i < length sources" by (simp add: eligibility_def Let_def)
  then show "fst (eligibility sources) ! i = map (is_lead ?es (length sources)) [0..<length sources] ! i"
    using duplicate_iff [OF o, of i] by (auto simp: eligibility_def Let_def is_lead_def)
qed

lemma eligible_pairs_append_duplicate:
  assumes "\<forall>s\<in>set (sources @ [s]). length (si_origin s) = 32" "j < length sources"
    "oe_counts (origin_entry_of (sources ! j))" "si_origin (sources ! j) = si_origin s"
    "\<not> precedence_less (origin_entry_of s) (origin_entry_of (sources ! j))"
  shows "fst (eligibility (sources @ [s])) = fst (eligibility sources) @ [False]"
proof -
  let ?es = "map origin_entry_of sources" and ?n = "length sources"
  let ?all = "map origin_entry_of (sources @ [s])"
  have all: "?all = ?es @ [origin_entry_of s]" by simp
  have jn: "comes_before ?all j ?n"
    using assms(2,5) by (intro precedence_comes_before(2)) (auto simp: nth_append)
  have org: "oe_origin (?es ! j) = oe_origin (origin_entry_of s)"
    using assms(2,4) by (simp add: origin_entry_of_def)
  have lead: "comes_before (?es @ [origin_entry_of s]) k ?n" if "is_lead ?es ?n k"
    "oe_origin (?es ! k) = oe_origin (origin_entry_of s)" for k
  proof (cases "j = k")
    case True
    with jn all show ?thesis by simp
  next
    case False
    with that assms(2,3) org have "comes_before ?es k j" by (auto simp: is_lead_def)
    with that(1) assms(2) have "comes_before ?all k j" by (simp add: comes_before_def nth_append is_lead_def)
    with jn all comes_before_trans show ?thesis by metis
  qed
  have "map (is_lead ?all (length (sources @ [s]))) [0..<?n] = map (is_lead ?es ?n) [0..<?n]"
    using is_lead_append [of _ ?es "origin_entry_of s"] lead by simp
  moreover have "\<not> is_lead ?all (length (sources @ [s])) ?n"
  proof
    assume "is_lead ?all (length (sources @ [s])) ?n"
    then have "j = ?n \<or> comes_before ?all ?n j"
      unfolding is_lead_def using assms(2,3) org
      by (auto simp: nth_append dest!: spec [of _ j])
    with jn comes_before_asym assms(2) show False by auto
  qed
  moreover have "fst (eligibility (sources @ [s])) =
      map (is_lead ?all (length (sources @ [s]))) [0..<?n] @ [is_lead ?all (length (sources @ [s])) ?n]"
    unfolding eligibility_nth [OF assms(1)] by simp
  moreover have "fst (eligibility sources) = map (is_lead ?es ?n) [0..<?n]"
    using assms(1) by (intro eligibility_nth) simp
  ultimately show ?thesis by (simp only:)
qed

lemma settle_eligible_cong:
  assumes "length (filter id e) = length (filter id e')" "filter snd (zip ss e) = filter snd (zip ss' e')"
  shows "settlement_change (settle_eligible p ss e d lv) = settlement_change (settle_eligible p ss' e' d' lv)"
    "is_live (settle_eligible p ss e d lv) = is_live (settle_eligible p ss' e' d' lv)"
  unfolding settle_eligible_def Let_def assms by (simp_all split: option.split)

text \<open>
  C17. Repeating an origin buys nothing: a further source with the origin of a counting source that it
  does not precede leaves the component's settlement as it was (its change, and whether it is live).
\<close>

theorem duplicate_origin_changes_nothing:
  assumes "\<forall>s\<in>set (sources @ [s]). length (si_origin s) = 32" "j < length sources"
    "oe_counts (origin_entry_of (sources ! j))" "si_origin (sources ! j) = si_origin s"
    "\<not> precedence_less (origin_entry_of s) (origin_entry_of (sources ! j))"
  shows "settlement_change (settle_component p (sources @ [s]) lv fp) = settlement_change (settle_component p sources lv fp)
    \<and> is_live (settle_component p (sources @ [s]) lv fp) = is_live (settle_component p sources lv fp)"
proof -
  have len: "length (fst (eligibility sources)) = length sources" by (simp add: eligibility_def Let_def)
  let ?e = "fst (eligibility sources)" and ?e' = "fst (eligibility (sources @ [s]))"
  have e': "?e' = ?e @ [False]" by (rule eligible_pairs_append_duplicate [OF assms])
  have "length (filter id ?e') = length (filter id ?e)" by (simp add: e')
  moreover have "filter snd (zip (sources @ [s]) ?e') = filter snd (zip sources ?e)"
    using len by (simp add: e')
  ultimately show ?thesis
    using settle_eligible_cong [of ?e' ?e "sources @ [s]" sources p "snd (eligibility (sources @ [s]))" lv
        "snd (eligibility sources)"]
    by (simp add: settle_component_def case_prod_unfold Let_def)
qed

theorem duplicate_origin_changes_nothing_witness:
  "let ss = [src 1 10 5, src 2 12 4] in
   settlement_change (settle_component (spec_defaults\<lparr>min_settle_weight := 1\<rparr>) (ss @ [src 2 900 1000]) 0 True)
   = settlement_change (settle_component (spec_defaults\<lparr>min_settle_weight := 1\<rparr>) ss 0 True)"
  using duplicate_origin_changes_nothing [of "[src 1 10 5, src 2 12 4]" "src 2 900 1000" 1
      "spec_defaults\<lparr>min_settle_weight := 1\<rparr>" 0 True]
  by (simp add: src_def origin_entry_of_def precedence_less_def)

subsection \<open>What a contract settles on\<close>

lemma sdiv_bounds:
  assumes "0 < (k::int)" "a * k \<le> x" "x \<le> b * k"
  shows "a \<le> x sdiv k" "x sdiv k \<le> b"
proof -
  have q: "x sdiv k = (if 0 \<le> x then x div k else - ((- x) div k))"
    using assms(1) by (auto simp: signed_divide_int_def sgn_if)
  have "a \<le> x sdiv k \<and> x sdiv k \<le> b"
  proof (cases "0 \<le> x")
    case True
    have "a \<le> x div k" using assms zdiv_mono1 [of "a * k" x k] by simp
    moreover have "x div k \<le> b" using assms zdiv_mono1 [of x "b * k" k] by simp
    ultimately show ?thesis using True q by simp
  next
    case False
    have "(- x) div k \<le> ((- a) * k) div k" using assms by (intro zdiv_mono1) auto
    moreover have "((- b) * k) div k \<le> (- x) div k" using assms by (intro zdiv_mono1) auto
    moreover have "((- a) * k) div k = - a" "((- b) * k) div k = - b"
      using assms(1) by (intro nonzero_mult_div_cancel_right; simp)+
    ultimately have "(- x) div k \<le> - a" "- b \<le> (- x) div k" by (simp_all only:)
    then show ?thesis using False q by simp
  qed
  then show "a \<le> x sdiv k" "x sdiv k \<le> b" by auto
qed

lemma weighted_sum_bounds:
  assumes "\<forall>(w, c)\<in>set cs. a \<le> c \<and> c \<le> b"
  shows "a * int (sum_list (map fst cs)) \<le> sum_list (map (\<lambda>(w, c). int w * c) cs)
    \<and> sum_list (map (\<lambda>(w, c). int w * c) cs) \<le> b * int (sum_list (map fst cs))"
  using assms
proof (induction cs)
  case (Cons p cs)
  obtain w c where p: "p = (w, c)" by (cases p)
  have "int w * a \<le> int w * c" "int w * c \<le> int w * b"
    using Cons.prems p by (auto intro: mult_left_mono)
  with Cons show ?case by (auto simp: p algebra_simps)
qed simp

lemma in_int_between: "in_int w a \<Longrightarrow> in_int w b \<Longrightarrow> a \<le> x \<Longrightarrow> x \<le> b \<Longrightarrow> in_int w x"
  by (auto simp: in_int_def)

lemma index_change_bounds:
  assumes "sum_list (map fst cs) = BPS" "\<forall>(w, c)\<in>set cs. a \<le> c \<and> c \<le> b" "in_int 64 a" "in_int 64 b"
  shows "\<exists>c. index_change_ppm cs = Some c \<and> a \<le> c \<and> c \<le> b"
proof -
  let ?x = "sum_list (map (\<lambda>(w, c). int w * c) cs)"
  have "0 < int BPS" by (simp add: BPS_def)
  then have "a \<le> ?x sdiv int BPS" "?x sdiv int BPS \<le> b"
    using weighted_sum_bounds [OF assms(2)] unfolding assms(1) by (blast intro: sdiv_bounds)+
  moreover from this have "in_int 64 (?x sdiv int BPS)" by (rule in_int_between [OF assms(3,4)])
  ultimately show ?thesis using assms(1) by (simp add: index_change_ppm_def checked_int_def)
qed

lemma reference_bounds:
  assumes "basis \<noteq> MixNone" "mix_is_valid mix" "length readings = length mix"
    "\<forall>r\<in>set readings. a \<le> rd_change_ppm r \<and> rd_change_ppm r \<le> b" "in_int 64 a" "in_int 64 b"
  shows "\<exists>c d. reference mix basis readings = Available c (basis = Assumed) d \<and> a \<le> c \<and> c \<le> b"
proof -
  let ?cs = "zip mix (map rd_change_ppm readings)"
  let ?x = "sum_list (map2 (\<lambda>m c. int m * c) mix (map rd_change_ppm readings))"
  have fst: "sum_list (map fst ?cs) = BPS" using assms(2,3) by (simp add: mix_is_valid_def)
  have "\<forall>(w, c)\<in>set ?cs. a \<le> c \<and> c \<le> b" using assms(4) by (fastforce dest: set_zip_rightD)
  note W = weighted_sum_bounds [OF this, unfolded fst]
  have "0 < int BPS" by (simp add: BPS_def)
  then have B: "a \<le> ?x sdiv int BPS" "?x sdiv int BPS \<le> b"
    using W by (blast intro: sdiv_bounds)+
  then have "in_int 64 (?x sdiv int BPS)" by (rule in_int_between [OF assms(5,6)])
  then have "cast_int 64 (?x sdiv int BPS) = ?x sdiv int BPS" by (rule cast_int_id) simp
  with B assms(1,2) show ?thesis by (simp add: reference_def mix_change_ppm_def)
qed

text \<open>An item as a listed contract settles it: its reference over its own mix and channel readings.\<close>

record listed_item =
  li_mix :: mix
  li_basis :: mix_basis
  li_basket_weight :: u16
  li_readings :: "channel_reading list"

definition settle_item :: "listed_item \<Rightarrow> item_settlement" where
  "settle_item i =
     \<lparr>basket_weight_bps = li_basket_weight i,
      contract_change_ppm = rd_change_ppm (li_readings i ! channel_code Contract),
      item_reference = reference (li_mix i) (li_basis i) (li_readings i)\<rparr>"

lemma item_pairs_fixed:
  assumes "\<forall>i\<in>set items. \<exists>c. item_change_ppm i target = Inr c \<and> a \<le> c \<and> c \<le> b"
  shows "\<exists>pairs. item_pairs target k items = Inr pairs \<and> map fst pairs = map basket_weight_bps items
    \<and> (\<forall>(w, c)\<in>set pairs. a \<le> c \<and> c \<le> b)"
  using assms
proof (induction target k items rule: item_pairs.induct)
  case (2 target item i items)
  then obtain c pairs where "item_change_ppm i target = Inr c" "a \<le> c" "c \<le> b"
    "item_pairs target (item + 1) items = Inr pairs" "map fst pairs = map basket_weight_bps items"
    "\<forall>(w, c)\<in>set pairs. a \<le> c \<and> c \<le> b"
    by (fastforce)
  then show ?case by auto
qed simp

text \<open>
  C18. A listed contract always settles: when the listing check passes for its target, its basket weights
  add up to 10,000 and every item has its three channel readings, the settlement change is defined
  (never refused) and lies between the least and the greatest channel change.
\<close>

theorem listed_contract_settles:
  assumes "listing_allowed target (map (\<lambda>i. (li_mix i, li_basis i)) items)"
    "sum_list (map li_basket_weight items) = BPS"
    "\<forall>i\<in>set items. length (li_mix i) = 3 \<and> length (li_readings i) = 3
       \<and> (\<forall>r\<in>set (li_readings i). a \<le> rd_change_ppm r \<and> rd_change_ppm r \<le> b)"
    "in_int 64 a" "in_int 64 b"
  shows "\<exists>c. settlement_change_ppm target (map settle_item items) = Inr c \<and> a \<le> c \<and> c \<le> b"
proof -
  have each: "\<exists>c. item_change_ppm (settle_item i) target = Inr c \<and> a \<le> c \<and> c \<le> b" if i: "i \<in> set items" for i
  proof (cases target)
    case ContractChannel
    have "li_readings i ! channel_code Contract \<in> set (li_readings i)" using assms(3) i by simp
    with ContractChannel assms(3) i show ?thesis by (simp add: item_change_ppm_def settle_item_def)
  next
    case FixedMixReference
    then have "li_basis i \<noteq> MixNone" "mix_is_valid (li_mix i)"
      using assms(1) i by (auto simp: listing_allowed_def list_all_iff)
    from reference_bounds [OF this, of "li_readings i" a b] assms(3-5) i FixedMixReference show ?thesis
      by (auto simp: item_change_ppm_def settle_item_def)
  qed
  obtain pairs where P: "item_pairs target 0 (map settle_item items) = Inr pairs"
    "map fst pairs = map basket_weight_bps (map settle_item items)" "\<forall>(w, c)\<in>set pairs. a \<le> c \<and> c \<le> b"
    using item_pairs_fixed [of "map settle_item items" target a b 0] each by auto
  have "map basket_weight_bps (map settle_item items) = map li_basket_weight items"
    by (simp add: settle_item_def)
  then have "sum_list (map fst pairs) = BPS" using P(2) assms(2) by (simp only:)
  from index_change_bounds [OF this P(3) assms(4,5)] P(1) show ?thesis
    by (auto simp: settlement_change_ppm_def change_ppm_on_def)
qed

theorem listed_contract_settles_witness:
  "let rd = \<lambda>c. \<lparr>rd_change_ppm = c, rd_degraded = False\<rparr>;
       item = \<lparr>li_mix = [3000, 5000, 2000], li_basis = Assumed, li_basket_weight = 10000,
               li_readings = [rd 100, rd (- 50), rd 7]\<rparr> in
   \<exists>c. settlement_change_ppm FixedMixReference (map settle_item [item]) = Inr c \<and> - 50 \<le> c \<and> c \<le> 100"
  unfolding Let_def
  by (rule listed_contract_settles) (simp_all add: listing_allowed_def mix_is_valid_def BPS_def in_int_def)

end
