(* ===== verification/Spec2Isabelle.thy ===== *)
theory Spec2Isabelle
  imports Package Accounts Stake_Solvency Market_Promises Trading Step_Least Heads_Time Heads_Median Heads_Money Heads_Settle
begin

text \<open>
  A verification library for the range-futures program and the settlement rules of its oracle.

  \<^bold>\<open>The program.\<close> A market trades claims on where an index will settle. A long claim on the steps \<open>[lo, hi)\<close> pays how far
  the settlement reaches into the range, a short claim the rest, so a long and a short together, a set, always pay the
  backing of the range. Orders and maker ladders rest in one book; a taker submits a package, the lots filled on every
  arc of the book, and the program verifies on chain that it is feasible, cheapest, maximal and first in time before
  it executes it. Makers may be funded by a stake pool that lends to them, paid out of profit and covering losses. The
  oracle decides the settlement from many sources by weighted medians and publishes it in a period account.

  \<^bold>\<open>How the code is read.\<close> An unsigned integer of \<open>w\<close> bits is a natural number with its bound checked, saturated,
  truncated or wrapped where the code does so, a signed one an integer (\<open>Rust_Base\<close>). Where an instruction may abort
  (an overflow of plain arithmetic, an index out of range, an \<open>unwrap\<close>) the model returns \<open>None\<close>; an error of the code is
  \<open>Some (Inl e)\<close>; a result is \<open>Some (Inr x)\<close> (\<open>Checked_Loops\<close>, \<open>Results\<close>). Sums that stay far below their width whatever
  is stored (lots over a grid in 128 bits) are left unbounded, and so are lengths of vectors. An aborted or failed instruction changes nothing on chain, so
  theorems on what instructions do speak of results, and theorems on what is always possible show that there is one.
  Loops are recursion on the data they walk; those that do not shrink it (the strongly connected components, the
  search, the byte readers, the walk along the knots) have a termination proof by a measure, and no definition uses
  fuel but the search, which counts the work its caller allows as the code does.

  \<^bold>\<open>The market\<close> (\<open>src/futures/programs/futures/src\<close>).
  \<^item> \<open>Byte_Store\<close>, \<open>Market_Records\<close>, \<open>Accounts\<close>: the layouts of \<open>state.rs\<close>, byte for byte. The locales \<open>record_codec\<close> and
    \<open>account_codec\<close> say what a record in an arena and an account promise (what is written reads back, nothing else
    changes) and are interpreted for each of them.
  \<^item> \<open>Market_Ledger\<close>: the market as the instructions of \<open>processor.rs\<close> see it, cash buckets, trader slots, \<open>repay\<close>, \<open>fund\<close>,
    the \<open>audit\<close> and \<open>store\<close>. \<open>Claim_Table\<close>: claim slots, holds, redemption, the netting plan and \<open>place\<close>.
  \<^item> \<open>Market_Instructions\<close>: deposit, withdraw, cancel, cancel a quote, split, merge, redeem, transfer, finalize, the
    settlement of the council, settle, settle a maker, prune, and who may act for a trader. A deposit or withdrawal is
    given its token accounts and what the token program answers (\<open>cash_accounts\<close>) and checks them as the code does; the
    operator of a legacy pool, which only development builds know, is left out of \<open>authorize\<close>. \<open>Market_Creation\<close>:
    \<open>create_market\<close>. \<open>Oracle_Period\<close>: the period account of \<open>oracle-interface\<close> that finalize and trading read.
  \<^item> \<open>Proposal\<close>, \<open>Ladders\<close>, \<open>Trading\<close>: the encoding of a package (\<open>codec.rs\<close>), the tiers of a ladder, the arcs of the
    book, \<open>submit\<close> and \<open>quote\<close>. \<open>Trader_Value\<close>, \<open>Credit_Risk\<close>: the least and the most a trader holds over every settlement,
    and what the position of the credit owner may cost, in the 128-bit and the 64-bit form of the code, which the
    trading instructions compare with the credit limit and the debt. \<open>Trader_Range\<close> shows that the value is the exact range
    of what the trader is worth, \<open>Step_Least\<close> that the greedy walk over one step's resting lots finds the least.
  \<^item> \<open>Market_Worth\<close> gives the meaning: what a set of traders is worth at every settlement, and how each operation on
    claims changes it. \<open>Market_Audit\<close> brings the audit into closed form. \<open>Market_Invariant\<close> and \<open>Market_Safety\<close> show that
    the instructions on cash, claims and settlement keep a market sound (it passes the audit, every claim has a shape
    on the grid, and the backing pays every claim at every settlement).
  \<^item> Trades: \<open>Market_Holds\<close> follows the orders and the claims they hold through a fill, \<open>Market_Fills\<close> shows what the
    fills of orders and ladder steps give their owners, \<open>Market_Book\<close> that the lots of an accepted package cancel at
    every settlement, \<open>Market_Trade\<close> what the taker's part and its resting order do, \<open>Market_Submit\<close> puts them together
    for \<open>submit\<close> and \<open>quote\<close>, and \<open>Market_Orderly\<close> shows that every other instruction keeps the book orderly (orders
    shaped, no two of them holding one claim, unused ladders without inventory).
  \<^item> \<open>Market_Run\<close> shows that runs of instructions, trades included, are runs of an abstract ledger (the locale
    \<open>simulation\<close> of \<open>Refinement\<close>, interpreted on sound and orderly markets), \<open>Market_Promises\<close> states what follows for a
    trader, from the creation of the market on, and that every instruction that acts for a trader was signed for it. The
    grid is assumed to fit (\<open>grid * k < 2 ^ 64\<close> and \<open>grid < 65535\<close>; \<open>create_market\<close> checks neither). A run is made of the fifteen
    instructions of \<open>market_step\<close>: the writers of a market that fund, defund and settle its credit, pay the recovery or
    act for an Earn vault are not among them. A sound market may already have credit; one that was only created and
    run has none.

  \<^bold>\<open>Packages\<close> (\<open>src/futures/crates/futures-math/src\<close>). \<open>Payoff\<close>: \<open>payoff.rs\<close>. The check of \<open>verify.rs\<close> stands twice. As the
  code runs it, in \<open>Zero_Checks\<close> (the residual graph, its components, cuts and search) and \<open>Package\<close> (\<open>verify\<close>, the taker's
  premium of \<open>lib.rs\<close>), every index, slice and counter is checked and a miss is \<open>None\<close>. The plain forms of \<open>Zero_Graph\<close> and
  \<open>Package_Rules\<close> index without checks; they carry the correctness proofs and are not claimed of the code. Where a
  checked function answers it answers as the plain one does (the lemmas named \<open>_plain\<close>), and on the graph of a bounded
  book it always answers: the locale \<open>csr_graph\<close> states what the compressed adjacency promises, \<open>csr_room\<close> adds the room
  its counters need, and \<open>built_room\<close> interprets it on the graph the code builds. So an accepted package is feasible, of
  least cost, maximal, unique and first in time, the taker trades within its limit, and the check never aborts over a
  grid below 65,535 steps, with fewer than \<open>2 ^ 31\<close> arcs, prices below \<open>2 ^ 63\<close> and a work limit below \<open>2 ^ 63\<close>.

  \<^bold>\<open>Staking and credit\<close> (\<open>state.rs\<close>, \<open>processor.rs\<close>, \<open>price_source.rs\<close>). \<open>Wide_Arith\<close>: the 256-bit arithmetic and the AMBA
  price. \<open>Credit\<close>: the credit a market's header keeps. \<open>Staking\<close>, \<open>Stake_Ledger\<close>: the stake pool, its share epochs and
  its instructions. \<open>Stake_Solvency\<close>: over every run shares, pending USDC and stream rewards are covered; the argument
  on one accumulator is made once, in the locale \<open>accumulator\<close>.

  \<^bold>\<open>The settlement rules of the oracle\<close> (\<open>src/oracle/crates/heads/src\<close>). \<open>Heads_Time\<close>, \<open>Heads_Median\<close>, \<open>Heads_Money\<close>,
  \<open>Heads_Settle\<close>: windows and the calendar, the stable sort and weighted medians, bonds, strikes and prizes, and the
  settlement of a component from its sources.

  \<^bold>\<open>Not modelled.\<close> The derivation of program addresses, signatures and the token program are answers given to an
  instruction. The account checks around the staking and credit instructions, and the handlers of the Earn vaults and
  pools; the parsing of instruction data, logs and the allocator; the solver and the clients, which run off chain; the
  oracle's handlers, governance and the earlier options program are outside the library.
\<close>

end
